(* ===== verification/Prelude.thy ===== *)
theory Prelude
  imports Main "HOL-Library.Word"
begin

text \<open>
  Shared vocabulary of the development: the machine integers of the C code (ILP32: \<open>int\<close> and
  \<open>long\<close> are 32 bits, \<open>vlong\<close> 64, \<open>Rune\<close> 16, \<open>uchar\<close> 8), the result type of operations that
  can call \<open>error()\<close>, trap or leave the defined part of C, big-endian byte strings, and the
  lemma collections the component theories add to.
\<close>

unbundle bit_operations_syntax

type_synonym u8 = "8 word"
type_synonym u16 = "16 word"
type_synonym u32 = "32 word"
type_synonym u64 = "64 word"

named_theorems codec_simps \<open>round trips of encoders and decoders\<close>
named_theorems len_simps \<open>lengths of encodings and buffers\<close>

section \<open>Results of fallible C code\<close>

text \<open>
  \<open>Raise s\<close> is a call of \<open>error(s)\<close>, which unwinds to the interpreter loop; \<open>Trap\<close> is a
  hardware fault (division by zero); \<open>Undef\<close> is an access C leaves undefined (a freed block,
  a read past a buffer, an over-wide shift); \<open>Loop\<close> stands for a loop of the source that does not end.
\<close>

datatype verror = Raise string | Trap | Undef | Loop

type_synonym 'a res = "verror + 'a"

definition bindR :: "'a res \<Rightarrow> ('a \<Rightarrow> 'b res) \<Rightarrow> 'b res" where
  "bindR m f = (case m of Inl e \<Rightarrow> Inl e | Inr x \<Rightarrow> f x)"

lemma bindR_simps [simp]:
  "bindR (Inl e) f = Inl e"
  "bindR (Inr x) f = f x"
  by (simp_all add: bindR_def)

lemma bindR_eq_Inr [simp]: "bindR m f = Inr y \<longleftrightarrow> (\<exists>x. m = Inr x \<and> f x = Inr y)"
  by (cases m) auto

lemma bindR_assoc: "bindR (bindR m f) g = bindR m (\<lambda>x. bindR (f x) g)"
  by (cases m) auto

text \<open>Folding a fallible operation over a list, stopping at the first failure.\<close>

fun foldR :: "('a \<Rightarrow> 's \<Rightarrow> 's res) \<Rightarrow> 'a list \<Rightarrow> 's \<Rightarrow> 's res" where
  "foldR f [] s = Inr s"
| "foldR f (x # xs) s = bindR (f x s) (foldR f xs)"

lemma foldR_append: "foldR f (xs @ ys) s = bindR (foldR f xs s) (foldR f ys)"
proof (induction xs arbitrary: s)
  case (Cons x xs)
  then show ?case by (cases "f x s") auto
qed simp

lemma foldR_rule:
  assumes "\<And>x xs s. P (x # xs) s \<Longrightarrow> \<exists>s'. f x s = Inr s' \<and> P xs s'"
  shows "P xs s \<Longrightarrow> \<exists>s'. foldR f xs s = Inr s' \<and> P [] s'"
proof (induction xs arbitrary: s)
  case Nil
  then show ?case by simp
next
  case (Cons x xs)
  from assms [OF Cons.prems] obtain s1 where "f x s = Inr s1" and "P xs s1" by blast
  with Cons.IH [of s1] show ?case by auto
qed

section \<open>Signed ranges and bits\<close>

text \<open>A word whose signed value fits in \<open>Suc n\<close> bits repeats bit \<open>n\<close> above \<open>n\<close>.\<close>

lemma signed_range_iff:
  fixes w :: "'a::len word"
  assumes "Suc n < LENGTH('a)"
  shows "(- (2 ^ n) \<le> sint w \<and> sint w < 2 ^ n) \<longleftrightarrow> signed_take_bit n (sint w) = sint w"
  by (simp add: signed_take_bit_int_eq_self_iff)

lemma signed_range_bit:
  fixes w :: "'a::len word"
  assumes "- (2 ^ n) \<le> sint w" and "sint w < 2 ^ n" and "n \<le> i" and "i < LENGTH('a)"
  shows "bit w i = bit w n"
proof -
  have eq: "signed_take_bit n (sint w) = sint w"
    using assms(1,2) by (simp add: signed_take_bit_int_eq_self_iff)
  have "bit (sint w) i = bit (sint w) n"
    by (subst (1) eq [symmetric]) (use assms(3) in \<open>simp add: bit_signed_take_bit_iff min_def\<close>)
  then show ?thesis
    using assms(3,4) by (simp add: bit_sint_iff)
qed

text \<open>Bits at or above the magnitude of a word are clear.\<close>

lemma bit_above: "unat w < 2 ^ n \<Longrightarrow> n \<le> i \<Longrightarrow> \<not> bit w i" for w :: "'a::len word"
proof
  assume *: "unat w < 2 ^ n" "n \<le> i" "bit w i"
  then have "bit (unat w) i" by (simp add: bit_unsigned_iff bit_imp_le_length)
  moreover have "take_bit n (unat w) = unat w" using * by (simp add: take_bit_nat_eq_self_iff)
  ultimately have "bit (take_bit n (unat w)) i" by simp
  then show False using * by (simp add: bit_take_bit_iff)
qed

lemma bit_beyond [simp]:
  "8 \<le> n \<Longrightarrow> \<not> bit (a :: u8) n"
  "16 \<le> n \<Longrightarrow> \<not> bit (b :: u16) n"
  "32 \<le> n \<Longrightarrow> \<not> bit (c :: u32) n"
  using bit_imp_le_length [of a n] bit_imp_le_length [of b n] bit_imp_le_length [of c n] by auto

lemma unat_ucast_le:
  "LENGTH('a::len) \<le> LENGTH('b::len) \<Longrightarrow> unat (ucast (w :: 'a word) :: 'b word) = unat w"
  by (simp add: unsigned_ucast_eq take_bit_nat_eq_self_iff)
    (meson order_less_le_trans unsigned_less power_increasing one_le_numeral)

text \<open>A byte below 128 is the same as a signed or an unsigned \<open>char\<close>.\<close>

lemma sint_u8: "unat c < 128 \<Longrightarrow> sint c = int (unat c)" for c :: u8
proof -
  assume "unat c < 128"
  then have "int (unat c) < 128" by linarith
  then have "uint c < 128" unfolding of_nat_unat .
  then show ?thesis
    by (simp add: sint_uint signed_take_bit_int_eq_self_iff order_trans [OF _ uint_ge_0])
qed

text \<open>Equality of words decided bit by bit; the bit positions are numerals for the simplifier.\<close>

lemma upt_8: "[0..<8] = [0, 1, 2, 3, 4, 5, 6, 7 :: nat]"
  by code_simp

lemma upt_32: "[0..<32] = [0, 1, 2, 3, 4, 5, 6, 7, 8, 9, 10, 11, 12, 13, 14, 15, 16, 17, 18, 19,
    20, 21, 22, 23, 24, 25, 26, 27, 28, 29, 30, 31 :: nat]"
  by code_simp

lemma word8_eq_bits: "list_all (\<lambda>n. bit v n = bit w n) [0..<8] \<Longrightarrow> v = w" for v w :: u8
  by (rule bit_word_eqI) (simp add: list_all_iff)

lemma word32_eq_bits: "list_all (\<lambda>n. bit v n = bit w n) [0..<32] \<Longrightarrow> v = w" for v w :: u32
  by (rule bit_word_eqI) (simp add: list_all_iff)

lemma word8_eq_iff: "v = w \<longleftrightarrow> list_all (\<lambda>n. bit v n = bit w n) [0..<8]" for v w :: u8
  using word8_eq_bits by (auto simp: list_all_iff)

section \<open>Big-endian byte strings\<close>

definition be32 :: "u32 \<Rightarrow> u8 list" where
  "be32 w = [ucast (drop_bit 24 w), ucast (drop_bit 16 w), ucast (drop_bit 8 w), ucast w]"

definition of_be32 :: "u8 \<Rightarrow> u8 \<Rightarrow> u8 \<Rightarrow> u8 \<Rightarrow> u32" where
  "of_be32 a b c d =
     push_bit 24 (ucast a) OR push_bit 16 (ucast b) OR push_bit 8 (ucast c) OR ucast d"

lemma of_be32_be32 [codec_simps]:
  "of_be32 (ucast (drop_bit 24 w)) (ucast (drop_bit 16 w)) (ucast (drop_bit 8 w)) (ucast w) = w"
  unfolding of_be32_def by (rule word32_eq_bits) (simp add: upt_32 bit_simps)

lemma length_be32 [len_simps, simp]: "length (be32 w) = 4"
  by (simp add: be32_def)

end
