(* ===== verification/Codec.thy ===== *)
theory Codec
  imports Prelude
begin

text \<open>
  The interface between the writers and the readers of the system's byte formats: an encoder
  of one item and a decoder that takes one item off the front of a stream. Every format of the
  development (UTF-8 runes, operands, big-endian words, instructions, type descriptors, data items)
  is an interpretation, and gets the round trip of whole sequences from here.
\<close>

text \<open>\<open>dec_n d n s\<close> is the readers' counted loop: \<open>n\<close> items off the stream \<open>s\<close>.\<close>

fun dec_n :: "('b list \<Rightarrow> ('a \<times> 'b list) option) \<Rightarrow> nat \<Rightarrow> 'b list \<Rightarrow> ('a list \<times> 'b list) option"
where
  "dec_n d 0 s = Some ([], s)"
| "dec_n d (Suc n) s =
    (case d s of None \<Rightarrow> None
     | Some (x, s') \<Rightarrow>
        (case dec_n d n s' of None \<Rightarrow> None | Some (xs, s'') \<Rightarrow> Some (x # xs, s'')))"

definition enc_all :: "('a \<Rightarrow> 'b list) \<Rightarrow> 'a list \<Rightarrow> 'b list" where
  "enc_all e xs = concat (map e xs)"

lemma enc_all_simps [simp]:
  "enc_all e [] = []"
  "enc_all e (x # xs) = e x @ enc_all e xs"
  "enc_all e (xs @ ys) = enc_all e xs @ enc_all e ys"
  by (simp_all add: enc_all_def)

lemma dec_n_length: "dec_n d n s = Some (xs, s') \<Longrightarrow> length xs = n"
  by (induction n arbitrary: s xs) (auto split: option.splits)

text \<open>
  \<open>view x\<close> is what the reader makes of the item \<open>x\<close>: the item itself, or the loader's form of it.
\<close>

locale stream_codec =
  fixes enc :: "'a \<Rightarrow> 'b list"
    and dec :: "'b list \<Rightarrow> ('c \<times> 'b list) option"
    and view :: "'a \<Rightarrow> 'c"
    and valid :: "'a \<Rightarrow> bool"
  assumes dec_enc: "valid x \<Longrightarrow> dec (enc x @ t) = Some (view x, t)"
begin

lemma enc_prefix_free:
  assumes "valid x" and "valid y" and "enc x @ s = enc y @ t"
  shows "view x = view y \<and> s = t"
proof -
  have "Some (view x, s) = dec (enc y @ t)"
    using dec_enc [OF assms(1), of s] unfolding assms(3) by (rule sym)
  with dec_enc [OF assms(2), of t] show ?thesis by simp
qed

lemma dec_n_enc_all:
  "list_all valid xs \<Longrightarrow> dec_n dec (length xs) (enc_all enc xs @ t) = Some (map view xs, t)"
  by (induction xs) (simp_all add: dec_enc)

end

text \<open>A codec whose reader loses nothing: distinct items have distinct encodings.\<close>

locale lossless_codec = stream_codec +
  assumes view_inj: "valid x \<Longrightarrow> valid y \<Longrightarrow> view x = view y \<Longrightarrow> x = y"
begin

lemma enc_inj: "valid x \<Longrightarrow> valid y \<Longrightarrow> enc x = enc y \<Longrightarrow> x = y"
  using enc_prefix_free [of x y "[]" "[]"] view_inj by simp

lemma map_view_inj:
  "list_all valid xs \<Longrightarrow> list_all valid ys \<Longrightarrow> map view xs = map view ys \<Longrightarrow> xs = ys"
proof (induction xs arbitrary: ys)
  case Nil
  then show ?case by simp
next
  case (Cons x xs)
  then show ?case by (cases ys) (simp_all add: view_inj)
qed

lemma enc_all_inj:
  assumes "list_all valid xs" and "list_all valid ys" and "length xs = length ys"
    and "enc_all enc xs = enc_all enc ys"
  shows "xs = ys"
proof -
  have "Some (map view xs, []) = dec_n dec (length ys) (enc_all enc ys @ [])"
    using dec_n_enc_all [OF assms(1), of "[]"] unfolding assms(3,4) by (rule sym)
  with dec_n_enc_all [OF assms(2), of "[]"] have "map view xs = map view ys" by simp
  with assms(1,2) show ?thesis by (rule map_view_inj)
qed

end

end
