(* ===== verification/Operand.thy ===== *)
theory Operand
  imports Codec
begin

text \<open>
  The variable-length operands and the big-endian words of Dis object files: the compiler's
  writers \<open>discon\<close> and \<open>disword\<close> (\<^verbatim>\<open>limbo/dis.c\<close>) and the loader's readers \<open>operand\<close> and \<open>disw\<close>
  (\<^verbatim>\<open>interp/load.c\<close>). The output is the list of bytes \<open>Bputc\<close> appends; \<open>None\<close> is the writer's
  \<open>fatal\<close> exit, and for a reader a stream that ends inside the item (C reads past the buffer).
\<close>

section \<open>Writers\<close>

definition discon :: "u32 \<Rightarrow> u8 list option" where
  "discon val =
    (if - 64 \<le> sint val \<and> sint val \<le> 63 then Some [ucast (val AND NOT 0x80)]
     else if - 8192 \<le> sint val \<and> sint val \<le> 8191 then
       Some [ucast ((signed_drop_bit 8 val AND NOT 0xC0) OR 0x80), ucast val]
     else if sint val < 0 \<and> signed_drop_bit 29 val AND 0x7 \<noteq> 7
          \<or> sint val > 0 \<and> signed_drop_bit 29 val \<noteq> 0 then None
     else Some [ucast (signed_drop_bit 24 val OR 0xC0), ucast (signed_drop_bit 16 val),
       ucast (signed_drop_bit 8 val), ucast val])"

definition disword :: "u32 \<Rightarrow> u8 list" where
  "disword w = [ucast (signed_drop_bit 24 w), ucast (signed_drop_bit 16 w),
     ucast (signed_drop_bit 8 w), ucast w]"

section \<open>Readers\<close>

fun operand :: "u8 list \<Rightarrow> (u32 \<times> u8 list) option" where
  "operand [] = None"
| "operand (c0 # cp) =
    (let c = ucast c0 :: u32 in
     if c AND 0xC0 = 0x00 then Some (c, cp)
     else if c AND 0xC0 = 0x40 then Some (c OR NOT 0x7F, cp)
     else let c' = (if c AND 0x20 \<noteq> 0 then c OR NOT 0x3F else c AND 0x3F) in
     if c AND 0xC0 = 0x80 then
       (case cp of c1 # r \<Rightarrow> Some (push_bit 8 c' OR ucast c1, r) | _ \<Rightarrow> None)
     else
       (case cp of c1 # c2 # c3 # r \<Rightarrow>
          Some (push_bit 24 c' OR push_bit 16 (ucast c1) OR push_bit 8 (ucast c2) OR ucast c3, r)
        | _ \<Rightarrow> None))"

fun disw :: "u8 list \<Rightarrow> (u32 \<times> u8 list) option" where
  "disw (c0 # c1 # c2 # c3 # r) =
    Some (push_bit 24 (ucast c0) OR push_bit 16 (ucast c1) OR push_bit 8 (ucast c2) OR ucast c3, r)"
| "disw _ = None"

section \<open>Lemmas\<close>

lemma sint_range_bits:
  fixes w :: u32
  assumes "- (2 ^ n) \<le> sint w" and "sint w < 2 ^ n" and "n \<le> i" and "i < 32"
  shows "bit w i = bit w n"
  using signed_range_bit [of n w i] assms by simp

lemma operand_discon1:
  assumes "- 64 \<le> sint (v :: u32)" and "sint v \<le> 63"
  shows "operand (ucast (v AND NOT 0x80) # t) = Some (v, t)"
proof -
  let ?c = "ucast (ucast (v AND NOT 0x80) :: u8) :: u32"
  have b: "bit v i = bit v 6" if "6 < i" "i < 32" for i
    using sint_range_bits [of 6 v i] assms that by simp
  have "?c AND 0xC0 = (if bit v 6 then 0x40 else 0)"
    by (rule word32_eq_bits) (simp add: upt_32 bit_simps)
  moreover have "?c = v" if "\<not> bit v 6"
    using that by (intro word32_eq_bits) (simp add: upt_32 bit_simps b)
  moreover have "?c OR NOT 0x7F = v" if "bit v 6"
    using that by (intro word32_eq_bits) (simp add: upt_32 bit_simps b)
  ultimately show ?thesis by (cases "bit v 6") (simp_all add: Let_def)
qed

lemma operand_discon2:
  assumes "- 8192 \<le> sint (v :: u32)" and "sint v \<le> 8191"
  shows "operand (ucast ((signed_drop_bit 8 v AND NOT 0xC0) OR 0x80) # ucast v # t) = Some (v, t)"
proof -
  let ?c = "ucast (ucast ((signed_drop_bit 8 v AND NOT 0xC0) OR 0x80) :: u8) :: u32"
  have b: "bit v i = bit v 13" if "13 < i" "i < 32" for i
    using sint_range_bits [of 13 v i] assms that by simp
  have "?c AND 0xC0 = 0x80" "?c AND 0x20 = (if bit v 13 then 0x20 else 0)"
    by (rule word32_eq_bits, simp add: upt_32 bit_simps)+
  moreover have "push_bit 8 (?c AND 0x3F) OR ucast (ucast v :: u8) = v" if "\<not> bit v 13"
    using that by (intro word32_eq_bits) (simp add: upt_32 bit_simps b)
  moreover have "push_bit 8 (?c OR NOT 0x3F) OR ucast (ucast v :: u8) = v" if "bit v 13"
    using that by (intro word32_eq_bits) (simp add: upt_32 bit_simps b)
  ultimately show ?thesis by (cases "bit v 13") (simp_all add: Let_def)
qed

lemma operand_discon4:
  assumes "- (2 ^ 29) \<le> sint (v :: u32)" and "sint v < 2 ^ 29"
  shows "operand (ucast (signed_drop_bit 24 v OR 0xC0) # ucast (signed_drop_bit 16 v) #
    ucast (signed_drop_bit 8 v) # ucast v # t) = Some (v, t)"
proof -
  let ?c = "ucast (ucast (signed_drop_bit 24 v OR 0xC0) :: u8) :: u32"
  let ?rest = "push_bit 16 (ucast (ucast (signed_drop_bit 16 v) :: u8)) OR
    push_bit 8 (ucast (ucast (signed_drop_bit 8 v) :: u8)) OR ucast (ucast v :: u8) :: u32"
  have b: "bit v i = bit v 29" if "29 < i" "i < 32" for i
    using sint_range_bits [of 29 v i] assms that by simp
  have "?c AND 0xC0 = 0xC0" "?c AND 0x20 = (if bit v 29 then 0x20 else 0)"
    by (rule word32_eq_bits, simp add: upt_32 bit_simps)+
  moreover have "push_bit 24 (?c AND 0x3F) OR ?rest = v" if "\<not> bit v 29"
    using that by (intro word32_eq_bits) (simp add: upt_32 bit_simps b)
  moreover have "push_bit 24 (?c OR NOT 0x3F) OR ?rest = v" if "bit v 29"
    using that by (intro word32_eq_bits) (simp add: upt_32 bit_simps b)
  ultimately show ?thesis by (cases "bit v 29") (simp_all add: Let_def or.assoc)
qed

text \<open>The overflow test of \<open>discon\<close> accepts the 30-bit signed range.\<close>

lemma overflow_test:
  fixes v :: u32
  shows "(sint v < 0 \<and> signed_drop_bit 29 v AND 0x7 \<noteq> 7
    \<or> sint v > 0 \<and> signed_drop_bit 29 v \<noteq> 0) \<longleftrightarrow> \<not> (- (2 ^ 29) \<le> sint v \<and> sint v < 2 ^ 29)"
proof (cases "sint v < 0")
  case True
  let ?d = "signed_drop_bit 29 v"
  have lo: "- (2 ^ 31) \<le> sint v" using sint_greater_eq [of v] by simp
  have "sint ?d = sint v div 2 ^ 29" by (simp add: sint_signed_drop_bit_eq drop_bit_eq_div)
  then have d: "?d = word_of_int (sint v div 2 ^ 29)"
    by (metis of_int_sint scast_id)
  have "- 4 \<le> sint v div 2 ^ 29" "sint v div 2 ^ 29 \<le> - 1" using lo True by auto
  then have "sint v div 2 ^ 29 = - 4 \<or> sint v div 2 ^ 29 = - 3 \<or> sint v div 2 ^ 29 = - 2
    \<or> sint v div 2 ^ 29 = - 1" by linarith
  then have "?d AND 0x7 = 7 \<longleftrightarrow> sint v div 2 ^ 29 = - 1" by (elim disjE) (simp_all add: d)
  also have "\<dots> \<longleftrightarrow> - (2 ^ 29) \<le> sint v" using True by auto
  finally show ?thesis using True by auto
next
  case False
  have "sint (signed_drop_bit 29 v) = sint v div 2 ^ 29"
    by (simp add: sint_signed_drop_bit_eq drop_bit_eq_div)
  then have "signed_drop_bit 29 v = 0 \<longleftrightarrow> sint v div 2 ^ 29 = 0"
    by (metis signed_eq_0_iff)
  with False show ?thesis by auto
qed

declare operand.simps [simp del]

lemma operand_discon:
  assumes "discon v = Some bs"
  shows "operand (bs @ t) = Some (v, t)"
proof -
  consider (one) "- 64 \<le> sint v" "sint v \<le> 63"
    | (two) "\<not> (- 64 \<le> sint v \<and> sint v \<le> 63)" "- 8192 \<le> sint v" "sint v \<le> 8191"
    | (four) "\<not> (- 64 \<le> sint v \<and> sint v \<le> 63)" "\<not> (- 8192 \<le> sint v \<and> sint v \<le> 8191)"
    by blast
  then show ?thesis
  proof cases
    case one
    then show ?thesis using assms operand_discon1 [of v t] by (auto simp: discon_def)
  next
    case two
    then show ?thesis using assms operand_discon2 [of v t] by (auto simp: discon_def)
  next
    case four
    then have "- (2 ^ 29) \<le> sint v \<and> sint v < 2 ^ 29"
      using assms overflow_test [of v] by (auto simp: discon_def split: if_splits)
    then show ?thesis
      using four assms operand_discon4 [of v t] overflow_test [of v] by (auto simp: discon_def)
  qed
qed

lemma discon_defined: "- (2 ^ 29) \<le> sint v \<Longrightarrow> sint v < 2 ^ 29 \<Longrightarrow> \<exists>bs. discon v = Some bs"
  using overflow_test [of v] by (auto simp: discon_def)

lemma disw_disword: "disw (disword w @ t) = Some (w, t)"
  by (simp add: disword_def, rule word32_eq_bits) (simp add: upt_32 bit_simps)

section \<open>The two codecs\<close>

definition discon_bytes :: "u32 \<Rightarrow> u8 list" where
  "discon_bytes v = (case discon v of Some bs \<Rightarrow> bs | None \<Rightarrow> [])"

interpretation opnd: lossless_codec discon_bytes operand "\<lambda>v. v" "\<lambda>v. discon v \<noteq> None"
  by unfold_locales (auto simp: discon_bytes_def operand_discon)

interpretation dword: lossless_codec disword disw "\<lambda>w. w" "\<lambda>_. True"
  by unfold_locales (simp_all add: disw_disword)

lemma length_disword [len_simps, simp]: "length (disword w) = 4"
  by (simp add: disword_def)

lemma discon_length: "discon v = Some bs \<Longrightarrow> length bs \<in> {1, 2, 4}"
  by (auto simp: discon_def split: if_splits)

section \<open>Properties\<close>

text \<open>
  C14. \<open>discon\<close> rejects exactly the constants outside the 30-bit signed range, and what it writes
  the loader's \<open>operand\<close> reads back as the same 32-bit value, leaving the rest of the stream.
\<close>

theorem operand_roundtrip:
  "(discon v = None \<longleftrightarrow> \<not> (- (2 ^ 29) \<le> sint v \<and> sint v < 2 ^ 29)) \<and>
   (case discon v of None \<Rightarrow> True
    | Some bs \<Rightarrow> length bs \<in> {1, 2, 4} \<and> operand (bs @ t) = Some (v, t))"
proof -
  have "discon v = None \<longleftrightarrow> \<not> (- (2 ^ 29) \<le> sint v \<and> sint v < 2 ^ 29)"
    using overflow_test [of v] by (auto simp: discon_def)
  then show ?thesis
    using operand_discon [of v] discon_length [of v] by (simp split: option.split)
qed

text \<open>
  A sequence of operands followed by a sequence of big-endian words reads back item by item
  with the loader's counted loops, and no two different operand sequences of the same length have
  the same bytes.
\<close>

theorem operand_sequence_roundtrip:
  assumes "list_all (\<lambda>v. discon v \<noteq> None) vs"
  shows "dec_n operand (length vs) (enc_all discon_bytes vs @ enc_all disword ws @ t) =
      Some (vs, enc_all disword ws @ t) \<and>
    dec_n disw (length ws) (enc_all disword ws @ t) = Some (ws, t)"
  using opnd.dec_n_enc_all [OF assms] dword.dec_n_enc_all [of ws t] by (simp add: list_all_iff)

theorem operand_sequence_roundtrip_witness:
  "dec_n operand (length [5, - 70, 0x12345 :: u32]) (enc_all discon_bytes [5, - 70, 0x12345] @
      enc_all disword [0xDEADBEEF] @ [1]) =
      Some ([5, - 70, 0x12345], enc_all disword [0xDEADBEEF] @ [1]) \<and>
    dec_n disw (length [0xDEADBEEF :: u32]) (enc_all disword [0xDEADBEEF] @ [1]) =
      Some ([0xDEADBEEF], [1])"
  by (rule operand_sequence_roundtrip) (simp add: discon_def)

end
