(* ===== verification/DisFile.thy ===== *)
theory DisFile
  imports Operand "HOL-Library.Monad_Syntax"
begin

text \<open>
  Instructions and type descriptors in Dis object files: the compiler's \<open>disinst\<close>, \<open>disaddr\<close>
  and \<open>disdesc\<close> (\<^verbatim>\<open>limbo/dis.c\<close>) against the loader's loops in \<open>parsemod\<close> with \<open>brpatch\<close>
  (\<^verbatim>\<open>interp/load.c\<close>). Constants are those of \<^verbatim>\<open>include/isa.h\<close>.
\<close>

section \<open>Instruction set constants\<close>

abbreviation AMP :: u8 where "AMP \<equiv> 0x00"
abbreviation AFP :: u8 where "AFP \<equiv> 0x01"
abbreviation AIMM :: u8 where "AIMM \<equiv> 0x02"
abbreviation AXXX :: u8 where "AXXX \<equiv> 0x03"
abbreviation AIND :: u8 where "AIND \<equiv> 0x04"
abbreviation AMASK :: u8 where "AMASK \<equiv> 0x07"
abbreviation ARM :: u8 where "ARM \<equiv> 0xC0"
abbreviation AXNON :: u8 where "AXNON \<equiv> 0x00"
abbreviation AXIMM :: u8 where "AXIMM \<equiv> 0x40"
abbreviation AXINF :: u8 where "AXINF \<equiv> 0x80"
abbreviation AXINM :: u8 where "AXINM \<equiv> 0xC0"

abbreviation ICALL :: u8 where "ICALL \<equiv> 4"
abbreviation ISPAWN :: u8 where "ISPAWN \<equiv> 6"
abbreviation IJMP :: u8 where "IJMP \<equiv> 13"

definition SRC :: "u8 \<Rightarrow> u8" where "SRC x = push_bit 3 x"
definition DST :: "u8 \<Rightarrow> u8" where "DST x = push_bit 0 x"
definition USRC :: "u8 \<Rightarrow> u8" where "USRC x = drop_bit 3 x AND AMASK"
definition UDST :: "u8 \<Rightarrow> u8" where "UDST x = x AND AMASK"
definition UXSRC :: "u8 \<Rightarrow> u8" where "UXSRC x = x AND push_bit 3 AMASK"
definition UXDST :: "u8 \<Rightarrow> u8" where "UXDST x = x AND push_bit 0 AMASK"

section \<open>The compiler's side\<close>

datatype amode = Aimm | Amp | Ampind | Afp | Afpind | Apc | Adesc | Aoff | Aerr | Anone

record addr =
  amode :: amode
  areg :: u32
  aoffset :: u32
  aiface :: u32   \<comment> \<open>\<open>decl->iface->offset\<close>, used by \<open>Aoff\<close> only\<close>

record cinst =
  cop :: u8
  cs :: addr
  cd :: addr
  cm :: addr

fun dismode :: "amode \<Rightarrow> u8" where
  "dismode Aimm = AIMM" | "dismode Amp = AMP" | "dismode Ampind = AMP OR AIND"
| "dismode Afp = AFP" | "dismode Afpind = AFP OR AIND" | "dismode Apc = AIMM"
| "dismode Adesc = AIMM" | "dismode Aoff = AIMM" | "dismode Aerr = AXXX" | "dismode Anone = AXXX"

fun disregmode :: "amode \<Rightarrow> u8" where
  "disregmode Aimm = AXIMM" | "disregmode Amp = AXINM" | "disregmode Ampind = AXNON"
| "disregmode Afp = AXINF" | "disregmode Afpind = AXNON" | "disregmode Apc = AXIMM"
| "disregmode Adesc = AXIMM" | "disregmode Aoff = AXIMM" | "disregmode Aerr = AXNON"
| "disregmode Anone = AXNON"

definition disaddr :: "addr \<Rightarrow> u8 list option" where
  "disaddr a =
    (case amode a of
       Anone \<Rightarrow> discon 0
     | Aerr \<Rightarrow> discon 0
     | Aimm \<Rightarrow> discon (aoffset a)
     | Apc \<Rightarrow> discon (aoffset a)
     | Adesc \<Rightarrow> discon (aoffset a)
     | Aoff \<Rightarrow> discon (aiface a)
     | Afp \<Rightarrow> discon (areg a)
     | Amp \<Rightarrow> discon (areg a)
     | Afpind \<Rightarrow> do { r \<leftarrow> discon (areg a); v \<leftarrow> discon (aoffset a); Some (r @ v) }
     | Ampind \<Rightarrow> do { r \<leftarrow> discon (areg a); v \<leftarrow> discon (aoffset a); Some (r @ v) })"

definition disaddr' :: "addr \<Rightarrow> u8 list option" where
  "disaddr' a = (if amode a \<noteq> Anone then disaddr a else Some [])"

definition disinst1 :: "cinst \<Rightarrow> u8 list option" where
  "disinst1 i =
    do { m \<leftarrow> disaddr' (cm i); s \<leftarrow> disaddr' (cs i); d \<leftarrow> disaddr' (cd i);
      Some ([cop i, SRC (dismode (amode (cs i))) OR DST (dismode (amode (cd i)))
                     OR disregmode (amode (cm i))] @ m @ s @ d) }"

fun disinst :: "cinst list \<Rightarrow> u8 list option" where
  "disinst [] = Some []"
| "disinst (i # is) = do { b \<leftarrow> disinst1 i; bs \<leftarrow> disinst is; Some (b @ bs) }"

record desc =
  did :: u32
  dlen :: u32
  dmap :: "u8 list"

definition disdesc1 :: "desc \<Rightarrow> u8 list option" where
  "disdesc1 d =
    do { i \<leftarrow> discon (did d); l \<leftarrow> discon (dlen d); n \<leftarrow> discon (word_of_nat (length (dmap d)));
      Some (i @ l @ n @ dmap d) }"

fun disdesc :: "desc list \<Rightarrow> u8 list option" where
  "disdesc [] = Some []"
| "disdesc (d # ds) = do { b \<leftarrow> disdesc1 d; bs \<leftarrow> disdesc ds; Some (b @ bs) }"

section \<open>The loader's side\<close>

text \<open>
  The operand union \<open>Adr\<close>: an immediate or an offset, a pair of 16-bit offsets, or, after
  \<open>brpatch\<close>, the address of an instruction, here its index in \<open>m->prog\<close>.
\<close>

datatype adr = Ind u32 | IndInd u16 u16 | Ins int

record inst =
  iop :: u8
  iadd :: u8
  ireg :: u16
  isrc :: adr
  idst :: adr

definition branch_ops :: "u8 list" where
  "branch_ops = [ICALL, IJMP,
    93, 94, 95, 96, 97, 98,       \<comment> \<open>\<open>IBEQW\<close> .. \<open>IBGEW\<close>\<close>
    87, 88, 89, 90, 91, 92,       \<comment> \<open>\<open>IBEQB\<close> .. \<open>IBGEB\<close>\<close>
    99, 100, 101, 102, 103, 104,  \<comment> \<open>\<open>IBEQF\<close> .. \<open>IBGEF\<close>\<close>
    105, 106, 107, 108, 109, 110, \<comment> \<open>\<open>IBEQC\<close> .. \<open>IBGEC\<close>\<close>
    134, 129, 130, 131, 132, 133  \<comment> \<open>\<open>IBEQL\<close>, \<open>IBNEL\<close> .. \<open>IBGEL\<close>\<close>]"

fun brpatch :: "u8 \<Rightarrow> adr \<Rightarrow> adr" where
  "brpatch op (Ind v) =
    (if op \<in> set branch_ops then Ins (sint v - 1)
     else if op = ISPAWN then Ins (sint v) else Ind v)"
| "brpatch op a = a"

definition load_mid :: "u8 \<Rightarrow> u8 list \<Rightarrow> (u16 \<times> u8 list) option" where
  "load_mid add st =
    (if add AND ARM \<in> {AXIMM, AXINF, AXINM}
     then do { (v, s) \<leftarrow> operand st; Some (ucast v, s) }
     else Some (0, st))"

definition load_src :: "u8 \<Rightarrow> u8 list \<Rightarrow> (adr \<times> u8 list) option" where
  "load_src add st =
    (if UXSRC add \<in> {SRC AFP, SRC AMP, SRC AIMM}
     then do { (v, s) \<leftarrow> operand st; Some (Ind v, s) }
     else if UXSRC add \<in> {SRC (AIND OR AFP), SRC (AIND OR AMP)}
     then do { (f, s) \<leftarrow> operand st; (v, s') \<leftarrow> operand s; Some (IndInd (ucast f) (ucast v), s') }
     else Some (Ind 0, st))"

definition load_dst :: "u8 \<Rightarrow> u8 \<Rightarrow> u8 list \<Rightarrow> (adr \<times> u8 list) option" where
  "load_dst op add st =
    (if UXDST add \<in> {DST AFP, DST AMP}
     then do { (v, s) \<leftarrow> operand st; Some (Ind v, s) }
     else if UXDST add = DST AIMM
     then do { (v, s) \<leftarrow> operand st; Some (brpatch op (Ind v), s) }
     else if UXDST add \<in> {DST (AIND OR AFP), DST (AIND OR AMP)}
     then do { (f, s) \<leftarrow> operand st; (v, s') \<leftarrow> operand s; Some (IndInd (ucast f) (ucast v), s') }
     else Some (Ind 0, st))"

definition load_inst :: "u8 list \<Rightarrow> (inst \<times> u8 list) option" where
  "load_inst st =
    (case st of op # add # st0 \<Rightarrow>
      do { (r, st1) \<leftarrow> load_mid add st0;
           (src, st2) \<leftarrow> load_src add st1;
           (dst, st3) \<leftarrow> load_dst op add st2;
           Some (\<lparr>iop = op, iadd = add, ireg = r, isrc = src, idst = dst\<rparr>, st3) }
     | _ \<Rightarrow> None)"

record tdesc =
  tsize :: u32
  tmap :: "u8 list"

text \<open>
  The type table \<open>m->type\<close> has \<open>hsize\<close> entries; \<open>None\<close> is an entry not yet written (\<open>malloc\<close> does
  not clear it). \<open>parse_desc\<close> reads one descriptor and \<open>load_desc\<close> stores it. The code tests
  \<open>id > hsize\<close> only, so a store with identifier \<open>hsize\<close>, or with a negative one, is outside the
  table: \<open>Overrun\<close>, where the behaviour of the C program is undefined. \<open>ShortFile\<close> is a read past the
  end of the file, which the code does not test.
\<close>

datatype load_error = HeapIdRange | ShortFile | Overrun

type_synonym type_table = "tdesc option list"

definition parse_desc :: "int \<Rightarrow> u8 list \<Rightarrow> load_error + ((u32 \<times> tdesc) \<times> u8 list)" where
  "parse_desc hsize st =
    (case operand st of None \<Rightarrow> Inl ShortFile
     | Some (i, st1) \<Rightarrow>
       if sint i > hsize then Inl HeapIdRange
       else (case operand st1 of None \<Rightarrow> Inl ShortFile
       | Some (tsz, st2) \<Rightarrow>
         (case operand st2 of None \<Rightarrow> Inl ShortFile
         | Some (tnp, st3) \<Rightarrow>
           if length st3 < unat tnp then Inl ShortFile
           else Inr ((i, \<lparr>tsize = tsz, tmap = take (unat tnp) st3\<rparr>), drop (unat tnp) st3))))"

definition store_desc :: "u32 \<Rightarrow> tdesc \<Rightarrow> type_table \<Rightarrow> load_error + type_table" where
  "store_desc i pt tab =
    (if sint i < 0 \<or> int (length tab) \<le> sint i then Inl Overrun else Inr (tab[nat (sint i) := Some pt]))"

definition load_desc :: "int \<Rightarrow> type_table \<Rightarrow> u8 list \<Rightarrow> load_error + (type_table \<times> u8 list)" where
  "load_desc hsize tab st =
    (case parse_desc hsize st of Inl e \<Rightarrow> Inl e
     | Inr ((i, pt), st') \<Rightarrow>
       (case store_desc i pt tab of Inl e \<Rightarrow> Inl e | Inr tab' \<Rightarrow> Inr (tab', st')))"

fun load_descs :: "nat \<Rightarrow> int \<Rightarrow> type_table \<Rightarrow> u8 list \<Rightarrow> load_error + (type_table \<times> u8 list)" where
  "load_descs 0 hsize tab st = Inr (tab, st)"
| "load_descs (Suc n) hsize tab st =
    (case load_desc hsize tab st of Inl e \<Rightarrow> Inl e
     | Inr (tab', st') \<Rightarrow> load_descs n hsize tab' st')"

definition load_types :: "nat \<Rightarrow> u8 list \<Rightarrow> load_error + (type_table \<times> u8 list)" where
  "load_types hsize st = load_descs hsize (int hsize) (replicate hsize None) st"

section \<open>Lemmas\<close>

lemma mode_bits [simp]:
  "3 \<le> n \<Longrightarrow> \<not> bit (dismode a) n"
  "n < 6 \<Longrightarrow> \<not> bit (disregmode c) n"
proof -
  have "unat (dismode a) < 2 ^ 3" by (cases a) simp_all
  then show "3 \<le> n \<Longrightarrow> \<not> bit (dismode a) n" by (rule bit_above)
  have "disregmode c = push_bit 6 (drop_bit 6 (disregmode c))" by (cases c) simp_all
  then show "n < 6 \<Longrightarrow> \<not> bit (disregmode c) n" by (metis bit_push_bit_iff not_le)
qed

lemma mode_fields:
  "UXSRC (SRC (dismode a) OR DST (dismode b) OR disregmode c) = SRC (dismode a)"
  "UXDST (SRC (dismode a) OR DST (dismode b) OR disregmode c) = DST (dismode b)"
  "(SRC (dismode a) OR DST (dismode b) OR disregmode c) AND ARM = disregmode c"
  unfolding UXSRC_def UXDST_def SRC_def DST_def
  by (rule word8_eq_bits, simp add: upt_8 bit_simps)+

text \<open>What the loader makes of an address, per position.\<close>

definition src_adr :: "addr \<Rightarrow> adr" where
  "src_adr a =
    (case amode a of
       Aimm \<Rightarrow> Ind (aoffset a) | Apc \<Rightarrow> Ind (aoffset a) | Adesc \<Rightarrow> Ind (aoffset a)
     | Aoff \<Rightarrow> Ind (aiface a) | Afp \<Rightarrow> Ind (areg a) | Amp \<Rightarrow> Ind (areg a)
     | Afpind \<Rightarrow> IndInd (ucast (areg a)) (ucast (aoffset a))
     | Ampind \<Rightarrow> IndInd (ucast (areg a)) (ucast (aoffset a))
     | Aerr \<Rightarrow> Ind 0 | Anone \<Rightarrow> Ind 0)"

definition mid_val :: "addr \<Rightarrow> u16" where
  "mid_val a = (case src_adr a of Ind v \<Rightarrow> ucast v | _ \<Rightarrow> 0)"

definition dst_adr :: "u8 \<Rightarrow> addr \<Rightarrow> adr" where
  "dst_adr op a = (if dismode (amode a) = AIMM then brpatch op (src_adr a) else src_adr a)"

lemma load_src_disaddr:
  assumes "amode a \<noteq> Aerr" and "disaddr' a = Some bs" and "UXSRC add = SRC (dismode (amode a))"
  shows "load_src add (bs @ t) = Some (src_adr a, t)"
  using assms
  by (cases "amode a")
    (auto simp: load_src_def src_adr_def disaddr'_def disaddr_def SRC_def operand_discon bind_eq_Some_conv)

lemma load_dst_disaddr:
  assumes "amode a \<noteq> Aerr" and "disaddr' a = Some bs" and "UXDST add = DST (dismode (amode a))"
  shows "load_dst op add (bs @ t) = Some (dst_adr op a, t)"
  using assms
  by (cases "amode a")
    (auto simp: load_dst_def disaddr'_def disaddr_def DST_def dst_adr_def src_adr_def operand_discon
      bind_eq_Some_conv)

lemma load_mid_disaddr:
  assumes "amode a \<notin> {Aerr, Ampind, Afpind}" and "disaddr' a = Some bs"
    and "add AND ARM = disregmode (amode a)"
  shows "load_mid add (bs @ t) = Some (mid_val a, t)"
  using assms
  by (cases "amode a")
    (auto simp: load_mid_def disaddr'_def disaddr_def mid_val_def src_adr_def operand_discon)

definition modes_ok :: "cinst \<Rightarrow> bool" where
  "modes_ok i \<longleftrightarrow> amode (cs i) \<noteq> Aerr \<and> amode (cd i) \<noteq> Aerr \<and>
     amode (cm i) \<notin> {Aerr, Ampind, Afpind}"

definition loaded :: "cinst \<Rightarrow> inst" where
  "loaded i = \<lparr>iop = cop i,
     iadd = SRC (dismode (amode (cs i))) OR DST (dismode (amode (cd i)))
       OR disregmode (amode (cm i)),
     ireg = mid_val (cm i), isrc = src_adr (cs i), idst = dst_adr (cop i) (cd i)\<rparr>"

lemma load_inst_disinst1:
  assumes "modes_ok i" and "disinst1 i = Some bs"
  shows "load_inst (bs @ t) = Some (loaded i, t)"
proof -
  let ?add = "SRC (dismode (amode (cs i))) OR DST (dismode (amode (cd i)))
    OR disregmode (amode (cm i))"
  from assms(2) obtain m s d where b: "disaddr' (cm i) = Some m" "disaddr' (cs i) = Some s"
    "disaddr' (cd i) = Some d" "bs = [cop i, ?add] @ m @ s @ d"
    by (auto simp: disinst1_def bind_eq_Some_conv)
  have "load_mid ?add (m @ s @ d @ t) = Some (mid_val (cm i), s @ d @ t)"
    "load_src ?add (s @ d @ t) = Some (src_adr (cs i), d @ t)"
    "load_dst (cop i) ?add (d @ t) = Some (dst_adr (cop i) (cd i), t)"
    using assms(1) b
    by (auto intro!: load_mid_disaddr load_src_disaddr load_dst_disaddr simp: mode_fields modes_ok_def)
  then show ?thesis by (simp add: b load_inst_def loaded_def)
qed

lemma load_insts_disinst:
  "list_all modes_ok is \<Longrightarrow> disinst is = Some bs \<Longrightarrow>
    dec_n load_inst (length is) (bs @ t) = Some (map loaded is, t)"
  by (induction "is" arbitrary: bs) (auto simp: bind_eq_Some_conv load_inst_disinst1)

text \<open>The instruction codec, and the type-descriptor codec for tables of \<open>hsize\<close> entries.\<close>

definition inst_bytes :: "cinst \<Rightarrow> u8 list" where
  "inst_bytes i = (case disinst1 i of Some bs \<Rightarrow> bs | None \<Rightarrow> [])"

interpretation insts: stream_codec inst_bytes load_inst loaded
  "\<lambda>i. modes_ok i \<and> disinst1 i \<noteq> None"
  by unfold_locales (auto simp: inst_bytes_def load_inst_disinst1)

definition loaded_desc :: "desc \<Rightarrow> tdesc" where
  "loaded_desc d = \<lparr>tsize = dlen d, tmap = dmap d\<rparr>"

lemma parse_desc_disdesc1:
  assumes "disdesc1 d = Some bs" and "length (dmap d) < 2 ^ 29"
  shows "parse_desc hsize (bs @ t) =
    (if sint (did d) > hsize then Inl HeapIdRange else Inr ((did d, loaded_desc d), t))"
proof -
  from assms(1) obtain i l n where b: "discon (did d) = Some i" "discon (dlen d) = Some l"
    "discon (word_of_nat (length (dmap d))) = Some n" "bs = i @ l @ n @ dmap d"
    by (auto simp: disdesc1_def bind_eq_Some_conv)
  have "unat (word_of_nat (length (dmap d)) :: u32) = length (dmap d)"
    using assms(2) by (simp add: unsigned_of_nat take_bit_nat_eq_self)
  then show ?thesis
    by (simp add: b(4) parse_desc_def operand_discon [OF b(1)] operand_discon [OF b(2)]
        operand_discon [OF b(3)] loaded_desc_def)
qed

definition desc_bytes :: "desc \<Rightarrow> u8 list" where
  "desc_bytes d = (case disdesc1 d of Some bs \<Rightarrow> bs | None \<Rightarrow> [])"

definition desc_ok :: "int \<Rightarrow> desc \<Rightarrow> bool" where
  "desc_ok hsize d \<longleftrightarrow>
     disdesc1 d \<noteq> None \<and> sint (did d) \<le> hsize \<and> length (dmap d) < 2 ^ 29"

definition read_desc :: "int \<Rightarrow> u8 list \<Rightarrow> ((u32 \<times> tdesc) \<times> u8 list) option" where
  "read_desc hsize st = (case parse_desc hsize st of Inl e \<Rightarrow> None | Inr r \<Rightarrow> Some r)"

interpretation descs: lossless_codec desc_bytes "read_desc hsize" "\<lambda>d. (did d, loaded_desc d)"
  "desc_ok hsize" for hsize
  by unfold_locales
    (auto simp: desc_bytes_def read_desc_def desc_ok_def parse_desc_disdesc1 loaded_desc_def)

text \<open>The table after the descriptors \<open>ds\<close>: each entry holds the last one stored in it.\<close>

abbreviation in_table :: "nat \<Rightarrow> desc \<Rightarrow> bool" where
  "in_table h d \<equiv> 0 \<le> sint (did d) \<and> sint (did d) < int h"

definition table_of :: "type_table \<Rightarrow> desc list \<Rightarrow> type_table" where
  "table_of tab ds = fold (\<lambda>d tab. tab[nat (sint (did d)) := Some (loaded_desc d)]) ds tab"

lemma table_of_simps [simp]:
  "table_of tab [] = tab"
  "table_of tab (d # ds) = table_of (tab[nat (sint (did d)) := Some (loaded_desc d)]) ds"
  by (simp_all add: table_of_def)

lemma length_table_of [simp]: "length (table_of tab ds) = length tab"
  by (induction ds arbitrary: tab) simp_all

lemma load_desc_disdesc1:
  assumes "disdesc1 d = Some bs" and "length (dmap d) < 2 ^ 29"
  shows "load_desc (int (length tab)) tab (bs @ t) =
    (if in_table (length tab) d then Inr (tab[nat (sint (did d)) := Some (loaded_desc d)], t)
     else Inl (if sint (did d) > int (length tab) then HeapIdRange else Overrun))"
  by (simp add: load_desc_def parse_desc_disdesc1 [OF assms] store_desc_def)

lemma load_descs_disdesc:
  assumes "disdesc ds = Some bs" and "list_all (\<lambda>d. length (dmap d) < 2 ^ 29) ds"
  shows "load_descs (length ds) (int (length tab)) tab (bs @ t) =
    (case find (\<lambda>d. \<not> in_table (length tab) d) ds of
       None \<Rightarrow> Inr (table_of tab ds, t)
     | Some d \<Rightarrow> Inl (if sint (did d) > int (length tab) then HeapIdRange else Overrun))"
  using assms
proof (induction ds arbitrary: bs tab)
  case (Cons d ds)
  from Cons.prems obtain b bs' where b: "disdesc1 d = Some b" "disdesc ds = Some bs'" "bs = b @ bs'"
    by (auto simp: bind_eq_Some_conv)
  let ?tab = "tab[nat (sint (did d)) := Some (loaded_desc d)]"
  have "length (dmap d) < 2 ^ 29" "list_all (\<lambda>d. length (dmap d) < 2 ^ 29) ds" using Cons.prems(2) by simp_all
  with Cons.IH [OF b(2), of ?tab] load_desc_disdesc1 [OF b(1), of tab "bs' @ t"]
  show ?case
    by (cases "find (\<lambda>d. \<not> in_table (length tab) d) ds") (auto simp: b(3))
qed simp

lemma table_of_other:
  assumes "list_all (in_table (length tab)) ds" and "\<forall>d \<in> set ds. sint (did d) \<noteq> int k"
  shows "table_of tab ds ! k = tab ! k"
  using assms by (induction ds arbitrary: tab) auto

lemma table_of_entry:
  assumes "list_all (in_table (length tab)) ds" and "distinct (map did ds)" and "d \<in> set ds"
  shows "table_of tab ds ! nat (sint (did d)) = Some (loaded_desc d)"
  using assms
proof (induction ds arbitrary: tab)
  case (Cons e ds)
  let ?tab = "tab[nat (sint (did e)) := Some (loaded_desc e)]"
  show ?case
  proof (cases "d \<in> set ds")
    case True
    then show ?thesis using Cons.IH [of ?tab] Cons.prems(1,2) by simp
  next
    case False
    then have e: "d = e" using Cons.prems(3) by simp
    have "\<forall>x \<in> set ds. sint (did x) \<noteq> int (nat (sint (did e)))"
      using Cons.prems(1,2) by (auto simp: image_iff dest!: signed_word_eqI)
    with table_of_other [of ?tab ds "nat (sint (did e))"] Cons.prems(1) show ?thesis
      by (auto simp: e)
  qed
qed simp

section \<open>Properties\<close>

text \<open>
  C1. The loader reads a program the compiler wrote instruction by instruction: opcode, addressing
  byte, 16-bit middle operand, source and destination operands are those of the compiler's
  instruction, branch targets become the address of instruction \<open>pc - 1\<close> and spawn targets of
  instruction \<open>pc\<close>, and exactly the instruction bytes are consumed.
\<close>

theorem program_roundtrip:
  assumes "list_all modes_ok is" and "disinst is = Some bs"
  shows "dec_n load_inst (length is) (bs @ t) =
    Some (map (\<lambda>i. \<lparr>iop = cop i,
       iadd = SRC (dismode (amode (cs i))) OR DST (dismode (amode (cd i)))
         OR disregmode (amode (cm i)),
       ireg = mid_val (cm i), isrc = src_adr (cs i), idst = dst_adr (cop i) (cd i)\<rparr>) is, t)"
  using load_insts_disinst [OF assms, of t] unfolding loaded_def .

theorem program_roundtrip_witness:
  "\<exists>bs. disinst [\<lparr>cop = ICALL, cs = \<lparr>amode = Afp, areg = 40, aoffset = 0, aiface = 0\<rparr>,
        cd = \<lparr>amode = Apc, areg = 0, aoffset = 300, aiface = 0\<rparr>,
        cm = \<lparr>amode = Anone, areg = 0, aoffset = 0, aiface = 0\<rparr>\<rparr>] = Some bs \<and>
     dec_n load_inst 1 (bs @ [7]) =
       Some ([\<lparr>iop = ICALL, iadd = 0x0A, ireg = 0, isrc = Ind 40, idst = Ins 299\<rparr>], [7])"
proof -
  let ?i = "\<lparr>cop = ICALL, cs = \<lparr>amode = Afp, areg = 40, aoffset = 0, aiface = 0\<rparr>,
        cd = \<lparr>amode = Apc, areg = 0, aoffset = 300, aiface = 0\<rparr>,
        cm = \<lparr>amode = Anone, areg = 0, aoffset = 0, aiface = 0\<rparr>\<rparr>"
  have ok: "list_all modes_ok [?i]" by (simp add: modes_ok_def)
  obtain bs where bs: "disinst [?i] = Some bs"
    by (simp add: disinst1_def disaddr'_def disaddr_def discon_def)
  show ?thesis
    using program_roundtrip [OF ok bs, of "[7]"] bs
    by (simp add: mid_val_def src_adr_def dst_adr_def branch_ops_def SRC_def DST_def)
qed

text \<open>
  C25. The type section of an object file. Reading the descriptors the compiler wrote (pointer maps
  below \<open>2 ^ 29\<close> bytes) gives a table with an entry per descriptor: when the identifiers are in
  range and distinct, as \<open>resolvedesc\<close> numbers them, the entry of each identifier is the size and
  pointer map written with it, and exactly the bytes of the section are consumed. Otherwise the
  first identifier out of range decides: one above the number of descriptors is refused, one equal
  to it or negative is stored outside the table.
\<close>

theorem descriptor_roundtrip:
  assumes "disdesc ds = Some bs" and "list_all (\<lambda>d. length (dmap d) < 2 ^ 29) ds"
  shows "case find (\<lambda>d. \<not> (0 \<le> sint (did d) \<and> sint (did d) < int (length ds))) ds of
      Some d \<Rightarrow> load_types (length ds) (bs @ t) =
        Inl (if sint (did d) > int (length ds) then HeapIdRange else Overrun)
    | None \<Rightarrow> \<exists>tab. load_types (length ds) (bs @ t) = Inr (tab, t) \<and> length tab = length ds \<and>
        (distinct (map did ds) \<longrightarrow>
          (\<forall>d \<in> set ds. tab ! nat (sint (did d)) = Some \<lparr>tsize = dlen d, tmap = dmap d\<rparr>))"
proof -
  have l: "load_types (length ds) (bs @ t) = (case find (\<lambda>d. \<not> in_table (length ds) d) ds of
       None \<Rightarrow> Inr (table_of (replicate (length ds) None) ds, t)
     | Some d \<Rightarrow> Inl (if sint (did d) > int (length ds) then HeapIdRange else Overrun))"
    using load_descs_disdesc [OF assms, of "replicate (length ds) None" t]
    by (cases "find (\<lambda>d. \<not> in_table (length ds) d) ds") (simp_all add: load_types_def)
  show ?thesis
  proof (cases "find (\<lambda>d. \<not> in_table (length ds) d) ds")
    case None
    then have "list_all (in_table (length (replicate (length ds) (None :: tdesc option)))) ds"
      by (auto simp: find_None_iff list_all_iff)
    from table_of_entry [OF this] l None show ?thesis by (auto simp: loaded_desc_def)
  next
    case (Some d)
    with l show ?thesis by simp
  qed
qed

theorem descriptor_roundtrip_witness:
  "(\<exists>bs tab. disdesc [\<lparr>did = 1, dlen = 8, dmap = [0x80]\<rparr>, \<lparr>did = 0, dlen = 4, dmap = []\<rparr>] = Some bs \<and>
      load_types 2 (bs @ [9]) = Inr (tab, [9]) \<and> tab ! 1 = Some \<lparr>tsize = 8, tmap = [0x80]\<rparr>) \<and>
   (\<exists>bs. disdesc [\<lparr>did = 1, dlen = 8, dmap = []\<rparr>] = Some bs \<and> load_types 1 (bs @ [9]) = Inl Overrun)"
proof (rule conjI)
  let ?ds = "[\<lparr>did = 1, dlen = 8, dmap = [0x80]\<rparr>, \<lparr>did = 0, dlen = 4, dmap = []\<rparr>] :: desc list"
  obtain bs where bs: "disdesc ?ds = Some bs" by (simp add: disdesc1_def discon_def)
  have "list_all (\<lambda>d. length (dmap d) < 2 ^ 29) ?ds" by simp
  from descriptor_roundtrip [OF bs this, of "[9]"]
  show "\<exists>bs tab. disdesc ?ds = Some bs \<and>
      load_types 2 (bs @ [9]) = Inr (tab, [9]) \<and> tab ! 1 = Some \<lparr>tsize = 8, tmap = [0x80]\<rparr>"
    using bs by (auto simp: numeral_2_eq_2 simp del: disdesc.simps)
next
  let ?ds = "[\<lparr>did = 1, dlen = 8, dmap = []\<rparr>] :: desc list"
  obtain bs where bs: "disdesc ?ds = Some bs" by (simp add: disdesc1_def discon_def)
  have "list_all (\<lambda>d. length (dmap d) < 2 ^ 29) ?ds" by simp
  from descriptor_roundtrip [OF bs this, of "[9]"]
  show "\<exists>bs. disdesc ?ds = Some bs \<and> load_types 1 (bs @ [9]) = Inl Overrun"
    using bs by (simp del: disdesc.simps)
qed

text \<open>
  The loader's range test on a descriptor's identifier is one too weak: in a module that
  declares \<open>h\<close> types, a descriptor with identifier \<open>h\<close> passes it, although the table
  \<open>m->type\<close> has entries \<open>0\<close> to \<open>h - 1\<close> only; an identifier above \<open>h\<close> is refused.
\<close>

lemma descriptor_index_overrun:
  assumes "h < 2 ^ 29"
  shows "\<exists>bs. load_desc (int h) (replicate h None) bs = Inl Overrun"
proof -
  let ?w = "word_of_nat h :: u32"
  have discon_zero: "discon 0 = Some [0]" by (simp add: discon_def)
  have w: "sint ?w = int h"
    using assms by (simp add: signed_of_nat signed_take_bit_int_eq_self of_nat_less_iff [symmetric] del: of_nat_less_iff)
  obtain i where i: "discon ?w = Some i" using discon_defined [of ?w] assms w by auto
  have "disdesc1 \<lparr>did = ?w, dlen = 0, dmap = []\<rparr> = Some (i @ [0, 0])"
    using discon_zero by (simp add: disdesc1_def i)
  from load_desc_disdesc1 [OF this, of "replicate h None" "[]"] w
  show ?thesis by (intro exI [of _ "i @ [0, 0]"]) simp
qed

end
