(* ===== verification/DisDec.thy ===== *)
theory DisDec
  imports DisFile
begin

text \<open>
  The tables of the interpreter: \<^verbatim>\<open>interp/optab.h\<close>, the handler of each opcode, and
  \<^verbatim>\<open>interp/dec.c\<close>, the 256 functions that compute the operand addresses of an instruction from
  its addressing byte. The functions are transcribed one by one, each as the assignments it makes, and
  compared with the addressing modes of \<^verbatim>\<open>include/isa.h\<close> that the loader goes by.
\<close>

section \<open>Opcodes\<close>

definition optab :: "string list" where
  "optab = [
    ''badop'', ''alt'', ''nbalt'', ''igoto'', ''call'', ''frame'', ''spawn'', ''runt'',
    ''iload'', ''mcall'', ''mspawn'', ''mframe'', ''ret'', ''jmp'', ''icase'', ''iexit'',
    ''new'', ''newa'', ''newcb'', ''newcw'', ''newcf'', ''newcp'', ''newcm'', ''newcmp'',
    ''isend'', ''irecv'', ''consb'', ''consw'', ''consp'', ''consf'', ''consm'', ''consmp'',
    ''headb'', ''headw'', ''headp'', ''headf'', ''headm'', ''headmp'', ''tail'', ''lea'',
    ''indx'', ''movp'', ''movm'', ''movmp'', ''movb'', ''movw'', ''movf'', ''cvtbw'',
    ''cvtwb'', ''cvtfw'', ''cvtwf'', ''cvtca'', ''cvtac'', ''cvtwc'', ''cvtcw'', ''cvtfc'',
    ''cvtcf'', ''addb'', ''addw'', ''addf'', ''subb'', ''subw'', ''subf'', ''mulb'',
    ''mulw'', ''mulf'', ''divb'', ''divw'', ''divf'', ''modw'', ''modb'', ''andb'',
    ''andw'', ''orb'', ''orw'', ''xorb'', ''xorw'', ''shlb'', ''shlw'', ''shrb'',
    ''shrw'', ''insc'', ''indc'', ''addc'', ''lenc'', ''lena'', ''lenl'', ''beqb'',
    ''bneb'', ''bltb'', ''bleb'', ''bgtb'', ''bgeb'', ''beqw'', ''bnew'', ''bltw'',
    ''blew'', ''bgtw'', ''bgew'', ''beqf'', ''bnef'', ''bltf'', ''blef'', ''bgtf'',
    ''bgef'', ''beqc'', ''bnec'', ''bltc'', ''blec'', ''bgtc'', ''bgec'', ''slicea'',
    ''slicela'', ''slicec'', ''indw'', ''indf'', ''indb'', ''negf'', ''movl'', ''addl'',
    ''subl'', ''divl'', ''modl'', ''mull'', ''andl'', ''orl'', ''xorl'', ''shll'',
    ''shrl'', ''bnel'', ''bltl'', ''blel'', ''bgtl'', ''bgel'', ''beql'', ''cvtlf'',
    ''cvtfl'', ''cvtlw'', ''cvtwl'', ''cvtlc'', ''cvtcl'', ''headl'', ''consl'', ''newcl'',
    ''casec'', ''indl'', ''movpc'', ''tcmp'']"

text \<open>\<open>opinit\<close> fills the rest of the table with \<open>badop\<close>.\<close>

definition opfn :: "u8 \<Rightarrow> string" where
  "opfn op = (if unat op < length optab then optab ! unat op else ''badop'')"

section \<open>Operand decoding\<close>

text \<open>
  What is assigned to \<open>R.s\<close> and \<open>R.d\<close>: \<open>R.MP+ind\<close>, \<open>R.FP+ind\<close>, the operand in the instruction,
  \<open>DIND(MP)\<close>, \<open>DIND(FP)\<close>; and to \<open>R.m\<close>: \<open>R.d\<close>, \<open>&R.t\<close> with \<open>R.t = (short)reg\<close>, \<open>R.FP+reg\<close>,
  \<open>R.MP+reg\<close>. \<open>None\<close> where a function leaves the register alone.
\<close>

datatype gen = Gmp | Gfp | Gimm | Gmpi | Gfpi
datatype mid = Gd | Gt | Gfpr | Gmpr

type_synonym decoder = "gen option \<times> gen option \<times> mid option"

definition dec0 :: "decoder list" where
  "dec0 = [
    (Some Gmp, Some Gmp, Some Gd), (Some Gmp, Some Gfp, Some Gd), (Some Gmp, Some Gimm, Some Gd), (Some Gmp, None, None),
    (Some Gmp, Some Gmpi, Some Gd), (Some Gmp, Some Gfpi, Some Gd), (Some Gmp, None, None), (Some Gmp, None, None),
    (Some Gfp, Some Gmp, Some Gd), (Some Gfp, Some Gfp, Some Gd), (Some Gfp, Some Gimm, Some Gd), (Some Gfp, None, None),
    (Some Gfp, Some Gmpi, Some Gd), (Some Gfp, Some Gfpi, Some Gd), (Some Gfp, None, None), (Some Gfp, None, None)]"

definition dec1 :: "decoder list" where
  "dec1 = [
    (Some Gimm, Some Gmp, Some Gd), (Some Gimm, Some Gfp, Some Gd), (Some Gimm, Some Gimm, Some Gd), (Some Gimm, None, None),
    (Some Gimm, Some Gmpi, Some Gd), (Some Gimm, Some Gfpi, Some Gd), (Some Gimm, None, None), (Some Gimm, None, None),
    (None, Some Gmp, Some Gd), (None, Some Gfp, Some Gd), (None, Some Gimm, Some Gd), (None, None, None),
    (None, Some Gmpi, Some Gd), (None, Some Gfpi, Some Gd), (None, None, None), (None, None, None)]"

definition dec2 :: "decoder list" where
  "dec2 = [
    (Some Gmpi, Some Gmp, Some Gd), (Some Gmpi, Some Gfp, Some Gd), (Some Gmpi, Some Gimm, Some Gd), (Some Gmpi, None, None),
    (Some Gmpi, Some Gmpi, Some Gd), (Some Gmpi, Some Gfpi, Some Gd), (Some Gmpi, None, None), (Some Gmpi, None, None),
    (Some Gfpi, Some Gmp, Some Gd), (Some Gfpi, Some Gfp, Some Gd), (Some Gfpi, Some Gimm, Some Gd), (Some Gfpi, None, None),
    (Some Gfpi, Some Gmpi, Some Gd), (Some Gfpi, Some Gfpi, Some Gd), (Some Gfpi, None, None), (Some Gfpi, None, None)]"

definition dec3 :: "decoder list" where
  "dec3 = [
    (None, Some Gmp, Some Gd), (None, Some Gfp, Some Gd), (None, Some Gimm, Some Gd), (None, None, None),
    (None, Some Gmpi, Some Gd), (None, Some Gfpi, Some Gd), (None, None, None), (None, None, None),
    (None, Some Gmp, Some Gd), (None, Some Gfp, Some Gd), (None, Some Gimm, Some Gd), (None, None, None),
    (None, Some Gmpi, Some Gd), (None, Some Gfpi, Some Gd), (None, None, None), (None, None, None)]"

definition dec4 :: "decoder list" where
  "dec4 = [
    (Some Gmp, Some Gmp, Some Gt), (Some Gmp, Some Gfp, Some Gt), (Some Gmp, Some Gimm, Some Gt), (Some Gmp, None, None),
    (Some Gmp, Some Gmpi, Some Gt), (Some Gmp, Some Gfpi, Some Gt), (Some Gmp, None, None), (Some Gmp, None, None),
    (Some Gfp, Some Gmp, Some Gt), (Some Gfp, Some Gfp, Some Gt), (Some Gfp, Some Gimm, Some Gt), (Some Gfp, None, None),
    (Some Gfp, Some Gmpi, Some Gt), (Some Gfp, Some Gfpi, Some Gt), (Some Gfp, None, None), (Some Gfp, None, None)]"

definition dec5 :: "decoder list" where
  "dec5 = [
    (Some Gimm, Some Gmp, Some Gt), (Some Gimm, Some Gfp, Some Gt), (Some Gimm, Some Gimm, Some Gt), (Some Gimm, None, None),
    (Some Gimm, Some Gmpi, Some Gt), (Some Gimm, Some Gfpi, Some Gt), (Some Gimm, None, None), (Some Gimm, None, None),
    (None, Some Gmp, Some Gt), (None, Some Gfp, Some Gt), (None, Some Gimm, Some Gt), (None, None, None),
    (None, Some Gmpi, Some Gt), (None, Some Gfpi, Some Gt), (None, None, None), (None, None, None)]"

definition dec6 :: "decoder list" where
  "dec6 = [
    (Some Gmpi, Some Gmp, Some Gt), (Some Gmpi, Some Gfp, Some Gt), (Some Gmpi, Some Gimm, Some Gt), (Some Gmpi, None, None),
    (Some Gmpi, Some Gmpi, Some Gt), (Some Gmpi, Some Gfpi, Some Gt), (Some Gmpi, None, None), (Some Gmpi, None, None),
    (Some Gfpi, Some Gmp, Some Gt), (Some Gfpi, Some Gfp, Some Gt), (Some Gfpi, Some Gimm, Some Gt), (Some Gfpi, None, None),
    (Some Gfpi, Some Gmpi, Some Gt), (Some Gfpi, Some Gfpi, Some Gt), (Some Gfpi, None, None), (Some Gfpi, None, None)]"

definition dec7 :: "decoder list" where
  "dec7 = [
    (None, Some Gmp, Some Gt), (None, Some Gfp, Some Gt), (None, Some Gimm, Some Gt), (None, None, None),
    (None, Some Gmpi, Some Gt), (None, Some Gfpi, Some Gt), (None, None, None), (None, None, None),
    (None, Some Gmp, Some Gt), (None, Some Gfp, Some Gt), (None, Some Gimm, Some Gt), (None, None, None),
    (None, Some Gmpi, Some Gt), (None, Some Gfpi, Some Gt), (None, None, None), (None, None, None)]"

definition dec8 :: "decoder list" where
  "dec8 = [
    (Some Gmp, Some Gmp, Some Gfpr), (Some Gmp, Some Gfp, Some Gfpr), (Some Gmp, Some Gimm, Some Gfpr), (Some Gmp, None, None),
    (Some Gmp, Some Gmpi, Some Gfpr), (Some Gmp, Some Gfpi, Some Gfpr), (Some Gmp, None, None), (Some Gmp, None, None),
    (Some Gfp, Some Gmp, Some Gfpr), (Some Gfp, Some Gfp, Some Gfpr), (Some Gfp, Some Gimm, Some Gfpr), (Some Gfp, None, None),
    (Some Gfp, Some Gmpi, Some Gfpr), (Some Gfp, Some Gfpi, Some Gfpr), (Some Gfp, None, None), (Some Gfp, None, None)]"

definition dec9 :: "decoder list" where
  "dec9 = [
    (Some Gimm, Some Gmp, Some Gfpr), (Some Gimm, Some Gfp, Some Gfpr), (Some Gimm, Some Gimm, Some Gfpr), (Some Gimm, None, None),
    (Some Gimm, Some Gmpi, Some Gfpr), (Some Gimm, Some Gfpi, Some Gfpr), (Some Gimm, None, None), (Some Gimm, None, None),
    (None, Some Gmp, Some Gfpr), (None, Some Gfp, Some Gfpr), (None, Some Gimm, Some Gfpr), (None, None, None),
    (None, Some Gmpi, Some Gfpr), (None, Some Gfpi, Some Gfpr), (None, None, None), (None, None, None)]"

definition decA :: "decoder list" where
  "decA = [
    (Some Gmpi, Some Gmp, Some Gfpr), (Some Gmpi, Some Gfp, Some Gfpr), (Some Gmpi, Some Gimm, Some Gfpr), (Some Gmpi, None, None),
    (Some Gmpi, Some Gmpi, Some Gfpr), (Some Gmpi, Some Gfpi, Some Gfpr), (Some Gmpi, None, None), (Some Gmpi, None, None),
    (Some Gfpi, Some Gmp, Some Gfpr), (Some Gfpi, Some Gfp, Some Gfpr), (Some Gfpi, Some Gimm, Some Gfpr), (Some Gfpi, None, None),
    (Some Gfpi, Some Gmpi, Some Gfpr), (Some Gfpi, Some Gfpi, Some Gfpr), (Some Gfpi, None, None), (Some Gfpi, None, None)]"

definition decB :: "decoder list" where
  "decB = [
    (None, Some Gmp, Some Gfpr), (None, Some Gfp, Some Gfpr), (None, Some Gimm, Some Gfpr), (None, None, None),
    (None, Some Gmpi, Some Gfpr), (None, Some Gfpi, Some Gfpr), (None, None, None), (None, None, None),
    (None, Some Gmp, Some Gfpr), (None, Some Gfp, Some Gfpr), (None, Some Gimm, Some Gfpr), (None, None, None),
    (None, Some Gmpi, Some Gfpr), (None, Some Gfpi, Some Gfpr), (None, None, None), (None, None, None)]"

definition decC :: "decoder list" where
  "decC = [
    (Some Gmp, Some Gmp, Some Gmpr), (Some Gmp, Some Gfp, Some Gmpr), (Some Gmp, Some Gimm, Some Gmpr), (Some Gmp, None, None),
    (Some Gmp, Some Gmpi, Some Gmpr), (Some Gmp, Some Gfpi, Some Gmpr), (Some Gmp, None, None), (Some Gmp, None, None),
    (Some Gfp, Some Gmp, Some Gmpr), (Some Gfp, Some Gfp, Some Gmpr), (Some Gfp, Some Gimm, Some Gmpr), (Some Gfp, None, None),
    (Some Gfp, Some Gmpi, Some Gmpr), (Some Gfp, Some Gfpi, Some Gmpr), (Some Gfp, None, None), (Some Gfp, None, None)]"

definition decD :: "decoder list" where
  "decD = [
    (Some Gimm, Some Gmp, Some Gmpr), (Some Gimm, Some Gfp, Some Gmpr), (Some Gimm, Some Gimm, Some Gmpr), (Some Gimm, None, None),
    (Some Gimm, Some Gmpi, Some Gmpr), (Some Gimm, Some Gfpi, Some Gmpr), (Some Gimm, None, None), (Some Gimm, None, None),
    (None, Some Gmp, Some Gmpr), (None, Some Gfp, Some Gmpr), (None, Some Gimm, Some Gmpr), (None, None, None),
    (None, Some Gmpi, Some Gmpr), (None, Some Gfpi, Some Gmpr), (None, None, None), (None, None, None)]"

definition decE :: "decoder list" where
  "decE = [
    (Some Gmpi, Some Gmp, Some Gmpr), (Some Gmpi, Some Gfp, Some Gmpr), (Some Gmpi, Some Gimm, Some Gmpr), (Some Gmpi, None, None),
    (Some Gmpi, Some Gmpi, Some Gmpr), (Some Gmpi, Some Gfpi, Some Gmpr), (Some Gmpi, None, None), (Some Gmpi, None, None),
    (Some Gfpi, Some Gmp, Some Gmpr), (Some Gfpi, Some Gfp, Some Gmpr), (Some Gfpi, Some Gimm, Some Gmpr), (Some Gfpi, None, None),
    (Some Gfpi, Some Gmpi, Some Gmpr), (Some Gfpi, Some Gfpi, Some Gmpr), (Some Gfpi, None, None), (Some Gfpi, None, None)]"

definition decF :: "decoder list" where
  "decF = [
    (None, Some Gmp, Some Gmpr), (None, Some Gfp, Some Gmpr), (None, Some Gimm, Some Gmpr), (None, None, None),
    (None, Some Gmpi, Some Gmpr), (None, Some Gfpi, Some Gmpr), (None, None, None), (None, None, None),
    (None, Some Gmp, Some Gmpr), (None, Some Gfp, Some Gmpr), (None, Some Gimm, Some Gmpr), (None, None, None),
    (None, Some Gmpi, Some Gmpr), (None, Some Gfpi, Some Gmpr), (None, None, None), (None, None, None)]"

definition dec :: "decoder list" where
  "dec = dec0 @ dec1 @ dec2 @ dec3 @ dec4 @ dec5 @ dec6 @ dec7 @ dec8 @ dec9 @ decA @ decB @ decC @ decD @ decE @ decF"

section \<open>The table against the addressing modes\<close>

text \<open>What the fields of the addressing byte mean.\<close>

definition gen_of :: "u8 \<Rightarrow> gen option" where
  "gen_of m = (if m = AMP then Some Gmp else if m = AFP then Some Gfp else if m = AIMM then Some Gimm
     else if m = AIND OR AMP then Some Gmpi else if m = AIND OR AFP then Some Gfpi else None)"

definition mid_of :: "u8 \<Rightarrow> mid" where
  "mid_of m = (if m = AXNON then Gd else if m = AXIMM then Gt else if m = AXINF then Gfpr else Gmpr)"

definition decode_ref :: "u8 \<Rightarrow> decoder" where
  "decode_ref add = (let d = gen_of (UDST add) in
     (gen_of (USRC add), d, if d = None then None else Some (mid_of (add AND ARM))))"

lemmas dec_pages = dec0_def dec1_def dec2_def dec3_def dec4_def dec5_def dec6_def dec7_def
  dec8_def dec9_def decA_def decB_def decC_def decD_def decE_def decF_def

lemma length_dec: "length dec = 256"
  by (simp add: dec_def dec_pages)

lemma dec_table: "dec = map (\<lambda>n. decode_ref (word_of_nat n)) [0..<256]"
  by code_simp

text \<open>
  C11. Each of the 256 generated decoders assigns to \<open>R.s\<close>, \<open>R.d\<close> and \<open>R.m\<close> what the addressing byte
  at its place in the table says, and those without a destination leave \<open>R.d\<close> and \<open>R.m\<close> alone.
\<close>
theorem decoders_match_modes:
  "dec ! unat add = decode_ref add"
proof -
  have "unat add < 256" using unsigned_less [of add] by simp
  then show ?thesis by (simp add: dec_table)
qed

end
