(* ===== verification/DisExec.thy ===== *)
theory DisExec
  imports DisDec "HOL-Library.Signed_Division"
begin

text \<open>
  The interpreter \<open>xec\<close> (\<^verbatim>\<open>interp/xec.c\<close>): operand decoding, the integer, branch, case and
  indexing instructions on memory, and the loop over a quantum. The host is a little-endian ILP32 machine
  whose integer arithmetic wraps (386); a memory fault or a division trap is \<open>Trap\<close>.
\<close>

section \<open>Machine\<close>

text \<open>
  Memory is a map from addresses to bytes, undefined where nothing is mapped. A pointer to an
  instruction is its index in \<open>M->prog\<close>. An operand register points to memory, to an operand field
  of an instruction, or to \<open>R.t\<close>.
\<close>

datatype place = At u32 | SrcOf u32 | DstOf u32 | Tmp

type_synonym memory = "u32 \<Rightarrow> u8 option"

record vm =
  vmem :: memory
  vprog :: "inst list"
  vpc :: u32
  vmp :: u32
  vfp :: u32
  rs :: place
  rd :: place
  rm :: place
  rt :: u32
  vic :: u32

fun load_bytes :: "memory \<Rightarrow> u32 \<Rightarrow> nat \<Rightarrow> u8 list option" where
  "load_bytes m a 0 = Some []"
| "load_bytes m a (Suc n) =
    (case m a of None \<Rightarrow> None
     | Some b \<Rightarrow> (case load_bytes m (a + 1) n of None \<Rightarrow> None | Some bs \<Rightarrow> Some (b # bs)))"

fun store_bytes :: "memory \<Rightarrow> u32 \<Rightarrow> u8 list \<Rightarrow> memory option" where
  "store_bytes m a [] = Some m"
| "store_bytes m a (b # bs) = (if m a = None then None else store_bytes (m(a \<mapsto> b)) (a + 1) bs)"

fun of_le :: "u8 list \<Rightarrow> 'a::len word" where
  "of_le [] = 0"
| "of_le (b # bs) = ucast b OR push_bit 8 (of_le bs)"

definition to_le :: "nat \<Rightarrow> 'a::len word \<Rightarrow> u8 list" where
  "to_le n w = map (\<lambda>i. ucast (drop_bit (8 * i) w)) [0..<n]"

section \<open>Operands\<close>

fun adr_word :: "adr \<Rightarrow> u32" where
  "adr_word (Ind v) = v"
| "adr_word (IndInd f s) = ucast f OR push_bit 16 (ucast s)"
| "adr_word (Ins i) = word_of_int i"

definition inst_at :: "u32 \<Rightarrow> vm \<Rightarrow> inst res" where
  "inst_at i st = (if unat i < length (vprog st) then Inr (vprog st ! unat i) else Inl Undef)"

definition rdL :: "place \<Rightarrow> vm \<Rightarrow> u64 res" where
  "rdL p st = (case p of
     At a \<Rightarrow> (case load_bytes (vmem st) a 8 of None \<Rightarrow> Inl Trap | Some bs \<Rightarrow> Inr (of_le bs))
   | _ \<Rightarrow> Inl Undef)"

definition rdW :: "place \<Rightarrow> vm \<Rightarrow> u32 res" where
  "rdW p st = (case p of
     At a \<Rightarrow> (case load_bytes (vmem st) a 4 of None \<Rightarrow> Inl Trap | Some bs \<Rightarrow> Inr (of_le bs))
   | SrcOf i \<Rightarrow> bindR (inst_at i st) (\<lambda>x. Inr (adr_word (isrc x)))
   | DstOf i \<Rightarrow> bindR (inst_at i st) (\<lambda>x. Inr (adr_word (idst x)))
   | Tmp \<Rightarrow> Inr (rt st))"

definition rdB :: "place \<Rightarrow> vm \<Rightarrow> u8 res" where
  "rdB p st = (case p of
     At a \<Rightarrow> (case vmem st a of None \<Rightarrow> Inl Trap | Some b \<Rightarrow> Inr b)
   | _ \<Rightarrow> bindR (rdW p st) (\<lambda>w. Inr (ucast w)))"

definition set_inst :: "u32 \<Rightarrow> (inst \<Rightarrow> inst) \<Rightarrow> vm \<Rightarrow> vm res" where
  "set_inst i f st = bindR (inst_at i st) (\<lambda>x. Inr (st\<lparr>vprog := (vprog st)[unat i := f x]\<rparr>))"

definition wrL :: "place \<Rightarrow> u64 \<Rightarrow> vm \<Rightarrow> vm res" where
  "wrL p v st = (case p of
     At a \<Rightarrow> (case store_bytes (vmem st) a (to_le 8 v) of None \<Rightarrow> Inl Trap | Some m \<Rightarrow> Inr (st\<lparr>vmem := m\<rparr>))
   | _ \<Rightarrow> Inl Undef)"

definition wrW :: "place \<Rightarrow> u32 \<Rightarrow> vm \<Rightarrow> vm res" where
  "wrW p v st = (case p of
     At a \<Rightarrow> (case store_bytes (vmem st) a (to_le 4 v) of None \<Rightarrow> Inl Trap | Some m \<Rightarrow> Inr (st\<lparr>vmem := m\<rparr>))
   | SrcOf i \<Rightarrow> set_inst i (\<lambda>x. x\<lparr>isrc := Ind v\<rparr>) st
   | DstOf i \<Rightarrow> set_inst i (\<lambda>x. x\<lparr>idst := Ind v\<rparr>) st
   | Tmp \<Rightarrow> Inr (st\<lparr>rt := v\<rparr>))"

definition wrB :: "place \<Rightarrow> u8 \<Rightarrow> vm \<Rightarrow> vm res" where
  "wrB p v st = (case p of
     At a \<Rightarrow> (case store_bytes (vmem st) a [v] of None \<Rightarrow> Inl Trap | Some m \<Rightarrow> Inr (st\<lparr>vmem := m\<rparr>))
   | _ \<Rightarrow> bindR (rdW p st) (\<lambda>w. wrW p ((w AND 0xFFFFFF00) OR ucast v) st))"

text \<open>The decoders of \<open>DisDec\<close>: \<open>reg\<close> is the frame or module data pointer.\<close>

definition dind :: "u32 \<Rightarrow> adr \<Rightarrow> vm \<Rightarrow> place res" where   \<comment> \<open>\<open>DIND\<close>\<close>
  "dind reg a st = (let w = adr_word a in
     bindR (rdW (At (reg + (w AND 0xFFFF))) st) (\<lambda>b. Inr (At (b + drop_bit 16 w))))"

definition gen_place :: "gen \<Rightarrow> adr \<Rightarrow> place \<Rightarrow> vm \<Rightarrow> place res" where
  "gen_place g a imm st = (case g of
     Gmp \<Rightarrow> Inr (At (vmp st + adr_word a))
   | Gfp \<Rightarrow> Inr (At (vfp st + adr_word a))
   | Gimm \<Rightarrow> Inr imm
   | Gmpi \<Rightarrow> dind (vmp st) a st
   | Gfpi \<Rightarrow> dind (vfp st) a st)"

fun mid_place :: "mid \<Rightarrow> u16 \<Rightarrow> vm \<Rightarrow> vm" where
  "mid_place Gd r st = st\<lparr>rm := rd st\<rparr>"
| "mid_place Gt r st = st\<lparr>rt := scast r, rm := Tmp\<rparr>"
| "mid_place Gfpr r st = st\<lparr>rm := At (vfp st + ucast r)\<rparr>"
| "mid_place Gmpr r st = st\<lparr>rm := At (vmp st + ucast r)\<rparr>"

definition decode :: "decoder \<Rightarrow> inst \<Rightarrow> vm \<Rightarrow> vm res" where
  "decode e i st = (case e of (s, d, m) \<Rightarrow>
     bindR (case s of None \<Rightarrow> Inr st
            | Some g \<Rightarrow> bindR (gen_place g (isrc i) (SrcOf (vpc st)) st) (\<lambda>p. Inr (st\<lparr>rs := p\<rparr>))) (\<lambda>st1.
     bindR (case d of None \<Rightarrow> Inr st1
            | Some g \<Rightarrow> bindR (gen_place g (idst i) (DstOf (vpc st)) st1) (\<lambda>p. Inr (st1\<lparr>rd := p\<rparr>))) (\<lambda>st2.
     Inr (case m of None \<Rightarrow> st2 | Some k \<Rightarrow> mid_place k (ireg i) st2))))"

section \<open>Instructions\<close>

type_synonym op = "vm \<Rightarrow> vm res"

definition jmp :: op where   \<comment> \<open>\<open>JMP(d)\<close>\<close>
  "jmp st = bindR (rdW (rd st) st) (\<lambda>i. Inr (st\<lparr>vpc := i\<rparr>))"

definition binB :: "(u8 \<Rightarrow> u8 \<Rightarrow> u8 res) \<Rightarrow> op" where
  "binB f st = bindR (rdB (rm st) st) (\<lambda>m. bindR (rdB (rs st) st) (\<lambda>s. bindR (f m s) (\<lambda>r. wrB (rd st) r st)))"

definition binW :: "(u32 \<Rightarrow> u32 \<Rightarrow> u32 res) \<Rightarrow> op" where
  "binW f st = bindR (rdW (rm st) st) (\<lambda>m. bindR (rdW (rs st) st) (\<lambda>s. bindR (f m s) (\<lambda>r. wrW (rd st) r st)))"

definition binL :: "(u64 \<Rightarrow> u64 \<Rightarrow> u64 res) \<Rightarrow> op" where
  "binL f st = bindR (rdL (rm st) st) (\<lambda>m. bindR (rdL (rs st) st) (\<lambda>s. bindR (f m s) (\<lambda>r. wrL (rd st) r st)))"

text \<open>
  The C operators \<open>/\<close> and \<open>%\<close> as the 386 computes them: the quotient is truncated, and the instruction
  \<open>idiv\<close> traps when the divisor is zero or the quotient is \<open>2^31\<close> (C leaves both undefined; the source has
  no test). A shift by a count outside the width of the promoted operand is not defined by C.
\<close>

definition divW :: "u32 \<Rightarrow> u32 \<Rightarrow> u32 res" where
  "divW m s = (if s = 0 \<or> m = 0x80000000 \<and> s = - 1 then Inl Trap else Inr (word_of_int (sint m sdiv sint s)))"

definition modW :: "u32 \<Rightarrow> u32 \<Rightarrow> u32 res" where
  "modW m s = (if s = 0 \<or> m = 0x80000000 \<and> s = - 1 then Inl Trap else Inr (word_of_int (sint m smod sint s)))"

definition divL :: "u64 \<Rightarrow> u64 \<Rightarrow> u64 res" where
  "divL m s = (if s = 0 then Inl Trap else if m = 0x8000000000000000 \<and> s = - 1 then Inl Undef else Inr (word_of_int (sint m sdiv sint s)))"

definition modL :: "u64 \<Rightarrow> u64 \<Rightarrow> u64 res" where
  "modL m s = (if s = 0 then Inl Trap else if m = 0x8000000000000000 \<and> s = - 1 then Inl Undef else Inr (word_of_int (sint m smod sint s)))"

definition divB :: "u8 \<Rightarrow> u8 \<Rightarrow> u8 res" where "divB m s = (if s = 0 then Inl Trap else Inr (m div s))"
definition modB :: "u8 \<Rightarrow> u8 \<Rightarrow> u8 res" where "modB m s = (if s = 0 then Inl Trap else Inr (m mod s))"

definition shift :: "nat \<Rightarrow> (nat \<Rightarrow> 'a \<Rightarrow> 'a) \<Rightarrow> 'a \<Rightarrow> u32 \<Rightarrow> 'a res" where
  "shift w f m s = (if unat s < w then Inr (f (unat s) m) else Inl Undef)"

definition shB :: "(nat \<Rightarrow> u8 \<Rightarrow> u8) \<Rightarrow> op" where
  "shB f st = bindR (rdB (rm st) st) (\<lambda>m. bindR (rdW (rs st) st) (\<lambda>s. bindR (shift 32 f m s) (\<lambda>r. wrB (rd st) r st)))"

definition shL :: "(nat \<Rightarrow> u64 \<Rightarrow> u64) \<Rightarrow> op" where
  "shL f st = bindR (rdL (rm st) st) (\<lambda>m. bindR (rdW (rs st) st) (\<lambda>s. bindR (shift 64 f m s) (\<lambda>r. wrL (rd st) r st)))"

definition brB :: "(u8 \<Rightarrow> u8 \<Rightarrow> bool) \<Rightarrow> op" where
  "brB c st = bindR (rdB (rs st) st) (\<lambda>s. bindR (rdB (rm st) st) (\<lambda>m. if c s m then jmp st else Inr st))"

definition brW :: "(u32 \<Rightarrow> u32 \<Rightarrow> bool) \<Rightarrow> op" where
  "brW c st = bindR (rdW (rs st) st) (\<lambda>s. bindR (rdW (rm st) st) (\<lambda>m. if c s m then jmp st else Inr st))"

definition brL :: "(u64 \<Rightarrow> u64 \<Rightarrow> bool) \<Rightarrow> op" where
  "brL c st = bindR (rdL (rs st) st) (\<lambda>s. bindR (rdL (rm st) st) (\<lambda>m. if c s m then jmp st else Inr st))"

definition add_ops :: "(string \<times> op) list" where
  "add_ops = [(''addb'', binB (\<lambda>m s. Inr (m + s))), (''addw'', binW (\<lambda>m s. Inr (m + s))), (''addl'', binL (\<lambda>m s. Inr (m + s)))]"

definition sub_ops :: "(string \<times> op) list" where
  "sub_ops = [(''subb'', binB (\<lambda>m s. Inr (m - s))), (''subw'', binW (\<lambda>m s. Inr (m - s))), (''subl'', binL (\<lambda>m s. Inr (m - s)))]"

definition div_ops :: "(string \<times> op) list" where
  "div_ops = [(''divb'', binB divB), (''divw'', binW divW), (''divl'', binL divL)]"

definition mul_ops :: "(string \<times> op) list" where
  "mul_ops = [
    (''modb'', binB modB), (''modw'', binW modW), (''modl'', binL modL),
    (''mulb'', binB (\<lambda>m s. Inr (m * s))), (''mulw'', binW (\<lambda>m s. Inr (m * s))), (''mull'', binL (\<lambda>m s. Inr (m * s)))]"

definition bit_ops :: "(string \<times> op) list" where
  "bit_ops = [
    (''andb'', binB (\<lambda>m s. Inr (m AND s))), (''andw'', binW (\<lambda>m s. Inr (m AND s))), (''andl'', binL (\<lambda>m s. Inr (m AND s))),
    (''xorb'', binB (\<lambda>m s. Inr (m XOR s))), (''xorw'', binW (\<lambda>m s. Inr (m XOR s))), (''xorl'', binL (\<lambda>m s. Inr (m XOR s))),
    (''orb'', binB (\<lambda>m s. Inr (m OR s))), (''orw'', binW (\<lambda>m s. Inr (m OR s))), (''orl'', binL (\<lambda>m s. Inr (m OR s))),
    (''shlb'', shB push_bit), (''shlw'', binW (shift 32 push_bit)), (''shll'', shL push_bit),
    (''shrb'', shB drop_bit), (''shrw'', binW (shift 32 signed_drop_bit)), (''shrl'', shL signed_drop_bit)]"

definition arith_ops :: "(string \<times> op) list" where
  "arith_ops = add_ops @ sub_ops @ div_ops @ mul_ops @ bit_ops"

lemmas arith_tables = arith_ops_def add_ops_def sub_ops_def div_ops_def mul_ops_def bit_ops_def

definition branch_table :: "(string \<times> op) list" where
  "branch_table = [
    (''beqb'', brB (=)), (''bneb'', brB (\<noteq>)), (''bltb'', brB (<)), (''bleb'', brB (\<le>)),
    (''bgtb'', brB (\<lambda>s m. m < s)), (''bgeb'', brB (\<lambda>s m. m \<le> s)),
    (''beqw'', brW (=)), (''bnew'', brW (\<noteq>)), (''bltw'', brW word_sless), (''blew'', brW word_sle),
    (''bgtw'', brW (\<lambda>s m. m <s s)), (''bgew'', brW (\<lambda>s m. m \<le>s s)),
    (''beql'', brL (=)), (''bnel'', brL (\<noteq>)), (''bltl'', brL word_sless), (''blel'', brL word_sle),
    (''bgtl'', brL (\<lambda>s m. m <s s)), (''bgel'', brL (\<lambda>s m. m \<le>s s))]"

section \<open>Moves, conversions, arrays and jumps\<close>

definition movB :: op where "movB st = bindR (rdB (rs st) st) (\<lambda>v. wrB (rd st) v st)"
definition movW :: op where "movW st = bindR (rdW (rs st) st) (\<lambda>v. wrW (rd st) v st)"
definition movL :: op where "movL st = bindR (rdL (rs st) st) (\<lambda>v. wrL (rd st) v st)"

definition cvtbw :: op where "cvtbw st = bindR (rdB (rs st) st) (\<lambda>v. wrW (rd st) (ucast v) st)"
definition cvtwb :: op where "cvtwb st = bindR (rdW (rs st) st) (\<lambda>v. wrB (rd st) (ucast v) st)"
definition cvtwl :: op where "cvtwl st = bindR (rdW (rs st) st) (\<lambda>v. wrL (rd st) (scast v) st)"
definition cvtlw :: op where "cvtlw st = bindR (rdL (rs st) st) (\<lambda>v. wrW (rd st) (ucast v) st)"

definition lea :: op where
  "lea st = (case rs st of At a \<Rightarrow> wrW (rd st) a st | _ \<Rightarrow> Inl Undef)"

definition movm :: op where
  "movm st = bindR (rdW (rm st) st) (\<lambda>n.
     case (rs st, rd st) of
       (At a, At b) \<Rightarrow>
         (case load_bytes (vmem st) a (unat n) of
            None \<Rightarrow> Inl Trap
          | Some bs \<Rightarrow> (case store_bytes (vmem st) b bs of None \<Rightarrow> Inl Trap | Some m \<Rightarrow> Inr (st\<lparr>vmem := m\<rparr>)))
     | _ \<Rightarrow> Inl Undef)"

abbreviation H :: u32 where "H \<equiv> 0xFFFFFFFF"

text \<open>\<open>Array\<close>: \<open>len\<close>, \<open>t\<close>, \<open>root\<close>, \<open>data\<close>; the size of an element is the fourth word of its \<open>Type\<close>.\<close>

definition ind :: "(u32 \<Rightarrow> vm \<Rightarrow> u32 res) \<Rightarrow> op" where
  "ind esz st =
    bindR (rdW (rs st) st) (\<lambda>a.
    bindR (rdW (rd st) st) (\<lambda>i.
    if a = H then Inl (Raise ''bounds exceeded'')
    else bindR (rdW (At a) st) (\<lambda>len.
      if len \<le> i then Inl (Raise ''bounds exceeded'')
      else bindR (rdW (At (a + 12)) st) (\<lambda>data.
           bindR (esz a st) (\<lambda>sz. wrW (rm st) (data + i * sz) st)))))"

definition elem_size :: "u32 \<Rightarrow> vm \<Rightarrow> u32 res" where
  "elem_size a st = bindR (rdW (At (a + 4)) st) (\<lambda>t. rdW (At (t + 12)) st)"

definition lena :: op where
  "lena st = bindR (rdW (rs st) st) (\<lambda>a.
     bindR (if a = H then Inr 0 else rdW (At a) st) (\<lambda>l. wrW (rd st) l st))"

text \<open>The instruction pointers in a table are one more than the index the loop increments.\<close>

definition igoto :: op where
  "igoto st = (case rd st of
     At t \<Rightarrow> bindR (rdW (rs st) st) (\<lambda>i. bindR (rdW (At (t + i * 4)) st) (\<lambda>d. Inr (st\<lparr>vpc := d - 1\<rparr>)))
   | _ \<Rightarrow> Inl Undef)"

function icase_loop :: "vm \<Rightarrow> u32 \<Rightarrow> u32 \<Rightarrow> nat \<Rightarrow> u32 \<Rightarrow> u32 res" where
  "icase_loop st v t n d =
    (if n = 0 then Inr d
     else let n2 = n div 2; l = t + word_of_nat (n2 * 12) in
       bindR (rdW (At l) st) (\<lambda>lo.
       if v <s lo then icase_loop st v t n2 d
       else bindR (rdW (At (l + 4)) st) (\<lambda>hi.
       if hi \<le>s v then icase_loop st v (l + 12) (n - (n2 + 1)) d
       else rdW (At (l + 8)) st)))"
  by pat_completeness auto
termination by (relation "measure (\<lambda>(st, v, t, n, d). n)") auto

declare icase_loop.simps [simp del]

definition icase :: op where
  "icase st =
    bindR (rdW (rs st) st) (\<lambda>v.
    case rd st of
      At a \<Rightarrow>
        bindR (rdW (At a) st) (\<lambda>n.
        bindR (rdW (At (a + 4 + n * 12)) st) (\<lambda>d.
        bindR (icase_loop st v (a + 4) (nat (sint n)) d) (\<lambda>p. Inr (st\<lparr>vpc := p - 1\<rparr>))))
    | _ \<Rightarrow> Inl Undef)"

text \<open>\<open>Frame\<close>: \<open>lr\<close>, \<open>fp\<close>, \<open>mr\<close>, \<open>t\<close>.\<close>

definition call :: op where
  "call st =
    bindR (rdW (rs st) st) (\<lambda>f.
    bindR (wrW (At f) (vpc st) st) (\<lambda>st1.
    bindR (wrW (At (f + 4)) (vfp st1) st1) (\<lambda>st2.
    jmp (st2\<lparr>vfp := f\<rparr>))))"

definition other_ops :: "(string \<times> op) list" where
  "other_ops = [
    (''runt'', Inr), (''jmp'', jmp), (''movpc'', movW), (''movm'', movm), (''lea'', lea),
    (''movb'', movB), (''movw'', movW), (''movl'', movL),
    (''cvtbw'', cvtbw), (''cvtwb'', cvtwb), (''cvtwl'', cvtwl), (''cvtlw'', cvtlw),
    (''indx'', ind elem_size), (''indw'', ind (\<lambda>a st. Inr 4)), (''indf'', ind (\<lambda>a st. Inr 8)),
    (''indl'', ind (\<lambda>a st. Inr 8)), (''indb'', ind (\<lambda>a st. Inr 1)),
    (''lena'', lena), (''icase'', icase), (''igoto'', igoto), (''call'', call),
    (''iexit'', \<lambda>st. Inl (Raise [])), (''badop'', \<lambda>st. Inl (Raise ''illegal opcode''))]"

definition ops :: "(string \<times> op) list" where
  "ops = arith_ops @ branch_table @ other_ops"

section \<open>The loop\<close>

text \<open>
  The instructions on pointers, strings, lists, reals, channels and modules are a parameter here; the
  theories \<open>DisHeap\<close>, \<open>DisString\<close> and \<open>Sched\<close> model them on the state they work on.
\<close>

definition exec :: "(string \<Rightarrow> op) \<Rightarrow> string \<Rightarrow> op" where
  "exec other h = (case map_of ops h of Some f \<Rightarrow> f | None \<Rightarrow> other h)"

definition step_inst :: "(string \<Rightarrow> op) \<Rightarrow> op" where
  "step_inst other st =
    bindR (inst_at (vpc st) st) (\<lambda>i.
    bindR (decode (dec ! unat (iadd i)) i st) (\<lambda>st1.
    bindR (exec other (opfn (iop i)) st1) (\<lambda>st2.
    Inr (st2\<lparr>vpc := vpc st2 + 1\<rparr>))))"

text \<open>\<open>do { ... } while(--R.IC != 0)\<close>, at most \<open>fuel\<close> times.\<close>

fun xec_loop :: "(string \<Rightarrow> op) \<Rightarrow> nat \<Rightarrow> vm \<Rightarrow> vm res option" where
  "xec_loop other 0 st = None"
| "xec_loop other (Suc fuel) st =
    (case step_inst other st of
       Inl e \<Rightarrow> Some (Inl e)
     | Inr st1 \<Rightarrow>
        (let st2 = st1\<lparr>vic := vic st1 - 1\<rparr> in
         if vic st2 = 0 then Some (Inr st2) else xec_loop other fuel st2))"

text \<open>
  \<open>R = p->R; R.MP = R.M->mp; R.IC = p->quanta\<close>: \<open>st\<close> is the program's register set, whose module's code is
  \<open>vprog\<close> and whose module's data is at \<open>mp\<close>. The branch to compiled code is not modelled.
\<close>

definition xec :: "(string \<Rightarrow> op) \<Rightarrow> u32 \<Rightarrow> u32 \<Rightarrow> vm \<Rightarrow> vm res option" where
  "xec other mp quanta st = xec_loop other (2 ^ 32) (st\<lparr>vmp := mp, vic := quanta\<rparr>)"

end
