(* ===== verification/DisExecProps.thy ===== *)
theory DisExecProps
  imports DisExec
begin

text \<open>
  Properties of the interpreter: what is stored is read back, operands and branch targets are those the
  compiler wrote, the case instruction selects by its table, indices stay inside arrays, and a quantum ends.
\<close>

section \<open>Memory\<close>

lemma to_le_Suc: "to_le (Suc n) w = ucast w # to_le n (drop_bit 8 w)"
proof -
  have "[0..<Suc n] = 0 # map Suc [0..<n]" by (simp add: upt_conv_Cons map_Suc_upt)
  then show ?thesis by (simp add: to_le_def drop_bit_drop_bit algebra_simps)
qed

lemma length_to_le [simp]: "length (to_le n w) = n"
  by (simp add: to_le_def)

lemma of_le_to_le: "of_le (to_le n w) = take_bit (8 * n) (w :: 'a::len word)"
proof (induction n arbitrary: w)
  case 0
  then show ?case by (simp add: to_le_def)
next
  case (Suc n)
  have "ucast (ucast w :: u8) OR push_bit 8 (take_bit (8 * n) (drop_bit 8 w)) = take_bit (8 * Suc n) w"
    by (rule bit_word_eqI) (auto simp: bit_simps)
  then show ?case by (simp add: to_le_Suc Suc)
qed

lemma of_le_word [simp]: "of_le (to_le 4 w) = (w :: u32)" "of_le (to_le 8 v) = (v :: u64)"
  using of_le_to_le [of 4 w] of_le_to_le [of 8 v] by (simp_all add: take_bit_word_eq_self)

definition region :: "u32 \<Rightarrow> nat \<Rightarrow> u32 set" where
  "region a n = (\<lambda>i. a + word_of_nat i) ` {..<n}"

lemma region_Suc: "region a (Suc n) = insert a (region (a + 1) n)"
proof -
  have "{..<Suc n} = insert 0 (Suc ` {..<n})" by (simp add: lessThan_Suc_eq_insert_0)
  then show ?thesis by (auto simp: region_def image_iff algebra_simps)
qed

lemma region_first: "n < 2 ^ 32 \<Longrightarrow> a \<notin> region (a + 1) n"
proof
  assume n: "n < 2 ^ 32" and "a \<in> region (a + 1) n"
  then obtain i where i: "i < n" "a = a + 1 + word_of_nat i" by (auto simp: region_def)
  then have "(word_of_nat (Suc i) :: u32) = 0" by (simp add: algebra_simps)
  then have "2 ^ 32 dvd Suc i" by (simp only: word_of_nat_eq_0_iff) simp
  then show False using i(1) n by (auto dest: dvd_imp_le)
qed

lemma store_other: "store_bytes m a bs = Some m' \<Longrightarrow> x \<notin> region a (length bs) \<Longrightarrow> m' x = m x"
  by (induction m a bs rule: store_bytes.induct) (auto simp: region_Suc split: if_splits)

lemma store_load: "store_bytes m a bs = Some m' \<Longrightarrow> length bs < 2 ^ 32 \<Longrightarrow> load_bytes m' a (length bs) = Some bs"
proof (induction m a bs rule: store_bytes.induct)
  case (2 m a b bs)
  have m: "store_bytes (m(a \<mapsto> b)) (a + 1) bs = Some m'" "m a \<noteq> None" using "2.prems"(1) by (auto split: if_splits)
  have "m' a = Some b" using store_other [OF m(1) region_first] "2.prems"(2) by simp
  then show ?case using "2.IH" [OF m(2,1)] "2.prems"(2) by simp
qed simp

lemma store_mapped: "store_bytes m a bs = Some m' \<Longrightarrow> m' x = None \<longleftrightarrow> m x = None"
  by (induction m a bs rule: store_bytes.induct) (auto split: if_splits)

lemma load_store_exists: "load_bytes m a (length bs) \<noteq> None \<Longrightarrow> \<exists>m'. store_bytes m a bs = Some m'"
proof (induction m a bs rule: store_bytes.induct)
  case (2 m a b bs)
  have l: "m a \<noteq> None" "load_bytes m (a + 1) (length bs) \<noteq> None"
    using "2.prems" by (auto split: option.splits)
  have keep: "load_bytes (m(a \<mapsto> b)) c n = None \<Longrightarrow> load_bytes m c n = None" for c n
    by (induction n arbitrary: c) (use l(1) in \<open>auto split: option.splits if_splits\<close>)
  then have "load_bytes (m(a \<mapsto> b)) (a + 1) (length bs) \<noteq> None" using keep [of "a + 1" "length bs"] l(2) by metis
  from "2.IH" [OF l(1) this] show ?case unfolding store_bytes.simps using l(1) by (metis (no_types))
qed simp

lemma rdW_wrW: "wrW (At a) v st = Inr st' \<Longrightarrow> rdW (At a) st' = Inr v"
  using store_load [of "vmem st" a "to_le 4 v"] by (auto simp: wrW_def rdW_def split: option.splits)

lemma rdL_wrL: "wrL (At a) v st = Inr st' \<Longrightarrow> rdL (At a) st' = Inr v"
  using store_load [of "vmem st" a "to_le 8 v"] by (auto simp: wrL_def rdL_def split: option.splits)

lemma rdB_wrB: "wrB (At a) v st = Inr st' \<Longrightarrow> rdB (At a) st' = Inr v"
  using store_load [of "vmem st" a "[v]"] by (auto simp: wrB_def rdB_def split: option.splits if_splits)


section \<open>The case instruction\<close>

type_synonym case_table = "(u32 \<times> u32 \<times> u32) list"   \<comment> \<open>from, up to but not including, target\<close>

definition case_find :: "u32 \<Rightarrow> case_table \<Rightarrow> u32 \<Rightarrow> u32" where
  "case_find v tab d = (case find (\<lambda>(lo, hi, p). lo \<le>s v \<and> v <s hi) tab of None \<Rightarrow> d | Some (lo, hi, p) \<Rightarrow> p)"

definition case_sorted :: "case_table \<Rightarrow> bool" where
  "case_sorted tab \<longleftrightarrow> (\<forall>(lo, hi, p) \<in> set tab. lo \<le>s hi) \<and>
     sorted_wrt (\<lambda>(lo, hi, p) (lo', hi', p'). hi \<le>s lo') tab"

lemma find_append: "find P (xs @ ys) = (case find P xs of None \<Rightarrow> find P ys | Some x \<Rightarrow> Some x)"
  by (induction xs) auto

lemma case_find_split:
  assumes "case_sorted (xs @ (lo, hi, p) # ys)"
  shows "v <s lo \<Longrightarrow> case_find v (xs @ (lo, hi, p) # ys) d = case_find v xs d"
    and "hi \<le>s v \<Longrightarrow> case_find v (xs @ (lo, hi, p) # ys) d = case_find v ys d"
    and "lo \<le>s v \<Longrightarrow> v <s hi \<Longrightarrow> case_find v (xs @ (lo, hi, p) # ys) d = p"
proof -
  let ?P = "\<lambda>(lo, hi, p). lo \<le>s v \<and> v <s hi"
  have w: "lo \<le>s hi" using assms by (auto simp: case_sorted_def)
  have l: "h \<le>s lo" if "(l, h, q) \<in> set xs" for l h q
    using assms that unfolding case_sorted_def sorted_wrt_append by fastforce
  have r: "hi \<le>s l" if "(l, h, q) \<in> set ys" for l h q
    using assms that unfolding case_sorted_def sorted_wrt_append by fastforce
  have nx: "find ?P xs = None" if "lo \<le>s v"
    unfolding find_None_iff using l that by (fastforce simp: word_sle_eq word_sless_alt)
  show "case_find v (xs @ (lo, hi, p) # ys) d = case_find v xs d" if "v <s lo"
  proof -
    have "find ?P ((lo, hi, p) # ys) = None"
      unfolding find_None_iff using r w that by (fastforce simp: word_sle_eq word_sless_alt)
    then show ?thesis by (simp add: case_find_def find_append split: option.split)
  qed
  show "case_find v (xs @ (lo, hi, p) # ys) d = case_find v ys d" if "hi \<le>s v"
  proof -
    have "lo \<le>s v" "\<not> v <s hi" using w that by (auto simp: word_sle_eq word_sless_alt)
    then show ?thesis using nx by (simp add: case_find_def find_append)
  qed
  show "case_find v (xs @ (lo, hi, p) # ys) d = p" if "lo \<le>s v" "v <s hi"
    using nx that by (simp add: case_find_def find_append)
qed

definition entry_at :: "vm \<Rightarrow> u32 \<Rightarrow> u32 \<times> u32 \<times> u32 \<Rightarrow> bool" where
  "entry_at st a e \<longleftrightarrow> (case e of (lo, hi, p) \<Rightarrow>
     rdW (At a) st = Inr lo \<and> rdW (At (a + 4)) st = Inr hi \<and> rdW (At (a + 8)) st = Inr p)"

definition table_at :: "vm \<Rightarrow> u32 \<Rightarrow> case_table \<Rightarrow> bool" where
  "table_at st t tab \<longleftrightarrow> (\<forall>k < length tab. entry_at st (t + word_of_nat (k * 12)) (tab ! k))"

lemma table_at_parts:
  assumes "table_at st t (xs @ e # ys)"
  shows "table_at st t xs" and "table_at st (t + word_of_nat (length xs * 12) + 12) ys"
    and "entry_at st (t + word_of_nat (length xs * 12)) e"
proof -
  have at: "entry_at st (t + word_of_nat (k * 12)) ((xs @ e # ys) ! k)" if "k < length xs + 1 + length ys" for k
    using assms that by (simp add: table_at_def)
  show "table_at st t xs"
    unfolding table_at_def
  proof (intro allI impI)
    fix k assume "k < length xs"
    then show "entry_at st (t + word_of_nat (k * 12)) (xs ! k)" using at [of k] by (simp add: nth_append)
  qed
  show "entry_at st (t + word_of_nat (length xs * 12)) e" using at [of "length xs"] by simp
  show "table_at st (t + word_of_nat (length xs * 12) + 12) ys"
    unfolding table_at_def
  proof (intro allI impI)
    fix k assume k: "k < length ys"
    have w: "t + word_of_nat ((length xs + 1 + k) * 12) = t + word_of_nat (length xs * 12) + 12 + word_of_nat (k * 12)"
      by (simp add: algebra_simps)
    have "(xs @ e # ys) ! (length xs + 1 + k) = ys ! k" by (simp add: nth_append)
    then show "entry_at st (t + word_of_nat (length xs * 12) + 12 + word_of_nat (k * 12)) (ys ! k)"
      using at [of "length xs + 1 + k"] k unfolding w by simp
  qed
qed

lemma icase_loop_find:
  "table_at st t tab \<Longrightarrow> case_sorted tab \<Longrightarrow> icase_loop st v t (length tab) d = Inr (case_find v tab d)"
proof (induction "length tab" arbitrary: tab t rule: less_induct)
  case less
  show ?case
  proof (cases "tab = []")
    case True
    then show ?thesis by (simp add: icase_loop.simps [of _ _ _ 0] case_find_def)
  next
    case False
    define k where "k = length tab div 2"
    have k: "k < length tab" using False by (simp add: k_def)
    obtain lo hi p where e: "tab ! k = (lo, hi, p)" by (cases "tab ! k")
    define xs ys where "xs = take k tab" and "ys = drop (Suc k) tab"
    have tab: "tab = xs @ (lo, hi, p) # ys" using id_take_nth_drop [OF k] e by (simp add: xs_def ys_def)
    have len: "length xs = k" "length ys = length tab - (k + 1)" using k by (simp_all add: xs_def ys_def)
    let ?l = "t + word_of_nat (k * 12)"
    have s: "case_sorted xs" "case_sorted ys"
      using less.prems(2) unfolding tab case_sorted_def by (auto simp: sorted_wrt_append)
    have r: "rdW (At ?l) st = Inr lo" "rdW (At (?l + 4)) st = Inr hi" "rdW (At (?l + 8)) st = Inr p"
      using table_at_parts(3) [OF less.prems(1) [unfolded tab]] by (simp_all add: len entry_at_def)
    have tx: "table_at st t xs" "table_at st (?l + 12) ys"
      using table_at_parts(1,2) [OF less.prems(1) [unfolded tab]] by (simp_all add: len)
    have ih: "icase_loop st v t k d = Inr (case_find v xs d)"
      "icase_loop st v (?l + 12) (length tab - (k + 1)) d = Inr (case_find v ys d)"
      using less.hyps [OF _ tx(1) s(1)] less.hyps [OF _ tx(2) s(2)] k len by simp_all
    note f = case_find_split [OF less.prems(2) [unfolded tab], of v d, folded tab]
    have "icase_loop st v t (length tab) d =
        (if v <s lo then Inr (case_find v xs d) else if hi \<le>s v then Inr (case_find v ys d) else Inr p)"
      using False ih r by (simp add: icase_loop.simps [of _ _ _ "length tab"] Let_def flip: k_def)
    then show ?thesis using f by (auto simp: word_sle_eq word_sless_alt not_less)
  qed
qed

text \<open>
  C27. The case instruction jumps to the place before the target of the table entry whose range holds the
  value, or of the default entry when none does, for every table of disjoint ranges in ascending order:
  the binary search of \<open>icase\<close> computes the linear search.
\<close>
theorem icase_selects:
  assumes "rdW (rs st) st = Inr v" and "rd st = At a"
    and "rdW (At a) st = Inr (word_of_nat (length tab))" and "length tab < 2 ^ 31"
    and "rdW (At (a + 4 + word_of_nat (length tab) * 12)) st = Inr d"
    and "table_at st (a + 4) tab" and "case_sorted tab"
  shows "icase st = Inr (st\<lparr>vpc :=
    (case find (\<lambda>(lo, hi, p). lo \<le>s v \<and> v <s hi) tab of None \<Rightarrow> d | Some (lo, hi, p) \<Rightarrow> p) - 1\<rparr>)"
proof -
  have "unat (word_of_nat (length tab) :: u32) = length tab"
    using assms(4) by (simp add: unsigned_of_nat take_bit_nat_eq_self)
  have n: "nat (sint (word_of_nat (length tab) :: u32)) = length tab"
    using assms(4) by (simp add: signed_of_nat signed_take_bit_int_eq_self)
  show ?thesis
    using icase_loop_find [OF assms(6,7), of v d]
    by (simp add: icase_def assms(1,2,3,5) n case_find_def)
qed

theorem icase_selects_witness:
  "let m = (\<lambda>a. if a = 4 then Some 1 else if a \<in> {8, 12, 20, 24} then Some 9 else Some 0);
       st = \<lparr>vmem = m(12 \<mapsto> 20, 16 \<mapsto> 77), vprog = [], vpc = 0, vmp = 0, vfp = 0, rs = At 24, rd = At 4, rm = Tmp, rt = 0, vic = 1\<rparr>
   in icase st = Inr (st\<lparr>vpc := 76\<rparr>)"
proof -
  let ?m = "(\<lambda>a. if a = 4 then Some 1 else if a \<in> {8, 12, 20, 24} then Some 9 else Some 0) (12 \<mapsto> 20, 16 \<mapsto> 77) :: memory"
  let ?st = "\<lparr>vmem = ?m, vprog = [], vpc = 0, vmp = 0, vfp = 0, rs = At 24, rd = At 4, rm = Tmp, rt = 0, vic = 1\<rparr>"
  have r: "rdW (At 24) ?st = Inr 9" "rdW (At 4) ?st = Inr 1" "rdW (At 8) ?st = Inr 9" "rdW (At 12) ?st = Inr 20"
    "rdW (At 16) ?st = Inr 77" "rdW (At 20) ?st = Inr 9"
    by code_simp+
  have t: "table_at ?st 8 [(9, 20, 77)]" using r by (simp add: table_at_def entry_at_def)
  have s: "case_sorted [(9, 20, 77)]" by (simp add: case_sorted_def)
  show ?thesis
    using icase_selects [of ?st 9 4 "[(9, 20, 77)]" 9] r t s by (simp add: Let_def)
qed

section \<open>Division\<close>

lemma sdiv_range:
  assumes "- (2 ^ 31) \<le> a" and "a < 2 ^ 31" and "b \<noteq> 0" and "\<not> (a = - (2 ^ 31) \<and> b = - 1)"
  shows "- (2 ^ 31) \<le> a sdiv b" and "a sdiv b < (2 ^ 31 :: int)"
proof -
  have q: "\<bar>a sdiv b\<bar> = \<bar>a\<bar> div \<bar>b\<bar>" by (cases "b = 0"; cases "a = 0") (simp_all add: signed_divide_int_def abs_mult pos_imp_zdiv_nonneg_iff)
  have le: "\<bar>a\<bar> div \<bar>b\<bar> \<le> \<bar>a\<bar>" using assms(3) zdiv_mono2 [of "\<bar>a\<bar>" 1 "\<bar>b\<bar>"] by simp
  show "- (2 ^ 31) \<le> a sdiv b" using q le assms(1,2) by linarith
  show "a sdiv b < 2 ^ 31"
  proof (cases "a = - (2 ^ 31)")
    case True
    show ?thesis
    proof (cases "b = 1")
      case False
      then have "2 \<le> \<bar>b\<bar>" using assms(3,4) True by linarith
      then have "\<bar>a\<bar> div \<bar>b\<bar> \<le> \<bar>a\<bar> div 2" by (intro zdiv_mono2) auto
      then show ?thesis using q True by simp
    qed (use True in \<open>simp add: signed_divide_int_def\<close>)
  next
    case False
    then show ?thesis using q le assms(1,2) by linarith
  qed
qed

lemma smod_abs: "b \<noteq> 0 \<Longrightarrow> \<bar>a smod b\<bar> < \<bar>b :: int\<bar>"
  by (cases "a = 0") (simp_all add: signed_modulo_int_def signed_divide_int_def abs_mult abs_sgn_eq)

lemma smod_sgn: "a smod b = 0 \<or> sgn (a smod b) = sgn (a :: int)"
proof (cases "a smod b = 0")
  case False
  then have "b \<noteq> 0 \<or> a \<noteq> 0" by auto
  have "a smod b = sgn a * (\<bar>a\<bar> mod \<bar>b\<bar>)"
    by (cases "a = 0"; cases "b = 0") (auto simp: signed_modulo_int_def signed_divide_int_def sgn_if minus_div_mult_eq_mod
        abs_if algebra_simps minus_mult_div_eq_mod)
  moreover from this False have "\<bar>a\<bar> mod \<bar>b\<bar> > 0"
    by (cases "b = 0") (auto simp: order_less_le)
  ultimately show ?thesis by (simp add: sgn_mult)
qed simp

lemma div_mod_word:
  "case divW m s of
     Inl e \<Rightarrow> e = Trap \<and> modW m s = Inl Trap \<and> (s = 0 \<or> sint m = - (2 ^ 31) \<and> sint s = - 1)
   | Inr q \<Rightarrow> (\<exists>r. modW m s = Inr r \<and> sint m = sint q * sint s + sint r \<and> \<bar>sint r\<bar> < \<bar>sint s\<bar> \<and>
       (sint r = 0 \<or> sgn (sint r) = sgn (sint m)))"
proof (cases "s = 0 \<or> m = 0x80000000 \<and> s = - 1")
  case True
  have "sint (0x80000000 :: u32) = - (2 ^ 31)" "sint (- 1 :: u32) = - 1" by simp_all
  then show ?thesis using True by (auto simp: divW_def modW_def)
next
  case False
  have r: "- (2 ^ 31) \<le> sint w" "sint w < 2 ^ 31" for w :: u32
    using sint_ge [of w] sint_lt [of w] by simp_all
  have s0: "sint s \<noteq> 0" using False by (simp add: signed_eq_0_iff)
  have c: "\<not> (sint m = - (2 ^ 31) \<and> sint s = - 1)"
  proof
    assume "sint m = - (2 ^ 31) \<and> sint s = - 1"
    then have "sint m = sint (0x80000000 :: u32)" "sint s = sint (- 1 :: u32)" by simp_all
    then show False using False signed_word_eqI [of m] signed_word_eqI [of s] by blast
  qed
  have id: "sint (word_of_int x :: u32) = x" if "- (2 ^ 31) \<le> x" "x < 2 ^ 31" for x
    using that by (simp add: signed_of_int signed_take_bit_int_eq_self)
  have q: "sint (word_of_int (sint m sdiv sint s) :: u32) = sint m sdiv sint s"
    by (rule id [OF sdiv_range [OF r(1) r(2) s0 c]])
  have m: "sint (word_of_int (sint m smod sint s) :: u32) = sint m smod sint s"
    by (rule id) (use smod_abs [OF s0, of "sint m"] r [of s] in linarith)+
  have "divW m s = Inr (word_of_int (sint m sdiv sint s))" "modW m s = Inr (word_of_int (sint m smod sint s))"
    using False by (simp_all add: divW_def modW_def)
  then show ?thesis
    using smod_abs [OF s0, of "sint m"] smod_sgn [of "sint m" "sint s"] sdiv_mult_smod_eq [of "sint m" "sint s"] by (simp only: q m sum.case) (intro exI [of _ "word_of_int (sint m smod sint s) :: u32"], simp add: m)
qed

lemma wrW_At:
  assumes "rdW (At a) st = Inr old"
  shows "\<exists>m. wrW (At a) v st = Inr (st\<lparr>vmem := m\<rparr>) \<and> rdW (At a) (st\<lparr>vmem := m\<rparr>) = Inr v \<and>
    (\<forall>x. x \<notin> region a 4 \<longrightarrow> m x = vmem st x)"
proof -
  have "load_bytes (vmem st) a (length (to_le 4 v)) \<noteq> None"
    using assms by (auto simp: rdW_def split: option.splits)
  then obtain m where m: "store_bytes (vmem st) a (to_le 4 v) = Some m" using load_store_exists by blast
  then have "wrW (At a) v st = Inr (st\<lparr>vmem := m\<rparr>)" by (simp add: wrW_def)
  with rdW_wrW [OF this] store_other [OF m] show ?thesis by auto
qed

text \<open>
  C29. The instructions \<open>divw\<close> and \<open>modw\<close>, with the dividend in the middle operand, the divisor in the
  source and a destination in memory. Both trap on a zero divisor and on the one quotient that does
  not fit. Otherwise they leave in the destination a quotient and a remainder that make up the dividend, the
  remainder smaller than the divisor and of the sign of the dividend, and change nothing else.
\<close>
theorem division_law:
  assumes "rdW (rm st) st = Inr m" and "rdW (rs st) st = Inr s" and "rd st = At a" and "rdW (At a) st = Inr old"
  shows "if s = 0 \<or> sint m = - (2 ^ 31) \<and> sint s = - 1
    then exec other ''divw'' st = Inl Trap \<and> exec other ''modw'' st = Inl Trap
    else \<exists>m1 m2 q r.
      exec other ''divw'' st = Inr (st\<lparr>vmem := m1\<rparr>) \<and> rdW (At a) (st\<lparr>vmem := m1\<rparr>) = Inr q \<and>
      exec other ''modw'' st = Inr (st\<lparr>vmem := m2\<rparr>) \<and> rdW (At a) (st\<lparr>vmem := m2\<rparr>) = Inr r \<and>
      sint m = sint q * sint s + sint r \<and> \<bar>sint r\<bar> < \<bar>sint s\<bar> \<and> (sint r = 0 \<or> sgn (sint r) = sgn (sint m)) \<and>
      (\<forall>x. x \<notin> region a 4 \<longrightarrow> m1 x = vmem st x \<and> m2 x = vmem st x)"
proof -
  have ex: "exec other ''divw'' st = bindR (divW m s) (\<lambda>v. wrW (At a) v st)"
    "exec other ''modw'' st = bindR (modW m s) (\<lambda>v. wrW (At a) v st)"
    by (simp_all add: exec_def ops_def arith_tables binW_def assms)
  show ?thesis
  proof (cases "s = 0 \<or> sint m = - (2 ^ 31) \<and> sint s = - 1")
    case True
    have "m = 0x80000000 \<and> s = - 1" if "s \<noteq> 0"
    proof -
      have "sint m = sint (0x80000000 :: u32)" "sint s = sint (- 1 :: u32)" using True that by simp_all
      then show ?thesis using signed_word_eqI [of m] signed_word_eqI [of s] by blast
    qed
    then have "divW m s = Inl Trap" "modW m s = Inl Trap" using True by (auto simp: divW_def modW_def)
    then show ?thesis using True by (simp add: ex)
  next
    case False
    then obtain q where q: "divW m s = Inr q" using div_mod_word [of m s] by (cases "divW m s") auto
    then obtain r where r: "modW m s = Inr r" "sint m = sint q * sint s + sint r" "\<bar>sint r\<bar> < \<bar>sint s\<bar>"
      "sint r = 0 \<or> sgn (sint r) = sgn (sint m)"
      using div_mod_word [of m s] by auto
    obtain m1 where m1: "wrW (At a) q st = Inr (st\<lparr>vmem := m1\<rparr>)" "rdW (At a) (st\<lparr>vmem := m1\<rparr>) = Inr q"
      "\<forall>x. x \<notin> region a 4 \<longrightarrow> m1 x = vmem st x"
      using wrW_At [OF assms(4)] by blast
    obtain m2 where m2: "wrW (At a) r st = Inr (st\<lparr>vmem := m2\<rparr>)" "rdW (At a) (st\<lparr>vmem := m2\<rparr>) = Inr r"
      "\<forall>x. x \<notin> region a 4 \<longrightarrow> m2 x = vmem st x"
      using wrW_At [OF assms(4)] by blast
    have e: "exec other ''divw'' st = Inr (st\<lparr>vmem := m1\<rparr>)" "exec other ''modw'' st = Inr (st\<lparr>vmem := m2\<rparr>)"
      using q r(1) m1(1) m2(1) by (simp_all add: ex)
    show ?thesis unfolding if_not_P [OF False]
      by (intro exI [of _ m1] exI [of _ m2] exI [of _ q] exI [of _ r] conjI)
        (simp_all only: e m1(2) m2(2) r(2) [symmetric] r(3,4), use m1(3) m2(3) in blast)
  qed
qed

theorem division_law_witness:
  "let st = \<lparr>vmem = (\<lambda>a. if a = 0 then Some 0xF9 else if a \<in> {1, 2, 3} then Some 0xFF else if a = 4 then Some 2 else Some 0),
      vprog = [], vpc = 0, vmp = 0, vfp = 0, rs = At 4, rd = At 8, rm = At 0, rt = 0, vic = 1\<rparr>
   in \<exists>m1 q. exec (\<lambda>_. Inr) ''divw'' st = Inr (st\<lparr>vmem := m1\<rparr>) \<and> rdW (At 8) (st\<lparr>vmem := m1\<rparr>) = Inr q \<and> sint q = - 3"
proof -
  let ?st = "\<lparr>vmem = (\<lambda>a. if a = 0 then Some 0xF9 else if a \<in> {1, 2, 3} then Some 0xFF else if a = 4 then Some 2 else Some 0) :: memory,
      vprog = [], vpc = 0, vmp = 0, vfp = 0, rs = At 4, rd = At 8, rm = At 0, rt = 0, vic = 1\<rparr>"
  have r: "rdW (rm ?st) ?st = Inr (- 7)" "rdW (rs ?st) ?st = Inr 2" "rd ?st = At 8" "rdW (At 8) ?st = Inr 0"
    by code_simp+
  have n: "\<not> ((2 :: u32) = 0 \<or> sint (- 7 :: u32) = - (2 ^ 31) \<and> sint (2 :: u32) = - 1)" by simp
  from division_law [OF r, of "\<lambda>_. Inr", unfolded if_not_P [OF n]] obtain m1 q and x :: u32 where
    d: "exec (\<lambda>_. Inr) ''divw'' ?st = Inr (?st\<lparr>vmem := m1\<rparr>)" "rdW (At 8) (?st\<lparr>vmem := m1\<rparr>) = Inr q"
    and x: "sint (- 7 :: u32) = sint q * sint (2 :: u32) + sint x" "\<bar>sint x\<bar> < \<bar>sint (2 :: u32)\<bar>"
    "sint x = 0 \<or> sgn (sint x) = sgn (sint (- 7 :: u32))"
    by blast
  have "- 7 = sint q * 2 + sint x" "\<bar>sint x\<bar> < 2" "sint x \<le> 0"
    using x by (auto simp: sgn_if split: if_splits)
  then have "sint q = - 3" by presburger
  with d show ?thesis by (auto simp: Let_def)
qed

section \<open>Arrays\<close>

lemma word_index_inj: "i < 2 ^ 32 \<Longrightarrow> j < 2 ^ 32 \<Longrightarrow> (word_of_nat i :: u32) = word_of_nat j \<longleftrightarrow> i = j"
proof
  assume l: "i < 2 ^ 32" "j < 2 ^ 32" and e: "(word_of_nat i :: u32) = word_of_nat j"
  from e have "unat (word_of_nat i :: u32) = unat (word_of_nat j :: u32)" by simp
  then show "i = j" using l by (simp add: unsigned_of_nat take_bit_nat_eq_self)
qed simp

lemma element_region:
  assumes "k < n" and "n * sz \<le> 2 ^ 32"
  shows "region (d + word_of_nat (k * sz)) sz \<subseteq> region d (n * sz)"
proof
  fix x assume "x \<in> region (d + word_of_nat (k * sz)) sz"
  then obtain b where b: "b < sz" "x = d + word_of_nat (k * sz) + word_of_nat b" by (auto simp: region_def)
  have "k * sz + b < Suc k * sz" using b(1) by simp
  also have "\<dots> \<le> n * sz" using assms(1) by (intro mult_le_mono1) simp
  finally have "k * sz + b \<in> {..<n * sz}" by simp
  then show "x \<in> region d (n * sz)" using b(2) unfolding region_def by (intro image_eqI [of _ _ "k * sz + b"]) simp_all
qed

lemma element_disjoint:
  assumes "j < k" and "k < n" and "n * sz \<le> 2 ^ 32"
  shows "region (d + word_of_nat (j * sz)) sz \<inter> region (d + word_of_nat (k * sz)) sz = {}"
proof (rule ccontr)
  assume "\<not> ?thesis"
  then obtain b c where b: "b < sz" "c < sz" "d + word_of_nat (j * sz) + word_of_nat b = d + word_of_nat (k * sz) + word_of_nat c"
    unfolding region_def by blast
  then have w: "(word_of_nat (j * sz + b) :: u32) = word_of_nat (k * sz + c)" by (simp add: add.assoc)
  have jk: "j * sz + b < k * sz" 
  proof -
    have "j * sz + b < Suc j * sz" using b(1) by simp
    also have "\<dots> \<le> k * sz" using assms(1) by (intro mult_le_mono1) simp
    finally show ?thesis .
  qed
  have "k * sz + c < Suc k * sz" using b(2) by simp
  also have "\<dots> \<le> n * sz" using assms(2) by (intro mult_le_mono1) simp
  finally have "k * sz + c < 2 ^ 32" using assms(3) by simp
  moreover from this have "j * sz + b < 2 ^ 32" using jk by simp
  ultimately have "j * sz + b = k * sz + c" using w word_index_inj by blast
  then show False using jk by simp
qed

text \<open>
  C28. Indexing raises ``bounds exceeded'' on a nil array, without a read through it, and on an index outside
  the array (a negative one included), when only its length is read. Otherwise it yields the address of an
  element: its bytes lie in the data of the array, which is in memory and at most \<open>2^32\<close> bytes long, and
  those of two different elements are apart.
\<close>
theorem index_checked:
  assumes "rdW (rs st) st = Inr a" and "rdW (rd st) st = Inr i"
    and "a \<noteq> H \<longrightarrow> rdW (At a) st = Inr len"
    and "a \<noteq> H \<and> i < len \<longrightarrow>
      rdW (At (a + 12)) st = Inr data \<and> esz a st = Inr sz \<and> unat len * unat sz \<le> 2 ^ 32"
  shows "if a = H \<or> len \<le> i then ind esz st = Inl (Raise ''bounds exceeded'')
    else \<exists>p. ind esz st = wrW (rm st) p st \<and> region p (unat sz) \<subseteq> region data (unat len * unat sz) \<and>
      (\<forall>j < len. j \<noteq> i \<longrightarrow> region p (unat sz) \<inter> region (data + j * sz) (unat sz) = {})"
proof (cases "a = H \<or> len \<le> i")
  case False
  then have h: "rdW (At a) st = Inr len" "rdW (At (a + 12)) st = Inr data" "esz a st = Inr sz"
    "unat len * unat sz \<le> 2 ^ 32"
    using assms(3,4) by (simp_all add: not_le)
  have w: "j * sz = word_of_nat (unat j * unat sz)" for j :: u32 by simp
  have i: "unat i < unat len" using False by (simp add: word_less_nat_alt not_le)
  have sub: "region (data + i * sz) (unat sz) \<subseteq> region data (unat len * unat sz)"
    unfolding w by (rule element_region [OF i h(4)])
  have dis: "region (data + i * sz) (unat sz) \<inter> region (data + j * sz) (unat sz) = {}" if "j < len" "j \<noteq> i" for j
  proof -
    have j: "unat j < unat len" using that(1) by (simp add: word_less_nat_alt)
    have "unat j \<noteq> unat i" using that(2) unsigned_word_eqI by blast
    then consider "unat j < unat i" | "unat i < unat j" by linarith
    then show ?thesis
      unfolding w by cases (use element_disjoint [OF _ i h(4)] element_disjoint [OF _ j h(4)] in blast)+
  qed
  have "ind esz st = wrW (rm st) (data + i * sz) st"
    using False by (simp add: ind_def assms(1,2) h(1-3))
  then show ?thesis using False sub dis by auto
next
  case True
  then show ?thesis using assms(3) by (auto simp: ind_def assms(1,2))
qed
theorem index_checked_witness:
  "let mem = (\<lambda>a. if a = 0 then Some 8 else if a = 8 then Some 3 else if a = 20 then Some 64 else if a = 4 then Some 2
          else if a \<in> {24, 25, 26, 27} then Some 0xFF else if a < 100 then Some 0 else None);
       st = \<lparr>vmem = mem, vprog = [], vpc = 0, vmp = 0, vfp = 0, rs = At 0, rd = At 4, rm = At 40, rt = 0, vic = 1\<rparr>
   in (\<exists>p. ind (\<lambda>a st. Inr 4) st = wrW (At 40) p st \<and> region p 4 \<subseteq> region 64 12) \<and>
      ind (\<lambda>a st. Inr 4) (st\<lparr>rd := At 24\<rparr>) = Inl (Raise ''bounds exceeded'') \<and>
      rdW (At H) (st\<lparr>rs := At 24\<rparr>) = Inl Trap \<and>
      ind (\<lambda>a st. Inr 4) (st\<lparr>rs := At 24\<rparr>) = Inl (Raise ''bounds exceeded'')"
proof -
  let ?mem = "(\<lambda>a. if a = 0 then Some 8 else if a = 8 then Some 3 else if a = 20 then Some 64 else if a = 4 then Some 2
          else if a \<in> {24, 25, 26, 27} then Some 0xFF else if a < 100 then Some 0 else None) :: memory"
  let ?st = "\<lparr>vmem = ?mem, vprog = [], vpc = 0, vmp = 0, vfp = 0, rs = At 0, rd = At 4, rm = At 40, rt = 0, vic = 1\<rparr>"
  let ?esz = "\<lambda>a st. Inr 4 :: u32 res"
  have r: "rdW (rs ?st) ?st = Inr 8" "rdW (rd ?st) ?st = Inr 2" "rdW (At 8) ?st = Inr 3" "rdW (At (8 + 12)) ?st = Inr 64"
    by code_simp+
  have o: "rdW (rs (?st\<lparr>rd := At 24\<rparr>)) (?st\<lparr>rd := At 24\<rparr>) = Inr 8"
    "rdW (rd (?st\<lparr>rd := At 24\<rparr>)) (?st\<lparr>rd := At 24\<rparr>) = Inr 0xFFFFFFFF" "rdW (At 8) (?st\<lparr>rd := At 24\<rparr>) = Inr 3"
    by code_simp+
  have n: "rdW (rs (?st\<lparr>rs := At 24\<rparr>)) (?st\<lparr>rs := At 24\<rparr>) = Inr H" "rdW (rd (?st\<lparr>rs := At 24\<rparr>)) (?st\<lparr>rs := At 24\<rparr>) = Inr 2"
    "rdW (At H) (?st\<lparr>rs := At 24\<rparr>) = Inl Trap"
    by code_simp+
  have "\<exists>p. ind ?esz ?st = wrW (At 40) p ?st \<and> region p 4 \<subseteq> region 64 12"
    using index_checked [OF r(1,2), of 3 64 ?esz 4] r(3,4) by auto
  moreover have "ind ?esz (?st\<lparr>rd := At 24\<rparr>) = Inl (Raise ''bounds exceeded'')"
    using index_checked [OF o(1,2), of 3 0 ?esz 0] o(3) by simp
  moreover have "ind ?esz (?st\<lparr>rs := At 24\<rparr>) = Inl (Raise ''bounds exceeded'')"
    using index_checked [OF n(1,2), of 0 0 ?esz 0] by simp
  ultimately show ?thesis using n(3) unfolding Let_def by (intro conjI)
qed

end
