(* ===== verification/DisRun.thy ===== *)
theory DisRun
  imports DisExecProps
begin

text \<open>
  Running what the loader loaded: the operands an instruction decodes to are those of the compiler's
  instruction, branches and jumps land on the compiler's targets, and a quantum ends.
\<close>

section \<open>Operands of loaded instructions\<close>

text \<open>What a compiler address denotes when the instruction runs; \<open>imm\<close> is the operand field.\<close>

definition addr_place :: "addr \<Rightarrow> place \<Rightarrow> vm \<Rightarrow> place res" where
  "addr_place a imm st = (case amode a of
     Amp \<Rightarrow> Inr (At (vmp st + areg a))
   | Afp \<Rightarrow> Inr (At (vfp st + areg a))
   | Ampind \<Rightarrow> bindR (rdW (At (vmp st + areg a)) st) (\<lambda>b. Inr (At (b + aoffset a)))
   | Afpind \<Rightarrow> bindR (rdW (At (vfp st + areg a)) st) (\<lambda>b. Inr (At (b + aoffset a)))
   | _ \<Rightarrow> Inr imm)"

definition small_addr :: "addr \<Rightarrow> bool" where   \<comment> \<open>\<open>MaxReg\<close> in \<^verbatim>\<open>limbo/gen.c\<close>\<close>
  "small_addr a \<longleftrightarrow> (amode a \<in> {Ampind, Afpind} \<longrightarrow> areg a < 2 ^ 16 \<and> aoffset a < 2 ^ 16)"

definition small_mid :: "addr \<Rightarrow> bool" where
  "small_mid a \<longleftrightarrow> (amode a \<in> {Amp, Afp} \<longrightarrow> areg a < 2 ^ 16)"

lemma ucast_u16: "ucast (ucast w :: u16) = (take_bit 16 w :: u32)"
  by (rule bit_word_eqI) (auto simp: bit_simps)

lemma small_word: "w < 2 ^ 16 \<Longrightarrow> ucast (ucast w :: u16) = (w :: u32)"
  unfolding ucast_u16 by (simp only: take_bit_eq_mask less_mask_eq)

lemma pair_fields:
  "(ucast (f :: u16) OR push_bit 16 (ucast (s :: u16))) AND (0xFFFF :: u32) = ucast f"
  "drop_bit 16 (ucast (f :: u16) OR push_bit 16 (ucast (s :: u16)) :: u32) = ucast s"
proof -
  have "(0xFFFF :: u32) = mask 16" by (simp add: mask_eq_exp_minus_1)
  then show "(ucast (f :: u16) OR push_bit 16 (ucast (s :: u16))) AND (0xFFFF :: u32) = ucast f"
    by (simp only: flip: take_bit_eq_mask) (rule bit_word_eqI, auto simp: bit_simps)
  show "drop_bit 16 (ucast (f :: u16) OR push_bit 16 (ucast (s :: u16)) :: u32) = ucast s"
    by (rule bit_word_eqI, auto simp: bit_simps dest: bit_imp_le_length)
qed

lemma gen_dismode: "gen_of (dismode a) = (case a of Amp \<Rightarrow> Some Gmp | Afp \<Rightarrow> Some Gfp | Ampind \<Rightarrow> Some Gmpi | Afpind \<Rightarrow> Some Gfpi
   | Anone \<Rightarrow> None | Aerr \<Rightarrow> None | _ \<Rightarrow> Some Gimm)"
  by (cases a) (simp_all add: gen_of_def)

lemma mid_disregmode: "mid_of (disregmode a) = (case a of Amp \<Rightarrow> Gmpr | Afp \<Rightarrow> Gfpr | Ampind \<Rightarrow> Gd | Afpind \<Rightarrow> Gd
   | Anone \<Rightarrow> Gd | Aerr \<Rightarrow> Gd | _ \<Rightarrow> Gt)"
  by (cases a) (simp_all add: mid_of_def)

lemma loaded_decoder:
  "decode_ref (iadd (loaded i)) = (gen_of (dismode (amode (cs i))), gen_of (dismode (amode (cd i))),
     if gen_of (dismode (amode (cd i))) = None then None else Some (mid_of (disregmode (amode (cm i)))))"
proof -
  let ?add = "SRC (dismode (amode (cs i))) OR DST (dismode (amode (cd i))) OR disregmode (amode (cm i))"
  have "USRC ?add = dismode (amode (cs i))"
    by (cases "amode (cs i)"; cases "amode (cd i)"; cases "amode (cm i)"; simp add: USRC_def SRC_def DST_def)
  moreover have "UDST ?add = dismode (amode (cd i))"
    by (cases "amode (cs i)"; cases "amode (cd i)"; cases "amode (cm i)"; simp add: UDST_def SRC_def DST_def)
  moreover have "?add AND ARM = disregmode (amode (cm i))" by (rule mode_fields(3))
  ultimately show ?thesis by (simp add: decode_ref_def loaded_def Let_def)
qed
lemma dind_small:
  assumes "f < 2 ^ 16" and "s < 2 ^ 16"
  shows "dind reg (IndInd (ucast f) (ucast s)) st = bindR (rdW (At (reg + f)) st) (\<lambda>b. Inr (At (b + s)))"
  using pair_fields [of "ucast f" "ucast s"] by (simp only: dind_def adr_word.simps Let_def small_word [OF assms(1)] small_word [OF assms(2)])

lemma gen_place_src:
  assumes "small_addr a" and "gen_of (dismode (amode a)) = Some g"
  shows "gen_place g (src_adr a) imm st = addr_place a imm st"
  using assms(1) assms(2) [unfolded gen_dismode]
  by (cases "amode a")
    (auto simp: gen_place_def addr_place_def src_adr_def dind_small small_addr_def)

lemma gen_place_dst:
  assumes "small_addr a" and "gen_of (dismode (amode a)) = Some g"
  shows "gen_place g (dst_adr op a) imm st = addr_place a imm st"
proof (cases "dismode (amode a) = AIMM")
  case True
  then have "g = Gimm" using assms(2) by (simp add: gen_of_def)
  moreover have "addr_place a imm st = Inr imm"
    using True by (cases "amode a") (simp_all add: addr_place_def)
  ultimately show ?thesis by (simp add: gen_place_def)
next
  case False
  then show ?thesis using gen_place_src [OF assms] by (simp add: dst_adr_def)
qed

definition mid_meaning :: "addr \<Rightarrow> vm \<Rightarrow> vm" where
  "mid_meaning a st = (case amode a of
     Anone \<Rightarrow> st\<lparr>rm := rd st\<rparr>
   | Amp \<Rightarrow> st\<lparr>rm := At (vmp st + areg a)\<rparr>
   | Afp \<Rightarrow> st\<lparr>rm := At (vfp st + areg a)\<rparr>
   | Aoff \<Rightarrow> st\<lparr>rt := scast (ucast (aiface a) :: u16), rm := Tmp\<rparr>
   | _ \<Rightarrow> st\<lparr>rt := scast (ucast (aoffset a) :: u16), rm := Tmp\<rparr>)"

lemma mid_place_val:
  assumes "small_mid a" and "amode a \<notin> {Aerr, Ampind, Afpind}"
  shows "mid_place (mid_of (disregmode (amode a))) (mid_val a) st = mid_meaning a st"
  using assms unfolding mid_disregmode
  by (cases "amode a")
    (auto simp: mid_meaning_def mid_val_def src_adr_def small_mid_def small_word)

definition operand_meaning :: "cinst \<Rightarrow> vm \<Rightarrow> vm res" where
  "operand_meaning i st =
     bindR (if amode (cs i) = Anone then Inr st
            else bindR (addr_place (cs i) (SrcOf (vpc st)) st) (\<lambda>p. Inr (st\<lparr>rs := p\<rparr>))) (\<lambda>st1.
     if amode (cd i) = Anone then Inr st1
     else bindR (addr_place (cd i) (DstOf (vpc st)) st1) (\<lambda>p. Inr (mid_meaning (cm i) (st1\<lparr>rd := p\<rparr>))))"

definition fields_fit :: "cinst \<Rightarrow> bool" where
  "fields_fit i \<longleftrightarrow> small_addr (cs i) \<and> small_addr (cd i) \<and> small_mid (cm i)"

lemma decode_loaded:
  assumes "modes_ok i" and "fields_fit i"
  shows "decode (dec ! unat (iadd (loaded i))) (loaded i) st = operand_meaning i st"
proof -
  have none: "gen_of (dismode (amode a)) = None \<longleftrightarrow> amode a = Anone" if "amode a \<noteq> Aerr" for a
    using that unfolding gen_dismode by (cases "amode a") simp_all
  have m: "amode (cs i) \<noteq> Aerr" "amode (cd i) \<noteq> Aerr" "amode (cm i) \<notin> {Aerr, Ampind, Afpind}"
    using assms(1) by (simp_all add: modes_ok_def)
  have f: "small_addr (cs i)" "small_addr (cd i)" "small_mid (cm i)"
    using assms(2) by (simp_all add: fields_fit_def)
  have fields: "isrc (loaded i) = src_adr (cs i)" "idst (loaded i) = dst_adr (cop i) (cd i)" "ireg (loaded i) = mid_val (cm i)"
    by (simp_all add: loaded_def)
  let ?S = "gen_of (dismode (amode (cs i)))" and ?D = "gen_of (dismode (amode (cd i)))"
  have src: "(case ?S of None \<Rightarrow> Inr st | Some g \<Rightarrow> bindR (gen_place g (src_adr (cs i)) (SrcOf (vpc st)) st) (\<lambda>p. Inr (st\<lparr>rs := p\<rparr>))) =
     (if amode (cs i) = Anone then Inr st else bindR (addr_place (cs i) (SrcOf (vpc st)) st) (\<lambda>p. Inr (st\<lparr>rs := p\<rparr>)))"
    using none [OF m(1)] gen_place_src [OF f(1)] by (cases ?S) simp_all
  have dst: "bindR (case ?D of None \<Rightarrow> Inr st1 | Some g \<Rightarrow> bindR (gen_place g (dst_adr (cop i) (cd i)) (DstOf (vpc st)) st1) (\<lambda>p. Inr (st1\<lparr>rd := p\<rparr>)))
        (\<lambda>st2. Inr (case (if ?D = None then None else Some (mid_of (disregmode (amode (cm i))))) of None \<Rightarrow> st2 | Some k \<Rightarrow> mid_place k (mid_val (cm i)) st2)) =
     (if amode (cd i) = Anone then Inr st1 else bindR (addr_place (cd i) (DstOf (vpc st)) st1) (\<lambda>p. Inr (mid_meaning (cm i) (st1\<lparr>rd := p\<rparr>))))" for st1
    using none [OF m(2)] gen_place_dst [OF f(2)] mid_place_val [OF f(3) m(3)]
    by (cases ?D; cases "addr_place (cd i) (DstOf (vpc st)) st1") (simp_all add: bindR_def)
  show ?thesis
    unfolding decoders_match_modes loaded_decoder decode_def fields operand_meaning_def prod.case src dst ..
qed

lemma length_optab: "length optab = 148"
  by (simp add: optab_def)

text \<open>
  C9. The loader reads the bytes of a compiler instruction back to an instruction that, run in any state,
  decodes to the operands the compiler addressed: registers \<open>s\<close>, \<open>d\<close> and \<open>m\<close> point to the words at the
  compiler's offsets from the frame or the module data, to the words the pointers there lead to, or to the
  immediate operands, and a missing operand leaves its register alone.
\<close>
theorem loaded_operands:
  assumes "modes_ok i" and "fields_fit i" and "disinst1 i = Some bs"
  shows "\<exists>x. load_inst (bs @ t) = Some (x, t) \<and> (\<forall>st. decode (dec ! unat (iadd x)) x st = operand_meaning i st)"
  using load_inst_disinst1 [OF assms(1,3)] decode_loaded [OF assms(1,2)] by blast

theorem loaded_operands_witness:
  "\<exists>bs x. disinst1 \<lparr>cop = 93, cs = \<lparr>amode = Afp, areg = 40, aoffset = 0, aiface = 0\<rparr>,
        cd = \<lparr>amode = Apc, areg = 0, aoffset = 7, aiface = 0\<rparr>,
        cm = \<lparr>amode = Aimm, areg = 0, aoffset = 5, aiface = 0\<rparr>\<rparr> = Some bs \<and> load_inst bs = Some (x, []) \<and>
     decode (dec ! unat (iadd x)) x
       \<lparr>vmem = \<lambda>a. None, vprog = [x], vpc = 0, vmp = 100, vfp = 200, rs = Tmp, rd = Tmp, rm = Tmp, rt = 0, vic = 1\<rparr> =
     Inr \<lparr>vmem = \<lambda>a. None, vprog = [x], vpc = 0, vmp = 100, vfp = 200, rs = At 240, rd = DstOf 0, rm = Tmp, rt = 5, vic = 1\<rparr>"
proof -
  let ?i = "\<lparr>cop = 93, cs = \<lparr>amode = Afp, areg = 40, aoffset = 0, aiface = 0\<rparr>,
        cd = \<lparr>amode = Apc, areg = 0, aoffset = 7, aiface = 0\<rparr>,
        cm = \<lparr>amode = Aimm, areg = 0, aoffset = 5, aiface = 0\<rparr>\<rparr>"
  have ok: "modes_ok ?i" "fields_fit ?i"
    by (simp_all add: modes_ok_def fields_fit_def small_addr_def small_mid_def)
  obtain bs where bs: "disinst1 ?i = Some bs"
    by (simp add: disinst1_def disaddr'_def disaddr_def discon_def)
  from loaded_operands [OF ok bs, of "[]"] obtain x where x: "load_inst bs = Some (x, [])"
    "\<And>st. decode (dec ! unat (iadd x)) x st = operand_meaning ?i st" by auto
  show ?thesis
    by (rule exI [of _ bs], rule exI [of _ x])
      (simp add: bs x operand_meaning_def addr_place_def mid_meaning_def)
qed

section \<open>Branches\<close>

text \<open>The handlers that may jump through the destination operand.\<close>

definition jump_handlers :: "string list" where
  "jump_handlers = [''jmp'', ''call'', ''beqb'', ''bneb'', ''bltb'', ''bleb'', ''bgtb'', ''bgeb'', ''beqw'', ''bnew'', ''bltw'',
    ''blew'', ''bgtw'', ''bgew'', ''beql'', ''bnel'', ''bltl'', ''blel'', ''bgtl'', ''bgel'',
    ''beqf'', ''bnef'', ''bltf'', ''blef'', ''bgtf'', ''bgef'', ''beqc'', ''bnec'', ''bltc'', ''blec'', ''bgtc'', ''bgec'']"

lemma branch_ops_numbers:
  "map (\<lambda>n. (word_of_nat n :: u8) \<in> set branch_ops) [0..<148] = map (\<lambda>n. n \<in> {4, 13} \<union> {87..<111} \<union> {129..<135}) [0..<148]"
  unfolding branch_ops_def by code_simp

lemma jump_handler_numbers:
  "map (\<lambda>n. n \<in> {4, 13} \<union> {87..<111} \<union> {129..<135}) [0..<148] = map (\<lambda>h. List.member jump_handlers h) optab"
  unfolding jump_handlers_def optab_def by code_simp

lemma branch_op_handler: "op \<in> set branch_ops \<longleftrightarrow> opfn op \<in> set jump_handlers"
proof (cases "unat op < 148")
  case True
  have member: "List.member jump_handlers = (\<lambda>h. h \<in> set jump_handlers)" by (rule ext) simp
  have "map (\<lambda>n. (word_of_nat n :: u8) \<in> set branch_ops) [0..<148] ! unat op = map (\<lambda>h. h \<in> set jump_handlers) optab ! unat op"
    unfolding branch_ops_numbers jump_handler_numbers member ..
  then show ?thesis using True by (simp add: opfn_def length_optab)
next
  case False
  have "list_all (\<lambda>b. unat b < 148) branch_ops" by (simp add: branch_ops_def)
  then have "op \<notin> set branch_ops" using False by (auto simp: list_all_iff)
  moreover have "opfn op = ''badop''" using False by (simp add: opfn_def length_optab)
  ultimately show ?thesis by (simp add: jump_handlers_def)
qed

text \<open>
  The loader turns the destination of an instruction into the place before the branch target exactly
  for the opcodes whose handler in the interpreter jumps through its destination operand.
\<close>
theorem branch_ops_jump:
  "brpatch op (Ind v) = Ins (sint v - 1) \<longleftrightarrow> opfn op \<in> set jump_handlers"
proof -
  have s: "ISPAWN \<notin> set branch_ops" by (simp add: branch_ops_def)
  show ?thesis unfolding branch_op_handler [symmetric] using s by auto
qed

lemma branch_names: "map_of branch_table n = Some f \<Longrightarrow> map_of ops n = Some f"
  "map_of branch_table n = Some f \<Longrightarrow> n \<in> set jump_handlers"
proof -
  have d: "set (map fst branch_table) \<inter> set (map fst arith_ops) = {}"
    by (simp add: branch_table_def arith_tables)
  { assume f: "map_of branch_table n = Some f"
    then have n: "n \<in> set (map fst branch_table)" by (force dest: map_of_SomeD)
    then show "n \<in> set jump_handlers" by (auto simp: jump_handlers_def branch_table_def)
    have "map_of arith_ops n = None" using n d by (auto simp: map_of_eq_None_iff)
    then show "map_of ops n = Some f" using f by (simp add: ops_def map_add_def) }
qed

lemma jmp_target:
  assumes "amode (cd i) = Apc" and "opfn (cop i) \<in> set jump_handlers"
    and "inst_at (vpc st) st = Inr (loaded i)" and "rd st = DstOf (vpc st)"
  shows "jmp st = Inr (st\<lparr>vpc := aoffset (cd i) - 1\<rparr>)"
proof -
  have b: "brpatch (cop i) (Ind (aoffset (cd i))) = Ins (sint (aoffset (cd i)) - 1)"
    using assms(2) branch_ops_jump by blast
  have "idst (loaded i) = Ins (sint (aoffset (cd i)) - 1)"
    using assms(1) b by (simp add: loaded_def dst_adr_def src_adr_def)
  then show ?thesis using assms(3,4) by (simp add: jmp_def rdW_def)
qed

lemma operand_meaning_keeps:
  assumes "operand_meaning i st = Inr st1"
  shows "vpc st1 = vpc st" "vprog st1 = vprog st" "vmem st1 = vmem st" "vic st1 = vic st" "vfp st1 = vfp st" "vmp st1 = vmp st"
    and "amode (cd i) = Apc \<Longrightarrow> rd st1 = DstOf (vpc st)"
proof -
  have m: "vpc (mid_meaning a s) = vpc s" "vprog (mid_meaning a s) = vprog s" "vmem (mid_meaning a s) = vmem s" "rd (mid_meaning a s) = rd s"
    "vic (mid_meaning a s) = vic s" "vfp (mid_meaning a s) = vfp s" "vmp (mid_meaning a s) = vmp s" for a s
    by (cases "amode a"; simp add: mid_meaning_def)+
  show "vpc st1 = vpc st" "vprog st1 = vprog st" "vmem st1 = vmem st" "vic st1 = vic st" "vfp st1 = vfp st" "vmp st1 = vmp st"
    using assms unfolding operand_meaning_def bindR_def by (auto simp: m split: if_splits sum.splits)
  show "rd st1 = DstOf (vpc st)" if "amode (cd i) = Apc"
    using assms that unfolding operand_meaning_def bindR_def addr_place_def by (auto simp: m split: if_splits sum.splits)
qed

lemma step_loaded:
  assumes "modes_ok i" "fields_fit i" "inst_at (vpc st) st = Inr (loaded i)"
  shows "step_inst other st = bindR (operand_meaning i st) (\<lambda>st1.
    bindR (exec other (opfn (cop i)) st1) (\<lambda>st2. Inr (st2\<lparr>vpc := vpc st2 + 1\<rparr>)))"
proof -
  have [simp]: "iop (loaded i) = cop i" by (simp add: loaded_def)
  show ?thesis unfolding step_inst_def assms(3) by (simp add: decode_loaded [OF assms(1,2)])
qed

lemma inst_at_cong: "vprog st1 = vprog st \<Longrightarrow> inst_at p st1 = inst_at p st"
  by (simp add: inst_at_def)

definition taken :: "cinst \<Rightarrow> vm \<Rightarrow> bool \<Rightarrow> vm" where
  "taken i st b = st\<lparr>vpc := if b then aoffset (cd i) else vpc st + 1\<rparr>"

lemma branch_lands:
  assumes "modes_ok i" "fields_fit i" "inst_at (vpc st) st = Inr (loaded i)"
    and "amode (cd i) = Apc" "opfn (cop i) \<in> set jump_handlers" "operand_meaning i st = Inr st1"
  shows "bindR (if b then jmp st1 else Inr st1) (\<lambda>st2. Inr (st2\<lparr>vpc := vpc st2 + 1\<rparr>)) = Inr (taken i st1 b)"
proof -
  note k = operand_meaning_keeps [OF assms(6)]
  have "inst_at (vpc st1) st1 = Inr (loaded i)" using assms(3) inst_at_cong [OF k(2)] k(1) by metis
  then have "jmp st1 = Inr (st1\<lparr>vpc := aoffset (cd i) - 1\<rparr>)"
    using jmp_target [OF assms(4,5)] k(7) [OF assms(4)] k(1) by metis
  then show ?thesis by (simp add: taken_def)
qed

definition compare_meaning :: "cinst \<Rightarrow> (place \<Rightarrow> vm \<Rightarrow> 'a res) \<Rightarrow> ('a \<Rightarrow> 'a \<Rightarrow> bool) \<Rightarrow> vm \<Rightarrow> vm res" where
  "compare_meaning i get c st =
     bindR (operand_meaning i st) (\<lambda>st1. bindR (get (rs st1) st1) (\<lambda>s. bindR (get (rm st1) st1) (\<lambda>m. Inr (taken i st1 (c s m)))))"

lemma bindR_if: "bindR (bindR a (\<lambda>s. bindR (b s) (f s))) g = bindR a (\<lambda>s. bindR (b s) (\<lambda>m. bindR (f s m) g))"
  by (simp add: bindR_assoc)

lemma bindR_cong: "(\<And>x. m = Inr x \<Longrightarrow> f x = g x) \<Longrightarrow> bindR m f = bindR m g"
  by (cases m) simp_all

text \<open>
  C10. Running a loaded comparison of bytes, words or big words compares the compiler's source and middle
  operands and continues at the instruction the compiler named if the condition holds, at the next otherwise;
  a jump always continues there.
\<close>
theorem branches_reach_target:
  assumes "modes_ok i" and "fields_fit i" and "inst_at (vpc st) st = Inr (loaded i)" and "amode (cd i) = Apc"
  shows "(\<forall>c. map_of branch_table (opfn (cop i)) = Some (brB c) \<longrightarrow> step_inst other st = compare_meaning i rdB c st) \<and>
    (\<forall>c. map_of branch_table (opfn (cop i)) = Some (brW c) \<longrightarrow> step_inst other st = compare_meaning i rdW c st) \<and>
    (\<forall>c. map_of branch_table (opfn (cop i)) = Some (brL c) \<longrightarrow> step_inst other st = compare_meaning i rdL c st) \<and>
    (opfn (cop i) = ''jmp'' \<longrightarrow> step_inst other st = bindR (operand_meaning i st) (\<lambda>st1. Inr (taken i st1 True)))"
proof -
  note step = step_loaded [OF assms(1-3), of other]
  note lands = branch_lands [OF assms]
  have ex: "exec other n = f" if "map_of branch_table n = Some f" for n f
    using branch_names(1) [OF that] by (simp add: exec_def)
  have j: "exec other ''jmp'' = jmp" "''jmp'' \<in> set jump_handlers"
    by (simp_all add: exec_def ops_def arith_tables branch_table_def other_ops_def jump_handlers_def)
  show ?thesis
  proof (intro conjI allI impI)
    fix c assume m: "map_of branch_table (opfn (cop i)) = Some (brB c)"
    show "step_inst other st = compare_meaning i rdB c st"
      unfolding step ex [OF m] brB_def bindR_if compare_meaning_def
      by (intro bindR_cong lands [OF branch_names(2) [OF m]])
  next
    fix c assume m: "map_of branch_table (opfn (cop i)) = Some (brW c)"
    show "step_inst other st = compare_meaning i rdW c st"
      unfolding step ex [OF m] brW_def bindR_if compare_meaning_def
      by (intro bindR_cong lands [OF branch_names(2) [OF m]])
  next
    fix c assume m: "map_of branch_table (opfn (cop i)) = Some (brL c)"
    show "step_inst other st = compare_meaning i rdL c st"
      unfolding step ex [OF m] brL_def bindR_if compare_meaning_def
      by (intro bindR_cong lands [OF branch_names(2) [OF m]])
  next
    assume "opfn (cop i) = ''jmp''"
    then show "step_inst other st = bindR (operand_meaning i st) (\<lambda>st1. Inr (taken i st1 True))"
      unfolding step using j lands [where b = True] by (auto intro!: bindR_cong)
  qed
qed

theorem branches_reach_target_witness:
  "step_inst (\<lambda>h. Inr) \<lparr>vmem = (\<lambda>a. Some 0), vprog = [\<lparr>iop = 93, iadd = 0x0A, ireg = 0, isrc = Ind 40, idst = Ins 6\<rparr>],
      vpc = 0, vmp = 100, vfp = 200, rs = Tmp, rd = Tmp, rm = Tmp, rt = 0, vic = 1\<rparr> =
    compare_meaning \<lparr>cop = 93, cs = \<lparr>amode = Afp, areg = 40, aoffset = 0, aiface = 0\<rparr>,
        cd = \<lparr>amode = Apc, areg = 0, aoffset = 7, aiface = 0\<rparr>,
        cm = \<lparr>amode = Anone, areg = 0, aoffset = 0, aiface = 0\<rparr>\<rparr> rdW (=)
      \<lparr>vmem = (\<lambda>a. Some 0), vprog = [\<lparr>iop = 93, iadd = 0x0A, ireg = 0, isrc = Ind 40, idst = Ins 6\<rparr>],
      vpc = 0, vmp = 100, vfp = 200, rs = Tmp, rd = Tmp, rm = Tmp, rt = 0, vic = 1\<rparr>"
proof -
  let ?i = "\<lparr>cop = 93, cs = \<lparr>amode = Afp, areg = 40, aoffset = 0, aiface = 0\<rparr>,
        cd = \<lparr>amode = Apc, areg = 0, aoffset = 7, aiface = 0\<rparr>,
        cm = \<lparr>amode = Anone, areg = 0, aoffset = 0, aiface = 0\<rparr>\<rparr>"
  let ?st = "\<lparr>vmem = (\<lambda>a. Some 0), vprog = [\<lparr>iop = 93, iadd = 0x0A, ireg = 0, isrc = Ind 40, idst = Ins 6\<rparr>],
      vpc = 0, vmp = 100, vfp = 200, rs = Tmp, rd = Tmp, rm = Tmp, rt = 0, vic = 1\<rparr>"
  have ok: "modes_ok ?i" "fields_fit ?i"
    by (simp_all add: modes_ok_def fields_fit_def small_addr_def small_mid_def)
  have at: "inst_at (vpc ?st) ?st = Inr (loaded ?i)"
    by (simp add: inst_at_def loaded_def SRC_def DST_def mid_val_def src_adr_def dst_adr_def branch_ops_def)
  have op: "map_of branch_table (opfn (cop ?i)) = Some (brW (=))"
    by (simp add: opfn_def optab_def branch_table_def)
  show ?thesis using branches_reach_target [OF ok at, of "\<lambda>h. Inr"] op by (simp del: map_of_eq_Some_iff)
qed

section \<open>The quantum\<close>

text \<open>Only a handler that reschedules touches the instruction count.\<close>

definition keeps_ic :: "op \<Rightarrow> bool" where
  "keeps_ic f \<longleftrightarrow> (\<forall>st st'. f st = Inr st' \<longrightarrow> vic st' = vic st)"

lemma keeps_icI: "(\<And>st st'. f st = Inr st' \<Longrightarrow> vic st' = vic st) \<Longrightarrow> keeps_ic f"
  by (simp add: keeps_ic_def)

lemma write_keeps_ic:
  "wrW p v st = Inr st' \<Longrightarrow> vic st' = vic st"
  "wrL p w st = Inr st' \<Longrightarrow> vic st' = vic st"
  "wrB p b st = Inr st' \<Longrightarrow> vic st' = vic st"
proof -
  have W: "vic st' = vic st" if "wrW p v st = Inr st'" for p v st'
    using that by (auto simp: wrW_def set_inst_def split: place.splits option.splits)
  then show "wrW p v st = Inr st' \<Longrightarrow> vic st' = vic st" .
  show "wrL p w st = Inr st' \<Longrightarrow> vic st' = vic st"
    by (auto simp: wrL_def split: place.splits option.splits)
  show "wrB p b st = Inr st' \<Longrightarrow> vic st' = vic st"
    using W by (auto simp: wrB_def split: place.splits option.splits)
qed

lemma jmp_keeps_ic: "jmp st = Inr st' \<Longrightarrow> vic st' = vic st"
  by (auto simp: jmp_def)

lemma group_keeps_ic:
  "keeps_ic (binB fb)" "keeps_ic (binW fw)" "keeps_ic (binL fl)" "keeps_ic (shB gb)" "keeps_ic (shL gl)"
  "keeps_ic (brB cb)" "keeps_ic (brW cw)" "keeps_ic (brL cl)"
  by (rule keeps_icI; auto simp: binB_def binW_def binL_def shB_def shL_def brB_def brW_def brL_def
      dest: write_keeps_ic jmp_keeps_ic split: if_splits)+

lemma move_keeps_ic:
  "keeps_ic movB" "keeps_ic movW" "keeps_ic movL" "keeps_ic cvtbw" "keeps_ic cvtwb" "keeps_ic cvtwl" "keeps_ic cvtlw" "keeps_ic lea"
  by (rule keeps_icI; auto simp: movB_def movW_def movL_def cvtbw_def cvtwb_def cvtwl_def cvtlw_def lea_def
      dest: write_keeps_ic split: place.splits)+

lemma rest_keeps_ic:
  "keeps_ic movm" "keeps_ic (ind esz)" "keeps_ic lena" "keeps_ic igoto" "keeps_ic icase" "keeps_ic call" "keeps_ic jmp"
proof -
  show "keeps_ic movm"
  proof (rule keeps_icI)
    fix st st' :: vm assume "movm st = Inr st'"
    then show "vic st' = vic st"
      by (cases "rs st"; cases "rd st"; clarsimp simp: movm_def) (auto split: option.splits)
  qed
  show "keeps_ic (ind esz)" "keeps_ic lena"
    by (rule keeps_icI; auto simp: ind_def lena_def dest: write_keeps_ic split: if_splits)+
  show "keeps_ic igoto" "keeps_ic icase"
    by (rule keeps_icI; case_tac "rd st"; auto simp: igoto_def icase_def)+
  show "keeps_ic call"
    by (rule keeps_icI) (fastforce simp: call_def dest!: write_keeps_ic(1) jmp_keeps_ic)
  show "keeps_ic jmp" using jmp_keeps_ic by (rule keeps_icI)
qed

lemma ops_keep_ic: "list_all (\<lambda>(n, f). keeps_ic f) ops"
proof -
  have "keeps_ic Inr" "keeps_ic (\<lambda>st. Inl e)" for e by (simp_all add: keeps_ic_def)
  then show ?thesis
    by (simp add: ops_def arith_tables branch_table_def other_ops_def group_keeps_ic move_keeps_ic rest_keeps_ic)
qed

lemma step_keeps_ic:
  assumes other: "\<forall>h st st'. other h st = Inr st' \<longrightarrow> vic st' = vic st \<or> vic st' = 1"
    and s: "step_inst other st = Inr st'"
  shows "vic st' = vic st \<or> vic st' = 1"
proof -
  from s obtain i st1 st2 where e: "decode (dec ! unat (iadd i)) i st = Inr st1"
    "exec other (opfn (iop i)) st1 = Inr st2" "st' = st2\<lparr>vpc := vpc st2 + 1\<rparr>"
    by (auto simp: step_inst_def)
  have mid: "vic (mid_place k r s) = vic s" for k r s by (cases k) simp_all
  have d: "vic st1 = vic st" using e(1) by (auto simp: decode_def mid split: prod.splits option.splits)
  have "vic st2 = vic st1 \<or> vic st2 = 1"
  proof (cases "map_of ops (opfn (iop i))")
    case None
    then show ?thesis using e(2) other by (simp add: exec_def)
  next
    case (Some f)
    then have "keeps_ic f" using ops_keep_ic by (auto simp: list_all_iff dest: map_of_SomeD)
    then show ?thesis using e(2) Some by (auto simp: exec_def keeps_ic_def)
  qed
  then show ?thesis using d e(3) by simp
qed

lemma xec_loop_ends:
  assumes other: "\<forall>h st st'. other h st = Inr st' \<longrightarrow> vic st' = vic st \<or> vic st' = 1"
  shows "vic st \<noteq> 0 \<Longrightarrow> unat (vic st) \<le> fuel \<Longrightarrow> \<exists>r. xec_loop other fuel st = Some r"
proof (induction fuel arbitrary: st)
  case 0
  then show ?case by (simp add: unat_eq_0)
next
  case (Suc fuel)
  show ?case
  proof (cases "step_inst other st")
    case (Inr st1)
    have c: "vic st1 = vic st \<or> vic st1 = 1" using step_keeps_ic [OF other Inr] .
    show ?thesis
    proof (cases "vic st1 - 1 = 0")
      case False
      then have v: "vic st1 = vic st" using c by auto
      have "unat (vic st - 1) = unat (vic st) - 1" using Suc.prems(1) by (simp add: unat_minus_one)
      then have "unat (vic st1 - 1) \<le> fuel" using Suc.prems(2) v by simp
      then show ?thesis using Suc.IH [of "st1\<lparr>vic := vic st1 - 1\<rparr>"] False by (simp add: Inr Let_def)
    qed (simp add: Inr Let_def)
  qed simp
qed

text \<open>
  C26. A turn of the interpreter ends: for a quantum \<open>q > 0\<close> the loop runs at most \<open>q\<close> instructions, whatever
  they compute, and it ends for the quantum 0 too, provided that the handlers which are a parameter of
  the model leave the instruction count alone or set it to 1, as \<^verbatim>\<open>interp/\<close> does to reschedule.
\<close>
theorem quantum_ends:
  assumes "\<forall>h st st'. other h st = Inr st' \<longrightarrow> vic st' = vic st \<or> vic st' = 1"
  shows "\<exists>r. xec other mp q st = Some r \<and>
    (q \<noteq> 0 \<longrightarrow> xec_loop other (unat q) (st\<lparr>vmp := mp, vic := q\<rparr>) = Some r)"
proof -
  have mono: "xec_loop other n s = Some r \<Longrightarrow> n \<le> k \<Longrightarrow> xec_loop other k s = Some r" for n k s r
  proof (induction n arbitrary: k s)
    case (Suc n)
    then obtain k' where "k = Suc k'" "n \<le> k'" by (cases k) auto
    with Suc show ?case by (auto simp: Let_def split: sum.splits if_splits)
  qed simp
  show ?thesis
  proof (cases "q = 0")
    case False
    then obtain r where r: "xec_loop other (unat q) (st\<lparr>vmp := mp, vic := q\<rparr>) = Some r"
      using xec_loop_ends [where st = "st\<lparr>vmp := mp, vic := q\<rparr>" and fuel = "unat q", OF assms] by auto
    have "unat q < 2 ^ LENGTH(32)" by (rule unsigned_less)
    then have "unat q \<le> 2 ^ 32" by simp
    then show ?thesis using mono [OF r] r by (auto simp: xec_def simp del: xec_loop.simps)
  next
    case True
    define n where "n = (2 ^ 32 - 1 :: nat)"
    have n: "(2 ^ 32 :: nat) = Suc n" by (simp add: n_def)
    have "\<exists>r. xec_loop other (Suc n) (st\<lparr>vmp := mp, vic := q\<rparr>) = Some r"
    proof (cases "step_inst other (st\<lparr>vmp := mp, vic := q\<rparr>)")
      case (Inr st1)
      show ?thesis
      proof (cases "vic st1 - 1 = 0")
        case False
        have "unat (vic st1 - 1) < 2 ^ LENGTH(32)" by (rule unsigned_less)
        then have "unat (vic st1 - 1) \<le> n" by (simp add: n_def)
        then show ?thesis
          using xec_loop_ends [where st = "st1\<lparr>vic := vic st1 - 1\<rparr>" and fuel = n, OF assms] False by (simp add: Inr Let_def)
      qed (simp add: Inr Let_def)
    qed simp
    then show ?thesis unfolding xec_def n using True by simp
  qed
qed

theorem quantum_ends_witness:
  "\<exists>r. xec (\<lambda>h st. Inr (st\<lparr>vic := 1\<rparr>)) 4096 2048
      \<lparr>vmem = (\<lambda>a. Some 0), vprog = [], vpc = 0, vmp = 0, vfp = 0, rs = Tmp, rd = Tmp, rm = Tmp, rt = 0, vic = 1\<rparr> = Some r"
  using quantum_ends [of "\<lambda>h st. Inr (st\<lparr>vic := 1\<rparr>)" 4096 2048] by fastforce

end
