(* ===== verification/Utf.thy ===== *)
theory Utf
  imports Codec
begin

text \<open>
  UTF-8 as \<^verbatim>\<open>lib9/rune.c\<close> codes it: \<open>chartorune\<close>, \<open>runetochar\<close>, \<open>runelen\<close>, \<open>runenlen\<close>,
  \<open>fullrune\<close>, and the scanners built on them (\<^verbatim>\<open>lib9/utflen.c\<close>, \<^verbatim>\<open>utfrune.c\<close>
  and \<^verbatim>\<open>utfnlen\<close> of \<^verbatim>\<open>interp/runt.c\<close>).
  A C string is the list of its bytes; the byte after the last is read as its NUL terminator.
\<close>

section \<open>The coding constants\<close>

definition byte_at :: "u8 list \<Rightarrow> nat \<Rightarrow> u8" where
  "byte_at s i = (if i < length s then s ! i else 0)"

definition Tx :: u8 where "Tx = (push_bit 7 1 - 1) XOR 0xFF"
definition T2 :: u8 where "T2 = (push_bit 6 1 - 1) XOR 0xFF"
definition T3 :: u8 where "T3 = (push_bit 5 1 - 1) XOR 0xFF"
definition T4 :: u8 where "T4 = (push_bit 4 1 - 1) XOR 0xFF"
definition Maskx :: u8 where "Maskx = push_bit 6 1 - 1"
definition Testx :: u8 where "Testx = Maskx XOR 0xFF"
definition Rune1 :: u32 where "Rune1 = push_bit 7 1 - 1"
definition Rune2 :: u32 where "Rune2 = push_bit (5 + 6) 1 - 1"
definition Rune3 :: u32 where "Rune3 = push_bit (4 + 2 * 6) 1 - 1"
definition Runeself :: nat where "Runeself = 0x80"
definition Bad :: u16 where "Bad = 0x80"
definition UTFmax :: nat where "UTFmax = 3"

lemma rune_consts:
  "Tx = 0x80" "T2 = 0xC0" "T3 = 0xE0" "T4 = 0xF0" "Maskx = 0x3F" "Testx = 0xC0"
  "Rune1 = 0x7F" "Rune2 = 0x7FF" "Rune3 = 0xFFFF"
  by (simp_all add: Tx_def T2_def T3_def T4_def Maskx_def Testx_def Rune1_def Rune2_def Rune3_def)

section \<open>Decoding and encoding one rune\<close>

definition chartorune :: "u8 list \<Rightarrow> u16 \<times> nat" where
  "chartorune str =
    (let c = byte_at str 0 in
     if c < Tx then (ucast c, 1)
     else let c1 = byte_at str 1 XOR Tx in
     if c1 AND Testx \<noteq> 0 then (Bad, 1)
     else if c < T3 then
       (if c < T2 then (Bad, 1)
        else let l = (push_bit 6 (ucast c :: u32) OR ucast c1) AND Rune2 in
        if l \<le> Rune1 then (Bad, 1) else (ucast l, 2))
     else let c2 = byte_at str 2 XOR Tx in
     if c2 AND Testx \<noteq> 0 then (Bad, 1)
     else if c < T4 then
       (let l = (push_bit 6 (push_bit 6 (ucast c :: u32) OR ucast c1) OR ucast c2) AND Rune3 in
        if l \<le> Rune2 then (Bad, 1) else (ucast l, 3))
     else (Bad, 1))"

definition runetochar :: "u16 \<Rightarrow> u8 list" where
  "runetochar r =
    (let c = ucast r :: u32 in
     if c \<le> Rune1 then [ucast c]
     else if c \<le> Rune2 then
       [T2 OR ucast (drop_bit 6 c), Tx OR (ucast c AND Maskx)]
     else
       [T3 OR ucast (drop_bit (2 * 6) c), Tx OR (ucast (drop_bit 6 c) AND Maskx),
        Tx OR (ucast c AND Maskx)])"

definition runelen :: "u32 \<Rightarrow> nat" where   \<comment> \<open>the argument is a \<open>long\<close>\<close>
  "runelen c = (if sint c \<le> sint Rune1 then 1 else if sint c \<le> sint Rune2 then 2 else 3)"

fun runenlen :: "u16 list \<Rightarrow> nat" where
  "runenlen [] = 0"
| "runenlen (r # rs) =
    (if (ucast r :: u32) \<le> Rune1 then 1 else if (ucast r :: u32) \<le> Rune2 then 2 else 3)
      + runenlen rs"

definition fullrune :: "u8 list \<Rightarrow> nat \<Rightarrow> bool" where
  "fullrune str n =
    (if n > 0 then
       (let c = byte_at str 0 in
        if c < Tx then True else if n > 1 then c < T3 \<or> n > 2 else False)
     else False)"

text \<open>
  The scanners. \<open>utflen\<close> counts the runes before the NUL; \<open>utfrune\<close> and \<open>utfrrune\<close> return the
  offset of the first and the last occurrence of a rune; \<open>utfnlen\<close> counts the runes of \<open>nb\<close>
  bytes and returns how many bytes it could use.
\<close>

lemma chartorune_pos: "0 < snd (chartorune str)" "snd (chartorune str) \<le> 3"
  by (simp_all add: chartorune_def Let_def)

function utflen :: "u8 list \<Rightarrow> nat" where
  "utflen s =
    (if s = [] then 0
     else let c = byte_at s 0 in
     if unat c < Runeself then (if c = 0 then 0 else Suc (utflen (drop 1 s)))
     else Suc (utflen (drop (snd (chartorune s)) s)))"
  by pat_completeness auto
termination
  by (relation "measure length") (use chartorune_pos(1) in \<open>auto simp: diff_less\<close>)

fun strchr :: "u8 list \<Rightarrow> u8 \<Rightarrow> nat option" where
  "strchr [] c = (if c = 0 then Some 0 else None)"
| "strchr (b # s) c =
    (if c = 0 then (if b = 0 then Some 0 else map_option Suc (strchr s c))
     else if b = c then Some 0 else if b = 0 then None else map_option Suc (strchr s c))"

function utfrune_loop :: "u8 list \<Rightarrow> u16 \<Rightarrow> nat \<Rightarrow> nat option" where
  "utfrune_loop s c off =
    (if s = [] then None
     else let c1 = byte_at s 0 in
     if unat c1 < Runeself then
       (if c1 = 0 then None
        else if ucast c1 = c then Some off
        else utfrune_loop (drop 1 s) c (off + 1))
     else let (r, n) = chartorune s in
     if r = c then Some off else utfrune_loop (drop n s) c (off + n))"
  by pat_completeness auto
termination
  by (relation "measure (\<lambda>(s, c, off). length s)")
    (auto simp: diff_less, metis chartorune_pos(1) diff_less length_greater_0_conv snd_conv)

definition utfrune :: "u8 list \<Rightarrow> u16 \<Rightarrow> nat option" where
  "utfrune s c = (if unat c < 0x80 then strchr s (ucast c) else utfrune_loop s c 0)"

function utfnlen_loop :: "u8 list \<Rightarrow> nat \<Rightarrow> nat \<Rightarrow> nat \<Rightarrow> nat \<times> nat" where
  "utfnlen_loop s nb pos n =
    (if pos < nb then
       (let c = byte_at s pos in
        if unat c < Runeself then utfnlen_loop s nb (pos + 1) (n + 1)
        else if pos + UTFmax \<le> nb \<or> fullrune (drop pos s) (nb - pos) then
          utfnlen_loop s nb (pos + snd (chartorune (drop pos s))) (n + 1)
        else (n, pos))
     else (n, pos))"
  by pat_completeness auto
termination
  by (relation "measure (\<lambda>(s, nb, pos, n). nb - pos)")
    (auto simp: chartorune_pos(1) diff_less_mono2)

definition utfnlen :: "u8 list \<Rightarrow> nat \<Rightarrow> nat \<times> nat" where
  "utfnlen s nb = utfnlen_loop s nb 0 0"

declare utflen.simps [simp del] utfrune_loop.simps [simp del] utfnlen_loop.simps [simp del]

section \<open>Lemmas\<close>
lemma lead_lt:
  "(c :: u8) < Tx \<longleftrightarrow> \<not> bit c 7"
  "(c :: u8) < T2 \<longleftrightarrow> \<not> (bit c 7 \<and> bit c 6)"
  "(c :: u8) < T3 \<longleftrightarrow> \<not> (bit c 7 \<and> bit c 6 \<and> bit c 5)"
  "(c :: u8) < T4 \<longleftrightarrow> \<not> (bit c 7 \<and> bit c 6 \<and> bit c 5 \<and> bit c 4)"
proof -
  have top: "drop_bit k c = v \<longleftrightarrow> unat c div 2 ^ k = unat v" for k v
    by (metis drop_bit_eq_div unat_drop_bit_eq word_unat_eq_iff)
  have lt: "unat c < 256" using unsigned_less [of c] by simp
  have "c < Tx \<longleftrightarrow> drop_bit 7 c \<noteq> 1" "c < T2 \<longleftrightarrow> drop_bit 6 c \<noteq> 3"
    "c < T3 \<longleftrightarrow> drop_bit 5 c \<noteq> 7" "c < T4 \<longleftrightarrow> drop_bit 4 c \<noteq> 15"
    unfolding top rune_consts word_less_nat_alt using lt by auto
  moreover have "drop_bit 7 c = 1 \<longleftrightarrow> bit c 7" "drop_bit 6 c = 3 \<longleftrightarrow> bit c 7 \<and> bit c 6"
    "drop_bit 5 c = 7 \<longleftrightarrow> bit c 7 \<and> bit c 6 \<and> bit c 5"
    "drop_bit 4 c = 15 \<longleftrightarrow> bit c 7 \<and> bit c 6 \<and> bit c 5 \<and> bit c 4"
    unfolding word8_eq_iff by (auto simp: upt_8 bit_simps)
  ultimately show "c < Tx \<longleftrightarrow> \<not> bit c 7" "c < T2 \<longleftrightarrow> \<not> (bit c 7 \<and> bit c 6)"
    "c < T3 \<longleftrightarrow> \<not> (bit c 7 \<and> bit c 6 \<and> bit c 5)"
    "c < T4 \<longleftrightarrow> \<not> (bit c 7 \<and> bit c 6 \<and> bit c 5 \<and> bit c 4)"
    by blast+
qed

lemma rune1_bit: "ucast (r :: u16) \<le> Rune1 \<Longrightarrow> 7 \<le> n \<Longrightarrow> \<not> bit r n"
  by (rule bit_above [of _ 7]) (auto simp: rune_consts word_le_nat_alt unat_ucast_le)

lemma rune2_bit: "ucast (r :: u16) \<le> Rune2 \<Longrightarrow> 11 \<le> n \<Longrightarrow> \<not> bit r n"
  by (rule bit_above [of _ 11]) (auto simp: rune_consts word_le_nat_alt unat_ucast_le)

lemma cont_byte [simp]:
  "(Tx OR (b AND Maskx)) XOR Tx = b AND Maskx"
  "(b AND Maskx) AND Testx = 0"
  unfolding rune_consts by (rule word8_eq_bits, simp add: upt_8 bit_simps)+

lemma decode2:
  assumes "ucast r \<le> Rune2"
  shows "(push_bit 6 (ucast (T2 OR ucast (drop_bit 6 (ucast r :: u32)) :: u8) :: u32)
     OR ucast (ucast (ucast r :: u32) AND Maskx)) AND Rune2 = ucast (r :: u16)"
  using rune2_bit [OF assms] unfolding rune_consts
  by (intro word32_eq_bits) (simp add: upt_32 bit_simps)

lemma decode3:
  "(push_bit 6 (push_bit 6 (ucast (T3 OR ucast (drop_bit (2 * 6) (ucast r :: u32)) :: u8) :: u32)
     OR ucast (ucast (drop_bit 6 (ucast r :: u32)) AND Maskx))
     OR ucast (ucast (ucast r :: u32) AND Maskx)) AND Rune3 = ucast (r :: u16)"
  unfolding rune_consts
  by (intro word32_eq_bits) (simp add: upt_32 bit_simps bit_imp_le_length)

lemma lead2_cmp:
  assumes "ucast (r :: u16) \<le> Rune2"
  shows "\<not> T2 OR ucast (drop_bit 6 (ucast r :: u32)) < Tx"
    "\<not> T2 OR ucast (drop_bit 6 (ucast r :: u32)) < T2"
    "T2 OR ucast (drop_bit 6 (ucast r :: u32)) < T3"
  using rune2_bit [OF assms]  unfolding lead_lt unfolding rune_consts by (simp_all add: bit_simps)

lemma lead3_cmp:
  fixes r :: u16
  shows "\<not> T3 OR ucast (drop_bit (2 * 6) (ucast r :: u32)) < Tx"
    "\<not> T3 OR ucast (drop_bit (2 * 6) (ucast r :: u32)) < T2"
    "\<not> T3 OR ucast (drop_bit (2 * 6) (ucast r :: u32)) < T3"
    "T3 OR ucast (drop_bit (2 * 6) (ucast r :: u32)) < T4"
  unfolding lead_lt unfolding rune_consts by (simp_all add: bit_simps bit_imp_le_length)

lemma byte_at_Cons [simp]: "byte_at (b # s) 0 = b" "byte_at (b # s) (Suc i) = byte_at s i"
  "byte_at (b # b' # b'' # s) 2 = b''"
  by (simp_all add: byte_at_def)

lemma u16_via_u32 [simp]: "ucast (ucast (r :: u16) :: u32) = r"
  by (rule bit_word_eqI) (simp add: bit_simps)

lemma chartorune_runetochar:
  "chartorune (runetochar r @ t) = (r, length (runetochar r))"
proof -
  consider "ucast r \<le> Rune1" | "\<not> ucast r \<le> Rune1" "ucast r \<le> Rune2"
    | "\<not> ucast r \<le> Rune1" "\<not> ucast r \<le> Rune2" by blast
  then show ?thesis
  proof cases
    case 1
    then have "(ucast (ucast r :: u32) :: u8) < Tx"
      unfolding lead_lt using rune1_bit [of r 7] by (simp add: bit_simps)
    moreover have "ucast (ucast (ucast r :: u32) :: u8) = r"
    proof (rule bit_word_eqI)
      fix n show "bit (ucast (ucast (ucast r :: u32) :: u8) :: u16) n = bit r n"
        using rune1_bit [OF 1, of n] by (cases "n < 7") (auto simp: bit_simps)
    qed
    ultimately show ?thesis using 1
      by (simp add: chartorune_def runetochar_def Let_def byte_at_def)
  next
    case 2
    then show ?thesis
      by (simp add: chartorune_def runetochar_def Let_def lead2_cmp decode2 numeral_2_eq_2)
  next
    case 3
    then show ?thesis
      by (simp add: chartorune_def runetochar_def Let_def lead3_cmp [simplified] decode3 [simplified])
  qed
qed

lemma rune_cases:
  fixes r :: u16
  obtains (one) "ucast r \<le> Rune1" | (two) "\<not> ucast r \<le> Rune1" "ucast r \<le> Rune2"
    | (three) "\<not> ucast r \<le> Rune1" "\<not> ucast r \<le> Rune2"
  by blast

lemma bad_xor: "(b XOR Tx) AND Testx = 0 \<longleftrightarrow> bit b 7 \<and> \<not> bit b 6"
  unfolding rune_consts word8_eq_iff by (auto simp: upt_8 bit_simps)

lemma fullrune_prefix:
  assumes "fullrune s n" and "n \<le> length s"
  shows "chartorune (take n s @ t) = chartorune s"
proof -
  have at: "byte_at (take n s @ t) i = byte_at s i" if "i < n" for i
    using that assms(2) by (simp add: byte_at_def nth_append)
  have n: "0 < n" using assms(1) by (simp add: fullrune_def split: if_splits)
  consider "byte_at s 0 < Tx" | "\<not> byte_at s 0 < Tx" "1 < n" "byte_at s 0 < T3"
    | "\<not> byte_at s 0 < Tx" "2 < n"
    using assms(1) by (auto simp: fullrune_def Let_def split: if_splits)
  then show ?thesis
    by cases (simp_all add: chartorune_def Let_def at n)
qed

lemma runelen_rune: "runelen (ucast (r :: u16)) = (if (ucast r :: u32) \<le> Rune1 then 1 else if (ucast r :: u32) \<le> Rune2 then 2 else 3)"
proof -
  have "sint (ucast r :: u32) = uint (ucast r :: u32)"
  proof -
    have "uint r < 2 ^ 16" using unsigned_less [of r, where 'a = int] by simp
    then show ?thesis
      by (simp add: sint_uint signed_take_bit_int_eq_self_iff uint_up_ucast is_up order_trans [OF _ uint_ge_0])
  qed
  then show ?thesis by (simp add: runelen_def rune_consts word_le_def)
qed

lemma runelen_length: "length (runetochar r) = runelen (ucast r)"
  by (simp add: runetochar_def runelen_rune Let_def)

lemma runenlen_length: "runenlen rs = length (enc_all runetochar rs)"
  by (induction rs) (simp_all add: runelen_length, simp add: runelen_rune)

lemma ucast_and_mask:
  "ucast (ucast (x AND Rune2) :: u16) = x AND Rune2"
  "ucast (ucast (x AND Rune3) :: u16) = x AND Rune3"
  "x AND Rune2 \<le> Rune2"
  unfolding rune_consts
  by (rule word32_eq_bits, simp add: upt_32 bit_simps)+ (rule word_and_le1)

lemma encode2:
  assumes "bit (c :: u8) 7" "bit c 6" "\<not> bit c 5" "bit (b :: u8) 7" "\<not> bit b 6"
  defines "l \<equiv> (push_bit 6 (ucast c :: u32) OR ucast (b XOR Tx)) AND Rune2"
  shows "T2 OR ucast (drop_bit 6 l) = c" "Tx OR (ucast l AND Maskx) = b"
  unfolding l_def rune_consts
  by (rule word8_eq_bits, use assms(1-5) in \<open>simp add: upt_8 bit_simps\<close>)+

lemma encode3:
  assumes "bit (c :: u8) 7" "bit c 6" "bit c 5" "\<not> bit c 4"
    "bit (b :: u8) 7" "\<not> bit b 6" "bit (d :: u8) 7" "\<not> bit d 6"
  defines "l \<equiv> (push_bit 6 (push_bit 6 (ucast c :: u32) OR ucast (b XOR Tx)) OR ucast (d XOR Tx))
    AND Rune3"
  shows "T3 OR ucast (drop_bit (2 * 6) l) = c" "Tx OR (ucast (drop_bit 6 l) AND Maskx) = b"
    "Tx OR (ucast l AND Maskx) = d"
  unfolding l_def rune_consts
  by (rule word8_eq_bits, use assms(1-8) in \<open>simp add: upt_8 bit_simps\<close>)+

lemma cont_in_string: "(byte_at s i XOR Tx) AND Testx = 0 \<Longrightarrow> i < length s"
  unfolding bad_xor by (cases "i < length s") (simp_all add: byte_at_def)

lemma take_byte_at:
  "1 < length s \<Longrightarrow> take 2 s = [byte_at s 0, byte_at s 1]"
  "2 < length s \<Longrightarrow> take 3 s = [byte_at s 0, byte_at s 1, byte_at s 2]"
  by (rule nth_equalityI, auto simp: byte_at_def less_Suc_eq numeral_2_eq_2 numeral_3_eq_3)+

lemma chartorune_canonical:
  assumes "chartorune s = (r, n)" and "2 \<le> n"
  shows "take n s = runetochar r \<and> n \<le> length s"
proof -
  let ?c = "byte_at s 0" and ?b = "byte_at s 1" and ?d = "byte_at s 2"
  let ?l2 = "(push_bit 6 (ucast ?c :: u32) OR ucast (?b XOR Tx)) AND Rune2"
  let ?l3 = "(push_bit 6 (push_bit 6 (ucast ?c :: u32) OR ucast (?b XOR Tx)) OR ucast (?d XOR Tx))
    AND Rune3"
  consider (two) "\<not> ?c < T2" "?c < T3" "(?b XOR Tx) AND Testx = 0" "\<not> ?l2 \<le> Rune1"
      "r = ucast ?l2" "n = 2"
    | (three) "\<not> ?c < T3" "?c < T4" "(?b XOR Tx) AND Testx = 0" "(?d XOR Tx) AND Testx = 0"
      "\<not> ?l3 \<le> Rune2" "r = ucast ?l3" "n = 3"
    using assms by (auto simp: chartorune_def Let_def split: if_splits)
  then show ?thesis
  proof cases
    case two
    then have u: "ucast r = ?l2" by (simp add: ucast_and_mask)
    have "runetochar r = [?c, ?b]"
      using two encode2 [of ?c ?b]
      unfolding runetochar_def Let_def u lead_lt bad_xor by (simp add: ucast_and_mask)
    then show ?thesis
      using two cont_in_string [OF two(3)] by (simp add: take_byte_at)
  next
    case three
    then have u: "ucast r = ?l3" by (simp add: ucast_and_mask)
    have "Rune1 \<le> Rune2" by (simp add: rune_consts)
    then have "\<not> ?l3 \<le> Rune1" using three(5) by (meson order_trans)
    then have "runetochar r = [?c, ?b, ?d]"
      using three encode3 [of ?c ?b ?d]
      unfolding runetochar_def Let_def u lead_lt bad_xor by simp
    then show ?thesis
      using three cont_in_string [OF three(4)] by (simp add: take_byte_at)
  qed
qed


section \<open>Runes as a stream codec\<close>

definition dec_rune :: "u8 list \<Rightarrow> (u16 \<times> u8 list) option" where
  "dec_rune s = (if s = [] then None else (case chartorune s of (r, n) \<Rightarrow> Some (r, drop n s)))"

lemma runetochar_nonempty [simp]: "runetochar r \<noteq> []"
  by (simp add: runetochar_def Let_def)

interpretation utf: lossless_codec runetochar dec_rune "\<lambda>r. r" "\<lambda>_. True"
  by unfold_locales (simp_all add: dec_rune_def chartorune_runetochar)

abbreviation utf_bytes :: "u16 list \<Rightarrow> u8 list" where
  "utf_bytes rs \<equiv> enc_all runetochar rs"

text \<open>The first byte of an encoded rune tells a one-byte rune from a sequence.\<close>

lemma rune1_iff: "ucast (r :: u16) \<le> Rune1 \<longleftrightarrow> unat r < Runeself"
  by (auto simp: rune_consts Runeself_def word_le_nat_alt unat_ucast_le)

lemma lead_self_iff: "unat (c :: u8) < Runeself \<longleftrightarrow> c < Tx"
  by (simp add: rune_consts Runeself_def word_less_nat_alt)

lemma unat_u8_of_u16: "unat (r :: u16) < 256 \<Longrightarrow> unat (ucast r :: u8) = unat r"
  by (simp add: unsigned_ucast_eq take_bit_nat_eq_self)

lemma runetochar_head1: "unat r < Runeself \<Longrightarrow> runetochar r = [ucast r]"
proof -
  have "ucast (ucast r :: u32) = (ucast r :: u8)" by (rule bit_word_eqI) (simp add: bit_simps)
  then show "unat r < Runeself \<Longrightarrow> runetochar r = [ucast r]"
    by (simp add: runetochar_def Let_def rune1_iff)
qed

lemma runetochar_head2:
  "\<not> unat r < Runeself \<Longrightarrow> \<not> unat (byte_at (runetochar r @ t) 0) < Runeself"
  using lead2_cmp(1) [of r] lead3_cmp(1) [of r]
  by (simp add: runetochar_def Let_def rune1_iff lead_self_iff)

lemma head1_self:
  fixes r :: u16
  assumes "unat r < Runeself"
  shows "unat (ucast r :: u8) < Runeself" "(ucast r :: u8) = 0 \<longleftrightarrow> r = 0"
    "ucast (ucast r :: u8) = r"
proof -
  have u: "unat (ucast r :: u8) = unat r"
    using assms by (intro unat_u8_of_u16) (simp add: Runeself_def)
  show "unat (ucast r :: u8) < Runeself" using assms u by simp
  show "(ucast r :: u8) = 0 \<longleftrightarrow> r = 0" using u by (simp add: word_unat_eq_iff)
  have "unat (ucast (ucast r :: u8) :: u16) = unat r"
    by (subst unat_ucast_le) (simp_all add: u)
  then show "ucast (ucast r :: u8) = r" by (rule word_unat_eq_iff [THEN iffD2])
qed

lemma drop_runetochar: "drop (snd (chartorune (runetochar r @ t))) (runetochar r @ t) = t"
  by (simp add: chartorune_runetochar)

lemma utflen_step: "r \<noteq> 0 \<Longrightarrow> utflen (runetochar r @ t) = Suc (utflen t)"
proof (cases "unat r < Runeself")
  case True
  then show "r \<noteq> 0 \<Longrightarrow> utflen (runetochar r @ t) = Suc (utflen t)"
    by (simp add: utflen.simps [of "_ # _"] Let_def runetochar_head1 head1_self)
next
  case False
  then show ?thesis
    using runetochar_head2 [OF False, of t] drop_runetochar
    by (simp add: utflen.simps [of "runetochar r @ t"] Let_def)
qed

lemma utflen_utf_bytes:
  "0 \<notin> set rs \<Longrightarrow> utflen (utf_bytes rs @ 0 # t) = length rs"
  by (induction rs) (simp_all add: utflen_step utflen.simps [of "_ # _"] Runeself_def)

lemma utfrune_loop_step:
  assumes "r \<noteq> 0"
  shows "utfrune_loop (runetochar r @ t) c off =
    (if r = c then Some off else utfrune_loop t c (off + length (runetochar r)))"
proof (cases "unat r < Runeself")
  case True
  then show ?thesis using assms
    by (simp add: utfrune_loop.simps [of "_ # _"] Let_def runetochar_head1 head1_self)
next
  case False
  then show ?thesis
    using runetochar_head2 [OF False, of t]
    by (simp add: utfrune_loop.simps [of "runetochar r @ t"] Let_def chartorune_runetochar)
qed

lemma utfrune_loop_utf_bytes:
  assumes "0 \<notin> set rs" and "c \<noteq> 0"
  shows "utfrune_loop (utf_bytes rs @ 0 # t) c off =
    (if c \<in> set rs then Some (off + length (utf_bytes (takeWhile (\<lambda>r. r \<noteq> c) rs))) else None)"
  using assms(1)
proof (induction rs arbitrary: off)
  case Nil
  then show ?case by (simp add: utfrune_loop.simps [of "_ # _"] Runeself_def)
next
  case (Cons r rs)
  then show ?case using assms(2) by (auto simp: utfrune_loop_step)
qed

lemma fullrune_runetochar: "fullrune (runetochar r @ t) (length (runetochar r))"
proof (cases "unat r < Runeself")
  case True
  then show ?thesis
    using head1_self(1) [of r] by (simp add: runetochar_head1 fullrune_def lead_self_iff)
next
  case False
  then show ?thesis
    using lead2_cmp(3) [of r] by (simp add: fullrune_def runetochar_def Let_def rune1_iff)
qed

lemma fullrune_mono: "fullrune s n \<Longrightarrow> n \<le> m \<Longrightarrow> fullrune s m"
  by (auto simp: fullrune_def Let_def split: if_splits)

lemma utfnlen_loop_step:
  assumes "length p + length (runetochar r) \<le> nb"
  shows "utfnlen_loop (p @ runetochar r @ t) nb (length p) n =
    utfnlen_loop (p @ runetochar r @ t) nb (length p + length (runetochar r)) (Suc n)"
proof (cases "unat r < Runeself")
  case True
  then show ?thesis using assms
    by (simp add: utfnlen_loop.simps [of _ nb "length p"] Let_def runetochar_head1 head1_self
        byte_at_def)
next
  case False
  have "byte_at (p @ runetochar r @ t) (length p) = byte_at (runetochar r @ t) 0"
    by (simp add: byte_at_def nth_append)
  moreover have "fullrune (runetochar r @ t) (nb - length p)"
    using fullrune_mono [OF fullrune_runetochar] assms by simp
  moreover have "length p < nb"
    using assms runetochar_nonempty [of r] by (metis add_leD1 add_le_same_cancel1 le_neq_implies_less
        length_0_conv le_zero_eq)
  ultimately show ?thesis
    using runetochar_head2 [OF False, of t] assms
    by (simp add: utfnlen_loop.simps [of _ nb "length p"] Let_def chartorune_runetochar)
qed

lemma utfnlen_utf_bytes_from:
  "utfnlen_loop (p @ utf_bytes rs @ t) (length p + length (utf_bytes rs)) (length p) n =
    (n + length rs, length p + length (utf_bytes rs))"
proof (induction rs arbitrary: p n)
  case Nil
  then show ?case by (simp add: utfnlen_loop.simps)
next
  case (Cons r rs)
  from Cons.IH [of "p @ runetochar r" "Suc n"] show ?case
    by (simp add: utfnlen_loop_step add.assoc)
qed

section \<open>Properties\<close>

text \<open>
  C13. Encoding a rune with \<open>runetochar\<close> and decoding it with \<open>chartorune\<close>, whatever bytes
  follow, gives the rune back; the encoding has the length \<open>runelen\<close> promises, which
  \<open>chartorune\<close> returns, and \<open>fullrune\<close> accepts exactly its bytes as complete.
\<close>

theorem rune_decode_encode:
  "chartorune (runetochar r @ t) = (r, runelen (ucast r)) \<and>
   length (runetochar r) = runelen (ucast r) \<and> runelen (ucast r) \<le> UTFmax \<and>
   fullrune (runetochar r @ t) (runelen (ucast r))"
  using fullrune_runetochar [of r t]
  by (simp add: chartorune_runetochar runelen_length) (simp add: runelen_rune UTFmax_def)

text \<open>
  The decoder accepts only the shortest form: a sequence of two or three bytes it takes is
  the encoding \<open>runetochar\<close> gives of the rune it returns, and lies inside the string.
\<close>

theorem rune_decode_shortest:
  assumes "chartorune s = (r, n)" and "2 \<le> n"
  shows "take n s = runetochar r \<and> n = runelen (ucast r) \<and> n \<le> length s"
proof -
  from chartorune_canonical [OF assms] have *: "take n s = runetochar r" "n \<le> length s" by auto
  then have "length (runetochar r) = n" by (metis length_take min.absorb2)
  with * show ?thesis by (simp add: runelen_length)
qed

theorem rune_decode_shortest_witness:
  "take 3 [0xE2, 0x82, 0xAC, 0x41 :: u8] = runetochar 0x20AC \<and>
   (3::nat) = runelen (ucast (0x20AC :: u16)) \<and> 3 \<le> length [0xE2, 0x82, 0xAC, 0x41 :: u8]"
proof (rule rune_decode_shortest)
  show "chartorune [0xE2, 0x82, 0xAC, 0x41] = (0x20AC, 3)"
    by (simp add: chartorune_def rune_consts byte_at_def Let_def)
qed simp

text \<open>
  The scanners read an encoded string rune by rune: \<open>utflen\<close> and \<open>utfnlen\<close> count its runes
  (\<open>utfnlen\<close> consuming every byte), \<open>runenlen\<close> is its length in bytes, and \<open>utfrune\<close> returns the
  byte offset of the first occurrence of a rune, or none.
\<close>

theorem utf_scanners:
  assumes "0 \<notin> set rs" and "Runeself \<le> unat c"
  shows "utflen (utf_bytes rs @ 0 # t) = length rs \<and>
    utfnlen (utf_bytes rs @ t) (runenlen rs) = (length rs, runenlen rs) \<and>
    utfrune (utf_bytes rs @ 0 # t) c =
      (if c \<in> set rs then Some (runenlen (takeWhile (\<lambda>r. r \<noteq> c) rs)) else None)"
proof -
  have "c \<noteq> 0" using assms(2) by (auto simp: Runeself_def)
  with assms show ?thesis
    using utfnlen_utf_bytes_from [of "[]" rs t 0] utfrune_loop_utf_bytes [of rs c t 0]
    by (simp add: utflen_utf_bytes utfnlen_def utfrune_def runenlen_length Runeself_def)
qed

theorem utf_scanners_witness:
  "utflen (utf_bytes [0x41, 0x20AC] @ 0 # []) = length [0x41, 0x20AC :: u16] \<and>
    utfnlen (utf_bytes [0x41, 0x20AC] @ []) (runenlen [0x41, 0x20AC])
      = (length [0x41, 0x20AC :: u16], runenlen [0x41, 0x20AC]) \<and>
    utfrune (utf_bytes [0x41, 0x20AC] @ 0 # []) 0x20AC =
      (if 0x20AC \<in> set [0x41, 0x20AC :: u16]
       then Some (runenlen (takeWhile (\<lambda>r. r \<noteq> 0x20AC) [0x41, 0x20AC])) else None)"
  using utf_scanners [of "[0x41, 0x20AC]" "0x20AC" "[]"] by (simp add: Runeself_def)

end
