(* ===== verification/DisString.thy ===== *)
theory DisString
  imports Utf
begin

text \<open>
  Limbo strings in the virtual machine (\<^verbatim>\<open>interp/string.c\<close>). A \<open>String\<close> holds either bytes or
  16-bit runes: a non-negative \<open>len\<close> counts bytes in \<open>Sascii\<close>, a negative one \<open>-len\<close> runes in
  \<open>Srune\<close>, and \<open>max\<close> is the capacity in that representation. The union of the two arrays is a
  field each; an operation uses the one that \<open>len\<close>, or its place in the code, selects. \<open>H\<close>, the nil
  string, is \<open>None\<close>. Plain \<open>char\<close> is signed, as on the 386 port.

  What the allocator leaves in a fresh block, and how much room it really gives, are parameters
  (\<open>salloc\<close>): the code uses the extra room as capacity.
\<close>

section \<open>Strings\<close>

record dstring =
  slen :: int
  smax :: nat
  sascii :: "u8 list"
  srune :: "u16 list"

record salloc =
  room :: "nat \<Rightarrow> nat"      \<comment> \<open>\<open>msize(h) - (sizeof(String)+sizeof(Heap))\<close> after asking for \<open>nb\<close> bytes\<close>
  junk8 :: "nat \<Rightarrow> u8"
  junk16 :: "nat \<Rightarrow> u16"

definition Tbounds :: string where "Tbounds = ''bounds exceeded''"

text \<open>\<open>memmove(&a[off], p, n)\<close>\<close>

definition memput :: "'a list \<Rightarrow> nat \<Rightarrow> 'a list \<Rightarrow> 'a list" where
  "memput a off p = take off a @ p @ drop (off + length p) a"

definition newstring :: "salloc \<Rightarrow> nat \<Rightarrow> dstring" where
  "newstring A nb =
    \<lparr>slen = int nb, smax = room A nb, sascii = map (junk8 A) [0..<room A nb],
     srune = map (junk16 A) [0..<room A nb div 2]\<rparr>"

text \<open>\<open>ns = newstring(n*sizeof(Rune)); ns->len = -n; ns->max /= sizeof(Rune)\<close>\<close>

definition newrunes :: "salloc \<Rightarrow> nat \<Rightarrow> dstring" where
  "newrunes A n = (let ns = newstring A (n * 2) in ns\<lparr>slen := - int n, smax := smax ns div 2\<rparr>)"

definition lenc :: "dstring option \<Rightarrow> int" where
  "lenc s = (case s of None \<Rightarrow> 0 | Some ss \<Rightarrow> (let l = slen ss in if l < 0 then - l else l))"

definition indc :: "dstring option \<Rightarrow> u32 \<Rightarrow> int res" where
  "indc s v =
    (case s of
       None \<Rightarrow> Inl (Raise Tbounds)
     | Some ss \<Rightarrow>
        (let l = slen ss in
         if l < 0 then
           (if int (unat v) \<ge> - l then Inl (Raise Tbounds) else Inr (uint (srune ss ! unat v)))
         else
           (if int (unat v) \<ge> l then Inl (Raise Tbounds) else Inr (sint (sascii ss ! unat v)))))"

definition slicer :: "salloc \<Rightarrow> u32 \<Rightarrow> u32 \<Rightarrow> dstring option \<Rightarrow> dstring option res" where
  "slicer A start v s =
    (case s of
       None \<Rightarrow> (if start = 0 \<and> v = 0 then Inr None else Inl (Raise Tbounds))
     | Some ds \<Rightarrow>
        (let nc = unat (v - start) in
         if slen ds < 0 then
           (if v < start \<or> int (unat v) > - slen ds then Inl (Raise Tbounds)
            else let ns = newrunes A nc in
              Inr (Some (ns\<lparr>srune := memput (srune ns) 0 (take nc (drop (unat start) (srune ds)))\<rparr>)))
         else
           (if v < start \<or> int (unat v) > slen ds then Inl (Raise Tbounds)
            else let ns = newstring A nc in
              Inr (Some (ns\<lparr>sascii := memput (sascii ns) 0 (take nc (drop (unat start) (sascii ds)))\<rparr>)))))"

definition cvtup :: "dstring \<Rightarrow> u16 list" where
  "cvtup s = map ucast (take (nat (slen s)) (sascii s))"

definition stringdup :: "salloc \<Rightarrow> dstring option \<Rightarrow> dstring option" where
  "stringdup A s =
    (case s of
       None \<Rightarrow> None
     | Some ss \<Rightarrow>
        (if slen ss \<ge> 0 then
           (let n = nat (slen ss); ns = newstring A n in
            Some (ns\<lparr>sascii := memput (sascii ns) 0 (take n (sascii ss))\<rparr>))
         else
           (let n = nat (- slen ss); ns = newrunes A n in
            Some (ns\<lparr>srune := memput (srune ns) 0 (take n (srune ss))\<rparr>))))"

definition addstring :: "salloc \<Rightarrow> dstring option \<Rightarrow> dstring option \<Rightarrow> dstring option" where
  "addstring A m s =
    (case m of
       None \<Rightarrow> (case s of None \<Rightarrow> None | Some s2 \<Rightarrow> stringdup A (Some s2))
     | Some s1 \<Rightarrow>
        (case s of
           None \<Rightarrow> stringdup A (Some s1)
         | Some s2 \<Rightarrow>
            (if slen s1 < 0 then
               (let l1 = nat (- slen s1);
                    l = (if slen s2 < 0 then nat (- (slen s1 + slen s2)) else nat (- slen s1 + slen s2));
                    ns = newrunes A l;
                    r1 = memput (srune ns) 0 (take l1 (srune s1));
                    r2 = (if slen s2 < 0 then memput r1 l1 (take (nat (- slen s2)) (srune s2))
                          else memput r1 l1 (cvtup s2))
                in Some (ns\<lparr>srune := r2\<rparr>))
             else if slen s2 < 0 then
               (let l2 = nat (- slen s2); ns = newrunes A (nat (slen s1) + l2);
                    r1 = memput (srune ns) 0 (cvtup s1);
                    r2 = memput r1 (nat (slen s1)) (take l2 (srune s2))
                in Some (ns\<lparr>srune := r2\<rparr>))
             else
               (let l1 = nat (slen s1); ns = newstring A (l1 + nat (slen s2));
                    a1 = memput (sascii ns) 0 (take l1 (sascii s1));
                    a2 = memput a1 l1 (take (nat (slen s2)) (sascii s2))
                in Some (ns\<lparr>sascii := a2\<rparr>)))))"

section \<open>Conversions\<close>

text \<open>
  Byte arrays and C strings lie in memory: \<open>mem\<close> is the bytes from the start of the data on, of
  which the first \<open>n\<close> belong to it. \<open>chartorune\<close> may look past them.
\<close>

text \<open>\<open>while(nc--) p += chartorune(r++, p)\<close>\<close>

fun decode_n :: "nat \<Rightarrow> u8 list \<Rightarrow> u16 list" where
  "decode_n 0 mem = []"
| "decode_n (Suc n) mem = (case chartorune mem of (r, k) \<Rightarrow> r # decode_n n (drop k mem))"

text \<open>\<open>while(cs < ecs) cs += chartorune(r++, cs)\<close>\<close>

function decode_to :: "u8 list \<Rightarrow> nat \<Rightarrow> nat \<Rightarrow> u16 list" where
  "decode_to mem pos n =
    (if pos < n then (case chartorune (drop pos mem) of (r, k) \<Rightarrow> r # decode_to mem (pos + k) n) else [])"
  by pat_completeness auto
termination
  by (relation "measure (\<lambda>(mem, pos, n). n - pos)")
    (auto, metis chartorune_pos(1) diff_less_mono2 less_add_same_cancel1 snd_conv)

function count_runes :: "u8 list \<Rightarrow> nat \<Rightarrow> nat \<Rightarrow> nat" where
  "count_runes mem pos n =
    (if pos < n then
       (if unat (byte_at mem pos) < Runeself then Suc (count_runes mem (pos + 1) n)
        else Suc (count_runes mem (pos + snd (chartorune (drop pos mem))) n))
     else 0)"
  by pat_completeness auto
termination
  by (relation "measure (\<lambda>(mem, pos, n). n - pos)") (auto simp: chartorune_pos(1) diff_less_mono2)

function count_full :: "u8 list \<Rightarrow> nat \<Rightarrow> nat \<Rightarrow> nat" where
  "count_full mem pos n =
    (if pos < n then
       (if fullrune (drop pos mem) (n - pos)
        then Suc (count_full mem (pos + snd (chartorune (drop pos mem))) n)
        else Suc (count_full mem (pos + 1) n))
     else 0)"
  by pat_completeness auto
termination
  by (relation "measure (\<lambda>(mem, pos, n). n - pos)") (auto simp: chartorune_pos(1) diff_less_mono2)

declare decode_to.simps [simp del] count_runes.simps [simp del] count_full.simps [simp del]

definition c2string :: "salloc \<Rightarrow> u8 list \<Rightarrow> nat \<Rightarrow> dstring" where
  "c2string A mem n =
    (let l = length (takeWhile (\<lambda>c. unat c < Runeself) (take n mem)) in
     if l = n then (let s = newstring A l in s\<lparr>sascii := memput (sascii s) 0 (take l mem)\<rparr>)
     else
       (let s = newrunes A (l + count_runes mem l n) in
        s\<lparr>srune := memput (srune s) 0 (decode_to mem 0 n)\<rparr>))"

text \<open>The bytes \<open>string2c\<close> leaves before the terminating NUL.\<close>

definition string2c :: "dstring option \<Rightarrow> u8 list" where
  "string2c s =
    (case s of
       None \<Rightarrow> []
     | Some ss \<Rightarrow>
        (if slen ss \<ge> 0 then take (nat (slen ss)) (sascii ss)
         else concat (map (\<lambda>c. if unat c < Runeself then [ucast c] else runetochar c)
           (take (nat (- slen ss)) (srune ss)))))"

definition cvtca :: "dstring option \<Rightarrow> u8 list" where
  "cvtca s =
    (case s of
       None \<Rightarrow> []
     | Some ss \<Rightarrow>
        (if slen ss < 0 then
           (let rs = take (nat (- slen ss)) (srune ss) in
            memput (replicate (runenlen rs) 0) 0 (concat (map runetochar rs)))
         else take (nat (slen ss)) (sascii ss)))"

definition cvtac :: "salloc \<Rightarrow> (u8 list \<times> nat) option \<Rightarrow> dstring option" where
  "cvtac A arr =
    (case arr of
       None \<Rightarrow> None
     | Some (mem, n) \<Rightarrow>
        (case utfnlen mem n of (nc, nb) \<Rightarrow>
          (if nc = n then
             (let ds = newstring A nc in Some (ds\<lparr>sascii := memput (sascii ds) 0 (take n mem)\<rparr>))
           else
             (let nc' = (if n \<noteq> nb then count_full mem 0 n else nc); ds = newrunes A nc' in
              Some (ds\<lparr>srune := memput (srune ds) 0 (decode_n nc' mem)\<rparr>)))))"

section \<open>Comparison\<close>

fun strncmp :: "u8 list \<Rightarrow> u8 list \<Rightarrow> nat \<Rightarrow> int" where
  "strncmp s1 s2 0 = 0"
| "strncmp s1 s2 (Suc n) =
    (let c1 = byte_at s1 0; c2 = byte_at s2 0 in
     if c1 \<noteq> c2 then (if c1 > c2 then 1 else - 1)
     else if c1 = 0 then 0 else strncmp (drop 1 s1) (drop 1 s2) n)"

text \<open>The loops of the three mixed cases: \<open>None\<close> when the first \<open>n\<close> characters agree.\<close>

fun cmp_loop :: "int list \<Rightarrow> int list \<Rightarrow> nat \<Rightarrow> int option" where
  "cmp_loop (c1 # r1) (c2 # r2) (Suc n) =
    (if c1 \<noteq> c2 then Some (if c1 < c2 then - 1 else 1) else cmp_loop r1 r2 n)"
| "cmp_loop _ _ _ = None"

definition snil :: dstring where "snil = \<lparr>slen = 0, smax = 0, sascii = [], srune = []\<rparr>"

definition stringcmp :: "dstring option \<Rightarrow> dstring option \<Rightarrow> int" where
  "stringcmp m s =
    (let s1 = (case m of None \<Rightarrow> snil | Some x \<Rightarrow> x); s2 = (case s of None \<Rightarrow> snil | Some x \<Rightarrow> x);
         n1 = nat \<bar>slen s1\<bar>; n2 = nat \<bar>slen s2\<bar>; n = min n1 n2
     in if slen s1 \<ge> 0 \<and> slen s2 \<ge> 0 then
          (let c = strncmp (sascii s1) (sascii s2) n in if c = 0 then int n1 - int n2 else c)
        else
          (case cmp_loop (if slen s1 < 0 then map uint (srune s1) else map sint (sascii s1))
              (if slen s2 < 0 then map uint (srune s2) else map sint (sascii s2)) n of
             Some c \<Rightarrow> c
           | None \<Rightarrow> int n1 - int n2))"

section \<open>Shared strings\<close>

text \<open>
  Strings live in the heap and are shared: a store maps the address of a block to its reference
  count and string. \<open>splitc\<close> takes a private copy, in rune form if \<open>expand\<close>; \<open>insc\<close> assigns to a
  character of the string a variable holds, and is given the variable's value and returns its new
  one, with the error it raises, if any.
\<close>

record sstore =
  sblk :: "nat \<Rightarrow> (nat \<times> dstring) option"
  snext :: nat

definition salloc_str :: "dstring \<Rightarrow> sstore \<Rightarrow> nat \<times> sstore" where
  "salloc_str s st = (snext st, st\<lparr>sblk := (sblk st)(snext st \<mapsto> (1, s)), snext := snext st + 1\<rparr>)"

definition the_str :: "sstore \<Rightarrow> nat \<Rightarrow> dstring" where
  "the_str st p = (case sblk st p of Some (n, s) \<Rightarrow> s | None \<Rightarrow> snil)"

definition ref_of :: "sstore \<Rightarrow> nat \<Rightarrow> nat" where
  "ref_of st p = (case sblk st p of Some (n, s) \<Rightarrow> n | None \<Rightarrow> 0)"

definition put_str :: "nat \<Rightarrow> dstring \<Rightarrow> sstore \<Rightarrow> sstore" where
  "put_str p s st = st\<lparr>sblk := (sblk st)(p \<mapsto> (ref_of st p, s))\<rparr>"

definition sdestroy :: "nat option \<Rightarrow> sstore \<Rightarrow> sstore" where
  "sdestroy d st =
    (case d of
       None \<Rightarrow> st
     | Some p \<Rightarrow>
        (case sblk st p of
           None \<Rightarrow> st
         | Some (n, s) \<Rightarrow>
            (if n - 1 > 0 then st\<lparr>sblk := (sblk st)(p \<mapsto> (n - 1, s))\<rparr>
             else st\<lparr>sblk := (sblk st)(p := None)\<rparr>)))"

definition splitc :: "salloc \<Rightarrow> nat \<Rightarrow> bool \<Rightarrow> sstore \<Rightarrow> nat \<times> sstore" where
  "splitc A p expand st =
    (let ss = the_str st p;
         ns = (if expand \<and> slen ss > 0 then
                 (let ns = newrunes A (nat (slen ss)) in ns\<lparr>srune := memput (srune ns) 0 (cvtup ss)\<rparr>)
               else (case stringdup A (Some ss) of Some x \<Rightarrow> x | None \<Rightarrow> snil));
         (p', st1) = salloc_str ns st
     in (p', st1\<lparr>sblk := (sblk st1)(p \<mapsto> (ref_of st p - 1, ss))\<rparr>))"

definition insc_rune :: "salloc \<Rightarrow> u32 \<Rightarrow> nat \<Rightarrow> nat \<Rightarrow> nat \<Rightarrow> sstore \<Rightarrow> sstore \<times> nat \<times> string option" where
  "insc_rune A r v l p st =
    (let ss = the_str st p; c = ucast r in
     if v < l then (put_str p (ss\<lparr>srune := (srune ss)[v := c]\<rparr>) st, p, None)
     else if v < smax ss then
       (put_str p (ss\<lparr>slen := - int (v + 1), srune := (srune ss)[v := c]\<rparr>) st, p, None)
     else if v \<noteq> l then (st, p, Some Tbounds)
     else
       (let ns = newstring A ((v + 1 + v div 4) * 2);
            ns = ns\<lparr>srune := (memput (srune ns) 0 (take (nat (- slen ss)) (srune ss)))[v := c],
                    slen := - int (v + 1), smax := smax ns div 2\<rparr>;
            (p', st') = salloc_str ns st
        in (st', p', None)))"

definition insc_ascii :: "salloc \<Rightarrow> u32 \<Rightarrow> nat \<Rightarrow> nat \<Rightarrow> nat \<Rightarrow> sstore \<Rightarrow> sstore \<times> nat \<times> string option" where
  "insc_ascii A r v l p st =
    (let ss = the_str st p; c = ucast r in
     if v < l then (put_str p (ss\<lparr>sascii := (sascii ss)[v := c]\<rparr>) st, p, None)
     else if v < smax ss then
       (put_str p (ss\<lparr>slen := int (v + 1), sascii := (sascii ss)[v := c]\<rparr>) st, p, None)
     else if v \<noteq> l then (st, p, Some Tbounds)
     else
       (let ns = newstring A (v + 1 + v div 4);
            ns = ns\<lparr>sascii := (memput (sascii ns) 0 (take l (sascii ss)))[v := c], slen := int (v + 1)\<rparr>;
            (p', st') = salloc_str ns st
        in (st', p', None)))"

definition insc_str :: "salloc \<Rightarrow> u32 \<Rightarrow> nat \<Rightarrow> nat \<Rightarrow> sstore \<Rightarrow> sstore \<times> nat \<times> string option" where
  "insc_str A r v p st =
    (let l = slen (the_str st p) in
     if l < 0 then insc_rune A r v (nat (- l)) p st else insc_ascii A r v (nat l) p st)"

text \<open>\<open>if(ss != S(d)) { destroy(*sp); *sp = ss; }\<close>\<close>

definition insc_done :: "nat option \<Rightarrow> sstore \<times> nat \<times> string option \<Rightarrow> sstore \<times> nat option \<times> string option" where
  "insc_done d1 res =
    (case res of
       (st2, p, Some e) \<Rightarrow> (st2, d1, Some e)
     | (st2, p, None) \<Rightarrow> if d1 \<noteq> Some p then (sdestroy d1 st2, Some p, None) else (st2, d1, None))"

definition insc :: "salloc \<Rightarrow> u32 \<Rightarrow> u32 \<Rightarrow> nat option \<Rightarrow> sstore \<Rightarrow> sstore \<times> nat option \<times> string option" where
  "insc A r v d st =
    (let expand = sint r \<ge> 0x80;
         (d1, res) =
           (case d of
              None \<Rightarrow>
                (let (p, st1) = salloc_str (newstring A 0) st in
                 (None,
                  if expand then
                    insc_rune A r (unat v) 0 p
                      (put_str p ((the_str st1 p)\<lparr>smax := smax (the_str st1 p) div 2\<rparr>) st1)
                  else insc_str A r (unat v) p st1))
            | Some q \<Rightarrow>
                (if ref_of st q > 1 \<or> expand then
                   (let (p, st1) = splitc A q expand st in (Some p, insc_str A r (unat v) p st1))
                 else (Some q, insc_str A r (unat v) q st)))
     in insc_done d1 res)"

text \<open>\<open>slicec\<close> and \<open>addc\<close> store a new string in a variable, releasing the old one.\<close>

definition opt_str :: "sstore \<Rightarrow> nat option \<Rightarrow> dstring option" where
  "opt_str st d = map_option (the_str st) d"

definition set_str :: "dstring option \<Rightarrow> nat option \<Rightarrow> sstore \<Rightarrow> sstore \<times> nat option" where
  "set_str ns d st =
    (case ns of
       None \<Rightarrow> (sdestroy d st, None)
     | Some s \<Rightarrow> (let (p, st1) = salloc_str s st in (sdestroy d st1, Some p)))"

definition addc :: "salloc \<Rightarrow> nat option \<Rightarrow> nat option \<Rightarrow> nat option \<Rightarrow> sstore \<Rightarrow> sstore \<times> nat option" where
  "addc A m s d st = set_str (addstring A (opt_str st m) (opt_str st s)) d st"

definition slicec :: "salloc \<Rightarrow> u32 \<Rightarrow> u32 \<Rightarrow> nat option \<Rightarrow> sstore \<Rightarrow> (sstore \<times> nat option) res" where
  "slicec A s m d st = bindR (slicer A s m (opt_str st d)) (\<lambda>ns. Inr (set_str ns d st))"

section \<open>The value of a string\<close>

declare of_nat_unat [simp del]

definition dval :: "dstring \<Rightarrow> u16 list" where
  "dval s = (if slen s < 0 then take (nat (- slen s)) (srune s)
             else map ucast (take (nat (slen s)) (sascii s)))"

definition sval :: "dstring option \<Rightarrow> u16 list" where
  "sval s = (case s of None \<Rightarrow> [] | Some ss \<Rightarrow> dval ss)"

text \<open>A string is in order when it fits its capacity and the byte form holds ASCII only.\<close>

definition str_ok :: "dstring \<Rightarrow> bool" where
  "str_ok s \<longleftrightarrow>
     (if slen s < 0 then nat (- slen s) \<le> smax s \<and> smax s \<le> length (srune s)
      else nat (slen s) \<le> smax s \<and> smax s \<le> length (sascii s) \<and>
        list_all (\<lambda>c. unat c < Runeself) (take (nat (slen s)) (sascii s)))"

definition alloc_ok :: "salloc \<Rightarrow> bool" where "alloc_ok A \<longleftrightarrow> (\<forall>nb. nb \<le> room A nb)"

lemma alloc_room: "alloc_ok A \<Longrightarrow> nb \<le> room A nb" "alloc_ok A \<Longrightarrow> n \<le> room A (n * 2) div 2"
proof -
  show "alloc_ok A \<Longrightarrow> nb \<le> room A nb" by (simp add: alloc_ok_def)
  assume "alloc_ok A"
  then have "n * 2 \<le> room A (n * 2)" by (simp add: alloc_ok_def)
  then show "n \<le> room A (n * 2) div 2" by (simp add: less_eq_div_iff_mult_less_eq)
qed

named_theorems str_simps \<open>fresh strings and copies into them\<close>

lemma memput_simps [str_simps]:
  "off + length p \<le> length a \<Longrightarrow> length (memput a off p) = length a"
  "n \<le> off \<Longrightarrow> off \<le> length a \<Longrightarrow> take n (memput a off p) = take n a"
  "take (length p) (memput a 0 p) = p"
  by (simp_all add: memput_def)

lemma take_memput: "off \<le> length a \<Longrightarrow> n = off + length p \<Longrightarrow> take n (memput a off p) = take off a @ p"
  by (simp add: memput_def)

lemma newstring_simps [str_simps]:
  "slen (newstring A nb) = int nb" "smax (newstring A nb) = room A nb"
  "length (sascii (newstring A nb)) = room A nb" "length (srune (newstring A nb)) = room A nb div 2"
  by (simp_all add: newstring_def)

lemma newrunes_simps [str_simps]:
  "slen (newrunes A n) = - int n" "smax (newrunes A n) = room A (n * 2) div 2"
  "length (srune (newrunes A n)) = room A (n * 2) div 2"
  "length (sascii (newrunes A n)) = room A (n * 2)"
  by (simp_all add: newrunes_def newstring_simps Let_def)

text \<open>The two ways a new string is filled.\<close>

lemma runes_filled:
  assumes "alloc_ok A" and "length rs = n"
  shows "dval ((newrunes A n)\<lparr>srune := memput (srune (newrunes A n)) 0 rs\<rparr>) = rs"
    "str_ok ((newrunes A n)\<lparr>srune := memput (srune (newrunes A n)) 0 rs\<rparr>)"
  using assms alloc_room(2) [OF assms(1), of n]
  by (cases n; simp add: dval_def str_ok_def newrunes_simps take_memput memput_simps)+

lemma ascii_filled:
  assumes "alloc_ok A" and "length cs = n" and "list_all (\<lambda>c. unat c < Runeself) cs"
  shows "dval ((newstring A n)\<lparr>sascii := memput (sascii (newstring A n)) 0 cs\<rparr>) = map ucast cs"
    "str_ok ((newstring A n)\<lparr>sascii := memput (sascii (newstring A n)) 0 cs\<rparr>)"
  using assms alloc_room(1) [OF assms(1), of n]
  by (simp_all add: dval_def str_ok_def newstring_simps take_memput memput_simps)

lemma dval_length: "str_ok s \<Longrightarrow> length (dval s) = nat \<bar>slen s\<bar>"
  by (auto simp: dval_def str_ok_def)

lemma dval_ascii: "str_ok s \<Longrightarrow> slen s \<ge> 0 \<Longrightarrow> cvtup s = dval s \<and> list_all (\<lambda>c. unat c < Runeself) (dval s)"
  by (auto simp: cvtup_def dval_def str_ok_def list_all_iff unat_ucast_le)

lemma stringdup_spec:
  assumes "alloc_ok A" and "pred_option str_ok s"
  shows "sval (stringdup A s) = sval s \<and> pred_option str_ok (stringdup A s)"
proof (cases s)
  case (Some ss)
  let ?n = "nat \<bar>slen ss\<bar>"
  show ?thesis
  proof (cases "slen ss < 0")
    case True
    then have "length (take ?n (srune ss)) = ?n" using assms(2) Some by (auto simp: str_ok_def)
    from runes_filled [OF assms(1) this] True Some show ?thesis
      by (simp add: stringdup_def sval_def Let_def) (simp add: dval_def)
  next
    case False
    then have "length (take ?n (sascii ss)) = ?n" "list_all (\<lambda>c. unat c < Runeself) (take ?n (sascii ss))"
      using assms(2) Some by (auto simp: str_ok_def)
    from ascii_filled [OF assms(1) this] False Some show ?thesis
      by (simp add: stringdup_def sval_def Let_def) (simp add: dval_def)
  qed
qed (simp add: stringdup_def sval_def)

lemma list_all_slice:
  assumes "list_all P (take n a)" and "k + m \<le> n"
  shows "list_all P (take m (drop k a))"
proof -
  have "take m (drop k a) = drop k (take (k + m) (take n a))"
    using assms(2) by (simp add: take_drop min_def add.commute)
  then show ?thesis
    using assms(1) by (metis list.pred_set in_set_dropD in_set_takeD)
qed

lemma slicer_spec:
  assumes "alloc_ok A" and "pred_option str_ok s"
  shows "case slicer A start v s of
      Inr ns \<Rightarrow> start \<le> v \<and> unat v \<le> length (sval s) \<and> pred_option str_ok ns \<and>
        sval ns = take (unat v - unat start) (drop (unat start) (sval s))
    | Inl e \<Rightarrow> e = Raise Tbounds \<and> (v < start \<or> length (sval s) < unat v)"
proof (cases s)
  case None
  then show ?thesis by (auto simp: slicer_def sval_def word_le_nat_alt word_less_nat_alt unat_gt_0)
next
  case (Some ds)
  let ?nc = "unat (v - start)"
  show ?thesis
  proof (cases "v < start \<or> int (unat v) > \<bar>slen ds\<bar>")
    case True
    then show ?thesis using assms(2) Some dval_length [of ds]
      by (cases "slen ds < 0") (auto simp: slicer_def sval_def Let_def)
  next
    case False
    then have le: "start \<le> v" "int (unat v) \<le> \<bar>slen ds\<bar>" and nc: "?nc = unat v - unat start"
      by (auto simp: unat_sub)
    have ok: "str_ok ds" using assms(2) Some by simp
    show ?thesis
    proof (cases "slen ds < 0")
      case True
      have "length (take ?nc (drop (unat start) (srune ds))) = ?nc"
        using ok le nc True by (auto simp: str_ok_def word_le_nat_alt)
      from runes_filled [OF assms(1) this] True False le nc Some ok show ?thesis
        by (auto simp: slicer_def sval_def Let_def dval_length)
          (auto simp: dval_def take_drop word_le_nat_alt min_def)
    next
      case asc: False
      have "length (take ?nc (drop (unat start) (sascii ds))) = ?nc"
        "list_all (\<lambda>c. unat c < Runeself) (take ?nc (drop (unat start) (sascii ds)))"
        using ok le nc asc
        by (auto simp: str_ok_def word_le_nat_alt intro!: list_all_slice [where n = "nat (slen ds)"])
      from ascii_filled [OF assms(1) this] asc False le nc Some ok show ?thesis
        by (auto simp: slicer_def sval_def Let_def dval_length)
          (auto simp: dval_def take_drop drop_map take_map word_le_nat_alt min_def)
    qed
  qed
qed

lemma memput_twice:
  assumes "length xs = k" and "k + length ys \<le> length a"
  shows "memput (memput a 0 xs) k ys = memput a 0 (xs @ ys)"
  using assms by (simp add: memput_def add.commute)

lemma addstring_spec:
  assumes "alloc_ok A" and "pred_option str_ok m" and "pred_option str_ok s"
  shows "sval (addstring A m s) = sval m @ sval s \<and> pred_option str_ok (addstring A m s)"
proof (cases m)
  case None
  then show ?thesis using stringdup_spec [OF assms(1,3)]
    by (cases s) (simp_all add: addstring_def sval_def)
next
  case m: (Some s1)
  show ?thesis
  proof (cases s)
    case None
    then show ?thesis using stringdup_spec [OF assms(1,2)] m by (simp add: addstring_def sval_def)
  next
    case s: (Some s2)
    have ok: "str_ok s1" "str_ok s2" using assms(2,3) m s by simp_all
    let ?l1 = "nat \<bar>slen s1\<bar>" and ?l2 = "nat \<bar>slen s2\<bar>"
    have len: "length (dval s1) = ?l1" "length (dval s2) = ?l2" using ok by (simp_all add: dval_length)
    let ?nr = "newrunes A (?l1 + ?l2)"
    have room: "?l1 + ?l2 \<le> length (srune ?nr)"
      using alloc_room(2) [OF assms(1), of "?l1 + ?l2"] by (simp only: newrunes_simps)
    have cat: "memput (memput (srune ?nr) 0 (dval s1)) ?l1 (dval s2) = memput (srune ?nr) 0 (dval s1 @ dval s2)"
      using len room by (intro memput_twice) simp_all
    have filled: "dval (?nr\<lparr>srune := memput (srune ?nr) 0 (dval s1 @ dval s2)\<rparr>) = dval s1 @ dval s2"
      "str_ok (?nr\<lparr>srune := memput (srune ?nr) 0 (dval s1 @ dval s2)\<rparr>)"
      using runes_filled [OF assms(1), of "dval s1 @ dval s2" "?l1 + ?l2"] len by simp_all
    show ?thesis
    proof (cases "slen s1 < 0")
      case True
      have "(if slen s2 < 0 then nat (- (slen s1 + slen s2)) else nat (- slen s1 + slen s2)) = ?l1 + ?l2"
        using True by auto
      moreover have "(if slen s2 < 0 then take (nat (- slen s2)) (srune s2) else cvtup s2) = dval s2"
        by (simp add: dval_def cvtup_def)
      ultimately have "addstring A m s =
          Some (?nr\<lparr>srune := memput (memput (srune ?nr) 0 (dval s1)) ?l1 (dval s2)\<rparr>)"
        using True m s by (cases "slen s2 < 0") (auto simp: addstring_def Let_def dval_def)
      then show ?thesis using filled m s by (simp add: cat sval_def)
    next
      case asc1: False
      show ?thesis
      proof (cases "slen s2 < 0")
        case True
        then have "addstring A m s =
            Some (?nr\<lparr>srune := memput (memput (srune ?nr) 0 (dval s1)) ?l1 (dval s2)\<rparr>)"
          using asc1 m s by (auto simp: addstring_def Let_def dval_def cvtup_def)
        then show ?thesis using filled m s by (simp add: cat sval_def)
      next
        case False
        let ?p = "take ?l1 (sascii s1) @ take ?l2 (sascii s2)" and ?na = "newstring A (?l1 + ?l2)"
        have p: "length ?p = ?l1 + ?l2" "length (take ?l1 (sascii s1)) = ?l1"
          "length (take ?l2 (sascii s2)) = ?l2" "list_all (\<lambda>c. unat c < Runeself) ?p"
          using ok asc1 False by (auto simp: str_ok_def)
        have "memput (memput (sascii ?na) 0 (take ?l1 (sascii s1))) ?l1 (take ?l2 (sascii s2)) =
            memput (sascii ?na) 0 ?p"
          using p alloc_room(1) [OF assms(1)] by (intro memput_twice) (simp_all add: newstring_simps)
        then have "addstring A m s = Some (?na\<lparr>sascii := memput (sascii ?na) 0 ?p\<rparr>)"
          using asc1 False m s by (simp add: addstring_def Let_def)
        then show ?thesis using ascii_filled [OF assms(1) p(1,4)] asc1 False m s
          by (simp add: sval_def) (simp add: dval_def)
      qed
    qed
  qed
qed

lemma lenc_spec: "pred_option str_ok s \<Longrightarrow> lenc s = int (length (sval s))"
  by (cases s) (auto simp: lenc_def sval_def dval_length Let_def)

lemma indc_spec:
  assumes "pred_option str_ok s"
  shows "indc s v = (if unat v < length (sval s) then Inr (uint (sval s ! unat v)) else Inl (Raise Tbounds))"
proof (cases s)
  case (Some ss)
  show ?thesis
  proof (cases "slen ss < 0")
    case True
    then show ?thesis using assms Some
      by (auto simp: indc_def sval_def dval_length Let_def) (auto simp: dval_def)
  next
    case False
    have l: "length (dval ss) = nat (slen ss)" "int (unat v) \<ge> slen ss \<longleftrightarrow> \<not> unat v < nat (slen ss)"
      using assms Some False by (auto simp: dval_length)
    show ?thesis
    proof (cases "unat v < nat (slen ss)")
      case True
      let ?c = "sascii ss ! unat v"
      have in_buf: "nat (slen ss) \<le> length (sascii ss)" using assms Some False by (simp add: str_ok_def)
      have "list_all (\<lambda>c. unat c < Runeself) (take (nat (slen ss)) (sascii ss))"
        using assms Some False by (simp add: str_ok_def)
      moreover have "?c \<in> set (take (nat (slen ss)) (sascii ss))"
        using True in_buf by (auto simp: in_set_conv_nth intro!: exI [of _ "unat v"])
      ultimately have "unat ?c < 128" by (simp add: list_all_iff Runeself_def)
      then have "int (unat ?c) < 128" by linarith
      then have "uint ?c < 128" unfolding of_nat_unat .
      then have "sint ?c = uint ?c" 
        by (simp add: sint_uint signed_take_bit_int_eq_self_iff order_trans [OF _ uint_ge_0])
      moreover have "dval ss ! unat v = ucast ?c" using True False in_buf by (simp add: dval_def)
      moreover have "uint (ucast ?c :: u16) = uint ?c" by (simp add: uint_up_ucast is_up)
      ultimately show ?thesis using Some False True l by (simp add: indc_def sval_def Let_def)
    next
      case nv: False
      then show ?thesis using Some False l by (simp add: indc_def sval_def Let_def)
    qed
  qed
qed (simp add: indc_def sval_def)

section \<open>Conversions\<close>

lemma u8_via_u16 [simp]: "ucast (ucast (c :: u8) :: u16) = c"
  by (rule bit_word_eqI) (simp add: bit_simps)

lemma ascii_utf_bytes:
  assumes "list_all (\<lambda>r. unat r < Runeself) rs"
  shows "list_all (\<lambda>c. unat c < Runeself) (utf_bytes rs)" "map ucast (utf_bytes rs) = rs"
    "length (utf_bytes rs) = length rs"
  using assms by (induction rs) (simp_all add: runetochar_head1 head1_self)

lemma string2c_spec:
  assumes "pred_option str_ok s"
  shows "string2c s = utf_bytes (sval s)" "cvtca s = utf_bytes (sval s)"
proof -
  have r: "concat (map (\<lambda>c. if unat c < Runeself then [ucast c] else runetochar c) rs) = utf_bytes rs" for rs
    by (induction rs) (simp_all add: runetochar_head1)
  have a: "list_all (\<lambda>c. unat c < Runeself) cs \<Longrightarrow> utf_bytes (map ucast cs) = cs" for cs :: "u8 list"
    by (induction cs) (simp_all add: runetochar_head1 unat_ucast_le)
  have m: "memput (replicate (runenlen rs) 0) 0 (concat (map runetochar rs)) = utf_bytes rs" for rs
    by (simp add: memput_def runenlen_length enc_all_def)
  show "string2c s = utf_bytes (sval s)" "cvtca s = utf_bytes (sval s)"
    using assms a by (cases s; auto simp: string2c_def cvtca_def sval_def dval_def str_ok_def r m)+
qed

lemma decode_n_utf: "decode_n (length rs) (utf_bytes rs @ t) = rs"
  by (induction rs) (simp_all add: chartorune_runetochar)

lemma decode_to_utf: "decode_to (p @ utf_bytes rs @ t) (length p) (length p + length (utf_bytes rs)) = rs"
proof (induction rs arbitrary: p)
  case Nil
  then show ?case by (subst decode_to.simps) simp
next
  case (Cons r rs)
  from Cons.IH [of "p @ runetochar r"] show ?case
    by (subst decode_to.simps) (simp add: chartorune_runetochar add.assoc)
qed

lemma count_runes_utf:
  "count_runes (p @ utf_bytes rs @ t) (length p) (length p + length (utf_bytes rs)) = length rs"
proof (induction rs arbitrary: p)
  case Nil
  then show ?case by (subst count_runes.simps) simp
next
  case (Cons r rs)
  have b: "byte_at (p @ runetochar r @ s) (length p) = hd (runetochar r)" for s
    using runetochar_nonempty [of r] by (simp add: byte_at_def nth_append hd_conv_nth)
  from Cons.IH [of "p @ runetochar r"] show ?case
  proof (cases "unat r < Runeself")
    case True
    then show ?thesis using Cons.IH [of "p @ runetochar r"] b
      by (subst count_runes.simps) (simp add: runetochar_head1 head1_self add.assoc)
  next
    case False
    then have "\<not> unat (hd (runetochar r)) < Runeself"
      using runetochar_head2 [of r] by (cases "runetochar r") auto
    then show ?thesis using Cons.IH [of "p @ runetochar r"] b
      by (subst count_runes.simps) (simp add: chartorune_runetochar add.assoc)
  qed
qed

lemma runetochar_length1: "length (runetochar r) = 1 \<longleftrightarrow> unat r < Runeself"
  by (simp add: runelen_length runelen_rune rune1_iff)

lemma length_utf_bytes_ge: "length rs \<le> length (utf_bytes rs)"
  by (induction rs) (simp_all add: Suc_le_eq add_strict_increasing)

lemma utf_one_byte: "length rs = length (utf_bytes rs) \<longleftrightarrow> list_all (\<lambda>r. unat r < Runeself) rs"
proof (induction rs)
  case (Cons r rs)
  have "1 \<le> length (runetochar r)" using runetochar_nonempty [of r] by (cases "runetochar r") simp_all
  then show ?case using Cons length_utf_bytes_ge [of rs] runetochar_length1 [of r] by auto
qed simp

lemma cvtac_utf:
  assumes "alloc_ok A"
  shows "sval (cvtac A (Some (utf_bytes rs @ t, length (utf_bytes rs)))) = rs \<and>
    pred_option str_ok (cvtac A (Some (utf_bytes rs @ t, length (utf_bytes rs))))"
proof -
  let ?n = "length (utf_bytes rs)"
  have u: "utfnlen (utf_bytes rs @ t) ?n = (length rs, ?n)"
    using utfnlen_utf_bytes_from [of "[]" rs t 0] by (simp add: utfnlen_def)
  show ?thesis
  proof (cases "length rs = ?n")
    case True
    then have "list_all (\<lambda>r. unat r < Runeself) rs" by (simp only: utf_one_byte)
    from ascii_utf_bytes(1,2) [OF this] ascii_filled [OF assms refl, of "utf_bytes rs"] show ?thesis
      by (simp add: cvtac_def u True sval_def Let_def)
  next
    case False
    then show ?thesis using runes_filled [OF assms refl, of rs]
      by (simp add: cvtac_def u sval_def Let_def decode_n_utf)
  qed
qed

lemma c2string_utf:
  assumes "alloc_ok A"
  shows "dval (c2string A (utf_bytes rs @ t) (length (utf_bytes rs))) = rs \<and>
    str_ok (c2string A (utf_bytes rs @ t) (length (utf_bytes rs)))"
proof -
  let ?P = "\<lambda>r :: u16. unat r < Runeself" and ?n = "length (utf_bytes rs)"
  let ?Q = "\<lambda>c :: u8. unat c < Runeself"
  show ?thesis
  proof (cases "list_all ?P rs")
    case True
    note a = ascii_utf_bytes [OF True]
    then have tw: "takeWhile ?Q (utf_bytes rs) = utf_bytes rs" by (simp add: takeWhile_eq_all_conv list_all_iff)
    show ?thesis using a(1,2) ascii_filled [OF assms refl, of "utf_bytes rs"]
      by (simp add: c2string_def Let_def tw)
  next
    case False
    let ?as = "takeWhile ?P rs"
    obtain r bs where r: "rs = ?as @ r # bs" "\<not> ?P r"
      using False by (metis dropWhile_eq_Cons_conv dropWhile_eq_Nil_conv list.exhaust list_all_iff takeWhile_dropWhile_id)
    have "list_all ?P ?as" by (auto simp: list_all_iff dest: set_takeWhileD)
    note a = ascii_utf_bytes [OF this]
    have h: "\<not> ?Q (hd (runetochar r))" using runetochar_head2 [OF r(2), of "[]"] by (cases "runetochar r") auto
    have b: "utf_bytes rs = utf_bytes ?as @ runetochar r @ utf_bytes bs" by (subst r(1)) simp
    obtain x xs where x: "runetochar r = x # xs" by (cases "runetochar r") simp_all
    have tw: "takeWhile ?Q (utf_bytes rs) = utf_bytes ?as"
      unfolding b x using a h x by (subst takeWhile_append2) (auto simp: list_all_iff)
    have len: "length (utf_bytes ?as) = length ?as" using a by simp
    have ne: "length ?as \<noteq> ?n" using len b x by simp
    have "count_runes (utf_bytes rs @ t) (length ?as) ?n = length (r # bs)"
      using count_runes_utf [of "utf_bytes ?as" "r # bs" t] b len by simp
    then have "length ?as + count_runes (utf_bytes rs @ t) (length ?as) ?n = length rs"
      by (subst (2) r(1)) simp
    moreover have "decode_to (utf_bytes rs @ t) 0 ?n = rs" using decode_to_utf [of "[]" rs t] by simp
    ultimately show ?thesis using tw len ne runes_filled [OF assms refl, of rs]
      by (simp add: c2string_def Let_def)
  qed
qed

section \<open>Comparison\<close>

text \<open>The order on strings: code unit by code unit, a proper prefix first.\<close>

fun lex_cmp :: "u16 list \<Rightarrow> u16 list \<Rightarrow> int" where
  "lex_cmp [] [] = 0"
| "lex_cmp [] (b # bs) = - 1"
| "lex_cmp (a # as) [] = 1"
| "lex_cmp (a # as) (b # bs) = (if a < b then - 1 else if b < a then 1 else lex_cmp as bs)"

lemma cmp_loop_spec:
  assumes "xs = map uint as" and "ys = map uint bs" and "n = min (length as) (length bs)"
    and "take (length as) xs' = xs" and "take (length bs) ys' = ys"
  shows "sgn (case cmp_loop xs' ys' n of Some c \<Rightarrow> c | None \<Rightarrow> int (length as) - int (length bs)) =
    lex_cmp as bs"
  using assms
proof (induction as bs arbitrary: xs ys xs' ys' n rule: lex_cmp.induct)
  case (4 a as b bs)
  obtain x xt where x: "xs' = x # xt" using "4.prems" by (cases xs') auto
  obtain y yt where y: "ys' = y # yt" using "4.prems" by (cases ys') auto
  show ?case
  proof (cases "a = b")
    case True
    have "take (length as) xt = map uint as" "take (length bs) yt = map uint bs"
      using "4.prems" x y by simp_all
    from "4.IH" [OF _ _ refl refl refl this] True show ?thesis
      using "4.prems" x y by (cases "cmp_loop xt yt (min (length as) (length bs))") simp_all
  next
    case False
    then have "uint a \<noteq> uint b" by (metis word_uint_eqI)
    then show ?thesis using "4.prems" x y by (auto simp: word_less_def)
  qed
qed (simp_all split: option.splits)

text \<open>The two strings agree up to and including a NUL: \<open>strncmp\<close> sees no more of them.\<close>

fun common_nul :: "'a::zero list \<Rightarrow> 'a list \<Rightarrow> bool" where
  "common_nul (x # xs) (y # ys) \<longleftrightarrow> x = y \<and> (x = 0 \<or> common_nul xs ys)"
| "common_nul _ _ \<longleftrightarrow> False"

lemma common_nul_iff:
  "common_nul xs ys \<longleftrightarrow> (\<exists>p. 0 \<in> set p \<and> take (length p) xs = p \<and> take (length p) ys = p)"
proof (induction xs ys rule: common_nul.induct)
  case (1 x xs y ys)
  have "(\<exists>p. 0 \<in> set p \<and> take (length p) (x # xs) = p \<and> take (length p) (y # ys) = p) \<longleftrightarrow>
    (\<exists>p. 0 \<in> set (x # p) \<and> x = y \<and> take (length p) xs = p \<and> take (length p) ys = p)" (is "?l \<longleftrightarrow> ?r")
  proof
    assume ?l
    then obtain p where p: "0 \<in> set p" "take (length p) (x # xs) = p" "take (length p) (y # ys) = p" by blast
    then obtain z p' where "p = z # p'" by (cases p) auto
    with p show ?r by auto
  next
    assume ?r
    then obtain p where "0 \<in> set (x # p) \<and> x = y \<and> take (length p) xs = p \<and> take (length p) ys = p" by blast
    then show ?l by (intro exI [of _ "x # p"]) auto
  qed
  also have "\<dots> \<longleftrightarrow> x = y \<and> (x = 0 \<or> common_nul xs ys)"
    using 1 by (auto intro: exI [of _ "[]"])
  finally show ?case by simp
qed (auto simp: eq_commute [of "[]"])

lemma common_nul_ucast:
  "common_nul (map ucast as :: u16 list) (map ucast bs) \<longleftrightarrow> common_nul as (bs :: u8 list)"
  by (induction as bs rule: common_nul.induct) (auto simp: word_unat_eq_iff unat_ucast_le)

lemma strncmp_spec:
  assumes "n = min (length as) (length bs)"
    and "take (length as) xs = as" and "take (length bs) ys = bs"
  shows "sgn (let c = strncmp xs ys n in if c = 0 then int (length as) - int (length bs) else c) =
    (if common_nul as bs then sgn (int (length as) - int (length bs)) else lex_cmp (map ucast as) (map ucast bs))"
  using assms
proof (induction n arbitrary: as bs xs ys)
  case 0
  then show ?case by (cases as; cases bs) auto
next
  case (Suc n)
  obtain a as' where a: "as = a # as'" using Suc.prems(1) by (cases as) auto
  obtain b bs' where b: "bs = b # bs'" using Suc.prems(1) by (cases bs) auto
  obtain xt where x: "xs = a # xt" "take (length as') xt = as'" using Suc.prems(2) a by (cases xs) auto
  obtain yt where y: "ys = b # yt" "take (length bs') yt = bs'" using Suc.prems(3) b by (cases ys) auto
  have ord: "(ucast a :: u16) < ucast b \<longleftrightarrow> a < b" "(ucast b :: u16) < ucast a \<longleftrightarrow> b < a"
    by (simp_all add: word_less_nat_alt unat_ucast_le)
  show ?case
  proof (cases "a = b")
    case True
    have "n = min (length as') (length bs')" using Suc.prems(1) a b by auto
    note Suc.IH [OF this x(2) y(2)]
    then show ?thesis using True a b x y by (simp add: Let_def split: if_splits)
  next
    case False
    then show ?thesis using a b x y ord by (auto simp: Let_def)
  qed
qed

lemma strncmp_nul: "0 \<in> set p \<Longrightarrow> strncmp (p @ xs) (p @ ys) n = 0"
proof (induction p arbitrary: n)
  case (Cons a p)
  then show ?case by (cases n) auto
qed simp

definition units :: "dstring \<Rightarrow> int list" where
  "units s = (if slen s < 0 then map uint (srune s) else map sint (sascii s))"

lemma ascii_sint: "unat (c :: u8) < Runeself \<Longrightarrow> sint c = uint (ucast c :: u16)"
proof -
  assume "unat c < Runeself"
  then have "int (unat c) < 128" by (simp add: Runeself_def)
  then have "uint c < 128" unfolding of_nat_unat .
  then have "sint c = uint c"
    by (simp add: sint_uint signed_take_bit_int_eq_self_iff order_trans [OF _ uint_ge_0])
  then show ?thesis by (simp add: uint_up_ucast is_up)
qed

lemma units_dval:
  assumes "str_ok s"
  shows "take (length (dval s)) (units s) = map uint (dval s)"
proof (cases "slen s < 0")
  case True
  then have "nat (- slen s) \<le> length (srune s)" using assms by (auto simp: str_ok_def)
  with True show ?thesis by (simp add: units_def dval_def take_map)
next
  case False
  let ?n = "nat (slen s)"
  have "list_all (\<lambda>c. unat c < Runeself) (take ?n (sascii s))" "length (dval s) = ?n"
    using assms False by (auto simp: str_ok_def dval_length)
  then show ?thesis using False ascii_sint by (simp add: units_def dval_def take_map list_all_iff)
qed

text \<open>Nil counts as the empty byte string.\<close>

definition byte_form :: "dstring option \<Rightarrow> bool" where
  "byte_form s = (case s of None \<Rightarrow> True | Some x \<Rightarrow> slen x \<ge> 0)"

lemma stringcmp_spec:
  assumes "pred_option str_ok m" and "pred_option str_ok s"
  shows "sgn (stringcmp m s) =
    (if byte_form m \<and> byte_form s \<and> common_nul (sval m) (sval s)
     then sgn (int (length (sval m)) - int (length (sval s))) else lex_cmp (sval m) (sval s))"
proof -
  let ?s1 = "case m of None \<Rightarrow> snil | Some x \<Rightarrow> x" and ?s2 = "case s of None \<Rightarrow> snil | Some x \<Rightarrow> x"
  have ok: "str_ok ?s1" "str_ok ?s2" using assms(1,2) by (auto simp: str_ok_def snil_def split: option.splits)
  have v: "sval m = dval ?s1" "sval s = dval ?s2"
    by (auto simp: sval_def snil_def dval_def split: option.splits)
  have len: "length (dval ?s1) = nat \<bar>slen ?s1\<bar>" "length (dval ?s2) = nat \<bar>slen ?s2\<bar>"
    using ok by (simp_all add: dval_length)
  let ?n = "min (nat \<bar>slen ?s1\<bar>) (nat \<bar>slen ?s2\<bar>)"
  show ?thesis
  proof (cases "slen ?s1 \<ge> 0 \<and> slen ?s2 \<ge> 0")
    case True
    let ?as = "take (nat (slen ?s1)) (sascii ?s1)" and ?bs = "take (nat (slen ?s2)) (sascii ?s2)"
    have d: "dval ?s1 = map ucast ?as" "dval ?s2 = map ucast ?bs" using True by (simp_all add: dval_def)
    have l: "length ?as = nat \<bar>slen ?s1\<bar>" "length ?bs = nat \<bar>slen ?s2\<bar>"
      using len True unfolding d by simp_all
    have bf: "byte_form m \<and> byte_form s" using True by (simp add: byte_form_def snil_def split: option.splits)
    have "?n = min (length ?as) (length ?bs)" unfolding l ..
    from strncmp_spec [OF this, of "sascii ?s1" "sascii ?s2"]
    have "sgn (let c = strncmp (sascii ?s1) (sascii ?s2) ?n in
        if c = 0 then int (nat \<bar>slen ?s1\<bar>) - int (nat \<bar>slen ?s2\<bar>) else c) =
      (if common_nul ?as ?bs then sgn (int (length ?as) - int (length ?bs))
       else lex_cmp (map ucast ?as) (map ucast ?bs))"
      unfolding l using True by (simp only: abs_of_nonneg simp_thms)
    then show ?thesis unfolding v d stringcmp_def Let_def common_nul_ucast length_map
      using True bf by (simp only: if_True simp_thms)
  next
    case False
    have "?n = min (length (dval ?s1)) (length (dval ?s2))" unfolding len ..
    from cmp_loop_spec [OF refl refl this units_dval [OF ok(1)] units_dval [OF ok(2)], unfolded len]
    have "sgn (case cmp_loop (units ?s1) (units ?s2) ?n of Some c \<Rightarrow> c
        | None \<Rightarrow> int (nat \<bar>slen ?s1\<bar>) - int (nat \<bar>slen ?s2\<bar>)) = lex_cmp (dval ?s1) (dval ?s2)"
      by (cases "cmp_loop (units ?s1) (units ?s2) ?n") (simp_all only: option.case)
    moreover have "(byte_form m \<and> byte_form s \<and> c) = False" for c
      using False by (auto simp: byte_form_def snil_def split: option.splits)
    ultimately show ?thesis unfolding v units_def stringcmp_def Let_def using False by (simp only: if_False simp_thms)
  qed
qed

section \<open>Assigning to a character\<close>

definition store_ok :: "sstore \<Rightarrow> bool" where
  "store_ok st \<longleftrightarrow> (\<forall>p n s. sblk st p = Some (n, s) \<longrightarrow> p < snext st \<and> str_ok s)"

definition put_char :: "'a list \<Rightarrow> nat \<Rightarrow> 'a \<Rightarrow> 'a list" where
  "put_char xs v c = (if v < length xs then xs[v := c] else xs @ [c])"

text \<open>The result of an assignment to the string at \<open>p\<close>: \<open>p\<close> itself, or a fresh block.\<close>

definition assigned :: "sstore \<Rightarrow> nat \<Rightarrow> u16 list \<Rightarrow> sstore \<times> nat \<times> string option \<Rightarrow> bool" where
  "assigned st p val r \<longleftrightarrow> (case r of (st', p', e) \<Rightarrow>
     e = None \<and> (p' = p \<or> p' = snext st) \<and> snext st \<le> snext st' \<and> p' < snext st' \<and>
     (\<forall>x. x \<noteq> p' \<longrightarrow> sblk st' x = sblk st x) \<and>
     (\<exists>n s. sblk st' p' = Some (n, s) \<and> str_ok s \<and> dval s = val \<and>
        n = (if p' = p then ref_of st p else 1)))"

lemma put_str_assigned:
  assumes "p < snext st" and "str_ok s" and "dval s = val"
  shows "assigned st p val (put_str p s st, p, None)"
  using assms by (simp add: assigned_def put_str_def)

lemma alloc_assigned:
  assumes "p < snext st" and "str_ok s" and "dval s = val"
  shows "assigned st p val (case salloc_str s st of (p', st') \<Rightarrow> (st', p', None))"
  using assms by (simp add: assigned_def salloc_str_def)

lemma put_char_take:
  assumes "v \<le> l" and "l \<le> length a" and "v < length a"
  shows "put_char (take l a) v c = take (max l (Suc v)) (a[v := c])"
proof (cases "v < l")
  case True
  then have "max l (Suc v) = l" by simp
  then show ?thesis using assms True by (simp add: put_char_def take_update_swap)
next
  case False
  then have "v = l" using assms(1) by simp
  then show ?thesis using assms by (simp add: put_char_def max_def take_Suc_conv_app_nth take_update_swap list_update_append)
qed

lemma list_all_put: "list_all P xs \<Longrightarrow> P c \<Longrightarrow> list_all P (put_char xs v c)"
  by (auto simp: put_char_def list_all_iff dest!: set_update_subset_insert [THEN subsetD])

lemma insc_rune_spec:
  assumes "alloc_ok A" and "p < snext st" and "str_ok (the_str st p)" and "slen (the_str st p) < 0"
    and "v \<le> l" and "l = nat (- slen (the_str st p))"
  shows "assigned st p (put_char (dval (the_str st p)) v (ucast r)) (insc_rune A r v l p st)"
proof -
  let ?ss = "the_str st p" and ?c = "ucast r :: u16"
  let ?a = "srune ?ss"
  have d: "dval ?ss = take l ?a" and buf: "l \<le> smax ?ss" "smax ?ss \<le> length ?a"
    using assms(3,4,6) by (auto simp: dval_def str_ok_def)
  consider "v < l" | "\<not> v < l" "v < smax ?ss" | "\<not> v < l" "\<not> v < smax ?ss" by blast
  then show ?thesis
  proof cases
    case 1
    let ?s = "?ss\<lparr>srune := ?a[v := ?c]\<rparr>"
    have "str_ok ?s" "dval ?s = put_char (take l ?a) v ?c"
      using 1 assms(3,4,6) buf put_char_take [of v l ?a ?c] by (auto simp: str_ok_def dval_def max_absorb1)
    from put_str_assigned [OF assms(2) this] 1 show ?thesis by (simp add: insc_rune_def Let_def d)
  next
    case 2
    let ?s = "?ss\<lparr>slen := - int (v + 1), srune := ?a[v := ?c]\<rparr>"
    have "str_ok ?s" "dval ?s = put_char (take l ?a) v ?c"
      using 2 assms(5) buf put_char_take [of v l ?a ?c] by (auto simp: str_ok_def dval_def max_def nat_add_distrib)
    from put_str_assigned [OF assms(2) this] 2 show ?thesis by (simp add: insc_rune_def Let_def d)
  next
    case 3
    then have v: "v = l" using assms(5) by simp
    let ?m = "(v + 1 + v div 4) * 2"
    let ?b = "memput (srune (newstring A ?m)) 0 (take l ?a)"
    let ?ns = "(newstring A ?m)\<lparr>srune := ?b[v := ?c], slen := - int (v + 1), smax := room A ?m div 2\<rparr>"
    have cap: "v + 1 \<le> room A ?m div 2"
      using alloc_room(2) [OF assms(1), of "v + 1 + v div 4"] by linarith
    have l: "length (take l ?a) = l" using buf by simp
    then have b: "length ?b = room A ?m div 2" "take l ?b = take l ?a"
      using cap v by (simp_all add: memput_simps newstring_simps take_memput)
    have "str_ok ?ns" using cap b by (simp add: str_ok_def nat_add_distrib)
    moreover have "dval ?ns = put_char (take l ?a) v ?c"
      using put_char_take [of v l ?b ?c] b cap v by (simp add: dval_def nat_add_distrib max_def)
    ultimately have "assigned st p (put_char (dval ?ss) v ?c)
        (case salloc_str ?ns st of (p', st') \<Rightarrow> (st', p', None))"
      unfolding d by (rule alloc_assigned [OF assms(2)])
    then show ?thesis using 3 v assms(6) by (simp add: insc_rune_def Let_def newstring_simps)
  qed
qed

lemma unat_nonneg: "0 \<le> sint r \<Longrightarrow> sint r < 2 ^ n \<Longrightarrow> n \<le> 31 \<Longrightarrow> unat r < 2 ^ n" for r :: u32
proof -
  assume *: "0 \<le> sint r" "sint r < 2 ^ n" "n \<le> 31"
  have "(2 :: int) ^ n \<le> 2 ^ 31" using *(3) by (intro power_increasing) simp_all
  with * have "uint r = sint r" by (simp add: uint_sint take_bit_int_eq_self)
  with *(2) have "int (unat r) < 2 ^ n" unfolding of_nat_unat by simp
  then show "unat r < 2 ^ n" by (simp add: of_nat_less_iff [symmetric] del: of_nat_less_iff)
qed

lemma insc_ascii_spec:
  assumes "alloc_ok A" and "p < snext st" and "str_ok (the_str st p)" and "slen (the_str st p) \<ge> 0"
    and "v \<le> l" and "l = nat (slen (the_str st p))" and "0 \<le> sint r" and "sint r < 0x80"
  shows "assigned st p (put_char (dval (the_str st p)) v (ucast r)) (insc_ascii A r v l p st)"
proof -
  let ?ss = "the_str st p" and ?c = "ucast r :: u8"
  let ?a = "sascii ?ss"
  have "unat r < 2 ^ 7" using assms(7,8) by (intro unat_nonneg) simp_all
  then have hi: "n < 7" if "bit r n" for n using that bit_above [of r 7 n] by (auto simp: not_le [symmetric])
  have r: "unat ?c < Runeself" "ucast ?c = (ucast r :: u16)"
    using \<open>unat r < 2 ^ 7\<close> by (simp add: Runeself_def unsigned_ucast_eq take_bit_nat_eq_self)
      (rule bit_word_eqI, use hi in \<open>fastforce simp: bit_simps\<close>)
  have d: "dval ?ss = map ucast (take l ?a)" and buf: "l \<le> smax ?ss" "smax ?ss \<le> length ?a"
    and asc: "list_all (\<lambda>c. unat c < Runeself) (take l ?a)"
    using assms(3,4,6) by (auto simp: dval_def str_ok_def)
  have put: "put_char (map ucast xs) v (ucast r) = (map ucast (put_char xs v ?c) :: u16 list)" for xs
    by (simp add: put_char_def map_update r(2))
  note asc' = list_all_put [OF asc r(1), of v]
  have fin: "str_ok s \<and> dval s = put_char (dval ?ss) v (ucast r)"
    if "slen s = int k" "take k (sascii s) = put_char (take l ?a) v ?c" "k \<le> smax s" "smax s \<le> length (sascii s)"
    for s k
    using that asc' unfolding d put by (simp add: str_ok_def dval_def)
  consider "v < l" | "\<not> v < l" "v < smax ?ss" | "\<not> v < l" "\<not> v < smax ?ss" by blast
  then show ?thesis
  proof cases
    case 1
    let ?s = "?ss\<lparr>sascii := ?a[v := ?c]\<rparr>"
    have "str_ok ?s \<and> dval ?s = put_char (dval ?ss) v (ucast r)"
      using 1 assms(4,6) buf put_char_take [of v l ?a ?c] by (intro fin [where k = l]) (auto simp: max_absorb1)
    with put_str_assigned [OF assms(2), of ?s] 1 show ?thesis by (simp add: insc_ascii_def Let_def)
  next
    case 2
    let ?s = "?ss\<lparr>slen := int (v + 1), sascii := ?a[v := ?c]\<rparr>"
    have "str_ok ?s \<and> dval ?s = put_char (dval ?ss) v (ucast r)"
      using 2 assms(5) buf put_char_take [of v l ?a ?c] by (intro fin [where k = "v + 1"]) (auto simp: max_def)
    with put_str_assigned [OF assms(2), of ?s] 2 show ?thesis by (simp add: insc_ascii_def Let_def)
  next
    case 3
    then have v: "v = l" using assms(5) by simp
    let ?m = "v + 1 + v div 4"
    let ?b = "memput (sascii (newstring A ?m)) 0 (take l ?a)"
    let ?ns = "(newstring A ?m)\<lparr>sascii := ?b[v := ?c], slen := int (v + 1)\<rparr>"
    have cap: "v + 1 \<le> room A ?m" using alloc_room(1) [OF assms(1), of ?m] by linarith
    have l: "length (take l ?a) = l" using buf by simp
    then have b: "length ?b = room A ?m" "take l ?b = take l ?a"
      using cap v by (simp_all add: memput_simps newstring_simps take_memput)
    have "str_ok ?ns \<and> dval ?ns = put_char (dval ?ss) v (ucast r)"
      using put_char_take [of v l ?b ?c] b cap v
      by (intro fin [where k = "v + 1"]) (auto simp: max_def newstring_simps)
    with alloc_assigned [OF assms(2), of ?ns] 3 v show ?thesis
      by (simp add: insc_ascii_def Let_def)
  qed
qed

lemma insc_str_spec:
  assumes "alloc_ok A" and "p < snext st" and "str_ok (the_str st p)"
    and "v \<le> length (dval (the_str st p))" and "0 \<le> sint r"
    and "sint r < 0x80 \<or> slen (the_str st p) < 0"
  shows "assigned st p (put_char (dval (the_str st p)) v (ucast r)) (insc_str A r v p st)"
  using assms insc_rune_spec [OF assms(1-3), of v _ r] insc_ascii_spec [OF assms(1-3), of v _ r]
  by (auto simp: insc_str_def Let_def dval_length)

lemma splitc_spec:
  assumes "alloc_ok A" and "store_ok st" and "sblk st q = Some (n, ss)" and "splitc A q expand st = (p, st1)"
  shows "p = snext st \<and> snext st1 = snext st + 1 \<and> store_ok st1 \<and> ref_of st1 p = 1 \<and>
    dval (the_str st1 p) = dval ss \<and> (slen (the_str st1 p) < 0 \<longleftrightarrow> slen ss < 0 \<or> expand \<and> slen ss > 0) \<and>
    sblk st1 q = Some (n - 1, ss) \<and> (\<forall>x. x \<noteq> p \<longrightarrow> x \<noteq> q \<longrightarrow> sblk st1 x = sblk st x)"
proof -
  let ?ns = "if expand \<and> slen ss > 0
    then let ns = newrunes A (nat (slen ss)) in ns\<lparr>srune := memput (srune ns) 0 (cvtup ss)\<rparr>
    else case stringdup A (Some ss) of Some x \<Rightarrow> x | None \<Rightarrow> snil"
  have ok: "str_ok ss" "q < snext st" using assms(2,3) by (auto simp: store_ok_def)
  have ns: "str_ok ?ns \<and> dval ?ns = dval ss \<and> (slen ?ns < 0 \<longleftrightarrow> slen ss < 0 \<or> expand \<and> slen ss > 0)"
  proof (cases "expand \<and> slen ss > 0")
    case True
    have "cvtup ss = dval ss" "length (dval ss) = nat (slen ss)"
      using True ok(1) dval_ascii [of ss] by (simp_all add: dval_length)
    with runes_filled [OF assms(1), of "dval ss" "nat (slen ss)"] True show ?thesis
      by (simp add: Let_def newrunes_simps)
  next
    case False
    have "sval (stringdup A (Some ss)) = dval ss \<and> pred_option str_ok (stringdup A (Some ss))"
      using stringdup_spec [OF assms(1), of "Some ss"] ok(1) by (simp add: sval_def)
    moreover obtain x where "stringdup A (Some ss) = Some x" "slen x < 0 \<longleftrightarrow> slen ss < 0"
      by (cases "slen ss < 0") (simp_all add: stringdup_def Let_def newrunes_simps newstring_simps)
    ultimately show ?thesis using False by (auto simp: sval_def)
  qed
  have p: "p = snext st" and st1: "st1 = st\<lparr>sblk := (sblk st)(snext st \<mapsto> (1, ?ns), q \<mapsto> (n - 1, ss)), snext := snext st + 1\<rparr>"
    using assms(3,4) by (auto simp: splitc_def salloc_str_def Let_def the_str_def ref_of_def)
  have "store_ok st1" using assms(2) ns ok by (auto simp: store_ok_def st1 less_Suc_eq)
  then show ?thesis using ns ok(2) by (auto simp: p st1 ref_of_def the_str_def)
qed

lemma sdestroy_other: "x \<noteq> p \<Longrightarrow> sblk (sdestroy (Some p) st) x = sblk st x"
  by (auto simp: sdestroy_def split: option.splits)

lemma sdestroy_None [simp]: "sdestroy None st = st"
  by (simp add: sdestroy_def)

lemma sdestroy_next [simp]: "snext (sdestroy d st) = snext st"
  by (auto simp: sdestroy_def split: option.splits)

lemma store_ok_destroy: "store_ok st \<Longrightarrow> store_ok (sdestroy d st)"
  by (auto simp: sdestroy_def store_ok_def split: option.splits if_splits)

lemma store_ok_assigned:
  assumes "store_ok st" and "assigned st p val (st', p', e)"
  shows "store_ok st'"
proof -
  from assms(2) obtain n s where a: "\<forall>x. x \<noteq> p' \<longrightarrow> sblk st' x = sblk st x" "sblk st' p' = Some (n, s)"
    "str_ok s" "snext st \<le> snext st'" "p' < snext st'"
    by (auto simp: assigned_def)
  show ?thesis unfolding store_ok_def
  proof (intro allI impI)
    fix x k t
    assume x: "sblk st' x = Some (k, t)"
    show "x < snext st' \<and> str_ok t"
    proof (cases "x = p'")
      case True
      with a x show ?thesis by simp
    next
      case False
      with a(1) x have "sblk st x = Some (k, t)" by simp
      with assms(1) have "x < snext st \<and> str_ok t" unfolding store_ok_def by blast
      with a(4) show ?thesis by simp
    qed
  qed
qed

lemma insc_Some: "insc A r v (Some q) st =
    (if ref_of st q > 1 \<or> sint r \<ge> 0x80
     then (case splitc A q (sint r \<ge> 0x80) st of (p, st1) \<Rightarrow> insc_done (Some p) (insc_str A r (unat v) p st1))
     else insc_done (Some q) (insc_str A r (unat v) q st))"
  by (cases "splitc A q (sint r \<ge> 0x80) st") (simp add: insc_def Let_def)

lemma insc_done_spec:
  assumes "assigned st p val res" and "ref_of st p = 1"
  shows "\<exists>st' p' s. insc_done (Some p) res = (st', Some p', None) \<and> sblk st' p' = Some (1, s) \<and>
    dval s = val \<and> (\<forall>x. x \<noteq> p \<longrightarrow> x < snext st \<longrightarrow> sblk st' x = sblk st x) \<and>
    (store_ok st \<longrightarrow> store_ok st')"
proof -
  obtain st2 p2 e where r: "res = (st2, p2, e)" by (cases res)
  from assms obtain n s where a: "e = None" "p2 = p \<or> p2 = snext st"
    "\<forall>x. x \<noteq> p2 \<longrightarrow> sblk st2 x = sblk st x" "sblk st2 p2 = Some (1, s)" "dval s = val"
    unfolding r assigned_def by auto
  note ok = store_ok_assigned [OF _ assms(1) [unfolded r]]
  show ?thesis
  proof (cases "p2 = p")
    case True
    with a ok r show ?thesis by (auto simp: insc_done_def)
  next
    case False
    have "insc_done (Some p) res = (sdestroy (Some p) st2, Some p2, None)"
      using False a(1) r by (simp add: insc_done_def)
    moreover have "sblk (sdestroy (Some p) st2) p2 = Some (1, s)"
      using False a(4) by (simp add: sdestroy_other)
    moreover have "sblk (sdestroy (Some p) st2) x = sblk st x" if "x \<noteq> p" "x < snext st" for x
      using that a(2,3) False by (simp add: sdestroy_other)
    ultimately show ?thesis using a(5) ok store_ok_destroy by blast
  qed
qed

text \<open>On an empty string that is not nil the copy made for a non-ASCII character is not in rune
  form, so the character is stored in a byte: the variable ends up with a string of the low eight
  bits, and not with the character assigned.\<close>

lemma insc_empty_truncates:
  assumes "alloc_ok A" and "store_ok st" and "sblk st q = Some (n, ss)" and "slen ss = 0"
    and "0x80 \<le> sint r"
  shows "\<exists>st' p s. insc A r 0 (Some q) st = (st', Some p, None) \<and> sblk st' p = Some (1, s) \<and>
    dval s = [ucast (ucast r :: u8)] \<and> sblk st' q = Some (n - 1, ss) \<and>
    (\<forall>x. x \<noteq> q \<longrightarrow> x < snext st \<longrightarrow> sblk st' x = sblk st x)"
proof -
  let ?ns = "newstring A 0"
  let ?ms = "?ns\<lparr>sascii := memput (sascii ?ns) 0 []\<rparr>"
  define st1 where "st1 = st\<lparr>sblk := (sblk st)(snext st \<mapsto> (1, ?ms), q \<mapsto> (n - 1, ss)), snext := snext st + 1\<rparr>"
  have q: "q < snext st" using assms(2,3) by (auto simp: store_ok_def)
  have sp: "splitc A q True st = (snext st, st1)"
    using assms(3,4)
    by (simp add: splitc_def stringdup_def Let_def the_str_def ref_of_def salloc_str_def st1_def)
  have t: "the_str st1 (snext st) = ?ms" "ref_of st1 (snext st) = 1" "snext st1 = snext st + 1"
    "sblk st1 (snext st) = Some (1, ?ms)"
    using q by (simp_all add: the_str_def ref_of_def st1_def)
  have insc: "insc A r 0 (Some q) st = insc_done (Some (snext st)) (insc_str A r 0 (snext st) st1)"
    using assms(5) sp by (simp add: insc_Some)
  show ?thesis
  proof (cases "0 < room A 0")
    case True
    let ?s = "?ms\<lparr>slen := 1, sascii := (sascii ?ms)[0 := ucast r]\<rparr>"
    have "insc A r 0 (Some q) st = (put_str (snext st) ?s st1, Some (snext st), None)"
      using True by (simp add: insc insc_str_def insc_ascii_def t Let_def newstring_simps insc_done_def)
    moreover have "dval ?s = [ucast (ucast r :: u8)]"
      using True by (cases "sascii ?ms") (auto simp: memput_def newstring_def dval_def)
    ultimately show ?thesis using q t(2) by (auto simp: put_str_def ref_of_def st1_def)
  next
    case False
    let ?s = "(newstring A 1)\<lparr>sascii := (memput (sascii (newstring A 1)) 0 [])[0 := ucast r], slen := 1\<rparr>"
    have "0 < room A 1" using alloc_room(1) [OF assms(1), of 1] by linarith
    then have d: "dval ?s = [ucast (ucast r :: u8)]"
      by (cases "sascii (newstring A 1)") (auto simp: memput_def newstring_def dval_def)
    have "insc A r 0 (Some q) st =
        (sdestroy (Some (snext st)) (snd (salloc_str ?s st1)), Some (snext st + 1), None)"
      using False by (simp add: insc insc_str_def insc_ascii_def t Let_def newstring_simps insc_done_def salloc_str_def)
    then show ?thesis using d q by (auto simp: salloc_str_def t sdestroy_def st1_def)
  qed
qed

lemma insc_ordinary:
  assumes "alloc_ok A" and "store_ok st" and "sblk st q = Some (n, ss)" and "0 < n"
    and "unat v \<le> length (dval ss)" and "0 \<le> sint r" and "sint r < 0x80 \<or> slen ss \<noteq> 0"
  shows "\<exists>st' p s. insc A r v (Some q) st = (st', Some p, None) \<and> sblk st' p = Some (1, s) \<and>
    (dval s = put_char (dval ss) (unat v) (ucast r) \<and> store_ok st') \<and>
    (1 < n \<longrightarrow> sblk st' q = Some (n - 1, ss)) \<and>
    (\<forall>x. x \<noteq> q \<longrightarrow> x < snext st \<longrightarrow> sblk st' x = sblk st x)"
proof -
  have q: "ref_of st q = n" "the_str st q = ss" "q < snext st" "str_ok ss"
    using assms(2,3) by (auto simp: ref_of_def the_str_def store_ok_def)
  show ?thesis
  proof (cases "n > 1 \<or> sint r \<ge> 0x80")
    case True
    obtain p st1 where sp: "splitc A q (sint r \<ge> 0x80) st = (p, st1)" by fastforce
    note s = splitc_spec [OF assms(1-3) sp]
    then obtain t where t: "sblk st1 p = Some (1, t)" "the_str st1 p = t"
      by (auto simp: ref_of_def the_str_def split: option.splits)
    with s have "p < snext st1" "str_ok (the_str st1 p)" by (auto simp: store_ok_def)
    moreover have "sint r < 0x80 \<or> slen (the_str st1 p) < 0" using s assms(7) by linarith
    moreover have dv: "dval (the_str st1 p) = dval ss" using s by blast
    ultimately have "assigned st1 p (put_char (dval ss) (unat v) (ucast r)) (insc_str A r (unat v) p st1)"
      using insc_str_spec [OF assms(1), of p st1 "unat v" r] assms(5,6) dv by simp
    from insc_done_spec [OF this] s obtain st' p' u where
      d: "insc_done (Some p) (insc_str A r (unat v) p st1) = (st', Some p', None)"
      "sblk st' p' = Some (1, u)" "dval u = put_char (dval ss) (unat v) (ucast r)"
      "\<forall>x. x \<noteq> p \<longrightarrow> x < snext st1 \<longrightarrow> sblk st' x = sblk st1 x" "store_ok st'" by auto
    have "insc A r v (Some q) st = (st', Some p', None)"
      using True q(1) sp d(1) by (simp add: insc_Some)
    with d s q(3) show ?thesis by (intro exI [of _ st'] exI [of _ p'] exI [of _ u]) auto
  next
    case False
    then have n1: "ref_of st q = 1" using q(1) assms(4) by simp
    have "assigned st q (put_char (dval ss) (unat v) (ucast r)) (insc_str A r (unat v) q st)"
      using insc_str_spec [OF assms(1), of q st "unat v" r] q assms(5,6) False by auto
    from insc_done_spec [OF this n1] obtain st' p' u where
      d: "insc_done (Some q) (insc_str A r (unat v) q st) = (st', Some p', None)"
      "sblk st' p' = Some (1, u)" "dval u = put_char (dval ss) (unat v) (ucast r)"
      "\<forall>x. x \<noteq> q \<longrightarrow> x < snext st \<longrightarrow> sblk st' x = sblk st x" "store_ok st'"
      using assms(2) by auto
    have "insc A r v (Some q) st = (st', Some p', None)"
      using False q(1) d(1) by (simp add: insc_Some)
    with d False show ?thesis by (intro exI [of _ st'] exI [of _ p'] exI [of _ u]) auto
  qed
qed

section \<open>Properties\<close>

text \<open>
  C12. Assigning a character is copy on write. The variable holds a non-nil string, the index lies
  in it or just past its end, and the character is non-negative (its low 16 bits are stored). The
  variable's new string has a reference count of one; every other string is untouched, and a
  string shared with other variables keeps its value and loses one reference. The new string is
  the old one with the character replaced or appended, but for one case: a non-ASCII character put
  in an empty string, of which only the low eight bits are stored.\<close>

theorem insc_copy_on_write:
  assumes "alloc_ok A" and "store_ok st" and "sblk st q = Some (n, ss)" and "0 < n"
    and "unat v \<le> length (dval ss)" and "0 \<le> sint r"
  shows "\<exists>st' p s. insc A r v (Some q) st = (st', Some p, None) \<and> sblk st' p = Some (1, s) \<and>
    (if slen ss = 0 \<and> 0x80 \<le> sint r then dval s = [ucast (ucast r :: u8)]
     else dval s = put_char (dval ss) (unat v) (ucast r) \<and> store_ok st') \<and>
    (1 < n \<longrightarrow> sblk st' q = Some (n - 1, ss)) \<and>
    (\<forall>x. x \<noteq> q \<longrightarrow> x < snext st \<longrightarrow> sblk st' x = sblk st x)"
proof (cases "slen ss = 0 \<and> 0x80 \<le> sint r")
  case True
  then have "dval ss = []" by (simp add: dval_def)
  with assms(5) have "v = 0" by (simp add: unat_eq_0)
  with insc_empty_truncates [OF assms(1-3), of r] True show ?thesis by auto
next
  case False
  then have "sint r < 0x80 \<or> slen ss \<noteq> 0" by linarith
  from insc_ordinary [OF assms this] False show ?thesis by (simp only: if_False)
qed

text \<open>A concrete allocator and strings for the witnesses.\<close>

definition wit_alloc :: salloc where
  "wit_alloc = \<lparr>room = (\<lambda>nb. nb + 3), junk8 = (\<lambda>_. 7), junk16 = (\<lambda>_. 7)\<rparr>"

definition ab :: dstring where
  "ab = \<lparr>slen = 2, smax = 2, sascii = [97, 98], srune = []\<rparr>"

definition wit_store :: sstore where
  "wit_store = \<lparr>sblk = [0 \<mapsto> (2, ab)], snext = 1\<rparr>"

lemma wit_ok [simp]: "alloc_ok wit_alloc" "store_ok wit_store" "sblk wit_store 0 = Some (2, ab)" "str_ok ab"
  "dval ab = [97, 98]" "slen ab = 2"
  by (auto simp: alloc_ok_def wit_alloc_def store_ok_def wit_store_def str_ok_def ab_def Runeself_def
      dval_def split: if_splits)

theorem insc_copy_on_write_witness:
  "(\<exists>st' p s. insc wit_alloc 0x263A 1 (Some 0) wit_store = (st', Some p, None) \<and>
     sblk st' p = Some (1, s) \<and> dval s = [97, 0x263A] \<and> sblk st' 0 = Some (1, ab)) \<and>
   (\<exists>st' p s. insc wit_alloc 0x263A 0 (Some 0) \<lparr>sblk = [0 \<mapsto> (1, ab\<lparr>slen := 0\<rparr>)], snext = 1\<rparr> =
     (st', Some p, None) \<and> sblk st' p = Some (1, s) \<and> dval s = [0x3A])"
proof (rule conjI)
  have "unat (1 :: u32) \<le> length (dval ab)" "0 \<le> sint (0x263A :: u32)" by simp_all
  from insc_copy_on_write [OF wit_ok(1-3) _ this]
  show "\<exists>st' p s. insc wit_alloc 0x263A 1 (Some 0) wit_store = (st', Some p, None) \<and>
     sblk st' p = Some (1, s) \<and> dval s = [97, 0x263A] \<and> sblk st' 0 = Some (1, ab)"
    by (auto simp: put_char_def)
next
  let ?st = "\<lparr>sblk = [0 \<mapsto> (1 :: nat, ab\<lparr>slen := 0\<rparr>)], snext = 1\<rparr>"
  have "store_ok ?st" "sblk ?st 0 = Some (1, ab\<lparr>slen := 0\<rparr>)" "unat (0 :: u32) \<le> length (dval (ab\<lparr>slen := 0\<rparr>))"
    "0 \<le> sint (0x263A :: u32)" "(0 :: nat) < 1"
    by (auto simp: store_ok_def str_ok_def ab_def split: if_splits)
  from insc_copy_on_write [OF wit_ok(1) this(1,2,5,3,4)]
  show "\<exists>st' p s. insc wit_alloc 0x263A 0 (Some 0) ?st = (st', Some p, None) \<and> sblk st' p = Some (1, s) \<and>
    dval s = [0x3A]" by auto
qed

lemma opt_str_ok: "store_ok st \<Longrightarrow> (case m of None \<Rightarrow> True | Some p \<Rightarrow> sblk st p \<noteq> None) \<Longrightarrow>
    pred_option str_ok (opt_str st m)"
  by (cases m) (auto simp: opt_str_def the_str_def store_ok_def)

lemma set_str_spec:
  assumes "store_ok st" and "pred_option str_ok ns" and "set_str ns d st = (st', d')"
    and "case d of None \<Rightarrow> True | Some p \<Rightarrow> sblk st p \<noteq> None"
  shows "sval (opt_str st' d') = sval ns \<and> store_ok st' \<and>
    (\<forall>x. Some x \<noteq> d \<longrightarrow> x < snext st \<longrightarrow> sblk st' x = sblk st x)"
proof (cases ns)
  case None
  then show ?thesis using assms(1,3) store_ok_destroy [OF assms(1), of d]
    by (cases d) (auto simp: set_str_def opt_str_def sval_def sdestroy_other)
next
  case (Some s)
  let ?st1 = "st\<lparr>sblk := (sblk st)(snext st \<mapsto> (1, s)), snext := snext st + 1\<rparr>"
  have r: "st' = sdestroy d ?st1" "d' = Some (snext st)"
    using assms(3) Some by (simp_all add: set_str_def salloc_str_def)
  have "store_ok ?st1" using assms(1,2) Some by (auto simp: store_ok_def less_Suc_eq)
  then have ok: "store_ok st'" unfolding r by (rule store_ok_destroy)
  have d: "d \<noteq> Some (snext st)" using assms(1,4) by (auto simp: store_ok_def split: option.splits)
  have "sblk st' x = sblk ?st1 x" if "Some x \<noteq> d" for x
    using that by (cases d) (auto simp: r sdestroy_other)
  with d ok Some show ?thesis by (auto simp: r(2) opt_str_def sval_def the_str_def)
qed

text \<open>C19. Concatenation, on every mix of representations: \<open>addc\<close> leaves in the destination the
  characters of the middle operand followed by those of the source, in a fresh string in order,
  even when the destination is one of the operands; the strings held elsewhere are untouched.\<close>

theorem addc_concatenates:
  assumes "alloc_ok A" and "store_ok st"
    and "\<forall>p \<in> set_option m \<union> set_option s \<union> set_option d. sblk st p \<noteq> None"
    and "addc A m s d st = (st', d')"
  shows "sval (opt_str st' d') = sval (opt_str st m) @ sval (opt_str st s) \<and> store_ok st' \<and>
    (\<forall>x. Some x \<noteq> d \<longrightarrow> x < snext st \<longrightarrow> sblk st' x = sblk st x)"
proof -
  have "pred_option str_ok (opt_str st m)" "pred_option str_ok (opt_str st s)"
    using assms(3) by (auto intro!: opt_str_ok [OF assms(2)] split: option.splits)
  note a = addstring_spec [OF assms(1) this]
  show ?thesis
    using set_str_spec [OF assms(2) conjunct2 [OF a], of d st' d'] a assms(3,4)
    by (auto simp: addc_def split: option.splits)
qed

theorem addc_concatenates_witness:
  "\<exists>st' d'. addc wit_alloc (Some 0) (Some 0) (Some 0) wit_store = (st', d') \<and>
     sval (opt_str st' d') = [97, 98, 97, 98]"
proof -
  obtain st' d' where r: "addc wit_alloc (Some 0) (Some 0) (Some 0) wit_store = (st', d')" by fastforce
  have "\<forall>p \<in> set_option (Some 0) \<union> set_option (Some 0) \<union> set_option (Some 0). sblk wit_store p \<noteq> None"
    by simp
  moreover have "sval (opt_str wit_store (Some 0)) = [97, 98]"
    by (simp add: opt_str_def the_str_def sval_def)
  ultimately show ?thesis using addc_concatenates [OF wit_ok(1,2) _ r] r by auto
qed

text \<open>Slicing: \<open>slicer\<close> returns the characters from \<open>start\<close> up to \<open>v\<close> exactly when
  \<open>start <= v <= len\<close>, in the representation of the source, and raises the bounds error
  otherwise.\<close>

theorem slicer_slices:
  assumes "alloc_ok A" and "pred_option str_ok s"
  shows "case slicer A start v s of
      Inr ns \<Rightarrow> start \<le> v \<and> unat v \<le> length (sval s) \<and> pred_option str_ok ns \<and>
        sval ns = take (unat v - unat start) (drop (unat start) (sval s))
    | Inl e \<Rightarrow> e = Raise Tbounds \<and> (v < start \<or> length (sval s) < unat v)"
  by (rule slicer_spec [OF assms])

theorem slicer_slices_witness:
  "\<exists>ns. slicer wit_alloc 1 2 (Some ab) = Inr ns \<and> sval ns = [98]"
proof -
  have "pred_option str_ok (Some ab)" by simp
  from slicer_slices [OF wit_ok(1) this, where start = 1 and v = 2] show ?thesis
    by (auto simp: sval_def [of "Some ab"] split: sum.splits)
qed





text \<open>Two strings in byte form that agree up to a NUL compare equal when they have the same
  length, whatever follows the NUL: \<open>strncmp\<close> stops there.\<close>

theorem stringcmp_stops_at_nul:
  assumes "slen s1 = int (length (p @ xs))" and "sascii s1 = p @ xs"
    and "slen s2 = int (length (p @ ys))" and "sascii s2 = p @ ys"
    and "0 \<in> set p" and "length xs = length ys"
  shows "stringcmp (Some s1) (Some s2) = 0"
  using assms by (simp add: stringcmp_def Let_def strncmp_nul)

theorem stringcmp_stops_at_nul_witness:
  "stringcmp (Some \<lparr>slen = 3, smax = 3, sascii = [97, 0, 98], srune = []\<rparr>)
     (Some \<lparr>slen = 3, smax = 3, sascii = [97, 0, 99], srune = []\<rparr>) = 0"
  by (rule stringcmp_stops_at_nul [where p = "[97, 0]" and xs = "[98]" and ys = "[99]"]) simp_all

text \<open>\<open>cvtac\<close> reads past the end of the array when it ends inside a character: an array holding
  the first two bytes of a three-byte rune becomes two characters, decoded from the bytes that
  happen to follow the array in memory.\<close>

theorem cvtac_overread:
  assumes "alloc_ok A" and "\<not> ucast r \<le> Rune2"
  shows "sval (cvtac A (Some (runetochar r @ runetochar r2 @ t, 2))) = [r, r2]"
proof -
  have n1: "\<not> ucast r \<le> Rune1" using assms(2) order_trans [of "ucast r" Rune1 Rune2] by (auto simp: rune_consts)
  obtain b0 b1 b2 where b: "runetochar r = [b0, b1, b2]" "\<not> b0 < T3" "\<not> b0 < Tx" "\<not> b1 < Tx"
    using assms(2) n1 lead3_cmp [of r] unfolding runetochar_def Let_def
    by (simp add: lead_lt(1)) (simp add: rune_consts bit_simps)
  let ?mem = "runetochar r @ runetochar r2 @ t"
  have b1': "\<not> fullrune (drop (Suc 0) ?mem) (Suc 0)" and b0': "\<not> fullrune ?mem 2"
    using b by (simp_all add: fullrune_def)
  have u: "utfnlen ?mem 2 = (0, 0)"
    unfolding utfnlen_def by (subst utfnlen_loop.simps)
      (use b b0' in \<open>simp add: lead_self_iff UTFmax_def Let_def\<close>)
  have c: "count_full ?mem 0 2 = 2"
    using b0' b1' by (simp add: count_full.simps numeral_2_eq_2)
  have d: "decode_n 2 ?mem = [r, r2]"
    by (simp add: numeral_2_eq_2 chartorune_runetochar)
  show ?thesis using runes_filled(1) [OF assms(1), of "[r, r2]" 2]
    by (simp add: cvtac_def u c d sval_def Let_def)
qed

theorem cvtac_overread_witness:
  "sval (cvtac wit_alloc (Some (runetochar 0x20AC @ runetochar 0x41 @ [], 2))) = [0x20AC, 0x41]"
  by (rule cvtac_overread) (simp_all add: rune_consts)

end
