(* ===== verification/Fifo.thy ===== *)
theory Fifo
  imports Prelude
begin

text \<open>
  The interface of a byte stream between writers and readers: an operation that may accept data
  and one that may deliver some. A provider promises that accepted data goes in whole at the back,
  refused data leaves no trace, and delivered data comes off the front; the client lemmas are
  about any interleaving of the two.
\<close>

datatype 'b fop = Put "'b list" | Get nat

fun fifo_run :: "('q \<Rightarrow> 'b list \<Rightarrow> 'q \<times> bool) \<Rightarrow> ('q \<Rightarrow> nat \<Rightarrow> 'q \<times> 'b list option) \<Rightarrow>
    'b fop list \<Rightarrow> 'q \<Rightarrow> 'q \<times> 'b list \<times> 'b list"
where
  "fifo_run put get [] q = (q, [], [])"
| "fifo_run put get (Put p # ops) q =
    (case put q p of (q1, ok) \<Rightarrow>
       (case fifo_run put get ops q1 of (q2, ins, outs) \<Rightarrow>
          (q2, (if ok then p @ ins else ins), outs)))"
| "fifo_run put get (Get n # ops) q =
    (case get q n of (q1, r) \<Rightarrow>
       (case fifo_run put get ops q1 of (q2, ins, outs) \<Rightarrow>
          (q2, ins, (case r of Some xs \<Rightarrow> xs @ outs | None \<Rightarrow> outs))))"

locale byte_fifo =
  fixes put :: "'q \<Rightarrow> 'b list \<Rightarrow> 'q \<times> bool"
    and get :: "'q \<Rightarrow> nat \<Rightarrow> 'q \<times> 'b list option"
    and bytes :: "'q \<Rightarrow> 'b list"
    and inv :: "'q \<Rightarrow> bool"
  assumes put_law: "inv q \<Longrightarrow> put q p = (q', ok) \<Longrightarrow>
      inv q' \<and> bytes q' = bytes q @ (if ok then p else [])"
    and get_law: "inv q \<Longrightarrow> get q n = (q', r) \<Longrightarrow>
      inv q' \<and> bytes q = (case r of Some xs \<Rightarrow> xs | None \<Rightarrow> []) @ bytes q' \<and>
      length (case r of Some xs \<Rightarrow> xs | None \<Rightarrow> []) \<le> n"
begin

lemma fifo_order:
  "inv q \<Longrightarrow> fifo_run put get ops q = (q', ins, outs) \<Longrightarrow>
    inv q' \<and> bytes q @ ins = outs @ bytes q'"
proof (induction ops arbitrary: q q' ins outs)
  case Nil
  then show ?case by simp
next
  case (Cons x ops)
  show ?case
  proof (cases x)
    case (Put p)
    obtain q1 ok where 1: "put q p = (q1, ok)" by fastforce
    obtain q2 ins' outs' where 2: "fifo_run put get ops q1 = (q2, ins', outs')"
      by (metis prod_cases3)
    from put_law [OF Cons.prems(1) 1] Cons.IH [OF _ 2] 1 2 Cons.prems Put show ?thesis
      by (auto split: if_splits)
  next
    case (Get n)
    obtain q1 r where 1: "get q n = (q1, r)" by fastforce
    obtain q2 ins' outs' where 2: "fifo_run put get ops q1 = (q2, ins', outs')"
      by (metis prod_cases3)
    from get_law [OF Cons.prems(1) 1] Cons.IH [OF _ 2] 1 2 Cons.prems Get show ?thesis
      by (auto split: option.splits)
  qed
qed

text \<open>What has been read is always a prefix of what was there and was accepted.\<close>

lemma fifo_prefix:
  assumes "inv q" and "fifo_run put get ops q = (q', ins, outs)"
  shows "take (length outs) (bytes q @ ins) = outs"
  using fifo_order [OF assms] by simp

end

end
