(* ===== verification/Steps.thy ===== *)
theory Steps
  imports Prelude
begin

text \<open>
  The contract between a component that runs step by step (the scheduler, a queue with its sleepers, the
  heap, a memory pool) and the properties of its reachable states: the initial states satisfy the
  invariant and every step keeps it.
\<close>

locale machine =
  fixes start :: "'s \<Rightarrow> bool" and step :: "'s \<Rightarrow> 's \<Rightarrow> bool" and inv :: "'s \<Rightarrow> bool"
  assumes start_inv: "start s \<Longrightarrow> inv s"
    and step_inv: "inv s \<Longrightarrow> step s t \<Longrightarrow> inv t"
begin

lemma steps_inv:
  assumes "step\<^sup>*\<^sup>* s t" and "inv s"
  shows "inv t"
  using assms by (induction rule: rtranclp_induct) (auto intro: step_inv)

lemma run_inv:
  assumes "start s" and "step\<^sup>*\<^sup>* s t"
  shows "inv t"
  using steps_inv [OF assms(2) start_inv [OF assms(1)]] .

text \<open>A relation of states that the steps from good states keep holds between the ends of a run.\<close>

lemma run_rel:
  assumes "step\<^sup>*\<^sup>* s t" and "inv s" and "\<And>x. R x x" and "\<And>x y z. inv y \<Longrightarrow> R x y \<Longrightarrow> step y z \<Longrightarrow> R x z"
  shows "R s t"
  using assms(1)
proof (induction rule: rtranclp_induct)
  case base
  show ?case by (rule assms(3))
next
  case (step y z)
  then show ?case using assms(4) steps_inv [OF step.hyps(1) assms(2)] by blast
qed

end

end
