(* ===== verification/Qio.thy ===== *)
theory Qio
  imports Fifo Steps
begin

text \<open>
  Blocks and I/O queues of the emulator (\<^verbatim>\<open>emu/qio.c\<close>), which carry the data of pipes, the
  console, network connections and process status.

  A \<open>Block\<close> is its buffer with the read and write pointers as offsets from \<open>base\<close>; a chain
  \<open>b, b->next, ...\<close> is the list of its blocks, so a queue's \<open>bfirst\<close> is the list and \<open>blast\<close> its
  last element. \<open>malloc\<close> does not fail (\<open>allocb\<close> panics otherwise) and \<open>free\<close> has no visible
  effect. An operation is one step, as it runs under the queue's lock but for two places: the
  flow-control test of \<open>qbwrite\<close>, and \<open>qbread\<close> while it copies a remainder, which is modelled as two steps as well.
  Wakeups and kicks are recorded in \<open>events\<close>, and sleeping is the outcome \<open>Sleeps\<close>, after which the
  caller runs the operation again.
\<close>

section \<open>Blocks\<close>

record block =
  buf :: "u8 list"   \<comment> \<open>the bytes from \<open>base\<close> to \<open>lim\<close>\<close>
  rp :: nat
  wp :: nat

definition BLEN :: "block \<Rightarrow> nat" where "BLEN b = wp b - rp b"

definition bdata :: "block \<Rightarrow> u8 list" where "bdata b = take (BLEN b) (drop (rp b) (buf b))"

definition block_ok :: "block \<Rightarrow> bool" where
  "block_ok b \<longleftrightarrow> rp b \<le> wp b \<and> wp b \<le> length (buf b)"

text \<open>\<open>memmove(b->wp, p, n); b->wp += n\<close>\<close>

definition bput :: "block \<Rightarrow> u8 list \<Rightarrow> block" where
  "bput b p = b\<lparr>buf := take (wp b) (buf b) @ p @ drop (wp b + length p) (buf b),
                wp := wp b + length p\<rparr>"

definition allocb :: "nat \<Rightarrow> block" where
  "allocb sz = \<lparr>buf = replicate sz 0, rp = 0, wp = 0\<rparr>"

definition padblock :: "block \<Rightarrow> int \<Rightarrow> block" where
  "padblock bp n =
    (if n \<ge> 0 then
       (let sz = nat n in
        if rp bp \<ge> sz then bp\<lparr>rp := rp bp - sz\<rparr>
        else let nbp = (allocb (sz + BLEN bp))\<lparr>rp := sz, wp := sz\<rparr>;
                 nbp = bput nbp (bdata bp)
             in nbp\<lparr>rp := rp nbp - sz\<rparr>)
     else
       (let sz = nat (- n) in
        if length (buf bp) - wp bp \<ge> sz then bp
        else bput (allocb (sz + BLEN bp)) (bdata bp)))"

fun blocklen :: "block list \<Rightarrow> nat" where
  "blocklen [] = 0"
| "blocklen (b # bs) = BLEN b + blocklen bs"

definition concatblock :: "block list \<Rightarrow> block" where
  "concatblock bs = foldl (\<lambda>nb f. bput nb (bdata f)) (allocb (blocklen bs)) bs"

fun pullup_loop :: "block \<Rightarrow> nat \<Rightarrow> block list \<Rightarrow> block list option" where
  "pullup_loop bp n [] = None"
| "pullup_loop bp n (nbp # rest) =
    (let i = BLEN nbp in
     if i > n then Some (bput bp (take n (bdata nbp)) # nbp\<lparr>rp := rp nbp + n\<rparr> # rest)
     else let bp' = bput bp (bdata nbp) in
       if n - i = 0 then Some (bp' # rest) else pullup_loop bp' (n - i) rest)"

fun pullupblock :: "block list \<Rightarrow> nat \<Rightarrow> block list option" where
  "pullupblock [] n = None"
| "pullupblock (bp # rest) n =
    (if BLEN bp \<ge> n then Some (bp # rest)
     else if length (buf bp) - rp bp < n then pullup_loop (allocb n) n (bp # rest)
     else pullup_loop bp (n - BLEN bp) rest)"

fun trim_front :: "block list \<Rightarrow> nat \<Rightarrow> block list \<times> nat" where
  "trim_front [] offset = ([], offset)"
| "trim_front (bp # rest) offset =
    (if BLEN bp < offset then trim_front rest (offset - BLEN bp) else (bp # rest, offset))"

fun trim_back :: "block list \<Rightarrow> nat \<Rightarrow> block list" where
  "trim_back [] len = []"
| "trim_back (bp # rest) len =
    (if BLEN bp < len then bp # trim_back rest (len - BLEN bp)
     else [bp\<lparr>wp := wp bp - (BLEN bp - len)\<rparr>])"

definition trimblock :: "block list \<Rightarrow> nat \<Rightarrow> nat \<Rightarrow> block list" where
  "trimblock bs offset len =
    (if blocklen bs < offset + len then []
     else case trim_front bs offset of
       ([], off) \<Rightarrow> []
     | (bp # rest, off) \<Rightarrow> trim_back (bp\<lparr>rp := rp bp + off\<rparr> # rest) len)"

fun copy_loop :: "block \<Rightarrow> nat \<Rightarrow> block list \<Rightarrow> block \<times> nat" where
  "copy_loop nbp count [] = (nbp, count)"
| "copy_loop nbp count (bp # rest) =
    (if count > 0 then
       (let l = min (BLEN bp) count in
        copy_loop (bput nbp (take l (bdata bp))) (count - l) rest)
     else (nbp, count))"

definition copyblock :: "block list \<Rightarrow> nat \<Rightarrow> block" where
  "copyblock bs count =
    (case copy_loop (allocb count) count bs of
       (nbp, c) \<Rightarrow> if c > 0 then bput nbp (replicate c 0) else nbp)"

fun pullblock :: "block list \<Rightarrow> nat \<Rightarrow> block list \<times> nat" where
  "pullblock [] count = ([], 0)"
| "pullblock (bp # rest) count =
    (if count = 0 then (bp # rest, 0)
     else let n = min (BLEN bp) count; bp' = bp\<lparr>rp := rp bp + n\<rparr> in
       if BLEN bp' = 0 then
         (case pullblock rest (count - n) of (bs, bytes) \<Rightarrow> (bs, n + bytes))
       else (bp' # rest, n))"

section \<open>Queues\<close>

datatype qevent = WakeReader | WakeWriter | Kick

record queue =
  bfirst :: "block list"
  qlen :: int
  limit :: int
  inilim :: int
  starve :: bool     \<comment> \<open>\<open>Qstarve\<close>\<close>
  qmsg :: bool       \<comment> \<open>\<open>Qmsg\<close>\<close>
  closed :: bool     \<comment> \<open>\<open>Qclosed\<close>\<close>
  flow :: bool       \<comment> \<open>\<open>Qflow\<close>\<close>
  noblock :: bool
  eof :: nat
  haskick :: bool    \<comment> \<open>\<open>q->kick != 0\<close>\<close>
  err :: string
  events :: "qevent list"

definition qbytes :: "queue \<Rightarrow> u8 list" where "qbytes q = concat (map bdata (bfirst q))"

datatype 'a outcome = Done 'a | Sleeps | Fails string

definition emit :: "qevent list \<Rightarrow> queue \<Rightarrow> queue" where
  "emit es q = q\<lparr>events := events q @ es\<rparr>"

definition wakeif :: "bool \<Rightarrow> qevent list \<Rightarrow> queue \<Rightarrow> queue" where
  "wakeif dowakeup es q = (if dowakeup then emit es q else q)"

definition Ehungup :: string where "Ehungup = ''write to hungup channel''"

text \<open>
  The shared tails of the readers and the writers: \<open>restart\<close> clears flow control when the
  queue has drained below half its limit, \<open>append_block\<close> links a block in at \<open>blast\<close>,
  \<open>unstarve\<close> clears \<open>Qstarve\<close>; both flags tell whether the other side must be woken.
  \<open>deliver\<close> is the writers' critical section, with the wakeup that follows it.
\<close>

definition restart :: "queue \<Rightarrow> queue \<times> bool" where
  "restart q =
    (if flow q \<and> qlen q < limit q div 2 then (q\<lparr>flow := False\<rparr>, True) else (q, False))"

definition append_block :: "block \<Rightarrow> queue \<Rightarrow> queue" where
  "append_block b q = q\<lparr>bfirst := bfirst q @ [b], qlen := qlen q + int (BLEN b)\<rparr>"

definition unstarve :: "queue \<Rightarrow> queue \<times> bool" where
  "unstarve q = (if starve q then (q\<lparr>starve := False\<rparr>, True) else (q, False))"

definition deliver :: "qevent list \<Rightarrow> block \<Rightarrow> queue \<Rightarrow> queue" where
  "deliver es b q =
    (case unstarve (append_block b q) of (q1, dowakeup) \<Rightarrow> wakeif dowakeup es q1)"

definition qopen :: "int \<Rightarrow> bool \<Rightarrow> bool \<Rightarrow> queue" where
  "qopen lim msg kick =
    \<lparr>bfirst = [], qlen = 0, limit = lim, inilim = lim, starve = True, qmsg = msg,
     closed = False, flow = False, noblock = False, eof = 0, haskick = kick, err = [], events = []\<rparr>"

definition qget :: "queue \<Rightarrow> queue \<times> block option" where
  "qget q =
    (case bfirst q of
       [] \<Rightarrow> (q\<lparr>starve := True\<rparr>, None)
     | b # rest \<Rightarrow>
        (let q1 = q\<lparr>bfirst := rest, qlen := qlen q - int (BLEN b)\<rparr>;
             (q2, dowakeup) = restart q1
         in (wakeif dowakeup [WakeWriter] q2, Some b)))"

fun discard_loop :: "block list \<Rightarrow> int \<Rightarrow> nat \<Rightarrow> block list \<times> int" where
  "discard_loop [] qln len = ([], qln)"
| "discard_loop (b # rest) qln len =
    (let n = BLEN b in
     if n > len then (b\<lparr>rp := rp b + len\<rparr> # rest, qln)
     else discard_loop rest (qln - int n) (len - n))"

definition qdiscard :: "queue \<Rightarrow> nat \<Rightarrow> queue" where
  "qdiscard q len =
    (case discard_loop (bfirst q) (qlen q) len of (bs, n) \<Rightarrow> q\<lparr>bfirst := bs, qlen := n\<rparr>)"

fun drop_empty :: "block list \<Rightarrow> block list" where
  "drop_empty [] = []"
| "drop_empty (b # rest) = (if BLEN b > 0 then b # rest else drop_empty rest)"

definition qconsume :: "queue \<Rightarrow> nat \<Rightarrow> queue \<times> u8 list option" where
  "qconsume q len =
    (case drop_empty (bfirst q) of
       [] \<Rightarrow> (q\<lparr>bfirst := [], starve := True\<rparr>, None)
     | b # rest \<Rightarrow>
        (let n = BLEN b; l = (if n < len then n else len);
             p = take l (bdata b);
             bs = (if qmsg q \<or> l = n then rest else b\<lparr>rp := rp b + l\<rparr> # rest);
             q1 = q\<lparr>bfirst := bs, qlen := qlen q - int l\<rparr>;
             (q2, dowakeup) = restart q1
         in (wakeif dowakeup [WakeWriter] q2, Some p)))"

definition qpass :: "queue \<Rightarrow> block \<Rightarrow> queue \<times> nat" where
  "qpass q b =
    (let q1 = append_block b q;
         q2 = (if qlen q1 \<ge> limit q1 div 2 then q1\<lparr>flow := True\<rparr> else q1);
         (q3, dowakeup) = unstarve q2
     in (wakeif dowakeup [WakeReader] q3, BLEN b))"

definition qproduce :: "queue \<Rightarrow> u8 list \<Rightarrow> queue \<times> int" where
  "qproduce q p =
    (if qlen q \<ge> limit q then (q\<lparr>flow := True\<rparr>, - 1)
     else (deliver [WakeReader] (bput (allocb (length p)) p) q, int (length p)))"


text \<open>\<open>qcopy\<close>: skip to the block holding \<open>offset\<close>, then copy up to \<open>len\<close> bytes.\<close>

fun qcopy_seek :: "block list \<Rightarrow> nat \<Rightarrow> nat \<Rightarrow> (u8 list \<times> block list) option" where
  "qcopy_seek [] sofar offset = None"
| "qcopy_seek (b # rest) sofar offset =
    (let n = BLEN b in
     if sofar + n > offset then Some (drop (offset - sofar) (bdata b), rest)
     else qcopy_seek rest (sofar + n) offset)"

fun qcopy_loop :: "block \<Rightarrow> nat \<Rightarrow> nat \<Rightarrow> u8 list \<Rightarrow> block list \<Rightarrow> block" where
  "qcopy_loop nb sofar len p rest =
    (if sofar < len then
       (let n = min (length p) (len - sofar); nb' = bput nb (take n p) in
        case rest of [] \<Rightarrow> nb' | b # rest' \<Rightarrow> qcopy_loop nb' (sofar + n) len (bdata b) rest')
     else nb)"

definition qcopy :: "queue \<Rightarrow> nat \<Rightarrow> nat \<Rightarrow> block" where
  "qcopy q len offset =
    (case qcopy_seek (bfirst q) 0 offset of
       None \<Rightarrow> allocb len
     | Some (p, rest) \<Rightarrow> qcopy_loop (allocb len) 0 len p rest)"

definition notempty :: "queue \<Rightarrow> bool" where
  "notempty q \<longleftrightarrow> closed q \<or> bfirst q \<noteq> []"

text \<open>
  \<open>qbread\<close> runs in two critical sections: \<open>qbread_take\<close> removes the first block, and when it is
  too long for the reader of a byte stream, \<open>qbread_putback\<close> returns the remainder to the front;
  between the two the lock is free and a writer may run. A closed, empty queue gives the
  nil block for the first three reads and raises \<open>q->err\<close> from then on.
\<close>

definition qbread_take :: "queue \<Rightarrow> nat \<Rightarrow> queue \<times> (block \<times> bool) option outcome" where
  "qbread_take q len =
    (case bfirst q of
       [] \<Rightarrow>
        (if closed q then
           (let q1 = q\<lparr>eof := eof q + 1\<rparr>
            in if eof q1 > 3 then (q1, Fails (err q1)) else (q1, Done None))
         else (q\<lparr>starve := True\<rparr>, Sleeps))
     | b # rest \<Rightarrow>
        (let q1 = q\<lparr>bfirst := rest, qlen := qlen q - int (BLEN b)\<rparr>;
             (q2, dowakeup) = restart q1
         in (q2, Done (Some (b, dowakeup)))))"

definition qbread_putback :: "queue \<Rightarrow> block \<Rightarrow> nat \<Rightarrow> queue \<times> block" where
  "qbread_putback q nb len =
    (let n = BLEN nb in
     if n > len then
       ((if qmsg q then q
         else let r = bput (allocb (n - len)) (drop len (bdata nb))
              in q\<lparr>bfirst := r # bfirst q, qlen := qlen q + int (n - len)\<rparr>),
        nb\<lparr>wp := rp nb + len\<rparr>)
     else (q, nb))"

definition qbread_wake :: "bool \<Rightarrow> queue \<Rightarrow> queue" where
  "qbread_wake dowakeup q =
    wakeif dowakeup (if haskick q then [Kick, WakeWriter] else [WakeWriter]) q"

definition qbread :: "queue \<Rightarrow> nat \<Rightarrow> queue \<times> block option outcome" where
  "qbread q len =
    (case qbread_take q len of
       (q1, Done (Some (b, w))) \<Rightarrow>
         (case qbread_putback q1 b len of (q2, nb) \<Rightarrow> (qbread_wake w q2, Done (Some nb)))
     | (q1, Done None) \<Rightarrow> (q1, Done None)
     | (q1, Sleeps) \<Rightarrow> (q1, Sleeps)
     | (q1, Fails e) \<Rightarrow> (q1, Fails e))"

definition qread :: "queue \<Rightarrow> nat \<Rightarrow> queue \<times> u8 list outcome" where
  "qread q len =
    (case qbread q len of
       (q1, Done None) \<Rightarrow> (q1, Done [])
     | (q1, Done (Some b)) \<Rightarrow> (q1, Done (bdata b))
     | (q1, Sleeps) \<Rightarrow> (q1, Sleeps)
     | (q1, Fails e) \<Rightarrow> (q1, Fails e))"

definition qnotfull :: "queue \<Rightarrow> bool" where
  "qnotfull q \<longleftrightarrow> qlen q < limit q \<or> closed q"

text \<open>
  The loop \<open>while(!qnotfull(q))\<close> runs under \<open>q->wlock\<close>, which only writers take, and not under \<open>q->l\<close>: its
  test and the setting of \<open>Qflow\<close> are one step here together with the rest. \<open>Sleep\<close> tests \<open>qnotfull\<close> again.
\<close>

definition qbwrite :: "queue \<Rightarrow> block \<Rightarrow> queue \<times> nat outcome" where
  "qbwrite q b =
    (if \<not> qnotfull q then
       (if noblock q then (q, Done (BLEN b)) else (q\<lparr>flow := True\<rparr>, Sleeps))
     else if closed q then (q, Fails (err q))
     else
       (deliver (if haskick q then [Kick, WakeReader] else [WakeReader]) b q, Done (BLEN b)))"

text \<open>
  \<open>qwrite\<close> cuts the data into blocks of at most \<open>chunk\<close> (\<open>128*1024\<close>) bytes; a message queue
  gets one block only. When the queue fills up, the outcome is \<open>Sleeps\<close> after the blocks that fit.
\<close>

definition chunk :: nat where "chunk = 128 * 1024"

function qwrite_loop :: "queue \<Rightarrow> u8 list \<Rightarrow> nat \<Rightarrow> queue \<times> nat outcome" where
  "qwrite_loop q p sofar =
    (let n = min (length p - sofar) chunk;
         b = bput (allocb n) (take n (drop sofar p))
     in case qbwrite q b of
       (q1, Done _) \<Rightarrow>
         (if sofar + n < length p \<and> \<not> qmsg q1 then qwrite_loop q1 p (sofar + n)
          else (q1, Done (length p)))
     | (q1, Sleeps) \<Rightarrow> (q1, Sleeps)
     | (q1, Fails e) \<Rightarrow> (q1, Fails e))"
  by pat_completeness auto
termination
  by (relation "measure (\<lambda>(q, p, sofar). length p - sofar)") (auto simp: chunk_def)

definition qwrite :: "queue \<Rightarrow> u8 list \<Rightarrow> queue \<times> nat outcome" where
  "qwrite q p = qwrite_loop q p 0"

function qiwrite_loop :: "queue \<Rightarrow> u8 list \<Rightarrow> nat \<Rightarrow> bool \<Rightarrow> queue" where
  "qiwrite_loop q p sofar dowakeup =
    (let n = min (length p - sofar) chunk;
         q1 = append_block (bput (allocb n) (take n (drop sofar p))) q;
         (q2, starved) = unstarve q1;
         w = (dowakeup \<or> starved);
         q3 = wakeif w (if haskick q then [Kick, WakeReader] else [WakeReader]) q2
     in if sofar + n < length p \<and> \<not> qmsg q3 then qiwrite_loop q3 p (sofar + n) w else q3)"
  by pat_completeness auto
termination
  by (relation "measure (\<lambda>(q, p, sofar, w). length p - sofar)") (auto simp: chunk_def)

definition qiwrite :: "queue \<Rightarrow> u8 list \<Rightarrow> queue \<times> nat" where
  "qiwrite q p = (qiwrite_loop q p 0 False, length p)"

definition qclose :: "queue \<Rightarrow> queue" where
  "qclose q =
    emit [WakeReader, WakeWriter]
      (q\<lparr>closed := True, err := Ehungup, bfirst := [], qlen := 0, noblock := False\<rparr>)"

text \<open>\<open>strncpy(q->err, msg, ERRLEN-1)\<close>: at most 63 characters.\<close>

definition qhangup :: "queue \<Rightarrow> string \<Rightarrow> queue" where
  "qhangup q msg =
    emit [WakeReader, WakeWriter]
      (q\<lparr>closed := True, err := (if msg = [] then Ehungup else take 63 msg)\<rparr>)"

definition qreopen :: "queue \<Rightarrow> queue" where
  "qreopen q = q\<lparr>closed := False, starve := True, eof := 0, limit := inilim q\<rparr>"

definition qwindow :: "queue \<Rightarrow> int" where
  "qwindow q = (let l = limit q - qlen q in if l < 0 then 0 else l)"

definition qcanread :: "queue \<Rightarrow> bool" where "qcanread q \<longleftrightarrow> bfirst q \<noteq> []"

definition qsetlimit :: "queue \<Rightarrow> int \<Rightarrow> queue" where "qsetlimit q lim = q\<lparr>limit := lim\<rparr>"

definition qnoblock :: "queue \<Rightarrow> bool \<Rightarrow> queue" where "qnoblock q onoff = q\<lparr>noblock := onoff\<rparr>"

definition qflush :: "queue \<Rightarrow> queue" where
  "qflush q = emit [WakeWriter] (q\<lparr>bfirst := [], qlen := 0\<rparr>)"

definition qfull :: "queue \<Rightarrow> bool" where "qfull q = flow q"

definition qstate :: "queue \<Rightarrow> nat" where
  "qstate q = of_bool (starve q) * 2 ^ 0 + of_bool (qmsg q) * 2 ^ 1
     + of_bool (closed q) * 2 ^ 2 + of_bool (flow q) * 2 ^ 3"

definition qclosed :: "queue \<Rightarrow> bool" where "qclosed q = closed q"

declare qwrite_loop.simps [simp del] qiwrite_loop.simps [simp del]

section \<open>Lemmas on blocks\<close>

named_theorems block_simps \<open>contents and sizes of blocks\<close>

lemma length_bdata [block_simps]: "block_ok b \<Longrightarrow> length (bdata b) = BLEN b"
  by (auto simp: bdata_def block_ok_def BLEN_def)

lemma allocb_simps [block_simps]:
  "block_ok (allocb n)" "bdata (allocb n) = []" "BLEN (allocb n) = 0"
  "wp (allocb n) = 0" "rp (allocb n) = 0" "length (buf (allocb n)) = n"
  by (simp_all add: allocb_def block_ok_def bdata_def BLEN_def)

lemma bput_simps [block_simps]:
  assumes "block_ok b" and "wp b + length p \<le> length (buf b)"
  shows "block_ok (bput b p)" "bdata (bput b p) = bdata b @ p" "BLEN (bput b p) = BLEN b + length p"
    "length (buf (bput b p)) = length (buf b)" "wp (bput b p) = wp b + length p" "rp (bput b p) = rp b"
proof -
  have w: "rp b \<le> wp b" "wp b \<le> length (buf b)" using assms(1) by (auto simp: block_ok_def)
  show "bdata (bput b p) = bdata b @ p"
    using w assms(2) by (auto simp: bput_def bdata_def BLEN_def drop_take)
qed (use assms in \<open>auto simp: bput_def block_ok_def BLEN_def\<close>)

lemma filled_block [block_simps]:
  "block_ok (bput (allocb (length p)) p)" "bdata (bput (allocb (length p)) p) = p"
  "BLEN (bput (allocb (length p)) p) = length p"
  by (simp_all add: block_simps)

lemma filled_block' [block_simps]:
  assumes "length p = n"
  shows "block_ok (bput (allocb n) p)" "bdata (bput (allocb n) p) = p" "BLEN (bput (allocb n) p) = n"
  using filled_block [of p] assms by simp_all

lemma advance_simps [block_simps]:
  assumes "block_ok b" and "n \<le> BLEN b"
  shows "block_ok (b\<lparr>rp := rp b + n\<rparr>)" "bdata (b\<lparr>rp := rp b + n\<rparr>) = drop n (bdata b)"
    "BLEN (b\<lparr>rp := rp b + n\<rparr>) = BLEN b - n"
  using assms by (auto simp: block_ok_def bdata_def BLEN_def drop_take add.commute)

lemma shrink_simps [block_simps]:
  assumes "block_ok b" and "n \<le> BLEN b"
  shows "block_ok (b\<lparr>wp := rp b + n\<rparr>)" "bdata (b\<lparr>wp := rp b + n\<rparr>) = take n (bdata b)"
    "BLEN (b\<lparr>wp := rp b + n\<rparr>) = n"
  using assms by (auto simp: block_ok_def bdata_def BLEN_def)

lemma cut_wp: "block_ok b \<Longrightarrow> n \<le> BLEN b \<Longrightarrow> wp b - (BLEN b - n) = rp b + n"
  by (auto simp: block_ok_def BLEN_def)

abbreviation chain_ok :: "block list \<Rightarrow> bool" where "chain_ok \<equiv> list_all block_ok"

definition chain_bytes :: "block list \<Rightarrow> u8 list" where "chain_bytes bs = concat (map bdata bs)"

lemma chain_bytes_simps [simp]:
  "chain_bytes [] = []" "chain_bytes (b # bs) = bdata b @ chain_bytes bs"
  "chain_bytes (bs @ cs) = chain_bytes bs @ chain_bytes cs"
  by (simp_all add: chain_bytes_def)

lemma length_chain_bytes [block_simps]: "chain_ok bs \<Longrightarrow> length (chain_bytes bs) = blocklen bs"
  by (induction bs) (simp_all add: block_simps)

section \<open>Chains of blocks\<close>

lemma concat_loop:
  assumes "chain_ok bs" and "block_ok nb" and "wp nb + blocklen bs \<le> length (buf nb)"
  shows "bdata (foldl (\<lambda>nb f. bput nb (bdata f)) nb bs) = bdata nb @ chain_bytes bs \<and>
    block_ok (foldl (\<lambda>nb f. bput nb (bdata f)) nb bs)"
  using assms
proof (induction bs arbitrary: nb)
  case (Cons b bs)
  then show ?case using Cons.IH [of "bput nb (bdata b)"] by (simp add: block_simps)
qed simp

lemma pullup_loop_spec:
  assumes "chain_ok bs" and "block_ok bp" and "wp bp + n \<le> length (buf bp)" and "0 < n"
  shows "case pullup_loop bp n bs of
      None \<Rightarrow> blocklen bs < n
    | Some cs \<Rightarrow> n \<le> blocklen bs \<and> chain_ok cs \<and> cs \<noteq> [] \<and> BLEN (hd cs) = BLEN bp + n \<and>
        chain_bytes cs = bdata bp @ chain_bytes bs"
  using assms
proof (induction bp n bs rule: pullup_loop.induct)
  case (1 bp n)
  then show ?case by simp
next
  case (2 bp n nbp rest)
  show ?case
  proof (cases "BLEN nbp > n")
    case True
    then show ?thesis
      using "2.prems" append_take_drop_id [of n "bdata nbp"]
      by (simp add: Let_def block_simps del: append_take_drop_id)
  next
    case False
    with "2.prems" have fit: "wp bp + length (bdata nbp) \<le> length (buf bp)" by (simp add: block_simps)
    show ?thesis
    proof (cases "n = BLEN nbp")
      case True
      then show ?thesis using "2.prems" fit by (simp add: Let_def block_simps)
    next
      case ne: False
      with False have "n - BLEN nbp \<noteq> 0" by simp
      with "2.IH" [OF refl False refl this] "2.prems" fit False ne show ?thesis
        by (auto simp: Let_def block_simps split: option.splits)
    qed
  qed
qed

lemma pullupblock_spec:
  assumes "chain_ok bs" and "bs \<noteq> []"
  shows "case pullupblock bs n of
      None \<Rightarrow> blocklen bs < n
    | Some cs \<Rightarrow> n \<le> blocklen bs \<and> chain_ok cs \<and> cs \<noteq> [] \<and> n \<le> BLEN (hd cs) \<and>
        (BLEN (hd bs) < n \<longrightarrow> BLEN (hd cs) = n) \<and> chain_bytes cs = chain_bytes bs"
proof (cases bs)
  case (Cons bp rest)
  consider "BLEN bp \<ge> n" | "BLEN bp < n" "length (buf bp) - rp bp < n"
    | "BLEN bp < n" "length (buf bp) - rp bp \<ge> n" by linarith
  then show ?thesis
  proof cases
    case 1
    then show ?thesis using assms Cons by simp
  next
    case 2
    then show ?thesis
      using assms Cons pullup_loop_spec [of bs "allocb n" n]
      by (auto simp: block_simps split: option.splits)
  next
    case 3
    moreover have "wp bp + (n - BLEN bp) \<le> length (buf bp)"
      using 3 assms Cons by (auto simp: block_ok_def BLEN_def)
    ultimately show ?thesis
      using assms Cons pullup_loop_spec [of rest bp "n - BLEN bp"]
      by (auto split: option.splits)
  qed
qed (use assms in simp)

lemma trim_front_spec:
  assumes "chain_ok bs" and "offset \<le> blocklen bs" and "bs \<noteq> []"
  shows "\<exists>bp rest off. trim_front bs offset = (bp # rest, off) \<and> off \<le> BLEN bp \<and>
    chain_ok (bp # rest) \<and> drop off (chain_bytes (bp # rest)) = drop offset (chain_bytes bs)"
  using assms
proof (induction bs offset rule: trim_front.induct)
  case (2 bp rest offset)
  show ?case
  proof (cases "BLEN bp < offset")
    case True
    then have "rest \<noteq> []" using "2.prems" by (cases rest) auto
    with "2.IH" [OF True] "2.prems" True show ?thesis by (auto simp: block_simps)
  next
    case False
    then show ?thesis using "2.prems" by auto
  qed
qed simp

lemma trim_back_spec:
  assumes "chain_ok bs" and "len \<le> blocklen bs" and "bs \<noteq> []"
  shows "chain_ok (trim_back bs len) \<and> chain_bytes (trim_back bs len) = take len (chain_bytes bs) \<and>
    trim_back bs len \<noteq> []"
  using assms
proof (induction bs len rule: trim_back.induct)
  case (2 bp rest len)
  show ?case
  proof (cases "BLEN bp < len")
    case True
    then have "rest \<noteq> []" using "2.prems" by (cases rest) auto
    with "2.IH" [OF True] "2.prems" True show ?thesis by (auto simp: block_simps)
  next
    case False
    then show ?thesis
      using "2.prems" cut_wp [of bp len] by (simp add: block_simps del: diff_diff_right)
  qed
qed simp

lemma trimblock_spec:
  assumes "chain_ok bs"
  shows "chain_ok (trimblock bs offset len) \<and>
    chain_bytes (trimblock bs offset len) =
      (if offset + len \<le> blocklen bs then take len (drop offset (chain_bytes bs)) else [])"
proof (cases "blocklen bs < offset + len \<or> bs = []")
  case True
  then show ?thesis using assms by (auto simp: trimblock_def)
next
  case False
  then have le: "offset + len \<le> blocklen bs" "bs \<noteq> []" by auto
  from trim_front_spec [OF assms _ le(2), of offset] le obtain bp rest off where
    f: "trim_front bs offset = (bp # rest, off)" "off \<le> BLEN bp" "chain_ok (bp # rest)"
      "drop off (chain_bytes (bp # rest)) = drop offset (chain_bytes bs)" by auto
  let ?cs = "bp\<lparr>rp := rp bp + off\<rparr> # rest"
  have ok: "chain_ok ?cs" and bytes: "chain_bytes ?cs = drop offset (chain_bytes bs)"
    using f by (simp_all add: block_simps)
  have "blocklen ?cs = blocklen bs - offset"
    by (metis length_drop bytes length_chain_bytes [OF ok] length_chain_bytes [OF assms])
  then have "len \<le> blocklen ?cs" using le by simp
  from trim_back_spec [OF ok this] have t: "chain_ok (trim_back ?cs len)"
    "chain_bytes (trim_back ?cs len) = take len (drop offset (chain_bytes bs))"
    by (simp_all only: bytes list.distinct simp_thms)
  have "trimblock bs offset len = trim_back ?cs len"
    using le f(1) by (simp add: trimblock_def del: trim_back.simps)
  with t le(1) show ?thesis by (simp del: trim_back.simps)
qed
lemma copy_loop_spec:
  assumes "chain_ok bs" and "block_ok nb" and "wp nb + count \<le> length (buf nb)"
  shows "case copy_loop nb count bs of (nb', c) \<Rightarrow>
    block_ok nb' \<and> bdata nb' = bdata nb @ take count (chain_bytes bs) \<and>
    c = count - blocklen bs \<and> wp nb' + c \<le> length (buf nb')"
  using assms
proof (induction nb count bs rule: copy_loop.induct)
  case (1 nbp count)
  then show ?case by simp
next
  case (2 nbp count bp rest)
  show ?case
  proof (cases "count > 0")
    case True
    let ?l = "min (BLEN bp) count"
    have fit: "wp nbp + length (take ?l (bdata bp)) \<le> length (buf nbp)"
      using "2.prems" by (simp add: block_simps)
    let ?nb = "bput nbp (take ?l (bdata bp))"
    have len: "length (take ?l (bdata bp)) = ?l" using "2.prems" by (simp add: length_bdata)
    obtain nb' c where r: "copy_loop ?nb (count - ?l) rest = (nb', c)" by fastforce
    have nb: "block_ok ?nb" "wp ?nb + (count - ?l) \<le> length (buf ?nb)"
      "bdata ?nb = bdata nbp @ take ?l (bdata bp)"
      using "2.prems" fit len by (simp_all add: bput_simps)
    from "2.IH" [OF True refl _ nb(1,2)] r "2.prems" nb(3)
    have "block_ok nb'" "bdata nb' = bdata nbp @ take ?l (bdata bp) @ take (count - ?l) (chain_bytes rest)"
      "c = count - ?l - blocklen rest" "wp nb' + c \<le> length (buf nb')" by simp_all
    moreover have "take count (bdata bp @ chain_bytes rest) =
        take ?l (bdata bp) @ take (count - ?l) (chain_bytes rest)"
      using "2.prems" by (cases "BLEN bp \<le> count") (simp_all add: length_bdata)
    moreover have "copy_loop nbp count (bp # rest) = (nb', c)"
      using True r by (simp add: Let_def)
    moreover have "count - ?l - blocklen rest = count - (BLEN bp + blocklen rest)" by simp
    ultimately show ?thesis by (simp del: copy_loop.simps)
  next
    case False
    then show ?thesis using "2.prems" by simp
  qed
qed

lemma copyblock_spec:
  assumes "chain_ok bs"
  shows "block_ok (copyblock bs count) \<and>
    bdata (copyblock bs count) = take count (chain_bytes bs) @ replicate (count - blocklen bs) 0"
proof -
  obtain nb c where c: "copy_loop (allocb count) count bs = (nb, c)" by fastforce
  with copy_loop_spec [OF assms, of "allocb count" count]
  have "block_ok nb" "bdata nb = take count (chain_bytes bs)" "c = count - blocklen bs"
    "wp nb + c \<le> length (buf nb)" by (simp_all add: block_simps)
  then show ?thesis by (simp add: copyblock_def c block_simps)
qed

lemma pullblock_spec:
  assumes "chain_ok bs"
  shows "case pullblock bs count of (cs, n) \<Rightarrow>
    n = min count (blocklen bs) \<and> chain_ok cs \<and> chain_bytes cs = drop n (chain_bytes bs)"
  using assms
proof (induction bs count rule: pullblock.induct)
  case (1 count)
  then show ?case by simp
next
  case (2 bp rest count)
  let ?n = "min (BLEN bp) count" and ?bp = "bp\<lparr>rp := rp bp + min (BLEN bp) count\<rparr>"
  show ?case
  proof (cases "count = 0")
    case True
    then show ?thesis using "2.prems" by simp
  next
    case False
    have bp: "block_ok ?bp" "bdata ?bp = drop ?n (bdata bp)" "BLEN ?bp = BLEN bp - ?n"
      using "2.prems" by (simp_all add: block_simps)
    show ?thesis
    proof (cases "BLEN ?bp = 0")
      case zero: True
      then have le: "BLEN bp \<le> count" using bp(3) by simp
      obtain cs k where r: "pullblock rest (count - ?n) = (cs, k)" by fastforce
      from "2.IH" [OF False refl refl zero] r "2.prems" have "k = min (count - ?n) (blocklen rest)"
        "chain_ok cs" "chain_bytes cs = drop k (chain_bytes rest)" by simp_all
      then show ?thesis
        using zero le r False "2.prems" by (auto simp: Let_def length_bdata)
    next
      case nz: False
      then have "?n = count" using bp(3) by simp
      then show ?thesis using nz bp False "2.prems" by (simp add: Let_def length_bdata)
    qed
  qed
qed

lemma padblock_front:
  assumes "block_ok b" and "0 \<le> n"
  shows "block_ok (padblock b n) \<and>
    (\<exists>front. length front = nat n \<and> bdata (padblock b n) = front @ bdata b)"
proof (cases "rp b \<ge> nat n")
  case True
  have "drop (nat n) (drop (rp b - nat n) (buf b)) = drop (rp b) (buf b)"
    using True by simp
  moreover have "wp b - (rp b - nat n) = nat n + (wp b - rp b)"
    using assms(1) True by (auto simp: block_ok_def)
  ultimately have "bdata (padblock b n) = take (nat n) (drop (rp b - nat n) (buf b)) @ bdata b"
    using assms True by (simp add: padblock_def bdata_def BLEN_def take_add)
  moreover have "length (take (nat n) (drop (rp b - nat n) (buf b))) = nat n"
    using assms True by (auto simp: block_ok_def)
  ultimately show ?thesis using assms True by (auto simp: padblock_def block_ok_def)
next
  case False
  let ?m = "nat n"
  let ?nb = "bput ((allocb (?m + BLEN b))\<lparr>rp := ?m, wp := ?m\<rparr>) (bdata b)"
  have "?nb\<lparr>rp := rp ?nb - ?m\<rparr> = \<lparr>buf = replicate ?m 0 @ bdata b, rp = 0, wp = ?m + BLEN b\<rparr>"
    using assms(1) by (simp add: bput_def allocb_def length_bdata min_def)
  then have "padblock b n = \<lparr>buf = replicate ?m 0 @ bdata b, rp = 0, wp = ?m + BLEN b\<rparr>"
    using assms False by (simp add: padblock_def Let_def)
  then show ?thesis
    using assms(1) by (intro conjI exI [of _ "replicate ?m 0"])
      (auto simp: block_ok_def bdata_def BLEN_def)
qed

lemma padblock_back:
  assumes "block_ok b" and "n < 0"
  shows "block_ok (padblock b n) \<and> bdata (padblock b n) = bdata b \<and>
    nat (- n) \<le> length (buf (padblock b n)) - wp (padblock b n)"
  using assms by (auto simp: padblock_def Let_def block_simps)

section \<open>The queue invariant\<close>

text \<open>The blocks are well formed and \<open>len\<close> is the number of bytes they hold.\<close>

definition queue_ok :: "queue \<Rightarrow> bool" where
  "queue_ok q \<longleftrightarrow> chain_ok (bfirst q) \<and> qlen q = int (length (qbytes q))"

lemma qbytes_chain: "qbytes q = chain_bytes (bfirst q)"
  by (simp add: qbytes_def chain_bytes_def)

lemma queue_frame [simp]:
  "bfirst (emit es q) = bfirst q" "qlen (emit es q) = qlen q" "qmsg (emit es q) = qmsg q"
  "closed (emit es q) = closed q" "limit (emit es q) = limit q" "noblock (emit es q) = noblock q"
  "starve (emit es q) = starve q" "flow (emit es q) = flow q" "events (emit es q) = events q @ es"
  "eof (emit es q) = eof q" "err (emit es q) = err q" "haskick (emit es q) = haskick q"
  by (simp_all add: emit_def)

lemma wakeif_frame [simp]:
  "bfirst (wakeif w es q) = bfirst q" "qlen (wakeif w es q) = qlen q" "qmsg (wakeif w es q) = qmsg q"
  "closed (wakeif w es q) = closed q" "limit (wakeif w es q) = limit q"
  "noblock (wakeif w es q) = noblock q" "starve (wakeif w es q) = starve q"
  "flow (wakeif w es q) = flow q" "eof (wakeif w es q) = eof q" "err (wakeif w es q) = err q"
  "haskick (wakeif w es q) = haskick q"
  "events (wakeif w es q) = events q @ (if w then es else [])"
  by (simp_all add: wakeif_def)

lemma restart_frame [simp]:
  "bfirst (fst (restart q)) = bfirst q" "qlen (fst (restart q)) = qlen q"
  "qmsg (fst (restart q)) = qmsg q" "closed (fst (restart q)) = closed q"
  "limit (fst (restart q)) = limit q" "noblock (fst (restart q)) = noblock q"
  "events (fst (restart q)) = events q" "starve (fst (restart q)) = starve q"
  "haskick (fst (restart q)) = haskick q"
  by (simp_all add: restart_def)

lemma unstarve_frame [simp]:
  "bfirst (fst (unstarve q)) = bfirst q" "qlen (fst (unstarve q)) = qlen q"
  "qmsg (fst (unstarve q)) = qmsg q" "closed (fst (unstarve q)) = closed q"
  "limit (fst (unstarve q)) = limit q" "noblock (fst (unstarve q)) = noblock q"
  "events (fst (unstarve q)) = events q" "starve (fst (unstarve q)) = False"
  "snd (unstarve q) = starve q" "flow (fst (unstarve q)) = flow q"
  "haskick (fst (unstarve q)) = haskick q"
  by (simp_all add: unstarve_def)

lemma append_frame [simp]:
  "bfirst (append_block b q) = bfirst q @ [b]" "qlen (append_block b q) = qlen q + int (BLEN b)"
  "qmsg (append_block b q) = qmsg q" "closed (append_block b q) = closed q"
  "limit (append_block b q) = limit q" "noblock (append_block b q) = noblock q"
  "starve (append_block b q) = starve q" "flow (append_block b q) = flow q"
  "events (append_block b q) = events q" "haskick (append_block b q) = haskick q"
  by (simp_all add: append_block_def)

lemma queue_ok_append: "queue_ok q \<Longrightarrow> block_ok b \<Longrightarrow> bfirst q' = bfirst q @ [b] \<Longrightarrow>
    qlen q' = qlen q + int (BLEN b) \<Longrightarrow> queue_ok q' \<and> qbytes q' = qbytes q @ bdata b"
  by (simp add: queue_ok_def qbytes_chain length_bdata)

lemma queue_ok_first: "queue_ok q \<Longrightarrow> bfirst q = b # rest \<Longrightarrow>
    bfirst q' = rest \<Longrightarrow> qlen q' = qlen q - int (BLEN b) \<Longrightarrow>
    queue_ok q' \<and> qbytes q = bdata b @ qbytes q' \<and> block_ok b"
  by (simp add: queue_ok_def qbytes_chain length_bdata)


lemma deliver_simps [simp]:
  "bfirst (deliver es b q) = bfirst q @ [b]" "qlen (deliver es b q) = qlen q + int (BLEN b)"
  "qmsg (deliver es b q) = qmsg q" "closed (deliver es b q) = closed q"
  "limit (deliver es b q) = limit q" "noblock (deliver es b q) = noblock q"
  "\<not> starve (deliver es b q)" "flow (deliver es b q) = flow q" "haskick (deliver es b q) = haskick q"
  "events (deliver es b q) = events q @ (if starve q then es else [])"
  by (simp_all add: deliver_def unstarve_def)

lemma deliver_ok:
  assumes "queue_ok q" and "block_ok b"
  shows "queue_ok (deliver es b q)" "qbytes (deliver es b q) = qbytes q @ bdata b"
  using queue_ok_append [OF assms, of "deliver es b q"] by simp_all

section \<open>Operations on queues\<close>

lemma qproduce_spec:
  assumes "queue_ok q" and "qproduce q p = (q', r)"
  shows "queue_ok q' \<and> qmsg q' = qmsg q \<and>
    (if qlen q < limit q then r = int (length p) \<and> qbytes q' = qbytes q @ p \<and>
       events q' = events q @ (if starve q then [WakeReader] else [])
     else r = - 1 \<and> qbytes q' = qbytes q \<and> flow q')"
  using assms
  by (auto simp: qproduce_def deliver_ok filled_block queue_ok_def qbytes_def split: if_splits)

lemma drop_empty_spec:
  "chain_ok bs \<Longrightarrow> chain_ok (drop_empty bs) \<and> chain_bytes (drop_empty bs) = chain_bytes bs \<and>
    (case drop_empty bs of [] \<Rightarrow> True | b # _ \<Rightarrow> 0 < BLEN b)"
proof (induction bs)
  case (Cons b bs)
  then have "BLEN b = 0 \<Longrightarrow> bdata b = []" by (metis length_bdata list.pred_inject(2) length_0_conv)
  with Cons show ?case by auto
qed simp

lemma qconsume_spec:
  assumes "queue_ok q" and "\<not> qmsg q" and "qconsume q n = (q', r)"
  shows "queue_ok q' \<and> \<not> qmsg q' \<and>
    (case r of None \<Rightarrow> qbytes q = [] \<and> qbytes q' = [] \<and> starve q'
     | Some p \<Rightarrow> qbytes q = p @ qbytes q' \<and> length p \<le> n \<and> (0 < n \<longrightarrow> p \<noteq> []))"
proof (cases "drop_empty (bfirst q)")
  case Nil
  with drop_empty_spec [of "bfirst q"] assms show ?thesis
    by (auto simp: qconsume_def queue_ok_def qbytes_chain)
next
  case (Cons b rest)
  let ?l = "if BLEN b < n then BLEN b else n"
  let ?bs = "if ?l = BLEN b then rest else b\<lparr>rp := rp b + ?l\<rparr> # rest"
  have ok: "block_ok b" "chain_ok rest" "0 < BLEN b" "qbytes q = bdata b @ chain_bytes rest"
    using drop_empty_spec [of "bfirst q"] assms Cons by (auto simp: queue_ok_def qbytes_chain)
  have len: "length (bdata b) = BLEN b" using ok by (simp add: length_bdata)
  have "bfirst q' = ?bs" "qlen q' = qlen q - int ?l" "\<not> qmsg q'" "r = Some (take ?l (bdata b))"
    using assms(2,3) by (auto simp: qconsume_def Cons Let_def case_prod_beta)
  moreover have "chain_ok ?bs" "bdata b @ chain_bytes rest = take ?l (bdata b) @ chain_bytes ?bs"
    using ok len by (simp_all add: block_simps)
  ultimately show ?thesis
    using assms(1) ok len by (auto simp: queue_ok_def qbytes_chain simp del: append_take_drop_id)
qed

lemma qbread_take_spec:
  assumes "queue_ok q" and "qbread_take q n = (q', r)"
  shows "queue_ok q' \<and> qmsg q' = qmsg q \<and> noblock q' = noblock q \<and> limit q' = limit q \<and>
    closed q' = closed q \<and> events q' = events q \<and>
    (case r of Done (Some (b, w)) \<Rightarrow> qbytes q = bdata b @ qbytes q' \<and> block_ok b
     | _ \<Rightarrow> qbytes q' = qbytes q \<and> bfirst q = [])"
proof (cases "bfirst q")
  case Nil
  then show ?thesis using assms
    by (auto simp: qbread_take_def Let_def queue_ok_def qbytes_chain split: if_splits)
next
  case (Cons b rest)
  then have "bfirst q' = rest" "qlen q' = qlen q - int (BLEN b)" "qmsg q' = qmsg q"
    "noblock q' = noblock q" "limit q' = limit q" "closed q' = closed q" "events q' = events q"
    "r = Done (Some (b, snd (restart (q\<lparr>bfirst := rest, qlen := qlen q - int (BLEN b)\<rparr>))))"
    using assms(2) by (auto simp: qbread_take_def Let_def case_prod_beta)
  then show ?thesis using queue_ok_first [OF assms(1) Cons, of q'] by simp
qed

lemma qbread_putback_spec:
  assumes "queue_ok q" and "block_ok b" and "qbread_putback q b n = (q', nb)"
  shows "queue_ok q' \<and> qmsg q' = qmsg q \<and> noblock q' = noblock q \<and> limit q' = limit q \<and>
    events q' = events q \<and> block_ok nb \<and> bdata nb = take n (bdata b) \<and>
    qbytes q' = (if qmsg q then [] else drop n (bdata b)) @ qbytes q"
proof (cases "BLEN b > n")
  case True
  let ?r = "bput (allocb (BLEN b - n)) (drop n (bdata b))"
  have r: "block_ok ?r" "bdata ?r = drop n (bdata b)" "BLEN ?r = BLEN b - n"
    using assms(2) by (simp_all add: block_simps)
  have nb: "nb = b\<lparr>wp := rp b + n\<rparr>" and q: "q' = (if qmsg q then q
      else q\<lparr>bfirst := ?r # bfirst q, qlen := qlen q + int (BLEN b - n)\<rparr>)"
    using assms(3) True by (auto simp: qbread_putback_def Let_def)
  show ?thesis
    using assms(1,2) True r by (simp add: nb q queue_ok_def qbytes_chain shrink_simps length_bdata)
next
  case False
  then show ?thesis using assms by (auto simp: qbread_putback_def block_simps)
qed

lemma qbread_wake_ok [simp]:
  "queue_ok (qbread_wake w q) = queue_ok q" "qbytes (qbread_wake w q) = qbytes q"
  "qmsg (qbread_wake w q) = qmsg q" "noblock (qbread_wake w q) = noblock q"
  "limit (qbread_wake w q) = limit q"
  by (simp_all add: qbread_wake_def queue_ok_def qbytes_chain)

lemma qread_spec:
  assumes "queue_ok q" and "qread q n = (q', r)"
  shows "queue_ok q' \<and> qmsg q' = qmsg q \<and> noblock q' = noblock q \<and> limit q' = limit q \<and>
    (case r of
       Done p \<Rightarrow> length p \<le> n \<and>
         (if qmsg q then \<exists>rest. qbytes q = p @ rest @ qbytes q' else qbytes q = p @ qbytes q')
     | _ \<Rightarrow> qbytes q' = qbytes q \<and> bfirst q = [])"
proof -
  obtain q1 t where t: "qbread_take q n = (q1, t)" by fastforce
  note t' = qbread_take_spec [OF assms(1) t]
  show ?thesis
  proof (cases "\<exists>b w. t = Done (Some (b, w))")
    case True
    then obtain b w where bw: "t = Done (Some (b, w))" by blast
    obtain q2 nb where p: "qbread_putback q1 b n = (q2, nb)" by fastforce
    with qbread_putback_spec [of q1 b n q2 nb] t' bw
    have p': "queue_ok q2 \<and> qmsg q2 = qmsg q1 \<and> noblock q2 = noblock q1 \<and> limit q2 = limit q1 \<and>
      bdata nb = take n (bdata b) \<and> qbytes q2 = (if qmsg q1 then [] else drop n (bdata b)) @ qbytes q1"
      by simp
    have q': "q' = qbread_wake w q2" and r: "r = Done (bdata nb)"
      using assms(2) t bw p by (auto simp: qread_def qbread_def)
    have e: "qbytes q = take n (bdata b) @ drop n (bdata b) @ qbytes q1"
      using t' bw by simp
    show ?thesis
    proof (cases "qmsg q")
      case True
      have "\<exists>rest. qbytes q = take n (bdata b) @ rest @ qbytes q1" using e by blast
      with True t' p' show ?thesis by (simp add: q' r)
    next
      case False
      with e t' p' show ?thesis by (simp add: q' r)
    qed
  next
    case False
    then consider "t = Done None" | "t = Sleeps" | e where "t = Fails e"
      by (metis not_None_eq outcome.exhaust surj_pair)
    then have "q' = q1 \<and> (\<forall>p. r = Done p \<longrightarrow> p = [])"
      using assms(2) t by cases (auto simp: qread_def qbread_def)
    moreover have "bfirst q = [] \<and> qbytes q1 = qbytes q"
      using t' False by (auto split: outcome.splits option.splits)
    ultimately show ?thesis using t' by (cases r) (simp_all add: qbytes_chain)
  qed
qed

lemma qbwrite_spec:
  assumes "queue_ok q" and "block_ok b" and "qbwrite q b = (q', r)"
  shows "queue_ok q' \<and> qmsg q' = qmsg q \<and> noblock q' = noblock q \<and> limit q' = limit q \<and>
    (case r of
       Done k \<Rightarrow> k = BLEN b \<and> (if qnotfull q then \<not> closed q \<and> qbytes q' = qbytes q @ bdata b
         else noblock q \<and> qbytes q' = qbytes q)
     | Sleeps \<Rightarrow> qbytes q' = qbytes q \<and> flow q' \<and> \<not> qnotfull q
     | Fails e \<Rightarrow> q' = q \<and> closed q)"
  using assms
  by (auto simp: qbwrite_def deliver_ok split: if_splits) (simp_all add: queue_ok_def qbytes_def)

lemma discard_loop_spec:
  assumes "chain_ok bs"
  shows "case discard_loop bs k n of (cs, k') \<Rightarrow>
    chain_ok cs \<and> chain_bytes cs = drop n (chain_bytes bs) \<and>
    (k' = k - int (blocklen bs) + int (blocklen cs) \<longleftrightarrow>
      blocklen bs \<le> n \<or> (\<exists>j. n = blocklen (take j bs)))"
  using assms
proof (induction bs k n rule: discard_loop.induct)
  case (1 k n)
  then show ?case by simp
next
  case (2 b rest k n)
  show ?case
  proof (cases "BLEN b > n")
    case True
    have "(\<exists>j. n = blocklen (take j (b # rest))) \<longleftrightarrow> n = 0"
    proof
      assume "\<exists>j. n = blocklen (take j (b # rest))"
      then obtain j where "n = blocklen (take j (b # rest))" ..
      with True show "n = 0" by (cases j) auto
    next
      assume "n = 0"
      then show "\<exists>j. n = blocklen (take j (b # rest))" by (intro exI [of _ 0]) simp
    qed
    then show ?thesis using True "2.prems" by (auto simp: block_simps)
  next
    case False
    have j: "(\<exists>j. n - BLEN b = blocklen (take j rest)) \<longleftrightarrow>
        (\<exists>j. n = blocklen (take j (b # rest))) \<or> BLEN b = n"
    proof
      assume "\<exists>j. n - BLEN b = blocklen (take j rest)"
      then obtain j where "n - BLEN b = blocklen (take j rest)" ..
      then have "n = blocklen (take (Suc j) (b # rest))" using False by simp
      then show "(\<exists>j. n = blocklen (take j (b # rest))) \<or> BLEN b = n" by blast
    next
      assume "(\<exists>j. n = blocklen (take j (b # rest))) \<or> BLEN b = n"
      then obtain j where "n = blocklen (take j (b # rest)) \<or> BLEN b = n" by blast
      then have "n - BLEN b = blocklen (take (j - 1) rest) \<or> n - BLEN b = blocklen (take 0 rest)"
        by (cases j) auto
      then show "\<exists>j. n - BLEN b = blocklen (take j rest)" by blast
    qed
    have e: "BLEN b = n \<Longrightarrow> \<exists>j. n = blocklen (take j (b # rest))"
      by (intro exI [of _ 1]) simp
    obtain cs k' where r: "discard_loop rest (k - int (BLEN b)) (n - BLEN b) = (cs, k')" by fastforce
    from "2.IH" [OF refl False] r "2.prems" have "chain_ok cs"
      "chain_bytes cs = drop (n - BLEN b) (chain_bytes rest)"
      "k' = k - int (BLEN b) - int (blocklen rest) + int (blocklen cs) \<longleftrightarrow>
        blocklen rest \<le> n - BLEN b \<or> (\<exists>j. n = blocklen (take j (b # rest))) \<or> BLEN b = n"
      by (simp_all add: j [symmetric])
    then show ?thesis using False r "2.prems" e by (auto simp: length_bdata)
  qed
qed

lemma qcopy_loop_spec:
  assumes "chain_ok rest" and "block_ok nb" and "wp nb + (len - sofar) \<le> length (buf nb)"
  shows "bdata (qcopy_loop nb sofar len p rest) = bdata nb @ take (len - sofar) (p @ chain_bytes rest)"
  using assms
proof (induction rest arbitrary: nb sofar p)
  case Nil
  then show ?case by (subst qcopy_loop.simps) (simp add: block_simps min_def)
next
  case (Cons b rest)
  show ?case
  proof (cases "sofar < len")
    case True
    let ?n = "min (length p) (len - sofar)" let ?nb = "bput nb (take ?n p)"
    have fit: "wp nb + length (take ?n p) \<le> length (buf nb)" using Cons.prems by simp
    have nb: "block_ok ?nb" "bdata ?nb = bdata nb @ take ?n p"
      "wp ?nb + (len - (sofar + ?n)) \<le> length (buf ?nb)"
      using Cons.prems fit True by (simp_all add: bput_simps)
    have "qcopy_loop nb sofar len p (b # rest) = qcopy_loop ?nb (sofar + ?n) len (bdata b) rest"
      using True by (simp add: Let_def)
    also have "bdata \<dots> = bdata ?nb @ take (len - (sofar + ?n)) (bdata b @ chain_bytes rest)"
      using Cons.IH [OF _ nb(1,3)] Cons.prems by simp
    finally show ?thesis
      using nb(2) by (cases "length p \<le> len - sofar") (simp_all del: qcopy_loop.simps)
  qed (simp add: Cons.prems)
qed

lemma qcopy_seek_spec:
  assumes "chain_ok bs" and "sofar \<le> off"
  shows "case qcopy_seek bs sofar off of
      None \<Rightarrow> blocklen bs \<le> off - sofar
    | Some (p, rest) \<Rightarrow> chain_ok rest \<and> p @ chain_bytes rest = drop (off - sofar) (chain_bytes bs)"
  using assms
proof (induction bs arbitrary: sofar)
  case (Cons b bs)
  then show ?case
  proof (cases "sofar + BLEN b > off")
    case False
    with Cons.IH [of "sofar + BLEN b"] Cons.prems show ?thesis
      by (auto simp: length_bdata split: option.splits)
  qed (auto simp: length_bdata)
qed simp

lemma partial_append:
  assumes "case r of Done k \<Rightarrow> k = n \<and> B = A @ X @ D | _ \<Rightarrow> \<exists>j. B = A @ X @ take j D"
    and "E = X @ D"
  shows "case r of Done k \<Rightarrow> k = n \<and> B = A @ E | _ \<Rightarrow> \<exists>j. B = A @ take j E"
proof -
  have "\<exists>i. X @ take j D = take i E" for j
    by (rule exI [of _ "length X + j"]) (simp add: assms(2))
  then show ?thesis using assms by (cases r) auto
qed

lemma qwrite_loop_spec:
  assumes "queue_ok q" and "\<not> qmsg q" and "\<not> noblock q" and "sofar \<le> length p"
    and "qwrite_loop q p sofar = (q', r)"
  shows "queue_ok q' \<and> (case r of
      Done k \<Rightarrow> k = length p \<and> qbytes q' = qbytes q @ drop sofar p
    | _ \<Rightarrow> \<exists>j. qbytes q' = qbytes q @ take j (drop sofar p))"
  using assms
proof (induction q p sofar arbitrary: q' r rule: qwrite_loop.induct)
  case (1 q p sofar)
  let ?n = "min (length p - sofar) chunk"
  let ?b = "bput (allocb ?n) (take ?n (drop sofar p))"
  obtain q1 r1 where w: "qbwrite q ?b = (q1, r1)" by fastforce
  have b: "block_ok ?b" "bdata ?b = take ?n (drop sofar p)" by (simp_all add: filled_block')
  note s = qbwrite_spec [OF "1.prems"(1) b(1) w]
  note unf = qwrite_loop.simps [of q p sofar, unfolded Let_def w prod.case]
  show ?case
  proof (cases "\<exists>k. r1 = Done k")
    case True
    then obtain k where k: "r1 = Done k" ..
    have q1: "queue_ok q1" "\<not> qmsg q1" "\<not> noblock q1" "qbytes q1 = qbytes q @ take ?n (drop sofar p)"
      using s "1.prems"(2,3) b(2) by (auto simp: k split: if_splits)
    show ?thesis
    proof (cases "sofar + ?n < length p")
      case True
      have "qwrite_loop q p sofar = qwrite_loop q1 p (sofar + ?n)"
        using unf True q1(2) by (simp only: k outcome.case if_True simp_thms)
      with "1.prems"(5) have "qwrite_loop q1 p (sofar + ?n) = (q', r)" by simp
      from "1.IH" [OF refl refl w [symmetric] k _ q1(1,2,3) _ this] True q1(2)
      have "queue_ok q'" and *: "case r of
          Done k \<Rightarrow> k = length p \<and> qbytes q' = qbytes q1 @ drop (sofar + ?n) p
        | _ \<Rightarrow> \<exists>j. qbytes q' = qbytes q1 @ take j (drop (sofar + ?n) p)" by auto
      moreover have "drop sofar p = take ?n (drop sofar p) @ drop (sofar + ?n) p"
        by (metis append_take_drop_id drop_drop add.commute)
      ultimately show ?thesis
        using partial_append [OF * [unfolded q1(4) append_assoc]] by blast
    next
      case False
      then have "?n = length p - sofar" using "1.prems"(4) by linarith
      moreover have "qwrite_loop q p sofar = (q1, Done (length p))"
        using unf False by (simp only: k outcome.case if_False simp_thms)
      then have "q' = q1" "r = Done (length p)" using "1.prems"(5) by simp_all
      ultimately show ?thesis using q1 by simp
    qed
  next
    case False
    then have "qbytes q1 = qbytes q" "queue_ok q1" using s by (cases r1; simp)+
    moreover have "qwrite_loop q p sofar = (q1, r1)" using unf False by (cases r1) simp_all
    then have "q' = q1" "r = r1" using "1.prems"(5) by simp_all
    ultimately show ?thesis using False by (cases r1) (auto intro: exI [of _ 0])
  qed
qed

section \<open>Readers and writers asleep\<close>

text \<open>
  A reader sleeps when \<open>qbread\<close> finds the queue empty and a writer when \<open>qbwrite\<close> finds it full;
  \<open>Wakeup(&q->rr)\<close> and \<open>Wakeup(&q->wr)\<close> make them runnable again. A state is the queue with the
  two flags "a reader sleeps" and "a writer sleeps"; \<open>rlock\<close> and \<open>wlock\<close> keep a second reader or
  writer out meanwhile.
\<close>

datatype qact = ReadA nat | WriteA "u8 list" | ProduceA "u8 list" | IWriteA "u8 list"
  | PassA "u8 list" | GetA | HangupA string | CloseA | FlushA

definition fill :: "u8 list \<Rightarrow> block" where "fill p = bput (allocb (length p)) p"

fun act :: "qact \<Rightarrow> queue \<Rightarrow> queue \<times> bool \<times> bool" where
  "act (ReadA n) q = (case qread q n of (q', r) \<Rightarrow> (q', r = Sleeps, False))"
| "act (WriteA p) q = (case qbwrite q (fill p) of (q', r) \<Rightarrow> (q', False, r = Sleeps))"
| "act (ProduceA p) q = (fst (qproduce q p), False, False)"
| "act (IWriteA p) q = (fst (qiwrite q p), False, False)"
| "act (PassA p) q = (fst (qpass q (fill p)), False, False)"
| "act GetA q = (fst (qget q), False, False)"
| "act (HangupA msg) q = (qhangup q msg, False, False)"
| "act CloseA q = (qclose q, False, False)"
| "act FlushA q = (qflush q, False, False)"

fun may_run :: "qact \<Rightarrow> bool \<Rightarrow> bool \<Rightarrow> bool" where
  "may_run (ReadA n) rs ws = (\<not> rs)"
| "may_run (WriteA p) rs ws = (\<not> ws)"
| "may_run _ rs ws = True"

type_synonym qsys = "queue \<times> bool \<times> bool"

inductive qstep :: "qsys \<Rightarrow> qsys \<Rightarrow> bool" where
  step: "may_run a rs ws \<Longrightarrow> act a (q\<lparr>events := []\<rparr>) = (q', r, w) \<Longrightarrow>
    qstep (q, rs, ws)
      (q', r \<or> (rs \<and> WakeReader \<notin> set (events q')), w \<or> (ws \<and> WakeWriter \<notin> set (events q')))"

definition sched_ok :: "int \<Rightarrow> qsys \<Rightarrow> bool" where
  "sched_ok L s = (case s of (q, rs, ws) \<Rightarrow>
     queue_ok q \<and> limit q = L \<and>
     (rs \<longrightarrow> bfirst q = [] \<and> starve q \<and> \<not> closed q) \<and>
     (ws \<longrightarrow> flow q \<and> L div 2 \<le> qlen q \<and> \<not> closed q))"

lemma fill_ok [simp]: "block_ok (fill p)" "bdata (fill p) = p" "BLEN (fill p) = length p"
  by (simp_all add: fill_def filled_block)

text \<open>What an operation may do to the two sleepers: \<open>calm\<close> is the step's obligation.\<close>

definition calm :: "queue \<Rightarrow> queue \<Rightarrow> bool \<Rightarrow> bool \<Rightarrow> bool" where
  "calm q q' r w \<longleftrightarrow> queue_ok q' \<and> limit q' = limit q \<and>
     (r \<longrightarrow> bfirst q' = [] \<and> starve q' \<and> \<not> closed q') \<and>
     (w \<longrightarrow> flow q' \<and> limit q div 2 \<le> qlen q' \<and> \<not> closed q') \<and>
     (WakeReader \<in> set (events q') \<or>
        (bfirst q = [] \<and> starve q \<and> \<not> closed q \<longrightarrow> bfirst q' = [] \<and> starve q' \<and> \<not> closed q')) \<and>
     (WakeWriter \<in> set (events q') \<or>
        (flow q \<and> limit q div 2 \<le> qlen q \<and> \<not> closed q \<longrightarrow>
           flow q' \<and> limit q div 2 \<le> qlen q' \<and> \<not> closed q'))"

lemma calm_deliver: "queue_ok q \<Longrightarrow> block_ok b \<Longrightarrow> WakeReader \<in> set es \<Longrightarrow>
    calm q (deliver es b q) False False"
  by (auto simp: calm_def deliver_ok)

lemma calm_read:
  assumes "queue_ok q" and "qread q n = (q', r)"
  shows "calm q q' (r = Sleeps) False"
proof (cases "bfirst q")
  case Nil
  with assms qread_spec [OF assms] show ?thesis
    by (cases "closed q")
      (auto simp: calm_def qread_def qbread_def qbread_take_def Let_def split: if_splits)
next
  case (Cons b rest)
  let ?q1 = "q\<lparr>bfirst := rest, qlen := qlen q - int (BLEN b)\<rparr>"
  obtain q2 nb where p: "qbread_putback (fst (restart ?q1)) b n = (q2, nb)" by fastforce
  have q': "q' = qbread_wake (snd (restart ?q1)) q2" "r = Done (bdata nb)"
    using assms(2) Cons p by (auto simp: qread_def qbread_def qbread_take_def Let_def case_prod_beta)
  have "limit q' = limit q" "queue_ok q'" using qread_spec [OF assms] by simp_all
  moreover have "qlen q2 \<ge> qlen (fst (restart ?q1))" "flow q2 = flow (fst (restart ?q1))"
    "closed q2 = closed q"
    using p by (auto simp: qbread_putback_def Let_def split: if_splits)
  ultimately show ?thesis
    using Cons by (auto simp: calm_def q' qbread_wake_def restart_def split: if_splits)
qed

lemma calm_get: "queue_ok q \<Longrightarrow> calm q (fst (qget q)) False False"
proof (cases "bfirst q")
  case (Cons b rest)
  assume ok: "queue_ok q"
  have "queue_ok (fst (qget q))"
    using queue_ok_first [OF ok Cons, of "fst (qget q)"]
    by (simp add: qget_def Cons Let_def case_prod_beta)
  then show ?thesis
    by (auto simp: calm_def qget_def Cons Let_def case_prod_beta restart_def)
qed (auto simp: calm_def qget_def queue_ok_def qbytes_chain)

lemma qiwrite_loop_spec:
  assumes "queue_ok q" and "sofar \<le> length p" and "w \<longrightarrow> WakeReader \<in> set (events q)"
  shows "let q' = qiwrite_loop q p sofar w in
    queue_ok q' \<and> limit q' = limit q \<and> flow q' = flow q \<and> closed q' = closed q \<and> qmsg q' = qmsg q \<and>
    qbytes q' = qbytes q @ (if qmsg q then take chunk (drop sofar p) else drop sofar p) \<and>
    (w \<or> starve q \<longrightarrow> WakeReader \<in> set (events q'))"
  using assms
proof (induction q p sofar w rule: qiwrite_loop.induct)
  case (1 q p sofar w)
  let ?n = "min (length p - sofar) chunk"
  let ?b = "bput (allocb ?n) (take ?n (drop sofar p))"
  let ?es = "if haskick q then [Kick, WakeReader] else [WakeReader]"
  let ?q1 = "append_block ?b q"
  let ?q3 = "wakeif (w \<or> starve q) ?es (fst (unstarve ?q1))"
  have b: "block_ok ?b" "bdata ?b = take ?n (drop sofar p)" by (simp_all add: filled_block')
  have q3: "queue_ok ?q3" "qbytes ?q3 = qbytes q @ take ?n (drop sofar p)"
    using queue_ok_append [OF "1.prems"(1) b(1), of ?q3] b(2) by simp_all
  have fr: "limit ?q3 = limit q" "flow ?q3 = flow q" "closed ?q3 = closed q" "qmsg ?q3 = qmsg q"
    "w \<or> starve q \<longrightarrow> WakeReader \<in> set (events ?q3)" "\<not> starve ?q3"
    by auto
  have unf: "qiwrite_loop q p sofar w =
      (if sofar + ?n < length p \<and> \<not> qmsg ?q3 then qiwrite_loop ?q3 p (sofar + ?n) (w \<or> starve q)
       else ?q3)"
    by (subst qiwrite_loop.simps) (simp only: Let_def case_prod_beta unstarve_frame append_frame)
  show ?case
  proof (cases "sofar + ?n < length p \<and> \<not> qmsg q")
    case True
    have cat: "take ?n (drop sofar p) @ drop (sofar + ?n) p = drop sofar p"
      by (metis append_take_drop_id drop_drop add.commute)
    have ih: "let q' = qiwrite_loop ?q3 p (sofar + ?n) (w \<or> starve q) in
      queue_ok q' \<and> limit q' = limit ?q3 \<and> flow q' = flow ?q3 \<and> closed q' = closed ?q3 \<and>
      qmsg q' = qmsg ?q3 \<and>
      qbytes q' = qbytes ?q3 @ (if qmsg ?q3 then take chunk (drop (sofar + ?n) p) else drop (sofar + ?n) p) \<and>
      ((w \<or> starve q) \<or> starve ?q3 \<longrightarrow> WakeReader \<in> set (events q'))"
      by (rule "1.IH" [OF refl refl refl prod.collapse refl refl, unfolded unstarve_frame append_frame])
        (use True q3(1) fr in simp_all)
    have nm: "qmsg q = False" using True by simp
    have "qiwrite_loop q p sofar w = qiwrite_loop ?q3 p (sofar + ?n) (w \<or> starve q)"
      using True unf fr(4) by (simp only: if_True simp_thms)
    moreover define r where "r = qiwrite_loop ?q3 p (sofar + ?n) (w \<or> starve q)"
    ultimately have e: "qiwrite_loop q p sofar w = r" by simp
    from ih have "queue_ok r" "limit r = limit q" "flow r = flow q" "closed r = closed q" "qmsg r = qmsg q"
      "qbytes r = (qbytes q @ take ?n (drop sofar p)) @ drop (sofar + ?n) p"
      "w \<or> starve q \<longrightarrow> WakeReader \<in> set (events r)"
      unfolding Let_def r_def [symmetric] fr(1-4,6) q3(2) by (simp only: nm if_False simp_thms; blast)+
    then show ?thesis unfolding e Let_def append_assoc cat nm by simp
  next
    case False
    then have "qiwrite_loop q p sofar w = ?q3" using unf fr by (simp only: if_False simp_thms)
    moreover have "take ?n (drop sofar p) = (if qmsg q then take chunk (drop sofar p) else drop sofar p)"
      using False by (auto simp: min_def)
    ultimately show ?thesis using q3 fr by (simp only: Let_def simp_thms)
  qed
qed

lemma calm_act:
  assumes "queue_ok q" and "act a q = (q', r, w)"
  shows "calm q q' r w"
proof (cases a)
  case (ReadA n)
  then show ?thesis using assms calm_read by (auto split: prod.splits)
next
  case (WriteA p)
  then show ?thesis using assms(2) calm_deliver [OF assms(1) fill_ok(1)] assms(1)
    by (auto simp: qbwrite_def qnotfull_def calm_def queue_ok_def qbytes_def split: if_splits)
next
  case (ProduceA p)
  then show ?thesis using assms(2) calm_deliver [OF assms(1) fill_ok(1)] assms(1)
    by (auto simp: qproduce_def fill_def [symmetric] calm_def queue_ok_def qbytes_def split: if_splits)
next
  case (IWriteA p)
  have r: "q' = qiwrite_loop q p 0 False" "\<not> r" "\<not> w" using assms(2) IWriteA by (simp_all add: qiwrite_def)
  note s = qiwrite_loop_spec [OF assms(1), of 0 p False, folded r(1), unfolded Let_def, simplified]
  have "qlen q \<le> qlen q'" using s assms(1) by (auto simp: queue_ok_def)
  then show ?thesis using s r(2,3) by (auto simp: calm_def)
next
  case (PassA p)
  have "bfirst q' = bfirst q @ [fill p]" "qlen q' = qlen q + int (BLEN (fill p))" "limit q' = limit q"
    "flow q \<longrightarrow> flow q'" "closed q' = closed q" "starve q \<longrightarrow> WakeReader \<in> set (events q')" "\<not> r" "\<not> w"
    using assms(2) PassA by (cases "limit q div 2 \<le> qlen q + int (length p)";
      auto simp: qpass_def Let_def case_prod_beta)+
  then show ?thesis using queue_ok_append [OF assms(1) fill_ok(1), of q' p] by (auto simp: calm_def)
next
  case GetA
  then show ?thesis using assms calm_get by auto
next
  case (HangupA msg)
  then show ?thesis using assms by (auto simp: qhangup_def calm_def queue_ok_def qbytes_def)
next
  case CloseA
  then show ?thesis using assms by (auto simp: qclose_def calm_def queue_ok_def qbytes_def)
next
  case FlushA
  then show ?thesis using assms by (auto simp: qflush_def calm_def queue_ok_def qbytes_def)
qed

lemma qstep_ok:
  assumes "qstep s s'" and "sched_ok L s"
  shows "sched_ok L s'"
  using assms
proof (induction rule: qstep.induct)
  case (step a rs ws q q' r w)
  let ?q = "q\<lparr>events := []\<rparr>"
  have "queue_ok ?q" using step.prems by (simp add: sched_ok_def queue_ok_def qbytes_def)
  from calm_act [OF this step.hyps(2)] step.prems show ?case
    by (auto simp: sched_ok_def calm_def)
qed

lemma sched_ok_init: "sched_ok L (qopen L m k, False, False)"
  by (simp add: sched_ok_def qopen_def queue_ok_def qbytes_def)

interpretation qrun: machine "\<lambda>s. \<exists>m k. s = (qopen L m k, False, False)" qstep "sched_ok L" for L
  by unfold_locales (auto simp: sched_ok_init intro: qstep_ok)

section \<open>Properties\<close>

text \<open>C3. No lost wakeup and no mutual sleep: in every state reachable by any interleaving of
  whole operations of readers, writers, interrupt-level producers, hangups, closes and flushes on a queue
  opened with a limit of at least 2, a reader sleeps only while the queue is empty and open, a writer only while
  at least half the limit is queued, and so never both at once.\<close>

theorem queue_no_lost_wakeup:
  assumes "qstep\<^sup>*\<^sup>* (qopen L m k, False, False) (q, rs, ws)" and "2 \<le> L"
  shows "queue_ok q \<and> (rs \<longrightarrow> bfirst q = [] \<and> \<not> closed q) \<and>
    (ws \<longrightarrow> L div 2 \<le> int (length (qbytes q)) \<and> \<not> closed q) \<and> \<not> (rs \<and> ws)"
proof -
  have ok: "sched_ok L (q, rs, ws)" by (rule qrun.run_inv [OF _ assms(1)]) blast
  have "1 \<le> L div 2" using assms(2) by linarith
  with ok show ?thesis by (auto simp: sched_ok_def queue_ok_def qbytes_def)
qed

theorem queue_no_lost_wakeup_witness:
  "\<exists>q. qstep\<^sup>*\<^sup>* (qopen 4 False False, False, False) (q, True, False) \<and> bfirst q = [] \<and> \<not> closed q"
proof -
  let ?q = "fst (qread (qopen 4 False False) 1)"
  have "qstep (qopen 4 False False, False, False) (?q, True, False)"
    using qstep.step [of "ReadA 1" False False "qopen 4 False False" ?q True False]
    by (simp add: qread_def qbread_def qbread_take_def qopen_def)
  then have r: "qstep\<^sup>*\<^sup>* (qopen 4 False False, False, False) (?q, True, False)" by (rule r_into_rtranclp)
  with queue_no_lost_wakeup [OF r] show ?thesis by auto
qed

lemma qstep_run:
  assumes "may_run a rs ws" and "act a (q\<lparr>events := []\<rparr>) = (q', r, w)" and "events q' = es"
    and "rs' = (r \<or> rs \<and> WakeReader \<notin> set es)" and "ws' = (w \<or> ws \<and> WakeWriter \<notin> set es)"
    and "qstep\<^sup>*\<^sup>* (q', rs', ws') s"
  shows "qstep\<^sup>*\<^sup>* (q, rs, ws) s"
  using converse_rtranclp_into_rtranclp [of qstep, OF qstep.step [OF assms(1,2)]] assms(3-6) by simp

text \<open>With a limit of 1 the restart test \<open>len < limit/2\<close> can never hold: after one byte is
  written, a second writer sleeps, the reader drains the queue and sleeps too, although the queue
  is empty and not full.\<close>

theorem queue_limit_one_deadlock:
  "\<exists>q. qstep\<^sup>*\<^sup>* (qopen 1 False False, False, False) (q, True, True) \<and> bfirst q = [] \<and> qnotfull q"
proof (intro exI conjI)
  let ?q0 = "qopen 1 False False"
  let ?q1 = "fst (act (WriteA [65]) ?q0)"
  let ?q2 = "fst (act (WriteA [66]) (?q1\<lparr>events := []\<rparr>))"
  let ?q3 = "fst (act (ReadA 1) (?q2\<lparr>events := []\<rparr>))"
  let ?q4 = "fst (act (ReadA 1) (?q3\<lparr>events := []\<rparr>))"
  note defs = qopen_def qbwrite_def qnotfull_def deliver_def unstarve_def append_block_def wakeif_def
    emit_def fill_def bput_def allocb_def BLEN_def qread_def qbread_def qbread_take_def restart_def
    qbread_putback_def qbread_wake_def bdata_def
  show "qstep\<^sup>*\<^sup>* (?q0, False, False) (?q4, True, True)"
    by (rule qstep_run [where a = "WriteA [65]" and q' = ?q1 and es = "[WakeReader]" and r = False
          and w = False and rs' = False and ws' = False];
        (rule qstep_run [where a = "WriteA [66]" and q' = ?q2 and es = "[]" and r = False
          and w = True and rs' = False and ws' = True])?;
        (rule qstep_run [where a = "ReadA 1" and q' = ?q3 and es = "[]" and r = False
          and w = False and rs' = False and ws' = True])?;
        (rule qstep_run [where a = "ReadA 1" and q' = ?q4 and es = "[]" and r = True
          and w = False and rs' = True and ws' = True])?;
        (rule rtranclp.rtrancl_refl)?; simp add: defs)
  show "bfirst ?q4 = []" "qnotfull ?q4" by (simp_all add: defs)
qed

text \<open>
  The byte streams: interrupt-level \<open>qproduce\<close>/\<open>qconsume\<close> and process-level \<open>qwrite\<close>/\<open>qread\<close>.
  A write that sleeps delivered a part of its data, so the process-level stream is written block
  by block, with \<open>qbwrite\<close>.
\<close>

definition iput :: "queue \<Rightarrow> u8 list \<Rightarrow> queue \<times> bool" where
  "iput q p = (case qproduce q p of (q', r) \<Rightarrow> (q', r \<noteq> - 1))"

definition pput :: "queue \<Rightarrow> u8 list \<Rightarrow> queue \<times> bool" where
  "pput q p = (case qbwrite q (fill p) of (q', r) \<Rightarrow> (q', (case r of Done _ \<Rightarrow> True | _ \<Rightarrow> False)))"

definition pget :: "queue \<Rightarrow> nat \<Rightarrow> queue \<times> u8 list option" where
  "pget q n = (case qread q n of (q', r) \<Rightarrow> (q', (case r of Done p \<Rightarrow> Some p | _ \<Rightarrow> None)))"

interpretation iq: byte_fifo iput qconsume qbytes "\<lambda>q. queue_ok q \<and> \<not> qmsg q"
proof unfold_locales
  fix q p q' ok
  assume "queue_ok q \<and> \<not> qmsg q" and "iput q p = (q', ok)"
  then show "(queue_ok q' \<and> \<not> qmsg q') \<and> qbytes q' = qbytes q @ (if ok then p else [])"
    using qproduce_spec [of q p] by (cases "qproduce q p") (auto simp: iput_def split: if_splits)
next
  fix q n q' r
  assume "queue_ok q \<and> \<not> qmsg q" and "qconsume q n = (q', r)"
  then show "(queue_ok q' \<and> \<not> qmsg q') \<and>
      qbytes q = (case r of Some xs \<Rightarrow> xs | None \<Rightarrow> []) @ qbytes q' \<and>
      length (case r of Some xs \<Rightarrow> xs | None \<Rightarrow> []) \<le> n"
    using qconsume_spec [of q n q' r] by (auto split: option.splits)
qed

interpretation pq: byte_fifo pput pget qbytes "\<lambda>q. queue_ok q \<and> \<not> qmsg q \<and> \<not> noblock q"
proof unfold_locales
  fix q p q' ok
  assume q: "queue_ok q \<and> \<not> qmsg q \<and> \<not> noblock q" and r: "pput q p = (q', ok)"
  obtain r1 where w: "qbwrite q (fill p) = (q', r1)" "ok \<longleftrightarrow> (\<exists>k. r1 = Done k)"
    using r by (auto simp: pput_def split: prod.splits outcome.splits)
  with q qbwrite_spec [of q "fill p" q' r1]
  show "(queue_ok q' \<and> \<not> qmsg q' \<and> \<not> noblock q') \<and> qbytes q' = qbytes q @ (if ok then p else [])"
    by (cases r1) (auto split: if_splits)
next
  fix q n q' r
  assume q: "queue_ok q \<and> \<not> qmsg q \<and> \<not> noblock q" and r: "pget q n = (q', r)"
  obtain r1 where w: "qread q n = (q', r1)" "r = (case r1 of Done p \<Rightarrow> Some p | _ \<Rightarrow> None)"
    using r by (auto simp: pget_def split: prod.splits)
  with q qread_spec [of q n q' r1]
  show "(queue_ok q' \<and> \<not> qmsg q' \<and> \<not> noblock q') \<and>
      qbytes q = (case r of Some xs \<Rightarrow> xs | None \<Rightarrow> []) @ qbytes q' \<and>
      length (case r of Some xs \<Rightarrow> xs | None \<Rightarrow> []) \<le> n"
    by (cases r1) auto
qed

text \<open>C22. A byte-stream queue is a FIFO for interrupt-level code: over any sequence of \<open>qproduce\<close>
  and \<open>qconsume\<close>, the bytes delivered, followed by those still queued, are the bytes first queued
  followed by those accepted, in order.\<close>

theorem queue_interrupt_fifo:
  assumes "queue_ok q \<and> \<not> qmsg q" and "fifo_run iput qconsume ops q = (q', ins, outs)"
  shows "queue_ok q' \<and> outs @ qbytes q' = qbytes q @ ins"
  using iq.fifo_order [OF assms] by simp

theorem queue_interrupt_fifo_witness:
  "\<exists>q' ins outs. fifo_run iput qconsume [Put [1, 2, 3], Get 2, Put [4], Get 9, Get 9] (qopen 2 False False)
     = (q', ins, outs) \<and> outs @ qbytes q' = [] @ ins"
proof -
  obtain q' ins outs where r: "fifo_run iput qconsume [Put [1, 2, 3], Get 2, Put [4], Get 9, Get 9]
      (qopen 2 False False) = (q', ins, outs)" by (metis prod_cases3)
  have "queue_ok (qopen 2 False False) \<and> \<not> qmsg (qopen 2 False False)"
    by (simp add: qopen_def queue_ok_def qbytes_def)
  from queue_interrupt_fifo [OF this r] r show ?thesis by (simp add: qopen_def qbytes_def)
qed

text \<open>C8. The same for processes: over any sequence of \<open>qbwrite\<close> and \<open>qread\<close> on a blocking byte
  stream, where a read splits a block that is longer than it asked for, nothing is lost,
  duplicated or reordered.\<close>

theorem queue_process_fifo:
  assumes "queue_ok q \<and> \<not> qmsg q \<and> \<not> noblock q"
    and "fifo_run pput pget ops q = (q', ins, outs)"
  shows "queue_ok q' \<and> outs @ qbytes q' = qbytes q @ ins"
  using pq.fifo_order [OF assms] by simp

theorem queue_process_fifo_witness:
  "\<exists>q' ins outs. fifo_run pput pget [Put [1, 2, 3], Get 2, Put [4], Get 9, Get 9] (qopen 2 False False)
     = (q', ins, outs) \<and> outs @ qbytes q' = [] @ ins"
proof -
  obtain q' ins outs where r: "fifo_run pput pget [Put [1, 2, 3], Get 2, Put [4], Get 9, Get 9]
      (qopen 2 False False) = (q', ins, outs)" by (metis prod_cases3)
  have "queue_ok (qopen 2 False False) \<and> \<not> qmsg (qopen 2 False False) \<and> \<not> noblock (qopen 2 False False)"
    by (simp add: qopen_def queue_ok_def qbytes_def)
  from queue_process_fifo [OF this r] r show ?thesis by (simp add: qopen_def qbytes_def)
qed

text \<open>C21. \<open>qbread\<close> drops the queue's lock while it copies the remainder of a split block. Writers
  that run in this window append at the back, so putting the remainder back at the front keeps
  the stream in order.\<close>

theorem qbread_split_window:
  assumes "queue_ok q" and "\<not> qmsg q" and "\<not> noblock q"
    and "qbread_take q n = (q1, Done (Some (b, w)))"
    and "fifo_run pput pget (map Put ps) q1 = (q2, ins, outs)"
    and "qbread_putback q2 b n = (q3, nb)"
  shows "queue_ok q3 \<and> BLEN nb \<le> n \<and> bdata nb @ qbytes q3 = qbytes q @ ins"
proof -
  from qbread_take_spec [OF assms(1,4)] assms(2,3)
  have 1: "queue_ok q1 \<and> \<not> qmsg q1 \<and> \<not> noblock q1" "qbytes q = bdata b @ qbytes q1" "block_ok b"
    by simp_all
  have "outs = []" using assms(5)
    by (induction ps arbitrary: q1 ins outs) (auto split: prod.splits if_splits)
  with pq.fifo_order [OF 1(1) assms(5)]
  have 2: "queue_ok q2 \<and> \<not> qmsg q2" "qbytes q1 @ ins = qbytes q2" by simp_all
  from qbread_putback_spec [OF _ 1(3) assms(6)] 2(1)
  have 3: "queue_ok q3" "block_ok nb" "bdata nb = take n (bdata b)" "qbytes q3 = drop n (bdata b) @ qbytes q2"
    by simp_all
  have "BLEN nb \<le> n" using 3(2,3) by (metis length_bdata length_take min.cobounded2)
  then show ?thesis using 3 1(2) 2(2) by simp
qed

theorem qbread_split_window_witness:
  "\<exists>q1 b w q2 ins outs q3 nb.
     qbread_take (fst (pput (qopen 9 False False) [1, 2, 3])) 2 = (q1, Done (Some (b, w))) \<and>
     fifo_run pput pget (map Put [[4]]) q1 = (q2, ins, outs) \<and> qbread_putback q2 b 2 = (q3, nb) \<and>
     bdata nb @ qbytes q3 = [1, 2, 3] @ ins"
proof -
  let ?q = "fst (pput (qopen 9 False False) [1, 2, 3])"
  note defs = pput_def qopen_def qbwrite_def qnotfull_def deliver_def unstarve_def append_block_def
    wakeif_def emit_def fill_def bput_def allocb_def BLEN_def qbread_take_def restart_def bdata_def
  obtain q1 b w where 1: "qbread_take ?q 2 = (q1, Done (Some (b, w)))"
    by (simp add: defs) blast
  obtain q2 ins outs where 2: "fifo_run pput pget (map Put [[4]]) q1 = (q2, ins, outs)"
    by (metis prod_cases3)
  obtain q3 nb where 3: "qbread_putback q2 b 2 = (q3, nb)" by fastforce
  have q: "queue_ok ?q" "\<not> qmsg ?q" "\<not> noblock ?q" "qbytes ?q = [1, 2, 3]"
    by (simp_all add: defs queue_ok_def qbytes_def block_ok_def)
  from qbread_split_window [OF q(1-3) 1 2 3] q(4) 1 2 3 show ?thesis
    by (intro exI [of _ q1] exI [of _ b] exI [of _ w] exI [of _ q2] exI [of _ ins] exI [of _ outs]
      exI [of _ q3] exI [of _ nb]) simp
qed

text \<open>C24. The operations on chains of blocks against the byte string the chain holds:
  \<open>concatblock\<close> keeps it, \<open>trimblock\<close> cuts out \<open>len\<close> bytes at \<open>offset\<close> (or frees the chain when it
  is shorter), \<open>copyblock\<close> copies a zero-padded prefix, \<open>pullblock\<close> drops up to \<open>count\<close> bytes and
  returns how many, and \<open>pullupblock\<close> makes the first \<open>n\<close> bytes contiguous, failing exactly when
  the chain is too short.\<close>

theorem block_chain_operations:
  assumes "chain_ok bs" and "bs \<noteq> []"
  shows "bdata (concatblock bs) = chain_bytes bs \<and>
    chain_bytes (trimblock bs offset len) =
      (if offset + len \<le> blocklen bs then take len (drop offset (chain_bytes bs)) else []) \<and>
    bdata (copyblock bs count) = take count (chain_bytes bs) @ replicate (count - blocklen bs) 0 \<and>
    chain_bytes (fst (pullblock bs count)) = drop count (chain_bytes bs) \<and>
    snd (pullblock bs count) = min count (length (chain_bytes bs)) \<and>
    (case pullupblock bs n of
       None \<Rightarrow> blocklen bs < n
     | Some cs \<Rightarrow> n \<le> blocklen bs \<and> n \<le> BLEN (hd cs) \<and> chain_bytes cs = chain_bytes bs)"
proof (intro conjI)
  show "bdata (concatblock bs) = chain_bytes bs"
    using concat_loop [OF assms(1), of "allocb (blocklen bs)"] by (simp add: concatblock_def block_simps)
  show "case pullupblock bs n of None \<Rightarrow> blocklen bs < n
      | Some cs \<Rightarrow> n \<le> blocklen bs \<and> n \<le> BLEN (hd cs) \<and> chain_bytes cs = chain_bytes bs"
    using pullupblock_spec [OF assms, of n] by (auto split: option.splits)
qed (use assms(1) trimblock_spec copyblock_spec pullblock_spec [OF assms(1), of count]
    length_chain_bytes [OF assms(1)] in \<open>auto simp: min_def\<close>)

theorem block_chain_operations_witness:
  "trimblock [fill [1, 2], fill [3, 4]] 1 2 \<noteq> [] \<and>
   chain_bytes (trimblock [fill [1, 2], fill [3, 4]] 1 2) = [2, 3]"
proof -
  have "chain_ok [fill [1, 2], fill [3, 4]]" "[fill [1, 2], fill [3, 4]] \<noteq> []" by simp_all
  from block_chain_operations [OF this, of 1 2]
  have "chain_bytes (trimblock [fill [1, 2], fill [3, 4]] 1 2) = [2, 3]" by simp
  then show ?thesis by (metis chain_bytes_simps(1) list.distinct(1))
qed

text \<open>\<open>qwrite\<close> on a blocking byte stream cuts the data at 128K: when it returns, the whole
  data is on the queue in order; when it is left sleeping or fails, a prefix is.\<close>

theorem qwrite_stream:
  assumes "queue_ok q" and "\<not> qmsg q" and "\<not> noblock q" and "qwrite q p = (q', r)"
  shows "queue_ok q' \<and> (case r of
      Done k \<Rightarrow> k = length p \<and> qbytes q' = qbytes q @ p
    | _ \<Rightarrow> \<exists>j. qbytes q' = qbytes q @ take j p)"
  using qwrite_loop_spec [OF assms(1-3) _ assms(4) [unfolded qwrite_def]] by (cases r) simp_all

theorem qwrite_stream_witness:
  "\<exists>q' r. qwrite (qopen 9 False False) [1, 2] = (q', r) \<and> queue_ok q'"
proof -
  obtain q' r where w: "qwrite (qopen 9 False False) [1, 2] = (q', r)" by fastforce
  have "queue_ok (qopen 9 False False)" "\<not> qmsg (qopen 9 False False)" "\<not> noblock (qopen 9 False False)"
    by (simp_all add: qopen_def queue_ok_def qbytes_def)
  from qwrite_stream [OF this w] w show ?thesis by blast
qed

text \<open>On a message queue \<open>qwrite\<close> stops after one block: a message of more than 128K is
  queued without its tail, and the caller is told that all of it was written.\<close>

theorem qwrite_message_truncated:
  assumes "queue_ok q" and "qmsg q" and "\<not> closed q" and "qlen q < limit q"
  shows "\<exists>q'. qwrite q p = (q', Done (length p)) \<and> qbytes q' = qbytes q @ take chunk p"
proof -
  let ?n = "min (length p) chunk" let ?b = "bput (allocb ?n) (take ?n p)"
  let ?q = "deliver (if haskick q then [Kick, WakeReader] else [WakeReader]) ?b q"
  have b: "block_ok ?b" "bdata ?b = take ?n p" by (simp_all add: filled_block')
  have w: "qbwrite q ?b = (?q, Done (BLEN ?b))"
    using assms by (simp only: qbwrite_def qnotfull_def simp_thms if_False)
  have "qwrite q p = (?q, Done (length p))"
    unfolding qwrite_def qwrite_loop.simps [of q p 0] Let_def minus_nat.diff_0 drop_0 w
    using assms(2) by (simp only: prod.case outcome.case deliver_simps simp_thms if_False)
  moreover have "take ?n p = take chunk p" by (simp add: min_def)
  ultimately show ?thesis using deliver_ok(2) [OF assms(1) b(1)] b(2) by auto
qed

theorem qwrite_message_truncated_witness:
  "\<exists>q'. qwrite (qopen 9 True False) (replicate 200000 7) = (q', Done 200000) \<and>
     length (qbytes q') = 131072"
proof -
  have "queue_ok (qopen 9 True False)" "qmsg (qopen 9 True False)" "\<not> closed (qopen 9 True False)"
    "qlen (qopen 9 True False) < limit (qopen 9 True False)" "qbytes (qopen 9 True False) = []"
    by (simp_all add: qopen_def queue_ok_def qbytes_def)
  with qwrite_message_truncated [OF this(1-4), of "replicate 200000 7"] show ?thesis
    by (simp add: chunk_def) (metis length_replicate)
qed

text \<open>\<open>qdiscard\<close> drops exactly the first \<open>n\<close> bytes, but leaves \<open>q->len\<close> right only when the
  cut falls between two blocks: the part of a block it skips is never subtracted.\<close>

theorem qdiscard_miscounts:
  assumes "queue_ok q"
  shows "qbytes (qdiscard q n) = drop n (qbytes q) \<and>
    (queue_ok (qdiscard q n) \<longleftrightarrow>
       length (qbytes q) \<le> n \<or> (\<exists>j. n = blocklen (take j (bfirst q))))"
proof -
  obtain cs k where d: "discard_loop (bfirst q) (qlen q) n = (cs, k)" by fastforce
  with discard_loop_spec [where bs = "bfirst q" and k = "qlen q" and n = n] assms
  have "blocklen cs = blocklen (bfirst q) - n"
    by (auto simp: queue_ok_def length_chain_bytes [symmetric])
  with d discard_loop_spec [where bs = "bfirst q" and k = "qlen q" and n = n] assms show ?thesis
    by (simp add: qdiscard_def queue_ok_def qbytes_chain length_chain_bytes)
qed

theorem qdiscard_miscounts_witness:
  "\<not> queue_ok (qdiscard (fst (pput (qopen 9 False False) [1, 2, 3])) 1)"
proof -
  let ?q = "fst (pput (qopen 9 False False) [1, 2, 3])"
  note defs = pput_def qopen_def qbwrite_def qnotfull_def deliver_def unstarve_def append_block_def
    wakeif_def emit_def fill_def bput_def allocb_def BLEN_def bdata_def
  have q: "queue_ok ?q" "length (qbytes ?q) = 3" "bfirst ?q = [fill [1, 2, 3]]"
    by (simp_all add: defs queue_ok_def qbytes_def block_ok_def)
  have "blocklen (take j [fill [1, 2, 3]]) \<noteq> 1" for j by (cases j) simp_all
  with qdiscard_miscounts [OF q(1), of 1] q(2,3) show ?thesis by auto
qed

text \<open>\<open>qcopy\<close> reads \<open>len\<close> bytes at \<open>offset\<close> without consuming them.\<close>

theorem qcopy_reads:
  assumes "queue_ok q"
  shows "bdata (qcopy q len offset) = take len (drop offset (qbytes q))"
proof (cases "qcopy_seek (bfirst q) 0 offset")
  case None
  with qcopy_seek_spec [of "bfirst q" 0 offset] assms show ?thesis
    by (simp add: qcopy_def queue_ok_def qbytes_chain length_chain_bytes block_simps)
next
  case (Some pr)
  then obtain p rest where "qcopy_seek (bfirst q) 0 offset = Some (p, rest)" by (cases pr) simp
  moreover from this qcopy_seek_spec [of "bfirst q" 0 offset] assms
  have "chain_ok rest" "p @ chain_bytes rest = drop offset (qbytes q)"
    by (simp_all add: queue_ok_def qbytes_chain)
  ultimately show ?thesis using qcopy_loop_spec [of rest "allocb len" len 0 p]
    by (simp add: qcopy_def block_simps del: qcopy_loop.simps take_append)
qed

theorem qcopy_reads_witness:
  "bdata (qcopy (fst (pput (qopen 9 False False) [1, 2, 3])) 2 1) = [2, 3]"
proof -
  let ?q = "fst (pput (qopen 9 False False) [1, 2, 3])"
  note defs = pput_def qopen_def qbwrite_def qnotfull_def deliver_def unstarve_def append_block_def
    wakeif_def emit_def fill_def bput_def allocb_def BLEN_def bdata_def
  have q: "queue_ok ?q" "qbytes ?q = [1, 2, 3]"
    by (simp_all add: defs queue_ok_def qbytes_def block_ok_def)
  from qcopy_reads [OF q(1), of 2 1] q(2) show ?thesis by simp
qed

end
