(* ===== verification/Styx.thy ===== *)
theory Styx
  imports Codec
begin

text \<open>
  The Styx file protocol's messages (\<^verbatim>\<open>emu/styx.c\<close>, \<^verbatim>\<open>include/styx.h\<close>): \<open>convS2M\<close> and \<open>convM2S\<close>
  convert between an \<open>Fcall\<close> and its bytes, \<open>convD2M\<close> and \<open>convM2D\<close> between a directory entry and
  its bytes. Numbers are little-endian; strings are the fixed-size arrays of the structures.

  Each case of the two switches is the list of the fields its macros convert, in order. The reader
  gets the whole buffer and the number \<open>n\<close> of bytes received into it: what lies behind them is
  left from earlier messages, and reading past the buffer is \<open>Undef\<close>.
\<close>

section \<open>Messages\<close>

definition NAMELEN :: nat where "NAMELEN = 28"
definition ERRLEN :: nat where "ERRLEN = 64"
definition DIRLEN :: nat where "DIRLEN = 116"

record fcall =
  ftype :: u8
  fid :: u16
  ftag :: u16
  oldtag :: u16
  qpath :: u32
  qvers :: u32
  uname :: "u8 list"
  aname :: "u8 list"
  ename :: "u8 list"
  perm :: u32
  newfid :: u16
  fname :: "u8 list"
  fmode :: u8
  offset :: u32
  fcount :: u32
  fdata :: "u8 list"
  fstat :: "u8 list"

abbreviation (input) "Tnop \<equiv> 0 :: nat"
abbreviation (input) "Rnop \<equiv> 1 :: nat"
abbreviation (input) "Rerror \<equiv> 3 :: nat"
abbreviation (input) "Tflush \<equiv> 4 :: nat"
abbreviation (input) "Rflush \<equiv> 5 :: nat"
abbreviation (input) "Tclone \<equiv> 6 :: nat"
abbreviation (input) "Rclone \<equiv> 7 :: nat"
abbreviation (input) "Twalk \<equiv> 8 :: nat"
abbreviation (input) "Rwalk \<equiv> 9 :: nat"
abbreviation (input) "Topen \<equiv> 10 :: nat"
abbreviation (input) "Ropen \<equiv> 11 :: nat"
abbreviation (input) "Tcreate \<equiv> 12 :: nat"
abbreviation (input) "Rcreate \<equiv> 13 :: nat"
abbreviation (input) "Tread \<equiv> 14 :: nat"
abbreviation (input) "Rread \<equiv> 15 :: nat"
abbreviation (input) "Twrite \<equiv> 16 :: nat"
abbreviation (input) "Rwrite \<equiv> 17 :: nat"
abbreviation (input) "Tclunk \<equiv> 18 :: nat"
abbreviation (input) "Rclunk \<equiv> 19 :: nat"
abbreviation (input) "Tremove \<equiv> 20 :: nat"
abbreviation (input) "Rremove \<equiv> 21 :: nat"
abbreviation (input) "Tstat \<equiv> 22 :: nat"
abbreviation (input) "Rstat \<equiv> 23 :: nat"
abbreviation (input) "Twstat \<equiv> 24 :: nat"
abbreviation (input) "Rwstat \<equiv> 25 :: nat"
abbreviation (input) "Tattach \<equiv> 28 :: nat"
abbreviation (input) "Rattach \<equiv> 29 :: nat"

definition Tmax :: nat where "Tmax = 30"

text \<open>The initialiser lists no entry for \<open>Tsession\<close> and \<open>Rsession\<close>, so the last two entries stay 0.\<close>

definition msglen :: "nat list" where
  "msglen =
    [3, 3, 0, 67, 5, 3, 7, 5, 33, 13, 6, 13, 38, 13, 15, 8, 16, 7, 5, 5, 5, 5, 5, 121, 121, 5,
     5 + 2 * 28, 13, 0, 0]"

datatype fld = Oldtag | Fid | Newfid | Uname | Aname | Name | Ename | Stat | Mode | Perm | Offset
  | Count | QidPath | QidVers | PadData

definition s2m_layout :: "nat \<Rightarrow> fld list option" where
  "s2m_layout = map_of
    [(Tnop, []), (Tflush, [Oldtag]), (Tattach, [Fid, Uname, Aname]), (Tclone, [Fid, Newfid]),
     (Twalk, [Fid, Name]), (Topen, [Fid, Mode]), (Tcreate, [Fid, Name, Perm, Mode]),
     (Tread, [Fid, Offset, Count]), (Twrite, [Fid, Offset, Count, PadData]), (Tclunk, [Fid]),
     (Tremove, [Fid]), (Tstat, [Fid]), (Twstat, [Fid, Stat]),
     (Rnop, []), (Rerror, [Ename]), (Rflush, []), (Rattach, [Fid, QidPath, QidVers]),
     (Rclone, [Fid]), (Rwalk, [Fid, QidPath, QidVers]), (Ropen, [Fid, QidPath, QidVers]),
     (Rcreate, [Fid, QidPath, QidVers]), (Rread, [Fid, Count, PadData]), (Rwrite, [Fid, Count]),
     (Rclunk, [Fid]), (Rremove, [Fid]), (Rstat, [Fid, Stat]), (Rwstat, [Fid])]"

definition m2s_layout :: "nat \<Rightarrow> fld list option" where
  "m2s_layout = map_of
    [(Tnop, []), (Tflush, [Oldtag]), (Tattach, [Fid, Uname, Aname]), (Tclone, [Fid, Newfid]),
     (Twalk, [Fid, Name]), (Topen, [Fid, Mode]), (Tcreate, [Fid, Name, Perm, Mode]),
     (Tread, [Fid, Offset, Count]), (Twrite, [Fid, Offset, Count, PadData]), (Tclunk, [Fid]),
     (Tremove, [Fid]), (Tstat, [Fid]), (Twstat, [Fid, Stat]),
     (Rnop, []), (Rerror, [Ename]), (Rflush, []), (Rattach, [Fid, QidPath, QidVers]),
     (Rclone, [Fid]), (Rwalk, [Fid, QidPath, QidVers]), (Ropen, [Fid, QidPath, QidVers]),
     (Rcreate, [Fid, QidPath, QidVers]), (Rread, [Fid, Count, PadData]), (Rwrite, [Fid, Count]),
     (Rclunk, [Fid]), (Rremove, [Fid]), (Rstat, [Fid, Stat]), (Rwstat, [Fid])]"

section \<open>The macros\<close>

definition le16 :: "u16 \<Rightarrow> u8 list" where "le16 x = [ucast x, ucast (drop_bit 8 x)]"

definition le32 :: "u32 \<Rightarrow> u8 list" where
  "le32 x = [ucast x, ucast (drop_bit 8 x), ucast (drop_bit 16 x), ucast (drop_bit 24 x)]"

definition of_le16 :: "u8 list \<Rightarrow> u16" where
  "of_le16 p = ucast (p ! 0) OR push_bit 8 (ucast (p ! 1))"

definition of_le32 :: "u8 list \<Rightarrow> u32" where
  "of_le32 p = ucast (p ! 0) OR push_bit 8 (ucast (p ! 1)) OR push_bit 16 (ucast (p ! 2))
     OR push_bit 24 (ucast (p ! 3))"

text \<open>\<open>PSHORT\<close>, \<open>PLONG\<close>, \<open>PVLONG\<close>, \<open>PSTRING\<close>; \<open>pad\<close> is the byte the writer skips with \<open>p++\<close>.\<close>

fun put_fld :: "u8 \<Rightarrow> fcall \<Rightarrow> fld \<Rightarrow> u8 list" where
  "put_fld pad f Oldtag = le16 (oldtag f)"
| "put_fld pad f Fid = le16 (fid f)"
| "put_fld pad f Newfid = le16 (newfid f)"
| "put_fld pad f Uname = take NAMELEN (uname f)"
| "put_fld pad f Aname = take NAMELEN (aname f)"
| "put_fld pad f Name = take NAMELEN (fname f)"
| "put_fld pad f Ename = take ERRLEN (ename f)"
| "put_fld pad f Stat = take DIRLEN (fstat f)"
| "put_fld pad f Mode = [fmode f]"
| "put_fld pad f Perm = le32 (perm f)"
| "put_fld pad f Offset = le32 (offset f) @ [0, 0, 0, 0]"
| "put_fld pad f Count = le16 (ucast (fcount f))"
| "put_fld pad f QidPath = le32 (qpath f)"
| "put_fld pad f QidVers = le32 (qvers f)"
| "put_fld pad f PadData = pad # take (unat (fcount f)) (fdata f)"

definition convS2M :: "u8 \<Rightarrow> fcall \<Rightarrow> u8 list option" where
  "convS2M pad f =
    (case s2m_layout (unat (ftype f)) of
       None \<Rightarrow> None
     | Some fs \<Rightarrow> Some (ftype f # le16 (ftag f) @ concat (map (put_fld pad f) fs)))"

text \<open>How many bytes a field takes, and what the reader stores.\<close>

fun fld_size :: "fcall \<Rightarrow> fld \<Rightarrow> nat" where
  "fld_size f Oldtag = 2"
| "fld_size f Fid = 2"
| "fld_size f Newfid = 2"
| "fld_size f Uname = NAMELEN"
| "fld_size f Aname = NAMELEN"
| "fld_size f Name = NAMELEN"
| "fld_size f Ename = ERRLEN"
| "fld_size f Stat = DIRLEN"
| "fld_size f Mode = 1"
| "fld_size f Perm = 4"
| "fld_size f Offset = 8"
| "fld_size f Count = 2"
| "fld_size f QidPath = 4"
| "fld_size f QidVers = 4"
| "fld_size f PadData = Suc (unat (fcount f))"

fun set_fld :: "fld \<Rightarrow> u8 list \<Rightarrow> fcall \<Rightarrow> fcall" where
  "set_fld Oldtag p f = f\<lparr>oldtag := of_le16 p\<rparr>"
| "set_fld Fid p f = f\<lparr>fid := of_le16 p\<rparr>"
| "set_fld Newfid p f = f\<lparr>newfid := of_le16 p\<rparr>"
| "set_fld Uname p f = f\<lparr>uname := p\<rparr>"
| "set_fld Aname p f = f\<lparr>aname := p\<rparr>"
| "set_fld Name p f = f\<lparr>fname := p\<rparr>"
| "set_fld Ename p f = f\<lparr>ename := p\<rparr>"
| "set_fld Stat p f = f\<lparr>fstat := p\<rparr>"
| "set_fld Mode p f = f\<lparr>fmode := p ! 0\<rparr>"
| "set_fld Perm p f = f\<lparr>perm := of_le32 p\<rparr>"
| "set_fld Offset p f = f\<lparr>offset := of_le32 p\<rparr>"
| "set_fld Count p f = f\<lparr>fcount := ucast (of_le16 p)\<rparr>"
| "set_fld QidPath p f = f\<lparr>qpath := of_le32 p\<rparr>"
| "set_fld QidVers p f = f\<lparr>qvers := of_le32 p\<rparr>"
| "set_fld PadData p f = f\<lparr>fdata := drop 1 p\<rparr>"

text \<open>The reader's loop: no rest is \<open>return 0\<close>, when the data announced by \<open>count\<close> did not arrive.\<close>

fun get_flds :: "nat \<Rightarrow> nat \<Rightarrow> fld list \<Rightarrow> fcall \<Rightarrow> u8 list \<Rightarrow> (fcall \<times> u8 list option) res" where
  "get_flds n m [] f s = Inr (f, Some s)"
| "get_flds n m (x # xs) f s =
    (if x = PadData \<and> n < m + unat (fcount f) then Inr (f, None)
     else if length s < fld_size f x then Inl Undef
     else get_flds n m xs (set_fld x (take (fld_size f x) s) f) (drop (fld_size f x) s))"

text \<open>The index into \<open>msglen\<close> is a \<open>char\<close>: negative or past the table it is outside the array.\<close>

definition convM2S :: "u8 list \<Rightarrow> fcall \<Rightarrow> nat \<Rightarrow> (int \<times> fcall) res" where
  "convM2S ap f n =
    (if n < 3 then Inr (0, f)
     else if length ap < 3 then Inl Undef
     else
       (let f1 = f\<lparr>ftype := ap ! 0, ftag := of_le16 (drop 1 ap)\<rparr>; t = sint (ftype f1) in
        if t < 0 \<or> t \<ge> int Tmax then Inl Undef
        else if n < msglen ! nat t then Inr (0, f1)
        else case m2s_layout (nat t) of
            None \<Rightarrow> Inr (- 1, f1)
          | Some fs \<Rightarrow>
              bindR (get_flds n (msglen ! nat t) fs f1 (drop 3 ap)) (\<lambda>(f2, r).
                Inr (case r of None \<Rightarrow> (0, f2) | Some s \<Rightarrow> (int (length ap - length s), f2)))))"

section \<open>Directory entries\<close>

record dir =
  dname :: "u8 list"
  duid :: "u8 list"
  dgid :: "u8 list"
  dpath :: u32
  dvers :: u32
  dmode :: u32
  datime :: u32
  dmtime :: u32
  dlength :: u32
  dtype :: u16
  ddev :: u16

definition convD2M :: "dir \<Rightarrow> u8 list" where
  "convD2M f = take NAMELEN (dname f) @ take NAMELEN (duid f) @ take NAMELEN (dgid f) @
     le32 (dpath f) @ le32 (dvers f) @ le32 (dmode f) @ le32 (datime f) @ le32 (dmtime f) @
     le32 (dlength f) @ [0, 0, 0, 0] @ le16 (dtype f) @ le16 (ddev f)"

definition convM2D :: "u8 list \<Rightarrow> dir \<times> nat" where
  "convM2D ap =
    (let uid = drop NAMELEN ap; gid = drop NAMELEN uid; p = drop NAMELEN gid in
     (\<lparr>dname = take NAMELEN ap, duid = take NAMELEN uid, dgid = take NAMELEN gid,
       dpath = of_le32 p, dvers = of_le32 (drop 4 p), dmode = of_le32 (drop 8 p),
       datime = of_le32 (drop 12 p), dmtime = of_le32 (drop 16 p), dlength = of_le32 (drop 20 p),
       dtype = of_le16 (drop 28 p), ddev = of_le16 (drop 30 p)\<rparr>,
      3 * NAMELEN + 32))"

section \<open>Fields\<close>

declare of_nat_unat [simp del]

lemma le_simps [simp]:
  "length (le16 x) = 2" "length (le32 y) = 4" "of_le16 (le16 x @ t) = x" "of_le32 (le32 y @ t) = y"
  "of_le16 (le16 x) = x" "of_le32 (le32 y) = y"
proof -
  have 16: "ucast (ucast x :: u8) OR push_bit 8 (ucast (ucast (drop_bit 8 x) :: u8)) = x" for x :: u16
    by (rule bit_word_eqI) (auto simp: bit_simps)
  have 32: "ucast (ucast y :: u8) OR push_bit 8 (ucast (ucast (drop_bit 8 y) :: u8)) OR
      push_bit 16 (ucast (ucast (drop_bit 16 y) :: u8)) OR push_bit 24 (ucast (ucast (drop_bit 24 y) :: u8)) = y"
    for y :: u32 by (rule word32_eq_bits) (simp add: upt_32 bit_simps)
  show "length (le16 x) = 2" "length (le32 y) = 4" by (simp_all add: le16_def le32_def)
  show "of_le16 (le16 x @ t) = x" "of_le16 (le16 x) = x" using 16 by (simp_all add: le16_def of_le16_def)
  show "of_le32 (le32 y @ t) = y" "of_le32 (le32 y) = y"
    using 32 by (simp_all add: le32_def of_le32_def numeral_2_eq_2 numeral_3_eq_3)
qed

text \<open>A field that fits its place in the message, and two messages that agree on a field.\<close>

fun fld_ok :: "fcall \<Rightarrow> fld \<Rightarrow> bool" where
  "fld_ok f Uname = (length (uname f) = NAMELEN)"
| "fld_ok f Aname = (length (aname f) = NAMELEN)"
| "fld_ok f Name = (length (fname f) = NAMELEN)"
| "fld_ok f Ename = (length (ename f) = ERRLEN)"
| "fld_ok f Stat = (length (fstat f) = DIRLEN)"
| "fld_ok f Count = (unat (fcount f) < 2 ^ 16)"
| "fld_ok f PadData = (length (fdata f) = unat (fcount f))"
| "fld_ok f _ = True"

fun agree :: "fcall \<Rightarrow> fcall \<Rightarrow> fld \<Rightarrow> bool" where
  "agree f g Oldtag = (oldtag g = oldtag f)"
| "agree f g Fid = (fid g = fid f)"
| "agree f g Newfid = (newfid g = newfid f)"
| "agree f g Uname = (uname g = uname f)"
| "agree f g Aname = (aname g = aname f)"
| "agree f g Name = (fname g = fname f)"
| "agree f g Ename = (ename g = ename f)"
| "agree f g Stat = (fstat g = fstat f)"
| "agree f g Mode = (fmode g = fmode f)"
| "agree f g Perm = (perm g = perm f)"
| "agree f g Offset = (offset g = offset f)"
| "agree f g Count = (fcount g = fcount f)"
| "agree f g QidPath = (qpath g = qpath f)"
| "agree f g QidVers = (qvers g = qvers f)"
| "agree f g PadData = (fdata g = fdata f)"

lemma count_via_16 [simp]: "unat (w :: u32) < 2 ^ 16 \<Longrightarrow> ucast (ucast w :: u16) = w"
proof (rule bit_word_eqI)
  fix i assume *: "unat w < 2 ^ 16" "i < LENGTH(32)"
  show "bit (ucast (ucast w :: u16) :: u32) i = bit w i"
    using bit_above [OF *(1), of i] *(2) by (cases "i < 16") (simp_all add: bit_simps)
qed

lemma fld_step:
  assumes "fld_ok f x" and "x = PadData \<Longrightarrow> fcount g = fcount f"
  shows "length (put_fld pad f x) = fld_size g x" "agree f (set_fld x (put_fld pad f x) g) x"
  using assms by (cases x; simp)+

lemma set_fld_other: "y \<noteq> x \<Longrightarrow> agree f (set_fld x p g) y = agree f g y"
  by (cases x; cases y) simp_all

lemma set_fld_head [simp]: "ftype (set_fld x p g) = ftype g" "ftag (set_fld x p g) = ftag g"
  "x \<noteq> Count \<Longrightarrow> fcount (set_fld x p g) = fcount g"
  by (cases x; simp)+

text \<open>The data comes after the count, and last.\<close>

fun data_last :: "bool \<Rightarrow> fld list \<Rightarrow> bool" where
  "data_last c [] = True"
| "data_last c (x # xs) = ((x = PadData \<longrightarrow> c \<and> xs = []) \<and> data_last (c \<or> x = Count) xs)"

lemma get_put_flds:
  assumes "list_all (fld_ok f) fs" and "distinct fs" and "data_last c fs" and "c \<Longrightarrow> fcount g = fcount f"
    and "PadData \<in> set fs \<Longrightarrow> m + unat (fcount f) \<le> n"
  shows "\<exists>g'. get_flds n m fs g (concat (map (put_fld pad f) fs) @ t) = Inr (g', Some t) \<and>
    list_all (agree f g') fs \<and> (\<forall>y. y \<notin> set fs \<longrightarrow> agree f g y \<longrightarrow> agree f g' y) \<and>
    ftype g' = ftype g \<and> ftag g' = ftag g"
  using assms
proof (induction fs arbitrary: g c)
  case Nil
  then show ?case by simp
next
  case (Cons x xs)
  let ?p = "put_fld pad f x" and ?rest = "concat (map (put_fld pad f) xs) @ t"
  have ok: "fld_ok f x" and cnt: "x = PadData \<Longrightarrow> fcount g = fcount f" using Cons.prems by auto
  note st = fld_step [OF ok cnt, where pad = pad]
  have "c \<or> x = Count \<Longrightarrow> fcount (set_fld x ?p g) = fcount f"
    using Cons.prems(4) st(2) by (cases "x = Count") auto
  from Cons.IH [of "c \<or> x = Count", OF _ _ _ this] Cons.prems obtain g' where
    g': "get_flds n m xs (set_fld x ?p g) ?rest = Inr (g', Some t)" "list_all (agree f g') xs"
      "\<forall>y. y \<notin> set xs \<longrightarrow> agree f (set_fld x ?p g) y \<longrightarrow> agree f g' y"
      "ftype g' = ftype (set_fld x ?p g)" "ftag g' = ftag (set_fld x ?p g)"
    by auto
  have "x = PadData \<Longrightarrow> m + unat (fcount g) \<le> n" using Cons.prems(5) cnt by simp
  then have "get_flds n m (x # xs) g (?p @ ?rest) = Inr (g', Some t)"
    using st(1) g'(1) by auto
  moreover have "agree f g' x" using g'(3) st(2) Cons.prems(2) by simp
  moreover have "agree f g' y" if "y \<notin> set (x # xs)" "agree f g y" for y
    using that g'(3) set_fld_other [of y x f ?p g] by simp
  ultimately show ?case using g'(2,4,5) by (intro exI [of _ g']) simp
qed

fun fixed_size :: "fld \<Rightarrow> nat" where
  "fixed_size PadData = 1"
| "fixed_size x = fld_size undefined x"

lemma fixed_size_le: "x \<noteq> PadData \<Longrightarrow> fld_size f x = fixed_size x"
  by (cases x) simp_all

text \<open>What the two switches and the table of lengths have in common, case by case.\<close>

definition fixed_sum :: "fld list \<Rightarrow> nat" where "fixed_sum fs = sum_list (map fixed_size fs)"

lemma layouts_agree: "s2m_layout = m2s_layout"
  by (simp add: s2m_layout_def m2s_layout_def)

lemma layout_facts:
  assumes "m2s_layout t = Some fs"
  shows "distinct fs" "data_last False fs" "t < Tmax" "msglen ! t \<le> 3 + fixed_sum fs"
    "t \<noteq> Tattach \<Longrightarrow> t \<noteq> Rattach \<Longrightarrow> msglen ! t = 3 + fixed_sum fs"
proof -
  let ?P = "\<lambda>(t, fs). distinct fs \<and> data_last False fs \<and> t < Tmax \<and> msglen ! t \<le> 3 + fixed_sum fs \<and>
    (t \<noteq> Tattach \<longrightarrow> t \<noteq> Rattach \<longrightarrow> msglen ! t = 3 + fixed_sum fs)"
  have "?P (t, fs)"
    using assms unfolding m2s_layout_def
    by (auto simp: Tmax_def msglen_def fixed_sum_def NAMELEN_def ERRLEN_def DIRLEN_def
        simp del: One_nat_def split: if_splits)
  then show "distinct fs" "data_last False fs" "t < Tmax" "msglen ! t \<le> 3 + fixed_sum fs"
    "t \<noteq> Tattach \<Longrightarrow> t \<noteq> Rattach \<Longrightarrow> msglen ! t = 3 + fixed_sum fs" by simp_all
qed

lemma put_flds_length:
  assumes "list_all (fld_ok f) fs" and "distinct fs"
  shows "fixed_sum fs + (if PadData \<in> set fs then unat (fcount f) else 0) =
    length (concat (map (put_fld pad f) fs))"
  using assms
proof (induction fs)
  case (Cons x xs)
  have "length (put_fld pad f x) = fld_size f x" using fld_step(1) [of f x f] Cons.prems by simp
  then show ?case using Cons fixed_size_le [of x f] by (cases "x = PadData") (auto simp: fixed_sum_def)
qed (simp add: fixed_sum_def)

lemma get_flds_local:
  assumes "data_last c fs" and "m = k + fixed_sum fs" and "m \<le> n" and "length s = n - k"
  shows "\<exists>g r. \<forall>x. get_flds n m fs f (s @ x) = Inr (g, map_option (\<lambda>s'. s' @ x) r) \<and>
    (case r of None \<Rightarrow> True | Some s' \<Rightarrow> length s' \<le> length s)"
  using assms
proof (induction fs arbitrary: f s k c)
  case Nil
  show ?case by (rule exI [of _ f], rule exI [of _ "Some s"]) simp
next
  case (Cons y ys)
  show ?case
  proof (cases "y = PadData \<and> n < m + unat (fcount f)")
    case True
    then show ?thesis by (intro exI [of _ f] exI [of _ None]) simp
  next
    case False
    have fit: "fld_size f y \<le> length s"
    proof (cases "y = PadData")
      case True
      then have "m = k + 1" using Cons.prems(1,2) by (simp add: fixed_sum_def)
      then show ?thesis using True False Cons.prems(3,4) by simp
    next
      case nd: False
      then show ?thesis using Cons.prems(2-4) fixed_size_le [OF nd] by (simp add: fixed_sum_def)
    qed
    let ?f = "set_fld y (take (fld_size f y) s) f" and ?s = "drop (fld_size f y) s"
    have step: "get_flds n m (y # ys) f (s @ x) = get_flds n m ys ?f (?s @ x)" for x
      using False fit by auto
    show ?thesis
    proof (cases "y = PadData")
      case True
      then have "ys = []" using Cons.prems(1) by simp
      then show ?thesis unfolding step by (intro exI [of _ ?f] exI [of _ "Some ?s"]) simp
    next
      case nd: False
      have "m = (k + fld_size f y) + fixed_sum ys" "length ?s = n - (k + fld_size f y)"
        using Cons.prems(2,4) fixed_size_le [OF nd] by (simp_all add: fixed_sum_def)
      with Cons.IH [of "c \<or> y = Count" "k + fld_size f y" ?s ?f] Cons.prems(1,3)
      obtain g r where "\<forall>x. get_flds n m ys ?f (?s @ x) = Inr (g, map_option (\<lambda>s'. s' @ x) r) \<and>
        (case r of None \<Rightarrow> True | Some s' \<Rightarrow> length s' \<le> length ?s)" by auto
      then show ?thesis unfolding step
        by (intro exI [of _ g] exI [of _ r]) (auto split: option.splits)
    qed
  qed
qed

section \<open>Properties\<close>

definition fcall_ok :: "fcall \<Rightarrow> bool" where
  "fcall_ok f \<longleftrightarrow> (case m2s_layout (unat (ftype f)) of None \<Rightarrow> False | Some fs \<Rightarrow> list_all (fld_ok f) fs)"

text \<open>C6. Every Styx message survives the wire: for a message whose fields fit, \<open>convM2S\<close> applied to
  the bytes \<open>convS2M\<close> wrote, whatever lies behind them in the buffer, takes exactly these bytes and
  returns the type, the tag and every field of the message's type.\<close>

theorem styx_roundtrip:
  assumes "fcall_ok f" and "convS2M pad f = Some bs"
  shows "\<exists>g. convM2S (bs @ t) f0 (length bs) = Inr (int (length bs), g) \<and> ftype g = ftype f \<and>
    ftag g = ftag f \<and> (\<forall>fs. m2s_layout (unat (ftype f)) = Some fs \<longrightarrow> list_all (agree f g) fs)"
proof -
  let ?t = "unat (ftype f)"
  obtain fs where fs: "m2s_layout ?t = Some fs" "list_all (fld_ok f) fs"
    using assms(1) by (auto simp: fcall_ok_def split: option.splits)
  note lf = layout_facts [OF fs(1)]
  let ?body = "concat (map (put_fld pad f) fs)"
  have bs: "bs = ftype f # le16 (ftag f) @ ?body"
    using assms(2) fs(1) by (simp add: convS2M_def layouts_agree)
  let ?f1 = "f0\<lparr>ftype := ftype f, ftag := ftag f\<rparr>"
  have sz: "fixed_sum fs + (if PadData \<in> set fs then unat (fcount f) else 0) = length ?body"
    by (rule put_flds_length [OF fs(2) lf(1)])
  have n: "length bs = 3 + length ?body" using bs by simp
  have enough: "msglen ! ?t \<le> length bs" using lf(4) sz n by linarith
  have "PadData \<in> set fs \<Longrightarrow> msglen ! ?t + unat (fcount f) \<le> length bs"
    using lf(4) sz n by simp
  from get_put_flds [OF fs(2) lf(1,2) _ this, where pad = pad, of ?f1 t] obtain g where
    g: "get_flds (length bs) (msglen ! ?t) fs ?f1 (?body @ t) = Inr (g, Some t)"
      "list_all (agree f g) fs" "ftype g = ftype f" "ftag g = ftag f" by auto
  have st: "sint (ftype f) = int ?t"
    using lf(3) by (intro sint_u8) (simp add: Tmax_def)
  have hd: "(bs @ t) ! 0 = ftype f" "drop 1 (bs @ t) = le16 (ftag f) @ ?body @ t"
    "drop 3 (bs @ t) = ?body @ t" by (simp_all add: bs le16_def numeral_3_eq_3)
  have "convM2S (bs @ t) f0 (length bs) = Inr (int (length bs), g)"
    unfolding convM2S_def Let_def hd
    using g(1) fs(1) enough n lf(3) by (simp add: st)
  with g fs(1) show ?thesis by auto
qed

definition wit_msg :: fcall where
  "wit_msg = \<lparr>ftype = 12, fid = 7, ftag = 1, oldtag = 0, qpath = 0, qvers = 0, uname = replicate 28 0,
     aname = replicate 28 0, ename = replicate 64 0, perm = 0x1B4, newfid = 0,
     fname = 97 # replicate 27 0, fmode = 1, offset = 0, fcount = 0, fdata = [], fstat = replicate 116 0\<rparr>"

theorem styx_roundtrip_witness:
  "\<exists>bs g. convS2M 0 wit_msg = Some bs \<and> length bs = 38 \<and>
     convM2S (bs @ [1, 2]) wit_msg (length bs) = Inr (38, g) \<and> ftype g = 12 \<and> ftag g = 1"
proof -
  obtain bs where bs: "convS2M 0 wit_msg = Some bs" "length bs = 38"
    by (simp add: convS2M_def s2m_layout_def wit_msg_def NAMELEN_def)
  have "fcall_ok wit_msg" by (simp add: fcall_ok_def m2s_layout_def wit_msg_def NAMELEN_def)
  from styx_roundtrip [OF this bs(1), of "[1, 2]" wit_msg] bs show ?thesis by (auto simp: wit_msg_def)
qed

text \<open>C18. The reader looks only at the bytes received: for every type in the table other than the
  two attach messages, what it returns for the first \<open>n\<close> bytes of the buffer, be it a message, a
  short message or an unknown type, does not depend on what lies behind them, and it never reads
  past the buffer, however malformed the bytes are.\<close>

theorem styx_reads_received_bytes:
  assumes "n = length a" and "a \<noteq> []" and "unat (hd a) < Tmax" and "unat (hd a) \<notin> {Tattach, Rattach}"
    and "3 \<le> n"
  shows "\<exists>k g. \<forall>x. convM2S (a @ x) f n = Inr (k, g) \<and> k \<le> int n"
proof -
  obtain a0 a1 a2 s where a: "a = a0 # a1 # a2 # s"
    using assms(1,5) by (cases a rule: list.exhaust) (auto simp: Suc_le_length_iff numeral_3_eq_3)
  have st: "sint a0 = int (unat a0)" using assms(3) a by (intro sint_u8) (simp add: Tmax_def)
  have tag: "of_le16 (drop 1 (a @ x)) = of_le16 [a1, a2]" for x by (simp add: a of_le16_def)
  have drop3: "drop 3 (a @ x) = s @ x" "(a @ x) ! 0 = a0" for x by (simp_all add: a numeral_3_eq_3)
  let ?f1 = "f\<lparr>ftype := a0, ftag := of_le16 [a1, a2]\<rparr>" and ?m = "msglen ! unat a0"
  have unf: "convM2S (a @ x) f n =
      (if n < ?m then Inr (0, ?f1)
       else case m2s_layout (unat a0) of None \<Rightarrow> Inr (- 1, ?f1)
         | Some fs \<Rightarrow> bindR (get_flds n ?m fs ?f1 (s @ x)) (\<lambda>(f2, r).
             Inr (case r of None \<Rightarrow> (0, f2) | Some s' \<Rightarrow> (int (length (a @ x) - length s'), f2))))" for x
    unfolding convM2S_def Let_def tag drop3 using assms(1,3,5) a
    by (cases "m2s_layout (unat a0)") (simp_all add: st)
  show ?thesis
  proof (cases "n < ?m")
    case True
    then have "convM2S (a @ x) f n = Inr (0, ?f1)" for x using unf [of x] by (simp only: if_True)
    then show ?thesis by (intro exI [of _ 0] exI [of _ ?f1]) simp
  next
    case False
    show ?thesis
    proof (cases "m2s_layout (unat a0)")
      case None
      then have "convM2S (a @ x) f n = Inr (- 1, ?f1)" for x unfolding unf using False by simp
      then show ?thesis by (intro exI [of _ "- 1"] exI [of _ ?f1]) simp
    next
      case (Some fs)
      note lf = layout_facts [OF Some]
      have "?m = 3 + fixed_sum fs" using lf(5) assms(4) a by auto
      moreover have "?m \<le> n" "length s = n - 3" using False assms(1) a by simp_all
      ultimately obtain g r where gr':
        "\<forall>x. get_flds n ?m fs ?f1 (s @ x) = Inr (g, map_option (\<lambda>s'. s' @ x) r) \<and>
          (case r of None \<Rightarrow> True | Some s' \<Rightarrow> length s' \<le> length s)"
        using get_flds_local [OF lf(2), of ?m 3 n s ?f1] by blast
      then have gr: "get_flds n ?m fs ?f1 (s @ x) = Inr (g, map_option (\<lambda>s'. s' @ x) r)" for x by blast
      show ?thesis
      proof (cases r)
        case None
        then have "convM2S (a @ x) f n = Inr (0, g)" for x unfolding unf using False Some gr(1) by simp
        then show ?thesis by (intro exI [of _ 0] exI [of _ g]) simp
      next
        case r: (Some s')
        have "convM2S (a @ x) f n = Inr (int (length a - length s'), g)" for x
          unfolding unf using False Some gr(1) r by simp
        then show ?thesis using assms(1)
          by (intro exI [of _ "int (length a - length s')"] exI [of _ g]) simp
      qed
    qed
  qed
qed

theorem styx_reads_received_bytes_witness:
  "\<exists>k g. \<forall>x. convM2S ([8, 1, 0, 7, 0] @ x) wit_msg 5 = Inr (k, g) \<and> k \<le> int 5"
  by (rule styx_reads_received_bytes) (simp_all add: Tmax_def)

text \<open>The table of minimal lengths has no entries for the two session messages, so \<open>Tattach\<close> and
  \<open>Rattach\<close> have none: an attach request of three bytes is accepted, 61 bytes are reported as
  consumed, and the user name is whatever an earlier message left in the buffer.\<close>

theorem attach_length_unchecked:
  assumes "length u = NAMELEN" and "length v = NAMELEN"
  shows "\<exists>g. convM2S ([28, lo, hi] @ [i, j] @ u @ v @ x) f 3 = Inr (61, g) \<and> uname g = u \<and> aname g = v"
  using assms
  by (simp add: convM2S_def msglen_def m2s_layout_def Tmax_def numeral_3_eq_3 NAMELEN_def)

theorem attach_length_unchecked_witness:
  "\<exists>g. convM2S ([28, 1, 0] @ [9, 0] @ replicate 28 65 @ replicate 28 0 @ []) wit_msg 3 = Inr (61, g) \<and>
     uname g = replicate 28 65 \<and> aname g = replicate 28 0"
  by (rule attach_length_unchecked) (simp_all add: NAMELEN_def)

text \<open>Directory entries survive the wire: \<open>convM2D\<close> reads back what \<open>convD2M\<close> wrote, which is
  exactly the \<open>DIRLEN\<close> bytes a stat message has room for.\<close>

definition dir_ok :: "dir \<Rightarrow> bool" where
  "dir_ok d \<longleftrightarrow> length (dname d) = NAMELEN \<and> length (duid d) = NAMELEN \<and> length (dgid d) = NAMELEN"

theorem dir_roundtrip:
  assumes "dir_ok d"
  shows "length (convD2M d) = DIRLEN \<and> convM2D (convD2M d @ t) = (d, DIRLEN)"
  using assms
  by (simp add: dir_ok_def convD2M_def convM2D_def Let_def NAMELEN_def DIRLEN_def)

theorem dir_roundtrip_witness:
  "\<exists>d. dlength d = 5 \<and> convM2D (convD2M d @ [1]) = (d, DIRLEN)"
proof -
  let ?d = "\<lparr>dname = replicate 28 97, duid = replicate 28 0, dgid = replicate 28 0, dpath = 1, dvers = 2,
    dmode = 3, datime = 4, dmtime = 5, dlength = 5, dtype = 6, ddev = 7\<rparr>"
  have "dir_ok ?d" by (simp add: dir_ok_def NAMELEN_def)
  from dir_roundtrip [OF this, of "[1]"] show ?thesis by (intro exI [of _ ?d]) simp
qed

end
