(* ===== verification/Sched.thy ===== *)
theory Sched
  imports Prelude
begin

text \<open>
  Processes and channels of the virtual machine: the run queue (\<^verbatim>\<open>emu/dis.c\<close>), the channel
  instructions \<open>isend\<close> and \<open>irecv\<close> (\<^verbatim>\<open>interp/xec.c\<close>) and \<open>alt\<close> (\<^verbatim>\<open>interp/alt.c\<close>).

  A \<open>Prog\<close> is a number; the lists linked through \<open>link\<close> and \<open>comm\<close> are lists of numbers, the
  running program is the head of the run queue. Memory is an array of words that hold an integer or
  a channel pointer; \<open>H\<close> is \<open>Ch None\<close>. A channel's \<open>mover\<close> copies one word.
\<close>

section \<open>State\<close>

datatype pstate = Palt | Psend | Precv | Pdebug | Pready | Prelease | Pexiting | Pbroken
  | Pfreed  \<comment> \<open>\<open>p->state = 0xdeadbeef; free(p)\<close>\<close>

datatype cell = W int | Ch "nat option"

text \<open>
  An entry to receive from names a channel or an array of channels. The model has the elements of an array as they are
  when the \<open>alt\<close> is executed; \<^verbatim>\<open>alt.c\<close> reads them again when the \<open>alt\<close> ends, which is the same as long as nobody assigns
  to the array in between.
\<close>

datatype aref = One nat | Many "nat option list"

record alt =
  asend :: "(nat \<times> nat) list"    \<comment> \<open>channel and data pointer of the first \<open>nsend\<close> entries\<close>
  arecv :: "(aref \<times> nat) list"

record prog =
  pst :: pstate
  pptr :: nat          \<comment> \<open>\<open>ptr\<close>: where the data goes or comes from\<close>
  palt :: alt          \<comment> \<open>\<open>R.s\<close> while in \<open>Palt\<close>\<close>
  psrc :: nat          \<comment> \<open>\<open>R.s\<close> and \<open>R.d\<close> as saved when blocking\<close>
  pdst :: nat
  pkill :: bool
  paddrun :: bool      \<comment> \<open>\<open>addrun != nil\<close>: a C procedure waits in \<open>cblock\<close>\<close>
  pdebug :: bool

record chan =
  csend :: "nat list"
  csendalt :: "nat option"
  crecv :: "nat list"
  crecvalt :: "nat option"

record vm =
  progs :: "nat \<Rightarrow> prog"
  chans :: "nat \<Rightarrow> chan"
  mem :: "nat \<Rightarrow> cell"
  runq :: "nat list"
  woken :: "nat list"   \<comment> \<open>C procedures woken by \<open>cwakeme\<close> or interrupted by \<open>swiproc\<close>\<close>
  xrand :: u32

definition upd_prog :: "nat \<Rightarrow> (prog \<Rightarrow> prog) \<Rightarrow> vm \<Rightarrow> vm" where
  "upd_prog p f st = st\<lparr>progs := (progs st)(p := f (progs st p))\<rparr>"

definition upd_chan :: "nat \<Rightarrow> (chan \<Rightarrow> chan) \<Rightarrow> vm \<Rightarrow> vm" where
  "upd_chan c f st = st\<lparr>chans := (chans st)(c := f (chans st c))\<rparr>"

definition store :: "nat \<Rightarrow> cell \<Rightarrow> vm \<Rightarrow> vm" where
  "store a v st = st\<lparr>mem := (mem st)(a := v)\<rparr>"

section \<open>The run queue\<close>

definition addrun :: "nat \<Rightarrow> vm \<Rightarrow> vm" where
  "addrun p st =
    (if paddrun (progs st p)
     then (upd_prog p (\<lambda>x. x\<lparr>paddrun := False\<rparr>) st)\<lparr>woken := woken st @ [p]\<rparr>
     else (upd_prog p (\<lambda>x. x\<lparr>pst := Pready\<rparr>) st)\<lparr>runq := runq st @ [p]\<rparr>)"

definition currun :: "vm \<Rightarrow> nat" where "currun st = hd (runq st)"

definition delrun :: "pstate \<Rightarrow> vm \<Rightarrow> nat \<times> vm" where
  "delrun s st =
    (let p = hd (runq st) in (p, (upd_prog p (\<lambda>x. x\<lparr>pst := s\<rparr>) st)\<lparr>runq := tl (runq st)\<rparr>))"

definition delrunq :: "nat \<Rightarrow> vm \<Rightarrow> vm" where
  "delrunq p st = st\<lparr>runq := remove1 p (runq st)\<rparr>"

definition pushrun :: "nat \<Rightarrow> vm \<Rightarrow> vm" where
  "pushrun p st = (upd_prog p (\<lambda>x. x\<lparr>pst := Pready\<rparr>) st)\<lparr>runq := p # runq st\<rparr>"

text \<open>After a quantum \<open>vmachine\<close> moves the head to the tail if there is another program.\<close>

definition rotate_run :: "vm \<Rightarrow> vm" where
  "rotate_run st =
    (case runq st of
       p # q # rest \<Rightarrow> st\<lparr>runq := q # rest @ [p]\<rparr>
     | _ \<Rightarrow> st)"

section \<open>Alternation\<close>

definition send_ready :: "chan \<Rightarrow> bool" where   \<comment> \<open>somebody wants to send\<close>
  "send_ready c \<longleftrightarrow> csend c \<noteq> [] \<or> csendalt c \<noteq> None"

definition recv_ready :: "chan \<Rightarrow> bool" where
  "recv_ready c \<longleftrightarrow> crecv c \<noteq> [] \<or> crecvalt c \<noteq> None"

fun altmark :: "nat option list \<Rightarrow> nat \<Rightarrow> vm \<Rightarrow> vm \<times> nat" where
  "altmark [] p st = (st, 0)"
| "altmark (None # ca) p st = altmark ca p st"
| "altmark (Some c # ca) p st =
    (let r = of_bool (send_ready (chans st c));
         (st', n) = altmark ca p (upd_chan c (\<lambda>x. x\<lparr>crecvalt := Some p\<rparr>) st)
     in (st', r + n))"

fun altunmark :: "nat option list \<Rightarrow> nat \<Rightarrow> nat \<Rightarrow> int \<Rightarrow> nat option \<Rightarrow> nat \<Rightarrow> nat \<Rightarrow> vm \<Rightarrow> vm \<times> nat option" where
  "altunmark [] ptr p sr sel dn n st = (st, sel)"
| "altunmark (ch # ca) ptr p sr sel dn n st =
    (let st1 = (case ch of
                  Some c \<Rightarrow> if crecvalt (chans st c) = Some p
                            then upd_chan c (\<lambda>x. x\<lparr>crecvalt := None\<rparr>) st else st
                | None \<Rightarrow> st);
         hit = (sr = 1 \<and> sel \<noteq> None \<and> sel = ch);
         st2 = (if hit then store ptr (W (int n))
                  (upd_prog p (\<lambda>x. x\<lparr>pptr := ptr + 1\<rparr>)
                    (store (pdst (progs st1 p)) (W (int dn)) st1))
                else st1)
     in altunmark ca ptr p sr (if hit then None else sel) dn (n + 1) st2)"

text \<open>The loops of \<open>altrdy\<close>: receives first; a send to a channel that is also received from fails.\<close>

fun rdy_recv :: "(aref \<times> nat) list \<Rightarrow> nat \<Rightarrow> vm \<Rightarrow> vm \<times> nat" where
  "rdy_recv [] p st = (st, 0)"
| "rdy_recv ((One c, _) # ac) p st =
    (let r = of_bool (send_ready (chans st c));
         (st', n) = rdy_recv ac p (upd_chan c (\<lambda>x. x\<lparr>crecvalt := Some p\<rparr>) st)
     in (st', r + n))"
| "rdy_recv ((Many ca, _) # ac) p st =
    (case altmark ca p st of (st1, k) \<Rightarrow> (case rdy_recv ac p st1 of (st2, n) \<Rightarrow> (st2, k + n)))"

fun rdy_send :: "(nat \<times> nat) list \<Rightarrow> nat \<Rightarrow> vm \<Rightarrow> vm \<times> nat option" where
  "rdy_send [] p st = (st, Some 0)"
| "rdy_send ((c, _) # ac) p st =
    (if crecvalt (chans st c) = Some p then (st, None)
     else
       (let r = of_bool (recv_ready (chans st c));
            (st', n) = rdy_send ac p (upd_chan c (\<lambda>x. x\<lparr>csendalt := Some p\<rparr>) st)
        in (st', map_option ((+) r) n)))"

text \<open>The loops of \<open>altdone\<close>: \<open>sel\<close> is the channel the communication was on, \<open>n\<close> the entry's index.\<close>

fun done_send :: "(nat \<times> nat) list \<Rightarrow> nat \<Rightarrow> int \<Rightarrow> nat option \<Rightarrow> nat \<Rightarrow> vm \<Rightarrow> vm \<times> nat option \<times> nat" where
  "done_send [] p sr sel n st = (st, sel, n)"
| "done_send ((c, ptr) # ac) p sr sel n st =
    (let st1 = (if csendalt (chans st c) = Some p
                then upd_chan c (\<lambda>x. x\<lparr>csendalt := None\<rparr>) st else st);
         hit = (sr = 0 \<and> sel = Some c);
         st2 = (if hit then store (pdst (progs st1 p)) (W (int n)) (upd_prog p (\<lambda>x. x\<lparr>pptr := ptr\<rparr>) st1)
                else st1)
     in done_send ac p sr (if hit then None else sel) (n + 1) st2)"

fun done_recv :: "(aref \<times> nat) list \<Rightarrow> nat \<Rightarrow> int \<Rightarrow> nat option \<Rightarrow> nat \<Rightarrow> vm \<Rightarrow> vm" where
  "done_recv [] p sr sel n st = st"
| "done_recv ((One c, ptr) # ac) p sr sel n st =
    (let st1 = (if crecvalt (chans st c) = Some p
                then upd_chan c (\<lambda>x. x\<lparr>crecvalt := None\<rparr>) st else st);
         hit = (sr = 1 \<and> sel = Some c);
         st2 = (if hit then store (pdst (progs st1 p)) (W (int n)) (upd_prog p (\<lambda>x. x\<lparr>pptr := ptr\<rparr>) st1)
                else st1)
     in done_recv ac p sr (if hit then None else sel) (n + 1) st2)"
| "done_recv ((Many ca, ptr) # ac) p sr sel n st =
    (case altunmark ca ptr p sr sel n 0 st of (st1, sel1) \<Rightarrow> done_recv ac p sr sel1 (n + 1) st1)"

definition altdone :: "alt \<Rightarrow> nat \<Rightarrow> nat option \<Rightarrow> int \<Rightarrow> vm \<Rightarrow> vm" where
  "altdone a p sel sr st =
    (case done_send (asend a) p sr sel 0 st of (st1, sel1, n) \<Rightarrow> done_recv (arecv a) p sr sel1 n st1)"

definition altrdy :: "alt \<Rightarrow> nat \<Rightarrow> vm \<Rightarrow> vm \<times> nat option" where
  "altrdy a p st =
    (case rdy_recv (arecv a) p st of (st1, n) \<Rightarrow>
      (case rdy_send (asend a) p st1 of
         (st2, None) \<Rightarrow> (altdone a p None (- 1) st2, None)
       | (st2, Some k) \<Rightarrow> (st2, Some (n + k))))"

section \<open>Sending and receiving\<close>

text \<open>
  \<open>isend\<close> on channel \<open>c\<close> with the data at \<open>s\<close>; \<open>d\<close> is where the instruction has the channel
  pointer. The flag is \<open>R.t\<close>: the program was taken off the run queue. \<open>irecv\<close> mirrors it.
\<close>

definition send_on :: "nat \<Rightarrow> nat \<Rightarrow> nat \<Rightarrow> vm \<Rightarrow> vm \<times> bool" where
  "send_on c s d st =
    (if crecv (chans st c) = [] \<and> crecvalt (chans st c) = None then
       (let (p, st1) = delrun Psend st;
            st2 = upd_prog p (\<lambda>x. x\<lparr>pptr := s, pdst := d\<rparr>) st1
        in (upd_chan c (\<lambda>x. x\<lparr>csend := csend x @ [p]\<rparr>) st2, True))
     else
       (let (p, st1) =
              (case crecvalt (chans st c) of
                 Some q \<Rightarrow> (q, altdone (palt (progs st q)) q (Some c) 1
                               (upd_chan c (\<lambda>x. x\<lparr>crecvalt := None\<rparr>) st))
               | None \<Rightarrow> (hd (crecv (chans st c)), upd_chan c (\<lambda>x. x\<lparr>crecv := tl (crecv x)\<rparr>) st));
            st2 = store (pptr (progs st1 p)) (mem st1 s) st1
        in (addrun p st2, False)))"

definition recv_on :: "nat \<Rightarrow> nat \<Rightarrow> nat \<Rightarrow> vm \<Rightarrow> vm \<times> bool" where
  "recv_on c d s st =
    (if csend (chans st c) = [] \<and> csendalt (chans st c) = None then
       (let (p, st1) = delrun Precv st;
            st2 = upd_prog p (\<lambda>x. x\<lparr>pptr := d, psrc := s\<rparr>) st1
        in (upd_chan c (\<lambda>x. x\<lparr>crecv := crecv x @ [p]\<rparr>) st2, True))
     else
       (let (p, st1) =
              (case csendalt (chans st c) of
                 Some q \<Rightarrow> (q, altdone (palt (progs st q)) q (Some c) 0
                               (upd_chan c (\<lambda>x. x\<lparr>csendalt := None\<rparr>) st))
               | None \<Rightarrow> (hd (csend (chans st c)), upd_chan c (\<lambda>x. x\<lparr>csend := tl (csend x)\<rparr>) st));
            st2 = store d (mem st1 (pptr (progs st1 p))) st1
        in (addrun p st2, False)))"

definition isend :: "nat \<Rightarrow> nat \<Rightarrow> vm \<Rightarrow> (vm \<times> bool) res" where
  "isend s d st = (case mem st d of Ch (Some c) \<Rightarrow> Inr (send_on c s d st) | _ \<Rightarrow> Inl Undef)"

definition irecv :: "nat \<Rightarrow> nat \<Rightarrow> vm \<Rightarrow> (vm \<times> bool) res" where
  "irecv s d st = (case mem st s of Ch (Some c) \<Rightarrow> Inr (recv_on c d s st) | _ \<Rightarrow> Inl Undef)"

text \<open>\<open>altcomm\<close>: communicate on the \<open>which\<close>th ready entry. Its channel pointer is a local variable,
  whose address is not saved since the entry is ready; \<open>d\<close> stands for it.\<close>

fun comm_send :: "(nat \<times> nat) list \<Rightarrow> nat \<Rightarrow> nat \<Rightarrow> nat \<Rightarrow> vm \<Rightarrow> vm option \<times> nat \<times> nat" where
  "comm_send [] which n d st = (None, which, n)"
| "comm_send ((c, ptr) # ac) which n d st =
    (if recv_ready (chans st c) then
       (if which = 0 then (Some (fst (send_on c ptr d (store d (W (int n)) st))), 0, n)
        else comm_send ac (which - 1) (n + 1) d st)
     else comm_send ac which (n + 1) d st)"

fun comm_many :: "nat option list \<Rightarrow> nat \<Rightarrow> nat \<Rightarrow> nat \<Rightarrow> nat \<Rightarrow> nat \<Rightarrow> vm \<Rightarrow> vm option \<times> nat" where
  "comm_many [] ptr which n an d st = (None, which)"
| "comm_many (ch # ca) ptr which n an d st =
    (case ch of
       None \<Rightarrow> comm_many ca ptr which n (an + 1) d st
     | Some c \<Rightarrow>
        (if send_ready (chans st c) then
           (if which = 0
            then (Some (fst (recv_on c (ptr + 1) d (store ptr (W (int an)) (store d (W (int n)) st)))), 0)
            else comm_many ca ptr (which - 1) n (an + 1) d st)
         else comm_many ca ptr which n (an + 1) d st))"

fun comm_recv :: "(aref \<times> nat) list \<Rightarrow> nat \<Rightarrow> nat \<Rightarrow> nat \<Rightarrow> vm \<Rightarrow> vm option" where
  "comm_recv [] which n d st = None"
| "comm_recv ((One c, ptr) # ac) which n d st =
    (if send_ready (chans st c) then
       (if which = 0 then Some (fst (recv_on c ptr d (store d (W (int n)) st)))
        else comm_recv ac (which - 1) (n + 1) d st)
     else comm_recv ac which (n + 1) d st)"
| "comm_recv ((Many ca, ptr) # ac) which n d st =
    (case comm_many ca ptr which n 0 d st of
       (Some st', _) \<Rightarrow> Some st'
     | (None, w) \<Rightarrow> comm_recv ac w (n + 1) d st)"

definition altcomm :: "alt \<Rightarrow> nat \<Rightarrow> nat \<Rightarrow> vm \<Rightarrow> vm" where
  "altcomm a which d st =
    (case comm_send (asend a) which 0 d st of
       (Some st', _, _) \<Rightarrow> st'
     | (None, w, n) \<Rightarrow> (case comm_recv (arecv a) w n d st of Some st' \<Rightarrow> st' | None \<Rightarrow> st))"

definition next_rand :: "u32 \<Rightarrow> u32" where
  "next_rand x = (let y = x + x in if sint y < 0 then y XOR 0x88888EEF else y)"

definition xecalt :: "bool \<Rightarrow> alt \<Rightarrow> nat \<Rightarrow> vm \<Rightarrow> (vm \<times> bool) res" where
  "xecalt block a d st =
    (let p = currun st in
     case altrdy a p st of
       (st1, None) \<Rightarrow> Inl (Raise ''alt send and receive on same chan'')
     | (st1, Some nrdy) \<Rightarrow>
        if nrdy = 0 then
          (if block then
             (case delrun Palt st1 of (q, st2) \<Rightarrow>
               Inr (upd_prog q (\<lambda>x. x\<lparr>palt := a, pdst := d\<rparr>) st2, True))
           else
             Inr (altdone a p None (- 1)
               (store d (W (int (length (asend a) + length (arecv a)))) st1), False))
        else
          (let x = next_rand (xrand st1); st2 = st1\<lparr>xrand := x\<rparr> in
           Inr (altdone a p None (- 1) (altcomm a (nat (sint x) mod nrdy) d st2), False)))"

section \<open>Killing a program\<close>

text \<open>\<open>killprog\<close>; a state it does not know panics. The stack of the program goes back to the heap,
  which is not part of this state.\<close>

definition kill_finish :: "nat \<Rightarrow> vm \<Rightarrow> (vm \<times> bool) res" where
  "kill_finish p st =
    (if paddrun (progs st p) then
       Inr ((upd_prog p (\<lambda>x. x\<lparr>pkill := True, paddrun := False\<rparr>) st)\<lparr>woken := woken st @ [p]\<rparr>, False)
     else if pdebug (progs st p) then Inr (upd_prog p (\<lambda>x. x\<lparr>pst := Pbroken\<rparr>) st, False)
     else Inr (upd_prog p (\<lambda>x. x\<lparr>pst := Pfreed\<rparr>) st, True))"

definition killprog :: "nat \<Rightarrow> vm \<Rightarrow> (vm \<times> bool) res" where
  "killprog p st =
    (let mark = upd_prog p (\<lambda>x. x\<lparr>pkill := True, pst := Pexiting\<rparr>) st
     in if runq st \<noteq> [] \<and> p = hd (runq st) then Inr (mark, False)
        else case pst (progs st p) of
            Palt \<Rightarrow> kill_finish p (altdone (palt (progs st p)) p None (- 1) st)
          | Psend \<Rightarrow> (case mem st (pdst (progs st p)) of
              Ch (Some c) \<Rightarrow> kill_finish p (upd_chan c (\<lambda>x. x\<lparr>csend := remove1 p (csend x)\<rparr>) st)
            | _ \<Rightarrow> Inl Undef)
          | Precv \<Rightarrow> (case mem st (psrc (progs st p)) of
              Ch (Some c) \<Rightarrow> kill_finish p (upd_chan c (\<lambda>x. x\<lparr>crecv := remove1 p (crecv x)\<rparr>) st)
            | _ \<Rightarrow> Inl Undef)
          | Pready \<Rightarrow> kill_finish p (delrunq p st)
          | Prelease \<Rightarrow> Inr (mark\<lparr>woken := woken st @ [p]\<rparr>, False)
          | Pexiting \<Rightarrow> Inr (st, False)
          | Pbroken \<Rightarrow> kill_finish p st
          | Pdebug \<Rightarrow> kill_finish p st
          | Pfreed \<Rightarrow> Inl (Raise ''killprog - bad state''))"

section \<open>Creating and deleting programs\<close>

definition newprog :: "nat \<Rightarrow> vm \<Rightarrow> vm" where
  "newprog p st = addrun p (upd_prog p (\<lambda>x. x\<lparr>pkill := False, paddrun := False, pdebug := False\<rparr>) st)"

text \<open>\<open>delprog\<close> frees a program and takes it off the head of the run queue.\<close>

definition delprog :: "nat \<Rightarrow> vm \<Rightarrow> vm" where
  "delprog p st =
    upd_prog p (\<lambda>x. x\<lparr>pst := Pfreed\<rparr>)
      (if runq st \<noteq> [] \<and> p = hd (runq st) then st\<lparr>runq := tl (runq st)\<rparr> else st)"

section \<open>What the loops of alternation do\<close>

definition send_chs :: "alt \<Rightarrow> nat set" where "send_chs a = fst ` set (asend a)"

fun aref_chs :: "aref \<Rightarrow> nat set" where
  "aref_chs (One c) = {c}"
| "aref_chs (Many ca) = {c. Some c \<in> set ca}"

definition recv_chs :: "alt \<Rightarrow> nat set" where
  "recv_chs a = (\<Union>r \<in> fst ` set (arecv a). aref_chs r)"

text \<open>\<open>framed st st'\<close>: nothing but the memory, data pointers and the channels' alternation fields.\<close>

definition framed :: "vm \<Rightarrow> vm \<Rightarrow> bool" where
  "framed st st' \<longleftrightarrow> runq st' = runq st \<and> woken st' = woken st \<and> xrand st' = xrand st \<and>
     (\<forall>q. pst (progs st' q) = pst (progs st q) \<and> palt (progs st' q) = palt (progs st q) \<and>
       paddrun (progs st' q) = paddrun (progs st q) \<and> pdst (progs st' q) = pdst (progs st q) \<and>
       psrc (progs st' q) = psrc (progs st q) \<and> pdebug (progs st' q) = pdebug (progs st q)) \<and>
     (\<forall>c. csend (chans st' c) = csend (chans st c) \<and> crecv (chans st' c) = crecv (chans st c))"

lemma framed_refl [simp]: "framed st st"
  by (simp add: framed_def)

lemma framed_trans: "framed st st1 \<Longrightarrow> framed st1 st2 \<Longrightarrow> framed st st2"
  by (simp add: framed_def)

lemma upd_simps [simp]:
  "progs (upd_prog p f st) = (progs st)(p := f (progs st p))" "chans (upd_prog p f st) = chans st"
  "mem (upd_prog p f st) = mem st" "runq (upd_prog p f st) = runq st" "woken (upd_prog p f st) = woken st"
  "xrand (upd_prog p f st) = xrand st"
  "chans (upd_chan c g st) = (chans st)(c := g (chans st c))" "progs (upd_chan c g st) = progs st"
  "mem (upd_chan c g st) = mem st" "runq (upd_chan c g st) = runq st" "woken (upd_chan c g st) = woken st"
  "xrand (upd_chan c g st) = xrand st"
  "mem (store a v st) = (mem st)(a := v)" "progs (store a v st) = progs st" "chans (store a v st) = chans st"
  "runq (store a v st) = runq st" "woken (store a v st) = woken st" "xrand (store a v st) = xrand st"
  by (simp_all add: upd_prog_def upd_chan_def store_def)

lemma framed_simps [simp]:
  "framed st (store a v st)" "framed st (upd_prog p (\<lambda>x. x\<lparr>pptr := k\<rparr>) st)"
  "framed st (upd_chan c (\<lambda>x. x\<lparr>crecvalt := r\<rparr>) st)" "framed st (upd_chan c (\<lambda>x. x\<lparr>csendalt := r\<rparr>) st)"
  by (simp_all add: framed_def)

text \<open>Dropping the registrations of \<open>p\<close> on a set of channels.\<close>

definition drop_recv :: "nat \<Rightarrow> nat set \<Rightarrow> (nat \<Rightarrow> chan) \<Rightarrow> nat \<Rightarrow> chan" where
  "drop_recv p C ch c =
    (if c \<in> C \<and> crecvalt (ch c) = Some p then (ch c)\<lparr>crecvalt := None\<rparr> else ch c)"

definition drop_send :: "nat \<Rightarrow> nat set \<Rightarrow> (nat \<Rightarrow> chan) \<Rightarrow> nat \<Rightarrow> chan" where
  "drop_send p C ch c =
    (if c \<in> C \<and> csendalt (ch c) = Some p then (ch c)\<lparr>csendalt := None\<rparr> else ch c)"

lemma drop_comp:
  "drop_recv p D (drop_recv p C ch) = drop_recv p (C \<union> D) ch" "drop_recv p {} ch = ch"
  "drop_send p D (drop_send p C ch) = drop_send p (C \<union> D) ch" "drop_send p {} ch = ch"
  by (auto simp: drop_recv_def drop_send_def fun_eq_iff)

lemma drop_one:
  "(if crecvalt (ch c) = Some p then ch(c := (ch c)\<lparr>crecvalt := None\<rparr>) else ch) = drop_recv p {c} ch"
  "(if csendalt (ch c) = Some p then ch(c := (ch c)\<lparr>csendalt := None\<rparr>) else ch) = drop_send p {c} ch"
  by (auto simp: drop_recv_def drop_send_def fun_eq_iff)

lemma altunmark_spec:
  "altunmark ca ptr p sr sel dn n st = (st', sel') \<Longrightarrow>
    framed st st' \<and> chans st' = drop_recv p {c. Some c \<in> set ca} (chans st)"
proof (induction ca ptr p sr sel dn n st arbitrary: st' sel' rule: altunmark.induct)
  case (1 ptr p sr sel dn n st)
  then show ?case by (simp add: drop_comp)
next
  case (2 ch ca ptr p sr sel dn n st)
  let ?st1 = "case ch of Some c \<Rightarrow> if crecvalt (chans st c) = Some p
    then upd_chan c (\<lambda>x. x\<lparr>crecvalt := None\<rparr>) st else st | None \<Rightarrow> st"
  let ?hit = "sr = 1 \<and> sel \<noteq> None \<and> sel = ch"
  let ?st2 = "if ?hit then store ptr (W (int n)) (upd_prog p (\<lambda>x. x\<lparr>pptr := ptr + 1\<rparr>)
    (store (pdst (progs ?st1 p)) (W (int dn)) ?st1)) else ?st1"
  have 1: "framed st ?st1" "chans ?st1 = drop_recv p (set_option ch) (chans st)"
    by (cases ch; simp add: drop_comp drop_one [symmetric])+
  have 2: "framed ?st1 ?st2" "chans ?st2 = chans ?st1"
    by (simp_all add: framed_def)
  have "altunmark ca ptr p sr (if ?hit then None else sel) dn (n + 1) ?st2 = (st', sel')"
    using "2.prems" by (simp add: Let_def)
  from "2.IH" [OF refl refl refl this] have f: "framed ?st2 st'"
    "chans st' = drop_recv p {c. Some c \<in> set ca} (chans ?st2)" by blast+
  have "chans st' = drop_recv p (set_option ch \<union> {c. Some c \<in> set ca}) (chans st)"
    unfolding f(2) 2(2) 1(2) by (rule drop_comp(1))
  moreover have "set_option ch \<union> {c. Some c \<in> set ca} = {c. Some c \<in> set (ch # ca)}" by (cases ch) auto
  ultimately show ?case using framed_trans [OF 1(1) framed_trans [OF 2(1) f(1)]] by (simp only:)
qed

lemma done_send_spec:
  "done_send ac p sr sel n st = (st', sel', n') \<Longrightarrow>
    framed st st' \<and> chans st' = drop_send p (fst ` set ac) (chans st)"
proof (induction ac p sr sel n st arbitrary: st' sel' n' rule: done_send.induct)
  case (1 p sr sel n st)
  then show ?case by (simp add: drop_comp)
next
  case (2 c ptr ac p sr sel n st)
  let ?st1 = "if csendalt (chans st c) = Some p then upd_chan c (\<lambda>x. x\<lparr>csendalt := None\<rparr>) st else st"
  let ?hit = "sr = 0 \<and> sel = Some c"
  let ?st2 = "if ?hit then store (pdst (progs ?st1 p)) (W (int n)) (upd_prog p (\<lambda>x. x\<lparr>pptr := ptr\<rparr>) ?st1)
    else ?st1"
  have 1: "framed st ?st1" "chans ?st1 = drop_send p {c} (chans st)"
    by (simp_all add: drop_one [symmetric])
  have 2: "framed ?st1 ?st2" "chans ?st2 = chans ?st1"
    by (simp_all add: framed_def)
  have "done_send ac p sr (if ?hit then None else sel) (n + 1) ?st2 = (st', sel', n')"
    using "2.prems" by (simp add: Let_def)
  from "2.IH" [OF refl refl refl this] have f: "framed ?st2 st'"
    "chans st' = drop_send p (fst ` set ac) (chans ?st2)" by blast+
  have "chans st' = drop_send p ({c} \<union> fst ` set ac) (chans st)"
    unfolding f(2) 2(2) 1(2) by (rule drop_comp(3))
  moreover have "{c} \<union> fst ` set ac = fst ` set ((c, ptr) # ac)" by simp
  ultimately show ?case using framed_trans [OF 1(1) framed_trans [OF 2(1) f(1)]] by (simp only:)
qed

lemma done_recv_spec:
  "framed st (done_recv ac p sr sel n st) \<and>
    chans (done_recv ac p sr sel n st) = drop_recv p (\<Union>r \<in> fst ` set ac. aref_chs r) (chans st)"
proof (induction ac p sr sel n st rule: done_recv.induct)
  case (1 p sr sel n st)
  then show ?case by (simp add: drop_comp)
next
  case (2 c ptr ac p sr sel n st)
  let ?st1 = "if crecvalt (chans st c) = Some p then upd_chan c (\<lambda>x. x\<lparr>crecvalt := None\<rparr>) st else st"
  let ?hit = "sr = 1 \<and> sel = Some c"
  let ?st2 = "if ?hit then store (pdst (progs ?st1 p)) (W (int n)) (upd_prog p (\<lambda>x. x\<lparr>pptr := ptr\<rparr>) ?st1)
    else ?st1"
  have 1: "framed st ?st1" "chans ?st1 = drop_recv p {c} (chans st)"
    by (simp_all add: drop_one [symmetric])
  have 2: "framed ?st1 ?st2" "chans ?st2 = chans ?st1"
    by (simp_all add: framed_def)
  let ?r = "done_recv ac p sr (if ?hit then None else sel) (n + 1) ?st2" and ?C = "\<Union>r \<in> fst ` set ac. aref_chs r"
  have e: "done_recv ((One c, ptr) # ac) p sr sel n st = ?r" by (simp add: Let_def)
  have f: "framed ?st2 ?r" "chans ?r = drop_recv p ?C (chans ?st2)" using "2.IH" [OF refl refl refl] by blast+
  have "chans ?r = drop_recv p ({c} \<union> ?C) (chans st)" unfolding f(2) 2(2) 1(2) by (rule drop_comp(1))
  moreover have "{c} \<union> ?C = (\<Union>r \<in> fst ` set ((One c, ptr) # ac). aref_chs r)" by simp
  ultimately show ?case unfolding e using framed_trans [OF 1(1) framed_trans [OF 2(1) f(1)]] by (simp only:)
next
  case (3 ca ptr ac p sr sel n st)
  obtain st1 sel1 where u: "altunmark ca ptr p sr sel n 0 st = (st1, sel1)" by fastforce
  note i = "3.IH" [OF u [symmetric]] and j = altunmark_spec [OF u]
  show ?case
    using framed_trans [OF conjunct1 [OF j] conjunct1 [OF i]] i j by (simp add: u drop_comp)
qed

lemma altdone_spec:
  "framed st (altdone a p sel sr st)"
  "chans (altdone a p sel sr st) = drop_recv p (recv_chs a) (drop_send p (send_chs a) (chans st))"
proof -
  obtain st1 sel1 n where d: "done_send (asend a) p sr sel 0 st = (st1, sel1, n)"
    by (metis prod_cases3)
  have e: "altdone a p sel sr st = done_recv (arecv a) p sr sel1 n st1" by (simp add: altdone_def d)
  show "framed st (altdone a p sel sr st)"
    unfolding e using done_send_spec [OF d] done_recv_spec framed_trans by blast
  show "chans (altdone a p sel sr st) = drop_recv p (recv_chs a) (drop_send p (send_chs a) (chans st))"
    unfolding e using done_send_spec [OF d] done_recv_spec [of st1 "arecv a"]
    by (simp add: recv_chs_def send_chs_def)
qed

text \<open>The registrations of \<open>altrdy\<close>.\<close>

definition reg_recv :: "nat \<Rightarrow> nat set \<Rightarrow> (nat \<Rightarrow> chan) \<Rightarrow> nat \<Rightarrow> chan" where
  "reg_recv p C ch c = (if c \<in> C then (ch c)\<lparr>crecvalt := Some p\<rparr> else ch c)"

definition reg_send :: "nat \<Rightarrow> nat set \<Rightarrow> (nat \<Rightarrow> chan) \<Rightarrow> nat \<Rightarrow> chan" where
  "reg_send p C ch c = (if c \<in> C then (ch c)\<lparr>csendalt := Some p\<rparr> else ch c)"

lemma reg_comp:
  "reg_recv p D (reg_recv p C ch) = reg_recv p (C \<union> D) ch" "reg_recv p {} ch = ch"
  "reg_send p D (reg_send p C ch) = reg_send p (C \<union> D) ch" "reg_send p {} ch = ch"
  "ch(c := (ch c)\<lparr>crecvalt := Some p\<rparr>) = reg_recv p {c} ch"
  "ch(c := (ch c)\<lparr>csendalt := Some p\<rparr>) = reg_send p {c} ch"
  by (auto simp: reg_recv_def reg_send_def fun_eq_iff)

lemma reg_ready [simp]:
  "send_ready (reg_recv p C ch c) = send_ready (ch c)" "recv_ready (reg_send p C ch c) = recv_ready (ch c)"
  "crecvalt (reg_send p C ch c) = crecvalt (ch c)" "csendalt (reg_recv p C ch c) = csendalt (ch c)"
  "csend (reg_recv p C ch c) = csend (ch c)" "crecv (reg_recv p C ch c) = crecv (ch c)"
  "csend (reg_send p C ch c) = csend (ch c)" "crecv (reg_send p C ch c) = crecv (ch c)"
  by (simp_all add: reg_recv_def reg_send_def send_ready_def recv_ready_def)

lemma alt_reg_other:
  "c \<in> C \<Longrightarrow> crecvalt (reg_recv p C ch c) = Some p" "c \<in> C \<Longrightarrow> csendalt (reg_send p C ch c) = Some p"
  by (simp_all add: reg_recv_def reg_send_def)

text \<open>Everything but the channels is as before.\<close>

definition same_rest :: "vm \<Rightarrow> vm \<Rightarrow> bool" where
  "same_rest st st' \<longleftrightarrow> st' = st\<lparr>chans := chans st'\<rparr>"

lemma same_rest_simps [simp]:
  "same_rest st st" "same_rest st (upd_chan c f st)"
  by (simp_all add: same_rest_def upd_chan_def)

lemma same_rest_trans: "same_rest st st1 \<Longrightarrow> same_rest st1 st2 \<Longrightarrow> same_rest st st2"
  unfolding same_rest_def by (metis vm.surjective vm.update_convs(2))

lemma same_restD:
  assumes "same_rest st st'"
  shows "progs st' = progs st" "mem st' = mem st" "runq st' = runq st" "woken st' = woken st" "xrand st' = xrand st"
  using assms unfolding same_rest_def by (metis vm.select_convs vm.update_convs(2) vm.surjective)+

lemma altmark_spec:
  "altmark ca p st = (st', n) \<Longrightarrow> same_rest st st' \<and>
    chans st' = reg_recv p {c. Some c \<in> set ca} (chans st) \<and>
    (n = 0 \<longrightarrow> (\<forall>c. Some c \<in> set ca \<longrightarrow> \<not> send_ready (chans st c)))"
proof (induction ca p st arbitrary: st' n rule: altmark.induct)
  case (3 c ca p st)
  let ?st = "upd_chan c (\<lambda>x. x\<lparr>crecvalt := Some p\<rparr>) st"
  obtain m where m: "altmark ca p ?st = (st', m)" "n = of_bool (send_ready (chans st c)) + m"
    using "3.prems" by (auto simp: Let_def split: prod.splits)
  have "{c} \<union> {c. Some c \<in> set ca} = {x. Some x \<in> set (Some c # ca)}" by auto
  then show ?case using "3.IH" [OF refl m(1)] m(2) same_rest_trans [of st ?st st']
    by (auto simp: reg_comp)
qed (simp_all add: reg_comp)

lemma rdy_recv_spec:
  "rdy_recv ac p st = (st', n) \<Longrightarrow> same_rest st st' \<and>
    chans st' = reg_recv p (\<Union>r \<in> fst ` set ac. aref_chs r) (chans st) \<and>
    (n = 0 \<longrightarrow> (\<forall>c \<in> (\<Union>r \<in> fst ` set ac. aref_chs r). \<not> send_ready (chans st c)))"
proof (induction ac p st arbitrary: st' n rule: rdy_recv.induct)
  case (2 c ptr ac p st)
  let ?st = "upd_chan c (\<lambda>x. x\<lparr>crecvalt := Some p\<rparr>) st"
  obtain m where m: "rdy_recv ac p ?st = (st', m)" "n = of_bool (send_ready (chans st c)) + m"
    using "2.prems" by (auto simp: Let_def split: prod.splits)
  show ?case using "2.IH" [OF refl m(1)] m(2) same_rest_trans [of st ?st st']
    by (auto simp: reg_comp)
next
  case (3 ca ptr ac p st)
  obtain st1 k m where m: "altmark ca p st = (st1, k)" "rdy_recv ac p st1 = (st', m)" "n = k + m"
    using "3.prems" by (auto split: prod.splits)
  show ?case using "3.IH" [OF m(1) [symmetric] m(2)] altmark_spec [OF m(1)] m(3) same_rest_trans [of st st1 st']
    by (auto simp: reg_comp)
qed (simp_all add: reg_comp)

lemma rdy_send_spec:
  "rdy_send ac p st = (st', r) \<Longrightarrow> same_rest st st' \<and>
    (case r of
       Some n \<Rightarrow> chans st' = reg_send p (fst ` set ac) (chans st) \<and>
         (\<forall>c \<in> fst ` set ac. crecvalt (chans st c) \<noteq> Some p) \<and>
         (n = 0 \<longrightarrow> (\<forall>c \<in> fst ` set ac. \<not> recv_ready (chans st c)))
     | None \<Rightarrow> \<exists>C \<subseteq> fst ` set ac. chans st' = reg_send p C (chans st))"
proof (induction ac p st arbitrary: st' r rule: rdy_send.induct)
  case (2 c ptr ac p st)
  let ?st = "upd_chan c (\<lambda>x. x\<lparr>csendalt := Some p\<rparr>) st"
  show ?case
  proof (cases "crecvalt (chans st c) = Some p")
    case True
    then have "chans st' = reg_send p {} (chans st)" "r = None" "st' = st"
      using "2.prems" by (simp_all add: reg_comp)
    then show ?thesis by auto
  next
    case False
    obtain m where m: "rdy_send ac p ?st = (st', m)" "r = map_option ((+) (of_bool (recv_ready (chans st c)))) m"
      using "2.prems" False by (auto simp: Let_def split: prod.splits)
    note ih = "2.IH" [OF False refl m(1)]
    have sr: "same_rest st st'" using ih same_rest_trans [of st ?st st'] by auto
    show ?thesis
    proof (cases m)
      case None
      then obtain C where "C \<subseteq> fst ` set ac" "chans st' = reg_send p ({c} \<union> C) (chans st)"
        using ih by (auto simp: reg_comp)
      then show ?thesis using sr None m(2) by (auto intro!: exI [of _ "{c} \<union> C"])
    next
      case (Some k)
      then show ?thesis using ih sr m(2) False by (auto simp: reg_comp)
    qed
  qed
qed (simp_all add: reg_comp)

end
