(* ===== verification/SchedInv.thy ===== *)
theory SchedInv
  imports Sched Steps
begin

text \<open>
  The invariant of programs and channels: every operation of \<^verbatim>\<open>Sched\<close> keeps it, hence it holds in
  every reachable state. The properties of the channel instructions, \<open>alt\<close> and \<open>killprog\<close> follow.
\<close>

section \<open>The invariant\<close>

text \<open>
  While a program executes \<open>alt\<close> it is registered on channels without being blocked: \<open>ex\<close> maps it to
  its \<open>Alt\<close>. Between instructions \<open>ex\<close> is empty.
\<close>

definition regalt :: "(nat \<Rightarrow> alt option) \<Rightarrow> vm \<Rightarrow> nat \<Rightarrow> alt option" where
  "regalt ex st q =
    (case ex q of Some a \<Rightarrow> Some a
     | None \<Rightarrow> if pst (progs st q) = Palt then Some (palt (progs st q)) else None)"

lemma regalt_outside:
  "ex q = None \<Longrightarrow> regalt ex st q = (if pst (progs st q) = Palt then Some (palt (progs st q)) else None)"
  by (simp add: regalt_def)

lemma regalt_eq:
  "pst (progs st' q) = pst (progs st q) \<Longrightarrow> palt (progs st' q) = palt (progs st q) \<Longrightarrow>
    regalt ex st' q = regalt ex st q"
  by (cases "ex q") (simp_all add: regalt_def)

text \<open>Registered programs are in an \<open>alt\<close> on the channel.\<close>

definition reg_ok :: "(nat \<Rightarrow> alt option) \<Rightarrow> vm \<Rightarrow> bool" where
  "reg_ok ex st \<longleftrightarrow>
    (\<forall>c q. csendalt (chans st c) = Some q \<longrightarrow> (\<exists>a. regalt ex st q = Some a \<and> c \<in> send_chs a)) \<and>
    (\<forall>c q. crecvalt (chans st c) = Some q \<longrightarrow> (\<exists>a. regalt ex st q = Some a \<and> c \<in> recv_chs a))"

text \<open>A program on a channel's queue is blocked there, and nowhere else.\<close>

definition waits_ok :: "vm \<Rightarrow> bool" where
  "waits_ok st \<longleftrightarrow>
    (\<forall>c. \<forall>q \<in> set (csend (chans st c)). pst (progs st q) = Psend) \<and>
    (\<forall>c. \<forall>q \<in> set (crecv (chans st c)). pst (progs st q) = Precv) \<and>
    (\<forall>c. distinct (csend (chans st c)) \<and> distinct (crecv (chans st c))) \<and>
    (\<forall>c d q. q \<in> set (csend (chans st c)) \<longrightarrow> q \<in> set (csend (chans st d)) \<longrightarrow> c = d) \<and>
    (\<forall>c d q. q \<in> set (crecv (chans st c)) \<longrightarrow> q \<in> set (crecv (chans st d)) \<longrightarrow> c = d)"

definition run_ok :: "vm \<Rightarrow> bool" where
  "run_ok st \<longleftrightarrow> distinct (runq st) \<and> (\<forall>q \<in> set (runq st). pst (progs st q) \<in> {Pready, Pexiting})"

text \<open>Nobody waits to send where somebody waits to receive.\<close>

definition waiting_send :: "(nat \<Rightarrow> alt option) \<Rightarrow> chan \<Rightarrow> bool" where
  "waiting_send ex c \<longleftrightarrow> csend c \<noteq> [] \<or> (\<exists>q. csendalt c = Some q \<and> ex q = None)"

definition waiting_recv :: "(nat \<Rightarrow> alt option) \<Rightarrow> chan \<Rightarrow> bool" where
  "waiting_recv ex c \<longleftrightarrow> crecv c \<noteq> [] \<or> (\<exists>q. crecvalt c = Some q \<and> ex q = None)"

definition meet_ok :: "(nat \<Rightarrow> alt option) \<Rightarrow> vm \<Rightarrow> bool" where
  "meet_ok ex st \<longleftrightarrow> (\<forall>c. \<not> (waiting_send ex (chans st c) \<and> waiting_recv ex (chans st c)))"

definition vm_ok :: "(nat \<Rightarrow> alt option) \<Rightarrow> vm \<Rightarrow> bool" where
  "vm_ok ex st \<longleftrightarrow> reg_ok ex st \<and> waits_ok st \<and> run_ok st \<and> meet_ok ex st"

lemmas vm_defs = vm_ok_def reg_ok_def waits_ok_def run_ok_def meet_ok_def

text \<open>Registrations that go away, memory and data pointers do not matter.\<close>

lemma shrink_ok:
  assumes "vm_ok ex st" and "framed st st'"
    and "\<And>c. csendalt (chans st' c) = None \<or> csendalt (chans st' c) = csendalt (chans st c)"
    and "\<And>c. crecvalt (chans st' c) = None \<or> crecvalt (chans st' c) = crecvalt (chans st c)"
  shows "vm_ok ex st'"
proof -
  have f: "pst (progs st' q) = pst (progs st q)" "palt (progs st' q) = palt (progs st q)" "runq st' = runq st"
    "csend (chans st' c) = csend (chans st c)" "crecv (chans st' c) = crecv (chans st c)" for q c
    using assms(2) by (auto simp: framed_def)
  have s: "csendalt (chans st' c) = Some q \<Longrightarrow> csendalt (chans st c) = Some q"
    "crecvalt (chans st' c) = Some q \<Longrightarrow> crecvalt (chans st c) = Some q" for c q
    using assms(3) [of c] assms(4) [of c] by auto
  have r: "regalt ex st' q = regalt ex st q" for q by (rule regalt_eq) (simp_all only: f)
  have "reg_ok ex st'" using assms(1) s unfolding vm_ok_def reg_ok_def r by blast
  moreover have "waits_ok st'" using assms(1) unfolding vm_ok_def waits_ok_def f by blast
  moreover have "run_ok st'" using assms(1) unfolding vm_ok_def run_ok_def f by blast
  moreover have "meet_ok ex st'"
    using assms(1) s unfolding vm_ok_def meet_ok_def waiting_send_def waiting_recv_def f by blast
  ultimately show ?thesis by (simp add: vm_ok_def)
qed

lemma store_ok: "vm_ok ex st \<Longrightarrow> vm_ok ex (store a v st)"
  by (rule shrink_ok) auto

lemma altdone_ok: "vm_ok ex st \<Longrightarrow> vm_ok ex (altdone a p sel sr st)"
  by (rule shrink_ok) (auto simp: altdone_spec drop_recv_def drop_send_def)

definition unregistered :: "nat \<Rightarrow> vm \<Rightarrow> bool" where
  "unregistered q st \<longleftrightarrow> (\<forall>c. csendalt (chans st c) \<noteq> Some q \<and> crecvalt (chans st c) \<noteq> Some q)"

definition unqueued :: "nat \<Rightarrow> vm \<Rightarrow> bool" where
  "unqueued q st \<longleftrightarrow> (\<forall>c. q \<notin> set (csend (chans st c)) \<and> q \<notin> set (crecv (chans st c)))"

text \<open>A program that no channel refers to may change its state freely.\<close>

lemma free_ok:
  assumes "vm_ok ex st" and "unregistered q st" and "unqueued q st"
    and "chans st' = chans st" and "\<And>x. x \<noteq> q \<Longrightarrow> progs st' x = progs st x"
    and "distinct (runq st')" and "\<And>x. x \<in> set (runq st') \<Longrightarrow> x = q \<or> x \<in> set (runq st)"
    and "q \<in> set (runq st') \<Longrightarrow> pst (progs st' q) \<in> {Pready, Pexiting}"
  shows "vm_ok ex st'"
proof -
  have r: "x \<noteq> q \<Longrightarrow> regalt ex st' x = regalt ex st x" for x by (rule regalt_eq) (simp_all add: assms(5))
  have "reg_ok ex st'"
    using assms(1,2) r unfolding vm_ok_def reg_ok_def assms(4) unregistered_def by metis
  moreover have "waits_ok st'"
    using assms(1,3,5) unfolding vm_ok_def waits_ok_def assms(4) unqueued_def by metis
  moreover have "run_ok st'"
    using assms(1,5-8) unfolding vm_ok_def run_ok_def by metis
  moreover have "meet_ok ex st'" using assms(1) unfolding vm_ok_def meet_ok_def assms(4) by blast
  ultimately show ?thesis by (simp add: vm_ok_def)
qed

lemma addrun_ok:
  assumes "vm_ok ex st" and "unregistered q st" and "unqueued q st" and "q \<notin> set (runq st)"
  shows "vm_ok ex (addrun q st)"
proof -
  have "distinct (runq st)" using assms(1) by (simp add: vm_ok_def run_ok_def)
  then show ?thesis using assms(4)
    by (cases "paddrun (progs st q)"; intro free_ok [OF assms(1-3)]) (auto simp: addrun_def)
qed

text \<open>The running program is neither registered nor queued.\<close>

lemma running_free:
  assumes "vm_ok ex st" and "q \<in> set (runq st)" and "ex q = None"
  shows "unregistered q st" "unqueued q st"
proof -
  have "pst (progs st q) \<in> {Pready, Pexiting}" using assms(1,2) by (auto simp: vm_ok_def run_ok_def)
  then have s: "pst (progs st q) \<noteq> Palt" "pst (progs st q) \<noteq> Psend" "pst (progs st q) \<noteq> Precv" by auto
  then have "regalt ex st q = None" by (simp add: regalt_outside assms(3))
  then show "unregistered q st"
    using assms(1) unfolding vm_ok_def reg_ok_def unregistered_def by (metis option.distinct(1))
  show "unqueued q st" using assms(1) s unfolding vm_ok_def waits_ok_def unqueued_def by blast
qed

text \<open>Taking the program registered or queued on a channel off it.\<close>

lemma take_alt_ok:
  assumes "vm_ok ex st" and "ex q = None"
    and "crecvalt (chans st c) = Some q \<and> st0 = upd_chan c (\<lambda>x. x\<lparr>crecvalt := None\<rparr>) st \<or>
         csendalt (chans st c) = Some q \<and> st0 = upd_chan c (\<lambda>x. x\<lparr>csendalt := None\<rparr>) st"
    and "st1 = altdone (palt (progs st q)) q sel sr st0"
  shows "vm_ok ex st1" "unregistered q st1" "unqueued q st1" "q \<notin> set (runq st1)" "runq st1 = runq st"
    "\<And>x. pst (progs st1 x) = pst (progs st x)"
proof -
  note ro = regalt_outside [where ex = ex, OF assms(2)]
  have "\<exists>a. regalt ex st q = Some a"
    using assms(1,3) unfolding vm_ok_def reg_ok_def by blast
  then have q: "pst (progs st q) = Palt" by (auto simp: ro split: if_splits)
  have f0: "framed st st0" using assms(3) by auto
  then have f: "framed st st1" unfolding assms(4) using altdone_spec(1) framed_trans by blast
  have "vm_ok ex st0" using assms(1,3) by (intro shrink_ok [OF assms(1) f0]) auto
  then show "vm_ok ex st1" unfolding assms(4) by (rule altdone_ok)
  have in_alt: "csendalt (chans st d) = Some q \<Longrightarrow> d \<in> send_chs (palt (progs st q))"
    "crecvalt (chans st d) = Some q \<Longrightarrow> d \<in> recv_chs (palt (progs st q))" for d
    using assms(1) ro q unfolding vm_ok_def reg_ok_def by (metis option.inject)+
  have sub: "csendalt (chans st0 d) = Some q \<Longrightarrow> csendalt (chans st d) = Some q"
    "crecvalt (chans st0 d) = Some q \<Longrightarrow> crecvalt (chans st d) = Some q" for d
    using assms(3) by (auto split: if_splits)
  show "unregistered q st1"
    unfolding unregistered_def assms(4) altdone_spec(2) using in_alt sub
    by (auto simp: drop_recv_def drop_send_def)
  show "runq st1 = runq st" "pst (progs st1 x) = pst (progs st x)" for x using f by (auto simp: framed_def)
  show "unqueued q st1" "q \<notin> set (runq st1)"
    using f q assms(1) by (auto simp: framed_def unqueued_def vm_ok_def waits_ok_def run_ok_def)
qed

lemma take_queue_ok:
  assumes "vm_ok ex st" and "ex q = None"
    and "crecv (chans st c) \<noteq> [] \<and> q = hd (crecv (chans st c)) \<and>
           st1 = upd_chan c (\<lambda>x. x\<lparr>crecv := tl (crecv x)\<rparr>) st \<or>
         csend (chans st c) \<noteq> [] \<and> q = hd (csend (chans st c)) \<and>
           st1 = upd_chan c (\<lambda>x. x\<lparr>csend := tl (csend x)\<rparr>) st"
  shows "vm_ok ex st1" "unregistered q st1" "unqueued q st1" "q \<notin> set (runq st1)" "runq st1 = runq st"
proof -
  have inv: "reg_ok ex st" "waits_ok st" "run_ok st" "meet_ok ex st" using assms(1) by (simp_all add: vm_ok_def)
  have pq: "progs st1 = progs st" "runq st1 = runq st" using assms(3) by auto
  have sub: "set (csend (chans st1 x)) \<subseteq> set (csend (chans st x))"
    "set (crecv (chans st1 x)) \<subseteq> set (crecv (chans st x))" for x
    using assms(3) list.set_sel(2) by (auto split: if_splits)
  have dist: "distinct (csend (chans st1 x))" "distinct (crecv (chans st1 x))" for x
    using assms(3) inv(2) by (auto simp: waits_ok_def distinct_tl)
  have alts: "csendalt (chans st1 x) = csendalt (chans st x)" "crecvalt (chans st1 x) = crecvalt (chans st x)" for x
    using assms(3) by auto
  have st: "pst (progs st q) = Psend \<or> pst (progs st q) = Precv"
    using assms(3) inv(2) unfolding waits_ok_def by (metis hd_in_set)
  have r: "regalt ex st1 x = regalt ex st x" for x by (rule regalt_eq) (simp_all add: pq)
  have "reg_ok ex st1" using inv(1) unfolding reg_ok_def alts r by blast
  moreover have "waits_ok st1"
    using inv(2) sub dist unfolding waits_ok_def pq by (meson subsetD)
  moreover have "run_ok st1" using inv(3) unfolding run_ok_def pq by blast
  moreover have "meet_ok ex st1"
  proof -
    have "csend (chans st1 x) \<noteq> [] \<Longrightarrow> csend (chans st x) \<noteq> []" "crecv (chans st1 x) \<noteq> [] \<Longrightarrow> crecv (chans st x) \<noteq> []"
      for x using sub [of x] by auto
    then show ?thesis using inv(4) unfolding meet_ok_def waiting_send_def waiting_recv_def alts by blast
  qed
  ultimately show "vm_ok ex st1" by (simp add: vm_ok_def)
  have "pst (progs st q) \<noteq> Palt" using st by auto
  then have "regalt ex st q = None" by (simp add: regalt_def assms(2))
  then show "unregistered q st1"
    using inv(1) unfolding unregistered_def reg_ok_def alts by (metis option.distinct(1))
  show "unqueued q st1"
    unfolding unqueued_def
  proof (intro allI conjI notI)
    fix x assume a: "q \<in> set (csend (chans st1 x))"
    then have b: "q \<in> set (csend (chans st x))" using sub by blast
    then have "pst (progs st q) = Psend" using inv(2) by (simp add: waits_ok_def)
    then have s: "csend (chans st c) \<noteq> []" "q = hd (csend (chans st c))"
      "st1 = upd_chan c (\<lambda>x. x\<lparr>csend := tl (csend x)\<rparr>) st"
      using assms(3) inv(2) unfolding waits_ok_def by (metis hd_in_set pstate.distinct)+
    then have "x = c" using b inv(2) unfolding waits_ok_def by (metis hd_in_set)
    moreover have "distinct (csend (chans st c))" using inv(2) by (simp add: waits_ok_def)
    ultimately show False using a s by (cases "csend (chans st c)") auto
  next
    fix x assume a: "q \<in> set (crecv (chans st1 x))"
    then have b: "q \<in> set (crecv (chans st x))" using sub by blast
    then have "pst (progs st q) = Precv" using inv(2) by (simp add: waits_ok_def)
    then have s: "crecv (chans st c) \<noteq> []" "q = hd (crecv (chans st c))"
      "st1 = upd_chan c (\<lambda>x. x\<lparr>crecv := tl (crecv x)\<rparr>) st"
      using assms(3) inv(2) unfolding waits_ok_def by (metis hd_in_set pstate.distinct)+
    then have "x = c" using b inv(2) unfolding waits_ok_def by (metis hd_in_set)
    moreover have "distinct (crecv (chans st c))" using inv(2) by (simp add: waits_ok_def)
    ultimately show False using a s by (cases "crecv (chans st c)") auto
  qed
  show "q \<notin> set (runq st1)" using inv(3) st unfolding run_ok_def pq by auto
  show "runq st1 = runq st" by (rule pq)
qed

text \<open>A free program that blocks on a queue.\<close>

lemma enqueue_ok:
  assumes "vm_ok ex st" and "unqueued p st"
    and "pst (progs st p) = Psend \<and> \<not> waiting_recv ex (chans st c) \<and>
           st' = upd_chan c (\<lambda>x. x\<lparr>csend := csend x @ [p]\<rparr>) st \<or>
         pst (progs st p) = Precv \<and> \<not> waiting_send ex (chans st c) \<and>
           st' = upd_chan c (\<lambda>x. x\<lparr>crecv := crecv x @ [p]\<rparr>) st"
  shows "vm_ok ex st'"
proof -
  have pq: "progs st' = progs st" "runq st' = runq st" using assms(3) by auto
  have alts: "csendalt (chans st' x) = csendalt (chans st x)" "crecvalt (chans st' x) = crecvalt (chans st x)" for x
    using assms(3) by auto
  have r: "regalt ex st' x = regalt ex st x" for x by (rule regalt_eq) (simp_all add: pq)
  have "reg_ok ex st'" using assms(1) unfolding vm_ok_def reg_ok_def alts r by blast
  moreover have "waits_ok st'"
    using assms unfolding vm_ok_def waits_ok_def unqueued_def by (elim disjE conjE) auto
  moreover have "run_ok st'" using assms(1) unfolding vm_ok_def run_ok_def pq by blast
  moreover have "meet_ok ex st'"
    unfolding meet_ok_def
  proof
    fix x
    have m: "\<not> (waiting_send ex (chans st x) \<and> waiting_recv ex (chans st x))"
      using assms(1) by (simp add: vm_ok_def meet_ok_def)
    show "\<not> (waiting_send ex (chans st' x) \<and> waiting_recv ex (chans st' x))"
    proof (cases "x = c")
      case True
      then show ?thesis using assms(3) by (auto simp: waiting_send_def waiting_recv_def)
    next
      case False
      then have "chans st' x = chans st x" using assms(3) by auto
      then show ?thesis using m by simp
    qed
  qed
  ultimately show ?thesis by (simp add: vm_ok_def)
qed

lemma delrun_ok:
  assumes "vm_ok ex st" and "runq st \<noteq> []" and "ex (hd (runq st)) = None" and "delrun s st = (p, st')"
  shows "p = hd (runq st)" "vm_ok ex st'" "unregistered p st'" "unqueued p st'" "p \<notin> set (runq st')"
    "pst (progs st' p) = s" "chans st' = chans st"
proof -
  have p: "p = hd (runq st)" "st' = (upd_prog p (\<lambda>x. x\<lparr>pst := s\<rparr>) st)\<lparr>runq := tl (runq st)\<rparr>"
    using assms(4) by (auto simp: delrun_def Let_def)
  have mem: "p \<in> set (runq st)" using p(1) assms(2) by simp
  have u: "unregistered p st" "unqueued p st"
    using running_free [OF assms(1) mem] assms(3) p(1) by simp_all
  have d: "distinct (runq st)" using assms(1) by (simp add: vm_ok_def run_ok_def)
  have n: "p \<notin> set (tl (runq st))" using d p(1) assms(2) by (cases "runq st") auto
  show "p = hd (runq st)" "pst (progs st' p) = s" "chans st' = chans st" "p \<notin> set (runq st')"
    using p n by simp_all
  show "unregistered p st'" "unqueued p st'" using u by (simp_all add: p(2) unregistered_def unqueued_def)
  show "vm_ok ex st'"
    by (rule free_ok [OF assms(1) u])
       (use p n d in \<open>auto simp: distinct_tl intro: list.set_sel(2) [OF assms(2)]\<close>)
qed

lemma pptr_ok: "vm_ok ex st \<Longrightarrow> vm_ok ex (upd_prog p (\<lambda>x. x\<lparr>pptr := k, pdst := d\<rparr>) st)"
  and psrc_ok: "vm_ok ex st \<Longrightarrow> vm_ok ex (upd_prog p (\<lambda>x. x\<lparr>pptr := k, psrc := d\<rparr>) st)"
proof -
  have f: "pst ((progs (upd_prog p (\<lambda>x. x\<lparr>pptr := k, pdst := d\<rparr>) st)) q) = pst (progs st q)"
    "pst ((progs (upd_prog p (\<lambda>x. x\<lparr>pptr := k, psrc := d\<rparr>) st)) q) = pst (progs st q)" for q
    by simp_all
  have r: "regalt ex (upd_prog p (\<lambda>x. x\<lparr>pptr := k, pdst := d\<rparr>) st) q = regalt ex st q"
    "regalt ex (upd_prog p (\<lambda>x. x\<lparr>pptr := k, psrc := d\<rparr>) st) q = regalt ex st q" for q
    by (rule regalt_eq; simp)+
  show "vm_ok ex st \<Longrightarrow> vm_ok ex (upd_prog p (\<lambda>x. x\<lparr>pptr := k, pdst := d\<rparr>) st)"
    "vm_ok ex st \<Longrightarrow> vm_ok ex (upd_prog p (\<lambda>x. x\<lparr>pptr := k, psrc := d\<rparr>) st)"
    unfolding vm_defs r f by simp_all
qed

text \<open>\<open>isend\<close> and \<open>irecv\<close> keep the invariant.\<close>

lemma send_block_ok:
  assumes "vm_ok Map.empty st" and "runq st \<noteq> []" and "\<not> recv_ready (chans st c)"
  shows "vm_ok Map.empty (fst (send_on c s d st))"
proof -
  obtain p st1 where d: "delrun Psend st = (p, st1)" by fastforce
  note l = delrun_ok [OF assms(1,2) _ d, simplified]
  let ?st2 = "upd_prog p (\<lambda>x. x\<lparr>pptr := s, pdst := d\<rparr>) st1"
  have "vm_ok Map.empty ?st2" by (rule pptr_ok [OF l(2)])
  moreover have "unqueued p ?st2" using l(4) by (simp add: unqueued_def)
  moreover have "\<not> waiting_recv Map.empty (chans ?st2 c)"
    using assms(3) l(7) by (simp add: recv_ready_def waiting_recv_def)
  ultimately show ?thesis
    using assms(3) l(6) by (simp add: send_on_def recv_ready_def d enqueue_ok)
qed

lemma recv_block_ok:
  assumes "vm_ok Map.empty st" and "runq st \<noteq> []" and "\<not> send_ready (chans st c)"
  shows "vm_ok Map.empty (fst (recv_on c d s st))"
proof -
  obtain p st1 where e: "delrun Precv st = (p, st1)" by fastforce
  note l = delrun_ok [OF assms(1,2) _ e, simplified]
  let ?st2 = "upd_prog p (\<lambda>x. x\<lparr>pptr := d, psrc := s\<rparr>) st1"
  have "vm_ok Map.empty ?st2" by (rule psrc_ok [OF l(2)])
  moreover have "unqueued p ?st2" using l(4) by (simp add: unqueued_def)
  moreover have "\<not> waiting_send Map.empty (chans ?st2 c)"
    using assms(3) l(7) by (simp add: send_ready_def waiting_send_def)
  ultimately show ?thesis
    using assms(3) l(6) by (simp add: recv_on_def send_ready_def e enqueue_ok)
qed

lemma wake_ok:
  assumes "vm_ok ex st1" and "unregistered q st1" and "unqueued q st1" and "q \<notin> set (runq st1)"
  shows "vm_ok ex (addrun q (store a v st1))"
  by (rule addrun_ok [OF store_ok [OF assms(1)]])
     (use assms(2-4) in \<open>simp_all add: unregistered_def unqueued_def\<close>)

lemma queued_not_running:
  assumes "vm_ok ex st" and "dom ex \<subseteq> set (runq st)"
  shows "crecv (chans st c) \<noteq> [] \<Longrightarrow> ex (hd (crecv (chans st c))) = None"
    and "csend (chans st c) \<noteq> [] \<Longrightarrow> ex (hd (csend (chans st c))) = None"
proof -
  have r: "q \<in> set (runq st) \<Longrightarrow> pst (progs st q) \<noteq> Psend \<and> pst (progs st q) \<noteq> Precv" for q
    using assms(1) by (auto simp: vm_ok_def run_ok_def)
  have w: "q \<in> set (crecv (chans st c)) \<Longrightarrow> pst (progs st q) = Precv"
    "q \<in> set (csend (chans st c)) \<Longrightarrow> pst (progs st q) = Psend" for q
    using assms(1) by (auto simp: vm_ok_def waits_ok_def)
  show "crecv (chans st c) \<noteq> [] \<Longrightarrow> ex (hd (crecv (chans st c))) = None"
    "csend (chans st c) \<noteq> [] \<Longrightarrow> ex (hd (csend (chans st c))) = None"
    using assms(2) r w by (metis domIff hd_in_set subsetD)+
qed

lemma send_ready_ok:
  assumes "vm_ok ex st" and "dom ex \<subseteq> set (runq st)" and "recv_ready (chans st c)"
    and "\<And>q. crecvalt (chans st c) = Some q \<Longrightarrow> ex q = None"
  shows "vm_ok ex (fst (send_on c s d st))"
proof (cases "crecvalt (chans st c)")
  case None
  define st1 where "st1 = upd_chan c (\<lambda>x. x\<lparr>crecv := tl (crecv x)\<rparr>) st"
  have ne: "crecv (chans st c) \<noteq> []" using assms(3) None by (simp add: recv_ready_def)
  note q = take_queue_ok [OF assms(1) queued_not_running(1) [OF assms(1,2) ne]]
  have "vm_ok ex (addrun (hd (crecv (chans st c)))
    (store (pptr (progs st1 (hd (crecv (chans st c))))) (mem st1 s) st1))"
    by (rule wake_ok; rule q; use ne in \<open>auto simp: st1_def\<close>)
  then show ?thesis using ne None by (simp add: send_on_def st1_def)
next
  case (Some q)
  define st1 where "st1 = altdone (palt (progs st q)) q (Some c) 1 (upd_chan c (\<lambda>x. x\<lparr>crecvalt := None\<rparr>) st)"
  note t = take_alt_ok [OF assms(1) assms(4) [OF Some] disjI1 [OF conjI [OF Some refl]] st1_def]
  have "vm_ok ex (addrun q (store (pptr (progs st1 q)) (mem st1 s) st1))"
    by (rule wake_ok [OF t(1-4)])
  then show ?thesis using Some by (simp add: send_on_def st1_def [symmetric])
qed

lemma recv_ready_ok:
  assumes "vm_ok ex st" and "dom ex \<subseteq> set (runq st)" and "send_ready (chans st c)"
    and "\<And>q. csendalt (chans st c) = Some q \<Longrightarrow> ex q = None"
  shows "vm_ok ex (fst (recv_on c d s st))"
proof (cases "csendalt (chans st c)")
  case None
  define st1 where "st1 = upd_chan c (\<lambda>x. x\<lparr>csend := tl (csend x)\<rparr>) st"
  have ne: "csend (chans st c) \<noteq> []" using assms(3) None by (simp add: send_ready_def)
  note q = take_queue_ok [OF assms(1) queued_not_running(2) [OF assms(1,2) ne]]
  have "vm_ok ex (addrun (hd (csend (chans st c)))
    (store d (mem st1 (pptr (progs st1 (hd (csend (chans st c)))))) st1))"
    by (rule wake_ok; rule q; use ne in \<open>auto simp: st1_def\<close>)
  then show ?thesis using ne None by (simp add: recv_on_def st1_def)
next
  case (Some q)
  define st1 where "st1 = altdone (palt (progs st q)) q (Some c) 0 (upd_chan c (\<lambda>x. x\<lparr>csendalt := None\<rparr>) st)"
  note t = take_alt_ok [OF assms(1) assms(4) [OF Some] disjI2 [OF conjI [OF Some refl]] st1_def]
  have "vm_ok ex (addrun q (store d (mem st1 (pptr (progs st1 q))) st1))"
    by (rule wake_ok [OF t(1-4)])
  then show ?thesis using Some by (simp add: recv_on_def st1_def [symmetric])
qed

text \<open>What \<open>altrdy\<close> leaves behind.\<close>

lemma altrdy_spec:
  assumes "altrdy a p st = (st', Some n)"
  shows "same_rest st st'"
    and "chans st' = reg_send p (send_chs a) (reg_recv p (recv_chs a) (chans st))"
    and "send_chs a \<inter> recv_chs a = {}"
    and "n = 0 \<Longrightarrow> c \<in> recv_chs a \<Longrightarrow> \<not> send_ready (chans st c)"
    and "n = 0 \<Longrightarrow> c \<in> send_chs a \<Longrightarrow> \<not> recv_ready (chans st c)"
proof -
  obtain st1 k where r: "rdy_recv (arecv a) p st = (st1, k)" by fastforce
  obtain st2 m where s: "rdy_send (asend a) p st1 = (st2, m)" by fastforce
  obtain j where j: "m = Some j" "st' = st2" "n = k + j"
    using assms r s by (auto simp: altrdy_def split: option.splits prod.splits)
  note rs = rdy_recv_spec [OF r] and ss = rdy_send_spec [OF s, unfolded j(1) option.case]
  have c1: "chans st1 = reg_recv p (recv_chs a) (chans st)" using rs by (simp add: recv_chs_def)
  have c2: "chans st2 = reg_send p (send_chs a) (chans st1)" using ss by (simp add: send_chs_def)
  have "\<forall>c \<in> send_chs a. crecvalt (chans st1 c) \<noteq> Some p"
    unfolding send_chs_def by (rule conjunct1 [OF conjunct2 [OF conjunct2 [OF ss]]])
  then have nr: "crecvalt (chans st1 c) \<noteq> Some p" if "c \<in> send_chs a" for c
    using that by simp
  show "same_rest st st'" unfolding j(2) by (rule same_rest_trans [OF conjunct1 [OF rs] conjunct1 [OF ss]])
  show "chans st' = reg_send p (send_chs a) (reg_recv p (recv_chs a) (chans st))"
    unfolding j(2) c2 c1 by simp
  show disj: "send_chs a \<inter> recv_chs a = {}"
    using nr by (metis alt_reg_other(1) c1 disjoint_iff)
  show "n = 0 \<Longrightarrow> c \<in> recv_chs a \<Longrightarrow> \<not> send_ready (chans st c)" for c
    using conjunct2 [OF conjunct2 [OF rs]] j(3) unfolding recv_chs_def by (metis add_is_0)
  show "n = 0 \<Longrightarrow> c \<in> send_chs a \<Longrightarrow> \<not> recv_ready (chans st c)"
  proof -
    assume a: "n = 0" "c \<in> send_chs a"
    then have "\<not> recv_ready (chans st1 c)"
      using conjunct2 [OF conjunct2 [OF conjunct2 [OF ss]]] j(3) unfolding send_chs_def by (metis add_is_0)
    moreover have "c \<notin> recv_chs a" using disj a(2) by blast
    ultimately show "\<not> recv_ready (chans st c)" by (simp add: c1 reg_recv_def)
  qed
qed

text \<open>Registering the running program.\<close>

lemma register_ok:
  assumes "vm_ok Map.empty st" and "unregistered p st" and "altrdy a p st = (st', Some n)"
  shows "vm_ok [p \<mapsto> a] st'"
proof -
  note s = altrdy_spec [OF assms(3)]
  have q: "csend (chans st' c) = csend (chans st c)" "crecv (chans st' c) = crecv (chans st c)" for c
    by (simp_all add: s(2))
  have alts: "csendalt (chans st' c) = (if c \<in> send_chs a then Some p else csendalt (chans st c))"
    "crecvalt (chans st' c) = (if c \<in> recv_chs a then Some p else crecvalt (chans st c))" for c
    by (simp_all add: s(2) reg_send_def reg_recv_def)
  have r: "x \<noteq> p \<Longrightarrow> regalt [p \<mapsto> a] st' x = regalt Map.empty st x" "regalt [p \<mapsto> a] st' p = Some a" for x
    by (simp_all add: regalt_def same_restD [OF s(1)])
  have old: "reg_ok Map.empty st" "meet_ok Map.empty st" using assms(1) by (simp_all add: vm_ok_def)
  have "reg_ok [p \<mapsto> a] st'"
    unfolding reg_ok_def
  proof (intro conjI allI impI)
    fix c x
    show "csendalt (chans st' c) = Some x \<Longrightarrow> \<exists>b. regalt [p \<mapsto> a] st' x = Some b \<and> c \<in> send_chs b"
      using old(1) assms(2) r unfolding alts reg_ok_def unregistered_def
      by (metis option.inject)
    show "crecvalt (chans st' c) = Some x \<Longrightarrow> \<exists>b. regalt [p \<mapsto> a] st' x = Some b \<and> c \<in> recv_chs b"
      using old(1) assms(2) r unfolding alts reg_ok_def unregistered_def
      by (metis option.inject)
  qed
  moreover have "waits_ok st'"
    using assms(1) unfolding vm_ok_def waits_ok_def q same_restD(1) [OF s(1)] by blast
  moreover have "run_ok st'"
    using assms(1) unfolding vm_ok_def run_ok_def same_restD(1,3) [OF s(1)] by blast
  moreover have "meet_ok [p \<mapsto> a] st'"
  proof -
    have "waiting_send [p \<mapsto> a] (chans st' c) \<Longrightarrow> waiting_send Map.empty (chans st c)"
      "waiting_recv [p \<mapsto> a] (chans st' c) \<Longrightarrow> waiting_recv Map.empty (chans st c)" for c
      by (auto simp: waiting_send_def waiting_recv_def q alts split: if_splits)
    then show ?thesis using old(2) unfolding meet_ok_def by blast
  qed
  ultimately show ?thesis by (simp add: vm_ok_def)
qed

lemma unregister_ok:
  assumes "vm_ok [p \<mapsto> a] st"
  shows "vm_ok Map.empty (altdone a p sel sr st)"
proof -
  define st' where "st' = altdone a p sel sr st"
  have ok: "vm_ok [p \<mapsto> a] st'" unfolding st'_def by (rule altdone_ok [OF assms])
  have pa: "regalt [p \<mapsto> a] st p = Some a" by (simp add: regalt_def)
  have u: "csendalt (chans st' c) \<noteq> Some p" "crecvalt (chans st' c) \<noteq> Some p" for c
  proof -
    have "csendalt (chans st c) = Some p \<Longrightarrow> c \<in> send_chs a" "crecvalt (chans st c) = Some p \<Longrightarrow> c \<in> recv_chs a"
      using assms pa unfolding vm_ok_def reg_ok_def by (metis option.inject)+
    then show "csendalt (chans st' c) \<noteq> Some p" "crecvalt (chans st' c) \<noteq> Some p"
      by (auto simp: st'_def altdone_spec drop_recv_def drop_send_def)
  qed
  have r: "x \<noteq> p \<Longrightarrow> regalt [p \<mapsto> a] st' x = regalt Map.empty st' x" for x by (simp add: regalt_def)
  have "reg_ok Map.empty st'" using ok u r unfolding vm_ok_def reg_ok_def by metis
  moreover have "meet_ok Map.empty st'"
    using ok u unfolding vm_ok_def meet_ok_def waiting_send_def waiting_recv_def
    by (metis fun_upd_other)
  ultimately show ?thesis using ok by (simp add: vm_ok_def st'_def)
qed

text \<open>
  What \<open>altcomm\<close> does is one communication on a ready channel of the \<open>alt\<close>, with the data pointer of its entry; for
  an array of channels the data goes behind the word for the index. Indices may have been stored before.
\<close>

definition index_only :: "(nat \<Rightarrow> cell) \<Rightarrow> (nat \<Rightarrow> cell) \<Rightarrow> bool" where
  "index_only M m \<longleftrightarrow> (\<forall>x. M x = m x \<or> (\<exists>i :: nat. M x = W (int i)))"

lemma index_only_refl [simp]: "index_only m m" by (simp add: index_only_def)
lemma index_only_trans: "index_only M' M \<Longrightarrow> index_only M m \<Longrightarrow> index_only M' m" unfolding index_only_def by metis
lemma index_only_store [simp]: "index_only M m \<Longrightarrow> index_only (M(x := W (int i))) m" by (auto simp: index_only_def)

fun aref_entry :: "aref \<Rightarrow> nat \<Rightarrow> nat \<Rightarrow> nat \<Rightarrow> bool" where
  "aref_entry (One e) ptr c x \<longleftrightarrow> e = c \<and> x = ptr"
| "aref_entry (Many ca) ptr c x \<longleftrightarrow> Some c \<in> set ca \<and> x = ptr + 1"

definition recv_entry :: "(aref \<times> nat) list \<Rightarrow> nat \<Rightarrow> nat \<Rightarrow> bool" where
  "recv_entry ac c x \<longleftrightarrow> (\<exists>e \<in> set ac. aref_entry (fst e) (snd e) c x)"

definition send_entry :: "(nat \<times> nat) list \<Rightarrow> nat \<Rightarrow> nat \<Rightarrow> bool" where
  "send_entry ac c x \<longleftrightarrow> (c, x) \<in> set ac"

lemma entry_Cons [simp]:
  "\<not> recv_entry [] c x" "recv_entry (e # ac) c x \<longleftrightarrow> aref_entry (fst e) (snd e) c x \<or> recv_entry ac c x"
  "\<not> send_entry [] c x" "send_entry (f # bc) c x \<longleftrightarrow> f = (c, x) \<or> send_entry bc c x"
  by (auto simp: recv_entry_def send_entry_def)

lemma recv_entry_chs: "recv_entry (arecv a) c x \<Longrightarrow> c \<in> recv_chs a"
proof -
  have "aref_entry r ptr c x \<Longrightarrow> c \<in> aref_chs r" for r ptr by (cases r) auto
  then show "recv_entry (arecv a) c x \<Longrightarrow> c \<in> recv_chs a" by (fastforce simp: recv_entry_def recv_chs_def)
qed

lemma send_entry_chs: "send_entry (asend a) c x \<Longrightarrow> c \<in> send_chs a"
  by (force simp: send_entry_def send_chs_def)

type_synonym entries = "nat \<Rightarrow> nat \<Rightarrow> bool"   \<comment> \<open>channel and data pointer\<close>

definition one_comm :: "entries \<Rightarrow> entries \<Rightarrow> vm \<Rightarrow> vm \<Rightarrow> bool" where
  "one_comm S R st st' \<longleftrightarrow>
    (\<exists>c ptr d st0. framed st st0 \<and> chans st0 = chans st \<and> progs st0 = progs st \<and> index_only (mem st0) (mem st) \<and>
       (S c ptr \<and> recv_ready (chans st c) \<and> st' = fst (send_on c ptr d st0) \<or>
        R c ptr \<and> send_ready (chans st c) \<and> st' = fst (recv_on c ptr d st0)))"

lemma one_comm_mono:
  "one_comm S R st st' \<Longrightarrow> (\<And>c x. S c x \<Longrightarrow> S' c x) \<Longrightarrow> (\<And>c x. R c x \<Longrightarrow> R' c x) \<Longrightarrow> one_comm S' R' st st'"
  unfolding one_comm_def by blast

lemma one_comm_send:
  "recv_ready (chans st c) \<Longrightarrow> S c ptr \<Longrightarrow> one_comm S R st (fst (send_on c ptr d (store d (W (int n)) st)))"
  unfolding one_comm_def
  by (intro exI [of _ c] exI [of _ ptr] exI [of _ d] exI [of _ "store d (W (int n)) st"]) simp

lemma one_comm_recv:
  "send_ready (chans st c) \<Longrightarrow> R c ptr \<Longrightarrow> framed st st0 \<Longrightarrow> chans st0 = chans st \<Longrightarrow> progs st0 = progs st \<Longrightarrow>
    index_only (mem st0) (mem st) \<Longrightarrow> one_comm S R st (fst (recv_on c ptr d st0))"
  unfolding one_comm_def
  by (intro exI [of _ c] exI [of _ ptr] exI [of _ d] exI [of _ st0]) simp

lemma comm_send_spec:
  "comm_send ac which n d st = (Some st', w, m) \<Longrightarrow> one_comm (send_entry ac) R st st'"
proof (induction ac which n d st rule: comm_send.induct)
  case (2 c ptr ac which n d st)
  show ?case
  proof (cases "recv_ready (chans st c) \<and> which = 0")
    case True
    then have e: "st' = fst (send_on c ptr d (store d (W (int n)) st))" using "2.prems" by auto
    show ?thesis unfolding e by (rule one_comm_send) (use True in simp_all)
  next
    case False
    then have "one_comm (send_entry ac) R st st'"
      using 2 by (cases "recv_ready (chans st c)") auto
    then show ?thesis by (rule one_comm_mono) auto
  qed
qed simp

lemma comm_many_spec:
  "comm_many ca ptr which n an d st = (Some st', w) \<Longrightarrow> one_comm S (aref_entry (Many ca) ptr) st st'"
proof (induction ca ptr which n an d st rule: comm_many.induct)
  case (2 ch ca ptr which n an d st)
  show ?case
  proof (cases "\<exists>c. ch = Some c \<and> send_ready (chans st c) \<and> which = 0")
    case True
    then obtain c where c: "ch = Some c" "send_ready (chans st c)" "which = 0" by blast
    let ?st0 = "store ptr (W (int an)) (store d (W (int n)) st)"
    have e: "st' = fst (recv_on c (ptr + 1) d ?st0)" using "2.prems" c by simp
    show ?thesis unfolding e by (rule one_comm_recv [OF c(2)]) (simp_all add: framed_def c(1))
  next
    case False
    then have "one_comm S (aref_entry (Many ca) ptr) st st'"
      using 2 by (cases ch) (auto simp del: aref_entry.simps split: if_splits)
    then show ?thesis by (rule one_comm_mono) auto
  qed
qed simp

lemma comm_recv_spec:
  "comm_recv ac which n d st = Some st' \<Longrightarrow> one_comm S (recv_entry ac) st st'"
proof (induction ac which n d st rule: comm_recv.induct)
  case (2 c ptr ac which n d st)
  show ?case
  proof (cases "send_ready (chans st c) \<and> which = 0")
    case True
    let ?st0 = "store d (W (int n)) st"
    have e: "st' = fst (recv_on c ptr d ?st0)" using "2.prems" True by simp
    show ?thesis unfolding e using True by (intro one_comm_recv) simp_all
  next
    case False
    then have "one_comm S (recv_entry ac) st st'"
      using 2 by (cases "send_ready (chans st c)") auto
    then show ?thesis by (rule one_comm_mono) auto
  qed
next
  case (3 ca ptr ac which n d st)
  obtain r w where m: "comm_many ca ptr which n 0 d st = (r, w)" by fastforce
  show ?case
  proof (cases r)
    case None
    then have "one_comm S (recv_entry ac) st st'" using 3 m by simp
    then show ?thesis by (rule one_comm_mono) auto
  next
    case (Some st1)
    then have "one_comm S (aref_entry (Many ca) ptr) st st'" using 3 m comm_many_spec by auto
    then show ?thesis by (rule one_comm_mono) auto
  qed
qed simp

lemma altcomm_spec:
  "altcomm a which d st = st \<or> one_comm (send_entry (asend a)) (recv_entry (arecv a)) st (altcomm a which d st)"
proof -
  obtain r w n where s: "comm_send (asend a) which 0 d st = (r, w, n)" by (metis prod_cases3)
  show ?thesis
  proof (cases r)
    case (Some st')
    then show ?thesis using comm_send_spec s by (simp add: altcomm_def)
  next
    case None
    show ?thesis
    proof (cases "comm_recv (arecv a) w n d st")
      case (Some st')
      show ?thesis using comm_recv_spec [OF Some] None Some by (simp add: altcomm_def s)
    qed (simp add: altcomm_def s None)
  qed
qed

lemma framed_ok:
  assumes "vm_ok ex st" and "framed st st'" and "chans st' = chans st"
  shows "vm_ok ex st'"
  by (rule shrink_ok [OF assms(1,2)]) (simp_all add: assms(3))

lemma one_comm_ok:
  assumes "vm_ok [p \<mapsto> a] st" and "p \<in> set (runq st)" and "one_comm S R st st'"
    and "\<And>c x. S c x \<Longrightarrow> crecvalt (chans st c) \<noteq> Some p" and "\<And>c x. R c x \<Longrightarrow> csendalt (chans st c) \<noteq> Some p"
  shows "vm_ok [p \<mapsto> a] st'"
proof -
  obtain c ptr d st0 where f: "framed st st0" "chans st0 = chans st"
    and c: "S c ptr \<and> recv_ready (chans st c) \<and> st' = fst (send_on c ptr d st0) \<or>
      R c ptr \<and> send_ready (chans st c) \<and> st' = fst (recv_on c ptr d st0)"
    using assms(3) unfolding one_comm_def by blast
  have ok: "vm_ok [p \<mapsto> a] st0" by (rule framed_ok [OF assms(1) f])
  have rq: "dom [p \<mapsto> a] \<subseteq> set (runq st0)" using assms(2) f(1) by (simp add: framed_def)
  show ?thesis using c
  proof (elim disjE conjE)
    assume "S c ptr" "recv_ready (chans st c)" "st' = fst (send_on c ptr d st0)"
    then show ?thesis using send_ready_ok [OF ok rq, of c ptr d] assms(4) [of c ptr] unfolding f(2) by fastforce
  next
    assume "R c ptr" "send_ready (chans st c)" "st' = fst (recv_on c ptr d st0)"
    then show ?thesis using recv_ready_ok [OF ok rq, of c ptr d] assms(5) [of c ptr] unfolding f(2) by fastforce
  qed
qed

lemma alt_block_ok:
  assumes "vm_ok Map.empty st" and "runq st \<noteq> []" and "p = hd (runq st)" and "altrdy a p st = (st1, Some 0)"
  shows "vm_ok Map.empty (upd_prog p (\<lambda>x. x\<lparr>palt := a, pdst := d\<rparr>) (snd (delrun Palt st1)))"
proof -
  define st' where "st' = upd_prog p (\<lambda>x. x\<lparr>palt := a, pdst := d\<rparr>) (snd (delrun Palt st1))"
  note s = altrdy_spec [OF assms(4)] and e = same_restD [OF altrdy_spec(1) [OF assms(4)]]
  have pin: "p \<in> set (runq st)" using assms(2,3) by simp
  have u: "unregistered p st" "unqueued p st" using running_free [OF assms(1) pin] by simp_all
  have ok: "vm_ok [p \<mapsto> a] st1" by (rule register_ok [OF assms(1) u(1) assms(4)])
  have c: "chans st' = chans st1" "runq st' = tl (runq st)"
    by (simp_all add: st'_def delrun_def Let_def e)
  have pp: "pst (progs st' p) = Palt" "palt (progs st' p) = a" "x \<noteq> p \<Longrightarrow> progs st' x = progs st1 x" for x
    by (simp_all add: st'_def delrun_def Let_def e assms(3))
  have r: "regalt Map.empty st' x = regalt [p \<mapsto> a] st1 x" for x
    by (cases "x = p") (simp_all add: regalt_def pp)
  have q: "csend (chans st' x) = csend (chans st x)" "crecv (chans st' x) = crecv (chans st x)" for x
    by (simp_all add: c s(2))
  have "reg_ok Map.empty st'" using ok unfolding vm_ok_def reg_ok_def r c by blast
  moreover have "waits_ok st'"
  proof -
    have pq: "p \<notin> set (csend (chans st' x))" "p \<notin> set (crecv (chans st' x))" for x
      using u(2) by (simp_all add: unqueued_def q)
    have "waits_ok st1" using ok by (simp add: vm_ok_def)
    then show ?thesis using pq pp(3) unfolding waits_ok_def c by metis
  qed
  moreover have "run_ok st'"
  proof -
    have d: "distinct (runq st)" using assms(1) by (simp add: vm_ok_def run_ok_def)
    then have "p \<notin> set (tl (runq st))" using assms(2,3) by (cases "runq st") auto
    moreover have "x \<in> set (tl (runq st)) \<Longrightarrow> pst (progs st x) \<in> {Pready, Pexiting}" for x
      using assms(1) list.set_sel(2) [OF assms(2)] unfolding vm_ok_def run_ok_def by blast
    ultimately show ?thesis unfolding run_ok_def c using d pp(3)
      by (metis distinct_tl e(1))
  qed
  moreover have "meet_ok Map.empty st'"
    unfolding meet_ok_def
  proof (intro allI notI, elim conjE)
    fix x assume w: "waiting_send Map.empty (chans st' x)" "waiting_recv Map.empty (chans st' x)"
    have m: "\<not> (waiting_send [p \<mapsto> a] (chans st1 x) \<and> waiting_recv [p \<mapsto> a] (chans st1 x))"
      using ok unfolding vm_ok_def meet_ok_def by blast
    have disj: "x \<notin> send_chs a \<or> x \<notin> recv_chs a" using s(3) by blast
    have "waiting_send [p \<mapsto> a] (chans st1 x)" if "x \<notin> send_chs a"
      using w(1) that u(1) unfolding waiting_send_def c s(2) unregistered_def
      by (auto simp: reg_send_def)
    moreover have "waiting_recv [p \<mapsto> a] (chans st1 x)" if "x \<notin> recv_chs a"
      using w(2) that u(1) unfolding waiting_recv_def c s(2) unregistered_def
      by (auto simp: reg_send_def reg_recv_def split: if_splits)
    moreover have "send_ready (chans st x)" if "x \<notin> send_chs a"
      using w(1) that unfolding waiting_send_def c s(2) send_ready_def
      by (auto simp: reg_send_def)
    moreover have "recv_ready (chans st x)" if "x \<notin> recv_chs a"
      using w(2) that unfolding waiting_recv_def c s(2) recv_ready_def
      by (auto simp: reg_send_def reg_recv_def split: if_splits)
    ultimately show False using m disj s(4,5) [OF refl] by blast
  qed
  ultimately show ?thesis unfolding vm_ok_def st'_def by simp
qed

lemma xecalt_ok:
  assumes "vm_ok Map.empty st" and "runq st \<noteq> []" and "xecalt block a d st = Inr (st', b)"
  shows "vm_ok Map.empty st'"
proof -
  define p where "p = hd (runq st)"
  have pin: "p \<in> set (runq st)" using assms(2) by (simp add: p_def)
  have u: "unregistered p st" using running_free(1) [OF assms(1) pin] by simp
  obtain st1 nrdy where r: "altrdy a p st = (st1, Some nrdy)"
    using assms(3) by (auto simp: xecalt_def currun_def p_def Let_def split: prod.splits option.splits)
  note s = altrdy_spec [OF r] and e = same_restD [OF altrdy_spec(1) [OF r]]
  have ok: "vm_ok [p \<mapsto> a] st1" by (rule register_ok [OF assms(1) u r])
  show ?thesis
  proof (cases "nrdy = 0")
    case True
    show ?thesis
    proof (cases block)
      case True
      have "hd (runq st1) = p" by (simp add: e p_def)
      then have "st' = upd_prog p (\<lambda>x. x\<lparr>palt := a, pdst := d\<rparr>) (snd (delrun Palt st1))"
        using assms(3) \<open>nrdy = 0\<close> True r
        by (simp add: xecalt_def currun_def p_def Let_def delrun_def)
      then show ?thesis using alt_block_ok [OF assms(1,2) p_def] r \<open>nrdy = 0\<close> by simp
    next
      case False
      then have "st' = altdone a p None (- 1) (store d (W (int (length (asend a) + length (arecv a)))) st1)"
        using assms(3) \<open>nrdy = 0\<close> r by (simp add: xecalt_def currun_def p_def Let_def)
      then show ?thesis using unregister_ok [OF store_ok [OF ok]] by simp
    qed
  next
    case False
    define st2 where "st2 = st1\<lparr>xrand := next_rand (xrand st1)\<rparr>"
    define st3 where "st3 = altcomm a (nat (sint (next_rand (xrand st1))) mod nrdy) d st2"
    have st': "st' = altdone a p None (- 1) st3"
      using assms(3) False r by (simp add: xecalt_def currun_def p_def Let_def st2_def st3_def)
    have sel: "progs st2 = progs st1" "chans st2 = chans st1" "runq st2 = runq st1"
      by (simp_all add: st2_def)
    have ok2: "vm_ok [p \<mapsto> a] st2"
      using ok unfolding vm_ok_def reg_ok_def regalt_def waits_ok_def run_ok_def meet_ok_def sel .
    have pin2: "p \<in> set (runq st2)" using pin by (simp add: sel e)
    have alts: "crecvalt (chans st2 c) \<noteq> Some p" if "c \<in> send_chs a" for c
      using that s(2,3) u by (auto simp: sel reg_recv_def unregistered_def)
    have alts': "csendalt (chans st2 c) \<noteq> Some p" if "c \<in> recv_chs a" for c
      using that s(2,3) u by (auto simp: sel reg_send_def unregistered_def)
    have "vm_ok [p \<mapsto> a] st3"
      using altcomm_spec [of a "nat (sint (next_rand (xrand st1))) mod nrdy" d st2]
        one_comm_ok [OF ok2 pin2, of "send_entry (asend a)" "recv_entry (arecv a)"] alts [OF send_entry_chs] alts' [OF recv_entry_chs] ok2
      unfolding st3_def by metis
    then show ?thesis unfolding st' by (rule unregister_ok)
  qed
qed

text \<open>
  \<open>killprog\<close> finds the channel a blocked program waits on through the operand of the instruction
  it blocked in; it takes the program off the right queue if that still holds the channel.
\<close>

definition saved_chan :: "nat \<Rightarrow> vm \<Rightarrow> bool" where
  "saved_chan p st \<longleftrightarrow>
    (\<forall>c. p \<in> set (csend (chans st c)) \<longrightarrow> mem st (pdst (progs st p)) = Ch (Some c)) \<and>
    (\<forall>c. p \<in> set (crecv (chans st c)) \<longrightarrow> mem st (psrc (progs st p)) = Ch (Some c))"

definition gone :: "nat \<Rightarrow> vm \<Rightarrow> bool" where
  "gone p st \<longleftrightarrow> unregistered p st \<and> unqueued p st \<and> p \<notin> set (runq st)"

lemma dequeue_ok:
  assumes "vm_ok Map.empty st" and "saved_chan p st"
    and "pst (progs st p) = Psend \<and> mem st (pdst (progs st p)) = Ch (Some c) \<and>
           st1 = upd_chan c (\<lambda>x. x\<lparr>csend := remove1 p (csend x)\<rparr>) st \<or>
         pst (progs st p) = Precv \<and> mem st (psrc (progs st p)) = Ch (Some c) \<and>
           st1 = upd_chan c (\<lambda>x. x\<lparr>crecv := remove1 p (crecv x)\<rparr>) st"
  shows "vm_ok Map.empty st1" "gone p st1"
proof -
  have inv: "reg_ok Map.empty st" "waits_ok st" "run_ok st" "meet_ok Map.empty st"
    using assms(1) by (simp_all add: vm_ok_def)
  have pq: "progs st1 = progs st" "runq st1 = runq st" using assms(3) by auto
  have alts: "csendalt (chans st1 x) = csendalt (chans st x)" "crecvalt (chans st1 x) = crecvalt (chans st x)" for x
    using assms(3) by auto
  have sub: "set (csend (chans st1 x)) \<subseteq> set (csend (chans st x))"
    "set (crecv (chans st1 x)) \<subseteq> set (crecv (chans st x))" for x
    using assms(3) by (auto split: if_splits dest: subsetD [OF set_remove1_subset])
  have dist: "distinct (csend (chans st1 x))" "distinct (crecv (chans st1 x))" for x
    using assms(3) inv(2) by (auto simp: waits_ok_def)
  have r: "regalt Map.empty st1 x = regalt Map.empty st x" for x by (rule regalt_eq) (simp_all add: pq)
  have "reg_ok Map.empty st1" using inv(1) unfolding reg_ok_def alts r by blast
  moreover have "waits_ok st1"
    using inv(2) sub dist unfolding waits_ok_def pq by (meson subsetD)
  moreover have "run_ok st1" using inv(3) unfolding run_ok_def pq by blast
  moreover have "meet_ok Map.empty st1"
  proof -
    have "csend (chans st1 x) \<noteq> [] \<Longrightarrow> csend (chans st x) \<noteq> []" "crecv (chans st1 x) \<noteq> [] \<Longrightarrow> crecv (chans st x) \<noteq> []"
      for x using sub [of x] by auto
    then show ?thesis using inv(4) unfolding meet_ok_def waiting_send_def waiting_recv_def alts by blast
  qed
  ultimately show "vm_ok Map.empty st1" by (simp add: vm_ok_def)
  have ns: "pst (progs st p) \<notin> {Palt, Pready, Pexiting}" using assms(3) by auto
  then have "regalt Map.empty st p = None" by (simp add: regalt_def)
  then have "unregistered p st1"
    using inv(1) unfolding unregistered_def reg_ok_def alts by (metis option.distinct(1))
  moreover have "p \<notin> set (runq st1)" using inv(3) ns unfolding run_ok_def pq by blast
  moreover have "unqueued p st1"
    using assms(3)
  proof (elim disjE conjE)
    assume a: "pst (progs st p) = Psend" "mem st (pdst (progs st p)) = Ch (Some c)"
      "st1 = upd_chan c (\<lambda>x. x\<lparr>csend := remove1 p (csend x)\<rparr>) st"
    have "p \<notin> set (crecv (chans st x))" for x using inv(2) a(1) by (auto simp: waits_ok_def)
    moreover have "p \<in> set (csend (chans st x)) \<Longrightarrow> x = c" for x
      using assms(2) a(2) by (auto simp: saved_chan_def)
    moreover have "distinct (csend (chans st c))" using inv(2) by (simp add: waits_ok_def)
    ultimately show ?thesis by (auto simp: unqueued_def a(3))
  next
    assume a: "pst (progs st p) = Precv" "mem st (psrc (progs st p)) = Ch (Some c)"
      "st1 = upd_chan c (\<lambda>x. x\<lparr>crecv := remove1 p (crecv x)\<rparr>) st"
    have "p \<notin> set (csend (chans st x))" for x using inv(2) a(1) by (auto simp: waits_ok_def)
    moreover have "p \<in> set (crecv (chans st x)) \<Longrightarrow> x = c" for x
      using assms(2) a(2) by (auto simp: saved_chan_def)
    moreover have "distinct (crecv (chans st c))" using inv(2) by (simp add: waits_ok_def)
    ultimately show ?thesis by (auto simp: unqueued_def a(3))
  qed
  ultimately show "gone p st1" by (simp add: gone_def)
qed

lemma delrunq_ok:
  assumes "vm_ok Map.empty st" and "pst (progs st p) = Pready"
  shows "vm_ok Map.empty (delrunq p st)" "gone p (delrunq p st)"
proof -
  have inv: "reg_ok Map.empty st" "waits_ok st" "run_ok st" "meet_ok Map.empty st"
    using assms(1) by (simp_all add: vm_ok_def)
  have "regalt Map.empty st p = None" by (simp add: regalt_def assms(2))
  then have u: "unregistered p st"
    using inv(1) unfolding unregistered_def reg_ok_def by (metis option.distinct(1))
  have q: "unqueued p st" using inv(2) assms(2) by (auto simp: waits_ok_def unqueued_def)
  have d: "distinct (runq st)" using inv(3) by (simp add: run_ok_def)
  show "gone p (delrunq p st)"
    using u q d by (simp add: gone_def unregistered_def unqueued_def delrunq_def)
  show "vm_ok Map.empty (delrunq p st)"
    by (rule free_ok [OF assms(1) u q]) (use d in \<open>auto simp: delrunq_def dest: notin_set_remove1\<close>)
qed

lemma idle_gone:
  assumes "vm_ok Map.empty st" and "pst (progs st p) \<notin> {Palt, Psend, Precv, Pready, Pexiting}"
  shows "gone p st"
proof -
  have inv: "reg_ok Map.empty st" "waits_ok st" "run_ok st" using assms(1) by (simp_all add: vm_ok_def)
  have "regalt Map.empty st p = None" using assms(2) by (simp add: regalt_def)
  then have "unregistered p st"
    using inv(1) unfolding unregistered_def reg_ok_def by (metis option.distinct(1))
  then show ?thesis using inv(2,3) assms(2) by (auto simp: gone_def waits_ok_def run_ok_def unqueued_def)
qed

lemma alt_gone:
  assumes "vm_ok Map.empty st" and "pst (progs st p) = Palt"
  shows "vm_ok Map.empty (altdone (palt (progs st p)) p None (- 1) st)"
    "gone p (altdone (palt (progs st p)) p None (- 1) st)"
proof -
  define st1 where "st1 = altdone (palt (progs st p)) p None (- 1) st"
  have inv: "reg_ok Map.empty st" "waits_ok st" "run_ok st" using assms(1) by (simp_all add: vm_ok_def)
  have f: "framed st st1" unfolding st1_def by (rule altdone_spec(1))
  have ro: "regalt Map.empty st p = Some (palt (progs st p))" by (simp add: regalt_def assms(2))
  have "csendalt (chans st c) = Some p \<Longrightarrow> c \<in> send_chs (palt (progs st p))"
    "crecvalt (chans st c) = Some p \<Longrightarrow> c \<in> recv_chs (palt (progs st p))" for c
    using inv(1) ro unfolding reg_ok_def by (metis option.inject)+
  then have "unregistered p st1"
    unfolding unregistered_def st1_def altdone_spec(2) by (auto simp: drop_recv_def drop_send_def)
  then show "gone p (altdone (palt (progs st p)) p None (- 1) st)"
    using f inv(2,3) assms(2) unfolding st1_def [symmetric]
    by (auto simp: gone_def framed_def unqueued_def waits_ok_def run_ok_def)
  show "vm_ok Map.empty (altdone (palt (progs st p)) p None (- 1) st)" by (rule altdone_ok [OF assms(1)])
qed

text \<open>A program that is gone may be freed, broken or left to its C procedure.\<close>

lemma gone_ok:
  assumes "vm_ok Map.empty st" and "gone p st"
    and "chans st' = chans st" and "\<And>x. x \<noteq> p \<Longrightarrow> progs st' x = progs st x" and "runq st' = runq st"
  shows "vm_ok Map.empty st'" "gone p st'"
proof -
  have "distinct (runq st)" using assms(1) by (simp add: vm_ok_def run_ok_def)
  then show "vm_ok Map.empty st'"
    using assms(2) by (intro free_ok [OF assms(1) _ _ assms(3,4)]) (auto simp: gone_def assms(5))
  show "gone p st'" using assms(2) by (simp add: gone_def unregistered_def unqueued_def assms(3,5))
qed

lemma kill_ok:
  assumes "vm_ok Map.empty st" and "saved_chan p st" and "killprog p st = Inr (st', b)"
  shows "vm_ok Map.empty st'" "b \<longrightarrow> gone p st'"
proof -
  have fin: "vm_ok Map.empty st' \<and> (b \<longrightarrow> gone p st')"
    if "vm_ok Map.empty st1" "gone p st1" "kill_finish p st1 = Inr (st', b)" for st1
  proof -
    have "chans st' = chans st1" "\<And>x. x \<noteq> p \<Longrightarrow> progs st' x = progs st1 x" "runq st' = runq st1"
      using that(3) by (auto simp: kill_finish_def split: if_splits)
    from gone_ok [OF that(1,2) this] show ?thesis by simp
  qed
  show "vm_ok Map.empty st'" "b \<longrightarrow> gone p st'"
  proof (atomize (full), cases "runq st \<noteq> [] \<and> p = hd (runq st)")
    case True
    then have pin: "p \<in> set (runq st)" by simp
    have st': "st' = upd_prog p (\<lambda>x. x\<lparr>pkill := True, pst := Pexiting\<rparr>) st" "\<not> b"
      using assms(3) True by (simp_all add: killprog_def Let_def)
    have d: "distinct (runq st)" using assms(1) by (simp add: vm_ok_def run_ok_def)
    have "vm_ok Map.empty st'"
      by (rule free_ok [OF assms(1) running_free [OF assms(1) pin]])
         (use d in \<open>auto simp: st'(1)\<close>)
    then show "vm_ok Map.empty st' \<and> (b \<longrightarrow> gone p st')" using st'(2) by simp
  next
    case False
    note k = assms(3) [unfolded killprog_def Let_def if_not_P [OF False]]
    show "vm_ok Map.empty st' \<and> (b \<longrightarrow> gone p st')"
    proof (cases "pst (progs st p)")
      case Palt
      then show ?thesis using fin [OF alt_gone [OF assms(1) Palt]] k by simp
    next
      case Psend
      then obtain c where c: "mem st (pdst (progs st p)) = Ch (Some c)"
        "kill_finish p (upd_chan c (\<lambda>x. x\<lparr>csend := remove1 p (csend x)\<rparr>) st) = Inr (st', b)"
        using k by (auto split: cell.splits option.splits)
      show ?thesis
        by (rule fin [OF dequeue_ok [OF assms(1,2)] c(2)]) (use Psend c(1) in auto)
    next
      case Precv
      then obtain c where c: "mem st (psrc (progs st p)) = Ch (Some c)"
        "kill_finish p (upd_chan c (\<lambda>x. x\<lparr>crecv := remove1 p (crecv x)\<rparr>) st) = Inr (st', b)"
        using k by (auto split: cell.splits option.splits)
      show ?thesis
        by (rule fin [OF dequeue_ok [OF assms(1,2)] c(2)]) (use Precv c(1) in auto)
    next
      case Pready
      then show ?thesis using fin [OF delrunq_ok [OF assms(1) Pready]] k by simp
    next
      case Prelease
      have g: "gone p st" by (rule idle_gone [OF assms(1)]) (simp add: Prelease)
      have "vm_ok Map.empty st'"
        by (rule gone_ok(1) [OF assms(1) g]) (use k Prelease in auto)
      then show ?thesis using k Prelease by auto
    next
      case Pexiting
      then show ?thesis using k assms(1) by simp
    next
      case Pbroken
      have g: "gone p st" by (rule idle_gone [OF assms(1)]) (simp add: Pbroken)
      show ?thesis using fin [OF assms(1) g] k Pbroken by simp
    next
      case Pdebug
      have g: "gone p st" by (rule idle_gone [OF assms(1)]) (simp add: Pdebug)
      show ?thesis using fin [OF assms(1) g] k Pdebug by simp
    next
      case Pfreed
      then show ?thesis using k by simp
    qed
  qed
qed

section \<open>Reachable states\<close>

text \<open>
  The running program executes an instruction, exits, breaks or releases the virtual machine; the
  machine rotates the run queue; a program is created, comes back from a system call or is killed.
  Which programs may be killed is a parameter: \<open>any_kill\<close> is the code, which checks nothing, \<open>saved_chan\<close> leaves out
  the programs whose operand has been assigned another channel since they blocked.
\<close>

definition any_kill :: "nat \<Rightarrow> vm \<Rightarrow> bool" where "any_kill p st = True"

inductive vstep :: "(nat \<Rightarrow> vm \<Rightarrow> bool) \<Rightarrow> vm \<Rightarrow> vm \<Rightarrow> bool" for K where
  Send: "runq st \<noteq> [] \<Longrightarrow> isend s d st = Inr (st', b) \<Longrightarrow> vstep K st st'"
| Recv: "runq st \<noteq> [] \<Longrightarrow> irecv s d st = Inr (st', b) \<Longrightarrow> vstep K st st'"
| Alt: "runq st \<noteq> [] \<Longrightarrow> xecalt block a d st = Inr (st', b) \<Longrightarrow> vstep K st st'"
| Write: "vstep K st (store a v st)"
| Rotate: "vstep K st (rotate_run st)"
| New: "pst (progs st p) = Pfreed \<Longrightarrow> vstep K st (newprog p st)"
| Exit: "runq st \<noteq> [] \<Longrightarrow> vstep K st (delprog (hd (runq st)) st)"
| Leave: "runq st \<noteq> [] \<Longrightarrow> s \<in> {Pbroken, Prelease} \<Longrightarrow> vstep K st (snd (delrun s st))"
| Acquire: "pst (progs st p) = Prelease \<Longrightarrow> vstep K st (pushrun p st)"
| Kill: "K p st \<Longrightarrow> killprog p st = Inr (st', b) \<Longrightarrow> vstep K st st'"

lemma runq_ok:
  assumes "vm_ok ex st" and "set q = set (runq st)" and "distinct q"
  shows "vm_ok ex (st\<lparr>runq := q\<rparr>)"
proof -
  have r: "regalt ex (st\<lparr>runq := q\<rparr>) x = regalt ex st x" for x by (rule regalt_eq) simp_all
  show ?thesis using assms unfolding vm_defs r by simp
qed

lemma rotate_ok: "vm_ok ex st \<Longrightarrow> vm_ok ex (rotate_run st)"
proof (cases "runq st" rule: remdups_adj.cases)
  case (3 p q rest)
  assume ok: "vm_ok ex st"
  then have "distinct (runq st)" by (simp add: vm_ok_def run_ok_def)
  then show ?thesis using runq_ok [OF ok, of "q # rest @ [p]"] 3 by (auto simp: rotate_run_def)
qed (simp_all add: rotate_run_def)

lemma send_on_ok: "vm_ok Map.empty st \<Longrightarrow> runq st \<noteq> [] \<Longrightarrow> vm_ok Map.empty (fst (send_on c s d st))"
  using send_block_ok send_ready_ok [of Map.empty] by (cases "recv_ready (chans st c)") auto

lemma recv_on_ok: "vm_ok Map.empty st \<Longrightarrow> runq st \<noteq> [] \<Longrightarrow> vm_ok Map.empty (fst (recv_on c d s st))"
  using recv_block_ok recv_ready_ok [of Map.empty] by (cases "send_ready (chans st c)") auto

lemma isend_Inr: "isend s d st = Inr r \<Longrightarrow> \<exists>c. send_on c s d st = r"
  and irecv_Inr: "irecv s d st = Inr r \<Longrightarrow> \<exists>c. recv_on c d s st = r"
  by (auto simp: isend_def irecv_def split: cell.splits option.splits)

lemma vstep_ok: "vstep saved_chan st st' \<Longrightarrow> vm_ok Map.empty st \<Longrightarrow> vm_ok Map.empty st'"
proof (induction rule: vstep.induct)
  case (Send st s d st' b)
  obtain c where "send_on c s d st = (st', b)" using isend_Inr [OF Send(2)] by blast
  then show ?case using send_on_ok [OF Send(3,1), of c s d] by simp
next
  case (Recv st s d st' b)
  obtain c where "recv_on c d s st = (st', b)" using irecv_Inr [OF Recv(2)] by blast
  then show ?case using recv_on_ok [OF Recv(3,1), of c d s] by simp
next
  case (Alt st block a d st' b)
  then show ?case using xecalt_ok by blast
next
  case (Write st a v)
  then show ?case by (rule store_ok)
next
  case (Rotate st)
  then show ?case by (rule rotate_ok)
next
  case (New st p)
  define st1 where "st1 = upd_prog p (\<lambda>x. x\<lparr>pkill := False, paddrun := False, pdebug := False\<rparr>) st"
  have g: "gone p st" by (rule idle_gone [OF New(2)]) (simp add: New(1))
  have "vm_ok Map.empty st1" "gone p st1"
    by (rule gone_ok [OF New(2) g]; simp add: st1_def)+
  then show ?case
    unfolding newprog_def st1_def [symmetric] by (intro addrun_ok) (simp_all add: gone_def)
next
  case (Exit st)
  have "delprog (hd (runq st)) st = snd (delrun Pfreed st)"
    using Exit(1) by (simp add: delprog_def delrun_def Let_def upd_prog_def)
  then show ?case using delrun_ok(2) [OF Exit(2,1) _ prod.collapse [symmetric], of Pfreed] by simp
next
  case (Leave st s)
  then show ?case using delrun_ok(2) [OF Leave(3,1) _ prod.collapse [symmetric], of s] by simp
next
  case (Acquire st p)
  have g: "gone p st" by (rule idle_gone [OF Acquire(2)]) (simp add: Acquire(1))
  have d: "distinct (runq st)" using Acquire(2) by (simp add: vm_ok_def run_ok_def)
  show ?case
    by (rule free_ok [OF Acquire(2), of p]) (use g d in \<open>auto simp: gone_def pushrun_def\<close>)
next
  case (Kill p st st' b)
  then show ?case using kill_ok(1) by blast
qed

definition boot :: vm where
  "boot = \<lparr>progs = (\<lambda>_. \<lparr>pst = Pfreed, pptr = 0, palt = \<lparr>asend = [], arecv = []\<rparr>, psrc = 0, pdst = 0,
                        pkill = False, paddrun = False, pdebug = False\<rparr>),
           chans = (\<lambda>_. \<lparr>csend = [], csendalt = None, crecv = [], crecvalt = None\<rparr>),
           mem = (\<lambda>_. W 0), runq = [], woken = [], xrand = - 1\<rparr>"

definition reachable :: "(nat \<Rightarrow> vm \<Rightarrow> bool) \<Rightarrow> vm \<Rightarrow> bool" where "reachable K st \<longleftrightarrow> (vstep K)\<^sup>*\<^sup>* boot st"

lemma boot_ok: "vm_ok Map.empty boot"
proof -
  have b: "csendalt (chans boot c) = None" "crecvalt (chans boot c) = None" "csend (chans boot c) = []"
    "crecv (chans boot c) = []" "runq boot = []" for c
    by (simp_all add: boot_def)
  show ?thesis by (simp add: vm_ok_def reg_ok_def waits_ok_def run_ok_def meet_ok_def waiting_send_def b)
qed

interpretation vmrun: machine "\<lambda>st. st = boot" "vstep saved_chan" "vm_ok Map.empty"
  by unfold_locales (simp add: boot_ok, rule vstep_ok)

lemma reachable_ok: "reachable saved_chan st \<Longrightarrow> vm_ok Map.empty st"
  unfolding reachable_def by (rule vmrun.run_inv [OF refl])

section \<open>Properties\<close>


lemma boot_steps:
  "reachable K boot" "reachable K st \<Longrightarrow> vstep K st st' \<Longrightarrow> reachable K st'"
  unfolding reachable_def by (blast intro: rtranclp.rtrancl_into_rtrancl)+

definition one_blocked :: vm where   \<comment> \<open>program 7 blocked sending the word 5 on channel 3\<close>
  "one_blocked = fst (send_on 3 20 10 (newprog 7 (store 20 (W 5) (store 10 (Ch (Some 3)) boot))))"

lemma one_blocked_reachable: "reachable K one_blocked" "csend (chans one_blocked 3) = [7]"
proof -
  let ?st = "newprog 7 (store 20 (W 5) (store 10 (Ch (Some 3)) boot))"
  have "reachable K (store 20 (W 5) (store 10 (Ch (Some 3)) boot))"
    by (rule boot_steps(2) [OF boot_steps(2) [OF boot_steps(1) Write] Write])
  moreover have "vstep K (store 20 (W 5) (store 10 (Ch (Some 3)) boot)) ?st"
    by (rule New) (simp add: boot_def)
  ultimately have "reachable K ?st" by (rule boot_steps(2))
  moreover have "vstep K ?st one_blocked"
    by (rule Send [of _ 20 10 _ "snd (send_on 3 20 10 ?st)"])
       (simp_all add: isend_def one_blocked_def newprog_def addrun_def boot_def)
  ultimately show "reachable K one_blocked" by (rule boot_steps(2))
  show "csend (chans one_blocked 3) = [7]"
    by (simp add: one_blocked_def send_on_def delrun_def newprog_def addrun_def boot_def)
qed


text \<open>Queued senders are served in the order they came.\<close>

fun recv_each :: "nat \<Rightarrow> nat \<Rightarrow> nat list \<Rightarrow> vm \<Rightarrow> vm" where
  "recv_each c s [] st = st"
| "recv_each c s (d # ds) st = recv_each c s ds (fst (recv_on c d s st))"

lemma recv_on_queued:
  assumes "csend (chans st c) = q # qs" and "csendalt (chans st c) = None" and "\<not> paddrun (progs st q)"
  shows "recv_on c d s st =
    (store d (mem st (pptr (progs st q)))
       (upd_prog q (\<lambda>x. x\<lparr>pst := Pready\<rparr>) (upd_chan c (\<lambda>x. x\<lparr>csend := qs\<rparr>) st))\<lparr>runq := runq st @ [q]\<rparr>, False)"
  using assms by (simp add: recv_on_def addrun_def store_def upd_prog_def upd_chan_def)

text \<open>\<open>irecv\<close> serves the senders queued on a channel first come, first served: as many receives as
  there are queued senders empty the queue, deliver the word of the \<open>i\<close>th sender to the \<open>i\<close>th
  receive and make the senders ready at the tail of the run queue in the order they came.\<close>

theorem senders_served_in_order:
  assumes "csend (chans st c) = qs" and "csendalt (chans st c) = None"
    and "\<forall>q \<in> set qs. \<not> paddrun (progs st q)" and "length ds = length qs" and "distinct ds"
    and "set ds \<inter> (\<lambda>q. pptr (progs st q)) ` set qs = {}"
  shows "csend (chans (recv_each c s ds st) c) = [] \<and>
    runq (recv_each c s ds st) = runq st @ qs \<and>
    (\<forall>i < length qs. mem (recv_each c s ds st) (ds ! i) = mem st (pptr (progs st (qs ! i))))"
  using assms
proof -
  have main: "csend (chans (recv_each c s ds st) c) = [] \<and> runq (recv_each c s ds st) = runq st @ qs \<and>
     (\<forall>i < length qs. mem (recv_each c s ds st) (ds ! i) = mem st (pptr (progs st (qs ! i)))) \<and>
     (\<forall>a. a \<notin> set ds \<longrightarrow> mem (recv_each c s ds st) a = mem st a)"
    using assms
  proof (induction ds arbitrary: qs st)
    case Nil
    then show ?case by simp
  next
    case (Cons d ds)
    then obtain q qs' where qs: "qs = q # qs'" by (cases qs) auto
    define st1 where "st1 = fst (recv_on c d s st)"
    have r: "st1 = (store d (mem st (pptr (progs st q)))
       (upd_prog q (\<lambda>x. x\<lparr>pst := Pready\<rparr>) (upd_chan c (\<lambda>x. x\<lparr>csend := qs'\<rparr>) st)))\<lparr>runq := runq st @ [q]\<rparr>"
      using recv_on_queued [of st c q qs'] Cons.prems(1-3) qs by (simp add: st1_def)
    have p: "pptr (progs st1 x) = pptr (progs st x)" "paddrun (progs st1 x) = paddrun (progs st x)" for x
      by (simp_all add: r)
    have ih: "csend (chans (recv_each c s ds st1) c) = [] \<and> runq (recv_each c s ds st1) = runq st1 @ qs' \<and>
       (\<forall>i < length qs'. mem (recv_each c s ds st1) (ds ! i) = mem st1 (pptr (progs st1 (qs' ! i)))) \<and>
       (\<forall>a. a \<notin> set ds \<longrightarrow> mem (recv_each c s ds st1) a = mem st1 a)"
      by (rule Cons.IH) (use Cons.prems qs in \<open>auto simp: p\<close>, auto simp: r)
    have m: "mem st1 = (mem st)(d := mem st (pptr (progs st q)))" "runq st1 = runq st @ [q]"
      by (simp_all add: r)
    have nd: "i < length qs' \<Longrightarrow> pptr (progs st (qs' ! i)) \<noteq> d" for i
      using Cons.prems(6) qs by auto
    have "mem (recv_each c s ds st1) ((d # ds) ! i) = mem st (pptr (progs st (qs ! i)))" if "i < length qs" for i
    proof (cases i)
      case 0
      then show ?thesis using ih Cons.prems(5) by (simp add: qs m)
    next
      case (Suc j)
      then show ?thesis using ih that nd [of j] by (simp add: qs m p)
    qed
    moreover have "a \<notin> set (d # ds) \<Longrightarrow> mem (recv_each c s ds st1) a = mem st a" for a
      using ih by (simp add: m)
    ultimately show ?case using ih by (simp add: st1_def [symmetric] qs m)
  qed
  then show ?thesis by blast
qed

theorem senders_served_in_order_witness:
  "runq (recv_each 3 11 [40] one_blocked) = [7] \<and> mem (recv_each 3 11 [40] one_blocked) 40 = W 5"
  using senders_served_in_order [of one_blocked 3 "[7]" "[40]" 11]
  by (simp add: one_blocked_def send_on_def delrun_def newprog_def addrun_def boot_def)

section \<open>The ready count of an \<open>alt\<close>\<close>

text \<open>\<open>altrdy\<close> and \<open>altcomm\<close> count the ready entries alike, so an index below the count finds one.\<close>

definition many_ready :: "nat option list \<Rightarrow> (nat \<Rightarrow> chan) \<Rightarrow> nat" where
  "many_ready ca ch = length (filter (\<lambda>x. case x of Some c \<Rightarrow> send_ready (ch c) | None \<Rightarrow> False) ca)"

fun aref_ready :: "(nat \<Rightarrow> chan) \<Rightarrow> aref \<Rightarrow> nat" where
  "aref_ready ch (One c) = of_bool (send_ready (ch c))"
| "aref_ready ch (Many ca) = many_ready ca ch"

definition recvs_ready :: "(aref \<times> nat) list \<Rightarrow> (nat \<Rightarrow> chan) \<Rightarrow> nat" where
  "recvs_ready ac ch = sum_list (map (\<lambda>x. aref_ready ch (fst x)) ac)"

definition sends_ready :: "(nat \<times> nat) list \<Rightarrow> (nat \<Rightarrow> chan) \<Rightarrow> nat" where
  "sends_ready ac ch = length (filter (\<lambda>x. recv_ready (ch (fst x))) ac)"

lemma ready_Cons [simp]:
  "many_ready [] ch = 0" "recvs_ready [] ch = 0" "sends_ready [] ch = 0"
  "many_ready (None # ca) ch = many_ready ca ch"
  "many_ready (Some c # ca) ch = of_bool (send_ready (ch c)) + many_ready ca ch"
  "recvs_ready (x # ac) ch = aref_ready ch (fst x) + recvs_ready ac ch"
  "sends_ready (y # bc) ch = of_bool (recv_ready (ch (fst y))) + sends_ready bc ch"
  by (simp_all add: many_ready_def recvs_ready_def sends_ready_def)

lemma many_ready_cong:
  "(\<And>c. Some c \<in> set ca \<Longrightarrow> send_ready (ch c) = send_ready (ch' c)) \<Longrightarrow> many_ready ca ch = many_ready ca ch'"
proof (induction ca)
  case (Cons x ca)
  then show ?case by (cases x) auto
qed simp

lemma recvs_ready_cong:
  "(\<And>c. c \<in> (\<Union>r \<in> fst ` set ac. aref_chs r) \<Longrightarrow> send_ready (ch c) = send_ready (ch' c)) \<Longrightarrow>
    recvs_ready ac ch = recvs_ready ac ch'"
proof (induction ac)
  case (Cons x ac)
  have "aref_ready ch (fst x) = aref_ready ch' (fst x)"
    using Cons.prems by (cases "fst x") (auto intro: many_ready_cong)
  then show ?case using Cons by auto
qed simp

lemma sends_ready_cong:
  "(\<And>c. c \<in> fst ` set ac \<Longrightarrow> recv_ready (ch c) = recv_ready (ch' c)) \<Longrightarrow> sends_ready ac ch = sends_ready ac ch'"
  by (induction ac) auto

lemma altmark_count: "altmark ca p st = (st', n) \<Longrightarrow> n = many_ready ca (chans st)"
proof (induction ca p st arbitrary: st' n rule: altmark.induct)
  case (3 c ca p st)
  let ?st = "upd_chan c (\<lambda>x. x\<lparr>crecvalt := Some p\<rparr>) st"
  obtain m where m: "altmark ca p ?st = (st', m)" "n = of_bool (send_ready (chans st c)) + m"
    using "3.prems" by (auto simp: Let_def split: prod.splits)
  have "many_ready ca (chans ?st) = many_ready ca (chans st)"
    by (rule many_ready_cong) (simp add: send_ready_def)
  then have "m = many_ready ca (chans st)" using "3.IH" [OF refl m(1)] by (rule trans [rotated])
  then show ?case using m(2) by simp
qed simp_all

lemma rdy_recv_count: "rdy_recv ac p st = (st', n) \<Longrightarrow> n = recvs_ready ac (chans st)"
proof (induction ac p st arbitrary: st' n rule: rdy_recv.induct)
  case (2 c ptr ac p st)
  let ?st = "upd_chan c (\<lambda>x. x\<lparr>crecvalt := Some p\<rparr>) st"
  obtain m where m: "rdy_recv ac p ?st = (st', m)" "n = of_bool (send_ready (chans st c)) + m"
    using "2.prems" by (auto simp: Let_def split: prod.splits)
  have "recvs_ready ac (chans ?st) = recvs_ready ac (chans st)"
    by (rule recvs_ready_cong) (simp add: send_ready_def)
  then have "m = recvs_ready ac (chans st)" using "2.IH" [OF refl m(1)] by (rule trans [rotated])
  then show ?case using m(2) by simp
next
  case (3 ca ptr ac p st)
  obtain st1 k m where m: "altmark ca p st = (st1, k)" "rdy_recv ac p st1 = (st', m)" "n = k + m"
    using "3.prems" by (auto split: prod.splits)
  have "recvs_ready ac (chans st1) = recvs_ready ac (chans st)"
    by (rule recvs_ready_cong) (simp add: altmark_spec [OF m(1)])
  then have "m = recvs_ready ac (chans st)" using "3.IH" [OF m(1) [symmetric] m(2)] by (rule trans [rotated])
  then show ?case using altmark_count [OF m(1)] m(3) by simp
qed simp_all

lemma rdy_send_count: "rdy_send ac p st = (st', Some n) \<Longrightarrow> n = sends_ready ac (chans st)"
proof (induction ac p st arbitrary: st' n rule: rdy_send.induct)
  case (2 c ptr ac p st)
  let ?st = "upd_chan c (\<lambda>x. x\<lparr>csendalt := Some p\<rparr>) st"
  have no: "crecvalt (chans st c) \<noteq> Some p" using "2.prems" by (auto split: if_splits)
  obtain m where m: "rdy_send ac p ?st = (st', Some m)" "n = of_bool (recv_ready (chans st c)) + m"
    using "2.prems" no by (auto simp: Let_def split: prod.splits)
  have "sends_ready ac (chans ?st) = sends_ready ac (chans st)"
    by (rule sends_ready_cong) (simp add: recv_ready_def)
  then have "m = sends_ready ac (chans st)" using "2.IH" [OF no refl m(1)] by (rule trans [rotated])
  then show ?case using m(2) by simp
qed simp_all

lemma comm_send_total:
  "(w < sends_ready ac (chans st) \<longrightarrow> fst (comm_send ac w n d st) \<noteq> None) \<and>
   (\<not> w < sends_ready ac (chans st) \<longrightarrow>
     comm_send ac w n d st = (None, w - sends_ready ac (chans st), n + length ac))"
proof (induction ac w n d st rule: comm_send.induct)
  case (2 c ptr ac w n d st)
  then show ?case by (cases w) auto
qed simp

lemma comm_many_total:
  "(w < many_ready ca (chans st) \<longrightarrow> fst (comm_many ca ptr w n an d st) \<noteq> None) \<and>
   (\<not> w < many_ready ca (chans st) \<longrightarrow> comm_many ca ptr w n an d st = (None, w - many_ready ca (chans st)))"
proof (induction ca ptr w n an d st rule: comm_many.induct)
  case (2 ch ca ptr w n an d st)
  then show ?case by (cases w; cases ch) auto
qed simp

lemma comm_recv_total:
  "w < recvs_ready ac (chans st) \<Longrightarrow> comm_recv ac w n d st \<noteq> None"
proof (induction ac w n d st rule: comm_recv.induct)
  case (2 c ptr ac w n d st)
  then show ?case by (cases w) (auto split: if_splits)
next
  case (3 ca ptr ac w n d st)
  obtain r k where m: "comm_many ca ptr w n 0 d st = (r, k)" by fastforce
  show ?case
  proof (cases "w < many_ready ca (chans st)")
    case True
    then show ?thesis using comm_many_total [of w ca st ptr n 0 d] m by auto
  next
    case False
    then have r: "r = None" "k = w - many_ready ca (chans st)"
      using comm_many_total [of w ca st ptr n 0 d] m by auto
    then have "k < recvs_ready ac (chans st)" using "3.prems" False by simp
    then show ?thesis using "3.IH" [OF m [symmetric]] r(1) m by simp
  qed
qed simp

lemma altrdy_count:
  assumes "altrdy a p st = (st', Some n)"
  shows "n = sends_ready (asend a) (chans st') + recvs_ready (arecv a) (chans st')"
proof -
  obtain st1 k where r: "rdy_recv (arecv a) p st = (st1, k)" by fastforce
  obtain m where s: "rdy_send (asend a) p st1 = (st', Some m)" "n = k + m"
    using assms r by (auto simp: altrdy_def split: option.splits prod.splits)
  have c: "chans st' = reg_send p (send_chs a) (reg_recv p (recv_chs a) (chans st))"
    by (rule altrdy_spec(2) [OF assms])
  have disj: "send_chs a \<inter> recv_chs a = {}" by (rule altrdy_spec(3) [OF assms])
  have "recvs_ready (arecv a) (chans st) = recvs_ready (arecv a) (chans st')"
  proof (rule recvs_ready_cong)
    fix x assume "x \<in> (\<Union>r \<in> fst ` set (arecv a). aref_chs r)"
    then have "x \<notin> send_chs a" using disj by (auto simp: recv_chs_def)
    then show "send_ready (chans st x) = send_ready (chans st' x)"
      by (simp add: c send_ready_def reg_send_def)
  qed
  moreover have "sends_ready (asend a) (chans st1) = sends_ready (asend a) (chans st')"
    using rdy_send_spec [OF s(1)] by (intro sends_ready_cong) simp
  ultimately show ?thesis using rdy_recv_count [OF r] rdy_send_count [OF s(1)] s(2) by simp
qed

lemma altcomm_total:
  assumes "w < sends_ready (asend a) (chans st) + recvs_ready (arecv a) (chans st)"
  shows "one_comm (send_entry (asend a)) (recv_entry (arecv a)) st (altcomm a w d st)"
proof -
  obtain r k n where s: "comm_send (asend a) w 0 d st = (r, k, n)" by (metis prod_cases3)
  show ?thesis
  proof (cases r)
    case (Some st')
    then show ?thesis using comm_send_spec s by (simp add: altcomm_def)
  next
    case None
    then have "\<not> w < sends_ready (asend a) (chans st)" "k = w - sends_ready (asend a) (chans st)"
      using comm_send_total [of w "asend a" st 0 d] s by auto
    then have "k < recvs_ready (arecv a) (chans st)" using assms by linarith
    then obtain st' where "comm_recv (arecv a) k n d st = Some st'" using comm_recv_total by fastforce
    then show ?thesis using comm_recv_spec [of "arecv a" k n d st st'] None by (simp add: altcomm_def s)
  qed
qed

lemma next_rand_nonneg: "0 \<le> sint (next_rand x)"
proof -
  have b: "0 \<le> sint (y :: u32) \<longleftrightarrow> \<not> bit y 31" for y
    using bit_last_iff [of y] by (auto simp: not_less)
  have "bit (0x88888EEF :: u32) 31" by simp
  then show ?thesis using b [of "x + x"] b [of "(x + x) XOR 0x88888EEF"]
    by (auto simp: next_rand_def Let_def bit_xor_iff not_le)
qed

lemma rdy_send_fails:
  "rdy_send ac p st = (st', None) \<Longrightarrow> \<exists>c \<in> fst ` set ac. crecvalt (chans st c) = Some p"
proof (induction ac p st arbitrary: st' rule: rdy_send.induct)
  case (2 c ptr ac p st)
  let ?st = "upd_chan c (\<lambda>x. x\<lparr>csendalt := Some p\<rparr>) st"
  show ?case
  proof (cases "crecvalt (chans st c) = Some p")
    case False
    then have "rdy_send ac p ?st = (st', None)"
      using "2.prems" by (auto simp: Let_def split: prod.splits)
    from "2.IH" [OF False refl this] obtain x where "x \<in> fst ` set ac" "crecvalt (chans ?st x) = Some p" by blast
    then have "x \<in> fst ` set ac" "crecvalt (chans st x) = Some p" by (auto split: if_splits)
    then show ?thesis by auto
  qed simp
qed simp

lemma altrdy_succeeds:
  assumes "unregistered p st" and "send_chs a \<inter> recv_chs a = {}"
  obtains st' n where "altrdy a p st = (st', Some n)"
proof -
  obtain st1 k where r: "rdy_recv (arecv a) p st = (st1, k)" by fastforce
  obtain st2 m where s: "rdy_send (asend a) p st1 = (st2, m)" by fastforce
  have c: "crecvalt (chans st1 x) = Some p \<Longrightarrow> x \<in> recv_chs a" for x
    using rdy_recv_spec [OF r] assms(1) by (auto simp: recv_chs_def reg_recv_def unregistered_def split: if_splits)
  have "m \<noteq> None"
  proof
    assume "m = None"
    then have "\<exists>x \<in> send_chs a. crecvalt (chans st1 x) = Some p"
      using s unfolding send_chs_def by (intro rdy_send_fails) simp
    then obtain x where "x \<in> send_chs a" "crecvalt (chans st1 x) = Some p" ..
    then show False using c assms(2) by blast
  qed
  then show ?thesis using that r s by (auto simp: altrdy_def)
qed

text \<open>What \<open>altdone\<close> leaves to the program whose \<open>alt\<close> it ends: the data pointer of an entry of the channel.\<close>

lemma altunmark_data:
  "altunmark ca ptr p sr sel dn n st = (st', sel') \<Longrightarrow> index_only (mem st') (mem st) \<and>
    (sr \<noteq> 1 \<or> sel = None \<longrightarrow> progs st' = progs st \<and> mem st' = mem st \<and> sel' = sel) \<and>
    (sel' = sel \<and> progs st' = progs st \<or> sel' = None \<and> (\<exists>c. sel = Some c \<and> aref_entry (Many ca) ptr c (pptr (progs st' p)))) \<and>
    (sr = 1 \<longrightarrow> (\<forall>c. sel = Some c \<longrightarrow> Some c \<in> set ca \<longrightarrow> sel' = None))"
proof (induction ca ptr p sr sel dn n st arbitrary: st' sel' rule: altunmark.induct)
  case (2 ch ca ptr p sr sel dn n st)
  let ?st1 = "case ch of Some c \<Rightarrow> if crecvalt (chans st c) = Some p
    then upd_chan c (\<lambda>x. x\<lparr>crecvalt := None\<rparr>) st else st | None \<Rightarrow> st"
  let ?hit = "sr = 1 \<and> sel \<noteq> None \<and> sel = ch"
  let ?st2 = "if ?hit then store ptr (W (int n)) (upd_prog p (\<lambda>x. x\<lparr>pptr := ptr + 1\<rparr>)
    (store (pdst (progs ?st1 p)) (W (int dn)) ?st1)) else ?st1"
  have s1: "mem ?st1 = mem st" "progs ?st1 = progs st" by (auto split: option.split)
  have run: "altunmark ca ptr p sr (if ?hit then None else sel) dn (n + 1) ?st2 = (st', sel')"
    using "2.prems" by (simp add: Let_def)
  note ih = "2.IH" [OF refl refl refl this]
  show ?case
  proof (cases ?hit)
    case True
    then have e: "mem st' = mem ?st2" "progs st' = progs ?st2" "sel' = None" using ih unfolding if_P [OF True] by blast+
    obtain c where c: "sel = Some c" "ch = Some c" using True by auto
    have m: "mem ?st2 = ((mem st)(pdst (progs st p) := W (int dn)))(ptr := W (int n))" "pptr (progs ?st2 p) = ptr + 1"
      unfolding if_P [OF True] by (simp_all add: s1)
    have "index_only (mem st') (mem st)" unfolding e m by simp
    moreover have "aref_entry (Many (ch # ca)) ptr c (pptr (progs st' p))" unfolding e m using c by simp
    ultimately show ?thesis using True e(3) c by auto
  next
    case False
    then have e: "?st2 = ?st1" by (rule if_not_P)
    show ?thesis using ih False unfolding if_not_P [OF False] e s1 by auto
  qed
qed simp

lemma done_send_data:
  "done_send ac p sr sel n st = (st', sel', n') \<Longrightarrow> index_only (mem st') (mem st) \<and>
    (sr \<noteq> 0 \<or> sel = None \<longrightarrow> progs st' = progs st \<and> mem st' = mem st \<and> sel' = sel) \<and>
    (sel' = sel \<and> progs st' = progs st \<or> sel' = None \<and> (\<exists>c. sel = Some c \<and> send_entry ac c (pptr (progs st' p)))) \<and>
    (sr = 0 \<longrightarrow> (\<forall>c. sel = Some c \<longrightarrow> c \<in> fst ` set ac \<longrightarrow> sel' = None))"
proof (induction ac p sr sel n st arbitrary: st' sel' n' rule: done_send.induct)
  case (2 c ptr ac p sr sel n st)
  let ?st1 = "if csendalt (chans st c) = Some p then upd_chan c (\<lambda>x. x\<lparr>csendalt := None\<rparr>) st else st"
  let ?hit = "sr = 0 \<and> sel = Some c"
  let ?st2 = "if ?hit then store (pdst (progs ?st1 p)) (W (int n)) (upd_prog p (\<lambda>x. x\<lparr>pptr := ptr\<rparr>) ?st1)
    else ?st1"
  have s1: "mem ?st1 = mem st" "progs ?st1 = progs st" by simp_all
  have run: "done_send ac p sr (if ?hit then None else sel) (n + 1) ?st2 = (st', sel', n')"
    using "2.prems" by (simp add: Let_def)
  note ih = "2.IH" [OF refl refl refl this]
  show ?case
  proof (cases ?hit)
    case True
    then have e: "mem st' = mem ?st2" "progs st' = progs ?st2" "sel' = None" using ih unfolding if_P [OF True] by blast+
    have m: "mem ?st2 = (mem st)(pdst (progs st p) := W (int n))" "pptr (progs ?st2 p) = ptr"
      unfolding if_P [OF True] by (simp_all add: s1)
    have "index_only (mem st') (mem st)" unfolding e m by simp
    moreover have "send_entry ((c, ptr) # ac) c (pptr (progs st' p))" unfolding e m by simp
    ultimately show ?thesis using True e(3) by blast
  next
    case False
    then have e: "?st2 = ?st1" by (rule if_not_P)
    show ?thesis using ih False unfolding if_not_P [OF False] e s1 by auto
  qed
qed simp

lemma done_recv_data:
  "index_only (mem (done_recv ac p sr sel n st)) (mem st) \<and>
    (sr \<noteq> 1 \<or> sel = None \<longrightarrow> progs (done_recv ac p sr sel n st) = progs st \<and> mem (done_recv ac p sr sel n st) = mem st) \<and>
    (sr = 1 \<longrightarrow> (\<forall>c. sel = Some c \<longrightarrow> c \<in> (\<Union>r \<in> fst ` set ac. aref_chs r) \<longrightarrow>
       recv_entry ac c (pptr (progs (done_recv ac p sr sel n st) p))))"
proof (induction ac p sr sel n st rule: done_recv.induct)
  case (2 c ptr ac p sr sel n st)
  let ?st1 = "if crecvalt (chans st c) = Some p then upd_chan c (\<lambda>x. x\<lparr>crecvalt := None\<rparr>) st else st"
  let ?hit = "sr = 1 \<and> sel = Some c"
  let ?st2 = "if ?hit then store (pdst (progs ?st1 p)) (W (int n)) (upd_prog p (\<lambda>x. x\<lparr>pptr := ptr\<rparr>) ?st1)
    else ?st1"
  have s1: "mem ?st1 = mem st" "progs ?st1 = progs st" by simp_all
  let ?r = "done_recv ac p sr (if ?hit then None else sel) (n + 1) ?st2"
  have run: "done_recv ((One c, ptr) # ac) p sr sel n st = ?r" by (simp add: Let_def)
  note ih = "2.IH" [OF refl refl refl]
  show ?case
  proof (cases ?hit)
    case True
    then have e: "mem ?r = mem ?st2" "progs ?r = progs ?st2" using ih unfolding if_P [OF True] by blast+
    have m: "mem ?st2 = (mem st)(pdst (progs st p) := W (int n))" "pptr (progs ?st2 p) = ptr"
      unfolding if_P [OF True] by (simp_all add: s1)
    have "index_only (mem ?r) (mem st)" unfolding e m by simp
    moreover have "recv_entry ((One c, ptr) # ac) c (pptr (progs ?r p))" unfolding e m by simp
    ultimately show ?thesis unfolding run using True by auto
  next
    case False
    then have e: "?st2 = ?st1" by (rule if_not_P)
    show ?thesis using ih False unfolding run if_not_P [OF False] e s1 by auto
  qed
next
  case (3 ca ptr ac p sr sel n st)
  obtain st1 sel1 where u: "altunmark ca ptr p sr sel n 0 st = (st1, sel1)" by fastforce
  note ih = "3.IH" [OF u [symmetric]] and d = altunmark_data [OF u]
  let ?r = "done_recv ac p sr sel1 (n + 1) st1"
  have run: "done_recv ((Many ca, ptr) # ac) p sr sel n st = ?r" by (simp add: u)
  have "index_only (mem ?r) (mem st)" using ih d index_only_trans by blast
  moreover have "sr \<noteq> 1 \<or> sel = None \<Longrightarrow> progs ?r = progs st \<and> mem ?r = mem st" using ih d by auto
  moreover have "recv_entry ((Many ca, ptr) # ac) c (pptr (progs ?r p))"
    if c: "sr = 1" "sel = Some c" "c \<in> (\<Union>r \<in> fst ` set ((Many ca, ptr) # ac). aref_chs r)" for c
  proof (cases "sel1 = None")
    case True
    then have "aref_entry (Many ca) ptr c (pptr (progs st1 p))" using d c(2) by auto
    then show ?thesis using ih True by auto
  next
    case False
    then have "sel1 = Some c" "Some c \<notin> set ca" using d c by auto
    then show ?thesis using ih c by auto
  qed
  ultimately show ?case unfolding run by blast
qed simp

lemma altdone_data:
  "index_only (mem (altdone a p sel sr st)) (mem st)"
  "sr = - 1 \<Longrightarrow> mem (altdone a p sel sr st) = mem st"
  "c \<in> send_chs a \<Longrightarrow> send_entry (asend a) c (pptr (progs (altdone a p (Some c) 0 st) p))"
  "c \<in> recv_chs a \<Longrightarrow> recv_entry (arecv a) c (pptr (progs (altdone a p (Some c) 1 st) p))"
proof -
  show "index_only (mem (altdone a p sel sr st)) (mem st)" "sr = - 1 \<Longrightarrow> mem (altdone a p sel sr st) = mem st"
  proof -
    obtain st1 sel1 n where d: "done_send (asend a) p sr sel 0 st = (st1, sel1, n)" by (metis prod_cases3)
    note ds = done_send_data [OF d] and dr = done_recv_data [of "arecv a" p sr sel1 n st1]
    have i: "index_only (mem (done_recv (arecv a) p sr sel1 n st1)) (mem st1)" "index_only (mem st1) (mem st)" using ds dr by blast+
    show "index_only (mem (altdone a p sel sr st)) (mem st)" using index_only_trans [OF i] by (simp add: altdone_def d)
    show "mem (altdone a p sel sr st) = mem st" if "sr = - 1"
    proof -
      have "mem st1 = mem st" "mem (done_recv (arecv a) p sr sel1 n st1) = mem st1" using ds dr that by simp_all
      then show ?thesis by (simp add: altdone_def d)
    qed
  qed
  show "send_entry (asend a) c (pptr (progs (altdone a p (Some c) 0 st) p))" if "c \<in> send_chs a"
  proof -
    obtain st1 sel1 n where d: "done_send (asend a) p 0 (Some c) 0 st = (st1, sel1, n)" by (metis prod_cases3)
    show ?thesis using done_send_data [OF d] done_recv_data [of "arecv a" p 0 sel1 n st1] that
      by (auto simp: altdone_def d send_chs_def)
  qed
  show "recv_entry (arecv a) c (pptr (progs (altdone a p (Some c) 1 st) p))" if "c \<in> recv_chs a"
  proof -
    obtain st1 sel1 n where d: "done_send (asend a) p 1 (Some c) 0 st = (st1, sel1, n)" by (metis prod_cases3)
    show ?thesis using done_send_data [OF d] done_recv_data [of "arecv a" p 1 sel1 n st1] that
      by (simp add: altdone_def d recv_chs_def)
  qed
qed

text \<open>The program a communication on \<open>c\<close> finds, and its data pointer: one in an \<open>alt\<close> comes before the queue.\<close>

definition receiver :: "vm \<Rightarrow> nat \<Rightarrow> nat \<Rightarrow> nat \<Rightarrow> bool" where
  "receiver st c q x \<longleftrightarrow> crecvalt (chans st c) = Some q \<and> recv_entry (arecv (palt (progs st q))) c x \<or>
     crecvalt (chans st c) = None \<and> (\<exists>qs. crecv (chans st c) = q # qs) \<and> x = pptr (progs st q)"

definition sender :: "vm \<Rightarrow> nat \<Rightarrow> nat \<Rightarrow> nat \<Rightarrow> bool" where
  "sender st c q x \<longleftrightarrow> csendalt (chans st c) = Some q \<and> send_entry (asend (palt (progs st q))) c x \<or>
     csendalt (chans st c) = None \<and> (\<exists>qs. csend (chans st c) = q # qs) \<and> x = pptr (progs st q)"

definition woke :: "nat \<Rightarrow> vm \<Rightarrow> vm \<Rightarrow> bool" where
  "woke q st st' \<longleftrightarrow> runq st' = runq st @ [q] \<and> woken st' = woken st \<or> runq st' = runq st \<and> woken st' = woken st @ [q]"

lemma addrun_woke: "runq st0 = runq st \<Longrightarrow> woken st0 = woken st \<Longrightarrow> woke q st (addrun q st0)"
  by (simp add: woke_def addrun_def)

lemma mem_addrun [simp]: "mem (addrun q st) = mem st" by (simp add: addrun_def)

lemma send_moves:
  assumes "recv_ready (chans st c)" and "\<And>q. crecvalt (chans st c) = Some q \<Longrightarrow> c \<in> recv_chs (palt (progs st q))"
  obtains q dst M where "woke q st (fst (send_on c src d st))" "receiver st c q dst" "index_only M (mem st)"
    "mem (fst (send_on c src d st)) = M(dst := M src)"
proof (cases "crecvalt (chans st c)")
  case None
  then obtain q qs where q: "crecv (chans st c) = q # qs" using assms(1) by (auto simp: recv_ready_def neq_Nil_conv)
  show ?thesis
    by (rule that [of q "pptr (progs st q)" "mem st"]) (use None q in \<open>simp_all add: send_on_def receiver_def addrun_woke\<close>)
next
  case (Some q)
  define st1 where "st1 = altdone (palt (progs st q)) q (Some c) 1 (upd_chan c (\<lambda>x. x\<lparr>crecvalt := None\<rparr>) st)"
  have e: "fst (send_on c src d st) = addrun q (store (pptr (progs st1 q)) (mem st1 src) st1)"
    using Some by (simp add: send_on_def st1_def)
  have f: "runq st1 = runq st" "woken st1 = woken st"
    using altdone_spec(1) [of "upd_chan c (\<lambda>x. x\<lparr>crecvalt := None\<rparr>) st"] by (simp_all add: st1_def framed_def)
  have i: "index_only (mem st1) (mem st)"
    using altdone_data(1) [of _ _ _ _ "upd_chan c (\<lambda>x. x\<lparr>crecvalt := None\<rparr>) st"] by (simp add: st1_def)
  have r: "recv_entry (arecv (palt (progs st q))) c (pptr (progs st1 q))"
    unfolding st1_def by (rule altdone_data(4) [OF assms(2) [OF Some]])
  show ?thesis
    by (rule that [of q "pptr (progs st1 q)" "mem st1"]) (use Some f i r in \<open>simp_all add: e receiver_def addrun_woke\<close>)
qed

lemma recv_moves:
  assumes "send_ready (chans st c)" and "\<And>q. csendalt (chans st c) = Some q \<Longrightarrow> c \<in> send_chs (palt (progs st q))"
  obtains q src M where "woke q st (fst (recv_on c dst s st))" "sender st c q src" "index_only M (mem st)"
    "mem (fst (recv_on c dst s st)) = M(dst := M src)"
proof (cases "csendalt (chans st c)")
  case None
  then obtain q qs where q: "csend (chans st c) = q # qs" using assms(1) by (auto simp: send_ready_def neq_Nil_conv)
  show ?thesis
    by (rule that [of q "pptr (progs st q)" "mem st"]) (use None q in \<open>simp_all add: recv_on_def sender_def addrun_woke\<close>)
next
  case (Some q)
  define st1 where "st1 = altdone (palt (progs st q)) q (Some c) 0 (upd_chan c (\<lambda>x. x\<lparr>csendalt := None\<rparr>) st)"
  have e: "fst (recv_on c dst s st) = addrun q (store dst (mem st1 (pptr (progs st1 q))) st1)"
    using Some by (simp add: recv_on_def st1_def)
  have f: "runq st1 = runq st" "woken st1 = woken st"
    using altdone_spec(1) [of "upd_chan c (\<lambda>x. x\<lparr>csendalt := None\<rparr>) st"] by (simp_all add: st1_def framed_def)
  have i: "index_only (mem st1) (mem st)"
    using altdone_data(1) [of _ _ _ _ "upd_chan c (\<lambda>x. x\<lparr>csendalt := None\<rparr>) st"] by (simp add: st1_def)
  have r: "send_entry (asend (palt (progs st q))) c (pptr (progs st1 q))"
    unfolding st1_def by (rule altdone_data(3) [OF assms(2) [OF Some]])
  show ?thesis
    by (rule that [of q "pptr (progs st1 q)" "mem st1"]) (use Some f i r in \<open>simp_all add: e sender_def addrun_woke\<close>)
qed

lemma partner_cong:
  assumes "progs st0 = progs st"
  shows "chans st0 c = chans st c \<or> crecvalt (chans st0 c) = crecvalt (chans st c) \<and> crecv (chans st0 c) = crecv (chans st c) \<Longrightarrow>
      receiver st0 c q x = receiver st c q x"
    "chans st0 c = chans st c \<or> csendalt (chans st0 c) = csendalt (chans st c) \<and> csend (chans st0 c) = csend (chans st c) \<Longrightarrow>
      sender st0 c q x = sender st c q x"
  using assms by (elim disjE; simp add: receiver_def sender_def)+

text \<open>
  One communication of an \<open>alt\<close> with the entries of \<open>a\<close>: the partner wakes, and the word goes from the data pointer of
  the one that sends to that of the one that receives, after the indices have been stored.
\<close>

definition communicates :: "alt \<Rightarrow> vm \<Rightarrow> vm \<Rightarrow> bool" where
  "communicates a st st' \<longleftrightarrow> (\<exists>q c src dst M. woke q st st' \<and> index_only M (mem st) \<and> mem st' = M(dst := M src) \<and>
     (send_entry (asend a) c src \<and> receiver st c q dst \<or> recv_entry (arecv a) c dst \<and> sender st c q src))"

lemma one_comm_moves:
  assumes "one_comm (send_entry (asend a)) (recv_entry (arecv a)) st st'"
    and "\<And>c q. c \<in> send_chs a \<Longrightarrow> crecvalt (chans st c) = Some q \<Longrightarrow> c \<in> recv_chs (palt (progs st q))"
    and "\<And>c q. c \<in> recv_chs a \<Longrightarrow> csendalt (chans st c) = Some q \<Longrightarrow> c \<in> send_chs (palt (progs st q))"
  shows "communicates a st st'"
proof -
  obtain c ptr d st0 where f: "framed st st0" "chans st0 = chans st" "progs st0 = progs st" "index_only (mem st0) (mem st)"
    and c: "send_entry (asend a) c ptr \<and> recv_ready (chans st c) \<and> st' = fst (send_on c ptr d st0) \<or>
      recv_entry (arecv a) c ptr \<and> send_ready (chans st c) \<and> st' = fst (recv_on c ptr d st0)"
    using assms(1) unfolding one_comm_def by blast
  have w: "woke q st x" if "woke q st0 x" for q x using that f(1) by (simp add: woke_def framed_def)
  from c show ?thesis
  proof (elim disjE conjE)
    assume s: "send_entry (asend a) c ptr" "recv_ready (chans st c)" "st' = fst (send_on c ptr d st0)"
    have r: "recv_ready (chans st0 c)" using s(2) f(2) by simp
    have p: "c \<in> recv_chs (palt (progs st0 q))" if "crecvalt (chans st0 c) = Some q" for q
      using assms(2) [OF send_entry_chs [OF s(1)]] that f(2,3) by simp
    obtain q dst M where m: "woke q st0 st'" "receiver st0 c q dst" "index_only M (mem st0)" "mem st' = M(dst := M ptr)"
      using send_moves [OF r p] s(3) by metis
    have "receiver st c q dst" using m(2) partner_cong(1) [OF f(3)] f(2) by simp
    then show ?thesis using w [OF m(1)] index_only_trans [OF m(3) f(4)] m(4) s(1) unfolding communicates_def by blast
  next
    assume s: "recv_entry (arecv a) c ptr" "send_ready (chans st c)" "st' = fst (recv_on c ptr d st0)"
    have r: "send_ready (chans st0 c)" using s(2) f(2) by simp
    have p: "c \<in> send_chs (palt (progs st0 q))" if "csendalt (chans st0 c) = Some q" for q
      using assms(3) [OF recv_entry_chs [OF s(1)]] that f(2,3) by simp
    obtain q src M where m: "woke q st0 st'" "sender st0 c q src" "index_only M (mem st0)" "mem st' = M(ptr := M src)"
      using recv_moves [OF r p] s(3) by metis
    have "sender st c q src" using m(2) partner_cong(2) [OF f(3)] f(2) by simp
    then show ?thesis using w [OF m(1)] index_only_trans [OF m(3) f(4)] m(4) s(1) unfolding communicates_def by blast
  qed
qed

section \<open>Properties of \<open>alt\<close>\<close>


definition alt_waiting :: vm where   \<comment> \<open>program 8 runs while 7 waits to send on channel 3\<close>
  "alt_waiting = newprog 8 one_blocked"

lemma alt_waiting_facts:
  "reachable K alt_waiting" "runq alt_waiting \<noteq> []" "send_ready (chans alt_waiting 3)"
proof -
  have "vstep K one_blocked alt_waiting"
    unfolding alt_waiting_def by (rule New) (simp add: one_blocked_def send_on_def delrun_def newprog_def addrun_def boot_def)
  then show "reachable K alt_waiting" using boot_steps(2) one_blocked_reachable(1) by blast
  show "runq alt_waiting \<noteq> []" by (simp add: alt_waiting_def newprog_def addrun_def)
  show "send_ready (chans alt_waiting 3)"
    using one_blocked_reachable(2) by (simp add: alt_waiting_def newprog_def addrun_def send_ready_def)
qed


lemma alt_blocks:
  assumes "reachable saved_chan st" and "runq st \<noteq> []" and "send_chs a \<inter> recv_chs a = {}"
    and "\<forall>c \<in> recv_chs a. \<not> send_ready (chans st c)" and "\<forall>c \<in> send_chs a. \<not> recv_ready (chans st c)"
  shows "\<exists>st'. xecalt True a d st = Inr (st', True) \<and> runq st' = tl (runq st) \<and>
    pst (progs st' (currun st)) = Palt \<and> palt (progs st' (currun st)) = a \<and>
    (\<forall>c \<in> recv_chs a. crecvalt (chans st' c) = Some (currun st)) \<and>
    (\<forall>c \<in> send_chs a. csendalt (chans st' c) = Some (currun st)) \<and>
    (\<forall>c. c \<notin> recv_chs a \<union> send_chs a \<longrightarrow> chans st' c = chans st c) \<and>
    (\<forall>c. csend (chans st' c) = csend (chans st c) \<and> crecv (chans st' c) = crecv (chans st c)) \<and>
    (\<forall>x. x \<noteq> currun st \<longrightarrow> progs st' x = progs st x)"
proof -
  define p where "p = hd (runq st)"
  have ok: "vm_ok Map.empty st" by (rule reachable_ok [OF assms(1)])
  have pin: "p \<in> set (runq st)" using assms(2) by (simp add: p_def)
  have u: "unregistered p st" using running_free(1) [OF ok pin] by simp
  obtain st1 n where r: "altrdy a p st = (st1, Some n)" by (rule altrdy_succeeds [OF u assms(3)])
  note s = altrdy_spec(2) [OF r] and e = same_restD [OF altrdy_spec(1) [OF r]]
  have "sends_ready (asend a) (chans st1) = sends_ready (asend a) (\<lambda>_. \<lparr>csend = [], csendalt = None, crecv = [], crecvalt = None\<rparr>)"
  proof (rule sends_ready_cong)
    fix c assume "c \<in> fst ` set (asend a)"
    then have "c \<in> send_chs a" "c \<notin> recv_chs a" using assms(3) by (auto simp: send_chs_def)
    then show "recv_ready (chans st1 c) = recv_ready \<lparr>csend = [], csendalt = None, crecv = [], crecvalt = None\<rparr>"
      using assms(5) by (simp add: s reg_recv_def) (simp add: recv_ready_def)
  qed
  moreover have "recvs_ready (arecv a) (chans st1) = recvs_ready (arecv a) (\<lambda>_. \<lparr>csend = [], csendalt = None, crecv = [], crecvalt = None\<rparr>)"
  proof (rule recvs_ready_cong)
    fix c assume "c \<in> (\<Union>r \<in> fst ` set (arecv a). aref_chs r)"
    then have "c \<in> recv_chs a" "c \<notin> send_chs a" using assms(3) by (auto simp: recv_chs_def)
    then show "send_ready (chans st1 c) = send_ready \<lparr>csend = [], csendalt = None, crecv = [], crecvalt = None\<rparr>"
      using assms(4) by (simp add: s reg_send_def reg_recv_def) (simp add: send_ready_def)
  qed
  moreover have "sends_ready ac (\<lambda>_. \<lparr>csend = [], csendalt = None, crecv = [], crecvalt = None\<rparr>) = 0" for ac
    by (induction ac) (simp_all add: recv_ready_def)
  moreover have "recvs_ready ac (\<lambda>_. \<lparr>csend = [], csendalt = None, crecv = [], crecvalt = None\<rparr>) = 0" for ac
  proof (induction ac)
    case (Cons x ac)
    have "many_ready ca (\<lambda>_. \<lparr>csend = [], csendalt = None, crecv = [], crecvalt = None\<rparr>) = 0" for ca
      by (simp add: many_ready_def send_ready_def split: option.splits)
    then show ?case using Cons by (cases "fst x") (simp_all add: send_ready_def)
  qed simp
  ultimately have n: "n = 0" using altrdy_count [OF r] by simp
  define st' where "st' = upd_prog p (\<lambda>x. x\<lparr>palt := a, pdst := d\<rparr>) (snd (delrun Palt st1))"
  have "xecalt True a d st = Inr (st', True)"
    using n r by (simp add: xecalt_def currun_def p_def Let_def st'_def delrun_def e)
  moreover have c: "chans st' = chans st1" "runq st' = tl (runq st)" "pst (progs st' p) = Palt" "palt (progs st' p) = a"
    by (simp_all add: st'_def delrun_def Let_def e p_def)
  moreover have "progs st' x = progs st x" if "x \<noteq> p" for x
    using that by (simp add: st'_def delrun_def Let_def e p_def)
  ultimately show ?thesis
    using assms(3) unfolding currun_def p_def [symmetric]
    by (intro exI [of _ st']) (auto simp: s reg_send_def reg_recv_def)
qed

text \<open>An \<open>alt\<close> that finds no partner blocks if it may: the program leaves the run queue in state
  \<open>Palt\<close> and is registered as the receiver or sender of every channel of its \<open>Alt\<close>, replacing
  whoever was registered there.\<close>

theorem alt_blocks_registered:
  assumes "reachable saved_chan st" and "runq st \<noteq> []" and "send_chs a \<inter> recv_chs a = {}"
    and "\<forall>c \<in> recv_chs a. \<not> send_ready (chans st c)" and "\<forall>c \<in> send_chs a. \<not> recv_ready (chans st c)"
  shows "\<exists>st'. xecalt True a d st = Inr (st', True) \<and> runq st' = tl (runq st) \<and>
    pst (progs st' (currun st)) = Palt \<and> palt (progs st' (currun st)) = a \<and>
    (\<forall>c \<in> recv_chs a. crecvalt (chans st' c) = Some (currun st)) \<and>
    (\<forall>c \<in> send_chs a. csendalt (chans st' c) = Some (currun st)) \<and>
    (\<forall>c. c \<notin> recv_chs a \<union> send_chs a \<longrightarrow> chans st' c = chans st c)"
  using alt_blocks [OF assms] by blast

theorem alt_blocks_registered_witness:
  "\<exists>st'. xecalt True \<lparr>asend = [], arecv = [(One 4, 40)]\<rparr> 50 alt_waiting = Inr (st', True)"
proof -
  have "\<not> send_ready (chans alt_waiting 4)"
    by (simp add: alt_waiting_def one_blocked_def send_on_def delrun_def newprog_def addrun_def boot_def send_ready_def)
  then show ?thesis
    using alt_blocks_registered [OF alt_waiting_facts(1,2), of "\<lparr>asend = [], arecv = [(One 4, 40)]\<rparr>" 50]
    by (auto simp: send_chs_def recv_chs_def)
qed

text \<open>A second program's \<open>alt\<close> on a channel takes the first one's registration: program \<open>p\<close> is
  blocked in an \<open>alt\<close> receiving on \<open>c\<close>, then the running program \<open>q\<close> blocks in an \<open>alt\<close> receiving
  on \<open>c\<close>. The next send on \<open>c\<close> wakes \<open>q\<close>; after it nobody is seen to receive on \<open>c\<close>, so
  every further sender blocks although \<open>p\<close> still waits in its \<open>alt\<close>.\<close>

theorem second_alt_strands_first:
  assumes "reachable saved_chan st" and "crecvalt (chans st c) = Some p" and "crecv (chans st c) = []"
    and "runq st \<noteq> []" and "b = \<lparr>asend = [], arecv = [(One c, y)]\<rparr>"
  shows "\<exists>st1 st2. xecalt True b d st = Inr (st1, True) \<and> send_on c s e st1 = (st2, False) \<and>
    pst (progs st2 p) = Palt \<and> c \<in> recv_chs (palt (progs st2 p)) \<and>
    \<not> recv_ready (chans st2 c) \<and> snd (send_on c s' e' st2)"
proof -
  define q where "q = currun st"
  have ok: "vm_ok Map.empty st" by (rule reachable_ok [OF assms(1)])
  have ro: "regalt Map.empty st x = Some a \<longleftrightarrow> pst (progs st x) = Palt \<and> a = palt (progs st x)" for x a
    by (auto simp: regalt_def)
  have p: "pst (progs st p) = Palt" "c \<in> recv_chs (palt (progs st p))"
    using ok assms(2) unfolding vm_ok_def reg_ok_def ro by blast+
  have pst_q: "pst (progs st q) \<in> {Pready, Pexiting}"
    using ok assms(4) unfolding vm_ok_def run_ok_def by (simp add: q_def currun_def)
  then have pq: "p \<noteq> q" using p(1) by auto
  have chs: "send_chs b = {}" "recv_chs b = {c}" by (simp_all add: assms(5) send_chs_def recv_chs_def)
  have "\<not> send_ready (chans st c)"
    using ok assms(2) unfolding vm_ok_def meet_ok_def waiting_send_def waiting_recv_def send_ready_def
    by fastforce
  then obtain st1 where st1: "xecalt True b d st = Inr (st1, True)" "pst (progs st1 q) = Palt" "palt (progs st1 q) = b"
    "crecvalt (chans st1 c) = Some q" "crecv (chans st1 c) = []" "\<And>x. x \<noteq> q \<Longrightarrow> progs st1 x = progs st x"
    using alt_blocks [OF assms(1,4), of b d] assms(3) unfolding q_def [symmetric] chs by auto
  define st0 where "st0 = altdone b q (Some c) 1 (upd_chan c (\<lambda>x. x\<lparr>crecvalt := None\<rparr>) st1)"
  define st2 where "st2 = addrun q (store (pptr (progs st0 q)) (mem st0 s) st0)"
  have f: "framed st1 st0"
    unfolding st0_def by (rule framed_trans [OF framed_simps(3) altdone_spec(1)])
  have "send_on c s e st1 = (st2, False)"
    by (simp add: send_on_def st1(3,4) st0_def [symmetric] st2_def)
  moreover have "progs st2 p = progs st0 p" "chans st2 = chans st0"
    using pq by (simp_all add: st2_def addrun_def)
  moreover have "pst (progs st0 p) = Palt" "palt (progs st0 p) = palt (progs st p)"
    using f p(1) st1(6) [OF pq] by (simp_all add: framed_def)
  moreover have "\<not> recv_ready (chans st0 c)"
    using f st1(5) by (simp add: recv_ready_def framed_def)
      (simp add: st0_def altdone_spec(2) drop_recv_def drop_send_def)
  moreover have "snd (send_on c s' e' st2)" if "\<not> recv_ready (chans st2 c)"
    using that by (simp add: send_on_def recv_ready_def Let_def split: prod.split)
  ultimately show ?thesis using st1(1) p(2) by (intro exI [of _ st1] exI [of _ st2]) simp
qed

definition two_alts :: vm where   \<comment> \<open>program 5 waits in an \<open>alt\<close> on channel 3, program 6 runs\<close>
  "two_alts = newprog 6 (case xecalt True \<lparr>asend = [], arecv = [(One 3, 40)]\<rparr> 50 (newprog 5 boot) of
     Inr (st, _) \<Rightarrow> st | Inl _ \<Rightarrow> boot)"

lemma two_alts_facts:
  "reachable K two_alts" "crecvalt (chans two_alts 3) = Some 5" "crecv (chans two_alts 3) = []" "runq two_alts \<noteq> []"
proof -
  define st where "st = newprog 5 boot"
  define a where "a = \<lparr>asend = [], arecv = [(One (3::nat), (40::nat))]\<rparr>"
  have r: "reachable K' st" for K' unfolding st_def
    by (rule boot_steps(2) [OF boot_steps(1) New]) (simp add: boot_def)
  have q: "runq st = [5]" "chans st = chans boot"
    by (simp_all add: st_def newprog_def addrun_def boot_def)
  have chs: "send_chs a = {}" "recv_chs a = {3}" by (simp_all add: a_def send_chs_def recv_chs_def)
  have nr: "\<not> send_ready (chans st 3)" by (simp add: q send_ready_def boot_def)
  obtain st1 where st1: "xecalt True a 50 st = Inr (st1, True)" "crecvalt (chans st1 3) = Some 5"
    "crecv (chans st1 3) = []" "\<And>x. x \<noteq> 5 \<Longrightarrow> progs st1 x = progs st x"
    using alt_blocks [OF r, of a 50] nr unfolding chs by (auto simp: q currun_def boot_def)
  have t: "two_alts = newprog 6 st1"
    by (simp add: two_alts_def st1(1) [unfolded a_def] st_def [symmetric])
  have "pst (progs st1 6) = Pfreed" by (simp add: st1(4) st_def newprog_def addrun_def boot_def)
  then show "reachable K two_alts"
    unfolding t using Alt [OF _ st1(1)] q(1) New boot_steps(2) [OF boot_steps(2) [OF r]] by force
  show "crecvalt (chans two_alts 3) = Some 5" "crecv (chans two_alts 3) = []" "runq two_alts \<noteq> []"
    using st1(2,3) by (simp_all add: t newprog_def addrun_def)
qed

theorem second_alt_strands_first_witness:
  "\<exists>st1 st2. xecalt True \<lparr>asend = [], arecv = [(One 3, 60)]\<rparr> 70 two_alts = Inr (st1, True) \<and>
    send_on 3 20 10 st1 = (st2, False) \<and> pst (progs st2 5) = Palt \<and> snd (send_on 3 21 11 st2)"
  using second_alt_strands_first [OF two_alts_facts refl, of 60 70 20 10 21 11] by blast

section \<open>Properties of \<open>killprog\<close>\<close>

text \<open>C17. Killing a blocked or ready program frees it only after every queue and registration has let go
  of it, provided the operand it blocked on still holds the channel (and so did those of the programs killed before);
  then no channel and not the run queue refers to the freed program. For an \<open>alt\<close> the arrays of channels are those it
  was called with.\<close>

theorem killed_program_unreferenced:
  assumes "reachable saved_chan st" and "saved_chan p st" and "killprog p st = Inr (st', True)"
  shows "pst (progs st' p) = Pfreed \<and> p \<notin> set (runq st') \<and>
    p \<notin> set (csend (chans st' c)) \<and> p \<notin> set (crecv (chans st' c)) \<and>
    csendalt (chans st' c) \<noteq> Some p \<and> crecvalt (chans st' c) \<noteq> Some p"
proof -
  have fin: "kill_finish p x = Inr (st', True) \<Longrightarrow> pst (progs st' p) = Pfreed" for x
    by (auto simp: kill_finish_def split: if_splits)
  have "gone p st'" using kill_ok(2) [OF reachable_ok [OF assms(1)] assms(2,3)] by simp
  moreover have "pst (progs st' p) = Pfreed"
    using assms(3) fin
    by (auto simp: killprog_def Let_def split: if_splits pstate.splits cell.splits option.splits)
  ultimately show ?thesis by (simp add: gone_def unregistered_def unqueued_def)
qed

theorem killed_program_unreferenced_witness:
  "\<exists>st'. killprog 7 one_blocked = Inr (st', True) \<and> 7 \<notin> set (csend (chans st' 3))"
proof -
  have e: "pst (progs one_blocked 7) = Psend" "pdst (progs one_blocked 7) = 10" "mem one_blocked 10 = Ch (Some 3)"
    "runq one_blocked = []" "\<not> paddrun (progs one_blocked 7)" "\<not> pdebug (progs one_blocked 7)"
    by (simp_all add: one_blocked_def send_on_def delrun_def newprog_def addrun_def boot_def)
  have s: "saved_chan 7 one_blocked"
    unfolding saved_chan_def
    by (simp add: one_blocked_def send_on_def delrun_def newprog_def addrun_def boot_def)
  show ?thesis
    using killed_program_unreferenced [OF one_blocked_reachable(1) s, of _ 3] e
    by (simp add: killprog_def kill_finish_def)
qed

text \<open>If the operand has been reassigned to another channel while the program was blocked in a send,
  \<open>killprog\<close> searches the wrong queue and frees a program that is still queued on the old channel:
  the next receive from it uses freed memory.\<close>

theorem kill_after_reassignment_dangles:
  assumes "pst (progs st p) = Psend" and "p \<in> set (csend (chans st c))"
    and "mem st (pdst (progs st p)) = Ch (Some e)" and "e \<noteq> c"
    and "p \<notin> set (runq st)" and "\<not> paddrun (progs st p)" and "\<not> pdebug (progs st p)"
  shows "\<exists>st'. killprog p st = Inr (st', True) \<and> pst (progs st' p) = Pfreed \<and> p \<in> set (csend (chans st' c))"
proof -
  have "\<not> (runq st \<noteq> [] \<and> p = hd (runq st))" using assms(5) by auto
  then show ?thesis using assms by (auto simp: killprog_def kill_finish_def)
qed

theorem kill_after_reassignment_dangles_witness:
  "\<exists>st'. killprog 7 (store 10 (Ch (Some 4)) one_blocked) = Inr (st', True) \<and>
    pst (progs st' 7) = Pfreed \<and> 7 \<in> set (csend (chans st' 3))"
  by (rule kill_after_reassignment_dangles [of _ _ _ 4])
     (simp_all add: one_blocked_def send_on_def delrun_def newprog_def addrun_def boot_def)

text \<open>So the restriction of the kills is needed: with all of them a freed program can be queued on a channel.\<close>

lemma any_kill_breaks: "\<exists>st. reachable any_kill st \<and> pst (progs st 7) = Pfreed \<and> 7 \<in> set (csend (chans st 3))"
proof -
  let ?st = "store 10 (Ch (Some 4)) one_blocked"
  obtain st' where k: "killprog 7 ?st = Inr (st', True)" "pst (progs st' 7) = Pfreed" "7 \<in> set (csend (chans st' 3))"
    using kill_after_reassignment_dangles_witness by blast
  have "reachable any_kill ?st" by (rule boot_steps(2) [OF one_blocked_reachable(1) Write])
  then have "reachable any_kill st'" by (rule boot_steps(2)) (rule Kill [OF _ k(1)], simp add: any_kill_def)
  then show ?thesis using k(2,3) by blast
qed

end
