(* ===== verification/DisHeap.thy ===== *)
theory DisHeap
  imports Prelude
begin

text \<open>
  The heap of the virtual machine: reference counts (\<^verbatim>\<open>interp/heap.c\<close>), the pointer instructions
  of \<^verbatim>\<open>interp/xec.c\<close> and the incremental mark and sweep collector (\<^verbatim>\<open>interp/gc.c\<close>).

  The arena is a list of blocks in address order, \<open>None\<close> a free one; where an allocation is placed
  is \<open>poolalloc\<close>'s choice and a parameter. Memory is an array of words that hold an integer or a
  pointer (\<open>Pt None\<close> is \<open>H\<close>). The reference counts of type descriptors are not modelled.
\<close>

section \<open>State\<close>

datatype word = Wd u32 | Pt "nat option"

type_synonym tmap = "u8 list"   \<comment> \<open>\<open>map\<close> of a \<open>Type\<close>, \<open>np\<close> bytes: which words are pointers\<close>

datatype kind = KMem | KArray | KList | KOther

record hobj =
  hcolor :: nat
  href :: nat
  hkind :: kind
  htyp :: tmap                 \<comment> \<open>of the block, of an array's elements, of a list node's data\<close>
  hels :: "word list list"     \<comment> \<open>one record, the elements of an array, or a node's data\<close>
  hlink :: "nat option"        \<comment> \<open>\<open>root\<close> of a slice, \<open>tail\<close> of a list node\<close>
  hoff :: nat                  \<comment> \<open>of a slice: where in the root's elements it starts, and its length\<close>
  hlen :: nat

record hst =
  arena :: "hobj option list"
  frames :: "(tmap \<times> word list) list"    \<comment> \<open>the frames of all programs\<close>
  mods :: "nat option list"              \<comment> \<open>the module data (\<open>mp\<close>) of programs and modules\<close>
  mutator :: nat
  marker :: nat
  sweeper :: nat
  gccolor :: nat
  nprop :: bool
  gchalt :: nat
  gcptr :: "nat option"                  \<comment> \<open>the block to visit next, \<open>None\<close> when \<open>base\<close> is \<open>nil\<close>\<close>

definition propagator :: nat where "propagator = 3"

definition get :: "hst \<Rightarrow> nat \<Rightarrow> hobj option" where
  "get st a = (if a < length (arena st) then arena st ! a else None)"

definition put :: "nat \<Rightarrow> hobj option \<Rightarrow> hst \<Rightarrow> hst" where
  "put a h st = st\<lparr>arena := (arena st)[a := h]\<rparr>"

definition upd :: "nat \<Rightarrow> (hobj \<Rightarrow> hobj) \<Rightarrow> hst \<Rightarrow> hst" where
  "upd a f st = put a (map_option f (get st a)) st"

section \<open>Type maps\<close>

text \<open>The pointer words of a record, most significant bit of a byte first (\<open>incmem\<close>, \<open>markheap\<close>), and in
  the order of \<open>freeptrs\<close>, least significant bit first.\<close>

fun slots_from :: "nat \<Rightarrow> tmap \<Rightarrow> nat list" where
  "slots_from w [] = []"
| "slots_from w (c # p) = filter (\<lambda>i. bit c (7 - (i - w))) [w..<w + 8] @ slots_from (w + 8) p"

fun free_slots_from :: "nat \<Rightarrow> tmap \<Rightarrow> nat list" where
  "free_slots_from w [] = []"
| "free_slots_from w (c # p) = filter (\<lambda>i. bit c (7 - (i - w))) (rev [w..<w + 8]) @ free_slots_from (w + 8) p"

fun ptr_of :: "word \<Rightarrow> nat option" where
  "ptr_of (Pt p) = p"
| "ptr_of (Wd _) = None"

definition ptrs :: "tmap \<Rightarrow> word list \<Rightarrow> nat option list" where
  "ptrs t ws = map (\<lambda>i. ptr_of (ws ! i)) (slots_from 0 t)"

definition free_ptrs :: "tmap \<Rightarrow> word list \<Rightarrow> nat option list" where
  "free_ptrs t ws = map (\<lambda>i. ptr_of (ws ! i)) (free_slots_from 0 t)"

definition initmem :: "tmap \<Rightarrow> word list \<Rightarrow> word list" where
  "initmem t ws = fold (\<lambda>i ws. ws[i := Pt None]) (slots_from 0 t) ws"

section \<open>Destroying references\<close>

text \<open>
  \<open>destroy\<close> recurses through \<open>freeptrs\<close>, \<open>freearray\<close> and \<open>freelist\<close>; the calls still to be
  made are kept as a stack of work: \<open>Dec p\<close> is a call \<open>destroy(p)\<close>, \<open>Tail p\<close> the loop of
  \<open>freelist\<close> at node \<open>p\<close> (the code frees the data of every node with the type of the first, the model with the
  type of the node, which is the same in a list), \<open>Done a\<close> the return from \<open>t->free(h)\<close> with the \<open>poolfree\<close> of \<open>h\<close>,
  \<open>Drop a\<close> the \<open>poolfree\<close> of a node in \<open>freelist\<close>. A reference count that would fall below zero
  and an access to a free block are \<open>Undef\<close>.
\<close>

datatype work = Dec "nat option" | Tail "nat option" | Done nat | Drop nat

fun children :: "hobj \<Rightarrow> work list" where
  "children h =
    (case hkind h of
       KMem \<Rightarrow> map Dec (concat (map (free_ptrs (htyp h)) (hels h)))
     | KArray \<Rightarrow> (if hlink h \<noteq> None then [Dec (hlink h)]
                 else map Dec (concat (map (free_ptrs (htyp h)) (hels h))))
     | KList \<Rightarrow> map Dec (concat (map (free_ptrs (htyp h)) (hels h))) @ [Tail (hlink h)]
     | KOther \<Rightarrow> [])"

definition total_refs :: "hst \<Rightarrow> nat" where
  "total_refs st = sum_list (map (\<lambda>b. case b of None \<Rightarrow> 0 | Some h \<Rightarrow> href h) (arena st))"

lemma sum_list_map_update:
  "a < length xs \<Longrightarrow> sum_list (map f (xs[a := y])) + f (xs ! a) = sum_list (map f xs) + (f y :: nat)"
proof (induction xs arbitrary: a)
  case (Cons x xs)
  then show ?case by (cases a) auto
qed simp

lemma total_refs_dec [termination_simp]:
  assumes "get st a = Some h" and "n < href h"
  shows "total_refs (put a (Some (h\<lparr>href := n\<rparr>)) st) < total_refs st"
proof -
  have a: "a < length (arena st)" "arena st ! a = Some h"
    using assms(1) by (auto simp: get_def split: if_splits)
  show ?thesis
    using sum_list_map_update [OF a(1), of "\<lambda>b. case b of None \<Rightarrow> 0 | Some h \<Rightarrow> href h" "Some (h\<lparr>href := n\<rparr>)"]
      assms(2) a(2) by (simp add: total_refs_def put_def)
qed

lemma total_refs_free [termination_simp]: "total_refs (put a None st) \<le> total_refs st"
proof (cases "a < length (arena st)")
  case True
  then show ?thesis
    using sum_list_map_update [OF True, of "\<lambda>b. case b of None \<Rightarrow> 0 | Some h \<Rightarrow> href h" None]
    by (simp add: total_refs_def put_def)
next
  case False
  then show ?thesis by (simp add: total_refs_def put_def list_update_beyond)
qed

lemma total_refs_gchalt [simp]: "total_refs (st\<lparr>gchalt := n\<rparr>) = total_refs st"
  by (simp add: total_refs_def)

function (sequential) run_work :: "work list \<Rightarrow> hst \<Rightarrow> hst res" where
  "run_work [] st = Inr st"
| "run_work (Dec None # w) st = run_work w st"
| "run_work (Dec (Some a) # w) st =
    (case get st a of
       None \<Rightarrow> Inl Undef
     | Some h \<Rightarrow>
        if href h = 0 then Inl Undef
        else
          (let h' = h\<lparr>href := href h - 1\<rparr>; st' = put a (Some h') st in
           if href h' > 0 \<or> gchalt st > 256 then run_work w st'
           else run_work (children h' @ Done a # w) (st'\<lparr>gchalt := gchalt st + 1\<rparr>)))"
| "run_work (Tail None # w) st = run_work w st"
| "run_work (Tail (Some a) # w) st =
    (case get st a of
       None \<Rightarrow> Inl Undef
     | Some h \<Rightarrow>
        if href h = 0 then Inl Undef
        else
          (let h' = h\<lparr>href := href h - 1\<rparr>; st' = put a (Some h') st in
           if href h \<noteq> 1 then run_work w st'
           else run_work (map Dec (concat (map (free_ptrs (htyp h)) (hels h))) @ Drop a # Tail (hlink h) # w) st'))"
| "run_work (Done a # w) st = run_work w ((put a None st)\<lparr>gchalt := gchalt st - 1\<rparr>)"
| "run_work (Drop a # w) st = run_work w (put a None st)"
  by pat_completeness auto

termination
proof (relation "measures [\<lambda>(w, st). total_refs st, \<lambda>(w, st). length w]", goal_cases)
  case (8 a w st)
  then show ?case using total_refs_free [of a st] by simp linarith
next
  case (9 a w st)
  then show ?case using total_refs_free [of a st] by simp linarith
qed (simp_all add: total_refs_dec)

definition destroy :: "nat option \<Rightarrow> hst \<Rightarrow> hst res" where
  "destroy p st = run_work [Dec p] st"

definition freeptrs :: "tmap \<Rightarrow> word list \<Rightarrow> hst \<Rightarrow> hst res" where
  "freeptrs t ws st = run_work (map Dec (free_ptrs t ws)) st"

section \<open>Colours\<close>

text \<open>\<open>Setmark\<close>; on a free block it has no effect here, which the invariant excludes.\<close>

definition setmark :: "nat option \<Rightarrow> hst \<Rightarrow> hst" where
  "setmark p st =
    (case p of
       None \<Rightarrow> st
     | Some a \<Rightarrow>
        (case get st a of
           None \<Rightarrow> st
         | Some h \<Rightarrow>
            if hcolor h \<noteq> mutator st
            then (put a (Some (h\<lparr>hcolor := propagator\<rparr>)) st)\<lparr>nprop := True\<rparr> else st))"

definition markheap :: "tmap \<Rightarrow> word list \<Rightarrow> hst \<Rightarrow> hst" where
  "markheap t ws st = fold setmark (ptrs t ws) st"

definition markarray :: "hobj \<Rightarrow> hst \<Rightarrow> hst" where
  "markarray h st =
    (let els = (case hlink h of
                  None \<Rightarrow> hels h
                | Some r \<Rightarrow> (case get st r of None \<Rightarrow> [] | Some rh \<Rightarrow> take (hlen h) (drop (hoff h) (hels rh))))
     in fold (markheap (htyp h)) els (setmark (hlink h) st))"

text \<open>\<open>marklist\<close> marks the data of the node and of as many further nodes as \<open>visit\<close> allows; it returns
  what is left of \<open>visit\<close>.\<close>

fun mark_tail :: "nat \<Rightarrow> nat option \<Rightarrow> hst \<Rightarrow> hst \<times> nat" where
  "mark_tail v None st = (st, v)"
| "mark_tail 0 (Some a) st = ((upd a (\<lambda>h. h\<lparr>hcolor := propagator\<rparr>) st)\<lparr>nprop := True\<rparr>, 0)"
| "mark_tail (Suc v) (Some a) st =
    (case get st a of
       None \<Rightarrow> (st, v)
     | Some h \<Rightarrow> mark_tail v (hlink h) (fold (markheap (htyp h)) (hels h) (setmark (Some a) st)))"

definition mark :: "nat \<Rightarrow> hobj \<Rightarrow> hst \<Rightarrow> hst \<times> nat" where
  "mark v h st =
    (case hkind h of
       KMem \<Rightarrow> (fold (markheap (htyp h)) (hels h) st, v)
     | KArray \<Rightarrow> (markarray h st, v)
     | KList \<Rightarrow> mark_tail v (hlink h) (fold (markheap (htyp h)) (hels h) st)
     | KOther \<Rightarrow> (st, v))"

lemma mark_tail_le: "snd (mark_tail v p st) \<le> v"
  by (induction v p st rule: mark_tail.induct) (auto split: option.splits)

lemma mark_le: "snd (mark v h st) \<le> v"
  by (auto simp: mark_def mark_tail_le split: kind.splits)

section \<open>The collector\<close>

definition rootset :: "hst \<Rightarrow> hst" where
  "rootset st =
    (let st1 = st\<lparr>mutator := gccolor st mod 3, marker := (gccolor st - 1) mod 3, sweeper := (gccolor st - 2) mod 3\<rparr>
     in fold setmark (mods st) (fold (\<lambda>(t, ws). markheap t ws) (frames st) st1))"

lemma mark_less: "(st1, v1) = mark v h st \<Longrightarrow> 0 < v \<Longrightarrow> v1 - Suc 0 < v"
proof -
  assume "(st1, v1) = mark v h st" and "0 < v"
  then have "v1 \<le> v" using mark_le [of v h st] by (metis snd_conv)
  then show "v1 - Suc 0 < v" using \<open>0 < v\<close> by linarith
qed

text \<open>The loop of \<open>rungc\<close>; the flag is set when it returns early because the first block it visited
  was swept and the walk has no block to go back to.\<close>

function gc_loop :: "nat \<Rightarrow> nat option \<Rightarrow> nat \<Rightarrow> hst \<Rightarrow> hst \<times> bool" where
  "gc_loop v prev i st =
    (if v = 0 then (st\<lparr>gcptr := Some i\<rparr>, False)
     else
       case get st i of
         Some h \<Rightarrow>
           if hcolor h = propagator then
             (case mark v h (put i (Some (h\<lparr>hcolor := mutator st\<rparr>)) st) of (st1, v1) \<Rightarrow>
               if length (arena st) \<le> i + 1 then (st1\<lparr>gcptr := None\<rparr>, False)
               else gc_loop (v1 - 1) (Some i) (i + 1) st1)
           else if hcolor h = sweeper st then
             (case prev of
                None \<Rightarrow> ((put i None st)\<lparr>gcptr := None\<rparr>, True)
              | Some q \<Rightarrow> gc_loop (v - 1) prev q (put i None st))
           else if length (arena st) \<le> i + 1 then (st\<lparr>gcptr := None\<rparr>, False)
           else gc_loop (v - 1) (Some i) (i + 1) st
       | None \<Rightarrow>
           if length (arena st) \<le> i + 1 then (st\<lparr>gcptr := None\<rparr>, False)
           else gc_loop (v - 1) (Some i) (i + 1) st)"
  by pat_completeness auto

termination
  by (relation "measure (\<lambda>(v, prev, i, st). v)") (auto dest: mark_less)

declare gc_loop.simps [simp del]

definition rungc :: "hst \<Rightarrow> hst" where
  "rungc st =
    (if gchalt st \<noteq> 0 then st
     else
       case gc_loop 50 None (case gcptr st of None \<Rightarrow> 0 | Some i \<Rightarrow> i) st of (st1, early) \<Rightarrow>
         if early \<or> gcptr st1 \<noteq> None then st1
         else if \<not> nprop st1 then rootset (st1\<lparr>gccolor := gccolor st1 + 1\<rparr>)
         else st1\<lparr>nprop := False\<rparr>)"

section \<open>Instructions\<close>

text \<open>Where a pointer operand is: a word of a frame, of a block, the tail of a list node.\<close>

datatype loc = InFrame nat nat | InBlock nat nat nat | InTail nat

fun read_ptr :: "loc \<Rightarrow> hst \<Rightarrow> nat option" where
  "read_ptr (InFrame f i) st = ptr_of (snd (frames st ! f) ! i)"
| "read_ptr (InBlock a k i) st = (case get st a of Some h \<Rightarrow> ptr_of (hels h ! k ! i) | None \<Rightarrow> None)"
| "read_ptr (InTail a) st = (case get st a of Some h \<Rightarrow> hlink h | None \<Rightarrow> None)"

fun write_ptr :: "loc \<Rightarrow> nat option \<Rightarrow> hst \<Rightarrow> hst" where
  "write_ptr (InFrame f i) p st =
    st\<lparr>frames := (frames st)[f := (fst (frames st ! f), (snd (frames st ! f))[i := Pt p])]\<rparr>"
| "write_ptr (InBlock a k i) p st = upd a (\<lambda>h. h\<lparr>hels := (hels h)[k := (hels h ! k)[i := Pt p]]\<rparr>) st"
| "write_ptr (InTail a) p st = upd a (\<lambda>h. h\<lparr>hlink := p\<rparr>) st"

definition incref :: "nat option \<Rightarrow> hst \<Rightarrow> hst res" where
  "incref p st =
    (case p of
       None \<Rightarrow> Inr st
     | Some a \<Rightarrow>
        (case get st a of
           None \<Rightarrow> Inl Undef
         | Some h \<Rightarrow> Inr (setmark p (put a (Some (h\<lparr>href := href h + 1\<rparr>)) st))))"

definition replace :: "loc \<Rightarrow> nat option \<Rightarrow> hst \<Rightarrow> hst res" where   \<comment> \<open>\<open>destroy(*d); *d = p\<close>\<close>
  "replace d p st = bindR (destroy (read_ptr d st) st) (\<lambda>st1. Inr (write_ptr d p st1))"

definition movp :: "loc \<Rightarrow> loc \<Rightarrow> hst \<Rightarrow> hst res" where
  "movp s d st = (let sv = read_ptr s st in bindR (incref sv st) (replace d sv))"

text \<open>The allocator puts the block at \<open>a\<close>, a free place or a new one at the end.\<close>

definition place :: "nat \<Rightarrow> hobj \<Rightarrow> hst \<Rightarrow> hst" where
  "place a h st =
    (if a < length (arena st) then put a (Some h) st else st\<lparr>arena := arena st @ [Some h]\<rparr>)"

definition blank :: "hst \<Rightarrow> hobj" where
  "blank st = \<lparr>hcolor = mutator st, href = 1, hkind = KMem, htyp = [], hels = [], hlink = None, hoff = 0, hlen = 0\<rparr>"

text \<open>\<open>ws\<close> is what the allocated memory happens to hold.\<close>

definition heap :: "nat \<Rightarrow> tmap \<Rightarrow> word list \<Rightarrow> hst \<Rightarrow> hst" where
  "heap a t ws st = place a ((blank st)\<lparr>htyp := t, hels := [initmem t ws]\<rparr>) st"

definition heapz :: "nat \<Rightarrow> tmap \<Rightarrow> nat \<Rightarrow> hst \<Rightarrow> hst" where   \<comment> \<open>\<open>n\<close> words, cleared\<close>
  "heapz a t n st = heap a t (replicate n (Wd 0)) st"

text \<open>The module data a loaded module gets (\<^verbatim>\<open>load.c\<close>: the data section of \<open>parsemod\<close>, \<open>unload\<close>).\<close>

definition load_mp :: "nat \<Rightarrow> tmap \<Rightarrow> nat \<Rightarrow> hst \<Rightarrow> hst" where
  "load_mp a t n st = (let st1 = heapz a t n st in st1\<lparr>mods := mods st1 @ [Some a]\<rparr>)"

definition unload_mp :: "nat \<Rightarrow> hst \<Rightarrow> hst res" where
  "unload_mp i st = destroy (mods st ! i) (st\<lparr>mods := take i (mods st) @ drop (Suc i) (mods st)\<rparr>)"

definition inew :: "nat \<Rightarrow> tmap \<Rightarrow> word list \<Rightarrow> loc \<Rightarrow> hst \<Rightarrow> hst res" where
  "inew a t ws d st = replace d (Some a) (heap a t ws st)"

definition newa :: "nat \<Rightarrow> tmap \<Rightarrow> word list list \<Rightarrow> loc \<Rightarrow> hst \<Rightarrow> hst res" where
  "newa a t wss d st =
    replace d (Some a)
      (place a ((blank st)\<lparr>hkind := KArray, htyp := t, hels := map (initmem t) wss, hlen := length wss\<rparr>) st)"

text \<open>\<open>cons\<close> takes over the reference in \<open>*lp\<close>.\<close>

definition cons :: "nat \<Rightarrow> tmap \<Rightarrow> word list \<Rightarrow> loc \<Rightarrow> hst \<Rightarrow> hst" where
  "cons a t ws lp st =
    (let lv = read_ptr lp st;
         st1 = setmark lv (place a ((blank st)\<lparr>hkind := KList, htyp := t, hels := [ws], hlink := lv\<rparr>) st)
     in write_ptr lp (Some a) st1)"

definition consw :: "nat \<Rightarrow> u32 \<Rightarrow> loc \<Rightarrow> hst \<Rightarrow> hst" where
  "consw a x lp st = cons a [] [Wd x] lp st"

definition consp :: "nat \<Rightarrow> loc \<Rightarrow> loc \<Rightarrow> hst \<Rightarrow> hst res" where
  "consp a s lp st =
    (let st1 = cons a [0x80] [Pt None] lp st; sv = read_ptr s st1 in
     bindR (incref sv st1) (\<lambda>st2. Inr (write_ptr (InBlock a 0 0) sv st2)))"

definition headp :: "loc \<Rightarrow> loc \<Rightarrow> hst \<Rightarrow> hst res" where
  "headp s d st = (case read_ptr s st of None \<Rightarrow> Inl Trap | Some l \<Rightarrow> movp (InBlock l 0 0) d st)"

definition tail :: "loc \<Rightarrow> loc \<Rightarrow> hst \<Rightarrow> hst res" where
  "tail s d st = (case read_ptr s st of None \<Rightarrow> Inl Trap | Some l \<Rightarrow> movp (InTail l) d st)"

definition slicea :: "nat \<Rightarrow> u32 \<Rightarrow> u32 \<Rightarrow> loc \<Rightarrow> hst \<Rightarrow> hst res" where
  "slicea a s m d st =
    (let n = m - s in
     case read_ptr d st of
       None \<Rightarrow> if n = 0 then Inr st else Inl (Raise ''nil pointer'')
     | Some ds \<Rightarrow>
        (case get st ds of
           None \<Rightarrow> Inl Undef
         | Some h \<Rightarrow>
            if n <s 0 \<or> unat s > hlen h \<or> unat m > hlen h then Inl (Raise ''bounds exceeded'')
            else
              (let ss = (blank st)\<lparr>hkind := KArray, htyp := htyp h, hlen := unat n, hoff := hoff h + unat s\<rparr>;
                   st1 = place a ss st in
               case hlink h of
                 None \<Rightarrow> Inr (write_ptr d (Some a) (upd a (\<lambda>x. x\<lparr>hlink := Some ds\<rparr>) st1))
               | Some r \<Rightarrow>
                   bindR (incref (Some r) st1) (\<lambda>st2.
                   bindR (destroy (Some ds) st2) (\<lambda>st3.
                   Inr (write_ptr d (Some a) (upd a (\<lambda>x. x\<lparr>hlink := Some r\<rparr>) st3)))))))"

definition new_frame :: "tmap \<Rightarrow> word list \<Rightarrow> hst \<Rightarrow> hst" where
  "new_frame t ws st = st\<lparr>frames := frames st @ [(t, initmem t ws)]\<rparr>"

definition free_frame :: "nat \<Rightarrow> hst \<Rightarrow> hst res" where
  "free_frame f st =
    bindR (freeptrs (fst (frames st ! f)) (snd (frames st ! f)) st)
      (\<lambda>st1. Inr (st1\<lparr>frames := take f (frames st1) @ drop (Suc f) (frames st1)\<rparr>))"

end
