(* ===== verification/HeapInv.thy ===== *)
theory HeapInv
  imports DisHeap "HOL-Library.Multiset"
begin

text \<open>
  The safety of the heap: reference counts cover the pointers of live blocks, and the colours of the
  collector keep every reachable block from being swept.
\<close>

section \<open>Counting pointers\<close>

definition obj_ptrs :: "hobj \<Rightarrow> nat option list" where
  "obj_ptrs h = concat (map (ptrs (htyp h)) (hels h)) @ [hlink h]"

definition root_ptrs :: "hst \<Rightarrow> nat option list" where
  "root_ptrs st = concat (map (\<lambda>(t, ws). ptrs t ws) (frames st)) @ mods st"

abbreviation cnt :: "nat option list \<Rightarrow> nat \<Rightarrow> nat" where
  "cnt xs x \<equiv> count_list xs (Some x)"

fun work_ptrs :: "work list \<Rightarrow> nat option list" where
  "work_ptrs [] = []"
| "work_ptrs (Dec p # w) = p # work_ptrs w"
| "work_ptrs (Tail p # w) = p # work_ptrs w"
| "work_ptrs (Done a # w) = work_ptrs w"
| "work_ptrs (Drop a # w) = work_ptrs w"

fun dying :: "work list \<Rightarrow> nat list" where
  "dying [] = []"
| "dying (Done a # w) = a # dying w"
| "dying (Drop a # w) = a # dying w"
| "dying (Dec p # w) = dying w"
| "dying (Tail p # w) = dying w"

lemma work_ptrs_append [simp]: "work_ptrs (v @ w) = work_ptrs v @ work_ptrs w"
  by (induction v rule: work_ptrs.induct) auto

lemma dying_append [simp]: "dying (v @ w) = dying v @ dying w"
  by (induction v rule: dying.induct) auto

lemma work_map_Dec [simp]: "work_ptrs (map Dec ps) = ps" "dying (map Dec ps) = []"
  by (induction ps) auto

lemma count_list_app [simp]: "count_list (xs @ ys) x = count_list xs x + count_list ys x"
  by (induction xs) auto

lemma count_list_mset: "count_list xs x = count (mset xs) x"
  by (induction xs) auto

lemma free_slots_mset: "mset (free_slots_from w t) = mset (slots_from w t)"
  by (induction t arbitrary: w) (simp_all add: rev_filter [symmetric])

lemma free_ptrs_mset: "mset (free_ptrs t ws) = mset (ptrs t ws)"
  by (simp add: free_ptrs_def ptrs_def free_slots_mset)

lemma cnt_free_ptrs [simp]: "count_list (free_ptrs t ws) x = count_list (ptrs t ws) x"
  by (simp add: count_list_mset free_ptrs_mset)

lemma cnt_concat_free [simp]:
  "count_list (concat (map (free_ptrs t) wss)) x = count_list (concat (map (ptrs t) wss)) x"
  by (induction wss) auto

text \<open>The shape of the blocks of each kind.\<close>

definition wf_obj :: "hobj \<Rightarrow> bool" where
  "wf_obj h \<longleftrightarrow>
    (case hkind h of
       KMem \<Rightarrow> hlink h = None
     | KArray \<Rightarrow> hlink h \<noteq> None \<longrightarrow> hels h = []
     | KList \<Rightarrow> True
     | KOther \<Rightarrow> hels h = [] \<and> hlink h = None) \<and>
    (\<forall>ws \<in> set (hels h). \<forall>i \<in> set (slots_from 0 (htyp h)). i < length ws)"

lemma children_cnt: "wf_obj h \<Longrightarrow> cnt (work_ptrs (children h)) x = cnt (obj_ptrs h) x"
  by (auto simp: wf_obj_def obj_ptrs_def split: kind.splits)

lemma children_dying [simp]: "dying (children h) = []"
  by (auto split: kind.splits)

text \<open>A block counts while it is allocated, not condemned (of the sweeper's colour) and not being freed.\<close>

definition own :: "nat \<Rightarrow> nat set \<Rightarrow> nat \<Rightarrow> hobj option \<Rightarrow> nat \<Rightarrow> nat" where
  "own sw D a b x =
    (case b of None \<Rightarrow> 0 | Some h \<Rightarrow> if a \<in> D \<or> hcolor h = sw then 0 else cnt (obj_ptrs h) x)"

definition held :: "nat \<Rightarrow> nat set \<Rightarrow> hobj option list \<Rightarrow> nat \<Rightarrow> nat" where
  "held sw D ar x = (\<Sum>a<length ar. own sw D a (ar ! a) x)"

fun bref :: "nat \<Rightarrow> hobj option \<Rightarrow> nat" where
  "bref sw None = 0"
| "bref sw (Some h) = (if hcolor h = sw then 0 else href h)"

definition refs :: "hst \<Rightarrow> nat \<Rightarrow> nat" where
  "refs st x = bref (sweeper st) (get st x)"

definition incount :: "work list \<Rightarrow> hst \<Rightarrow> nat \<Rightarrow> nat" where
  "incount w st x =
    cnt (root_ptrs st) x + held (sweeper st) (set (dying w)) (arena st) x + cnt (work_ptrs w) x"

text \<open>\<open>s\<close> is the surplus of the reference counts over the pointers there are.\<close>

definition bal :: "work list \<Rightarrow> hst \<Rightarrow> (nat \<Rightarrow> nat) \<Rightarrow> bool" where
  "bal w st s \<longleftrightarrow> (\<forall>x. incount w st x + s x = refs st x) \<and>
    (\<forall>a h. get st a = Some h \<longrightarrow> wf_obj h) \<and> distinct (dying w) \<and>
    (\<forall>a \<in> set (dying w). \<exists>h. get st a = Some h \<and> href h = 0 \<and> hcolor h \<noteq> sweeper st)"

lemma held_update:
  assumes "a < length ar"
  shows "held sw D (ar[a := b]) x + own sw D a (ar ! a) x = held sw D ar x + own sw D a b x"
proof -
  have "held sw D (ar[a := b]) x = own sw D a b x + (\<Sum>i \<in> {..<length ar} - {a}. own sw D i (ar ! i) x)"
    unfolding held_def using assms by (subst sum.remove [of _ a]) auto
  moreover have "held sw D ar x = own sw D a (ar ! a) x + (\<Sum>i \<in> {..<length ar} - {a}. own sw D i (ar ! i) x)"
    unfolding held_def using assms by (subst sum.remove [of _ a]) auto
  ultimately show ?thesis by simp
qed

lemma held_insert:
  assumes "a < length ar" and "a \<notin> D"
  shows "held sw (insert a D) ar x + own sw D a (ar ! a) x = held sw D ar x"
proof -
  have "held sw (insert a D) ar x = 0 + (\<Sum>i \<in> {..<length ar} - {a}. own sw (insert a D) i (ar ! i) x)"
    unfolding held_def using assms(1) by (subst sum.remove [of _ a]) (auto simp: own_def split: option.splits)
  moreover have "(\<Sum>i \<in> {..<length ar} - {a}. own sw (insert a D) i (ar ! i) x) =
      (\<Sum>i \<in> {..<length ar} - {a}. own sw D i (ar ! i) x)"
    by (rule sum.cong) (auto simp: own_def split: option.split)
  moreover have "held sw D ar x = own sw D a (ar ! a) x + (\<Sum>i \<in> {..<length ar} - {a}. own sw D i (ar ! i) x)"
    unfolding held_def using assms(1) by (subst sum.remove [of _ a]) auto
  ultimately show ?thesis by simp
qed

lemma getD: "get st a = Some h \<Longrightarrow> a < length (arena st) \<and> arena st ! a = Some h"
  by (auto simp: get_def split: if_splits)

lemma get_put [simp]:
  "get (put a b st) x = (if x = a \<and> a < length (arena st) then b else get st x)"
  by (auto simp: get_def put_def)

lemma put_sel [simp]:
  "frames (put a b st) = frames st" "mods (put a b st) = mods st" "mutator (put a b st) = mutator st"
  "marker (put a b st) = marker st" "sweeper (put a b st) = sweeper st" "gccolor (put a b st) = gccolor st"
  "nprop (put a b st) = nprop st" "gchalt (put a b st) = gchalt st" "gcptr (put a b st) = gcptr st"
  "arena (put a b st) = (arena st)[a := b]"
  by (simp_all add: put_def)

lemma get_gchalt [simp]: "get (st\<lparr>gchalt := n\<rparr>) x = get st x"
  by (simp add: get_def)

text \<open>Taking a reference off a block that is counted.\<close>

lemma held_same:
  assumes "get st a = Some h" and "obj_ptrs h' = obj_ptrs h" and "hcolor h' = hcolor h"
  shows "held sw D (arena (put a (Some h') st)) x = held sw D (arena st) x"
proof -
  have a: "a < length (arena st)" "arena st ! a = Some h" using getD [OF assms(1)] by auto
  have "own sw D a (Some h') x = own sw D a (arena st ! a) x" by (simp add: own_def a(2) assms(2,3))
  then show ?thesis using held_update [OF a(1), of sw D "Some h'" x] by simp
qed

lemma bal_counted:
  assumes "bal w st s" and "cnt (work_ptrs w) a > 0"
  obtains h where "get st a = Some h" "href h > 0" "hcolor h \<noteq> sweeper st" "a \<notin> set (dying w)"
proof -
  have "refs st a > 0" using assms unfolding bal_def incount_def by (metis add_gr_0)
  then obtain h where h: "get st a = Some h" "href h > 0" "hcolor h \<noteq> sweeper st"
    by (cases "get st a") (auto simp: refs_def split: if_splits)
  moreover have "a \<notin> set (dying w)" using assms(1) h by (fastforce simp: bal_def)
  ultimately show ?thesis using that by blast
qed

lemma root_ptrs_put [simp]: "root_ptrs (put a b st) = root_ptrs st"
  by (simp add: root_ptrs_def)

lemma obj_ptrs_href [simp]:
  "obj_ptrs (h\<lparr>href := n\<rparr>) = obj_ptrs h" "wf_obj (h\<lparr>href := n\<rparr>) = wf_obj h"
  "obj_ptrs (h\<lparr>hcolor := n\<rparr>) = obj_ptrs h" "wf_obj (h\<lparr>hcolor := n\<rparr>) = wf_obj h"
  by (cases "hkind h"; simp add: obj_ptrs_def wf_obj_def)+

lemma bal_dec:
  assumes "bal (u # w) st s" and "get st a = Some h" and "href h > 0" and "u = Dec (Some a) \<or> u = Tail (Some a)"
  shows "bal w (put a (Some (h\<lparr>href := href h - 1\<rparr>)) st) s"
proof -
  let ?st = "put a (Some (h\<lparr>href := href h - 1\<rparr>)) st"
  have a: "a < length (arena st)" using getD [OF assms(2)] by simp
  have u: "dying (u # w) = dying w" "cnt (work_ptrs (u # w)) x = cnt (work_ptrs w) x + of_bool (x = a)" for x
    using assms(4) by auto
  have nd: "a \<notin> set (dying w)" using assms(1-3) u(1) by (fastforce simp: bal_def)
  have ns: "hcolor h \<noteq> sweeper st"
    using bal_counted [OF assms(1), of a] assms(2) u(2) by fastforce
  have "held (sweeper st) D (arena ?st) x = held (sweeper st) D (arena st) x" for D x
    by (rule held_same [OF assms(2)]) simp_all
  then have "incount w ?st x + of_bool (x = a) = incount (u # w) st x" for x
    using u by (simp add: incount_def)
  moreover have "refs ?st x + of_bool (x = a) = refs st x" for x
    using a ns assms(2,3) by (auto simp: refs_def)
  moreover have "incount (u # w) st x + s x = refs st x" for x using assms(1) by (simp add: bal_def)
  ultimately have "incount w ?st x + s x = refs ?st x" for x by (metis add.assoc add.commute add_right_cancel)
  then show ?thesis using assms(1,2) nd u(1) by (auto simp: bal_def)
qed

lemma bal_gchalt [simp]: "bal w (st\<lparr>gchalt := n\<rparr>) s = bal w st s"
  by (simp add: bal_def incount_def root_ptrs_def refs_def)

text \<open>Handing the pointers of a block without references over to the work to be done.\<close>

lemma bal_expand:
  assumes "bal w st s" and "get st a = Some h" and "href h = 0" and "hcolor h \<noteq> sweeper st"
    and "a \<notin> set (dying w)" and "dying v = [a]" and "\<And>x. cnt (work_ptrs v) x = cnt (obj_ptrs h) x"
  shows "bal (v @ w) st s"
proof -
  have a: "a < length (arena st)" "arena st ! a = Some h" using getD [OF assms(2)] by auto
  have "held (sweeper st) (insert a (set (dying w))) (arena st) x + cnt (obj_ptrs h) x =
      held (sweeper st) (set (dying w)) (arena st) x" for x
    using held_insert [OF a(1) assms(5), of "sweeper st" x] assms(4,5) by (simp add: own_def a(2))
  then have "incount (v @ w) st x = incount w st x" for x
    using assms(6,7) by (simp add: incount_def algebra_simps)
  then show ?thesis using assms(1-6) by (auto simp: bal_def)
qed

lemma bal_free:
  assumes "bal (u # w) st s" and "u = Done a \<or> u = Drop a"
  shows "bal w (put a None st) s"
proof -
  have u: "dying (u # w) = a # dying w" "work_ptrs (u # w) = work_ptrs w" using assms(2) by auto
  obtain h where h: "get st a = Some h" "href h = 0" "hcolor h \<noteq> sweeper st" and nd: "a \<notin> set (dying w)"
    using assms(1) u(1) by (auto simp: bal_def)
  have a: "a < length (arena st)" "arena st ! a = Some h" using getD [OF h(1)] by auto
  have "held (sweeper st) (set (dying w)) (arena (put a None st)) x =
      held (sweeper st) (insert a (set (dying w))) (arena st) x" for x
    using held_update [OF a(1), of "sweeper st" "set (dying w)" None x] held_insert [OF a(1) nd, of "sweeper st" x]
    by (simp add: own_def)
  then have "incount w (put a None st) x = incount (u # w) st x" for x
    using u by (simp add: incount_def)
  moreover have "refs (put a None st) x = refs st x" for x using h a(1) by (auto simp: refs_def)
  moreover have "distinct (dying w)" using assms(1) u(1) by (simp add: bal_def)
  moreover have "\<forall>x \<in> set (dying w). \<exists>k. get (put a None st) x = Some k \<and> href k = 0 \<and> hcolor k \<noteq> sweeper st"
    using assms(1) u(1) nd by (auto simp: bal_def)
  ultimately show ?thesis using assms(1) by (auto simp: bal_def split: if_splits)
qed

text \<open>Blocks only go away or lose references.\<close>

definition shrinks :: "hst \<Rightarrow> hst \<Rightarrow> bool" where
  "shrinks st st' \<longleftrightarrow>
    frames st' = frames st \<and> mods st' = mods st \<and> mutator st' = mutator st \<and> marker st' = marker st \<and>
    sweeper st' = sweeper st \<and> gccolor st' = gccolor st \<and> nprop st' = nprop st \<and> gcptr st' = gcptr st \<and>
    length (arena st') = length (arena st) \<and>
    (\<forall>x h'. get st' x = Some h' \<longrightarrow> (\<exists>h. get st x = Some h \<and> h' = h\<lparr>href := href h'\<rparr>))"

lemma shrinks_refl [simp]: "shrinks st st"
  by (simp add: shrinks_def)

lemma shrinks_trans:
  assumes "shrinks st st1" and "shrinks st1 st2"
  shows "shrinks st st2"
proof -
  have "\<exists>h. get st x = Some h \<and> h' = h\<lparr>href := href h'\<rparr>" if "get st2 x = Some h'" for x h'
  proof -
    obtain h1 where h1: "get st1 x = Some h1" "h' = h1\<lparr>href := href h'\<rparr>"
      using assms(2) \<open>get st2 x = Some h'\<close> unfolding shrinks_def by blast
    obtain h where h: "get st x = Some h" "h1 = h\<lparr>href := href h1\<rparr>"
      using assms(1) h1(1) unfolding shrinks_def by blast
    have "h' = h\<lparr>href := href h'\<rparr>" by (subst h1(2), subst h(2)) simp
    then show ?thesis using h(1) by blast
  qed
  then show ?thesis using assms unfolding shrinks_def by simp
qed

lemma shrinks_put:
  "get st a = Some h \<Longrightarrow> shrinks st (put a (Some (h\<lparr>href := n\<rparr>)) st)"
  "shrinks st (put a None st)" "shrinks st (st\<lparr>gchalt := n\<rparr>)"
  by (auto simp: shrinks_def split: if_splits)

lemma run_work_keeps:
  "bal (w @ k) st s \<Longrightarrow> \<exists>st'. run_work w st = Inr st' \<and> bal k st' s \<and> shrinks st st'"
proof (induction w st rule: run_work.induct)
  case (1 st)
  then show ?case by simp
next
  case (2 w st)
  have "bal (w @ k) st s" using 2(2) by (simp add: bal_def incount_def)
  then show ?case using 2 by simp
next
  case (3 a w st)
  obtain h where h: "get st a = Some h" "href h > 0" "hcolor h \<noteq> sweeper st" "a \<notin> set (dying (w @ k))"
    using bal_counted [OF "3.prems", of a] by auto
  define h' where "h' = h\<lparr>href := href h - 1\<rparr>"
  define st' where "st' = put a (Some h') st"
  have a: "a < length (arena st)" using getD [OF h(1)] by simp
  have b: "bal (w @ k) st' s" unfolding st'_def h'_def by (rule bal_dec [OF "3.prems" [unfolded append_Cons] h(1,2)]) simp
  have sh: "shrinks st st'" unfolding st'_def h'_def by (rule shrinks_put(1) [OF h(1)])
  have g: "get st' a = Some h'" using a by (simp add: st'_def)
  show ?case
  proof (cases "href h' > 0 \<or> gchalt st > 256")
    case True
    have e: "run_work (Dec (Some a) # w) st = run_work w st'"
      using h True by (simp add: Let_def h'_def st'_def)
    show ?thesis
      using "3.IH"(1) [OF h(1) _ h'_def st'_def True b] h(2) sh shrinks_trans unfolding e by blast
  next
    case False
    have "bal ((children h' @ [Done a]) @ w @ k) st' s"
    proof (rule bal_expand [OF b g])
      show "href h' = 0" using False by simp
      show "hcolor h' \<noteq> sweeper st'" using h(3) by (simp add: h'_def st'_def)
      have "wf_obj h'" using "3.prems" h(1) by (simp add: bal_def h'_def)
      then show "cnt (work_ptrs (children h' @ [Done a])) x = cnt (obj_ptrs h') x" for x
        using children_cnt [of h' x] by (simp del: children.simps)
    qed (use h(4) in \<open>simp_all del: children.simps\<close>)
    then have b': "bal ((children h' @ Done a # w) @ k) (st'\<lparr>gchalt := gchalt st + 1\<rparr>) s"
      by (simp del: children.simps)
    have e: "run_work (Dec (Some a) # w) st = run_work (children h' @ Done a # w) (st'\<lparr>gchalt := gchalt st + 1\<rparr>)"
      using h False by (simp add: Let_def h'_def st'_def del: children.simps)
    show ?thesis
      using "3.IH"(2) [OF h(1) _ h'_def st'_def False b'] h(2) sh shrinks_put(3) shrinks_trans unfolding e by blast
  qed
next
  case (4 w st)
  have "bal (w @ k) st s" using 4(2) by (simp add: bal_def incount_def)
  then show ?case using 4 by simp
next
  case (5 a w st)
  obtain h where h: "get st a = Some h" "href h > 0" "hcolor h \<noteq> sweeper st" "a \<notin> set (dying (w @ k))"
    using bal_counted [OF "5.prems", of a] by auto
  define h' where "h' = h\<lparr>href := href h - 1\<rparr>"
  define st' where "st' = put a (Some h') st"
  have a: "a < length (arena st)" using getD [OF h(1)] by simp
  have b: "bal (w @ k) st' s" unfolding st'_def h'_def by (rule bal_dec [OF "5.prems" [unfolded append_Cons] h(1,2)]) simp
  have sh: "shrinks st st'" unfolding st'_def h'_def by (rule shrinks_put(1) [OF h(1)])
  have g: "get st' a = Some h'" using a by (simp add: st'_def)
  show ?case
  proof (cases "href h \<noteq> 1")
    case True
    have e: "run_work (Tail (Some a) # w) st = run_work w st'"
      using h True by (simp add: Let_def h'_def st'_def)
    show ?thesis
      using "5.IH"(1) [OF h(1) _ h'_def st'_def True b] h(2) sh shrinks_trans unfolding e by blast
  next
    case False
    let ?ds = "map Dec (concat (map (free_ptrs (htyp h)) (hels h)))"
    have b': "bal ((?ds @ [Drop a, Tail (hlink h)]) @ w @ k) st' s"
    proof (rule bal_expand [OF b g])
      show "href h' = 0" using False by (simp add: h'_def)
      show "hcolor h' \<noteq> sweeper st'" using h(3) by (simp add: h'_def st'_def)
      show "cnt (work_ptrs (?ds @ [Drop a, Tail (hlink h)])) x = cnt (obj_ptrs h') x" for x
        by (simp add: h'_def) (simp add: obj_ptrs_def)
    qed (use h(4) in simp_all)
    have e: "run_work (Tail (Some a) # w) st = run_work (?ds @ Drop a # Tail (hlink h) # w) st'"
      using h False by (simp add: Let_def h'_def st'_def)
    show ?thesis
      using "5.IH"(2) [OF h(1) _ h'_def st'_def False] b' h(2) sh shrinks_trans unfolding e by auto
  qed
next
  case (6 a w st)
  let ?st = "(put a None st)\<lparr>gchalt := gchalt st - 1\<rparr>"
  have b: "bal (w @ k) ?st s" using bal_free [OF "6.prems" [unfolded append_Cons]] by simp
  have "shrinks st ?st" by (rule shrinks_trans [OF shrinks_put(2) shrinks_put(3)])
  then show ?case using "6.IH" [OF b] shrinks_trans by auto
next
  case (7 a w st)
  have b: "bal (w @ k) (put a None st) s" using bal_free [OF "7.prems" [unfolded append_Cons]] by simp
  show ?case using "7.IH" [OF b] shrinks_trans [OF shrinks_put(2)] by auto
qed

lemma run_work_ok: "bal w st s \<Longrightarrow> \<exists>st'. run_work w st = Inr st' \<and> bal [] st' s \<and> shrinks st st'"
  using run_work_keeps [of w "[]"] by simp

section \<open>Writing a pointer\<close>

lemma slots_from_ge: "i \<in> set (slots_from w t) \<Longrightarrow> w \<le> i"
  by (induction t arbitrary: w) (auto, fastforce)

lemma distinct_slots [simp]: "distinct (slots_from w t)"
proof (induction t arbitrary: w)
  case (Cons c t)
  then show ?case using slots_from_ge [of _ "w + 8" t] by fastforce
qed simp

lemma cnt_ptrs_update:
  assumes "i \<in> set (slots_from 0 t)" and "i < length ws"
  shows "cnt (ptrs t (ws[i := Pt p])) x + cnt [ptr_of (ws ! i)] x = cnt (ptrs t ws) x + cnt [p] x"
proof -
  obtain as bs where sl: "slots_from 0 t = as @ i # bs" using split_list [OF assms(1)] by blast
  then have "i \<notin> set as" "i \<notin> set bs" using distinct_slots [of 0 t] by auto
  then have "map (\<lambda>j. ptr_of (ws[i := Pt p] ! j)) as = map (\<lambda>j. ptr_of (ws ! j)) as"
    "map (\<lambda>j. ptr_of (ws[i := Pt p] ! j)) bs = map (\<lambda>j. ptr_of (ws ! j)) bs"
    by (auto intro!: arg_cong [where f = ptr_of] nth_list_update_neq)
  then have "ptrs t (ws[i := Pt p]) = map (\<lambda>j. ptr_of (ws ! j)) as @ p # map (\<lambda>j. ptr_of (ws ! j)) bs"
    "ptrs t ws = map (\<lambda>j. ptr_of (ws ! j)) as @ ptr_of (ws ! i) # map (\<lambda>j. ptr_of (ws ! j)) bs"
    using assms(2) by (simp_all add: ptrs_def sl del: map_eq_conv)
  then show ?thesis by simp
qed

lemma cnt_concat_update:
  assumes "k < length wss"
  shows "cnt (concat (map f (wss[k := v]))) x + cnt (f (wss ! k)) x = cnt (concat (map f wss)) x + cnt (f v) x"
proof -
  have "wss = take k wss @ wss ! k # drop (Suc k) wss" using assms by (rule id_take_nth_drop)
  then have "cnt (concat (map f wss)) x =
      cnt (concat (map f (take k wss))) x + cnt (f (wss ! k)) x + cnt (concat (map f (drop (Suc k) wss))) x"
    by (metis (no_types, lifting) add.assoc concat.simps(2) concat_append count_list_app list.simps(9) map_append)
  moreover have "cnt (concat (map f (wss[k := v]))) x =
      cnt (concat (map f (take k wss))) x + cnt (f v) x + cnt (concat (map f (drop (Suc k) wss))) x"
    using assms by (simp add: upd_conv_take_nth_drop)
  ultimately show ?thesis by simp
qed

definition frames_ok :: "hst \<Rightarrow> bool" where
  "frames_ok st \<longleftrightarrow> (\<forall>(t, ws) \<in> set (frames st). \<forall>i \<in> set (slots_from 0 t). i < length ws)"

lemma cnt_pos: "cnt xs x > 0 \<longleftrightarrow> Some x \<in> set xs"
  by (induction xs) auto

text \<open>The blocks a program can get at.\<close>

definition live :: "hst \<Rightarrow> nat option \<Rightarrow> bool" where   \<comment> \<open>\<open>H\<close> or a block that is not condemned\<close>
  "live st p \<longleftrightarrow> (\<forall>a. p = Some a \<longrightarrow> (\<exists>h. get st a = Some h \<and> hcolor h \<noteq> sweeper st))"

lemma live_None [simp]: "live st None"
  by (simp add: live_def)

inductive reach :: "hst \<Rightarrow> nat \<Rightarrow> bool" for st where
  root: "Some a \<in> set (root_ptrs st) \<Longrightarrow> reach st a"
| step: "reach st a \<Longrightarrow> get st a = Some h \<Longrightarrow> Some b \<in> set (obj_ptrs h) \<Longrightarrow> reach st b"

lemma bal_live:
  assumes "bal w st s" and "incount w st a > 0"
  shows "live st (Some a)"
proof -
  have "refs st a > 0" using assms unfolding bal_def by (metis add_gr_0)
  then show ?thesis by (cases "get st a") (auto simp: refs_def live_def split: if_splits)
qed

lemma bal_live_root: "bal w st s \<Longrightarrow> p \<in> set (root_ptrs st) \<Longrightarrow> live st p"
  by (cases p) (auto intro!: bal_live simp: incount_def cnt_pos)

lemma bal_live_work: "bal w st s \<Longrightarrow> p \<in> set (work_ptrs w) \<Longrightarrow> live st p"
  by (cases p) (auto intro!: bal_live simp: incount_def cnt_pos)

lemma bal_obj_counted:
  assumes "bal w st s" and "get st a = Some h" and "hcolor h \<noteq> sweeper st" and "a \<notin> set (dying w)"
    and "Some b \<in> set (obj_ptrs h)"
  shows "incount w st b > 0"
proof -
  have a: "a < length (arena st)" "arena st ! a = Some h" using getD [OF assms(2)] by auto
  have "own (sweeper st) (set (dying w)) a (arena st ! a) b \<le> held (sweeper st) (set (dying w)) (arena st) b"
    unfolding held_def by (rule member_le_sum) (use a in simp_all)
  moreover have "own (sweeper st) (set (dying w)) a (arena st ! a) b > 0"
    using assms by (simp add: own_def a(2) cnt_pos)
  ultimately show ?thesis by (simp add: incount_def)
qed

lemma bal_live_obj:
  assumes "bal w st s" and "get st a = Some h" and "hcolor h \<noteq> sweeper st" and "a \<notin> set (dying w)"
    and "p \<in> set (obj_ptrs h)"
  shows "live st p"
  using bal_obj_counted [OF assms(1-4)] bal_live [OF assms(1)] assms(5) by (cases p) auto

lemma reach_live: "reach st a \<Longrightarrow> bal w st s \<Longrightarrow> dying w = [] \<Longrightarrow> live st (Some a)"
proof (induction rule: reach.induct)
  case (root a)
  then show ?case by (intro bal_live_root)
next
  case (step a h b)
  then have "hcolor h \<noteq> sweeper st" by (auto simp: live_def)
  then show ?case using bal_live_obj [OF step.prems(1) step.hyps(2) _ _ step.hyps(3)] step.prems(2) by simp
qed

lemma reach_counted:
  assumes "reach st a" and "bal [] st s"
  shows "refs st a > 0"
proof -
  have "incount [] st a > 0"
    using assms(1)
  proof (cases rule: reach.cases)
    case root
    then have "cnt (root_ptrs st) a > 0" by (simp only: cnt_pos)
    then show ?thesis by (simp add: incount_def)
  next
    case (step x h)
    have "live st (Some x)" by (rule reach_live [OF step(1) assms(2)]) simp
    then show ?thesis using bal_obj_counted [OF assms(2) step(2) _ _ step(3)] step(2) by (simp add: live_def)
  qed
  moreover have "incount [] st a + s a = refs st a" using assms(2) by (simp add: bal_def)
  ultimately show ?thesis by simp
qed

text \<open>Pointer operands: a word of a frame, or a pointer word of a reachable block.\<close>

fun dst_ok :: "loc \<Rightarrow> hst \<Rightarrow> bool" where
  "dst_ok (InFrame f i) st \<longleftrightarrow> f < length (frames st) \<and> i \<in> set (slots_from 0 (fst (frames st ! f)))"
| "dst_ok (InBlock a k i) st \<longleftrightarrow> reach st a \<and>
     (\<forall>h. get st a = Some h \<longrightarrow> k < length (hels h) \<and> i \<in> set (slots_from 0 (htyp h)))"
| "dst_ok (InTail a) st \<longleftrightarrow> False"

text \<open>More generally, a slot of a block that is counted; the link of a list node or slice is one too.\<close>

fun slot_ok :: "nat set \<Rightarrow> loc \<Rightarrow> hst \<Rightarrow> bool" where
  "slot_ok D (InFrame f i) st \<longleftrightarrow> f < length (frames st) \<and> i \<in> set (slots_from 0 (fst (frames st ! f)))"
| "slot_ok D (InBlock a k i) st \<longleftrightarrow> (\<exists>h. get st a = Some h \<and> hcolor h \<noteq> sweeper st \<and> a \<notin> D \<and>
     k < length (hels h) \<and> i \<in> set (slots_from 0 (htyp h)))"
| "slot_ok D (InTail a) st \<longleftrightarrow> (\<exists>h. get st a = Some h \<and> hcolor h \<noteq> sweeper st \<and> a \<notin> D \<and>
     (hkind h = KList \<or> hkind h = KArray \<and> hels h = []))"

lemma dst_slot:
  assumes "bal w st s" and "dying w = []" and "dst_ok d st"
  shows "slot_ok {} d st"
proof (cases d)
  case (InBlock a k i)
  then have "live st (Some a)" using reach_live assms by simp
  then show ?thesis using assms(3) InBlock by (auto simp: live_def)
qed (use assms in simp_all)

lemma root_cnt_write:
  assumes "slot_ok D (InFrame f i) st" and "frames_ok st"
  shows "cnt (root_ptrs (write_ptr (InFrame f i) p st)) x + cnt [read_ptr (InFrame f i) st] x =
    cnt (root_ptrs st) x + cnt [p] x"
proof -
  obtain t ws where fr: "frames st ! f = (t, ws)" by fastforce
  have f: "f < length (frames st)" and i: "i \<in> set (slots_from 0 t)" using assms(1) fr by auto
  then have "(t, ws) \<in> set (frames st)" using fr by (metis nth_mem)
  then have l: "i < length ws" using assms(2) i by (auto simp: frames_ok_def)
  have "cnt (root_ptrs (write_ptr (InFrame f i) p st)) x + cnt (ptrs t ws) x =
      cnt (root_ptrs st) x + cnt (ptrs t (ws[i := Pt p])) x"
    using cnt_concat_update [OF f, of "\<lambda>(t, ws). ptrs t ws" "(t, ws[i := Pt p])" x]
    by (simp add: root_ptrs_def fr)
  then show ?thesis using cnt_ptrs_update [OF i l, of p x] by (simp add: fr)
qed

lemma obj_cnt_write:
  assumes "wf_obj h" and "k < length (hels h)" and "i \<in> set (slots_from 0 (htyp h))"
  shows "cnt (obj_ptrs (h\<lparr>hels := (hels h)[k := (hels h ! k)[i := Pt p]]\<rparr>)) x + cnt [ptr_of (hels h ! k ! i)] x =
    cnt (obj_ptrs h) x + cnt [p] x"
proof -
  let ?h = "h\<lparr>hels := (hels h)[k := (hels h ! k)[i := Pt p]]\<rparr>"
  have l: "i < length (hels h ! k)" using assms unfolding wf_obj_def by (meson nth_mem)
  have "cnt (obj_ptrs ?h) x + cnt (ptrs (htyp h) (hels h ! k)) x =
      cnt (obj_ptrs h) x + cnt (ptrs (htyp h) ((hels h ! k)[i := Pt p])) x"
    using cnt_concat_update [OF assms(2), of "ptrs (htyp h)" "(hels h ! k)[i := Pt p]" x]
    by (simp add: obj_ptrs_def)
  then show ?thesis using cnt_ptrs_update [OF assms(3) l, of p x] by simp
qed

lemma incount_write:
  assumes "bal w st s" and "slot_ok (set (dying w)) d st" and "frames_ok st" and "dying v = dying w"
  shows "incount v (write_ptr d p st) x + cnt [read_ptr d st] x = incount v st x + cnt [p] x"
proof -
  have block: ?thesis
    if h: "get st a = Some h" "hcolor h \<noteq> sweeper st" "a \<notin> set (dying w)"
      and w: "write_ptr d p st = put a (Some h') st" and c: "hcolor h' = hcolor h"
      and o: "cnt (obj_ptrs h') x + cnt [read_ptr d st] x = cnt (obj_ptrs h) x + cnt [p] x" for a h h'
  proof -
    have a: "a < length (arena st)" "arena st ! a = Some h" using getD [OF h(1)] by auto
    have own: "own (sweeper st) (set (dying v)) a (Some h') x = cnt (obj_ptrs h') x"
      "own (sweeper st) (set (dying v)) a (arena st ! a) x = cnt (obj_ptrs h) x"
      using h(2,3) assms(4) by (simp_all add: own_def a(2) c)
    show ?thesis
      using held_update [OF a(1), of "sweeper st" "set (dying v)" "Some h'" x] o
      unfolding own by (simp add: incount_def w)
  qed
  show ?thesis
  proof (cases d)
    case (InFrame f i)
    have "held (sweeper (write_ptr d p st)) D (arena (write_ptr d p st)) x = held (sweeper st) D (arena st) x" for D
      by (simp add: InFrame)
    then show ?thesis
      using root_cnt_write [OF assms(2) [unfolded InFrame] assms(3), of p x]
      by (simp add: incount_def InFrame del: read_ptr.simps)
  next
    case (InBlock a k i)
    obtain h where h: "get st a = Some h" "hcolor h \<noteq> sweeper st" "a \<notin> set (dying w)"
      and k: "k < length (hels h)" and i: "i \<in> set (slots_from 0 (htyp h))"
      using assms(2) InBlock by auto
    have "wf_obj h" using assms(1) h(1) by (simp add: bal_def)
    from obj_cnt_write [OF this k i, of p x] show ?thesis
      by (intro block [OF h, of "h\<lparr>hels := (hels h)[k := (hels h ! k)[i := Pt p]]\<rparr>"])
        (simp_all add: InBlock upd_def h(1))
  next
    case (InTail a)
    obtain h where h: "get st a = Some h" "hcolor h \<noteq> sweeper st" "a \<notin> set (dying w)"
      using assms(2) InTail by auto
    show ?thesis
      by (rule block [OF h, of "h\<lparr>hlink := p\<rparr>"]) (simp_all add: InTail upd_def h(1) obj_ptrs_def)
  qed
qed

lemma cnt_Dec: "incount (Dec p # w) st x = incount w st x + cnt [p] x"
  by (simp add: incount_def)

lemma write_get:
  "get (write_ptr (InFrame f i) p st) x = get st x"
  "get (write_ptr (InBlock a k i) p st) x =
    (if x = a then map_option (\<lambda>h. h\<lparr>hels := (hels h)[k := (hels h ! k)[i := Pt p]]\<rparr>) (get st a) else get st x)"
  "get (write_ptr (InTail a) p st) x = (if x = a then map_option (\<lambda>h. h\<lparr>hlink := p\<rparr>) (get st a) else get st x)"
  by (auto simp: get_def upd_def put_def)

lemma write_sel [simp]:
  "mods (write_ptr d p st) = mods st" "mutator (write_ptr d p st) = mutator st"
  "marker (write_ptr d p st) = marker st" "sweeper (write_ptr d p st) = sweeper st"
  "gccolor (write_ptr d p st) = gccolor st" "nprop (write_ptr d p st) = nprop st"
  "gchalt (write_ptr d p st) = gchalt st" "gcptr (write_ptr d p st) = gcptr st"
  "length (arena (write_ptr d p st)) = length (arena st)"
  by (cases d; simp add: upd_def)+

declare write_ptr.simps [simp del]

lemma write_refs: "refs (write_ptr d p st) x = refs st x"
proof (cases d)
  case (InBlock a k i)
  then show ?thesis by (cases "get st a") (auto simp: refs_def write_get)
next
  case (InTail a)
  then show ?thesis by (cases "get st a") (auto simp: refs_def write_get)
qed (auto simp: refs_def write_get)

lemma wf_write:
  "wf_obj h \<Longrightarrow> hkind h = KArray \<longrightarrow> hlink h = None \<or> hels h = [] \<Longrightarrow> k < length (hels h) \<Longrightarrow>
    wf_obj (h\<lparr>hels := (hels h)[k := (hels h ! k)[i := Pt p]]\<rparr>)"
  unfolding wf_obj_def
  by (cases "hkind h") (auto dest!: subsetD [OF set_update_subset_insert])

lemma bal_swap:
  assumes "bal (Dec p # w) st s" and "slot_ok (set (dying w)) d st" and "frames_ok st"
  shows "bal (Dec (read_ptr d st) # w) (write_ptr d p st) s"
proof -
  have dyw: "dying (Dec p # w) = dying w" by (rule dying.simps)
  have e: "incount (Dec (read_ptr d st) # w) (write_ptr d p st) x = incount (Dec p # w) st x" for x
    using incount_write [OF assms(1) assms(2) [folded dyw] assms(3), of w p x] by (simp add: cnt_Dec)
  have wfo: "wf_obj h" if "get st a = Some h" for a h using assms(1) that by (simp add: bal_def)
  have wf: "wf_obj h'" if g: "get (write_ptr d p st) a = Some h'" for a h'
  proof (cases d)
    case (InFrame f i)
    then show ?thesis using g wfo by (simp add: write_get)
  next
    case (InBlock b k i)
    show ?thesis
    proof (cases "a = b")
      case True
      then obtain h where h: "get st b = Some h" "h' = h\<lparr>hels := (hels h)[k := (hels h ! k)[i := Pt p]]\<rparr>"
        using g by (auto simp: InBlock write_get)
      have "wf_obj h" by (rule wfo [OF h(1)])
      moreover have "k < length (hels h)" using assms(2) h(1) InBlock by simp
      ultimately show ?thesis unfolding h(2) by (intro wf_write) (auto simp: wf_obj_def)
    next
      case False
      then show ?thesis using g wfo by (simp add: InBlock write_get)
    qed
  next
    case (InTail b)
    show ?thesis
    proof (cases "a = b")
      case True
      then obtain h where h: "get st b = Some h" "h' = h\<lparr>hlink := p\<rparr>"
        using g by (auto simp: InTail write_get)
      then show ?thesis using wfo [OF h(1)] assms(2) InTail by (auto simp: wf_obj_def)
    next
      case False
      then show ?thesis using g wfo by (simp add: InTail write_get)
    qed
  qed
  have dy: "\<exists>k. get (write_ptr d p st) a = Some k \<and> href k = 0 \<and> hcolor k \<noteq> sweeper st"
    if dw: "a \<in> set (dying w)" for a
  proof -
    have "\<forall>a \<in> set (dying w). \<exists>k. get st a = Some k \<and> href k = 0 \<and> hcolor k \<noteq> sweeper st"
      using assms(1) by (simp add: bal_def)
    then obtain k where "get st a = Some k" "href k = 0" "hcolor k \<noteq> sweeper st" using dw by blast
    then show ?thesis by (cases d) (auto simp: write_get)
  qed
  have "incount (Dec p # w) st x + s x = refs st x" for x using assms(1) by (simp add: bal_def)
  then have "incount (Dec (read_ptr d st) # w) (write_ptr d p st) x + s x = refs (write_ptr d p st) x" for x
    by (simp only: e write_refs)
  moreover have "distinct (dying (Dec (read_ptr d st) # w))" using assms(1) by (simp add: bal_def)
  ultimately show ?thesis using wf dy unfolding bal_def by simp
qed

text \<open>\<open>destroy\<close> does not look at the word that is about to be overwritten.\<close>

lemma put_upd_other:
  "x \<noteq> a \<Longrightarrow> put x b (upd a f st) = upd a f (put x b st)"
  by (auto simp: upd_def put_def get_def list_update_swap)

lemma get_upd: "get (upd a f st) x = (if x = a then map_option f (get st a) else get st x)"
  by (auto simp: get_def upd_def put_def)

lemma upd_gchalt: "(upd a f st)\<lparr>gchalt := n\<rparr> = upd a f (st\<lparr>gchalt := n\<rparr>)"
  by (simp add: upd_def put_def get_def)

lemma upd_sel [simp]:
  "root_ptrs (upd a f st) = root_ptrs st" "gchalt (upd a f st) = gchalt st" "sweeper (upd a f st) = sweeper st"
  "length (arena (upd a f st)) = length (arena st)"
  by (simp_all add: upd_def root_ptrs_def)

lemma run_work_commute:
  assumes "\<And>st. gchalt (F st) = gchalt st" and "\<And>st n. (F st)\<lparr>gchalt := n\<rparr> = F (st\<lparr>gchalt := n\<rparr>)"
    and "\<And>st x. get (F st) x = get st x" and "\<And>st x b. put x b (F st) = F (put x b st)"
  shows "run_work w (F st) = (case run_work w st of Inl e \<Rightarrow> Inl e | Inr st' \<Rightarrow> Inr (F st'))"
proof (induction w st rule: run_work.induct)
  case (3 a w st)
  show ?case
  proof (cases "get st a")
    case None
    then show ?thesis by (simp add: assms)
  next
    case (Some h)
    then show ?thesis using "3.IH" [OF Some _ refl refl]
      by (cases "href h = 0"; cases "href h - 1 > 0 \<or> gchalt st > 256")
        (simp_all add: assms Let_def del: children.simps)
  qed
next
  case (5 a w st)
  show ?case
  proof (cases "get st a")
    case None
    then show ?thesis by (simp add: assms)
  next
    case (Some h)
    then show ?thesis using "5.IH" [OF Some _ refl refl]
      by (cases "href h = 0"; cases "href h \<noteq> 1") (simp_all add: assms Let_def)
  qed
qed (simp_all add: assms)

lemma run_work_gone:
  "run_work w st = Inr r \<Longrightarrow> get st a = None \<or> a \<in> set (dying w) \<Longrightarrow> get r a = None"
proof (induction w st rule: run_work.induct)
  case (3 b w st)
  obtain h where h: "get st b = Some h" "href h \<noteq> 0" using "3.prems"(1) by (auto split: option.splits if_splits)
  show ?case
  proof (cases "href (h\<lparr>href := href h - 1\<rparr>) > 0 \<or> gchalt st > 256")
    case True
    have "get (put b (Some (h\<lparr>href := href h - 1\<rparr>)) st) a = None \<or> a \<in> set (dying w)"
      using "3.prems"(2) h(1) by auto
    then show ?thesis using "3.IH"(1) [OF h refl refl True] "3.prems"(1) h True by (simp add: Let_def)
  next
    case False
    have "get ((put b (Some (h\<lparr>href := href h - 1\<rparr>)) st)\<lparr>gchalt := gchalt st + 1\<rparr>) a = None \<or>
        a \<in> set (dying (children (h\<lparr>href := href h - 1\<rparr>) @ Done b # w))"
      using "3.prems"(2) h(1) by (auto simp del: children.simps)
    then show ?thesis using "3.IH"(2) [OF h refl refl False] "3.prems"(1) h False
      by (simp add: Let_def del: children.simps)
  qed
next
  case (5 b w st)
  obtain h where h: "get st b = Some h" "href h \<noteq> 0" using "5.prems"(1) by (auto split: option.splits if_splits)
  show ?case
  proof (cases "href h \<noteq> 1")
    case True
    have "get (put b (Some (h\<lparr>href := href h - 1\<rparr>)) st) a = None \<or> a \<in> set (dying w)"
      using "5.prems"(2) h(1) by auto
    then show ?thesis using "5.IH"(1) [OF h refl refl True] "5.prems"(1) h True by (simp add: Let_def)
  next
    case False
    have "get (put b (Some (h\<lparr>href := href h - 1\<rparr>)) st) a = None \<or>
        a \<in> set (dying (map Dec (concat (map (free_ptrs (htyp h)) (hels h))) @ Drop b # Tail (hlink h) # w))"
      using "5.prems"(2) h(1) by auto
    then show ?thesis using "5.IH"(2) [OF h refl refl False] "5.prems"(1) h False by (simp add: Let_def)
  qed
next
  case (6 b w st)
  have "get ((put b None st)\<lparr>gchalt := gchalt st - 1\<rparr>) a = None \<or> a \<in> set (dying w)"
    using "6.prems"(2) by (cases "a = b") (auto simp: get_def)
  then show ?case using 6 by simp
next
  case (7 b w st)
  have "get (put b None st) a = None \<or> a \<in> set (dying w)"
    using "7.prems"(2) by (cases "a = b") (auto simp: get_def)
  then show ?case using 7 by simp
qed simp_all

text \<open>A block that survives is not looked into.\<close>

lemma run_work_upd:
  assumes "\<And>h. href (f h) = href h" and "\<And>h n. (f h)\<lparr>href := n\<rparr> = f (h\<lparr>href := n\<rparr>)"
  shows "run_work w st = Inr r \<Longrightarrow> get r a \<noteq> None \<Longrightarrow> run_work w (upd a f st) = Inr (upd a f r)"
proof (induction w st rule: run_work.induct)
  case (3 b w st)
  obtain h where h: "get st b = Some h" "href h \<noteq> 0" using "3.prems"(1) by (auto split: option.splits if_splits)
  have put: "put b (Some ((if b = a then f h else h)\<lparr>href := n\<rparr>)) (upd a f st) =
      upd a f (put b (Some (h\<lparr>href := n\<rparr>)) st)" for n
    using h(1) getD [OF h(1)] by (cases "b = a") (simp_all add: put_upd_other, simp add: upd_def assms(2) put_def get_def)
  have g: "get (upd a f st) b = Some (if b = a then f h else h)" using h(1) by (auto simp: get_upd)
  have hr: "href (if b = a then f h else h) = href h" by (simp add: assms(1))
  show ?case
  proof (cases "href (h\<lparr>href := href h - 1\<rparr>) > 0 \<or> gchalt st > 256")
    case True
    then show ?thesis using "3.IH"(1) [OF h refl refl] "3.prems" h put g hr
      by (simp add: Let_def)
  next
    case False
    have ne: "b \<noteq> a"
    proof
      assume "b = a"
      have "run_work (children (h\<lparr>href := href h - 1\<rparr>) @ Done b # w)
          ((put b (Some (h\<lparr>href := href h - 1\<rparr>)) st)\<lparr>gchalt := gchalt st + 1\<rparr>) = Inr r"
        using "3.prems"(1) h False by (simp add: Let_def del: children.simps)
      from run_work_gone [OF this, of a] show False using "3.prems"(2) \<open>b = a\<close> by simp
    qed
    then show ?thesis using "3.IH"(2) [OF h refl refl] "3.prems" h put g hr False
      by (simp add: Let_def upd_gchalt del: children.simps)
  qed
next
  case (5 b w st)
  obtain h where h: "get st b = Some h" "href h \<noteq> 0" using "5.prems"(1) by (auto split: option.splits if_splits)
  have put: "put b (Some ((if b = a then f h else h)\<lparr>href := n\<rparr>)) (upd a f st) =
      upd a f (put b (Some (h\<lparr>href := n\<rparr>)) st)" for n
    using h(1) getD [OF h(1)] by (cases "b = a") (simp_all add: put_upd_other, simp add: upd_def assms(2) put_def get_def)
  have g: "get (upd a f st) b = Some (if b = a then f h else h)" using h(1) by (auto simp: get_upd)
  have hr: "href (if b = a then f h else h) = href h" by (simp add: assms(1))
  show ?case
  proof (cases "href h \<noteq> 1")
    case True
    then show ?thesis using "5.IH"(1) [OF h refl refl] "5.prems" h put g hr by (simp add: Let_def)
  next
    case False
    have ne: "b \<noteq> a"
    proof
      assume "b = a"
      have "run_work (map Dec (concat (map (free_ptrs (htyp h)) (hels h))) @ Drop b # Tail (hlink h) # w)
          (put b (Some (h\<lparr>href := href h - 1\<rparr>)) st) = Inr r"
        using "5.prems"(1) h False by (simp add: Let_def)
      from run_work_gone [OF this, of a] show False using "5.prems"(2) \<open>b = a\<close> by simp
    qed
    then show ?thesis using "5.IH"(2) [OF h refl refl] "5.prems" h put g hr False
      by (simp add: Let_def)
  qed
next
  case (6 b w st)
  have "b \<noteq> a" using run_work_gone [OF "6.prems"(1), of a] "6.prems"(2) by auto
  then show ?case using 6 by (simp add: put_upd_other upd_gchalt)
next
  case (7 b w st)
  have "b \<noteq> a" using run_work_gone [OF "7.prems"(1), of a] "7.prems"(2) by auto
  then show ?case using 7 by (simp add: put_upd_other)
qed simp_all

lemma put_same [simp]: "get st a = Some h \<Longrightarrow> put a (Some h) st = st"
proof -
  assume "get st a = Some h"
  then have "(arena st)[a := Some h] = arena st" by (metis getD list_update_id)
  then show ?thesis by (simp add: put_def)
qed

lemma put_put [simp]: "put a b (put a c st) = put a b st"
  by (simp add: put_def)

lemma rooted_write_block [simp]:
  "root_ptrs (write_ptr (InBlock a k i) p st) = root_ptrs st" "root_ptrs (write_ptr (InTail a) p st) = root_ptrs st"
  by (simp_all add: write_ptr.simps)

lemma rooted_shrinks: "shrinks st st' \<Longrightarrow> root_ptrs st' = root_ptrs st"
  by (simp add: shrinks_def root_ptrs_def)

text \<open>\<open>destroy(*d); *d = p\<close> with a reference to \<open>p\<close> in hand.\<close>

text \<open>Overwriting a word of a block does not cut the block off.\<close>

lemma reach_write:
  assumes "reach st b"
  shows "reach (write_ptr (InBlock b k i) p st) b"
proof -
  let ?st = "write_ptr (InBlock b k i) p st"
  have "reach ?st x \<or> reach ?st b" if "reach st x" for x
    using that
  proof (induction rule: reach.induct)
    case (root x)
    then show ?case by (intro disjI1 reach.root) simp
  next
    case (step x h y)
    then show ?case by (cases "x = b") (auto simp: write_get intro: reach.step)
  qed
  then show ?thesis using assms by blast
qed

lemma reach_shrinks:
  assumes "reach st x" and "shrinks st st'" and "bal w st' s" and "dying w = []"
  shows "live st' (Some x)"
  using assms(1)
proof (induction rule: reach.induct)
  case (root x)
  then show ?case using bal_live_root [OF assms(3)] rooted_shrinks [OF assms(2)] by simp
next
  case (step x h y)
  obtain h' where h': "get st' x = Some h'" "hcolor h' \<noteq> sweeper st'" using step.IH by (auto simp: live_def)
  obtain h0 where "get st x = Some h0" "h' = h0\<lparr>href := href h'\<rparr>"
    using assms(2) h'(1) unfolding shrinks_def by blast
  then have "h' = h\<lparr>href := href h'\<rparr>" using step.hyps(2) by simp
  then have "obj_ptrs h' = obj_ptrs h" by (metis obj_ptrs_href(1))
  then show ?case using bal_live_obj [OF assms(3) h'] step.hyps(3) assms(4) by simp
qed

lemma replace_ok:
  assumes "bal (Dec p # w) st s" and "dst_ok d st" and "frames_ok st" and "dying w = []"
  shows "\<exists>st'. replace d p st = Inr st' \<and> bal w st' s \<and> shrinks (write_ptr d p st) st'"
proof -
  have sl: "slot_ok {} d st" by (rule dst_slot [OF assms(1) _ assms(2)]) (simp add: assms(4))
  have b: "bal ([Dec (read_ptr d st)] @ w) (write_ptr d p st) s"
    using bal_swap [OF assms(1) _ assms(3), of d] sl assms(4) by simp
  obtain r where r: "run_work [Dec (read_ptr d st)] (write_ptr d p st) = Inr r" "bal w r s"
    "shrinks (write_ptr d p st) r"
    using run_work_keeps [OF b] by blast
  show ?thesis
  proof (cases d)
    case (InFrame f i)
    define fr where "fr = frames (write_ptr d p st)"
    have w: "write_ptr d p st = st\<lparr>frames := fr\<rparr>" by (simp add: fr_def InFrame write_ptr.simps)
    have c: "run_work [Dec (read_ptr d st)] (st\<lparr>frames := fr\<rparr>) =
        (case run_work [Dec (read_ptr d st)] st of Inl e \<Rightarrow> Inl e | Inr st' \<Rightarrow> Inr (st'\<lparr>frames := fr\<rparr>))"
      by (rule run_work_commute) (simp_all add: get_def put_def)
    obtain r0 where r0: "run_work [Dec (read_ptr d st)] st = Inr r0" "r = r0\<lparr>frames := fr\<rparr>"
      using c r(1) unfolding w by (cases "run_work [Dec (read_ptr d st)] st") auto
    have c': "run_work [Dec (read_ptr d st)] (st\<lparr>frames := frames st\<rparr>) =
        (case run_work [Dec (read_ptr d st)] st of Inl e \<Rightarrow> Inl e | Inr st' \<Rightarrow> Inr (st'\<lparr>frames := frames st\<rparr>))"
      by (rule run_work_commute) (simp_all add: get_def put_def)
    then have "frames r0 = frames st" using r0(1) by (simp) (metis hst.select_convs(2) hst.surjective hst.update_convs(2))
    then have "write_ptr d p r0 = r" by (simp add: r0(2) fr_def InFrame write_ptr.simps)
    then show ?thesis using r r0(1) by (simp add: replace_def destroy_def)
  next
    case (InBlock a k i)
    let ?f = "\<lambda>h. h\<lparr>hels := (hels h)[k := (hels h ! k)[i := Pt p]]\<rparr>"
    have rt: "reach st a" using assms(2) InBlock by simp
    obtain h where h: "get st a = Some h" using sl InBlock by auto
    define old where "old = hels h"
    let ?g = "\<lambda>h. h\<lparr>hels := old\<rparr>"
    have w: "write_ptr d p st = upd a ?f st" by (simp add: InBlock write_ptr.simps)
    have st: "upd a ?g (upd a ?f st) = st"
      using h getD [OF h] by (simp add: upd_def old_def)
    have "reach (write_ptr d p st) a" unfolding InBlock by (rule reach_write [OF rt])
    then obtain ha where ha: "get r a = Some ha"
      using reach_shrinks [OF _ r(3,2) assms(4)] by (auto simp: live_def)
    have "run_work [Dec (read_ptr d st)] (upd a ?g (upd a ?f st)) = Inr (upd a ?g r)"
      by (rule run_work_upd) (use r(1) ha in \<open>simp_all add: w\<close>)
    then have r0: "run_work [Dec (read_ptr d st)] st = Inr (upd a ?g r)" unfolding st .
    obtain n where n: "ha = ?f h\<lparr>href := n\<rparr>"
      using r(3) ha h unfolding shrinks_def w by (fastforce simp: get_upd)
    have "write_ptr d p (upd a ?g r) = r"
      using ha getD [OF ha] by (simp add: InBlock write_ptr.simps upd_def n old_def)
    then show ?thesis using r r0 by (simp add: replace_def destroy_def)
  next
    case (InTail a)
    then show ?thesis using assms(2) by simp
  qed
qed

section \<open>Colours\<close>

definition colours_ok :: "hst \<Rightarrow> bool" where
  "colours_ok st \<longleftrightarrow> mutator st < 3 \<and> marker st < 3 \<and> sweeper st < 3 \<and>
    mutator st \<noteq> marker st \<and> mutator st \<noteq> sweeper st \<and> marker st \<noteq> sweeper st \<and>
    (\<forall>a h. get st a = Some h \<longrightarrow> hcolor h \<in> {mutator st, marker st, sweeper st, propagator})"

definition marked :: "hst \<Rightarrow> nat option \<Rightarrow> bool" where
  "marked st p \<longleftrightarrow> (\<forall>a h. p = Some a \<longrightarrow> get st a = Some h \<longrightarrow> hcolor h \<in> {mutator st, propagator})"

definition ahead :: "hst \<Rightarrow> nat \<Rightarrow> bool" where
  "ahead st a \<longleftrightarrow> (case gcptr st of None \<Rightarrow> True | Some i \<Rightarrow> i \<le> a)"

text \<open>Before the first epoch change the two other colours are unused.\<close>

definition epoch_ok :: "hst \<Rightarrow> bool" where
  "epoch_ok st \<longleftrightarrow> gccolor st \<ge> 3 \<and> mutator st = gccolor st mod 3 \<and>
    (marker st = (gccolor st + 2) mod 3 \<and> sweeper st = (gccolor st + 1) mod 3 \<or>
     marker st = (gccolor st + 1) mod 3 \<and> sweeper st = (gccolor st + 2) mod 3 \<and>
     (\<forall>a h. get st a = Some h \<longrightarrow> hcolor h \<in> {mutator st, propagator}))"

text \<open>The blocks in \<open>X\<close> are being marked: they are black before their pointers are.\<close>

definition tri_but :: "nat set \<Rightarrow> hst \<Rightarrow> bool" where
  "tri_but X st \<longleftrightarrow> colours_ok st \<and> epoch_ok st \<and>
    (\<forall>p \<in> set (root_ptrs st). marked st p) \<and>
    (\<forall>a h. get st a = Some h \<longrightarrow> hcolor h = mutator st \<longrightarrow> a \<in> X \<or> (\<forall>p \<in> set (obj_ptrs h). marked st p)) \<and>
    (\<forall>a h. get st a = Some h \<longrightarrow> hcolor h = propagator \<longrightarrow> nprop st \<or> ahead st a) \<and>
    (\<forall>a h. get st a = Some h \<longrightarrow> hcolor h = sweeper st \<longrightarrow> ahead st a)"

abbreviation tri :: "hst \<Rightarrow> bool" where
  "tri \<equiv> tri_but {}"

lemma sweeper_not_grey: "tri_but X st \<Longrightarrow> sweeper st \<noteq> propagator \<and> mutator st \<noteq> propagator \<and> marker st \<noteq> propagator"
  by (auto simp: tri_but_def colours_ok_def propagator_def)

lemma marked_None [simp]: "marked st None"
  by (simp add: marked_def)

text \<open>Steps that keep the colours of the blocks and the collector's registers.\<close>

definition same_gc :: "hst \<Rightarrow> hst \<Rightarrow> bool" where
  "same_gc st st' \<longleftrightarrow> mutator st' = mutator st \<and> marker st' = marker st \<and> sweeper st' = sweeper st \<and>
    gccolor st' = gccolor st \<and> nprop st' = nprop st \<and> gcptr st' = gcptr st \<and>
    (\<forall>a h'. get st' a = Some h' \<longrightarrow> (\<exists>h. get st a = Some h \<and> hcolor h' = hcolor h))"

lemma same_gcD:
  assumes "same_gc st st'"
  shows "mutator st' = mutator st" "marker st' = marker st" "sweeper st' = sweeper st" "gccolor st' = gccolor st"
    "nprop st' = nprop st" "gcptr st' = gcptr st"
    "get st' a = Some h' \<Longrightarrow> \<exists>h. get st a = Some h \<and> hcolor h' = hcolor h"
  using assms by (auto simp: same_gc_def)

lemma marked_same: "same_gc st st' \<Longrightarrow> marked st p \<Longrightarrow> marked st' p"
  unfolding marked_def same_gc_def by metis

lemma tri_same:
  assumes "tri st" and "same_gc st st'"
    and "\<And>p. p \<in> set (root_ptrs st') \<Longrightarrow> marked st p"
    and "\<And>a h' p. get st' a = Some h' \<Longrightarrow> hcolor h' = mutator st \<Longrightarrow> p \<in> set (obj_ptrs h') \<Longrightarrow> marked st p"
  shows "tri st'"
proof -
  note g = same_gcD [OF assms(2)]
  have c: "colours_ok st" "epoch_ok st" using assms(1) by (simp_all add: tri_but_def)
  have "colours_ok st'" using c(1) g(7) unfolding colours_ok_def g(1-3) by metis
  moreover have "epoch_ok st'" using c(2) g(7) unfolding epoch_ok_def g(1-4) by metis
  moreover have "\<forall>p \<in> set (root_ptrs st'). marked st' p" using assms(3) marked_same [OF assms(2)] by blast
  moreover have "\<forall>a h. get st' a = Some h \<longrightarrow> hcolor h = mutator st' \<longrightarrow> (\<forall>p \<in> set (obj_ptrs h). marked st' p)"
    using assms(4) marked_same [OF assms(2)] unfolding g(1) by blast
  moreover have "\<forall>a h. get st' a = Some h \<longrightarrow> hcolor h = propagator \<longrightarrow> nprop st' \<or> ahead st' a"
    "\<forall>a h. get st' a = Some h \<longrightarrow> hcolor h = sweeper st' \<longrightarrow> ahead st' a"
    using assms(1) g(7) unfolding tri_but_def ahead_def g(1-6) by metis+
  ultimately show ?thesis by (simp add: tri_but_def)
qed

lemma shrinks_same_gc: "shrinks st st' \<Longrightarrow> same_gc st st'"
  unfolding shrinks_def same_gc_def by (metis hobj.select_convs(1) hobj.surjective hobj.update_convs(2))

lemma tri_shrinks:
  assumes "tri st" and "shrinks st st'"
  shows "tri st'"
proof (rule tri_same [OF assms(1) shrinks_same_gc [OF assms(2)]])
  show "p \<in> set (root_ptrs st') \<Longrightarrow> marked st p" for p
    using assms(1) rooted_shrinks [OF assms(2)] by (simp add: tri_but_def)
next
  fix a h' p
  assume g: "get st' a = Some h'" and c: "hcolor h' = mutator st" and p: "p \<in> set (obj_ptrs h')"
  obtain h where h: "get st a = Some h" "h' = h\<lparr>href := href h'\<rparr>"
    using assms(2) g unfolding shrinks_def by blast
  have "hcolor h' = hcolor h" "obj_ptrs h' = obj_ptrs h" by (subst h(2), simp)+
  then show "marked st p" using assms(1) h(1) c p by (auto simp: tri_but_def)
qed

lemma ptrs_update_subset: "set (ptrs t (ws[i := Pt p])) \<subseteq> insert p (set (ptrs t ws))"
proof
  fix q assume "q \<in> set (ptrs t (ws[i := Pt p]))"
  then obtain j where "j \<in> set (slots_from 0 t)" "q = ptr_of (ws[i := Pt p] ! j)" by (auto simp: ptrs_def)
  then show "q \<in> insert p (set (ptrs t ws))"
    by (cases "j = i"; cases "i < length ws") (auto simp: ptrs_def list_update_beyond)
qed

lemma tri_write:
  assumes "tri st" and "slot_ok D d st" and "marked st p"
  shows "tri (write_ptr d p st)"
proof (rule tri_same [OF assms(1)])
  show sg: "same_gc st (write_ptr d p st)"
    using assms(2) by (cases d) (auto simp: same_gc_def write_get split: if_splits)
  show "q \<in> set (root_ptrs (write_ptr d p st)) \<Longrightarrow> marked st q" for q
  proof -
    assume q: "q \<in> set (root_ptrs (write_ptr d p st))"
    have "q = p \<or> q \<in> set (root_ptrs st)"
    proof (cases d)
      case (InFrame f i)
      obtain t ws where fr: "frames st ! f = (t, ws)" by fastforce
      have f: "f < length (frames st)" using assms(2) InFrame by simp
      have "q \<in> set (mods st) \<or> (\<exists>(t', ws') \<in> set ((frames st)[f := (t, ws[i := Pt p])]). q \<in> set (ptrs t' ws'))"
        using q by (auto simp: root_ptrs_def InFrame write_ptr.simps fr)
      then have "q \<in> set (mods st) \<or> q \<in> set (ptrs t (ws[i := Pt p])) \<or> (\<exists>(t', ws') \<in> set (frames st). q \<in> set (ptrs t' ws'))"
        using subsetD [OF set_update_subset_insert] by fastforce
      then show ?thesis
        using ptrs_update_subset [of t ws i p] nth_mem [OF f] by (auto simp: root_ptrs_def fr)
    qed (use q in simp_all)
    then show ?thesis using assms(1,3) by (auto simp: tri_but_def)
  qed
next
  fix a h' q
  assume g: "get (write_ptr d p st) a = Some h'" and c: "hcolor h' = mutator st" and q: "q \<in> set (obj_ptrs h')"
  have old: "get st a = Some h \<Longrightarrow> hcolor h = mutator st \<Longrightarrow> q \<in> set (obj_ptrs h) \<Longrightarrow> marked st q" for h
    using assms(1) by (auto simp: tri_but_def)
  show "marked st q"
  proof (cases d)
    case (InFrame f i)
    then show ?thesis using g c q old by (simp add: write_get)
  next
    case (InBlock b k i)
    show ?thesis
    proof (cases "a = b")
      case True
      then obtain h where h: "get st b = Some h" "h' = h\<lparr>hels := (hels h)[k := (hels h ! k)[i := Pt p]]\<rparr>"
        using g by (auto simp: InBlock write_get)
      have k: "k < length (hels h)" using assms(2) h(1) InBlock by auto
      have "q = p \<or> q \<in> set (obj_ptrs h)"
      proof -
        have "q = hlink h \<or> (\<exists>ws \<in> set ((hels h)[k := (hels h ! k)[i := Pt p]]). q \<in> set (ptrs (htyp h) ws))"
          using q by (auto simp: obj_ptrs_def h(2))
        then have "q = hlink h \<or> q \<in> set (ptrs (htyp h) ((hels h ! k)[i := Pt p])) \<or>
            (\<exists>ws \<in> set (hels h). q \<in> set (ptrs (htyp h) ws))"
          using subsetD [OF set_update_subset_insert] by fastforce
        then show ?thesis
          using ptrs_update_subset [of "htyp h" "hels h ! k" i p] nth_mem [OF k] by (auto simp: obj_ptrs_def)
      qed
      then show ?thesis using old [of h] h c assms(3) True by auto
    next
      case False
      then show ?thesis using g c q old by (simp add: InBlock write_get)
    qed
  next
    case (InTail b)
    show ?thesis
    proof (cases "a = b")
      case True
      then obtain h where h: "get st b = Some h" "h' = h\<lparr>hlink := p\<rparr>"
        using g by (auto simp: InTail write_get)
      then have "q = p \<or> q \<in> set (obj_ptrs h)" using q by (auto simp: obj_ptrs_def)
      then show ?thesis using old [of h] h c assms(3) True by auto
    next
      case False
      then show ?thesis using g c q old by (simp add: InTail write_get)
    qed
  qed
qed

text \<open>Marking.\<close>

lemma put_nprop: "put a b (st\<lparr>nprop := n\<rparr>) = (put a b st)\<lparr>nprop := n\<rparr>"
  by (simp add: put_def)

lemma nprop_sel [simp]:
  "get (st\<lparr>nprop := n\<rparr>) = get st" "root_ptrs (st\<lparr>nprop := n\<rparr>) = root_ptrs st"
  "bal w (st\<lparr>nprop := n\<rparr>) s = bal w st s"
  by (simp_all add: get_def root_ptrs_def fun_eq_iff bal_def incount_def refs_def)

lemma bal_recolour:
  assumes "bal w st s" and "get st a = Some h" and "hcolor h \<noteq> sweeper st" and "c \<noteq> sweeper st"
  shows "bal w (put a (Some (h\<lparr>hcolor := c\<rparr>)) st) s"
proof -
  let ?st = "put a (Some (h\<lparr>hcolor := c\<rparr>)) st"
  have a: "a < length (arena st)" "arena st ! a = Some h" using getD [OF assms(2)] by auto
  have "own (sweeper st) D a (Some (h\<lparr>hcolor := c\<rparr>)) x = own (sweeper st) D a (arena st ! a) x" for D x
    using assms(3,4) by (simp add: own_def a(2))
  then have "held (sweeper st) D (arena ?st) x = held (sweeper st) D (arena st) x" for D x
    using held_update [OF a(1), of "sweeper st" D "Some (h\<lparr>hcolor := c\<rparr>)" x] by simp
  then have "incount w ?st x = incount w st x" for x by (simp add: incount_def)
  moreover have "refs ?st x = refs st x" for x
    using a assms(2-4) by (auto simp: refs_def)
  ultimately show ?thesis using assms a(1) by (fastforce simp: bal_def)
qed

lemma setmark_cases:
  assumes "live st p"
  shows "setmark p st = st \<and> marked st p \<or>
    (\<exists>a h. p = Some a \<and> get st a = Some h \<and> hcolor h \<noteq> sweeper st \<and> hcolor h \<noteq> mutator st \<and>
       setmark p st = (put a (Some (h\<lparr>hcolor := propagator\<rparr>)) st)\<lparr>nprop := True\<rparr>)"
  using assms by (cases p) (auto simp: setmark_def live_def marked_def split: option.splits)

lemma setmark_sel [simp]:
  "mutator (setmark p st) = mutator st" "marker (setmark p st) = marker st" "sweeper (setmark p st) = sweeper st"
  "gccolor (setmark p st) = gccolor st" "gcptr (setmark p st) = gcptr st" "frames (setmark p st) = frames st"
  "mods (setmark p st) = mods st" "gchalt (setmark p st) = gchalt st" "root_ptrs (setmark p st) = root_ptrs st"
  "length (arena (setmark p st)) = length (arena st)"
  by (auto simp: setmark_def root_ptrs_def split: option.split)

text \<open>Colours turn to grey, never back while marking, and a new grey block sets \<open>nprop\<close>.\<close>

definition dark :: "bool \<Rightarrow> nat \<Rightarrow> hobj option \<Rightarrow> hobj option \<Rightarrow> bool" where
  "dark n sw b b' \<longleftrightarrow> b' = b \<or>
    (\<exists>h. b = Some h \<and> b' = Some (h\<lparr>hcolor := propagator\<rparr>) \<and> n \<and> hcolor h \<noteq> sw)"

definition darkens :: "hst \<Rightarrow> hst \<Rightarrow> bool" where
  "darkens st st' \<longleftrightarrow>
    mutator st' = mutator st \<and> marker st' = marker st \<and> sweeper st' = sweeper st \<and> gccolor st' = gccolor st \<and>
    gcptr st' = gcptr st \<and> frames st' = frames st \<and> mods st' = mods st \<and> gchalt st' = gchalt st \<and>
    length (arena st') = length (arena st) \<and> (nprop st \<longrightarrow> nprop st') \<and>
    (\<forall>a. dark (nprop st') (sweeper st) (get st a) (get st' a))"

lemma darkens_refl [simp]: "darkens st st"
  by (simp add: darkens_def dark_def)

lemma darkensD: "darkens st st' \<Longrightarrow> dark (nprop st') (sweeper st) (get st a) (get st' a)"
  by (simp add: darkens_def)

lemma darkens_get':
  assumes "darkens st st'" and "get st' a = Some h'"
  obtains h where "get st a = Some h" "h' = h\<lparr>hcolor := hcolor h'\<rparr>"
    "hcolor h' = hcolor h \<or> hcolor h' = propagator \<and> nprop st' \<and> hcolor h \<noteq> sweeper st"
proof -
  have "get st' a = get st a \<or> (\<exists>h. get st a = Some h \<and> get st' a = Some (h\<lparr>hcolor := propagator\<rparr>) \<and>
      nprop st' \<and> hcolor h \<noteq> sweeper st)"
    using darkensD [OF assms(1), of a] by (simp add: dark_def)
  then show ?thesis
  proof
    assume "get st' a = get st a"
    then show ?thesis using assms(2) by (intro that [of h']) simp_all
  next
    assume "\<exists>h. get st a = Some h \<and> get st' a = Some (h\<lparr>hcolor := propagator\<rparr>) \<and> nprop st' \<and> hcolor h \<noteq> sweeper st"
    then show ?thesis using assms(2) by (elim exE conjE) (rule that, auto)
  qed
qed

lemma darkens_get:
  assumes "darkens st st'" and "get st a = Some h"
  obtains c where "get st' a = Some (h\<lparr>hcolor := c\<rparr>)" "c = hcolor h \<or> c = propagator \<and> nprop st' \<and> hcolor h \<noteq> sweeper st"
proof -
  have "get st' a = Some h \<or> get st' a = Some (h\<lparr>hcolor := propagator\<rparr>) \<and> nprop st' \<and> hcolor h \<noteq> sweeper st"
    using darkensD [OF assms(1), of a] assms(2) by (simp add: dark_def)
  then show ?thesis
  proof
    assume "get st' a = Some h"
    then show ?thesis by (intro that [of "hcolor h"]) simp_all
  qed (use that in blast)
qed

lemma dark_trans: "dark m sw b b1 \<Longrightarrow> dark n sw b1 b2 \<Longrightarrow> (m \<longrightarrow> n) \<Longrightarrow> dark n sw b b2"
  by (auto simp: dark_def)

lemma darkens_trans:
  assumes "darkens st st1" and "darkens st1 st2"
  shows "darkens st st2"
proof -
  have "nprop st1 \<longrightarrow> nprop st2" "sweeper st1 = sweeper st" using assms by (simp_all add: darkens_def)
  then have "dark (nprop st2) (sweeper st) (get st a) (get st2 a)" for a
    using dark_trans darkensD [OF assms(1), of a] darkensD [OF assms(2), of a] by metis
  then show ?thesis using assms unfolding darkens_def by simp
qed

lemma setmark_darkens:
  assumes "live st p"
  shows "darkens st (setmark p st)"
  using setmark_cases [OF assms]
proof (elim disjE exE conjE)
  fix a h
  assume a: "get st a = Some h" "hcolor h \<noteq> sweeper st"
    "setmark p st = (put a (Some (h\<lparr>hcolor := propagator\<rparr>)) st)\<lparr>nprop := True\<rparr>"
  then have "dark (nprop (setmark p st)) (sweeper st) (get st x) (get (setmark p st) x)" for x
    by (auto simp: dark_def)
  moreover have "nprop (setmark p st)" using a(3) by simp
  ultimately show "darkens st (setmark p st)" by (simp add: darkens_def)
qed simp_all

lemma setmark_marked:
  assumes "live st p"
  shows "marked (setmark p st) p"
  using setmark_cases [OF assms]
proof (elim disjE exE conjE)
  fix a h
  assume a: "p = Some a" "get st a = Some h"
    "setmark p st = (put a (Some (h\<lparr>hcolor := propagator\<rparr>)) st)\<lparr>nprop := True\<rparr>"
  then show "marked (setmark p st) p" using getD [OF a(2)] by (simp add: marked_def)
qed simp_all

lemma live_darkens:
  assumes "darkens st st'" and "sweeper st \<noteq> propagator" and "live st p"
  shows "live st' p"
  unfolding live_def
proof (intro allI impI)
  fix a assume "p = Some a"
  then obtain h where h: "get st a = Some h" "hcolor h \<noteq> sweeper st" using assms(3) by (auto simp: live_def)
  have sw: "sweeper st' = sweeper st" using assms(1) by (simp add: darkens_def)
  obtain c where "get st' a = Some (h\<lparr>hcolor := c\<rparr>)" "c = hcolor h \<or> c = propagator"
    using darkens_get [OF assms(1) h(1)] by blast
  then show "\<exists>h. get st' a = Some h \<and> hcolor h \<noteq> sweeper st'" using h(2) assms(2) sw by auto
qed

lemma marked_darkens:
  assumes "darkens st st'" and "marked st p"
  shows "marked st' p"
  unfolding marked_def
proof (intro allI impI)
  fix a h' assume "p = Some a" "get st' a = Some h'"
  moreover obtain h where "get st a = Some h" "hcolor h' = hcolor h \<or> hcolor h' = propagator"
    using darkens_get' [OF assms(1) \<open>get st' a = Some h'\<close>] by metis
  moreover have "mutator st' = mutator st" using assms(1) by (simp add: darkens_def)
  ultimately show "hcolor h' \<in> {mutator st', propagator}" using assms(2) by (auto simp: marked_def)
qed

lemma bal_setmark:
  assumes "bal w st s" and "live st p" and "sweeper st \<noteq> propagator"
  shows "bal w (setmark p st) s"
  using setmark_cases [OF assms(2)] assms(1,3) bal_recolour [OF assms(1)] by auto

lemma colours_darkens:
  assumes "colours_ok st" and "epoch_ok st" and "darkens st st'"
  shows "colours_ok st'" "epoch_ok st'"
proof -
  have d: "mutator st' = mutator st" "marker st' = marker st" "sweeper st' = sweeper st" "gccolor st' = gccolor st"
    using assms(3) by (auto simp: darkens_def)
  show "colours_ok st'"
    unfolding colours_ok_def d
  proof (intro conjI allI impI)
    fix a h' assume "get st' a = Some h'"
    then obtain h where "get st a = Some h" "hcolor h' = hcolor h \<or> hcolor h' = propagator"
      using darkens_get' [OF assms(3)] by metis
    moreover from this have "hcolor h \<in> {mutator st, marker st, sweeper st, propagator}"
      using assms(1) unfolding colours_ok_def by blast
    ultimately show "hcolor h' \<in> {mutator st, marker st, sweeper st, propagator}" by auto
  qed (use assms(1) in \<open>simp_all add: colours_ok_def\<close>)
  show "epoch_ok st'"
  proof -
    have "hcolor h' \<in> {mutator st, propagator}"
      if "\<forall>a h. get st a = Some h \<longrightarrow> hcolor h \<in> {mutator st, propagator}" "get st' a = Some h'" for a h'
      using darkens_get' [OF assms(3) that(2)] that(1) by (metis insertCI)
    then show ?thesis using assms(2) unfolding epoch_ok_def d by blast
  qed
qed

lemma tri_darkens:
  assumes "tri_but X st" and "darkens st st'"
  shows "tri_but X st'"
proof -
  have d: "mutator st' = mutator st" "marker st' = marker st" "sweeper st' = sweeper st" "gccolor st' = gccolor st"
    "gcptr st' = gcptr st" "root_ptrs st' = root_ptrs st" "nprop st \<Longrightarrow> nprop st'"
    using assms(2) by (auto simp: darkens_def root_ptrs_def)
  have c: "colours_ok st" "epoch_ok st" using assms(1) by (simp_all add: tri_but_def)
  note colours_darkens [OF c assms(2)]
  moreover have "\<forall>p \<in> set (root_ptrs st'). marked st' p"
    using assms(1) marked_darkens [OF assms(2)] unfolding tri_but_def d by blast
  moreover have "marked st' p"
    if g: "get st' a = Some h'" "hcolor h' = mutator st'" "a \<notin> X" "p \<in> set (obj_ptrs h')" for a h' p
  proof -
    obtain h where h: "get st a = Some h" "h' = h\<lparr>hcolor := hcolor h'\<rparr>" "hcolor h' = hcolor h \<or> hcolor h' = propagator"
      using darkens_get' [OF assms(2) g(1)] by metis
    have "hcolor h = mutator st" using h(3) g(2) sweeper_not_grey [OF assms(1)] d(1) by auto
    moreover have "obj_ptrs h' = obj_ptrs h" by (subst h(2)) simp
    ultimately have "marked st p" using assms(1) h(1) g(3,4) by (auto simp: tri_but_def)
    then show ?thesis by (rule marked_darkens [OF assms(2)])
  qed
  moreover have "nprop st' \<or> ahead st' a" if g: "get st' a = Some h'" "hcolor h' = propagator" for a h'
    using darkens_get' [OF assms(2) g(1)] assms(1) g(2) d(7) unfolding tri_but_def ahead_def d(5) by metis
  moreover have "ahead st' a" if g: "get st' a = Some h'" "hcolor h' = sweeper st'" for a h'
    using darkens_get' [OF assms(2) g(1)] assms(1) g(2) sweeper_not_grey [OF assms(1)]
    unfolding tri_but_def ahead_def d(3,5) by metis
  ultimately show ?thesis unfolding tri_but_def by blast
qed

end
