(* ===== verification/HeapGC.thy ===== *)
theory HeapGC
  imports HeapInv
begin

text \<open>
  Every pointer instruction and every call of the collector keeps the heap safe: nothing reachable
  is freed, by \<open>destroy\<close> or by the sweep. The exception is \<open>slicea\<close>.
\<close>

section \<open>The invariant\<close>

text \<open>A slice has the element type of the array it is of; condemned blocks apart.\<close>

definition slices_ok :: "hst \<Rightarrow> bool" where
  "slices_ok st \<longleftrightarrow> (\<forall>a h r rh. get st a = Some h \<longrightarrow> hcolor h \<noteq> sweeper st \<longrightarrow> hkind h = KArray \<longrightarrow>
     hlink h = Some r \<longrightarrow> get st r = Some rh \<longrightarrow> hcolor rh \<noteq> sweeper st \<longrightarrow> htyp rh = htyp h)"

definition heap_ok :: "hst \<Rightarrow> bool" where
  "heap_ok st \<longleftrightarrow> (\<exists>s. bal [] st s) \<and> tri st \<and> frames_ok st \<and> slices_ok st"

fun src_ok :: "loc \<Rightarrow> hst \<Rightarrow> bool" where
  "src_ok (InFrame f i) st \<longleftrightarrow> f < length (frames st) \<and> i \<in> set (slots_from 0 (fst (frames st ! f)))"
| "src_ok (InBlock a k i) st \<longleftrightarrow> reach st a \<and>
     (\<forall>h. get st a = Some h \<longrightarrow> k < length (hels h) \<and> i \<in> set (slots_from 0 (htyp h)))"
| "src_ok (InTail a) st \<longleftrightarrow> reach st a"

lemma frame_slot_root:
  assumes "f < length (frames st)" and "i \<in> set (slots_from 0 (fst (frames st ! f)))"
  shows "read_ptr (InFrame f i) st \<in> set (root_ptrs st)"
proof -
  obtain t ws where fr: "frames st ! f = (t, ws)" by fastforce
  have "(t, ws) \<in> set (frames st)" using nth_mem [OF assms(1)] by (simp add: fr)
  moreover have "ptr_of (ws ! i) \<in> set (ptrs t ws)" using assms(2) by (simp add: ptrs_def fr)
  ultimately show ?thesis by (auto simp: root_ptrs_def fr)
qed

lemma dst_src: "dst_ok d st \<Longrightarrow> src_ok d st"
  by (cases d) auto

lemma slot_obj_ptrs:
  "k < length (hels h) \<Longrightarrow> i \<in> set (slots_from 0 (htyp h)) \<Longrightarrow> ptr_of (hels h ! k ! i) \<in> set (obj_ptrs h)"
  by (auto simp: obj_ptrs_def ptrs_def intro!: bexI [of _ "hels h ! k"])

lemma src_live:
  assumes "bal [] st s" and "src_ok l st"
  shows "live st (read_ptr l st)"
proof (cases l)
  case (InFrame f i)
  then show ?thesis using frame_slot_root [of f st i] bal_live_root [OF assms(1)] assms(2) by simp
next
  case (InBlock a k i)
  then have "live st (Some a)" using reach_live assms by simp
  then obtain h where h: "get st a = Some h" "hcolor h \<noteq> sweeper st" by (auto simp: live_def)
  then have "k < length (hels h)" "i \<in> set (slots_from 0 (htyp h))" using assms(2) InBlock by auto
  then have "ptr_of (hels h ! k ! i) \<in> set (obj_ptrs h)" by (rule slot_obj_ptrs)
  then show ?thesis using bal_live_obj [OF assms(1) h] by (simp add: InBlock h(1))
next
  case (InTail a)
  then have "live st (Some a)" using reach_live assms by simp
  then obtain h where h: "get st a = Some h" "hcolor h \<noteq> sweeper st" by (auto simp: live_def)
  then show ?thesis using bal_live_obj [OF assms(1) h] by (simp add: InTail obj_ptrs_def)
qed

lemma frames_ok_write:
  assumes "frames_ok st"
  shows "frames_ok (write_ptr d p st)"
proof (cases d)
  case (InFrame f i)
  obtain t ws where fr: "frames st ! f = (t, ws)" by fastforce
  have e: "frames (write_ptr d p st) = (frames st)[f := (t, ws[i := Pt p])]"
    by (simp add: InFrame write_ptr.simps fr)
  show ?thesis
  proof (cases "f < length (frames st)")
    case True
    have "(t, ws) \<in> set (frames st)" using nth_mem [OF True] by (simp add: fr)
    then have l: "\<forall>i \<in> set (slots_from 0 t). i < length (ws[i := Pt p])" using assms by (auto simp: frames_ok_def)
    have sub: "set (frames (write_ptr d p st)) \<subseteq> insert (t, ws[i := Pt p]) (set (frames st))"
      unfolding e by (rule set_update_subset_insert)
    show ?thesis
      unfolding frames_ok_def
    proof
      fix x assume "x \<in> set (frames (write_ptr d p st))"
      then have "x = (t, ws[i := Pt p]) \<or> x \<in> set (frames st)"
        using sub by auto
      then show "case x of (t, ws) \<Rightarrow> \<forall>i \<in> set (slots_from 0 t). i < length ws"
        using l assms by (auto simp: frames_ok_def)
    qed
  next
    case False
    then show ?thesis using assms by (simp add: e frames_ok_def list_update_beyond)
  qed
qed (use assms in \<open>simp_all add: frames_ok_def write_ptr.simps upd_def\<close>)

lemma frames_ok_eq: "frames_ok st \<Longrightarrow> frames st' = frames st \<Longrightarrow> frames_ok st'"
  by (simp add: frames_ok_def)

section \<open>Slices and their arrays\<close>

definition fam :: "hst \<Rightarrow> hst \<Rightarrow> bool" where
  "fam st st' \<longleftrightarrow> sweeper st' = sweeper st \<and>
    (\<forall>x h'. get st' x = Some h' \<longrightarrow> hcolor h' \<noteq> sweeper st \<longrightarrow>
      (\<exists>h. get st x = Some h \<and> hcolor h \<noteq> sweeper st \<and> htyp h' = htyp h \<and>
        (hkind h' = KArray \<longrightarrow> hkind h = KArray \<and> hlink h' = hlink h)))"

lemma slices_fam:
  assumes "slices_ok st" and "fam st st'"
  shows "slices_ok st'"
  unfolding slices_ok_def
proof (intro allI impI)
  fix a h' r rh'
  assume g: "get st' a = Some h'" "hcolor h' \<noteq> sweeper st'" "hkind h' = KArray" "hlink h' = Some r"
    "get st' r = Some rh'" "hcolor rh' \<noteq> sweeper st'"
  have sw: "sweeper st' = sweeper st" using assms(2) by (simp add: fam_def)
  obtain h where h: "get st a = Some h" "hcolor h \<noteq> sweeper st" "htyp h' = htyp h" "hkind h = KArray" "hlink h = Some r"
    using assms(2) g(1-4) unfolding fam_def sw by metis
  obtain rh where "get st r = Some rh" "hcolor rh \<noteq> sweeper st" "htyp rh' = htyp rh"
    using assms(2) g(5,6) unfolding fam_def sw by metis
  then show "htyp rh' = htyp h'" using assms(1) h unfolding slices_ok_def by metis
qed

lemma fam_shrinks:
  assumes "shrinks st st'"
  shows "fam st st'"
  unfolding fam_def
proof (intro conjI allI impI)
  fix x h' assume g: "get st' x = Some h'" "hcolor h' \<noteq> sweeper st"
  obtain h where h: "get st x = Some h" "h' = h\<lparr>href := href h'\<rparr>"
    using assms g(1) unfolding shrinks_def by blast
  have "hcolor h' = hcolor h" "htyp h' = htyp h" "hkind h' = hkind h" "hlink h' = hlink h" by (subst h(2), simp)+
  then show "\<exists>h. get st x = Some h \<and> hcolor h \<noteq> sweeper st \<and> htyp h' = htyp h \<and>
      (hkind h' = KArray \<longrightarrow> hkind h = KArray \<and> hlink h' = hlink h)" using h(1) g(2) by auto
qed (use assms in \<open>simp add: shrinks_def\<close>)

lemma fam_darkens:
  assumes "darkens st st'"
  shows "fam st st'"
  unfolding fam_def
proof (intro conjI allI impI)
  fix x h' assume g: "get st' x = Some h'" "hcolor h' \<noteq> sweeper st"
  obtain h where h: "get st x = Some h" "h' = h\<lparr>hcolor := hcolor h'\<rparr>"
    "hcolor h' = hcolor h \<or> hcolor h' = propagator \<and> nprop st' \<and> hcolor h \<noteq> sweeper st"
    by (rule darkens_get' [OF assms g(1)])
  have "htyp h' = htyp h" "hkind h' = hkind h" "hlink h' = hlink h" by (subst h(2), simp)+
  then show "\<exists>h. get st x = Some h \<and> hcolor h \<noteq> sweeper st \<and> htyp h' = htyp h \<and>
      (hkind h' = KArray \<longrightarrow> hkind h = KArray \<and> hlink h' = hlink h)" using h(1,3) g(2) by auto
qed (use assms in \<open>simp add: darkens_def\<close>)

lemma fam_write: "(\<And>a. d \<noteq> InTail a) \<Longrightarrow> fam st (write_ptr d p st)"
  by (cases d) (auto simp: fam_def write_get)

lemma fam_put: "get st a = Some h \<Longrightarrow> fam st (put a (Some (h\<lparr>href := n\<rparr>)) st)" "fam st (put a None st)"
  by (auto simp: fam_def)

section \<open>Instructions\<close>

text \<open>Taking a reference: the count goes up and the block is marked.\<close>

lemma bal_inc:
  assumes "bal w st s" and "get st a = Some h" and "hcolor h \<noteq> sweeper st" and "a \<notin> set (dying w)"
  shows "bal (Dec (Some a) # w) (put a (Some (h\<lparr>href := href h + 1\<rparr>)) st) s"
proof -
  let ?st = "put a (Some (h\<lparr>href := href h + 1\<rparr>)) st"
  have a: "a < length (arena st)" using getD [OF assms(2)] by simp
  have "held (sweeper st) D (arena ?st) x = held (sweeper st) D (arena st) x" for D x
    by (rule held_same [OF assms(2)]) simp_all
  then have "incount (Dec (Some a) # w) ?st x = incount w st x + of_bool (x = a)" for x
    by (simp add: incount_def)
  moreover have "refs ?st x = refs st x + of_bool (x = a)" for x
    using a assms(2,3) by (auto simp: refs_def)
  moreover have "incount w st x + s x = refs st x" for x using assms(1) by (simp add: bal_def)
  ultimately have "incount (Dec (Some a) # w) ?st x + s x = refs ?st x" for x by (metis add.assoc add.commute)
  then show ?thesis using assms(1,2,4) by (auto simp: bal_def)
qed

lemma tri_href:
  assumes "tri st" and "get st a = Some h"
  shows "tri (put a (Some (h\<lparr>href := n\<rparr>)) st)"
proof (rule tri_same [OF assms(1)])
  show "same_gc st (put a (Some (h\<lparr>href := n\<rparr>)) st)" using assms(2) by (auto simp: same_gc_def)
next
  fix b h' p
  assume "get (put a (Some (h\<lparr>href := n\<rparr>)) st) b = Some h'" "hcolor h' = mutator st" "p \<in> set (obj_ptrs h')"
  then show "marked st p"
    using assms by (cases "b = a") (auto simp: tri_but_def split: if_splits)
qed (use assms(1) in \<open>simp add: tri_but_def\<close>)

text \<open>States with the same pointers, whatever the colours and counts.\<close>

definition shape :: "hobj \<Rightarrow> tmap \<times> word list list \<times> nat option \<times> kind \<times> nat \<times> nat" where
  "shape h = (htyp h, hels h, hlink h, hkind h, hlen h, hoff h)"

definition same_shape :: "hst \<Rightarrow> hst \<Rightarrow> bool" where
  "same_shape st st' \<longleftrightarrow> frames st' = frames st \<and> mods st' = mods st \<and> length (arena st') = length (arena st) \<and>
    (\<forall>x. map_option shape (get st' x) = map_option shape (get st x))"

lemma same_shape_root: "same_shape st st' \<Longrightarrow> root_ptrs st' = root_ptrs st"
  by (simp add: same_shape_def root_ptrs_def)

lemma same_shape_get:
  assumes "same_shape st st'"
  shows "get st' x = None \<longleftrightarrow> get st x = None"
    and "get st' x = Some h' \<Longrightarrow> get st x = Some h \<Longrightarrow> shape h' = shape h"
proof -
  have "map_option shape (get st' x) = map_option shape (get st x)" using assms by (simp add: same_shape_def)
  then show "get st' x = None \<longleftrightarrow> get st x = None" "get st' x = Some h' \<Longrightarrow> get st x = Some h \<Longrightarrow> shape h' = shape h"
    by (cases "get st' x"; cases "get st x"; simp)+
qed

lemma same_shape_trans: "same_shape st st1 \<Longrightarrow> same_shape st1 st2 \<Longrightarrow> same_shape st st2"
  by (simp add: same_shape_def)

lemma same_shape_refl [simp]: "same_shape st st"
  by (simp add: same_shape_def)

lemma same_shape_put:
  assumes "get st a = Some h" and "shape h' = shape h"
  shows "same_shape st (put a (Some h') st)"
  using assms by (auto simp: same_shape_def)

lemma same_shape_darkens:
  assumes "darkens st st'"
  shows "same_shape st st'"
proof -
  have "map_option shape (get st' x) = map_option shape (get st x)" for x
    using darkensD [OF assms, of x] by (auto simp: dark_def shape_def)
  then show ?thesis using assms by (simp add: same_shape_def darkens_def)
qed

lemma same_shape_Some:
  assumes "same_shape st st'" and "get st x = Some h"
  obtains h' where "get st' x = Some h'" "htyp h' = htyp h" "hels h' = hels h" "hlink h' = hlink h"
    "hkind h' = hkind h" "hlen h' = hlen h" "hoff h' = hoff h"
proof -
  obtain h' where h': "get st' x = Some h'" using same_shape_get(1) [OF assms(1), of x] assms(2) by auto
  then show ?thesis using same_shape_get(2) [OF assms(1) h' assms(2)] that by (simp add: shape_def)
qed

lemma reach_shape:
  assumes "same_shape st st'"
  shows "reach st a \<Longrightarrow> reach st' a"
proof (induction rule: reach.induct)
  case (root a)
  then show ?case by (intro reach.root) (simp add: same_shape_root [OF assms])
next
  case (step a h b)
  obtain h' where h': "get st' a = Some h'" "htyp h' = htyp h" "hels h' = hels h" "hlink h' = hlink h"
    by (rule same_shape_Some [OF assms step.hyps(2)])
  then have "Some b \<in> set (obj_ptrs h')" using step.hyps(3) by (simp add: obj_ptrs_def)
  then show ?case by (rule reach.step [OF step.IH h'(1)])
qed

lemma shape_dst:
  assumes "same_shape st st'"
  shows "dst_ok d st \<Longrightarrow> dst_ok d st'" "read_ptr l st' = read_ptr l st"
proof -
  have fr: "frames st' = frames st" using assms by (simp add: same_shape_def)
  show "dst_ok d st'" if "dst_ok d st"
  proof (cases d)
    case (InBlock a k i)
    show ?thesis
    proof (cases "get st a")
      case None
      then have "get st' a = None" using same_shape_get(1) [OF assms] by simp
      then show ?thesis using that reach_shape [OF assms] by (simp add: InBlock)
    next
      case (Some h)
      obtain h' where "get st' a = Some h'" "htyp h' = htyp h" "hels h' = hels h"
        by (rule same_shape_Some [OF assms Some])
      then show ?thesis using that Some reach_shape [OF assms] by (simp add: InBlock)
    qed
  qed (use that in \<open>simp_all add: fr\<close>)
  have hd: "read_ptr l st' = read_ptr l st" if "l = InBlock a k i \<or> l = InTail a" for a k i
  proof (cases "get st a")
    case None
    then have "get st' a = None" using same_shape_get(1) [OF assms] by simp
    then show ?thesis using that None by auto
  next
    case (Some h)
    obtain h' where "get st' a = Some h'" "hels h' = hels h" "hlink h' = hlink h"
      by (rule same_shape_Some [OF assms Some])
    then show ?thesis using that Some by auto
  qed
  show "read_ptr l st' = read_ptr l st"
  proof (cases l)
    case (InFrame f i)
    then show ?thesis by (simp add: fr)
  next
    case (InBlock a k i)
    then show ?thesis using hd by blast
  next
    case (InTail a)
    then show ?thesis using hd by blast
  qed
qed

lemma slot_darkens:
  assumes "darkens st st'" and "sweeper st \<noteq> propagator" and "slot_ok D d st"
  shows "slot_ok D d st'" "read_ptr d st' = read_ptr d st"
proof -
  have sw: "sweeper st' = sweeper st" and fr: "frames st' = frames st" using assms(1) by (simp_all add: darkens_def)
  have c: "\<exists>c. get st' b = Some (h\<lparr>hcolor := c\<rparr>) \<and> c \<noteq> sweeper st" if "get st b = Some h" "hcolor h \<noteq> sweeper st" for b h
    using darkens_get [OF assms(1) that(1)] that(2) assms(2) by metis
  show "slot_ok D d st'"
  proof (cases d)
    case (InBlock b k i)
    then obtain h where h: "get st b = Some h" "hcolor h \<noteq> sweeper st" "b \<notin> D" "k < length (hels h)"
      "i \<in> set (slots_from 0 (htyp h))" using assms(3) by auto
    then show ?thesis using c [OF h(1,2)] InBlock sw by auto
  next
    case (InTail b)
    then obtain h where h: "get st b = Some h" "hcolor h \<noteq> sweeper st" "b \<notin> D"
      "hkind h = KList \<or> hkind h = KArray \<and> hels h = []" using assms(3) by auto
    then show ?thesis using c [OF h(1,2)] InTail sw by auto
  qed (use assms(3) fr in simp_all)
  show "read_ptr d st' = read_ptr d st" by (rule shape_dst(2) [OF same_shape_darkens [OF assms(1)]])
qed

lemma incref_ok:
  assumes "bal w st s" and "tri st" and "live st p" and "dying w = []"
  obtains st' where "incref p st = Inr st'" "bal (Dec p # w) st' s" "tri st'" "marked st' p"
    "same_shape st st'" "\<And>x. marked st x \<Longrightarrow> marked st' x" "mutator st' = mutator st"
    "\<And>D d. slot_ok D d st \<Longrightarrow> slot_ok D d st'" "slices_ok st \<Longrightarrow> slices_ok st'"
proof (cases p)
  case None
  have "bal (Dec None # w) st s" using assms(1) by (simp add: bal_def incount_def)
  then show ?thesis using None assms(2) that [of st] by (simp add: incref_def)
next
  case (Some a)
  obtain h where h: "get st a = Some h" "hcolor h \<noteq> sweeper st" using assms(3) Some by (auto simp: live_def)
  define st1 where "st1 = put a (Some (h\<lparr>href := href h + 1\<rparr>)) st"
  have a: "a < length (arena st)" using getD [OF h(1)] by simp
  have b: "bal (Dec (Some a) # w) st1 s" unfolding st1_def by (rule bal_inc [OF assms(1) h]) (simp add: assms(4))
  have t: "tri st1" unfolding st1_def by (rule tri_href [OF assms(2) h(1)])
  have l: "live st1 (Some a)" using h a by (simp add: live_def st1_def)
  have d: "darkens st1 (setmark (Some a) st1)" by (rule setmark_darkens [OF l])
  have sg: "same_gc st st1" using h(1) by (auto simp: same_gc_def st1_def)
  have sh: "same_shape st st1" unfolding st1_def by (rule same_shape_put [OF h(1)]) (simp add: shape_def)
  show ?thesis
  proof (rule that)
    show "incref p st = Inr (setmark (Some a) st1)" using h(1) by (simp add: incref_def Some st1_def)
    show "bal (Dec p # w) (setmark (Some a) st1) s"
      unfolding Some using bal_setmark [OF b l] sweeper_not_grey [OF t] by blast
    show "marked st x \<Longrightarrow> marked (setmark (Some a) st1) x" for x
      using marked_darkens [OF d] marked_same [OF sg] by blast
    show "slices_ok (setmark (Some a) st1)" if "slices_ok st"
      by (intro slices_fam [OF _ fam_darkens [OF d]] slices_fam [OF that])
        (simp add: st1_def fam_put(1) [OF h(1)])
    show "slot_ok D d (setmark (Some a) st1)" if "slot_ok D d st" for D d
    proof (rule slot_darkens(1) [OF \<open>darkens st1 (setmark (Some a) st1)\<close>])
      show "sweeper st1 \<noteq> propagator" using sweeper_not_grey [OF t] by blast
      show "slot_ok D d st1" using that h(1) a by (cases d) (auto simp: st1_def)
    qed
  qed (use tri_darkens [OF t d] setmark_marked [OF l] same_shape_trans [OF sh same_shape_darkens [OF d]] in
      \<open>simp_all add: Some st1_def\<close>)
qed

lemma finish_ok:
  assumes "bal (Dec p # w) st s" and "tri st" and "frames_ok st" and "dst_ok d st" and "marked st p" and "dying w = []"
  obtains st' where "replace d p st = Inr st'" "bal w st' s" "tri st'" "frames_ok st'" "shrinks (write_ptr d p st) st'"
    "slices_ok st \<Longrightarrow> slices_ok st'"
proof -
  have sl: "slot_ok {} d st" by (rule dst_slot [OF assms(1) _ assms(4)]) (simp add: assms(6))
  obtain st' where r: "replace d p st = Inr st'" "bal w st' s" "shrinks (write_ptr d p st) st'"
    using replace_ok [OF assms(1,4,3,6)] by blast
  have "frames_ok st'" using frames_ok_write [OF assms(3)] r(3) by (auto simp: shrinks_def intro: frames_ok_eq)
  moreover have "slices_ok st'" if "slices_ok st"
  proof (rule slices_fam [OF slices_fam [OF that] fam_shrinks [OF r(3)]])
    show "fam st (write_ptr d p st)" by (rule fam_write) (use assms(4) in \<open>cases d; simp\<close>)
  qed
  ultimately show ?thesis using that [OF r(1,2) _ _ r(3)] tri_shrinks [OF tri_write [OF assms(2) sl assms(5)] r(3)] by blast
qed

lemma movp_ok:
  assumes "heap_ok st" and "src_ok l st" and "dst_ok d st"
  shows "\<exists>st'. movp l d st = Inr st' \<and> heap_ok st'"
proof -
  obtain s where b: "bal [] st s" and t: "tri st" and f: "frames_ok st" and sl: "slices_ok st"
    using assms(1) by (auto simp: heap_ok_def)
  have lv: "live st (read_ptr l st)" by (rule src_live [OF b assms(2)])
  obtain st1 where i: "incref (read_ptr l st) st = Inr st1" "bal [Dec (read_ptr l st)] st1 s" "tri st1"
    "marked st1 (read_ptr l st)" "same_shape st st1" "slices_ok st1"
    by (rule incref_ok [OF b t lv]) (simp_all add: sl)
  have f1: "frames_ok st1" using f i(5) by (auto simp: same_shape_def intro: frames_ok_eq)
  obtain st' where "replace d (read_ptr l st) st1 = Inr st'" "bal [] st' s" "tri st'" "frames_ok st'"
    "slices_ok st'"
    by (rule finish_ok [OF i(2,3) f1 shape_dst(1) [OF i(5) assms(3)] i(4)]) (simp_all add: i(6))
  then show ?thesis using i(1) by (auto simp: movp_def Let_def heap_ok_def)
qed

text \<open>A new block takes over the references in hand that it stores.\<close>

definition room :: "nat \<Rightarrow> hst \<Rightarrow> bool" where
  "room a st \<longleftrightarrow> a \<le> length (arena st) \<and> get st a = None"

lemma place_get [simp]: "room a st \<Longrightarrow> get (place a h st) x = (if x = a then Some h else get st x)"
  by (auto simp: place_def room_def get_def put_def nth_append)

lemma place_sel [simp]:
  "frames (place a h st) = frames st" "mods (place a h st) = mods st" "mutator (place a h st) = mutator st"
  "marker (place a h st) = marker st" "sweeper (place a h st) = sweeper st" "gccolor (place a h st) = gccolor st"
  "nprop (place a h st) = nprop st" "gcptr (place a h st) = gcptr st" "root_ptrs (place a h st) = root_ptrs st"
  by (simp_all add: place_def root_ptrs_def)

lemma held_append: "held sw D (ar @ [b]) x = held sw D ar x + own sw D (length ar) b x"
  by (simp add: held_def nth_append)

lemma held_place:
  assumes "room a st" and "a \<notin> D" and "hcolor h \<noteq> sw"
  shows "held sw D (arena (place a h st)) x = held sw D (arena st) x + cnt (obj_ptrs h) x"
proof (cases "a < length (arena st)")
  case True
  then have "arena st ! a = None" using assms(1) by (simp add: room_def get_def)
  then show ?thesis using True assms held_update [OF True, of sw D "Some h" x] by (simp add: place_def own_def)
next
  case False
  then have "a = length (arena st)" using assms(1) by (simp add: room_def)
  then show ?thesis using assms(2,3) by (simp add: place_def held_append own_def)
qed

lemma bal_place:
  assumes "bal (v @ w) st s" and "dying (v @ w) = []" and "room a st" and "href h = 1" and "hcolor h \<noteq> sweeper st"
    and "wf_obj h" and "\<And>x. cnt (work_ptrs v) x = cnt (obj_ptrs h) x"
  shows "bal (Dec (Some a) # w) (place a h st) s"
proof -
  have "incount (Dec (Some a) # w) (place a h st) x = incount (v @ w) st x + of_bool (x = a)" for x
    using held_place [OF assms(3) _ assms(5), of "{}" x] assms(2,7) by (simp add: incount_def)
  moreover have "refs (place a h st) x = refs st x + of_bool (x = a)" for x
    using assms(3-5) by (auto simp: refs_def room_def)
  moreover have "incount (v @ w) st x + s x = refs st x" for x using assms(1) by (simp add: bal_def)
  ultimately have "incount (Dec (Some a) # w) (place a h st) x + s x = refs (place a h st) x" for x
    by (metis add.assoc add.commute)
  then show ?thesis using assms(1-3,6) by (auto simp: bal_def)
qed

lemma tri_place:
  assumes "tri st" and "room a st" and "hcolor h = mutator st" and "\<And>p. p \<in> set (obj_ptrs h) \<Longrightarrow> marked st p"
  shows "tri (place a h st)"
proof -
  have m: "marked st p \<Longrightarrow> marked (place a h st) p" for p
    using assms(2,3) by (auto simp: marked_def)
  have c: "colours_ok st" "epoch_ok st" using assms(1) by (simp_all add: tri_but_def)
  have "colours_ok (place a h st)" using c(1) assms(2,3) by (auto simp: colours_ok_def)
  moreover have "epoch_ok (place a h st)"
  proof -
    have "\<forall>b k. get (place a h st) b = Some k \<longrightarrow> hcolor k \<in> {mutator st, propagator}"
      if "\<forall>b k. get st b = Some k \<longrightarrow> hcolor k \<in> {mutator st, propagator}"
      using that assms(2,3) by simp
    then show ?thesis using c(2) unfolding epoch_ok_def place_sel by blast
  qed
  moreover have "\<forall>p \<in> set (root_ptrs (place a h st)). marked (place a h st) p"
    using assms(1) m by (simp add: tri_but_def)
  moreover have "\<forall>b h'. get (place a h st) b = Some h' \<longrightarrow> hcolor h' = mutator (place a h st) \<longrightarrow>
      (\<forall>p \<in> set (obj_ptrs h'). marked (place a h st) p)"
  proof (intro allI impI ballI)
    fix b h' p
    assume "get (place a h st) b = Some h'" "hcolor h' = mutator (place a h st)" "p \<in> set (obj_ptrs h')"
    then have "marked st p" using assms(1,2,4) by (cases "b = a") (auto simp: tri_but_def)
    then show "marked (place a h st) p" by (rule m)
  qed
  moreover have "\<forall>b h'. get (place a h st) b = Some h' \<longrightarrow> hcolor h' = propagator \<longrightarrow>
      nprop (place a h st) \<or> ahead (place a h st) b"
    "\<forall>b h'. get (place a h st) b = Some h' \<longrightarrow> hcolor h' = sweeper (place a h st) \<longrightarrow> ahead (place a h st) b"
    using assms(1,2,3) sweeper_not_grey [OF assms(1)] c(1)
    by (auto simp: tri_but_def ahead_def colours_ok_def split: option.splits)
  ultimately show ?thesis by (simp add: tri_but_def)
qed

lemma reach_place:
  assumes "room a st"
  shows "reach st x \<Longrightarrow> reach (place a h st) x"
proof (induction rule: reach.induct)
  case (root x)
  then show ?case by (intro reach.root) simp
next
  case (step x k y)
  have "get (place a h st) x = Some k" using step.hyps(2) assms by (auto simp: room_def)
  then show ?case by (rule reach.step [OF step.IH _ step.hyps(3)])
qed

lemma slices_place:
  assumes "slices_ok st" and "bal w st s" and "dying w = []" and "room a st" and "hkind h = KArray \<longrightarrow> hlink h = None"
  shows "slices_ok (place a h st)"
  unfolding slices_ok_def
proof (intro allI impI)
  fix b k r rk
  assume g: "get (place a h st) b = Some k" "hcolor k \<noteq> sweeper (place a h st)" "hkind k = KArray" "hlink k = Some r"
    "get (place a h st) r = Some rk" "hcolor rk \<noteq> sweeper (place a h st)"
  then have "b \<noteq> a" using assms(4,5) by auto
  then have k: "get st b = Some k" "hcolor k \<noteq> sweeper st" using g assms(4) by simp_all
  have "live st (Some r)" by (rule bal_live_obj [OF assms(2) k]) (simp_all add: assms(3) obj_ptrs_def g(4))
  then have "r \<noteq> a" using assms(4) by (auto simp: live_def room_def)
  then show "htyp rk = htyp k" using assms(1,4) k g unfolding slices_ok_def by simp
qed

lemma dst_ok_place:
  assumes "dst_ok d st" and "room a st" and "bal w st s" and "dying w = []"
  shows "dst_ok d (place a h st)" "read_ptr d (place a h st) = read_ptr d st"
proof -
  have ne: "b \<noteq> a" if r: "reach st b" for b
    using reach_live [OF r assms(3,4)] assms(2) by (auto simp: room_def live_def)
  show "dst_ok d (place a h st)"
  proof (cases d)
    case (InBlock b k i)
    then show ?thesis using assms(1,2) ne [of b] reach_place [OF assms(2)] by simp
  qed (use assms(1) in simp_all)
  show "read_ptr d (place a h st) = read_ptr d st"
  proof (cases d)
    case (InBlock b k i)
    then show ?thesis using assms(1,2) ne [of b] by simp
  qed (use assms(1) in simp_all)
qed

lemma initmem_slots:
  assumes "\<forall>i \<in> set (slots_from 0 t). i < length ws"
  shows "length (initmem t ws) = length ws" "i \<in> set (slots_from 0 t) \<Longrightarrow> initmem t ws ! i = Pt None"
proof -
  have g: "length (fold (\<lambda>i ws. ws[i := Pt None]) is ws) = length ws \<and>
      (\<forall>i. (i \<in> set is \<or> ws ! i = Pt None) \<longrightarrow> i < length ws \<longrightarrow> fold (\<lambda>i ws. ws[i := Pt None]) is ws ! i = Pt None)"
    for "is" and ws :: "word list"
  proof (induction "is" arbitrary: ws)
    case (Cons j js)
    have h: "ws ! i = Pt None \<or> i = j \<and> j < length ws \<Longrightarrow> ws[j := Pt None] ! i = Pt None" for i
      by (cases "i = j"; cases "j < length ws") (auto simp: list_update_beyond)
    show ?case using Cons [of "ws[j := Pt None]"] h by auto
  qed simp
  show "length (initmem t ws) = length ws" using g [of "slots_from 0 t" ws] by (simp add: initmem_def)
  show "i \<in> set (slots_from 0 t) \<Longrightarrow> initmem t ws ! i = Pt None"
    using g [of "slots_from 0 t" ws] assms by (simp add: initmem_def)
qed

lemma ptrs_initmem:
  "\<forall>i \<in> set (slots_from 0 t). i < length ws \<Longrightarrow> ptrs t (initmem t ws) = replicate (length (slots_from 0 t)) None"
  by (auto simp: ptrs_def initmem_slots(2) map_replicate_const [symmetric] intro: map_cong)

lemma cnt_replicate_None [simp]: "cnt (replicate n None) x = 0"
  by (induction n) auto


lemma alloc_ok:
  assumes "heap_ok st" and "room a st" and "href h = 1" and "hcolor h = mutator st" and "wf_obj h"
    and "\<And>p. p \<in> set (obj_ptrs h) \<Longrightarrow> p = None" and "dst_ok d st" and "hkind h = KArray \<longrightarrow> hlink h = None"
  shows "\<exists>st'. replace d (Some a) (place a h st) = Inr st' \<and> heap_ok st'"
proof -
  obtain s where b: "bal [] st s" and t: "tri st" and f: "frames_ok st" and sl: "slices_ok st"
    using assms(1) by (auto simp: heap_ok_def)
  have c: "hcolor h \<noteq> sweeper st" using t assms(4) by (auto simp: tri_but_def colours_ok_def)
  have z: "cnt (obj_ptrs h) x = 0" for x using assms(6) [of "Some x"] cnt_pos [of "obj_ptrs h" x] by auto
  have b1: "bal [Dec (Some a)] (place a h st) s"
    by (rule bal_place [of "[]" "[]"]) (use b assms(2,3,5) c z in simp_all)
  have t1: "tri (place a h st)"
  proof (rule tri_place [OF t assms(2,4)])
    show "marked st p" if "p \<in> set (obj_ptrs h)" for p using assms(6) [OF that] by simp
  qed
  have m: "marked (place a h st) (Some a)" using assms(2,4) by (simp add: marked_def)
  have s1: "slices_ok (place a h st)" by (rule slices_place [OF sl b _ assms(2,8)]) simp
  obtain st' where "replace d (Some a) (place a h st) = Inr st'" "bal [] st' s" "tri st'" "frames_ok st'"
    "slices_ok st'"
    by (rule finish_ok [OF b1 t1 frames_ok_eq [OF f place_sel(1)] dst_ok_place(1) [OF assms(7,2) b dying.simps(1)] m])
      (simp_all add: s1)
  then show ?thesis by (auto simp: heap_ok_def)
qed

definition fits :: "tmap \<Rightarrow> word list \<Rightarrow> bool" where   \<comment> \<open>the memory is as large as its map says\<close>
  "fits t ws \<longleftrightarrow> (\<forall>i \<in> set (slots_from 0 t). i < length ws)"

lemma fits_initmem: "fits t ws \<Longrightarrow> fits t (initmem t ws)"
  by (simp add: fits_def initmem_slots(1))

lemma inew_ok:
  assumes "heap_ok st" and "room a st" and "fits t ws" and "dst_ok d st"
  shows "\<exists>st'. inew a t ws d st = Inr st' \<and> heap_ok st'"
  unfolding inew_def heap_def
proof (rule alloc_ok [OF assms(1,2) _ _ _ _ assms(4)])
  show "wf_obj ((blank st)\<lparr>htyp := t, hels := [initmem t ws]\<rparr>)"
    using fits_initmem [OF assms(3)] by (simp add: wf_obj_def blank_def fits_def)
  show "p = None" if "p \<in> set (obj_ptrs ((blank st)\<lparr>htyp := t, hels := [initmem t ws]\<rparr>))" for p
    using that ptrs_initmem [of t ws] assms(3) by (auto simp: obj_ptrs_def blank_def fits_def)
qed (simp_all add: blank_def)

lemma newa_ok:
  assumes "heap_ok st" and "room a st" and "\<forall>ws \<in> set wss. fits t ws" and "dst_ok d st"
  shows "\<exists>st'. newa a t wss d st = Inr st' \<and> heap_ok st'"
  unfolding newa_def
proof (rule alloc_ok [OF assms(1,2) _ _ _ _ assms(4)])
  let ?h = "(blank st)\<lparr>hkind := KArray, htyp := t, hels := map (initmem t) wss, hlen := length wss\<rparr>"
  show "wf_obj ?h"
    using fits_initmem assms(3) by (auto simp: wf_obj_def blank_def fits_def)
  have "p = None" if "p \<in> set (ptrs t (initmem t ws))" "ws \<in> set wss" for p ws
    using that ptrs_initmem [of t ws] assms(3) by (auto simp: fits_def)
  then show "p = None" if "p \<in> set (obj_ptrs ?h)" for p
    using that by (auto simp: obj_ptrs_def blank_def)
qed (simp_all add: blank_def)

text \<open>\<open>cons\<close> takes the old list out of \<open>*lp\<close> and hands it to the new node.\<close>

lemma upd_upd_same:
  assumes "\<And>h. f (g h) = k h"
  shows "upd a f (upd a g st) = upd a k st"
proof -
  have "f \<circ> g = k" using assms by auto
  then show ?thesis
    by (cases "a < length (arena st)") (auto simp: upd_def put_def get_def option.map_comp list_update_beyond)
qed

lemma upd_put_other: "a \<noteq> b \<Longrightarrow> upd a f (put b h st) = put b h (upd a f st)"
  by (simp add: put_upd_other)

lemma upd_nprop: "upd a f (st\<lparr>nprop := n\<rparr>) = (upd a f st)\<lparr>nprop := n\<rparr>"
  by (simp add: upd_def put_def get_def)

lemma upd_put_same: "a < length (arena st) \<Longrightarrow> upd a f (put a h st) = put a (map_option f h) st"
  by (simp add: upd_def)

lemma setmark_upd:
  assumes "\<And>h. hcolor (f h) = hcolor h" and "\<And>h c. (f h)\<lparr>hcolor := c\<rparr> = f (h\<lparr>hcolor := c\<rparr>)"
  shows "setmark p (upd a f st) = upd a f (setmark p st)"
proof (cases p)
  case (Some b)
  show ?thesis
  proof (cases "get st b")
    case None
    then show ?thesis by (auto simp: setmark_def Some get_upd)
  next
    case (Some h)
    then have bl: "b < length (arena st)" using getD by blast
    have m: "mutator (upd a f st) = mutator st" by (simp add: upd_def)
    show ?thesis
    proof (cases "a = b")
      case True
      then show ?thesis using Some bl assms
        by (simp add: setmark_def \<open>p = Some b\<close> get_upd m upd_nprop upd_put_same) (simp add: upd_def)
    next
      case False
      then show ?thesis using Some assms
        by (simp add: setmark_def \<open>p = Some b\<close> get_upd m upd_nprop upd_put_other)
    qed
  qed
qed (simp add: setmark_def)

lemma setmark_frames: "setmark p (st\<lparr>frames := fr\<rparr>) = (setmark p st)\<lparr>frames := fr\<rparr>"
  by (auto simp: setmark_def get_def put_def split: option.splits)

lemma setmark_write: "setmark p (write_ptr d q st) = write_ptr d q (setmark p st)"
proof (cases d)
  case (InFrame f i)
  then show ?thesis by (simp add: write_ptr.simps setmark_frames)
qed (simp_all add: write_ptr.simps setmark_upd)

lemma write_write: "write_ptr d p (write_ptr d q st) = write_ptr d p st"
proof (cases d)
  case (InFrame f i)
  then show ?thesis
    by (cases "f < length (frames st)") (simp_all add: write_ptr.simps list_update_beyond)
next
  case (InBlock a k i)
  show ?thesis unfolding InBlock write_ptr.simps
  proof (rule upd_upd_same)
    show "h\<lparr>hels := (hels h)[k := (hels h ! k)[i := Pt q]]\<rparr>
        \<lparr>hels := (hels (h\<lparr>hels := (hels h)[k := (hels h ! k)[i := Pt q]]\<rparr>))
           [k := (hels (h\<lparr>hels := (hels h)[k := (hels h ! k)[i := Pt q]]\<rparr>) ! k)[i := Pt p]]\<rparr> =
      h\<lparr>hels := (hels h)[k := (hels h ! k)[i := Pt p]]\<rparr>" for h :: hobj
      by (cases "k < length (hels h)") (simp_all add: list_update_beyond)
  qed
next
  case (InTail a)
  show ?thesis unfolding InTail write_ptr.simps by (rule upd_upd_same) simp
qed

lemma place_frames: "place a h (st\<lparr>frames := fr\<rparr>) = (place a h st)\<lparr>frames := fr\<rparr>"
  by (simp add: place_def put_def)

lemma place_upd:
  assumes "b \<noteq> a" and "room a st" and "b < length (arena st)"
  shows "place a h (upd b f st) = upd b f (place a h st)"
  using assms by (cases "a < length (arena st)")
    (auto simp: place_def upd_def put_def get_def list_update_swap nth_append list_update_append)

lemma place_setmark:
  assumes "room a st" and "live st p"
  shows "setmark p (place a h st) = place a h (setmark p st)"
proof (cases p)
  case (Some b)
  obtain k where k: "get st b = Some k" using assms(2) Some by (auto simp: live_def)
  have ne: "b \<noteq> a" and b: "b < length (arena st)" using assms(1) k getD [OF k] by (auto simp: room_def)
  have pp: "put b x (place a h st) = place a h (put b x st)" for x
    using ne b assms(1) by (auto simp: place_def put_def list_update_swap list_update_append)
  have pn: "place a h (st\<lparr>nprop := n\<rparr>) = (place a h st)\<lparr>nprop := n\<rparr>" for n st by (simp add: place_def put_def)
  show ?thesis using assms(1) k ne by (simp add: setmark_def Some pp pn)
qed (simp add: setmark_def)

lemma room_eq:
  "length (arena st') = length (arena st) \<Longrightarrow> (get st' a = None \<longleftrightarrow> get st a = None) \<Longrightarrow> room a st' = room a st"
  by (simp add: room_def)


lemma place_write:
  assumes "room a st" and "slot_ok {} d st"
  shows "place a h (write_ptr d q st) = write_ptr d q (place a h st)"
proof -
  have ne: "b \<noteq> a \<and> b < length (arena st)" if "get st b = Some k" for b k
    using assms(1) getD [OF that] that by (auto simp: room_def)
  show ?thesis
  proof (cases d)
    case (InFrame f i)
    then show ?thesis by (simp add: write_ptr.simps place_frames)
  next
    case (InBlock b k i)
    then show ?thesis using assms ne [of b] by (auto simp: write_ptr.simps intro!: place_upd)
  next
    case (InTail b)
    then show ?thesis using assms ne [of b] by (auto simp: write_ptr.simps intro!: place_upd)
  qed
qed

lemma slot_write:
  assumes "slot_ok D d st"
  shows "slot_ok D d (write_ptr d q st)"
proof (cases d)
  case (InFrame f i)
  then show ?thesis using assms by (simp add: write_ptr.simps)
qed (use assms in \<open>auto simp: write_get\<close>)

definition blocks_ok :: "hst \<Rightarrow> bool" where
  "blocks_ok st \<longleftrightarrow> (\<forall>a h. get st a = Some h \<longrightarrow> wf_obj h)"

lemma bal_blocks: "bal w st s \<Longrightarrow> blocks_ok st"
  by (simp add: bal_def blocks_ok_def)

lemma read_write:
  assumes "slot_ok D d st" and "frames_ok st" and "blocks_ok st"
  shows "read_ptr d (write_ptr d q st) = q"
proof (cases d)
  case (InFrame f i)
  obtain t ws where fr: "frames st ! f = (t, ws)" by fastforce
  have f: "f < length (frames st)" and i: "i \<in> set (slots_from 0 t)" using assms(1) InFrame fr by auto
  have "(t, ws) \<in> set (frames st)" using nth_mem [OF f] by (simp add: fr)
  then have "i < length ws" using assms(2) i by (auto simp: frames_ok_def)
  then show ?thesis using f by (simp add: InFrame write_ptr.simps fr)
next
  case (InBlock a k i)
  obtain h where h: "get st a = Some h" "k < length (hels h)" "i \<in> set (slots_from 0 (htyp h))"
    using assms(1) InBlock by auto
  have "wf_obj h" using assms(3) h(1) by (simp add: blocks_ok_def)
  then have "i < length (hels h ! k)" using h unfolding wf_obj_def by (meson nth_mem)
  then show ?thesis using h by (simp add: InBlock write_get)
next
  case (InTail a)
  then show ?thesis using assms(1) by (auto simp: write_get)
qed

lemma reach_written:
  assumes "slot_ok {} lp S" and "dst_ok lp S" and "frames_ok S" and "blocks_ok S"
  shows "reach (write_ptr lp (Some a) S) a"
proof -
  let ?S = "write_ptr lp (Some a) S"
  have rp: "read_ptr lp ?S = Some a" by (rule read_write [OF assms(1,3,4)])
  have sl: "slot_ok {} lp ?S" by (rule slot_write [OF assms(1)])
  show ?thesis
  proof (cases lp)
    case (InFrame f i)
    then have "Some a \<in> set (root_ptrs ?S)" using frame_slot_root [of f ?S i] sl rp by simp
    then show ?thesis by (rule reach.root)
  next
    case (InBlock b k i)
    then have "reach ?S b" using reach_write [of S b k i] assms(2) by simp
    moreover obtain h where h: "get ?S b = Some h" "k < length (hels h)" "i \<in> set (slots_from 0 (htyp h))"
      using sl InBlock by auto
    moreover have "Some a \<in> set (obj_ptrs h)"
      using slot_obj_ptrs [OF h(2,3)] h(1) rp by (simp add: InBlock)
    ultimately show ?thesis by (blast intro: reach.step)
  qed (use assms(2) in simp)
qed

text \<open>Moving the pointer in a word to the link of a node, and the node to the word, keeps all reachable.\<close>

lemma reach_take:
  assumes "slot_ok {} lp S" and "dst_ok lp S" and "frames_ok S" and "blocks_ok S"
    and "get S a = Some node" and "hlink node = read_ptr lp S" and "\<And>k i. lp \<noteq> InBlock a k i"
  shows "reach S x \<Longrightarrow> reach (write_ptr lp (Some a) S) x"
proof -
  let ?S = "write_ptr lp (Some a) S"
  have ga: "get ?S a = Some node" using assms(2,5,7) by (cases lp) (auto simp: write_get)
  have ra: "reach ?S a" by (rule reach_written [OF assms(1-4)])
  have lv: "reach ?S y" if "read_ptr lp S = Some y" for y
    by (rule reach.step [OF ra ga]) (simp add: obj_ptrs_def assms(6) that)
  have ob: "Some y = read_ptr lp S \<or> (\<exists>h'. get ?S z = Some h' \<and> Some y \<in> set (obj_ptrs h'))"
    if gz: "get S z = Some h" and y: "Some y \<in> set (obj_ptrs h)" for z h y
  proof (cases "\<exists>k i. lp = InBlock z k i")
    case True
    then obtain k i where l: "lp = InBlock z k i" by blast
    have k: "k < length (hels h)" "i \<in> set (slots_from 0 (htyp h))" using assms(1) l gz by auto
    have wf: "wf_obj h" using assms(4) gz by (simp add: blocks_ok_def)
    let ?h = "h\<lparr>hels := (hels h)[k := (hels h ! k)[i := Pt (Some a)]]\<rparr>"
    have "cnt (obj_ptrs ?h) y + cnt [ptr_of (hels h ! k ! i)] y = cnt (obj_ptrs h) y + cnt [Some a] y"
      by (rule obj_cnt_write [OF wf k])
    moreover have "cnt (obj_ptrs h) y > 0" using y by (simp only: cnt_pos)
    ultimately have "cnt (obj_ptrs ?h) y > 0 \<or> ptr_of (hels h ! k ! i) = Some y" by (auto split: if_splits)
    then have "Some y = read_ptr lp S \<or> Some y \<in> set (obj_ptrs ?h)"
      using gz unfolding cnt_pos by (auto simp: l)
    moreover have "get ?S z = Some ?h" using gz by (simp add: l write_get)
    ultimately show ?thesis by blast
  next
    case False
    then have "get ?S z = Some h" using gz assms(2) by (cases lp) (auto simp: write_get)
    then show ?thesis using y by blast
  qed
  have rt: "Some y = read_ptr lp S \<or> Some y \<in> set (root_ptrs ?S)" if y: "Some y \<in> set (root_ptrs S)" for y
  proof (cases lp)
    case (InFrame f i)
    have "cnt (root_ptrs ?S) y + cnt [read_ptr lp S] y = cnt (root_ptrs S) y + cnt [Some a] y"
      unfolding InFrame by (rule root_cnt_write [OF assms(1) [unfolded InFrame] assms(3)])
    moreover have "cnt (root_ptrs S) y > 0" using y by (simp only: cnt_pos)
    ultimately have "cnt (root_ptrs ?S) y > 0 \<or> read_ptr lp S = Some y" by (auto split: if_splits)
    then show ?thesis unfolding cnt_pos by auto
  qed (use y in simp_all)
  show "reach S x \<Longrightarrow> reach ?S x"
  proof (induction rule: reach.induct)
    case (root y)
    then show ?case using rt [OF root] lv [of y] by (metis reach.root)
  next
    case (step z h y)
    then show ?case using ob [OF step.hyps(2,3)] lv [of y] by (metis reach.step)
  qed
qed

lemma slot_place:
  assumes "room a st" and "slot_ok {} d st"
  shows "slot_ok {} d (place a h st)" "read_ptr d (place a h st) = read_ptr d st"
  using assms by (cases d; auto simp: room_def)+

lemma cons_bal:
  assumes "bal [] st s" and "tri st" and "frames_ok st" and "room a st" and "dst_ok lp st" and "fits t ws"
    and "\<And>p. p \<in> set (ptrs t ws) \<Longrightarrow> p = None"
  shows "bal [] (cons a t ws lp st) s" "tri (cons a t ws lp st)" "frames_ok (cons a t ws lp st)"
    "i \<in> set (slots_from 0 t) \<Longrightarrow> slot_ok {} (InBlock a 0 i) (cons a t ws lp st)"
    "read_ptr (InBlock a 0 i) (cons a t ws lp st) = ptr_of (ws ! i)"
    "reach st x \<Longrightarrow> reach (cons a t ws lp st) x"
    "slices_ok st \<Longrightarrow> slices_ok (cons a t ws lp st)"
proof -
  define lv where "lv = read_ptr lp st"
  define node where "node = (blank st)\<lparr>hkind := KList, htyp := t, hels := [ws], hlink := lv\<rparr>"
  define sA where "sA = write_ptr lp None st"
  define sB where "sB = setmark lv sA"
  define sC where "sC = place a node sB"
  have sl: "slot_ok {} lp st" by (rule dst_slot [OF assms(1) _ assms(5)]) simp
  have "bal [Dec None] st s" using assms(1) by (simp add: bal_def incount_def)
  then have bA: "bal [Dec lv] sA s"
    unfolding sA_def lv_def by (rule bal_swap) (simp_all add: sl assms(3))
  have tA: "tri sA" unfolding sA_def by (rule tri_write [OF assms(2) sl]) simp
  have fA: "frames_ok sA" unfolding sA_def by (rule frames_ok_write [OF assms(3)])
  have ng: "sweeper sA \<noteq> propagator" using sweeper_not_grey [OF tA] by blast
  have lA: "live sA lv" using bal_live_work [OF bA] by simp
  have bB: "bal [Dec lv] sB s" unfolding sB_def by (rule bal_setmark [OF bA lA ng])
  have dB: "darkens sA sB" unfolding sB_def by (rule setmark_darkens [OF lA])
  have tB: "tri sB" by (rule tri_darkens [OF tA dB])
  have mB: "marked sB lv" unfolding sB_def by (rule setmark_marked [OF lA])
  have fB: "frames_ok sB" using fA by (rule frames_ok_eq) (simp add: sB_def)
  have muB: "mutator sB = mutator st" by (simp add: sB_def sA_def)
  have rA: "room a sA" using assms(4) by (cases lp) (auto simp: room_def sA_def write_get)
  have rB: "room a sB" using rA same_shape_get(1) [OF same_shape_darkens [OF dB], of a]
    by (simp add: room_def sB_def)
  have slA: "slot_ok {} lp sA" unfolding sA_def by (rule slot_write [OF sl])
  have slB: "slot_ok {} lp sB" by (rule slot_darkens(1) [OF dB ng slA])
  have op: "obj_ptrs node = ptrs t ws @ [lv]" by (simp add: node_def obj_ptrs_def)
  have z: "cnt (ptrs t ws) x = 0" for x using assms(7) [of "Some x"] cnt_pos [of "ptrs t ws" x] by auto
  have cn: "hcolor node = mutator sB" by (simp add: node_def blank_def muB)
  have "hcolor node \<noteq> sweeper sB" using cn tB by (auto simp: tri_but_def colours_ok_def)
  then have bC: "bal [Dec (Some a)] sC s"
    unfolding sC_def
  proof (rule bal_place [of "[Dec lv]" "[]", rotated 4])
    show "wf_obj node" using assms(6) by (simp add: node_def wf_obj_def fits_def)
  qed (use bB rB in \<open>simp_all add: op z, simp add: node_def blank_def\<close>)
  have tC: "tri sC"
    unfolding sC_def
  proof (rule tri_place [OF tB rB cn])
    show "marked sB p" if "p \<in> set (obj_ptrs node)" for p
      using that assms(7) [of p] mB by (auto simp: op)
  qed
  have fC: "frames_ok sC" using fB by (rule frames_ok_eq) (simp add: sC_def)
  have slC: "slot_ok {} lp sC" "read_ptr lp sC = None"
    using slot_place [OF rB slB, of node] slot_darkens(2) [OF dB ng slA] read_write [OF sl assms(3) bal_blocks [OF assms(1)], of None]
    by (simp_all add: sC_def sA_def)
  have mC: "marked sC (Some a)" using rB cn by (simp add: marked_def sC_def)
  have e: "cons a t ws lp st = write_ptr lp (Some a) sC"
  proof -
    have "sC = place a node (write_ptr lp None (setmark lv st))"
      by (simp add: sC_def sB_def sA_def setmark_write)
    moreover have lv: "live st lv" unfolding lv_def by (rule src_live [OF assms(1) dst_src [OF assms(5)]])
    have d: "darkens st (setmark lv st)" by (rule setmark_darkens [OF lv])
    have r: "room a (setmark lv st)" using assms(4) same_shape_get(1) [OF same_shape_darkens [OF d], of a]
      by (simp add: room_def)
    have "slot_ok {} lp (setmark lv st)"
      by (rule slot_darkens(1) [OF d _ sl]) (use sweeper_not_grey [OF assms(2)] in blast)
    then have "place a node (write_ptr lp None (setmark lv st)) = write_ptr lp None (place a node (setmark lv st))"
      by (rule place_write [OF r])
    ultimately have "write_ptr lp (Some a) sC = write_ptr lp (Some a) (place a node (setmark lv st))"
      by (simp add: write_write)
    also have "\<dots> = cons a t ws lp st"
      by (simp add: cons_def Let_def place_setmark [OF assms(4) lv] flip: lv_def node_def)
    finally show ?thesis ..
  qed
  have "bal [Dec None] (cons a t ws lp st) s"
    unfolding e using bal_swap [OF bC _ fC, of lp] slC by simp
  then show "bal [] (cons a t ws lp st) s" by (simp add: bal_def incount_def)
  show "tri (cons a t ws lp st)" unfolding e by (rule tri_write [OF tC slC(1) mC])
  show "frames_ok (cons a t ws lp st)" unfolding e by (rule frames_ok_write [OF fC])
  show "slices_ok (cons a t ws lp st)" if s0: "slices_ok st"
  proof -
    have lw: "fam S (write_ptr lp q S)" for q S by (rule fam_write) (use assms(5) in \<open>cases lp; simp\<close>)
    have "slices_ok sA" unfolding sA_def by (rule slices_fam [OF s0 lw])
    then have "slices_ok sB" by (rule slices_fam [OF _ fam_darkens [OF dB]])
    then have "slices_ok sC" unfolding sC_def by (rule slices_place [OF _ bB _ rB]) (simp_all add: node_def)
    then show ?thesis unfolding e by (rule slices_fam [OF _ lw])
  qed
  have gC: "get sC a = Some node" using rB by (simp add: sC_def)
  have ne: "b \<noteq> a" if "lp = InBlock b k i" for b k i
    using slB rB that by (auto simp: room_def)
  have gE: "get (cons a t ws lp st) a = Some node"
    using gC ne assms(5) unfolding e by (cases lp) (auto simp: write_get)
  show "slot_ok {} (InBlock a 0 i) (cons a t ws lp st)" if "i \<in> set (slots_from 0 t)"
    using gE that \<open>hcolor node \<noteq> sweeper sB\<close> by (simp add: e sC_def) (simp add: node_def)
  show "read_ptr (InBlock a 0 i) (cons a t ws lp st) = ptr_of (ws ! i)" using gE by (simp add: node_def)
  show "reach (cons a t ws lp st) x" if "reach st x"
  proof -
    define S where "S = place a node (setmark lv st)"
    have lv: "live st lv" unfolding lv_def by (rule src_live [OF assms(1) dst_src [OF assms(5)]])
    have ng: "sweeper st \<noteq> propagator" using sweeper_not_grey [OF assms(2)] by blast
    have d: "darkens st (setmark lv st)" by (rule setmark_darkens [OF lv])
    note sh = same_shape_darkens [OF d]
    have b: "bal [] (setmark lv st) s" by (rule bal_setmark [OF assms(1) lv ng])
    have r: "room a (setmark lv st)" using assms(4) same_shape_get(1) [OF sh, of a] by (simp add: room_def)
    have dS: "dst_ok lp S" "read_ptr lp S = lv"
      using dst_ok_place [OF shape_dst(1) [OF sh assms(5)] r b] shape_dst(2) [OF sh] by (simp_all add: S_def lv_def)
    have slS: "slot_ok {} lp S"
      unfolding S_def by (rule slot_place(1) [OF r slot_darkens(1) [OF d ng sl]])
    have "blocks_ok S"
      using bal_blocks [OF b] r assms(6) by (auto simp: blocks_ok_def S_def node_def wf_obj_def fits_def)
    moreover have "frames_ok S" using assms(3) by (simp add: S_def frames_ok_def)
    moreover have "reach S x"
      unfolding S_def by (rule reach_place [OF r reach_shape [OF sh that]])
    moreover have "get S a = Some node" "hlink node = read_ptr lp S"
      unfolding dS(2) using r by (simp_all add: S_def node_def)
    ultimately have "reach (write_ptr lp (Some a) S) x"
      using reach_take [OF slS dS(1), of a node x] ne by blast
    then show ?thesis
      by (simp add: S_def cons_def Let_def place_setmark [OF assms(4) lv] flip: lv_def node_def)
  qed
qed

lemma consw_ok:
  assumes "heap_ok st" and "room a st" and "dst_ok lp st"
  shows "heap_ok (consw a x lp st)"
proof -
  obtain s where b: "bal [] st s" "tri st" "frames_ok st" and sl: "slices_ok st" using assms(1) by (auto simp: heap_ok_def)
  have "bal [] (cons a [] [Wd x] lp st) s" "tri (cons a [] [Wd x] lp st)" "frames_ok (cons a [] [Wd x] lp st)"
    by (rule cons_bal [OF b assms(2,3)]; simp add: fits_def ptrs_def)+
  moreover have "slices_ok (cons a [] [Wd x] lp st)"
    by (rule cons_bal(7) [OF b assms(2,3) _ _ sl]) (simp_all add: fits_def ptrs_def)
  ultimately show ?thesis by (auto simp: heap_ok_def consw_def)
qed

lemma Tptr_slots:
  "slots_from 0 [0x80 :: u8] = [0]" "fits [0x80] [Pt None]" "p \<in> set (ptrs [0x80] [Pt None]) \<Longrightarrow> p = None"
proof -
  show s: "slots_from 0 [0x80 :: u8] = [0]" by (simp add: upt_rec)
  show "fits [0x80] [Pt None]" "p \<in> set (ptrs [0x80] [Pt None]) \<Longrightarrow> p = None"
    by (simp_all add: fits_def ptrs_def s del: slots_from.simps)
qed

lemma consp_ok:
  assumes "heap_ok st" and "room a st" and "dst_ok lp st" and "src_ok l (cons a [0x80] [Pt None] lp st)"
  shows "\<exists>st'. consp a l lp st = Inr st' \<and> heap_ok st'"
proof -
  obtain s where b: "bal [] st s" "tri st" "frames_ok st" and s0: "slices_ok st" using assms(1) by (auto simp: heap_ok_def)
  let ?c = "cons a [0x80] [Pt None] lp st"
  let ?d = "InBlock a 0 0"
  note cb = cons_bal [OF b assms(2,3) Tptr_slots(2,3), simplified]
  have c4: "slot_ok {} ?d ?c" by (rule cons_bal(4) [OF b assms(2,3) Tptr_slots(2,3)])
      (simp_all add: Tptr_slots(1) del: slots_from.simps)
  define sv where "sv = read_ptr l ?c"
  have lv: "live ?c sv" unfolding sv_def by (rule src_live [OF cb(1) assms(4)])
  obtain st2 where i: "incref sv ?c = Inr st2" "bal [Dec sv] st2 s" "tri st2" "marked st2 sv" "same_shape ?c st2"
    "slices_ok st2" and sl: "\<And>D d. slot_ok D d ?c \<Longrightarrow> slot_ok D d st2"
    by (rule incref_ok [OF cb(1,2) lv dying.simps(1)]) (use cons_bal(7) [OF b assms(2,3) Tptr_slots(2,3) s0] in blast)
  have f2: "frames_ok st2" using cb(3) i(5) by (auto simp: same_shape_def intro: frames_ok_eq)
  have rd: "read_ptr ?d st2 = None" using shape_dst(2) [OF i(5), of ?d] cb(5) [of 0] by simp
  have "bal [Dec None] (write_ptr ?d sv st2) s"
    using bal_swap [OF i(2) _ f2, of ?d] sl [OF c4] rd by simp
  then have "bal [] (write_ptr ?d sv st2) s" by (simp add: bal_def incount_def)
  moreover have "tri (write_ptr ?d sv st2)" by (rule tri_write [OF i(3) sl [OF c4] i(4)])
  moreover have "frames_ok (write_ptr ?d sv st2)" by (rule frames_ok_write [OF f2])
  moreover have "slices_ok (write_ptr ?d sv st2)" by (rule slices_fam [OF i(6) fam_write]) simp
  ultimately show ?thesis using i(1) by (auto simp: consp_def Let_def heap_ok_def sv_def [symmetric])
qed


lemma src_reach:
  assumes "src_ok l st" and "read_ptr l st = Some b"
  shows "reach st b"
proof (cases l)
  case (InFrame f i)
  then show ?thesis using frame_slot_root [of f st i] assms by (auto intro: reach.root)
next
  case (InBlock a k i)
  then obtain h where h: "get st a = Some h" using assms(2) by (cases "get st a") auto
  then have "Some b \<in> set (obj_ptrs h)" using slot_obj_ptrs [of k h i] assms InBlock by simp
  then show ?thesis using assms(1) h InBlock by (intro reach.step [of st a h b]) simp_all
next
  case (InTail a)
  then obtain h where h: "get st a = Some h" using assms(2) by (cases "get st a") auto
  then show ?thesis using assms InTail by (intro reach.step [of st a h b]) (simp_all add: obj_ptrs_def)
qed

definition list_ok :: "loc \<Rightarrow> hst \<Rightarrow> bool" where   \<comment> \<open>what is at \<open>l\<close> is a list of pointers\<close>
  "list_ok l st \<longleftrightarrow> (\<forall>a h. read_ptr l st = Some a \<longrightarrow> get st a = Some h \<longrightarrow>
     0 < length (hels h) \<and> 0 \<in> set (slots_from 0 (htyp h)))"

lemma headp_ok:
  assumes "heap_ok st" and "src_ok l st" and "list_ok l st" and "dst_ok d st"
  shows "headp l d st = Inl Trap \<and> read_ptr l st = None \<or> (\<exists>st'. headp l d st = Inr st' \<and> heap_ok st')"
proof (cases "read_ptr l st")
  case None
  then show ?thesis by (simp add: headp_def)
next
  case (Some a)
  have "src_ok (InBlock a 0 0) st"
    using src_reach [OF assms(2) Some] assms(3) Some unfolding list_ok_def src_ok.simps by blast
  then show ?thesis using movp_ok [OF assms(1) _ assms(4)] Some by (simp add: headp_def)
qed

lemma tail_ok:
  assumes "heap_ok st" and "src_ok l st" and "dst_ok d st"
  shows "tail l d st = Inl Trap \<and> read_ptr l st = None \<or> (\<exists>st'. tail l d st = Inr st' \<and> heap_ok st')"
proof (cases "read_ptr l st")
  case None
  then show ?thesis by (simp add: tail_def)
next
  case (Some a)
  have "src_ok (InTail a) st" using src_reach [OF assms(2) Some] by simp
  then show ?thesis using movp_ok [OF assms(1) _ assms(3)] Some by (simp add: tail_def)
qed

subsection \<open>Frames\<close>

lemma new_frame_ok:
  assumes "heap_ok st" and "fits t ws"
  shows "heap_ok (new_frame t ws st)"
proof -
  obtain s where b: "bal [] st s" "tri st" "frames_ok st" and sl: "slices_ok st" using assms(1) by (auto simp: heap_ok_def)
  let ?st = "new_frame t ws st"
  have p: "ptrs t (initmem t ws) = replicate (length (slots_from 0 t)) None"
    using ptrs_initmem [of t ws] assms(2) by (simp add: fits_def)
  have g: "get ?st x = get st x" for x by (simp add: new_frame_def get_def)
  have r: "mset (root_ptrs ?st) = mset (root_ptrs st) + mset (replicate (length (slots_from 0 t)) None)"
    by (simp add: root_ptrs_def new_frame_def p)
  have "cnt (root_ptrs ?st) x = cnt (root_ptrs st) x" for x
    unfolding count_list_mset r by simp
  then have "bal [] ?st s" using b(1) by (simp add: bal_def incount_def refs_def g) (simp add: new_frame_def)
  moreover have "tri ?st"
  proof (rule tri_same [OF b(2)])
    show "same_gc st ?st" by (simp add: same_gc_def g) (simp add: new_frame_def)
    show "marked st q" if "q \<in> set (root_ptrs ?st)" for q
    proof -
      have "q = None \<or> q \<in> set (root_ptrs st)" using that by (auto simp: root_ptrs_def new_frame_def p)
      then show ?thesis using b(2) by (auto simp: tri_but_def)
    qed
    show "marked st q" if "get ?st a = Some h'" "hcolor h' = mutator st" "q \<in> set (obj_ptrs h')" for a h' q
      using that b(2) unfolding g by (auto simp: tri_but_def)
  qed
  moreover have "frames_ok ?st"
    using b(3) fits_initmem [OF assms(2)] by (simp add: frames_ok_def new_frame_def fits_def)
  moreover have "slices_ok ?st"
    by (rule slices_fam [OF sl]) (auto simp: fam_def g, simp add: new_frame_def)
  ultimately show ?thesis by (auto simp: heap_ok_def)
qed

lemma free_frame_ok:
  assumes "heap_ok st" and "f < length (frames st)"
  shows "\<exists>st'. free_frame f st = Inr st' \<and> heap_ok st'"
proof -
  obtain s where b: "bal [] st s" "tri st" "frames_ok st" and sl: "slices_ok st" using assms(1) by (auto simp: heap_ok_def)
  obtain t ws where fr: "frames st ! f = (t, ws)" by fastforce
  define fs where "fs = take f (frames st) @ drop (Suc f) (frames st)"
  let ?st = "st\<lparr>frames := fs\<rparr>"
  let ?w = "map Dec (free_ptrs t ws)"
  have split: "frames st = take f (frames st) @ (t, ws) # drop (Suc f) (frames st)"
    using id_take_nth_drop [OF assms(2)] fr by simp
  have g: "get ?st x = get st x" for x by (simp add: get_def)
  have "cnt (root_ptrs st) x = cnt (root_ptrs ?st) x + cnt (ptrs t ws) x" for x
    unfolding root_ptrs_def by (subst split) (simp add: fs_def)
  then have "incount ?w ?st x = incount [] st x" for x by (simp add: incount_def)
  then have "bal ?w ?st s" using b(1) by (simp add: bal_def refs_def g)
  then obtain r where r: "run_work ?w ?st = Inr r" "bal [] r s" "shrinks ?st r" using run_work_ok by blast
  have c: "run_work ?w (st\<lparr>frames := k\<rparr>) =
      (case run_work ?w st of Inl e \<Rightarrow> Inl e | Inr st' \<Rightarrow> Inr (st'\<lparr>frames := k\<rparr>))" for k
    by (rule run_work_commute) (simp_all add: get_def put_def)
  obtain r0 where r0: "run_work ?w st = Inr r0" "r = r0\<lparr>frames := fs\<rparr>"
    using c [of fs] r(1) by (cases "run_work ?w st") auto
  have "frames r0 = frames st"
    using c [of "frames st"] r0(1) by simp (metis hst.select_convs(2) hst.surjective hst.update_convs(2))
  then have e: "free_frame f st = Inr r"
    using r0 by (simp add: free_frame_def freeptrs_def fr fs_def)
  have sub: "set (root_ptrs ?st) \<subseteq> set (root_ptrs st)"
    by (auto simp: root_ptrs_def fs_def dest: in_set_takeD in_set_dropD)
  have "tri ?st"
  proof (rule tri_same [OF b(2)])
    show "same_gc st ?st" by (simp add: same_gc_def g)
    show "marked st q" if "q \<in> set (root_ptrs ?st)" for q using that sub b(2) by (auto simp: tri_but_def)
    show "marked st q" if "get ?st a = Some h'" "hcolor h' = mutator st" "q \<in> set (obj_ptrs h')" for a h' q
      using that b(2) unfolding g by (auto simp: tri_but_def)
  qed
  then have "tri r" by (rule tri_shrinks [OF _ r(3)])
  moreover have "frames_ok ?st"
    using b(3) by (auto simp: frames_ok_def fs_def dest: in_set_takeD in_set_dropD)
  then have "frames_ok r" by (rule frames_ok_eq) (use r(3) in \<open>simp add: shrinks_def\<close>)
  moreover have "slices_ok r"
    by (rule slices_fam [OF slices_fam [OF sl] fam_shrinks [OF r(3)]]) (auto simp: fam_def g)
  ultimately show ?thesis using e r(2) by (auto simp: heap_ok_def)
qed


subsection \<open>Slices\<close>

lemma write_tail_swap:
  assumes "\<And>k i. d \<noteq> InBlock a k i" and "\<And>b. d \<noteq> InTail b"
  shows "write_ptr (InTail a) q (write_ptr d p S) = write_ptr d p (write_ptr (InTail a) q S)"
proof (cases d)
  case (InFrame f i)
  then show ?thesis by (simp add: write_ptr.simps upd_def put_def get_def)
next
  case (InBlock b k i)
  then have "a \<noteq> b" using assms(1) by blast
  then show ?thesis
    by (auto simp: InBlock write_ptr.simps upd_def put_def get_def list_update_swap)
qed (use assms(2) in blast)

lemma write_get_other:
  assumes "\<And>k i. d \<noteq> InBlock a k i" and "\<And>b. d \<noteq> InTail b"
  shows "get (write_ptr d p S) a = get S a"
proof (cases d)
  case (InBlock b k i)
  then have "a \<noteq> b" using assms(1) by blast
  then show ?thesis by (simp add: InBlock write_get)
qed (use assms(2) in \<open>auto simp: write_get\<close>)

lemma read_tail_write:
  assumes "\<And>k i. d \<noteq> InBlock a k i" and "\<And>b. d \<noteq> InTail b"
  shows "read_ptr (InTail a) (write_ptr d p S) = read_ptr (InTail a) S" "read_ptr d (write_ptr (InTail a) q S) = read_ptr d S"
    "slot_ok D (InTail a) (write_ptr d p S) = slot_ok D (InTail a) S"
  using assms by (cases d; auto simp: write_get; simp add: write_ptr.simps upd_def; fail)+

lemma dst_ok_link:
  assumes "dst_ok d S" and "get S a = Some h" and "hlink h = None"
  shows "dst_ok d (write_ptr (InTail a) p S)"
proof -
  let ?S = "write_ptr (InTail a) p S"
  have r: "reach ?S x" if "reach S x" for x
    using that
  proof (induction rule: reach.induct)
    case (root x)
    then show ?case by (intro reach.root) simp
  next
    case (step x k y)
    obtain k' where "get ?S x = Some k'" "Some y \<in> set (obj_ptrs k')"
      using step.hyps(2,3) assms(2,3) by (cases "x = a") (auto simp: write_get obj_ptrs_def)
    then show ?case by (rule reach.step [OF step.IH])
  qed
  show ?thesis
  proof (cases d)
    case (InFrame f i)
    then show ?thesis using assms(1) by (simp add: write_ptr.simps upd_def)
  qed (use assms(1) r in \<open>auto simp: write_get\<close>)
qed

lemma slices_link:
  assumes "slices_ok S" and "get S a = Some k"
    and "\<And>rh. get S r = Some rh \<Longrightarrow> hcolor rh \<noteq> sweeper S \<Longrightarrow> htyp rh = htyp k"
  shows "slices_ok (write_ptr (InTail a) (Some r) S)"
  unfolding slices_ok_def
proof (intro allI impI)
  let ?S = "write_ptr (InTail a) (Some r) S"
  fix b h q qh
  assume g: "get ?S b = Some h" "hcolor h \<noteq> sweeper ?S" "hkind h = KArray" "hlink h = Some q"
    "get ?S q = Some qh" "hcolor qh \<noteq> sweeper ?S"
  obtain qh0 where q: "get S q = Some qh0" "hcolor qh0 = hcolor qh" "htyp qh0 = htyp qh"
    using g(5) by (cases "q = a") (auto simp: write_get)
  show "htyp qh = htyp h"
  proof (cases "b = a")
    case True
    then have "htyp h = htyp k" "q = r" using g(1,4) assms(2) by (auto simp: write_get)
    then show ?thesis using assms(3) [of qh0] q g(6) by simp
  next
    case False
    then have "get S b = Some h" using g(1) by (simp add: write_get)
    then show ?thesis using assms(1) g q unfolding slices_ok_def write_sel by metis
  qed
qed

definition array_at :: "loc \<Rightarrow> hst \<Rightarrow> bool" where   \<comment> \<open>what is at \<open>l\<close> is an array\<close>
  "array_at l st \<longleftrightarrow> (\<forall>a h. read_ptr l st = Some a \<longrightarrow> get st a = Some h \<longrightarrow> hkind h = KArray)"

text \<open>
  \<open>slicea\<close> moves the reference of a whole array to the slice without marking the array; that is safe
  when the array is marked already, as one in a frame is.
\<close>

lemma slicea_ok:
  assumes "heap_ok st" and "room a st" and "dst_ok d st" and "array_at d st"
    and "\<And>ds h. read_ptr d st = Some ds \<Longrightarrow> get st ds = Some h \<Longrightarrow> hlink h = None \<Longrightarrow> marked st (Some ds)"
  shows "(\<exists>e. slicea a s m d st = Inl (Raise e)) \<or> (\<exists>st'. slicea a s m d st = Inr st' \<and> heap_ok st')"
proof -
  obtain su where b: "bal [] st su" and t: "tri st" and f: "frames_ok st" and sl: "slices_ok st"
    using assms(1) by (auto simp: heap_ok_def)
  show ?thesis
  proof (cases "read_ptr d st")
    case None
    then show ?thesis using assms(1) by (simp add: slicea_def)
  next
    case (Some ds)
    have "live st (Some ds)" using src_live [OF b dst_src [OF assms(3)]] Some by simp
    then obtain h where h: "get st ds = Some h" "hcolor h \<noteq> sweeper st" by (auto simp: live_def)
    show ?thesis
    proof (cases "m - s <s 0 \<or> unat s > hlen h \<or> unat m > hlen h")
      case True
      then show ?thesis using Some h by (simp add: slicea_def)
    next
      case False
      define ss where "ss = (blank st)\<lparr>hkind := KArray, htyp := htyp h, hlen := unat (m - s), hoff := hoff h + unat s\<rparr>"
      define st1 where "st1 = place a ss st"
      have sw: "hcolor ss \<noteq> sweeper st" using t by (auto simp: ss_def blank_def tri_but_def colours_ok_def)
      have "wf_obj ss" by (simp add: wf_obj_def ss_def blank_def)
      then have b1: "bal [Dec (Some a)] st1 su"
        unfolding st1_def
        by (intro bal_place [of "[]" "[]"]) (use b assms(2) sw in \<open>simp_all add: ss_def blank_def obj_ptrs_def\<close>)
      have t1: "tri st1"
        unfolding st1_def
        by (rule tri_place [OF t assms(2)]) (simp_all add: ss_def blank_def obj_ptrs_def)
      have f1: "frames_ok st1" by (rule frames_ok_eq [OF f]) (simp add: st1_def)
      have d1: "dst_ok d st1" "read_ptr d st1 = Some ds"
        using dst_ok_place [OF assms(3,2) b] Some by (simp_all add: st1_def)
      have ga: "get st1 a = Some ss" using assms(2) by (simp add: st1_def)
      have sa: "slot_ok {} (InTail a) st1" using ga sw by (simp add: st1_def) (simp add: ss_def blank_def)
      have ne: "ds \<noteq> a" using h(1) assms(2) by (auto simp: room_def)
      have s1: "slices_ok st1"
        unfolding st1_def by (rule slices_place [OF sl b _ assms(2)]) (simp_all add: ss_def blank_def)
      have lw: "fam S (write_ptr d q S)" for q S by (rule fam_write) (use assms(3) in \<open>cases d; simp\<close>)
      have dn: "d \<noteq> InBlock a k i" "d \<noteq> InTail c" for k i c
        using assms(3) reach_live [OF _ b dying.simps(1), of a] assms(2) by (auto simp: live_def room_def)
      have la: "read_ptr (InTail a) st1 = None" using ga by (simp add: ss_def blank_def)
      have mk: "marked st1 (Some a)" using ga by (simp add: marked_def st1_def) (simp add: ss_def blank_def)
      show ?thesis
      proof (cases "hlink h")
        case None
        let ?t = "write_ptr (InTail a) (Some ds) st1"
        have "marked st (Some ds)" by (rule assms(5) [OF Some h(1) None])
        then have md: "marked st1 (Some ds)" using assms(2) ne by (simp add: marked_def st1_def)
        have "bal [Dec (Some ds)] (write_ptr d (Some a) st1) su"
          using bal_swap [OF b1 _ f1, of d] dst_slot [OF b1 _ d1(1)] d1(2) by simp
        moreover have "slot_ok (set (dying [])) (InTail a) (write_ptr d (Some a) st1)"
          using sa unfolding read_tail_write(3) [OF dn] by (simp del: slot_ok.simps)
        ultimately have "bal (Dec (read_ptr (InTail a) (write_ptr d (Some a) st1)) # [])
            (write_ptr (InTail a) (Some ds) (write_ptr d (Some a) st1)) su"
          by (rule bal_swap [OF _ _ frames_ok_write [OF f1]])
        moreover have "read_ptr (InTail a) (write_ptr d (Some a) st1) = None"
          unfolding read_tail_write(1) [OF dn] using la .
        ultimately have "bal [] (write_ptr d (Some a) ?t) su"
          unfolding write_tail_swap [OF dn] by (simp add: bal_def incount_def del: read_ptr.simps)
        moreover have "tri (write_ptr d (Some a) ?t)"
        proof (rule tri_write)
          show "tri ?t" by (rule tri_write [OF t1 sa md])
          show "marked ?t (Some a)" using mk by (auto simp: marked_def write_get)
          show "slot_ok {} d ?t"
            using dst_slot [OF b1 _ d1(1)] dn by (cases d; auto simp: write_get; simp add: write_ptr.simps upd_def)
        qed
        moreover have "frames_ok (write_ptr d (Some a) ?t)" by (intro frames_ok_write f1)
        moreover have "slicea a s m d st = Inr (write_ptr d (Some a) ?t)"
          using Some h False None by (simp add: slicea_def Let_def write_ptr.simps(3) st1_def ss_def)
        moreover have "slices_ok ?t"
          by (rule slices_link [OF s1 ga]) (use ne h(1) assms(2) in \<open>simp add: st1_def ss_def\<close>)
        then have "slices_ok (write_ptr d (Some a) ?t)" by (rule slices_fam [OF _ lw])
        ultimately show ?thesis by (auto simp: heap_ok_def)
      next
        case r: (Some r)
        have "live st (Some r)"
          by (rule bal_live_obj [OF b h]) (simp_all add: obj_ptrs_def r)
        then have lr: "live st1 (Some r)" using assms(2) by (auto simp: live_def st1_def room_def)
        obtain st2 where i: "incref (Some r) st1 = Inr st2" "bal [Dec (Some r), Dec (Some a)] st2 su" "tri st2"
          "marked st2 (Some r)" "same_shape st1 st2" "\<And>x. marked st1 x \<Longrightarrow> marked st2 x"
          "\<And>D d. slot_ok D d st1 \<Longrightarrow> slot_ok D d st2" "slices_ok st2"
          by (rule incref_ok [OF b1 t1 lr]) (simp, use s1 in blast)
        let ?t = "write_ptr (InTail a) (Some r) st2"
        have f2: "frames_ok st2" using f1 i(5) by (auto simp: same_shape_def intro: frames_ok_eq)
        have sa2: "slot_ok {} (InTail a) st2" by (rule i(7) [OF sa])
        have la2: "read_ptr (InTail a) st2 = None" using la shape_dst(2) [OF i(5), of "InTail a"] by simp
        have "bal (Dec None # [Dec (Some a)]) ?t su"
          using bal_swap [OF i(2) _ f2, of "InTail a"] sa2 la2 by (simp del: read_ptr.simps slot_ok.simps)
        then have bt: "bal [Dec (Some a)] ?t su" by (simp add: bal_def incount_def)
        have tt: "tri ?t" by (rule tri_write [OF i(3) sa2 i(4)])
        have ft: "frames_ok ?t" by (rule frames_ok_write [OF f2])
        obtain k where k: "get st2 a = Some k" "hlink k = None" using la2 sa2 by auto
        have st: "slices_ok ?t"
        proof (rule slices_link [OF i(8) k(1)])
          fix rh2 assume r2: "get st2 r = Some rh2" "hcolor rh2 \<noteq> sweeper st2"
          have ra: "r \<noteq> a" using \<open>live st (Some r)\<close> assms(2) by (auto simp: live_def room_def)
          obtain rh where rh: "get st r = Some rh" "hcolor rh \<noteq> sweeper st" using \<open>live st (Some r)\<close> by (auto simp: live_def)
          have "htyp rh = htyp h"
            using sl h r rh assms(4) Some unfolding slices_ok_def array_at_def by metis
          moreover have "get st1 r = Some rh" using ra rh(1) assms(2) by (simp add: st1_def)
          then have "shape rh2 = shape rh" by (rule same_shape_get(2) [OF i(5) r2(1)])
          moreover have "shape k = shape ss" by (rule same_shape_get(2) [OF i(5) k(1) ga])
          ultimately show "htyp rh2 = htyp k" by (simp add: shape_def ss_def)
        qed
        have dt: "dst_ok d ?t" by (rule dst_ok_link [OF shape_dst(1) [OF i(5) d1(1)] k])
        have mt: "marked ?t (Some a)" using i(6) [OF mk] by (auto simp: marked_def write_get)
        obtain st' where st': "replace d (Some a) ?t = Inr st'" "bal [] st' su" "tri st'" "frames_ok st'"
          "shrinks (write_ptr d (Some a) ?t) st'" "slices_ok st'"
          by (rule finish_ok [OF bt tt ft dt mt]) (simp_all add: st)
        have rt: "read_ptr d ?t = Some ds"
          unfolding read_tail_write(2) [OF dn] using shape_dst(2) [OF i(5)] d1(2) by simp
        obtain q where q: "run_work [Dec (Some ds)] ?t = Inr q" "st' = write_ptr d (Some a) q"
          using st'(1) by (auto simp: replace_def destroy_def rt bindR_def split: sum.splits)
        have "reach (write_ptr d (Some a) ?t) a"
          by (rule reach_written [OF dst_slot [OF bt _ dt] dt ft bal_blocks [OF bt]]) simp
        then have "live st' (Some a)" by (rule reach_shrinks [OF _ st'(5,2)]) simp
        then obtain h' where h': "get st' a = Some h'" by (auto simp: live_def)
        have gq: "get q a = Some h'" using h' unfolding q(2) write_get_other [OF dn] .
        have "get (write_ptr d (Some a) ?t) a = Some (k\<lparr>hlink := Some r\<rparr>)"
          unfolding write_get_other [OF dn] using k(1) by (simp add: write_get)
        then have "h' = k\<lparr>hlink := Some r\<rparr>\<lparr>href := href h'\<rparr>"
          using st'(5) h' unfolding shrinks_def by fastforce
        then have lq: "hlink h' = Some r" by (metis hobj.select_convs(6) hobj.surjective hobj.update_convs(2,6))
        let ?n = "\<lambda>h. h\<lparr>hlink := None\<rparr>"
        have "upd a ?n ?t = st2"
          using k getD [OF k(1)] by (simp add: write_ptr.simps upd_def)
        moreover have "run_work [Dec (Some ds)] (upd a ?n ?t) = Inr (upd a ?n q)"
          by (rule run_work_upd [OF _ _ q(1)]) (simp_all add: gq)
        ultimately have "run_work [Dec (Some ds)] st2 = Inr (upd a ?n q)" by simp
        moreover have "upd a (\<lambda>x. x\<lparr>hlink := Some r\<rparr>) (upd a ?n q) = q"
          using gq getD [OF gq] lq by (simp add: upd_def)
        ultimately have "slicea a s m d st = Inr st'"
          using Some h False r i(1) by (simp add: slicea_def Let_def destroy_def q(2) flip: ss_def st1_def)
        then show ?thesis using st'(2-4,6) by (auto simp: heap_ok_def)
      qed
    qed
  qed
qed

end
