(* ===== verification/HeapSweep.thy ===== *)
theory HeapSweep
  imports HeapGC Steps
begin

text \<open>
  The collector: a call of \<open>rungc\<close> at any moment keeps the heap safe, and with the instructions it is
  the step relation whose reachable states never hold a pointer to a freed block.
\<close>

section \<open>Marking\<close>

lemma fold_setmark:
  assumes "bal w st s" and "sweeper st \<noteq> propagator" and "\<And>p. p \<in> set ps \<Longrightarrow> live st p"
  shows "darkens st (fold setmark ps st)" "bal w (fold setmark ps st) s"
    "\<And>p. p \<in> set ps \<Longrightarrow> marked (fold setmark ps st) p"
proof -
  have "darkens st (fold setmark ps st) \<and> bal w (fold setmark ps st) s \<and>
      (\<forall>p \<in> set ps. marked (fold setmark ps st) p)"
    using assms
  proof (induction ps arbitrary: st)
    case (Cons p ps)
    let ?st = "setmark p st"
    have d: "darkens st ?st" by (rule setmark_darkens) (simp add: Cons.prems)
    have l: "live ?st q" if "q \<in> set ps" for q
      by (rule live_darkens [OF d Cons.prems(2)]) (simp add: Cons.prems that)
    have b: "bal w ?st s" by (rule bal_setmark [OF Cons.prems(1) _ Cons.prems(2)]) (simp add: Cons.prems)
    have ih: "darkens ?st (fold setmark ps ?st)" "bal w (fold setmark ps ?st) s"
      "\<forall>p \<in> set ps. marked (fold setmark ps ?st) p"
      using Cons.IH [OF b _ l] Cons.prems(2) by simp_all
    have "marked (fold setmark ps ?st) p"
      by (rule marked_darkens [OF ih(1) setmark_marked]) (simp add: Cons.prems)
    then show ?case using darkens_trans [OF d ih(1)] ih by simp
  qed simp
  then show "darkens st (fold setmark ps st)" "bal w (fold setmark ps st) s"
    "\<And>p. p \<in> set ps \<Longrightarrow> marked (fold setmark ps st) p" by auto
qed

lemma fold_markheap: "fold (markheap t) els st = fold setmark (concat (map (ptrs t) els)) st"
  by (induction els arbitrary: st) (simp_all add: markheap_def)

lemma darkens_sweeper: "darkens st st' \<Longrightarrow> sweeper st' = sweeper st"
  by (simp add: darkens_def)

lemma live_els:
  assumes "bal w st s" and "dying w = []" and "get st a = Some h" and "hcolor h \<noteq> sweeper st"
    and "p \<in> set (obj_ptrs h)"
  shows "live st p"
  using bal_live_obj [OF assms(1,3,4) _ assms(5)] assms(2) by simp

lemma mark_tail_darkens:
  assumes "bal [] st s" and "sweeper st \<noteq> propagator" and "live st p"
  shows "darkens st (fst (mark_tail v p st)) \<and> bal [] (fst (mark_tail v p st)) s \<and> marked (fst (mark_tail v p st)) p"
  using assms
proof (induction v p st rule: mark_tail.induct)
  case (1 v st)
  then show ?case by simp
next
  case (2 a st)
  let ?f = "\<lambda>h. h\<lparr>hcolor := propagator\<rparr>"
  obtain h where h: "get st a = Some h" "hcolor h \<noteq> sweeper st" using "2.prems"(3) by (auto simp: live_def)
  have u: "upd a ?f st = put a (Some (?f h)) st" by (simp add: upd_def h(1))
  have a: "a < length (arena st)" using getD [OF h(1)] by simp
  have "bal [] (put a (Some (?f h)) st) s"
    by (rule bal_recolour [OF "2.prems"(1) h]) (use "2.prems"(2) in simp)
  moreover have "darkens st ((put a (Some (?f h)) st)\<lparr>nprop := True\<rparr>)"
    using h a by (auto simp: darkens_def dark_def)
  moreover have "marked ((put a (Some (?f h)) st)\<lparr>nprop := True\<rparr>) (Some a)"
    using a by (simp add: marked_def)
  ultimately show ?case by (simp add: u)
next
  case (3 v a st)
  obtain h where h: "get st a = Some h" "hcolor h \<noteq> sweeper st" using "3.prems"(3) by (auto simp: live_def)
  define ps where "ps = Some a # concat (map (ptrs (htyp h)) (hels h))"
  let ?st = "fold (markheap (htyp h)) (hels h) (setmark (Some a) st)"
  have e: "?st = fold setmark ps st" by (simp add: fold_markheap ps_def)
  have lp: "live st q" if "q \<in> set ps \<or> q = hlink h" for q
  proof -
    have "q = Some a \<or> q \<in> set (obj_ptrs h)" using that by (auto simp: ps_def obj_ptrs_def)
    then show ?thesis using "3.prems"(3) live_els [OF "3.prems"(1) _ h] by auto
  qed
  have lq: "live st q" if "q \<in> set ps" for q using lp that by blast
  have f: "darkens st ?st" "bal [] ?st s" "marked ?st (Some a)"
    unfolding e
    by (rule fold_setmark(1) [OF "3.prems"(1,2)], erule lq, rule fold_setmark(2) [OF "3.prems"(1,2)], erule lq,
        rule fold_setmark(3) [OF "3.prems"(1,2)], erule lq, simp add: ps_def)
  have "live ?st (hlink h)" by (rule live_darkens [OF f(1) "3.prems"(2)]) (simp add: lp)
  then have ih: "darkens ?st (fst (mark_tail v (hlink h) ?st))" "bal [] (fst (mark_tail v (hlink h) ?st)) s"
    using "3.IH" [OF h(1) f(2)] "3.prems"(2) darkens_sweeper [OF f(1)] by auto
  show ?case
    using darkens_trans [OF f(1) ih(1)] ih(2) marked_darkens [OF ih(1) f(3)] by (simp add: h(1))
qed

text \<open>\<open>mark\<close> leaves every pointer of the block marked.\<close>

lemma mark_darkens:
  assumes "bal [] st s" and "sweeper st \<noteq> propagator" and "get st a = Some h" and "hcolor h \<noteq> sweeper st"
    and "slices_ok st"
  shows "darkens st (fst (mark v h st)) \<and> bal [] (fst (mark v h st)) s \<and>
    (\<forall>p \<in> set (obj_ptrs h). marked (fst (mark v h st)) p)"
proof -
  have wf: "wf_obj h" using assms(1,3) by (simp add: bal_def)
  have lo: "live st p" if "p \<in> set (obj_ptrs h)" for p
    by (rule live_els [OF assms(1) _ assms(3,4) that]) simp
  let ?ps = "concat (map (ptrs (htyp h)) (hels h))"
  have fs: "darkens st (fold setmark ps st) \<and> bal [] (fold setmark ps st) s \<and>
      (\<forall>p \<in> set ps. marked (fold setmark ps st) p)" if "\<And>p. p \<in> set ps \<Longrightarrow> live st p" for ps
    using fold_setmark [OF assms(1,2) that] by blast
  show ?thesis
  proof (cases "hkind h")
    case KMem
    then have "obj_ptrs h = ?ps @ [None]" using wf by (simp add: obj_ptrs_def wf_obj_def)
    then show ?thesis using fs [of ?ps] lo by (auto simp: mark_def KMem fold_markheap)
  next
    case KArray
    show ?thesis
    proof (cases "hlink h")
      case None
      then have "obj_ptrs h = ?ps @ [None]" by (simp add: obj_ptrs_def)
      then show ?thesis using fs [of ?ps] lo by (auto simp: mark_def KArray markarray_def None fold_markheap setmark_def)
    next
      case (Some r)
      have o: "obj_ptrs h = [Some r]" using wf KArray Some by (simp add: obj_ptrs_def wf_obj_def)
      obtain rh where rh: "get st r = Some rh" "hcolor rh \<noteq> sweeper st" using lo o by (auto simp: live_def)
      have "markarray h st = fold setmark (Some r # concat (map (ptrs (htyp h)) (take (hlen h) (drop (hoff h) (hels rh))))) st"
        by (simp add: markarray_def Some rh(1) fold_markheap)
      moreover have "live st p" if "p \<in> set (ptrs (htyp h) ws)" "ws \<in> set (take (hlen h) (drop (hoff h) (hels rh)))" for p ws
      proof -
        have "htyp rh = htyp h"
          using assms(5) assms(3,4) KArray Some rh unfolding slices_ok_def by metis
        moreover have "ws \<in> set (hels rh)" using that(2) by (meson in_set_dropD in_set_takeD)
        ultimately have "p \<in> set (obj_ptrs rh)" using that(1) by (auto simp: obj_ptrs_def)
        then show ?thesis by (rule live_els [OF assms(1) _ rh, rotated]) simp
      qed
      ultimately show ?thesis
        using fs [of "Some r # concat (map (ptrs (htyp h)) (take (hlen h) (drop (hoff h) (hels rh))))"] lo
        by (auto simp: mark_def KArray o)
    qed
  next
    case KList
    let ?st = "fold (markheap (htyp h)) (hels h) st"
    have f: "darkens st ?st" "bal [] ?st s" "\<forall>p \<in> set ?ps. marked ?st p"
      using fs [of ?ps] lo by (auto simp: fold_markheap obj_ptrs_def)
    have "live ?st (hlink h)" by (rule live_darkens [OF f(1) assms(2)]) (simp add: lo obj_ptrs_def)
    then have t: "darkens ?st (fst (mark_tail v (hlink h) ?st)) \<and> bal [] (fst (mark_tail v (hlink h) ?st)) s \<and>
        marked (fst (mark_tail v (hlink h) ?st)) (hlink h)"
      using mark_tail_darkens [OF f(2)] darkens_sweeper [OF f(1)] assms(2) by simp
    then show ?thesis
      using darkens_trans [OF f(1)] marked_darkens f(3) by (auto simp: mark_def KList obj_ptrs_def)
  next
    case KOther
    then have "obj_ptrs h = [None]" using wf by (simp add: obj_ptrs_def wf_obj_def)
    then show ?thesis using assms(1) by (simp add: mark_def KOther)
  qed
qed


section \<open>The walk\<close>

lemma gcptr_sel [simp]:
  "get (st\<lparr>gcptr := g\<rparr>) = get st" "root_ptrs (st\<lparr>gcptr := g\<rparr>) = root_ptrs st"
  "bal w (st\<lparr>gcptr := g\<rparr>) s = bal w st s" "frames_ok (st\<lparr>gcptr := g\<rparr>) = frames_ok st"
  "slices_ok (st\<lparr>gcptr := g\<rparr>) = slices_ok st" "marked (st\<lparr>gcptr := g\<rparr>) = marked st"
  "put a b (st\<lparr>gcptr := g\<rparr>) = (put a b st)\<lparr>gcptr := g\<rparr>"
  by (simp_all add: get_def root_ptrs_def fun_eq_iff bal_def incount_def refs_def frames_ok_def slices_ok_def marked_def put_def)

lemma darkens_gcptr: "darkens st st' \<Longrightarrow> darkens (st\<lparr>gcptr := g\<rparr>) (st'\<lparr>gcptr := g\<rparr>)"
  by (simp add: darkens_def)

definition beyond :: "nat option \<Rightarrow> nat \<Rightarrow> bool" where
  "beyond g a \<longleftrightarrow> (\<forall>i. g = Some i \<longrightarrow> i \<le> a)"

lemma tri_at:
  "tri_but X (st\<lparr>gcptr := g\<rparr>) \<longleftrightarrow> colours_ok st \<and> epoch_ok st \<and>
    (\<forall>p \<in> set (root_ptrs st). marked st p) \<and>
    (\<forall>a h. get st a = Some h \<longrightarrow> hcolor h = mutator st \<longrightarrow> a \<in> X \<or> (\<forall>p \<in> set (obj_ptrs h). marked st p)) \<and>
    (\<forall>a h. get st a = Some h \<longrightarrow> hcolor h = propagator \<longrightarrow> nprop st \<or> beyond g a) \<and>
    (\<forall>a h. get st a = Some h \<longrightarrow> hcolor h = sweeper st \<longrightarrow> beyond g a)"
  by (cases g) (simp_all add: tri_but_def ahead_def beyond_def colours_ok_def epoch_ok_def)

lemma tri_gcptr:
  assumes "tri (st\<lparr>gcptr := Some i\<rparr>)" and "\<And>q. g = Some q \<Longrightarrow> q \<le> i"
  shows "tri (st\<lparr>gcptr := g\<rparr>)"
proof -
  have "beyond g a" if "beyond (Some i) a" for a
    using that assms(2) by (fastforce simp: beyond_def)
  then show ?thesis using assms(1) unfolding tri_at by blast
qed

lemma tri_advance:
  assumes "tri (st\<lparr>gcptr := Some i\<rparr>)"
    and "\<And>h. get st i = Some h \<Longrightarrow> hcolor h \<noteq> sweeper st \<and> (hcolor h = propagator \<longrightarrow> nprop st)"
  shows "tri (st\<lparr>gcptr := Some (i + 1)\<rparr>)"
proof -
  note t = assms(1) [unfolded tri_at]
  have a: "beyond (Some (i + 1)) x" if "beyond (Some i) x" "x \<noteq> i" for x
    using that by (simp add: beyond_def)
  have "nprop st \<or> beyond (Some (i + 1)) x" if "get st x = Some h" "hcolor h = propagator" for x h
    using a [of x] assms(2) [of h] t that by (cases "x = i") blast+
  moreover have "beyond (Some (i + 1)) x" if "get st x = Some h" "hcolor h = sweeper st" for x h
    using a [of x] assms(2) [of h] t that by (cases "x = i") blast+
  ultimately show ?thesis using t unfolding tri_at by blast
qed

text \<open>Visiting a grey block: it turns black and its pointers are marked.\<close>

lemma visit_ok:
  assumes "bal [] st s" and "tri (st\<lparr>gcptr := Some i\<rparr>)" and "slices_ok st" and "get st i = Some h" and "hcolor h = propagator"
    and "mark v h (put i (Some (h\<lparr>hcolor := mutator st\<rparr>)) st) = (st1, v1)"
  shows "bal [] st1 s" "tri (st1\<lparr>gcptr := Some i\<rparr>)" "slices_ok st1"
    "\<And>h. get st1 i = Some h \<Longrightarrow> hcolor h \<noteq> sweeper st1 \<and> (hcolor h = propagator \<longrightarrow> nprop st1)"
    "length (arena st1) = length (arena st)" "frames st1 = frames st"
proof -
  let ?h = "h\<lparr>hcolor := mutator st\<rparr>"
  let ?st = "put i (Some ?h) st"
  have i: "i < length (arena st)" using getD [OF assms(4)] by simp
  have c: "colours_ok st" using assms(2) by (simp add: tri_but_def colours_ok_def)
  have ng: "sweeper st \<noteq> propagator" "mutator st \<noteq> propagator" "mutator st \<noteq> sweeper st"
    using c by (auto simp: colours_ok_def propagator_def)
  have b: "bal [] ?st s" by (rule bal_recolour [OF assms(1,4)]) (use assms(5) ng in auto)
  have sl: "slices_ok ?st"
    by (rule slices_fam [OF assms(3)]) (use assms(4,5) ng in \<open>auto simp: fam_def\<close>)
  have mk: "marked ?st p" if "marked st p" for p
    using that i by (auto simp: marked_def)
  have t: "tri_but {i} (?st\<lparr>gcptr := Some i\<rparr>)"
    unfolding tri_at
  proof (intro conjI allI impI ballI)
    note t0 = assms(2) [unfolded tri_at]
    show "colours_ok ?st" using c by (auto simp: colours_ok_def)
    have "hcolor k \<in> {mutator st, propagator}"
      if "\<forall>a h. get st a = Some h \<longrightarrow> hcolor h \<in> {mutator st, propagator}" "get ?st a = Some k" for a k
      using that by (cases "a = i") (auto split: if_splits)
    then show "epoch_ok ?st" using t0 unfolding epoch_ok_def put_sel by blast
    show "marked ?st p" if "p \<in> set (root_ptrs ?st)" for p
      using t0 that mk by simp
    show "a \<in> {i} \<or> (\<forall>p \<in> set (obj_ptrs k). marked ?st p)"
      if "get ?st a = Some k" "hcolor k = mutator ?st" for a k
      using t0 that mk by (cases "a = i") simp_all
    show "nprop ?st \<or> beyond (Some i) a"
      if "get ?st a = Some k" "hcolor k = propagator" for a k
      using t0 that i ng by (cases "a = i") (simp, auto)
    show "beyond (Some i) a"
      if "get ?st a = Some k" "hcolor k = sweeper ?st" for a k
      using t0 that i ng by (cases "a = i") (simp, auto)
  qed
  have st1: "st1 = fst (mark v h ?st)" using assms(6) by simp
  have hm: "mark v h S = mark v ?h S" for S by (auto simp: mark_def markarray_def split: kind.split option.split)
  have g: "get ?st i = Some ?h" using i by simp
  have m: "darkens ?st st1 \<and> bal [] st1 s \<and> (\<forall>p \<in> set (obj_ptrs ?h). marked st1 p)"
    unfolding st1 hm by (rule mark_darkens [OF b _ g _ sl]) (use ng in simp_all)
  then show "bal [] st1 s" by simp
  have d: "darkens ?st st1" using m by simp
  have fl: "mutator st1 = mutator st" "sweeper st1 = sweeper st" using d by (simp_all add: darkens_def)
  show "slices_ok st1" by (rule slices_fam [OF sl fam_darkens [OF d]])
  have t1: "tri_but {i} (st1\<lparr>gcptr := Some i\<rparr>)" by (rule tri_darkens [OF t darkens_gcptr [OF d]])
  obtain k where k: "get st1 i = Some (?h\<lparr>hcolor := k\<rparr>)" "k = mutator st \<or> k = propagator \<and> nprop st1"
    using darkens_get [OF d g] by auto
  then show "\<And>h. get st1 i = Some h \<Longrightarrow> hcolor h \<noteq> sweeper st1 \<and> (hcolor h = propagator \<longrightarrow> nprop st1)"
    using ng fl by auto
  have "\<forall>p \<in> set (obj_ptrs x). marked st1 p" if "get st1 i = Some x" for x
  proof -
    have "x = ?h\<lparr>hcolor := k\<rparr>" using k(1) that by simp
    then have "obj_ptrs x = obj_ptrs ?h" by (simp only: obj_ptrs_href)
    then show ?thesis using m by simp
  qed
  then show "tri (st1\<lparr>gcptr := Some i\<rparr>)" using t1 unfolding tri_at by blast
  show "length (arena st1) = length (arena st)" "frames st1 = frames st" using d by (simp_all add: darkens_def)
qed

text \<open>Sweeping a condemned block: no block that counts points to it.\<close>

lemma sweep_ok:
  assumes "bal [] st s" and "tri (st\<lparr>gcptr := Some i\<rparr>)" and "slices_ok st" and "get st i = Some h" and "hcolor h = sweeper st"
  shows "bal [] (put i None st) s" "tri ((put i None st)\<lparr>gcptr := Some i\<rparr>)" "slices_ok (put i None st)"
proof -
  have i: "i < length (arena st)" "arena st ! i = Some h" using getD [OF assms(4)] by simp_all
  have "held (sweeper st) {} (arena (put i None st)) x = held (sweeper st) {} (arena st) x" for x
    using held_update [OF i(1), of "sweeper st" "{}" None x] by (simp add: own_def i(2) assms(5))
  then have "incount [] (put i None st) x = incount [] st x" for x by (simp add: incount_def)
  moreover have "refs (put i None st) x = refs st x" for x
    using assms(4,5) by (auto simp: refs_def)
  ultimately show "bal [] (put i None st) s" using assms(1) by (auto simp: bal_def split: if_splits)
  show "slices_ok (put i None st)" by (rule slices_fam [OF assms(3) fam_put(2)])
  show "tri ((put i None st)\<lparr>gcptr := Some i\<rparr>)"
  proof (rule tri_same [OF assms(2)])
    show "same_gc (st\<lparr>gcptr := Some i\<rparr>) ((put i None st)\<lparr>gcptr := Some i\<rparr>)"
      by (auto simp: same_gc_def split: if_splits)
  qed (use assms(2) in \<open>auto simp: tri_but_def split: if_splits\<close>)
qed


text \<open>A pass ends with every block visited.\<close>

definition walk_ok :: "(nat \<Rightarrow> nat) \<Rightarrow> hst \<times> bool \<Rightarrow> bool" where
  "walk_ok s r \<longleftrightarrow> bal [] (fst r) s \<and> tri (fst r) \<and> frames_ok (fst r) \<and> slices_ok (fst r) \<and>
    (\<not> snd r \<longrightarrow> gcptr (fst r) = None \<longrightarrow>
      (\<exists>n \<ge> length (arena (fst r)). tri ((fst r)\<lparr>gcptr := Some n\<rparr>)))"

lemma walk_stop:
  assumes "bal [] st s" and "tri (st\<lparr>gcptr := Some i\<rparr>)" and "frames_ok st" and "slices_ok st"
    and "\<And>h. get st i = Some h \<Longrightarrow> hcolor h \<noteq> sweeper st \<and> (hcolor h = propagator \<longrightarrow> nprop st)"
    and "length (arena st) \<le> i + 1"
  shows "walk_ok s (st\<lparr>gcptr := None\<rparr>, False)"
proof -
  have t: "tri (st\<lparr>gcptr := Some (i + 1)\<rparr>)" by (rule tri_advance [OF assms(2,5)])
  then have "tri (st\<lparr>gcptr := None\<rparr>)" by (rule tri_gcptr) simp
  then show ?thesis using assms(1,3,4,6) t by (auto simp: walk_ok_def)
qed

lemma gc_loop_ok:
  assumes "bal [] st s" and "tri (st\<lparr>gcptr := Some i\<rparr>)" and "frames_ok st" and "slices_ok st"
    and "\<And>q. prev = Some q \<Longrightarrow> q \<le> i"
  shows "walk_ok s (gc_loop v prev i st)"
  using assms
proof (induction v prev i st rule: gc_loop.induct)
  case (1 v prev i st)
  note p = "1.prems"
  show ?case
  proof (cases "v = 0")
    case True
    then show ?thesis unfolding gc_loop.simps [of v prev i st] using p by (simp add: walk_ok_def)
  next
    case v: False
    have advance: "walk_ok s (if length (arena st) \<le> i + 1 then (st\<lparr>gcptr := None\<rparr>, False)
        else gc_loop (v - 1) (Some i) (i + 1) st)"
      if ok: "\<And>h. get st i = Some h \<Longrightarrow> hcolor h \<noteq> sweeper st \<and> (hcolor h = propagator \<longrightarrow> nprop st)"
        and ih: "\<not> length (arena st) \<le> i + 1 \<Longrightarrow> tri (st\<lparr>gcptr := Some (i + 1)\<rparr>) \<Longrightarrow>
          walk_ok s (gc_loop (v - 1) (Some i) (i + 1) st)"
      using walk_stop [OF p(1-4) ok] ih tri_advance [OF p(2) ok] by auto
    show ?thesis
    proof (cases "get st i")
      case None
      have "walk_ok s (gc_loop (v - 1) (Some i) (i + 1) st)"
        if "\<not> length (arena st) \<le> i + 1" "tri (st\<lparr>gcptr := Some (i + 1)\<rparr>)"
        by (rule "1.IH"(1) [OF v None that(1) p(1) that(2) p(3,4)]) simp
      then show ?thesis using advance None v by (simp add: gc_loop.simps [of v])
    next
      case h: (Some h)
      show ?thesis
      proof (cases "hcolor h = propagator")
        case grey: True
        obtain st1 v1 where m: "mark v h (put i (Some (h\<lparr>hcolor := mutator st\<rparr>)) st) = (st1, v1)" by fastforce
        note vo = visit_ok [OF p(1,2,4) h grey m]
        have f1: "frames_ok st1" using p(3) vo(6) by (simp add: frames_ok_def)
        show ?thesis
        proof (cases "length (arena st) \<le> i + 1")
          case True
          then show ?thesis using walk_stop [OF vo(1,2) f1 vo(3,4)] v h grey m vo(5)
            by (simp add: gc_loop.simps [of v])
        next
          case False
          have ta: "tri (st1\<lparr>gcptr := Some (i + 1)\<rparr>)" by (rule tri_advance [OF vo(2)]) (rule vo(4))
          have "walk_ok s (gc_loop (v1 - 1) (Some i) (i + 1) st1)"
            by (rule "1.IH"(2) [OF v h grey m [symmetric] False vo(1) ta f1 vo(3)]) simp
          then show ?thesis using v h grey m False by (simp add: gc_loop.simps [of v])
        qed
      next
        case ng: False
        show ?thesis
        proof (cases "hcolor h = sweeper st")
          case sw: True
          note so = sweep_ok [OF p(1,2,4) h sw]
          have fo: "frames_ok (put i None st)" using p(3) by (simp add: frames_ok_def)
          show ?thesis
          proof (cases prev)
            case None
            have "tri ((put i None st)\<lparr>gcptr := None\<rparr>)" by (rule tri_gcptr [OF so(2)]) simp
            then show ?thesis using v h ng sw None so fo by (simp add: gc_loop.simps [of v] walk_ok_def)
          next
            case (Some q)
            have "tri ((put i None st)\<lparr>gcptr := Some q\<rparr>)" by (rule tri_gcptr [OF so(2)]) (use p(5) Some in simp)
            then have "walk_ok s (gc_loop (v - 1) prev q (put i None st))"
              by (intro "1.IH"(3) [OF v h ng sw Some so(1) _ fo so(3)]) (use Some in auto)
            then show ?thesis using v h ng sw Some by (simp add: gc_loop.simps [of v])
          qed
        next
          case False
          have "walk_ok s (gc_loop (v - 1) (Some i) (i + 1) st)"
            if "\<not> length (arena st) \<le> i + 1" "tri (st\<lparr>gcptr := Some (i + 1)\<rparr>)"
            by (rule "1.IH"(4) [OF v h ng False that(1) p(1) that(2) p(3,4)]) simp
          then show ?thesis using advance h ng False v by (simp add: gc_loop.simps [of v])
        qed
      qed
    qed
  qed
qed

section \<open>The end of an epoch\<close>

lemma rootset_fold:
  "rootset st = fold setmark (root_ptrs st)
    (st\<lparr>mutator := gccolor st mod 3, marker := (gccolor st - 1) mod 3, sweeper := (gccolor st - 2) mod 3\<rparr>)"
proof -
  have "fold (\<lambda>(t, ws). markheap t ws) fs S = fold setmark (concat (map (\<lambda>(t, ws). ptrs t ws) fs)) S" for fs S
    by (induction fs arbitrary: S) (auto simp: markheap_def)
  then show ?thesis by (simp add: rootset_def root_ptrs_def Let_def)
qed

text \<open>When nothing is grey and nothing condemned, the unmarked blocks may be condemned.\<close>

lemma mod3:
  fixes g :: nat
  shows "g mod 3 < 3" "(g + 2) mod 3 < 3" "g mod 3 \<noteq> (g + 2) mod 3" "(g + 1) mod 3 \<noteq> g mod 3"
    "(g + 1) mod 3 \<noteq> (g + 2) mod 3" "(g + 1) mod 3 < 3" "(g + 1 + 2) mod 3 = g mod 3" "(g + 1 + 1) mod 3 = (g + 2) mod 3"
  by presburger+

lemma tri_nprop:
  assumes "tri st" and "gcptr st = None"
  shows "tri (st\<lparr>nprop := n\<rparr>)"
proof -
  have "colours_ok (st\<lparr>nprop := n\<rparr>) = colours_ok st" "epoch_ok (st\<lparr>nprop := n\<rparr>) = epoch_ok st"
    "marked (st\<lparr>nprop := n\<rparr>) = marked st"
    by (simp_all add: colours_ok_def epoch_ok_def marked_def fun_eq_iff)
  moreover have "ahead (st\<lparr>nprop := n\<rparr>) a" for a using assms(2) by (simp add: ahead_def)
  ultimately show ?thesis using assms(1) by (simp add: tri_but_def)
qed

lemma flip_ok:
  assumes "bal [] st s" and "tri st" and "frames_ok st" and "slices_ok st" and "gcptr st = None"
    and "\<And>a h. get st a = Some h \<Longrightarrow> hcolor h \<noteq> propagator \<and> hcolor h \<noteq> sweeper st"
  shows "heap_ok (rootset (st\<lparr>gccolor := gccolor st + 1\<rparr>))"
proof -
  define m sw where "m = mutator st" and "sw = (gccolor st + 2) mod 3"
  define S where "S = st\<lparr>gccolor := gccolor st + 1, mutator := (gccolor st + 1) mod 3, marker := m, sweeper := sw\<rparr>"
  have c: "colours_ok st" and e: "epoch_ok st" using assms(2) by (simp_all add: tri_but_def)
  have g3: "gccolor st \<ge> 3" and mg: "m = gccolor st mod 3" using e by (simp_all add: epoch_ok_def m_def)
  have "gccolor st + 2 = gccolor st - 1 + 3" using g3 by simp
  then have sw: "(gccolor st - 1) mod 3 = sw" unfolding sw_def by (metis mod_add_self2)
  have d: "m < 3" "sw < 3" "m \<noteq> sw" "(gccolor st + 1) mod 3 \<noteq> m" "(gccolor st + 1) mod 3 \<noteq> sw"
    "(gccolor st + 1) mod 3 < 3" unfolding mg sw_def by (rule mod3)+
  have two: "hcolor h = m \<or> hcolor h = sw" if "get st a = Some h" for a h
  proof -
    have "hcolor h \<in> {mutator st, marker st}" using c assms(6) [OF that] that unfolding colours_ok_def by blast
    moreover have "marker st = sw \<or> hcolor h \<in> {mutator st, propagator}"
      using e that unfolding epoch_ok_def sw_def by blast
    ultimately show ?thesis using assms(6) [OF that] by (auto simp: m_def)
  qed
  have mk: "hcolor h = m" if "marked st (Some x)" "get st x = Some h" for x h
    using that assms(6) by (auto simp: marked_def m_def)
  have gS: "get S = get st" by (simp add: S_def get_def fun_eq_iff)
  have rS: "root_ptrs S = root_ptrs st" by (simp add: S_def root_ptrs_def)
  have own_le: "own sw {} a b x \<le> own (sweeper st) {} a b x" if "\<And>h. b = Some h \<Longrightarrow> hcolor h \<noteq> sweeper st" for a b x
    using that by (cases b) (auto simp: own_def)
  have ar: "arena st ! a = Some h \<Longrightarrow> a < length (arena st) \<Longrightarrow> get st a = Some h" for a h by (simp add: get_def)
  have held_le: "held sw {} (arena st) x \<le> held (sweeper st) {} (arena st) x" for x
    unfolding held_def by (rule sum_mono) (rule own_le, use ar assms(6) in blast)
  have in_le: "incount [] S x \<le> incount [] st x" for x
    using held_le [of x] by (simp add: incount_def rS) (simp add: S_def)
  have zero: "incount [] S x = 0" if x: "get st x = Some h" "hcolor h = sw" for x h
  proof -
    have no: "Some x \<notin> set ps" if "\<forall>p \<in> set ps. marked st p" for ps
      using mk [of x h] x d(3) that by auto
    have "own sw {} a (arena st ! a) x = 0" if a: "a < length (arena st)" for a
    proof (cases "arena st ! a")
      case (Some k)
      then have k: "get st a = Some k" using ar a by simp
      show ?thesis
      proof (cases "hcolor k = sw")
        case False
        then have "\<forall>p \<in> set (obj_ptrs k). marked st p"
          using two [OF k] k assms(2) unfolding tri_but_def m_def by blast
        then have "Some x \<notin> set (obj_ptrs k)" by (rule no)
        then show ?thesis using cnt_pos [of "obj_ptrs k" x] by (simp add: own_def Some)
      qed (simp add: own_def Some)
    qed (simp add: own_def)
    moreover have "Some x \<notin> set (root_ptrs st)" by (rule no) (use assms(2) in \<open>simp add: tri_but_def\<close>)
    then have "cnt (root_ptrs st) x = 0" using cnt_pos [of "root_ptrs st" x] by simp
    ultimately show ?thesis by (simp add: incount_def rS held_def) (simp add: S_def)
  qed
  have le: "incount [] S x \<le> refs S x" for x
  proof (cases "get st x")
    case None
    then have "refs st x = 0" by (simp add: refs_def)
    moreover have "incount [] st x + s x = refs st x" using assms(1) by (simp add: bal_def)
    ultimately have "incount [] st x = 0" by simp
    then show ?thesis using in_le [of x] by simp
  next
    case (Some h)
    show ?thesis
    proof (cases "hcolor h = sw")
      case True
      then show ?thesis using zero [OF Some] by simp
    next
      case False
      have "incount [] st x \<le> refs st x" using assms(1) unfolding bal_def by (metis le_add1)
      also have "refs st x = refs S x" using Some False assms(6) [OF Some] by (simp add: refs_def gS) (simp add: S_def)
      finally show ?thesis using in_le [of x] by simp
    qed
  qed
  have bS: "bal [] S (\<lambda>x. refs S x - incount [] S x)"
    using le assms(1) by (simp add: bal_def gS)
  have ng: "sweeper S \<noteq> propagator" using d by (simp add: S_def propagator_def)
  have lr: "live S p" if "p \<in> set (root_ptrs S)" for p by (rule bal_live_root [OF bS that])
  define R where "R = fold setmark (root_ptrs S) S"
  have R: "darkens S R" "bal [] R (\<lambda>x. refs S x - incount [] S x)" "\<And>p. p \<in> set (root_ptrs S) \<Longrightarrow> marked R p"
    unfolding R_def using fold_setmark [OF bS ng lr] by blast+
  have e2: "rootset (st\<lparr>gccolor := gccolor st + 1\<rparr>) = R"
    unfolding rootset_fold R_def using sw by (simp add: S_def mg root_ptrs_def)
  have cS: "colours_ok S" unfolding colours_ok_def gS using d two by (auto simp: S_def)
  have eS: "epoch_ok S"
  proof -
    have "(gccolor st + 1 + 2) mod 3 = m" "(gccolor st + 1 + 1) mod 3 = sw" unfolding mg sw_def by (rule mod3)+
    then show ?thesis using g3 by (simp add: epoch_ok_def S_def)
  qed
  have "hcolor h \<noteq> mutator R" if g: "get R a = Some h" for a h
  proof -
    obtain k where "get S a = Some k" "hcolor h = hcolor k \<or> hcolor h = propagator"
      using darkens_get' [OF R(1) g] by metis
    moreover have "mutator R = (gccolor st + 1) mod 3" using R(1) by (simp add: darkens_def S_def)
    ultimately show ?thesis using two [of a k] d by (auto simp: gS propagator_def)
  qed
  moreover have "ahead R a" for a using R(1) assms(5) by (simp add: ahead_def darkens_def S_def)
  moreover have "root_ptrs R = root_ptrs S" using R(1) by (simp add: darkens_def root_ptrs_def)
  ultimately have "tri R" using colours_darkens [OF cS eS R(1)] R(3) by (simp add: tri_but_def)
  moreover have "slices_ok S" using assms(4,6) unfolding slices_ok_def gS by metis
  then have "slices_ok R" by (rule slices_fam [OF _ fam_darkens [OF R(1)]])
  moreover have "frames_ok R" using assms(3) R(1) by (simp add: frames_ok_def darkens_def S_def)
  ultimately show ?thesis unfolding e2 heap_ok_def using R(2) by blast
qed

lemma rungc_ok:
  assumes "heap_ok st"
  shows "heap_ok (rungc st)"
proof (cases "gchalt st = 0")
  case False
  then show ?thesis using assms by (simp add: rungc_def)
next
  case True
  obtain s where b: "bal [] st s" "tri st" "frames_ok st" "slices_ok st" using assms by (auto simp: heap_ok_def)
  define i where "i = (case gcptr st of None \<Rightarrow> 0 | Some i \<Rightarrow> i)"
  have "tri (st\<lparr>gcptr := gcptr st\<rparr>)" using b(2) by simp
  moreover have "beyond (Some i) a" if "beyond (gcptr st) a" for a
    using that by (cases "gcptr st") (simp_all add: beyond_def i_def)
  ultimately have t: "tri (st\<lparr>gcptr := Some i\<rparr>)" unfolding tri_at by blast
  obtain st1 early where l: "gc_loop 50 None i st = (st1, early)" by fastforce
  have w: "walk_ok s (st1, early)" using gc_loop_ok [OF b(1) t b(3,4), of None 50] l by simp
  show ?thesis
  proof (cases "early \<or> gcptr st1 \<noteq> None")
    case True
    then show ?thesis using w l \<open>gchalt st = 0\<close> by (auto simp: rungc_def i_def heap_ok_def walk_ok_def)
  next
    case False
    then obtain n where n: "n \<ge> length (arena st1)" "tri (st1\<lparr>gcptr := Some n\<rparr>)"
      using w by (auto simp: walk_ok_def)
    show ?thesis
    proof (cases "nprop st1")
      case True
      have "tri (st1\<lparr>nprop := False\<rparr>)"
        using w False by (intro tri_nprop) (simp_all add: walk_ok_def)
      then have "heap_ok (st1\<lparr>nprop := False\<rparr>)"
        using w by (auto simp: heap_ok_def walk_ok_def frames_ok_def slices_ok_def)
      then show ?thesis using l \<open>gchalt st = 0\<close> False True by (simp add: rungc_def i_def)
    next
      case np: False
      have "hcolor h \<noteq> propagator \<and> hcolor h \<noteq> sweeper st1" if "get st1 a = Some h" for a h
      proof -
        have "\<not> beyond (Some n) a" using n(1) getD [OF that] by (simp add: beyond_def)
        then show ?thesis using n(2) [unfolded tri_at] that np by blast
      qed
      then have "heap_ok (rootset (st1\<lparr>gccolor := gccolor st1 + 1\<rparr>))"
      proof (intro flip_ok [of st1 s])
        show "bal [] st1 s" "tri st1" "frames_ok st1" "slices_ok st1" using w by (simp_all add: walk_ok_def)
        show "gcptr st1 = None" using False by simp
      qed blast+
      then show ?thesis using l \<open>gchalt st = 0\<close> False np by (simp add: rungc_def i_def)
    qed
  qed
qed


section \<open>Modules\<close>

lemma load_mp_ok:
  assumes "heap_ok st" and "room a st" and "fits t (replicate n (Wd 0))"
  shows "heap_ok (load_mp a t n st)"
proof -
  obtain s where b: "bal [] st s" "tri st" "frames_ok st" "slices_ok st" using assms(1) by (auto simp: heap_ok_def)
  define ws where "ws = replicate n (Wd 0)"
  define h where "h = (blank st)\<lparr>htyp := t, hels := [initmem t ws]\<rparr>"
  let ?p = "place a h st"
  let ?q = "?p\<lparr>mods := mods st @ [Some a]\<rparr>"
  have f: "fits t ws" using assms(3) by (simp add: ws_def)
  have o: "p = None" if "p \<in> set (obj_ptrs h)" for p
    using that ptrs_initmem [of t ws] f by (auto simp: obj_ptrs_def blank_def h_def fits_def)
  have z: "cnt (obj_ptrs h) x = 0" for x using o [of "Some x"] cnt_pos [of "obj_ptrs h" x] by auto
  have c: "hcolor h = mutator st" by (simp add: h_def blank_def)
  have cs: "hcolor h \<noteq> sweeper st" using b(2) c by (auto simp: tri_but_def colours_ok_def)
  have wf: "wf_obj h" using fits_initmem [OF f] by (simp add: wf_obj_def h_def blank_def fits_def)
  have bp: "bal [Dec (Some a)] ?p s"
    by (rule bal_place [of "[]" "[]"]) (use b(1) assms(2) cs wf z in \<open>simp_all add: h_def blank_def\<close>)
  have g: "get ?q x = get ?p x" for x by (simp add: get_def)
  have "incount [] ?q x = incount [Dec (Some a)] ?p x" for x
    by (simp add: incount_def root_ptrs_def)
  then have "bal [] ?q s" using bp by (simp add: bal_def refs_def g)
  moreover have "tri ?q"
  proof -
    have tp: "tri ?p"
    proof (rule tri_place [OF b(2) assms(2) c])
      show "marked st p" if "p \<in> set (obj_ptrs h)" for p using o [OF that] by simp
    qed
    show ?thesis
    proof (rule tri_same [OF tp])
      show "same_gc ?p ?q" by (simp add: same_gc_def g)
      have "marked ?p (Some a)" using assms(2) c by (simp add: marked_def)
      then show "marked ?p p" if "p \<in> set (root_ptrs ?q)" for p
        using that tp by (auto simp: tri_but_def root_ptrs_def)
      show "marked ?p p" if "get ?q x = Some k" "hcolor k = mutator ?p" "p \<in> set (obj_ptrs k)" for x k p
        using that(2,3) that(1) [unfolded g] tp unfolding tri_but_def by blast
    qed
  qed
  moreover have "frames_ok ?q" using b(3) by (simp add: frames_ok_def)
  moreover have "slices_ok ?p" by (rule slices_place [OF b(4,1) _ assms(2)]) (simp_all add: h_def blank_def)
  then have "slices_ok ?q" by (rule slices_fam) (auto simp: fam_def g)
  ultimately show ?thesis
    by (auto simp: load_mp_def heapz_def heap_def heap_ok_def Let_def h_def ws_def)
qed

lemma unload_mp_ok:
  assumes "heap_ok st" and "i < length (mods st)"
  shows "\<exists>st'. unload_mp i st = Inr st' \<and> heap_ok st'"
proof -
  obtain s where b: "bal [] st s" "tri st" "frames_ok st" "slices_ok st" using assms(1) by (auto simp: heap_ok_def)
  let ?q = "st\<lparr>mods := take i (mods st) @ drop (Suc i) (mods st)\<rparr>"
  have g: "get ?q x = get st x" for x by (simp add: get_def)
  have sp: "mods st = take i (mods st) @ mods st ! i # drop (Suc i) (mods st)"
    using id_take_nth_drop [OF assms(2)] .
  have "cnt (mods st) x = cnt (take i (mods st)) x + cnt [mods st ! i] x + cnt (drop (Suc i) (mods st)) x" for x
    by (subst sp) simp
  then have "incount [Dec (mods st ! i)] ?q x = incount [] st x" for x
    by (simp add: incount_def root_ptrs_def)
  then have "bal [Dec (mods st ! i)] ?q s" using b(1) by (simp add: bal_def refs_def g)
  then obtain r where r: "run_work [Dec (mods st ! i)] ?q = Inr r" "bal [] r s" "shrinks ?q r"
    using run_work_ok by blast
  have "tri ?q"
  proof (rule tri_same [OF b(2)])
    show "same_gc st ?q" by (simp add: same_gc_def g)
    show "marked st p" if "p \<in> set (root_ptrs ?q)" for p
      using that b(2) by (auto simp: tri_but_def root_ptrs_def dest: in_set_takeD in_set_dropD)
    show "marked st p" if "get ?q x = Some k" "hcolor k = mutator st" "p \<in> set (obj_ptrs k)" for x k p
      using that(2,3) that(1) [unfolded g] b(2) unfolding tri_but_def by blast
  qed
  then have "tri r" by (rule tri_shrinks [OF _ r(3)])
  moreover have "frames_ok r" using b(3) r(3) by (simp add: frames_ok_def shrinks_def)
  moreover have "slices_ok r"
    by (rule slices_fam [OF slices_fam [OF b(4)] fam_shrinks [OF r(3)]]) (auto simp: fam_def g)
  ultimately show ?thesis using r(1,2) by (auto simp: unload_mp_def destroy_def heap_ok_def)
qed

section \<open>Steps\<close>

text \<open>A machine with an empty heap; the colours are the initial values of the C statics.\<close>

definition hboot :: hst where
  "hboot = \<lparr>arena = [], frames = [], mods = [], mutator = 0, marker = 1, sweeper = 2, gccolor = 3, nprop = False,
     gchalt = 0, gcptr = None\<rparr>"

text \<open>
  The operands are what compiled code gives: slots of frames and of blocks it can reach, of the type the
  instruction wants. The operands of \<open>slicea\<close> are restricted by a parameter: \<open>any_slice\<close> is the code, which checks
  nothing, \<open>marked_slice\<close> leaves out the whole arrays that the collector has not marked yet.
\<close>

definition any_slice :: "loc \<Rightarrow> hst \<Rightarrow> bool" where "any_slice d st = True"

definition marked_slice :: "loc \<Rightarrow> hst \<Rightarrow> bool" where
  "marked_slice d st \<longleftrightarrow> (case read_ptr d st of None \<Rightarrow> True | Some x \<Rightarrow>
     (case get st x of None \<Rightarrow> True | Some h \<Rightarrow> hlink h \<noteq> None \<or> marked st (Some x)))"

inductive hstep :: "(loc \<Rightarrow> hst \<Rightarrow> bool) \<Rightarrow> hst \<Rightarrow> hst \<Rightarrow> bool" for G where
  step_movp: "src_ok l st \<Longrightarrow> dst_ok d st \<Longrightarrow> movp l d st = Inr st' \<Longrightarrow> hstep G st st'"
| step_new: "room a st \<Longrightarrow> fits t ws \<Longrightarrow> dst_ok d st \<Longrightarrow> inew a t ws d st = Inr st' \<Longrightarrow> hstep G st st'"
| step_newa: "room a st \<Longrightarrow> \<forall>ws \<in> set wss. fits t ws \<Longrightarrow> dst_ok d st \<Longrightarrow> newa a t wss d st = Inr st' \<Longrightarrow> hstep G st st'"
| step_consw: "room a st \<Longrightarrow> dst_ok d st \<Longrightarrow> hstep G st (consw a x d st)"
| step_consp: "room a st \<Longrightarrow> dst_ok d st \<Longrightarrow> src_ok l (cons a [0x80] [Pt None] d st) \<Longrightarrow>
    consp a l d st = Inr st' \<Longrightarrow> hstep G st st'"
| step_headp: "src_ok l st \<Longrightarrow> list_ok l st \<Longrightarrow> dst_ok d st \<Longrightarrow> headp l d st = Inr st' \<Longrightarrow> hstep G st st'"
| step_tail: "src_ok l st \<Longrightarrow> dst_ok d st \<Longrightarrow> tail l d st = Inr st' \<Longrightarrow> hstep G st st'"
| step_slicea: "room a st \<Longrightarrow> dst_ok d st \<Longrightarrow> array_at d st \<Longrightarrow> G d st \<Longrightarrow> slicea a s m d st = Inr st' \<Longrightarrow> hstep G st st'"
| step_call: "fits t ws \<Longrightarrow> hstep G st (new_frame t ws st)"
| step_ret: "f < length (frames st) \<Longrightarrow> free_frame f st = Inr st' \<Longrightarrow> hstep G st st'"
| step_load: "room a st \<Longrightarrow> fits t (replicate n (Wd 0)) \<Longrightarrow> hstep G st (load_mp a t n st)"
| step_unload: "i < length (mods st) \<Longrightarrow> unload_mp i st = Inr st' \<Longrightarrow> hstep G st st'"
| step_gc: "hstep G st (rungc st)"

definition hreach :: "(loc \<Rightarrow> hst \<Rightarrow> bool) \<Rightarrow> hst \<Rightarrow> bool" where "hreach G st \<longleftrightarrow> (hstep G)\<^sup>*\<^sup>* hboot st"

lemma hreach_boot: "hreach G hboot" and hreach_step: "hreach G st \<Longrightarrow> hstep G st st' \<Longrightarrow> hreach G st'"
  unfolding hreach_def by (blast intro: rtranclp.rtrancl_into_rtrancl)+

lemma hboot_ok: "heap_ok hboot"
proof -
  have "bal [] hboot (\<lambda>x. 0)"
    by (simp add: bal_def hboot_def incount_def root_ptrs_def held_def refs_def get_def)
  moreover have "tri hboot"
    by (simp add: tri_but_def colours_ok_def epoch_ok_def hboot_def root_ptrs_def get_def)
  moreover have "frames_ok hboot" "slices_ok hboot"
    by (simp_all add: frames_ok_def slices_ok_def hboot_def get_def)
  ultimately show ?thesis by (auto simp: heap_ok_def)
qed

lemma hstep_ok: "hstep marked_slice st st' \<Longrightarrow> heap_ok st \<Longrightarrow> heap_ok st'"
proof (induction rule: hstep.induct)
  case (step_movp l st d st')
  then show ?case using movp_ok [of st l d] by auto
next
  case (step_new a st t ws d st')
  then show ?case using inew_ok [of st a t ws d] by auto
next
  case (step_newa a st wss t d st')
  then show ?case using newa_ok [of st a wss t d] by auto
next
  case (step_consw a st d x)
  then show ?case by (intro consw_ok)
next
  case (step_consp a st d l st')
  then show ?case using consp_ok [of st a d l] by auto
next
  case (step_headp l st d st')
  then show ?case using headp_ok [of st l d] by auto
next
  case (step_tail l st d st')
  then show ?case using tail_ok [of st l d] by auto
next
  case (step_slicea a st d s m st')
  have "marked st (Some x)" if "read_ptr d st = Some x" "get st x = Some h" "hlink h = None" for x h
    using step_slicea.hyps(4) that by (simp add: marked_slice_def)
  then show ?case using slicea_ok [OF step_slicea.prems step_slicea.hyps(1-3), of s m] step_slicea.hyps(5) by auto
next
  case (step_call t ws st)
  then show ?case by (intro new_frame_ok)
next
  case (step_ret f st st')
  then show ?case using free_frame_ok [of st f] by auto
next
  case (step_load a st t n)
  then show ?case by (intro load_mp_ok)
next
  case (step_unload i st st')
  then show ?case using unload_mp_ok [of st i] by auto
next
  case (step_gc st)
  then show ?case by (intro rungc_ok)
qed

interpretation hrun: machine "\<lambda>st. st = hboot" "hstep marked_slice" heap_ok
  by unfold_locales (simp add: hboot_ok, rule hstep_ok)

text \<open>The array may be sliced wherever a frame or the module data hold it themselves.\<close>

lemma rooted_slice: "heap_ok st \<Longrightarrow> read_ptr d st \<in> set (root_ptrs st) \<Longrightarrow> marked_slice d st"
  by (auto simp: marked_slice_def heap_ok_def tri_but_def split: option.splits)

lemma hreach_ok: "hreach marked_slice st \<Longrightarrow> heap_ok st"
  unfolding hreach_def by (rule hrun.run_inv [OF refl])


section \<open>What the collector keeps\<close>

definition loses :: "hst \<Rightarrow> hst \<Rightarrow> bool" where
  "loses st st' \<longleftrightarrow> frames st' = frames st \<and> mods st' = mods st \<and>
    (\<forall>x h'. get st' x = Some h' \<longrightarrow> (\<exists>h. get st x = Some h \<and> shape h' = shape h))"

lemma loses_trans: "loses st st1 \<Longrightarrow> loses st1 st2 \<Longrightarrow> loses st st2"
  unfolding loses_def by metis

lemma loses_put: "get st a = Some h \<Longrightarrow> loses st (put a (Some (h\<lparr>hcolor := c\<rparr>)) st)" "loses st (put a None st)"
  by (auto simp: loses_def shape_def)

lemma loses_setmark: "loses st (setmark p st)"
  by (auto simp: loses_def setmark_def shape_def split: option.splits)

lemma loses_fold: "loses st (fold setmark ps st)"
  by (induction ps arbitrary: st) (simp add: loses_def, metis fold_simps(2) loses_setmark loses_trans)

lemma loses_mark_tail: "loses st (fst (mark_tail v p st))"
proof (induction v p st rule: mark_tail.induct)
  case (2 a st)
  then show ?case by (auto simp: loses_def get_upd shape_def) (simp_all add: upd_def)
next
  case (3 v a st)
  show ?case
  proof (cases "get st a")
    case (Some h)
    let ?s = "fold (markheap (htyp h)) (hels h) (setmark (Some a) st)"
    have "loses st ?s" by (simp only: fold_markheap) (rule loses_trans [OF loses_setmark loses_fold])
    then show ?thesis using "3.IH" [OF Some] loses_trans by (simp add: Some)
  qed (simp add: loses_def)
qed (simp add: loses_def)

lemma loses_mark: "loses st (fst (mark v h st))"
proof -
  have 1: "loses S (fold (markheap t) els S)" for t els S by (simp only: fold_markheap loses_fold)
  show ?thesis
    using 1 loses_trans [OF loses_setmark 1] loses_trans [OF 1 loses_mark_tail]
    by (auto simp: mark_def markarray_def Let_def loses_def [of st st] split: kind.split)
qed

lemma loses_gcptr [simp]: "loses st (st'\<lparr>gcptr := g\<rparr>) = loses st st'" "loses (st\<lparr>gcptr := g\<rparr>) st' = loses st st'"
  by (simp_all add: loses_def)

lemma loses_loop: "loses st (fst (gc_loop v prev i st))"
proof (induction v prev i st rule: gc_loop.induct)
  case (1 v prev i st)
  have r: "loses st st" by (simp add: loses_def)
  show ?case
  proof (cases "v = 0")
    case True
    then show ?thesis unfolding gc_loop.simps [of v prev i st] by (simp add: r)
  next
    case v: False
    show ?thesis
    proof (cases "get st i")
      case None
      then show ?thesis using "1.IH"(1) [OF v None] v r by (simp add: gc_loop.simps [of v prev i st])
    next
      case h: (Some h)
      obtain st1 v1 where m: "mark v h (put i (Some (h\<lparr>hcolor := mutator st\<rparr>)) st) = (st1, v1)" by fastforce
      have l1: "loses st st1"
      proof (rule loses_trans [OF loses_put(1) [OF h]])
        show "loses (put i (Some (h\<lparr>hcolor := mutator st\<rparr>)) st) st1"
          using loses_mark [of "put i (Some (h\<lparr>hcolor := mutator st\<rparr>)) st" v h] m by simp
      qed
      show ?thesis
        using "1.IH"(2) [OF v h _ m [symmetric]] "1.IH"(3) [OF v h] "1.IH"(4) [OF v h] l1 loses_trans [OF l1] r
          loses_put(2) [of st i] loses_trans [OF loses_put(2) [of st i]] v h m
        by (auto simp: gc_loop.simps [of v prev i st] split: option.split)
    qed
  qed
qed

lemma rungc_loses: "loses st (rungc st)"
proof (cases "gchalt st = 0")
  case False
  then show ?thesis by (simp add: rungc_def loses_def)
next
  case True
  obtain st1 early where l: "gc_loop 50 None (case gcptr st of None \<Rightarrow> 0 | Some i \<Rightarrow> i) st = (st1, early)" by fastforce
  have l1: "loses st st1" using loses_loop [of st 50 None] l by (metis fst_conv)
  let ?S = "st1\<lparr>gccolor := gccolor st1 + 1, mutator := (gccolor st1 + 1) mod 3, marker := gccolor st1 mod 3,
      sweeper := (gccolor st1 + 1 - 2) mod 3\<rparr>"
  have "loses st1 ?S" by (simp add: loses_def get_def)
  then have "loses st1 (rootset (st1\<lparr>gccolor := gccolor st1 + 1\<rparr>))"
    unfolding rootset_fold using loses_trans [OF _ loses_fold] by simp
  moreover have "loses st1 (st1\<lparr>nprop := False\<rparr>)" by (simp add: loses_def)
  ultimately show ?thesis using l l1 True loses_trans [OF l1] by (simp add: rungc_def)
qed

lemma keeps_reachable:
  assumes "loses st st'" and "heap_ok st'" and "reach st a"
  shows "live st' (Some a)"
  using assms(3)
proof (induction rule: reach.induct)
  case (root a)
  obtain s where "bal [] st' s" using assms(2) by (auto simp: heap_ok_def)
  moreover have "root_ptrs st' = root_ptrs st" using assms(1) by (simp add: loses_def root_ptrs_def)
  ultimately show ?case using bal_live_root root by metis
next
  case (step a h b)
  obtain s where b: "bal [] st' s" using assms(2) by (auto simp: heap_ok_def)
  obtain h' where h': "get st' a = Some h'" "hcolor h' \<noteq> sweeper st'" using step.IH by (auto simp: live_def)
  then have "shape h' = shape h" using assms(1) step.hyps(2) unfolding loses_def by fastforce
  then have "obj_ptrs h' = obj_ptrs h" by (simp add: shape_def obj_ptrs_def)
  then show ?case using bal_live_obj [OF b h'] step.hyps(3) by simp
qed

text \<open>What an instruction stores can be read back.\<close>

lemma replace_reads:
  assumes "dst_ok d st" and "frames_ok st" and "bal [Dec p] st s" and "shrinks (write_ptr d p st) st'" and "bal [] st' s"
  shows "read_ptr d st' = p"
proof -
  have sl: "slot_ok {} d st" by (rule dst_slot [OF assms(3) _ assms(1)]) simp
  have r: "read_ptr d (write_ptr d p st) = p" by (rule read_write [OF sl assms(2) bal_blocks [OF assms(3)]])
  show ?thesis
  proof (cases d)
    case (InFrame f i)
    then show ?thesis using r assms(4) by (simp add: shrinks_def)
  next
    case (InBlock a k i)
    have "reach (write_ptr d p st) a" unfolding InBlock by (rule reach_write) (use assms(1) InBlock in simp)
    then have "live st' (Some a)" by (rule reach_shrinks [OF _ assms(4,5)]) simp
    then obtain h' where h': "get st' a = Some h'" by (auto simp: live_def)
    then obtain h where h: "get (write_ptr d p st) a = Some h" "h' = h\<lparr>href := href h'\<rparr>"
      using assms(4) unfolding shrinks_def by blast
    have "hels h' = hels h" by (subst h(2)) simp
    then show ?thesis using r h(1) h' by (simp add: InBlock)
  qed (use assms(1) in simp)
qed


section \<open>An example\<close>

text \<open>Module data with a pointer to an array, when the first epoch has ended.\<close>

definition demo1 :: hst where "demo1 = load_mp 0 [0x80] 1 hboot"

definition demo2 :: hst where
  "demo2 = \<lparr>arena =
     [Some \<lparr>hcolor = 0, href = 1, hkind = KMem, htyp = [0x80], hels = [[Pt (Some 1)]], hlink = None, hoff = 0, hlen = 0\<rparr>,
      Some \<lparr>hcolor = 0, href = 1, hkind = KArray, htyp = [], hels = [[Wd 7]], hlink = None, hoff = 0, hlen = 1\<rparr>],
     frames = [], mods = [Some 0], mutator = 0, marker = 1, sweeper = 2, gccolor = 3, nprop = False, gchalt = 0, gcptr = None\<rparr>"

definition demo3 :: hst where "demo3 = rungc demo2"

definition demo4 :: hst where
  "demo4 = (case slicea 2 0 1 (InBlock 0 0 0) demo3 of Inr st \<Rightarrow> st | Inl e \<Rightarrow> demo3)"

abbreviation demo_slot :: loc where "demo_slot \<equiv> InBlock 0 0 0"

lemma demo2_eq: "newa 1 [] [[Wd 7]] demo_slot demo1 = Inr demo2"
  by code_simp

lemma demo_get:
  "map_option shape (get demo1 0) = Some ([0x80], [[Pt None]], None, KMem, 0, 0)" "mods demo1 = [Some 0]" "room 1 demo1"
  "map_option shape (get demo2 0) = Some ([0x80], [[Pt (Some 1)]], None, KMem, 0, 0)" "mods demo2 = [Some 0]"
  "map_option shape (get demo3 0) = Some ([0x80], [[Pt (Some 1)]], None, KMem, 0, 0)" "mods demo3 = [Some 0]"
  "map_option hkind (get demo3 1) = Some KArray" "room 2 demo3"
  by code_simp+

lemma demo4_eq: "slicea 2 0 1 demo_slot demo3 = Inr demo4"
  by code_simp

lemma demo_gone:
  "get (rungc (rungc (rungc demo4))) 1 = None"
  "map_option hlink (get (rungc (rungc (rungc demo4))) 2) = Some (Some 1)"
  "map_option obj_ptrs (get (rungc (rungc (rungc demo4))) 0) = Some [Some 2, None]"
  "mods (rungc (rungc (rungc demo4))) = [Some 0]"
  by code_simp+

lemma demo_dst:
  assumes "map_option shape (get st 0) = Some ([0x80], [[Pt p]], None, KMem, 0, 0)" and "mods st = [Some 0]"
  shows "dst_ok demo_slot st" "src_ok demo_slot st" "read_ptr demo_slot st = p"
proof -
  obtain h where h: "get st 0 = Some h" "htyp h = [0x80]" "hels h = [[Pt p]]"
    using assms(1) by (auto simp: shape_def)
  have "reach st 0" by (rule reach.root) (simp add: root_ptrs_def assms(2))
  then show "dst_ok demo_slot st" "src_ok demo_slot st" "read_ptr demo_slot st = p"
    using h by (simp_all add: Tptr_slots(1) del: slots_from.simps)
qed

lemma demo_hreach: "hreach G demo2" "hreach G demo3"
proof -
  have "room 0 hboot" by (simp add: room_def hboot_def get_def)
  moreover have "fits [0x80] (replicate 1 (Wd 0))" by (simp add: fits_def Tptr_slots(1) del: slots_from.simps)
  ultimately have "hreach G demo1" unfolding demo1_def by (intro hreach_step [OF hreach_boot] step_load)
  then show "hreach G demo2"
    by (rule hreach_step) (rule step_newa [OF demo_get(3) _ demo_dst(1) [OF demo_get(1,2)] demo2_eq],
      simp add: fits_def)
  then show "hreach G demo3" unfolding demo3_def by (rule hreach_step) (rule step_gc)
qed

lemma demo3_reach: "reach demo3 1"
  by (rule src_reach [OF demo_dst(2) [OF demo_get(6,7)]]) (rule demo_dst(3) [OF demo_get(6,7)])

section \<open>What the restriction leaves out\<close>

text \<open>
  \<open>slicea\<close> on an array that is not a slice hands the array's reference to the slice, but, unlike
  every other store, does not mark the array. When the operand is a word of module data that is still to
  be scanned (as compiled for \<open>a = a[0:1]\<close> with a global \<open>a\<close>), the next epoch frees the array under the slice:
  with \<open>any_slice\<close> there is a reachable state with a pointer to a freed block that a program can reach.
\<close>

lemma sliced_array_is_swept: "\<exists>st x. hreach any_slice st \<and> reach st x \<and> get st x = None"
proof -
  let ?e = "rungc (rungc (rungc demo4))"
  have a: "array_at demo_slot demo3"
    unfolding array_at_def demo_dst(3) [OF demo_get(6,7)] using demo_get(8) by auto
  have "hstep any_slice demo3 demo4"
    by (rule step_slicea [OF demo_get(9) demo_dst(1) [OF demo_get(6,7)] a _ demo4_eq]) (simp add: any_slice_def)
  then have "hreach any_slice demo4" by (rule hreach_step [OF demo_hreach(2)])
  then have h: "hreach any_slice ?e" by (intro hreach_step [OF _ step_gc])
  have r0: "reach ?e 0" by (rule reach.root) (simp add: root_ptrs_def demo_gone(4))
  obtain h where h0: "get ?e 0 = Some h" "obj_ptrs h = [Some 2, None]" using demo_gone(3) by auto
  have r2: "reach ?e 2" by (rule reach.step [OF r0 h0(1)]) (simp add: h0(2))
  obtain k where k: "get ?e 2 = Some k" "hlink k = Some 1" using demo_gone(2) by auto
  have "reach ?e 1" by (rule reach.step [OF r2 k(1)]) (simp add: obj_ptrs_def k(2))
  then show ?thesis using h demo_gone(1) by blast
qed

section \<open>Properties\<close>

text \<open>
  C2. A call of the collector at any moment leaves every block that a program can reach from its frames and
  module data in place, with its contents, however far the marking has got and whatever instructions ran
  since it began, as long as no \<open>slicea\<close> took a whole array that the collector had still to mark (\<open>marked_slice\<close>);
  \<open>sliced_array_is_swept\<close> shows that the code is wrong there.
\<close>
theorem gc_keeps_reachable:
  assumes "hreach marked_slice st" and "reach st a"
  shows "\<exists>h h'. get st a = Some h \<and> get (rungc st) a = Some h' \<and>
    hels h' = hels h \<and> hlink h' = hlink h \<and> htyp h' = htyp h \<and> hkind h' = hkind h"
proof -
  have ok: "heap_ok st" by (rule hreach_ok [OF assms(1)])
  then obtain s where "bal [] st s" by (auto simp: heap_ok_def)
  then have "live st (Some a)" using reach_live [OF assms(2)] by simp
  then obtain h where h: "get st a = Some h" by (auto simp: live_def)
  obtain h' where h': "get (rungc st) a = Some h'"
    using keeps_reachable [OF rungc_loses rungc_ok [OF ok] assms(2)] by (auto simp: live_def)
  have "shape h' = shape h" using rungc_loses [of st] h h' unfolding loses_def by fastforce
  then show ?thesis using h h' by (simp add: shape_def)
qed

theorem gc_keeps_reachable_witness:
  "\<exists>h h'. get demo3 1 = Some h \<and> get (rungc demo3) 1 = Some h' \<and>
    hels h' = hels h \<and> hlink h' = hlink h \<and> htyp h' = htyp h \<and> hkind h' = hkind h"
  by (rule gc_keeps_reachable [OF demo_hreach(2) demo3_reach])

text \<open>
  C4. Whatever sequence of pointer instructions, calls, returns, loads and collector runs led to a state, without
  a \<open>slicea\<close> of a whole array that the collector had still to mark, each block that can be reached is allocated, its
  reference count is positive and it is not condemned.
\<close>
theorem reachable_blocks_counted:
  assumes "hreach marked_slice st" and "reach st a"
  shows "\<exists>h. get st a = Some h \<and> href h > 0 \<and> hcolor h \<noteq> sweeper st"
proof -
  obtain s where b: "bal [] st s" using hreach_ok [OF assms(1)] by (auto simp: heap_ok_def)
  then have "live st (Some a)" using reach_live [OF assms(2)] by simp
  then show ?thesis using reach_counted [OF assms(2) b] by (auto simp: live_def refs_def)
qed

theorem reachable_blocks_counted_witness:
  "\<exists>h. get demo3 1 = Some h \<and> href h > 0 \<and> hcolor h \<noteq> sweeper demo3"
  by (rule reachable_blocks_counted [OF demo_hreach(2) demo3_reach])

text \<open>
  C15. In every state that was reached without a \<open>slicea\<close> of a whole array that the collector had still to mark,
  \<open>movp\<close> never meets a free block or a count of zero, whatever its \<open>destroy\<close> of the old
  pointer releases (the block of the destination and the moved block included in what it might free), and
  afterwards the destination holds the pointer.
\<close>
theorem movp_moves:
  assumes "hreach marked_slice st" and "src_ok l st" and "dst_ok d st"
  shows "\<exists>st'. movp l d st = Inr st' \<and> read_ptr d st' = read_ptr l st \<and> hreach marked_slice st'"
proof -
  obtain s where b: "bal [] st s" "tri st" "frames_ok st" using hreach_ok [OF assms(1)] by (auto simp: heap_ok_def)
  have lv: "live st (read_ptr l st)" by (rule src_live [OF b(1) assms(2)])
  obtain st1 where i: "incref (read_ptr l st) st = Inr st1" "bal [Dec (read_ptr l st)] st1 s" "tri st1"
    "marked st1 (read_ptr l st)" "same_shape st st1"
    by (rule incref_ok [OF b(1,2) lv]) simp_all
  have f1: "frames_ok st1" using b(3) i(5) by (auto simp: same_shape_def intro: frames_ok_eq)
  have d1: "dst_ok d st1" by (rule shape_dst(1) [OF i(5) assms(3)])
  obtain st' where r: "replace d (read_ptr l st) st1 = Inr st'" "bal [] st' s"
    "shrinks (write_ptr d (read_ptr l st) st1) st'"
    by (rule finish_ok [OF i(2,3) f1 d1 i(4)]) simp_all
  have m: "movp l d st = Inr st'" using i(1) r(1) by (simp add: movp_def Let_def)
  then show ?thesis
    using replace_reads [OF d1 f1 i(2) r(3,2)] hreach_step [OF assms(1) step_movp [OF assms(2,3) m]] by blast
qed

theorem movp_moves_witness:
  "\<exists>st'. movp demo_slot demo_slot demo2 = Inr st' \<and> read_ptr demo_slot st' = Some 1 \<and> hreach marked_slice st'"
  using movp_moves [OF demo_hreach(1) demo_dst(2,1) [OF demo_get(4,5)]] demo_dst(3) [OF demo_get(4,5)] by simp

text \<open>
  C16. When the counts cover the pointers there are and the one to be destroyed, \<open>destroy\<close> comes to an
  end without meeting a free block or a count of zero, whatever the shape of the heap (shared and cyclic
  structures, long lists, the limit on its depth), the counts cover the pointers again by the same surplus,
  and it changes nothing but counts and the blocks it frees.
\<close>
theorem destroy_balances:
  assumes "bal [Dec p] st s"
  shows "\<exists>st'. destroy p st = Inr st' \<and> (\<forall>x. incount [] st' x + s x = refs st' x) \<and> shrinks st st'"
  using run_work_ok [OF assms] by (auto simp: destroy_def bal_def)

theorem destroy_balances_witness:
  "\<exists>st'. destroy (Some 0) (demo2\<lparr>mods := []\<rparr>) = Inr st' \<and> (\<forall>x. incount [] st' x + 0 = refs st' x) \<and>
    shrinks (demo2\<lparr>mods := []\<rparr>) st'"
proof (rule destroy_balances)
  have s: "slots_from 0 [0x80 :: u8] = [0]" by (rule Tptr_slots(1))
  have "refs (demo2\<lparr>mods := []\<rparr>) x = of_bool (x = 0) + of_bool (x = 1)" for x
    by (simp add: refs_def get_def demo2_def nth_Cons split: nat.split)
  moreover have "held (sweeper demo2) {} (arena demo2) x = of_bool (x = 1)" for x
    by (simp add: held_def demo2_def own_def obj_ptrs_def ptrs_def s lessThan_Suc numeral_2_eq_2 del: slots_from.simps(2))
  ultimately have "incount [Dec (Some 0)] (demo2\<lparr>mods := []\<rparr>) x + 0 = refs (demo2\<lparr>mods := []\<rparr>) x" for x
    by (simp add: incount_def root_ptrs_def) (simp add: demo2_def)
  moreover have "wf_obj h" if "get (demo2\<lparr>mods := []\<rparr>) x = Some h" for x h
    using that by (auto simp: get_def demo2_def nth_Cons wf_obj_def s simp del: slots_from.simps(2) split: nat.splits if_splits)
  ultimately show "bal [Dec (Some 0)] (demo2\<lparr>mods := []\<rparr>) (\<lambda>x. 0)" by (simp add: bal_def)
qed

end
