(* ===== verification/Pool.thy ===== *)
theory Pool
  imports Prelude
begin

text \<open>
  The storage allocator of the emulator, \<^verbatim>\<open>emu/alloc.c\<close> with \<^verbatim>\<open>include/pool.h\<close>: a pool is a set of
  chunks obtained from \<open>sbrk\<close>, each tiled with blocks that carry a header and, in their last word, a
  pointer back to it; the free blocks form a binary tree ordered by size in which blocks of one size
  hang off the tree node on a ring.
\<close>

section \<open>Blocks and pools\<close>

text \<open>
  An address is a natural number, 0 is \<open>nil\<close>. The unions of \<open>Bhdr\<close> are spread out: the tree pointers
  are used in free blocks only, \<open>csize\<close> and \<open>clink\<close> in the leader of a chunk. \<open>btl e\<close> is the field \<open>hdr\<close>
  of the \<open>Btail\<close> that ends at address \<open>e\<close>, so \<open>B2T(b)->hdr\<close> is \<open>btl (b + bsize b)\<close> and
  \<open>B2PT(b)->hdr\<close> is \<open>btl b\<close>.
\<close>

type_synonym ptr = nat

abbreviation nil :: ptr where "nil \<equiv> 0"

abbreviation MAGIC_A :: u32 where "MAGIC_A \<equiv> 0xa110c"
abbreviation MAGIC_F :: u32 where "MAGIC_F \<equiv> 0xbadc0c0a"
abbreviation MAGIC_E :: u32 where "MAGIC_E \<equiv> 0xdeadbabe"
abbreviation MAGIC_I :: u32 where "MAGIC_I \<equiv> 0xabba"

record bhdr =
  magic :: u32
  bsize :: nat
  bhl :: ptr
  bhr :: ptr
  bhp :: ptr
  bhv :: ptr
  bhf :: ptr
  clink :: ptr
  csize :: nat

record pool =
  pmax :: nat
  pquanta :: u32
  pchunk :: nat
  pcur :: int
  parena :: nat
  proot :: ptr
  pchain :: ptr
  nalloc :: nat
  nfree :: nat
  nbrk :: nat
  hdr :: "ptr \<Rightarrow> bhdr"
  btl :: "ptr \<Rightarrow> ptr"

text \<open>Reading and writing a header; through \<open>nil\<close> it traps.\<close>

definition get :: "ptr \<Rightarrow> pool \<Rightarrow> bhdr res" where
  "get b st = (if b = nil then Inl Trap else Inr (hdr st b))"

definition put :: "ptr \<Rightarrow> (bhdr \<Rightarrow> bhdr) \<Rightarrow> pool \<Rightarrow> pool res" where
  "put b f st = (if b = nil then Inl Trap else Inr (st\<lparr>hdr := (hdr st)(b := f (hdr st b))\<rparr>))"

definition set_tail :: "ptr \<Rightarrow> pool \<Rightarrow> pool" where   \<comment> \<open>\<open>B2T(b)->hdr = b\<close>\<close>
  "set_tail b st = st\<lparr>btl := (btl st)(b + bsize (hdr st b) := b)\<rparr>"

definition B2D :: "ptr \<Rightarrow> ptr" where "B2D b = b + 8"

definition D2B :: "ptr \<Rightarrow> pool \<Rightarrow> ptr res" where
  "D2B v st = (if magic (hdr st (v - 8)) \<noteq> MAGIC_A \<and> magic (hdr st (v - 8)) \<noteq> MAGIC_I
     then Inl (Raise ''alloc:D2B'') else Inr (v - 8))"

definition BHDRSIZE :: u32 where "BHDRSIZE = 16"

definition poolimmutable :: "ptr \<Rightarrow> pool \<Rightarrow> pool res" where
  "poolimmutable v st = bindR (D2B v st) (\<lambda>b. put b (\<lambda>x. x\<lparr>magic := MAGIC_I\<rparr>) st)"

definition poolmutable :: "ptr \<Rightarrow> pool \<Rightarrow> pool res" where
  "poolmutable v st = bindR (D2B v st) (\<lambda>b. put b (\<lambda>x. x\<lparr>magic := MAGIC_A\<rparr>) st)"

section \<open>Taking a block out of the tree\<close>

definition unring :: "ptr \<Rightarrow> pool \<Rightarrow> pool res" where
  "unring t st =
    bindR (get t st) (\<lambda>b.
    bindR (put (bhv b) (\<lambda>x. x\<lparr>bhf := bhf b\<rparr>) st) (\<lambda>st1.
    bindR (get t st1) (\<lambda>b1. put (bhf b1) (\<lambda>x. x\<lparr>bhv := bhv b1\<rparr>) st1)))"

text \<open>\<open>s\<close>, the parent of \<open>t\<close>, or the pool if that is \<open>nil\<close>, gets \<open>f\<close> in the place of \<open>t\<close>.\<close>

definition relink :: "ptr \<Rightarrow> ptr \<Rightarrow> ptr \<Rightarrow> pool \<Rightarrow> pool res" where
  "relink s t f st =
    (if s = nil then Inr (st\<lparr>proot := f\<rparr>)
     else bindR (get s st) (\<lambda>b.
       if bhl b = t then put s (\<lambda>x. x\<lparr>bhl := f\<rparr>) st else put s (\<lambda>x. x\<lparr>bhr := f\<rparr>) st))"

definition set_parent :: "ptr \<Rightarrow> ptr \<Rightarrow> pool \<Rightarrow> pool res" where
  "set_parent p q st = (if p = nil then Inr st else put p (\<lambda>x. x\<lparr>bhp := q\<rparr>) st)"

definition ring_takes_over :: "ptr \<Rightarrow> pool \<Rightarrow> pool res" where
  "ring_takes_over t st =
    bindR (get t st) (\<lambda>b. let f = bhf b; s = bhp b in
    bindR (put f (\<lambda>x. x\<lparr>bhp := s\<rparr>) st) (\<lambda>st1.
    bindR (relink s t f st1) (\<lambda>st2.
    bindR (get t st2) (\<lambda>b2.
    bindR (put f (\<lambda>x. x\<lparr>bhl := bhl b2\<rparr>) st2) (\<lambda>st3.
    bindR (set_parent (bhl b2) f st3) (\<lambda>st4.
    bindR (get t st4) (\<lambda>b4.
    bindR (put f (\<lambda>x. x\<lparr>bhr := bhr b4\<rparr>) st4) (\<lambda>st5.
    bindR (set_parent (bhr b4) f st5) (unring t)))))))))"

text \<open>The least node under \<open>rp\<close> and its parent, \<open>f\<close> if that is \<open>rp\<close> itself; \<open>None\<close> on a cycle.\<close>

partial_function (option) leftmost :: "(ptr \<Rightarrow> bhdr) \<Rightarrow> ptr \<Rightarrow> ptr \<Rightarrow> (ptr \<times> ptr) option" where
  "leftmost h f rp = (let s = bhl (h rp) in if s = nil then Some (f, rp) else leftmost h rp s)"

declare leftmost.simps [code]

definition join_children :: "ptr \<Rightarrow> pool \<Rightarrow> (ptr \<times> pool) res" where
  "join_children t st =
    bindR (get t st) (\<lambda>b.
    case leftmost (hdr st) t (bhr b) of None \<Rightarrow> Inl Loop
    | Some (f, rp) \<Rightarrow>
      bindR (if f = t then Inr st
        else bindR (get rp st) (\<lambda>r.
          bindR (put f (\<lambda>x. x\<lparr>bhl := bhr r\<rparr>) st) (\<lambda>st1.
          bindR (set_parent (bhr r) f st1) (\<lambda>st2.
          bindR (get t st2) (\<lambda>b2.
          bindR (put rp (\<lambda>x. x\<lparr>bhr := bhr b2\<rparr>) st2) (set_parent (bhr b2) rp)))))) (\<lambda>st3.
      bindR (get t st3) (\<lambda>b3.
      bindR (put rp (\<lambda>x. x\<lparr>bhl := bhl b3\<rparr>) st3) (\<lambda>st4.
      bindR (put (bhl b3) (\<lambda>x. x\<lparr>bhp := rp\<rparr>) st4) (\<lambda>st5. Inr (rp, st5))))))"

definition node_del :: "ptr \<Rightarrow> pool \<Rightarrow> pool res" where
  "node_del t st =
    bindR (get t st) (\<lambda>b.
    bindR (if bhl b = nil then Inr (bhr b, st) else if bhr b = nil then Inr (bhl b, st) else join_children t st) (\<lambda>(rp, st1).
    bindR (get t st1) (\<lambda>b1.
    bindR (relink (bhp b1) t rp st1) (set_parent rp (bhp b1)))))"

definition pooldel :: "ptr \<Rightarrow> pool \<Rightarrow> pool res" where
  "pooldel t st =
    bindR (get t st) (\<lambda>b.
    if bhp b = nil \<and> proot st \<noteq> t then unring t st
    else if bhf b \<noteq> t then ring_takes_over t st
    else node_del t st)"

section \<open>Putting a block into the tree\<close>

datatype slot = Same ptr | Below ptr

partial_function (option) find_slot :: "(ptr \<Rightarrow> bhdr) \<Rightarrow> nat \<Rightarrow> ptr \<Rightarrow> ptr \<Rightarrow> slot option" where
  "find_slot h sz tp t =
    (if t = nil then Some (Below tp)
     else if sz = bsize (h t) then Some (Same t)
     else find_slot h sz t (if sz < bsize (h t) then bhl (h t) else bhr (h t)))"

declare find_slot.simps [code]

definition pooladd :: "ptr \<Rightarrow> pool \<Rightarrow> pool res" where
  "pooladd q st0 =
    bindR (put q (\<lambda>x. x\<lparr>magic := MAGIC_F, bhl := nil, bhr := nil, bhp := nil, bhf := q, bhv := q\<rparr>) st0) (\<lambda>st.
    if proot st = nil then Inr (st\<lparr>proot := q\<rparr>)
    else case find_slot (hdr st) (bsize (hdr st q)) nil (proot st) of None \<Rightarrow> Inl Loop
    | Some (Same t) \<Rightarrow>
        bindR (put q (\<lambda>x. x\<lparr>bhf := bhf (hdr st t)\<rparr>) st) (\<lambda>st1.
        bindR (put (bhf (hdr st1 q)) (\<lambda>x. x\<lparr>bhv := q\<rparr>) st1) (\<lambda>st2.
        bindR (put q (\<lambda>x. x\<lparr>bhv := t\<rparr>) st2) (put t (\<lambda>x. x\<lparr>bhf := q\<rparr>))))
    | Some (Below tp) \<Rightarrow>
        bindR (put q (\<lambda>x. x\<lparr>bhp := tp\<rparr>) st) (\<lambda>st1.
        bindR (get tp st1) (\<lambda>b.
        if bsize (hdr st1 q) < bsize b then put tp (\<lambda>x. x\<lparr>bhl := q\<rparr>) st1 else put tp (\<lambda>x. x\<lparr>bhr := q\<rparr>) st1)))"

section \<open>Allocation\<close>

datatype fit = Exact ptr | Fit ptr   \<comment> \<open>\<open>Fit nil\<close>: no block is large enough\<close>

partial_function (option) best_fit :: "(ptr \<Rightarrow> bhdr) \<Rightarrow> nat \<Rightarrow> ptr \<Rightarrow> ptr \<Rightarrow> fit option" where
  "best_fit h sz q t =
    (if t = nil then Some (Fit q)
     else if bsize (h t) = sz then Some (Exact t)
     else if sz < bsize (h t) then best_fit h sz t (bhl (h t))
     else best_fit h sz q (bhr (h t)))"

declare best_fit.simps [code]

definition take_exact :: "ptr \<Rightarrow> pool \<Rightarrow> (ptr \<times> pool) res" where
  "take_exact t st =
    bindR (pooldel t st) (\<lambda>st1.
    bindR (put t (\<lambda>x. x\<lparr>magic := MAGIC_A\<rparr>) st1) (\<lambda>st2.
    Inr (B2D t, st2\<lparr>pcur := pcur st2 + int (bsize (hdr st2 t))\<rparr>)))"

definition take_fit :: "ptr \<Rightarrow> nat \<Rightarrow> pool \<Rightarrow> (ptr \<times> pool) res" where
  "take_fit q sz st =
    bindR (pooldel q st) (\<lambda>st1.
    bindR (put q (\<lambda>x. x\<lparr>magic := MAGIC_A\<rparr>) st1) (\<lambda>st2.
    let frag = bsize (hdr st2 q) - sz in
    if frag < sz div 4 then Inr (B2D q, st2\<lparr>pcur := pcur st2 + int (bsize (hdr st2 q))\<rparr>)
    else
      bindR (put q (\<lambda>x. x\<lparr>bsize := sz\<rparr>) st2) (\<lambda>st3. let st4 = set_tail q st3; t = q + sz in
      bindR (put t (\<lambda>x. x\<lparr>bsize := frag\<rparr>) st4) (\<lambda>st5.
      bindR (pooladd t (set_tail t st5)) (\<lambda>st6.
      Inr (B2D q, st6\<lparr>pcur := pcur st6 + int (bsize (hdr st6 q))\<rparr>))))))"

text \<open>Laying out a new chunk at \<open>l\<close>: its leader, the block to return, the rest, the end mark.\<close>

definition pool_chunk :: "ptr \<Rightarrow> nat \<Rightarrow> nat \<Rightarrow> nat \<Rightarrow> pool \<Rightarrow> (ptr \<times> pool) res" where
  "pool_chunk l s ns ldr st =
    bindR (put l (\<lambda>x. x\<lparr>magic := MAGIC_E, bsize := ldr, csize := ns + ldr, clink := pchain st\<rparr>) st) (\<lambda>st2.
    let st3 = set_tail l (st2\<lparr>pchain := l\<rparr>); t = l + ldr in
    bindR (put t (\<lambda>x. x\<lparr>magic := MAGIC_A, bsize := s\<rparr>) st3) (\<lambda>st4. let st5 = set_tail t st4 in
    bindR (if ns - s > 0
      then bindR (put (t + s) (\<lambda>x. x\<lparr>bsize := ns - s\<rparr>) st5) (\<lambda>st6. pooladd (t + s) (set_tail (t + s) st6))
      else Inr st5) (\<lambda>st7.
    let q = (if ns - s > 0 then t + s else t) in
    bindR (put (q + bsize (hdr st7 q)) (\<lambda>x. x\<lparr>magic := MAGIC_E\<rparr>) st7) (\<lambda>st8.
    Inr (B2D t, st8\<lparr>pcur := pcur st8 + int (bsize (hdr st8 t))\<rparr>)))))"

text \<open>\<open>brk\<close> is what \<open>sbrk\<close> returns: the start of fresh memory, or \<open>None\<close> for \<open>-1\<close>.\<close>

definition pool_grow :: "ptr option \<Rightarrow> nat \<Rightarrow> pool \<Rightarrow> (ptr \<times> pool) res" where
  "pool_grow brk sz st =
    (let ns = (if sz > pchunk st then sz else pchunk st);
         ldr = unat (pquanta st) + 1;
         alloc = ns + ldr + 4;
         st1 = st\<lparr>parena := parena st + alloc\<rparr> in
     if parena st1 > pmax st then Inr (nil, st1\<lparr>parena := parena st1 - alloc\<rparr>)
     else case brk of
       None \<Rightarrow> Inr (nil, st1\<lparr>nbrk := nbrk st1 + 1\<rparr>)
     | Some l \<Rightarrow> pool_chunk l sz ns ldr (st1\<lparr>nbrk := nbrk st1 + 1\<rparr>))"

text \<open>The size is rounded up in 32-bit arithmetic; a result that is not positive as an \<open>int\<close> is not modelled further.\<close>

definition round_up :: "u32 \<Rightarrow> u32 \<Rightarrow> u32" where
  "round_up quanta n = (n + BHDRSIZE + quanta) AND NOT quanta"

definition poolalloc :: "ptr option \<Rightarrow> u32 \<Rightarrow> pool \<Rightarrow> (ptr \<times> pool) res" where
  "poolalloc brk n st =
    (let w = round_up (pquanta st) n; sz = unat w; st1 = st\<lparr>nalloc := nalloc st + 1\<rparr> in
     if sint w \<le> 0 then Inl Undef
     else case best_fit (hdr st1) sz nil (proot st1) of
       None \<Rightarrow> Inl Loop
     | Some (Exact t) \<Rightarrow> take_exact t st1
     | Some (Fit q) \<Rightarrow> if q \<noteq> nil then take_fit q sz st1 else pool_grow brk sz st1)"

section \<open>Freeing\<close>

definition join_forward :: "ptr \<Rightarrow> pool \<Rightarrow> pool res" where
  "join_forward b st =
    (let c = b + bsize (hdr st b) in
     bindR (get c st) (\<lambda>x.
     if magic x = MAGIC_F then
       bindR (pooldel c st) (\<lambda>st1.
       bindR (put c (\<lambda>x. x\<lparr>magic := 0\<rparr>) st1) (\<lambda>st2.
       bindR (put b (\<lambda>x. x\<lparr>bsize := bsize x + bsize (hdr st2 c)\<rparr>) st2) (\<lambda>st3. Inr (set_tail b st3))))
     else Inr st))"

definition join_backward :: "ptr \<Rightarrow> pool \<Rightarrow> (ptr \<times> pool) res" where
  "join_backward b st =
    (let c = btl st b in
     bindR (get c st) (\<lambda>x.
     if magic x = MAGIC_F then
       bindR (pooldel c st) (\<lambda>st1.
       bindR (put b (\<lambda>x. x\<lparr>magic := 0\<rparr>) st1) (\<lambda>st2.
       bindR (put c (\<lambda>x. x\<lparr>bsize := bsize x + bsize (hdr st2 b)\<rparr>) st2) (\<lambda>st3. Inr (c, set_tail c st3))))
     else Inr (b, st)))"

definition poolfree :: "ptr \<Rightarrow> pool \<Rightarrow> pool res" where
  "poolfree v st =
    bindR (D2B v st) (\<lambda>b.
    bindR (get b st) (\<lambda>x.
    let st1 = st\<lparr>nfree := nfree st + 1, pcur := pcur st - int (bsize x)\<rparr> in
    bindR (join_forward b st1) (\<lambda>st2.
    bindR (join_backward b st2) (\<lambda>(b, st3). pooladd b st3))))"

definition msize :: "ptr \<Rightarrow> pool \<Rightarrow> int res" where
  "msize v st = bindR (D2B v st) (\<lambda>b. Inr (int (bsize (hdr st b)) - sint BHDRSIZE))"

end
