(* ===== verification/PoolTree.thy ===== *)
theory PoolTree
  imports Pool "HOL-Library.Tree"
begin

text \<open>
  The tree of free blocks: what the pointers of \<^verbatim>\<open>emu/alloc.c\<close> represent, and that \<open>pooldel\<close>, \<open>pooladd\<close>
  and the search of \<open>poolalloc\<close> keep and use the representation. A tree node is the list of the blocks on
  its ring, the one linked into the tree first.
\<close>

section \<open>Rings\<close>

fun rlinks :: "(ptr \<Rightarrow> bhdr) \<Rightarrow> ptr \<Rightarrow> ptr list \<Rightarrow> ptr \<Rightarrow> bool" where
  "rlinks h x [] e \<longleftrightarrow> bhf (h x) = e \<and> bhv (h e) = x"
| "rlinks h x (y # ys) e \<longleftrightarrow> bhf (h x) = y \<and> bhv (h y) = x \<and> rlinks h y ys e"

lemma rlinks_append: "rlinks h x (xs @ y # ys) e \<longleftrightarrow> rlinks h x xs y \<and> rlinks h y ys e"
  by (induction xs arbitrary: x) auto

lemma rlinks_cong:
  assumes "\<And>y. y \<in> insert x (set xs) \<Longrightarrow> bhf (h' y) = bhf (h y)"
    and "\<And>y. y \<in> insert e (set xs) \<Longrightarrow> bhv (h' y) = bhv (h y)"
  shows "rlinks h' x xs e = rlinks h x xs e"
  using assms by (induction xs arbitrary: x) auto

lemma rlinks_last: "rlinks h x xs y \<Longrightarrow> bhv (h y) = last (x # xs)" "rlinks h x xs y \<Longrightarrow> bhf (h (last (x # xs))) = y"
  by (induction xs arbitrary: x) auto

lemma rlinks_retarget:
  assumes "rlinks h x xs y"
    and "\<And>z. z \<in> set (butlast (x # xs)) \<Longrightarrow> bhf (h' z) = bhf (h z)"
    and "\<And>z. z \<in> set xs \<Longrightarrow> bhv (h' z) = bhv (h z)"
    and "bhf (h' (last (x # xs))) = e" and "bhv (h' e) = last (x # xs)"
  shows "rlinks h' x xs e"
  using assms by (induction xs arbitrary: x) (auto split: if_splits)

text \<open>The headers after \<open>unring y\<close>.\<close>

definition unlinked :: "ptr \<Rightarrow> (ptr \<Rightarrow> bhdr) \<Rightarrow> ptr \<Rightarrow> bhdr" where
  "unlinked y h = (let u = bhv (h y); v = bhf (h y); h1 = h(u := (h u)\<lparr>bhf := v\<rparr>) in h1(v := (h1 v)\<lparr>bhv := u\<rparr>))"

lemma unlinked_fields [simp]:
  "magic (unlinked y h x) = magic (h x)" "bsize (unlinked y h x) = bsize (h x)"
  "bhl (unlinked y h x) = bhl (h x)" "bhr (unlinked y h x) = bhr (h x)" "bhp (unlinked y h x) = bhp (h x)"
  "csize (unlinked y h x) = csize (h x)" "clink (unlinked y h x) = clink (h x)"
  by (simp_all add: unlinked_def Let_def)

lemma unlinked_other: "x \<noteq> bhv (h y) \<Longrightarrow> x \<noteq> bhf (h y) \<Longrightarrow> unlinked y h x = h x"
  by (simp add: unlinked_def Let_def)

lemma unlinked_links:
  "bhf (unlinked y h x) = (if x = bhv (h y) then bhf (h y) else bhf (h x))"
  "bhv (unlinked y h x) = (if x = bhf (h y) then bhv (h y) else bhv (h x))"
  by (simp_all add: unlinked_def Let_def)

lemma unring_eq:
  assumes "y \<noteq> 0" and "bhv (hdr st y) \<noteq> 0" and "bhf (hdr st y) \<noteq> 0" and "bhv (hdr st y) \<noteq> y"
  shows "unring y st = Inr (st\<lparr>hdr := unlinked y (hdr st)\<rparr>)"
  using assms by (simp add: unring_def get_def put_def unlinked_def Let_def)

lemma rlinks_remove:
  assumes "rlinks h x (xs @ y # ys) x" and "distinct (x # xs @ y # ys)"
  shows "rlinks (unlinked y h) x (xs @ ys) x"
proof -
  from assms(1) have l: "rlinks h x xs y" "rlinks h y ys x" by (simp_all add: rlinks_append)
  note u = rlinks_last [OF l(1)]
  have ul: "last (x # xs) \<in> set (x # xs)" by (rule last_in_set) simp
  have nb: "last (x # xs) \<notin> set (butlast (x # xs))" using assms(2)
    by (metis append_butlast_last_id distinct_append distinct_butlast list.distinct(1) not_distinct_conv_prefix append_Cons)
  show ?thesis
  proof (cases ys)
    case Nil
    then have v: "bhf (h y) = x" using l(2) by simp
    have "rlinks (unlinked y h) x xs x"
      by (rule rlinks_retarget [OF l(1)]) (use nb u v assms(2) in \<open>auto simp: unlinked_links\<close>)
    then show ?thesis using Nil by simp
  next
    case (Cons v zs)
    then have v: "bhf (h y) = v" "rlinks h v zs x" using l(2) by simp_all
    have d: "v \<notin> set zs" "v \<noteq> x" "v \<notin> set xs" using assms(2) Cons by auto
    have "rlinks (unlinked y h) x xs v"
      by (rule rlinks_retarget [OF l(1)]) (use nb u v d in \<open>auto simp: unlinked_links\<close>)
    moreover have "rlinks (unlinked y h) v zs x"
    proof -
      have "z \<noteq> last (x # xs)" if "z \<in> insert v (set zs)" for z using that ul d assms(2) Cons by auto
      then have "rlinks (unlinked y h) v zs x = rlinks h v zs x"
        using d u v by (intro rlinks_cong) (auto simp: unlinked_links)
      then show ?thesis using v(2) by simp
    qed
    ultimately show ?thesis using Cons by (simp add: rlinks_append)
  qed
qed

lemma rlinks_remove_head:
  assumes "rlinks h y (f # zs) y" and "distinct (y # f # zs)"
  shows "rlinks (unlinked y h) f zs f"
proof -
  have l: "bhf (h y) = f" "rlinks h f zs y" using assms(1) by simp_all
  note u = rlinks_last [OF l(2)]
  have nb: "last (f # zs) \<notin> set (butlast (f # zs))" using assms(2)
    by (metis append_butlast_last_id distinct.simps(2) distinct_butlast list.distinct(1) not_distinct_conv_prefix)
  show ?thesis
    by (rule rlinks_retarget [OF l(2)]) (use nb u l assms(2) in \<open>auto simp: unlinked_links\<close>)
qed

section \<open>Trees\<close>

definition node_ok :: "(ptr \<Rightarrow> bhdr) \<Rightarrow> ptr \<Rightarrow> ptr \<Rightarrow> ptr list \<Rightarrow> bool" where
  "node_ok h p q xs \<longleftrightarrow> xs \<noteq> [] \<and> p = hd xs \<and> 0 \<notin> set xs \<and> bhp (h p) = q \<and> (\<forall>x \<in> set (tl xs). bhp (h x) = 0) \<and>
     rlinks h p (tl xs) p \<and> (\<forall>x \<in> set xs. bsize (h x) = bsize (h p))"

fun tok :: "(ptr \<Rightarrow> bhdr) \<Rightarrow> ptr \<Rightarrow> ptr \<Rightarrow> ptr list tree \<Rightarrow> bool" where
  "tok h p q Leaf \<longleftrightarrow> p = 0"
| "tok h p q (Node l xs r) \<longleftrightarrow> node_ok h p q xs \<and> tok h (bhl (h p)) p l \<and> tok h (bhr (h p)) p r"

definition flat :: "ptr list tree \<Rightarrow> ptr list" where "flat T = concat (inorder T)"

lemma flat_simps [simp]: "flat Leaf = []" "flat (Node l xs r) = flat l @ xs @ flat r"
  by (simp_all add: flat_def)

lemma node_ok_in: "node_ok h p q xs \<Longrightarrow> p \<in> set xs \<and> p \<noteq> 0"
  by (cases xs) (auto simp: node_ok_def)

lemma node_ok_cong:
  assumes "\<And>x. x \<in> set xs \<Longrightarrow> bhp (h' x) = bhp (h x) \<and> bhf (h' x) = bhf (h x) \<and> bhv (h' x) = bhv (h x) \<and> bsize (h' x) = bsize (h x)"
  shows "node_ok h' p q xs = node_ok h p q xs"
proof (cases "xs \<noteq> [] \<and> p = hd xs")
  case True
  then obtain ys where xs: "xs = p # ys" by (cases xs) auto
  have "rlinks h' p ys p = rlinks h p ys p"
    using assms xs by (intro rlinks_cong) auto
  then show ?thesis using assms xs by (auto simp: node_ok_def)
qed (auto simp: node_ok_def)

lemma tok_cong: "(\<And>x. x \<in> set (flat T) \<Longrightarrow> h' x = h x) \<Longrightarrow> tok h' p q T = tok h p q T"
proof (induction T arbitrary: p q)
  case (Node l xs r)
  have n: "node_ok h' p q xs = node_ok h p q xs" using Node.prems by (intro node_ok_cong) simp
  show ?case
  proof (cases "node_ok h p q xs")
    case True
    then have "h' p = h p" using node_ok_in Node.prems by fastforce
    then show ?thesis using n Node by simp
  qed (simp add: n)
qed simp

lemma tok_root: "tok h p q T \<Longrightarrow> p = 0 \<and> T = Leaf \<or> p \<noteq> 0 \<and> p \<in> set (flat T)"
  by (cases T) (auto dest: node_ok_in)

lemma tok_nonzero: "tok h p q T \<Longrightarrow> 0 \<notin> set (flat T)"
  by (induction T arbitrary: p q) (auto simp: node_ok_def)

text \<open>Only the root knows its parent.\<close>

lemma node_ok_reparent:
  "node_ok h p q xs \<Longrightarrow> distinct xs \<Longrightarrow> node_ok (h(p := (h p)\<lparr>bhp := q'\<rparr>)) p q' xs"
proof -
  assume n: "node_ok h p q xs" "distinct xs"
  then obtain ys where xs: "xs = p # ys" by (cases xs) (auto simp: node_ok_def)
  have "rlinks (h(p := (h p)\<lparr>bhp := q'\<rparr>)) p ys p = rlinks h p ys p"
    by (rule rlinks_cong) auto
  then show ?thesis using n xs by (auto simp: node_ok_def)
qed

lemma tok_reparent:
  assumes "tok h p q T" and "distinct (flat T)"
  shows "tok (h(p := (h p)\<lparr>bhp := q'\<rparr>)) p q' T"
proof (cases T)
  case (Node l xs r)
  have p: "p \<in> set xs" "p \<noteq> 0" using assms(1) Node node_ok_in by auto
  let ?h = "h(p := (h p)\<lparr>bhp := q'\<rparr>)"
  have "p \<notin> set (flat l)" "p \<notin> set (flat r)" using assms(2) Node p(1) by auto
  then have "tok ?h (bhl (h p)) p l = tok h (bhl (h p)) p l" "tok ?h (bhr (h p)) p r = tok h (bhr (h p)) p r"
    by (intro tok_cong; auto)+
  moreover have "node_ok ?h p q' xs" using assms Node by (intro node_ok_reparent) auto
  ultimately show ?thesis using assms(1) Node by simp
qed (use assms in simp)

section \<open>Contexts\<close>

datatype ctx = Top | InL ctx "ptr list" "ptr list tree" | InR "ptr list tree" "ptr list" ctx

fun plug :: "ctx \<Rightarrow> ptr list tree \<Rightarrow> ptr list tree" where
  "plug Top T = T"
| "plug (InL c xs r) T = Node (plug c T) xs r"
| "plug (InR l xs c) T = Node l xs (plug c T)"

fun before :: "ctx \<Rightarrow> ptr list list" where
  "before Top = []" | "before (InL c xs r) = before c" | "before (InR l xs c) = inorder l @ xs # before c"

fun after :: "ctx \<Rightarrow> ptr list list" where
  "after Top = []" | "after (InL c xs r) = after c @ xs # inorder r" | "after (InR l xs c) = after c"

definition cset :: "ctx \<Rightarrow> ptr set" where "cset c = set (concat (before c @ after c))"

lemma inorder_plug: "inorder (plug c T) = before c @ inorder T @ after c"
  by (induction c) simp_all

lemma flat_plug: "flat (plug c T) = concat (before c) @ flat T @ concat (after c)"
  by (simp add: flat_def inorder_plug)

lemma cset_simps [simp]: "cset Top = {}" "cset (InL c xs r) = cset c \<union> set xs \<union> set (flat r)"
  "cset (InR l xs c) = set (flat l) \<union> set xs \<union> cset c"
  by (auto simp: cset_def flat_def)

lemma ctx_exists: "xs \<in> set (inorder T) \<Longrightarrow> \<exists>c l r. T = plug c (Node l xs r)"
proof (induction T)
  case (Node l ys r)
  then consider "xs = ys" | "xs \<in> set (inorder l)" | "xs \<in> set (inorder r)" by auto
  then show ?case
  proof cases
    case 1
    then show ?thesis using plug.simps(1) by metis
  next
    case 2
    then obtain c a b where "l = plug c (Node a xs b)" using Node.IH(1) by blast
    then show ?thesis using plug.simps(2) by metis
  next
    case 3
    then obtain c a b where "r = plug c (Node a xs b)" using Node.IH(2) by blast
    then show ?thesis using plug.simps(3) by metis
  qed
qed simp

text \<open>\<open>cok h p q c t s\<close>: \<open>c\<close> hangs at \<open>p\<close> below \<open>q\<close>, and its hole at \<open>t\<close> below \<open>s\<close>.\<close>

fun cok :: "(ptr \<Rightarrow> bhdr) \<Rightarrow> ptr \<Rightarrow> ptr \<Rightarrow> ctx \<Rightarrow> ptr \<Rightarrow> ptr \<Rightarrow> bool" where
  "cok h p q Top t s \<longleftrightarrow> t = p \<and> s = q"
| "cok h p q (InL c xs r) t s \<longleftrightarrow> node_ok h p q xs \<and> cok h (bhl (h p)) p c t s \<and> tok h (bhr (h p)) p r"
| "cok h p q (InR l xs c) t s \<longleftrightarrow> node_ok h p q xs \<and> tok h (bhl (h p)) p l \<and> cok h (bhr (h p)) p c t s"

lemma tok_plug: "tok h p q (plug c T) \<longleftrightarrow> (\<exists>t s. cok h p q c t s \<and> tok h t s T)"
  by (induction c arbitrary: p q) auto

lemma cok_cong: "(\<And>x. x \<in> cset c \<Longrightarrow> h' x = h x) \<Longrightarrow> cok h' p q c t s = cok h p q c t s"
proof (induction c arbitrary: p q)
  case (InL c xs r)
  have n: "node_ok h' p q xs = node_ok h p q xs" using InL.prems by (intro node_ok_cong) simp
  have r: "tok h' p' q' r = tok h p' q' r" for p' q' using InL.prems by (intro tok_cong) simp
  have "node_ok h p q xs \<Longrightarrow> h' p = h p" using node_ok_in InL.prems by fastforce
  then show ?case using n r InL by auto
next
  case (InR l xs c)
  have n: "node_ok h' p q xs = node_ok h p q xs" using InR.prems by (intro node_ok_cong) simp
  have l: "tok h' p' q' l = tok h p' q' l" for p' q' using InR.prems by (intro tok_cong) simp
  have "node_ok h p q xs \<Longrightarrow> h' p = h p" using node_ok_in InR.prems by fastforce
  then show ?case using n l InR by auto
qed simp

lemma cok_parent: "cok h p q c t s \<Longrightarrow> c = Top \<and> s = q \<and> t = p \<or> c \<noteq> Top \<and> s \<in> cset c \<and> s \<noteq> 0 \<and> p \<in> cset c \<and> p \<noteq> 0"
  by (induction c arbitrary: p q) (auto dest!: node_ok_in)

text \<open>Replacing what hangs in the hole: the field of \<open>s\<close> that points to it is the one on its side.\<close>

fun on_left :: "ctx \<Rightarrow> bool" where
  "on_left Top = False"
| "on_left (InL c xs r) = (if c = Top then True else on_left c)"
| "on_left (InR l xs c) = (if c = Top then False else on_left c)"

definition set_child :: "bool \<Rightarrow> ptr \<Rightarrow> bhdr \<Rightarrow> bhdr" where
  "set_child lft f x = (if lft then x\<lparr>bhl := f\<rparr> else x\<lparr>bhr := f\<rparr>)"

lemma set_child_fields [simp]:
  "magic (set_child b f x) = magic x" "bsize (set_child b f x) = bsize x" "bhp (set_child b f x) = bhp x"
  "bhv (set_child b f x) = bhv x" "bhf (set_child b f x) = bhf x" "csize (set_child b f x) = csize x" "clink (set_child b f x) = clink x"
  by (simp_all add: set_child_def)

abbreviation cdistinct :: "ctx \<Rightarrow> bool" where "cdistinct c \<equiv> distinct (concat (before c) @ concat (after c))"

lemma cdistinct_simps:
  "cdistinct (InL c xs r) \<Longrightarrow> cdistinct c \<and> distinct xs \<and> distinct (flat r) \<and> set xs \<inter> set (flat r) = {} \<and> cset c \<inter> (set xs \<union> set (flat r)) = {}"
  "cdistinct (InR l xs c) \<Longrightarrow> cdistinct c \<and> distinct xs \<and> distinct (flat l) \<and> set xs \<inter> set (flat l) = {} \<and> cset c \<inter> (set xs \<union> set (flat l)) = {}"
  by (auto simp: cset_def flat_def)

lemma cok_replace:
  assumes "cok h p q c t s" and "cdistinct c"
    and "\<And>x. x \<in> cset c \<Longrightarrow> h' x = (if x = s then set_child (on_left c) f (h x) else h x)"
  shows "cok h' (if c = Top then f else p) q c f s"
  using assms
proof (induction c arbitrary: p q)
  case (InL c xs r)
  note d = cdistinct_simps(1) [OF InL.prems(2)]
  have o: "node_ok h p q xs" "cok h (bhl (h p)) p c t s" "tok h (bhr (h p)) p r" using InL.prems(1) by auto
  have p: "p \<in> set xs" using node_ok_in [OF o(1)] by simp
  have n: "node_ok h' p q xs" using o(1) InL.prems(3) by (subst node_ok_cong [where h = h]) auto
  have s: "s \<in> cset c \<or> c = Top \<and> s = p" using cok_parent [OF o(2)] by auto
  then have ps: "c \<noteq> Top \<Longrightarrow> p \<noteq> s" using p d cok_parent [OF o(2)] by auto
  have hp: "h' p = (if c = Top then set_child True f (h p) else h p)"
    using InL.prems(3) [of p] p ps cok_parent [OF o(2)] by auto
  have r: "tok h' (bhr (h p)) p r"
  proof -
    have "h' x = h x" if "x \<in> set (flat r)" for x
      using InL.prems(3) [of x] that s p d by auto
    then show ?thesis using o(3) tok_cong by metis
  qed
  have c: "cok h' (if c = Top then f else bhl (h p)) p c f s"
    using InL.IH [OF o(2)] d InL.prems(3) by (auto split: if_splits)
  show ?case using n r c hp by (auto simp: set_child_def)
next
  case (InR l xs c)
  note d = cdistinct_simps(2) [OF InR.prems(2)]
  have o: "node_ok h p q xs" "cok h (bhr (h p)) p c t s" "tok h (bhl (h p)) p l" using InR.prems(1) by auto
  have p: "p \<in> set xs" using node_ok_in [OF o(1)] by simp
  have n: "node_ok h' p q xs" using o(1) InR.prems(3) by (subst node_ok_cong [where h = h]) auto
  have s: "s \<in> cset c \<or> c = Top \<and> s = p" using cok_parent [OF o(2)] by auto
  then have ps: "c \<noteq> Top \<Longrightarrow> p \<noteq> s" using p d cok_parent [OF o(2)] by auto
  have hp: "h' p = (if c = Top then set_child False f (h p) else h p)"
    using InR.prems(3) [of p] p ps cok_parent [OF o(2)] by auto
  have r: "tok h' (bhl (h p)) p l"
  proof -
    have "h' x = h x" if "x \<in> set (flat l)" for x
      using InR.prems(3) [of x] that s p d by auto
    then show ?thesis using o(3) tok_cong by metis
  qed
  have c: "cok h' (if c = Top then f else bhr (h p)) p c f s"
    using InR.IH [OF o(2)] d InR.prems(3) by (auto split: if_splits)
  show ?case using n r c hp by (auto simp: set_child_def)
qed simp

lemma cok_side:
  assumes "cok h p q c t s" and "c \<noteq> Top" and "t \<noteq> 0" and "t \<notin> cset c"
  shows "bhl (h s) = t \<longleftrightarrow> on_left c"
  using assms
proof (induction c arbitrary: p q)
  case (InR l xs c)
  show ?case
  proof (cases "c = Top")
    case True
    have "bhl (h p) \<noteq> t" using InR.prems tok_root [of h "bhl (h p)" p l] by auto
    then show ?thesis using InR.prems(1) True by auto
  next
    case False
    then show ?thesis using InR by auto
  qed
qed auto

lemma tok_reparented:
  assumes "tok h p q T" and "distinct (flat T)"
    and "\<And>x. x \<in> set (flat T) \<Longrightarrow> h' x = (if x = p then (h x)\<lparr>bhp := q'\<rparr> else h x)"
  shows "tok h' p q' T"
proof -
  have "tok h' p q' T = tok (h(p := (h p)\<lparr>bhp := q'\<rparr>)) p q' T"
    by (rule tok_cong) (use assms(3) in auto)
  then show ?thesis using tok_reparent [OF assms(1,2)] by simp
qed

section \<open>The steps of the deletion\<close>

definition parented :: "ptr \<Rightarrow> ptr \<Rightarrow> (ptr \<Rightarrow> bhdr) \<Rightarrow> ptr \<Rightarrow> bhdr" where
  "parented p q h = (if p = 0 then h else h(p := (h p)\<lparr>bhp := q\<rparr>))"

definition relinked :: "ptr \<Rightarrow> ptr \<Rightarrow> ptr \<Rightarrow> (ptr \<Rightarrow> bhdr) \<Rightarrow> ptr \<Rightarrow> bhdr" where
  "relinked s t f h = (if s = 0 then h else h(s := set_child (bhl (h s) = t) f (h s)))"

lemma get_eq: "b \<noteq> 0 \<Longrightarrow> get b st = Inr (hdr st b)"
  and put_eq: "b \<noteq> 0 \<Longrightarrow> put b g st = Inr (st\<lparr>hdr := (hdr st)(b := g (hdr st b))\<rparr>)"
  by (simp_all add: get_def put_def)

lemma set_parent_eq: "set_parent p q st = Inr (st\<lparr>hdr := parented p q (hdr st)\<rparr>)"
  by (simp add: set_parent_def parented_def put_def)

lemma relink_eq: "relink s t f st = Inr (st\<lparr>hdr := relinked s t f (hdr st), proot := if s = 0 then f else proot st\<rparr>)"
  by (simp add: relink_def relinked_def put_def get_def set_child_def)

lemma parented_at: "parented p q h x = (if x = p \<and> p \<noteq> 0 then (h x)\<lparr>bhp := q\<rparr> else h x)"
  by (simp add: parented_def)

lemma relinked_at: "relinked s t f h x = (if x = s \<and> s \<noteq> 0 then set_child (bhl (h s) = t) f (h x) else h x)"
  by (simp add: relinked_def)

text \<open>What an operation on the tree leaves alone.\<close>

definition tree_moves :: "ptr set \<Rightarrow> pool \<Rightarrow> pool \<Rightarrow> bool" where
  "tree_moves S st st' \<longleftrightarrow> st' = st\<lparr>hdr := hdr st', proot := proot st'\<rparr> \<and> (\<forall>x. x \<notin> S \<longrightarrow> hdr st' x = hdr st x) \<and>
     (\<forall>x. magic (hdr st' x) = magic (hdr st x) \<and> bsize (hdr st' x) = bsize (hdr st x) \<and>
          csize (hdr st' x) = csize (hdr st x) \<and> clink (hdr st' x) = clink (hdr st x))"

definition keys :: "(ptr \<Rightarrow> bhdr) \<Rightarrow> ptr list tree \<Rightarrow> nat list" where
  "keys h T = map (\<lambda>xs. bsize (h (hd xs))) (inorder T)"

definition tree_ok :: "pool \<Rightarrow> ptr list tree \<Rightarrow> bool" where
  "tree_ok st T \<longleftrightarrow> tok (hdr st) (proot st) 0 T \<and> distinct (flat T) \<and> sorted_wrt (<) (keys (hdr st) T)"

lemma tree_movesI:
  assumes "st' = st\<lparr>hdr := h', proot := r'\<rparr>" and "\<And>x. x \<notin> S \<Longrightarrow> h' x = hdr st x"
    and "\<And>x. magic (h' x) = magic (hdr st x) \<and> bsize (h' x) = bsize (hdr st x) \<and> csize (h' x) = csize (hdr st x) \<and> clink (h' x) = clink (hdr st x)"
  shows "tree_moves S st st'"
  using assms by (simp add: tree_moves_def)

lemma keys_cong: "(\<And>x. bsize (h' x) = bsize (h x)) \<Longrightarrow> keys h' T = keys h T"
  by (simp add: keys_def)

lemma in_flat: "t \<in> set (flat T) \<Longrightarrow> \<exists>c l xs r. T = plug c (Node l xs r) \<and> t \<in> set xs"
proof -
  assume "t \<in> set (flat T)"
  then obtain xs where "xs \<in> set (inorder T)" "t \<in> set xs" by (auto simp: flat_def)
  then show ?thesis using ctx_exists by blast
qed

text \<open>A tree taken apart at a node.\<close>

lemma at_node:
  assumes "tok h p0 0 (plug c (Node l xs r))" and "distinct (flat (plug c (Node l xs r)))"
  obtains p s where "cok h p0 0 c p s" and "node_ok h p s xs" and "tok h (bhl (h p)) p l" and "tok h (bhr (h p)) p r"
    and "cdistinct c" and "distinct xs" and "distinct (flat l)" and "distinct (flat r)"
    and "cset c \<inter> (set xs \<union> set (flat l) \<union> set (flat r)) = {}"
    and "set xs \<inter> (set (flat l) \<union> set (flat r)) = {}" and "set (flat l) \<inter> set (flat r) = {}"
    and "p = hd xs" and "p \<in> set xs" and "p \<noteq> 0" and "s = 0 \<longleftrightarrow> c = Top" and "c \<noteq> Top \<Longrightarrow> s \<in> cset c"
    and "c = Top \<Longrightarrow> p0 = p" and "c \<noteq> Top \<Longrightarrow> p0 \<in> cset c"
proof -
  from assms(1) obtain p s where k: "cok h p0 0 c p s" "node_ok h p s xs" "tok h (bhl (h p)) p l" "tok h (bhr (h p)) p r"
    by (auto simp: tok_plug)
  have d: "distinct (concat (before c) @ (flat l @ xs @ flat r) @ concat (after c))"
    using assms(2) by (simp add: flat_plug)
  have cs: "cset c = set (concat (before c)) \<union> set (concat (after c))" by (simp add: cset_def)
  note q = cok_parent [OF k(1)]
  note n = node_ok_in [OF k(2)]
  have e: "cdistinct c" "distinct xs" "distinct (flat l)" "distinct (flat r)"
    "cset c \<inter> (set xs \<union> set (flat l) \<union> set (flat r)) = {}"
    "set xs \<inter> (set (flat l) \<union> set (flat r)) = {}" "set (flat l) \<inter> set (flat r) = {}"
    unfolding cs using d by (simp_all only: distinct_append set_append) blast+
  have p: "p = hd xs" "p \<in> set xs" "p \<noteq> 0" using n k(2) by (simp_all add: node_ok_def)
  have s: "s = 0 \<longleftrightarrow> c = Top" "c \<noteq> Top \<Longrightarrow> s \<in> cset c" "c = Top \<Longrightarrow> p0 = p" "c \<noteq> Top \<Longrightarrow> p0 \<in> cset c"
    using q by blast+
  show thesis by (rule that [OF k e p s])
qed

lemma pooldel_member:
  assumes "tree_ok st (plug c (Node l (x # as @ t # bs) r))"
  shows "\<exists>st'. pooldel t st = Inr st' \<and> tree_ok st' (plug c (Node l (x # as @ bs) r)) \<and>
    tree_moves (set (x # as @ t # bs)) st st'"
proof -
  let ?xs = "x # as @ t # bs" and ?h = "hdr st"
  have T: "tok ?h (proot st) 0 (plug c (Node l ?xs r))" "distinct (flat (plug c (Node l ?xs r)))"
    "sorted_wrt (<) (keys ?h (plug c (Node l ?xs r)))" using assms by (simp_all add: tree_ok_def)
  obtain p s where k: "cok ?h (proot st) 0 c p s" "node_ok ?h p s ?xs" "tok ?h (bhl (?h p)) p l" "tok ?h (bhr (?h p)) p r"
    and d: "cdistinct c" "distinct ?xs" "distinct (flat l)" "distinct (flat r)"
      "cset c \<inter> (set ?xs \<union> set (flat l) \<union> set (flat r)) = {}"
      "set ?xs \<inter> (set (flat l) \<union> set (flat r)) = {}" "set (flat l) \<inter> set (flat r) = {}"
    and p: "p = hd ?xs" "p \<in> set ?xs" "p \<noteq> 0" "s = 0 \<longleftrightarrow> c = Top" "c \<noteq> Top \<Longrightarrow> s \<in> cset c"
    and r0: "c = Top \<Longrightarrow> proot st = p" "c \<noteq> Top \<Longrightarrow> proot st \<in> cset c"
    by (rule at_node [OF T(1,2)], rule that)
  have px: "p = x" using p(1) by simp
  have ring: "rlinks ?h x (as @ t # bs) x" and z: "0 \<notin> set ?xs" and bp: "bhp (?h t) = 0"
    using k(2) px by (auto simp: node_ok_def)
  have tx: "t \<noteq> x" "t \<noteq> 0" using d(2) z by auto
  have root: "proot st \<noteq> t" using r0 px tx d(5) by auto
  let ?u = "bhv (?h t)" and ?v = "bhf (?h t)"
  have uv: "?u \<in> set (x # as)" "?v \<in> set (bs @ [x])"
  proof -
    from ring have l: "rlinks ?h x as t" "rlinks ?h t bs x" by (simp_all add: rlinks_append)
    show "?u \<in> set (x # as)" using rlinks_last(1) [OF l(1)] last_in_set [of "x # as"] by (metis list.distinct(1))
    show "?v \<in> set (bs @ [x])" using l(2) by (cases bs) auto
  qed
  then have uv': "?u \<noteq> 0" "?v \<noteq> 0" "?u \<noteq> t" "?u \<in> set ?xs" "?v \<in> set ?xs" using z d(2) by auto
  let ?h' = "unlinked t ?h"
  have other: "?h' y = ?h y" if "y \<notin> set ?xs" for y
    by (rule unlinked_other) (use that uv'(4,5) in auto)
  have "pooldel t st = Inr (st\<lparr>hdr := ?h'\<rparr>)"
    using unring_eq [OF tx(2) uv'(1,2,3)] by (simp add: pooldel_def get_eq tx bp root)
  moreover have "tok ?h' (proot st) 0 (plug c (Node l (x # as @ bs) r))"
  proof -
    have "cok ?h' (proot st) 0 c p s" using k(1) other d(5) by (subst cok_cong [where h = ?h]) blast+
    moreover have "tok ?h' (bhl (?h' p)) p l" "tok ?h' (bhr (?h' p)) p r"
      using k(3,4) other d(6) by (simp, subst tok_cong [where h = ?h]; blast)+
    moreover have "node_ok ?h' p s (x # as @ bs)"
      using k(2) px rlinks_remove [OF ring d(2)] by (auto simp: node_ok_def)
    ultimately show ?thesis by (auto simp: tok_plug)
  qed
  moreover have "distinct (flat (plug c (Node l (x # as @ bs) r)))"
    using T(2) by (auto simp: flat_plug)
  moreover have "keys ?h' (plug c (Node l (x # as @ bs) r)) = keys ?h (plug c (Node l ?xs r))"
    by (simp add: keys_def inorder_plug)
  moreover have "tree_moves (set ?xs) st (st\<lparr>hdr := ?h'\<rparr>)"
    by (rule tree_movesI [where h' = ?h' and r' = "proot st"]) (use other in auto)
  ultimately show ?thesis using T(3) by (auto simp: tree_ok_def)
qed

lemma pooldel_head:
  assumes "tree_ok st (plug c (Node l (t # f # zs) r))"
  shows "\<exists>st'. pooldel t st = Inr st' \<and> tree_ok st' (plug c (Node l (f # zs) r)) \<and>
    tree_moves (set (flat (plug c (Node l (t # f # zs) r)))) st st'"
proof -
  let ?xs = "t # f # zs" and ?h = "hdr st"
  have T: "tok ?h (proot st) 0 (plug c (Node l ?xs r))" "distinct (flat (plug c (Node l ?xs r)))"
    "sorted_wrt (<) (keys ?h (plug c (Node l ?xs r)))" using assms by (simp_all add: tree_ok_def)
  obtain p s where k: "cok ?h (proot st) 0 c p s" "node_ok ?h p s ?xs" "tok ?h (bhl (?h p)) p l" "tok ?h (bhr (?h p)) p r"
    and d: "cdistinct c" "distinct ?xs" "distinct (flat l)" "distinct (flat r)"
      "cset c \<inter> (set ?xs \<union> set (flat l) \<union> set (flat r)) = {}"
      "set ?xs \<inter> (set (flat l) \<union> set (flat r)) = {}" "set (flat l) \<inter> set (flat r) = {}"
    and p: "p = hd ?xs" "p \<in> set ?xs" "p \<noteq> 0" "s = 0 \<longleftrightarrow> c = Top" "c \<noteq> Top \<Longrightarrow> s \<in> cset c"
    and r0: "c = Top \<Longrightarrow> proot st = p" "c \<noteq> Top \<Longrightarrow> proot st \<in> cset c"
    by (rule at_node [OF T(1,2)], rule that)
  have pt [simp]: "p = t" using p(1) by simp
  have ring: "rlinks ?h t (f # zs) t" and z: "0 \<notin> set ?xs" and bp: "bhp (?h t) = s" "\<forall>x \<in> set (f # zs). bhp (?h x) = 0"
    and sz: "\<forall>x \<in> set ?xs. bsize (?h x) = bsize (?h t)"
    using k(2) by (auto simp: node_ok_def)
  have f: "bhf (?h t) = f" "f \<noteq> t" "f \<noteq> 0" "t \<noteq> 0" using ring d(2) z by auto
  let ?u = "bhv (?h t)" and ?a = "bhl (?h t)" and ?b = "bhr (?h t)"
  have u: "?u \<in> set (f # zs)"
    using rlinks_last(1) [of ?h f zs t] ring last_in_set [of "f # zs"] by (metis list.distinct(1) rlinks.simps(2))
  have u': "?u \<noteq> 0" "?u \<noteq> t" using u z d(2) by (metis distinct.simps(2) list.set_intros(2))+
  have a: "?a = 0 \<or> ?a \<in> set (flat l)" and b: "?b = 0 \<or> ?b \<in> set (flat r)"
    using tok_root [OF k(3)] tok_root [OF k(4)] by auto
  have at: "?a \<noteq> t" "?b \<noteq> t" "?a \<noteq> f" "?b \<noteq> f" using a b d(6) f by auto
  have st: "s \<noteq> t" "s \<noteq> f" using p(4,5) d(5) f by auto
  define h1 where "h1 = ?h(f := (?h f)\<lparr>bhp := s\<rparr>)"
  define h2 where "h2 = relinked s t f h1"
  define h3 where "h3 = h2(f := (h2 f)\<lparr>bhl := ?a\<rparr>)"
  define h4 where "h4 = parented ?a f h3"
  define h5 where "h5 = h4(f := (h4 f)\<lparr>bhr := ?b\<rparr>)"
  define h6 where "h6 = parented ?b f h5"
  define h7 where "h7 = unlinked t h6"
  note hs = h1_def h2_def h3_def h4_def h5_def h6_def
  have t2: "h2 t = ?h t" using f st by (simp add: h1_def h2_def relinked_at)
  have t4: "h4 t = ?h t" using f at t2 by (simp add: h3_def h4_def parented_at)
  have t6: "h6 t = ?h t" using f at t4 by (simp add: h5_def h6_def parented_at)
  let ?st' = "st\<lparr>hdr := h7, proot := if s = 0 then f else proot st\<rparr>"
  have ur: "unring t s' = Inr (s'\<lparr>hdr := h7\<rparr>)" if "hdr s' = h6" for s'
    using unring_eq [of t s'] f u' that by (simp add: t6 h7_def)
  have run: "pooldel t st = Inr ?st'"
  proof -
    have nr: "\<not> (s = nil \<and> proot st \<noteq> t)" using r0(1) p(4) by auto
    have "pooldel t st = ring_takes_over t st"
      unfolding pooldel_def get_eq [OF f(4)] bindR_simps bp(1) f(1) using f(2) nr by (simp only: if_False if_True not_False_eq_True)
    also have "\<dots> = Inr ?st'"
      using f ur t2 t4
      by (simp add: ring_takes_over_def get_eq put_eq set_parent_eq relink_eq Let_def bp f
          flip: h1_def h2_def h3_def h4_def h5_def h6_def)
    finally show ?thesis .
  qed
  have fields: "bhf (h6 x) = bhf (?h x)" "bhv (h6 x) = bhv (?h x)" "bsize (h6 x) = bsize (?h x)" "magic (h6 x) = magic (?h x)"
    "csize (h6 x) = csize (?h x)" "clink (h6 x) = clink (?h x)" for x
  proof -
    let ?same = "\<lambda>k k' :: bhdr. bhf k = bhf k' \<and> bhv k = bhv k' \<and> bsize k = bsize k' \<and> magic k = magic k' \<and> csize k = csize k' \<and> clink k = clink k'"
    have "?same (h1 x) (?h x)" by (simp add: h1_def)
    moreover have "?same (h2 x) (h1 x)" by (simp add: h2_def relinked_at)
    moreover have "?same (h3 x) (h2 x)" by (simp add: h3_def)
    moreover have "?same (h4 x) (h3 x)" by (simp add: h4_def parented_at)
    moreover have "?same (h5 x) (h4 x)" by (simp add: h5_def)
    moreover have "?same (h6 x) (h5 x)" by (simp add: h6_def parented_at)
    ultimately show "bhf (h6 x) = bhf (?h x)" "bhv (h6 x) = bhv (?h x)" "bsize (h6 x) = bsize (?h x)" "magic (h6 x) = magic (?h x)"
      "csize (h6 x) = csize (?h x)" "clink (h6 x) = clink (?h x)" by simp_all
  qed
  have same: "h6 x = ?h x" if x: "x \<noteq> f" "x \<noteq> ?a \<or> ?a = 0" "x \<noteq> ?b \<or> ?b = 0" "x \<noteq> s \<or> s = 0" for x
  proof -
    have "h6 x = h5 x" using x(3) by (auto simp: h6_def parented_at)
    also have "\<dots> = h4 x" using x(1) by (simp add: h5_def)
    also have "\<dots> = h3 x" using x(2) by (auto simp: h4_def parented_at)
    also have "\<dots> = h2 x" using x(1) by (simp add: h3_def)
    also have "\<dots> = h1 x" using x(4) by (auto simp: h2_def relinked_at)
    also have "\<dots> = ?h x" using x(1) by (simp add: h1_def)
    finally show ?thesis .
  qed
  have other: "h7 x = h6 x" if "x \<notin> set ?xs" for x
    unfolding h7_def by (rule unlinked_other) (use that u f t6 in auto)
  have z': "0 \<notin> set (flat l)" "0 \<notin> set (flat r)" using tok_nonzero [OF k(3)] tok_nonzero [OF k(4)] by auto
  have hc: "h7 x = (if x = s then set_child (on_left c) f (?h x) else ?h x)" if x: "x \<in> cset c" for x
  proof -
    have n: "x \<noteq> f" "x \<noteq> ?a" "x \<noteq> ?b" "x \<notin> set ?xs" "c \<noteq> Top" "s \<noteq> 0"
      using x d(5) z' a b p(4) tok_nonzero [OF T(1)] by (auto simp: flat_plug cset_def)
    have "bhl (?h s) = t \<longleftrightarrow> on_left c" using cok_side [OF k(1) n(5)] f d(5) by auto
    then show ?thesis using n st(2) other [OF n(4)] by (simp add: hs parented_at relinked_at)
  qed
  have hl: "h7 x = (if x = ?a then (?h x)\<lparr>bhp := f\<rparr> else ?h x)" if x: "x \<in> set (flat l)" for x
  proof -
    have n: "x \<noteq> f" "x \<noteq> ?b" "x \<notin> set ?xs" "x \<noteq> s" "x \<noteq> 0"
      using x d(5,6,7) z' b p(4,5) by auto
    then show ?thesis using other [OF n(3)] by (simp add: hs parented_at relinked_at)
  qed
  have hr: "h7 x = (if x = ?b then (?h x)\<lparr>bhp := f\<rparr> else ?h x)" if x: "x \<in> set (flat r)" for x
  proof -
    have n: "x \<noteq> f" "x \<noteq> ?a" "x \<notin> set ?xs" "x \<noteq> s" "x \<noteq> 0"
      using x d(5,6,7) z' a p(4,5) by auto
    then show ?thesis using other [OF n(3)] by (simp add: hs parented_at relinked_at)
  qed
  have hf: "bhp (h7 f) = s" "bhl (h7 f) = ?a" "bhr (h7 f) = ?b"
    using st at f by (simp_all add: h7_def hs parented_at relinked_at)
  have hz: "bhp (h7 x) = 0" if x: "x \<in> set zs" for x
  proof -
    have x': "x \<in> set ?xs" using x by simp
    have "x \<noteq> f" using x d(2) by auto
    moreover have "x \<noteq> 0" using x' z by metis
    moreover have "x \<notin> set (flat l)" "x \<notin> set (flat r)" "x \<notin> cset c" using x' d(5,6) by (simp_all only: disjoint_iff Un_iff) metis+
    moreover from this have "x \<noteq> ?a \<or> ?a = 0" "x \<noteq> ?b \<or> ?b = 0" "x \<noteq> s \<or> s = 0" using a b p(4,5) by metis+
    ultimately have "h6 x = ?h x" using same by blast
    then show ?thesis using bp(2) x unfolding h7_def by simp
  qed
  have "cok h7 (if c = Top then f else proot st) 0 c f s" by (rule cok_replace [OF k(1) d(1) hc])
  then have c: "cok h7 (if s = 0 then f else proot st) 0 c f s" using p(4) by simp
  have n: "node_ok h7 f s (f # zs)"
  proof -
    have "rlinks h6 t (f # zs) t" using ring fields by (subst rlinks_cong [where h = ?h]) auto
    then have "rlinks h7 f zs f" unfolding h7_def using d(2) by (rule rlinks_remove_head)
    then show ?thesis using hf(1) hz z sz fields(3) by (auto simp: node_ok_def h7_def)
  qed
  have tl: "tok h7 (bhl (h7 f)) f l" unfolding hf using tok_reparented [OF k(3) d(3)] hl by simp
  have tr: "tok h7 (bhr (h7 f)) f r" unfolding hf using tok_reparented [OF k(4) d(4)] hr by simp
  have "tok h7 (if s = 0 then f else proot st) 0 (plug c (Node l (f # zs) r))"
    unfolding tok_plug tok.simps using c n tl tr by blast
  moreover have "distinct (flat (plug c (Node l (f # zs) r)))" using T(2) by (auto simp: flat_plug)
  moreover have "keys h7 (plug c (Node l (f # zs) r)) = keys ?h (plug c (Node l ?xs r))"
    using sz by (simp add: keys_def inorder_plug h7_def fields)
  moreover have "tree_moves (set (flat (plug c (Node l ?xs r)))) st ?st'"
  proof (rule tree_movesI [OF refl])
    fix x assume "x \<notin> set (flat (plug c (Node l ?xs r)))"
    then have n: "x \<notin> set ?xs" "x \<notin> set (flat l)" "x \<notin> set (flat r)" "x \<notin> cset c" by (auto simp: flat_plug cset_def)
    have "x \<noteq> ?a \<or> ?a = 0" "x \<noteq> ?b \<or> ?b = 0" "x \<noteq> s \<or> s = 0" "x \<noteq> f" using n a b p(4,5) by auto
    then show "h7 x = ?h x" unfolding other [OF n(1)] using same by blast
  qed (simp add: h7_def fields)
  ultimately show ?thesis using T(3) run by (auto simp: tree_ok_def)
qed

text \<open>Another tree in the place of \<open>t\<close>.\<close>

lemma splice:
  assumes "cok h p q c t s" and "cdistinct c" and "c \<noteq> Top" and "t \<noteq> 0" and "t \<notin> cset c"
    and "tok h a q' T" and "distinct (flat T)" and "cset c \<inter> set (flat T) = {}"
  shows "tok (parented a s (relinked s t a h)) p q (plug c T)"
proof -
  let ?h = "parented a s (relinked s t a h)"
  have s: "s \<in> cset c" "s \<noteq> 0" using cok_parent [OF assms(1)] assms(3) by auto
  have a: "a = 0 \<or> a \<in> set (flat T)" using tok_root [OF assms(6)] by auto
  have side: "bhl (h s) = t \<longleftrightarrow> on_left c" by (rule cok_side [OF assms(1,3,4,5)])
  have c: "?h x = (if x = s then set_child (on_left c) a (h x) else h x)" if "x \<in> cset c" for x
  proof -
    have "x \<noteq> a \<or> a = 0" using that a assms(8) by auto
    then show ?thesis using s(2) side by (auto simp: parented_at relinked_at)
  qed
  have T: "?h x = (if x = a then (h x)\<lparr>bhp := s\<rparr> else h x)" if "x \<in> set (flat T)" for x
  proof -
    have "x \<noteq> s" "x \<noteq> 0" using that s(1) assms(8) tok_nonzero [OF assms(6)] by auto
    then show ?thesis by (simp add: parented_at relinked_at)
  qed
  have "cok ?h p q c a s" using cok_replace [OF assms(1,2) c] assms(3) by simp
  moreover have "tok ?h a s T" by (rule tok_reparented [OF assms(6,7) T])
  ultimately show ?thesis by (auto simp: tok_plug)
qed

lemma leftmost_tok:
  "tok h b t R \<Longrightarrow> R \<noteq> Leaf \<Longrightarrow>
   \<exists>c ys r2 f rp. R = plug c (Node Leaf ys r2) \<and> leftmost h t b = Some (f, rp) \<and> cok h b t c rp f \<and>
     node_ok h rp f ys \<and> bhl (h rp) = 0 \<and> tok h (bhr (h rp)) rp r2 \<and> before c = [] \<and> (c = Top \<or> on_left c)"
proof (induction R arbitrary: b t)
  case (Node l ys r)
  show ?case
  proof (cases "l = Leaf")
    case True
    then have "leftmost h t b = Some (t, b)" using Node.prems(1) by (simp add: leftmost.simps)
    then show ?thesis
      by (intro exI [of _ Top] exI [of _ ys] exI [of _ r] exI [of _ t] exI [of _ b]) (use Node.prems(1) True in simp)
  next
    case False
    have n: "node_ok h b t ys" "tok h (bhl (h b)) b l" "tok h (bhr (h b)) b r" using Node.prems(1) by auto
    have "bhl (h b) \<noteq> 0" using tok_root [OF n(2)] False by auto
    then have "leftmost h t b = leftmost h b (bhl (h b))" by (subst leftmost.simps) (simp add: Let_def)
    moreover obtain c zs r2 f rp where c: "l = plug c (Node Leaf zs r2)" "leftmost h b (bhl (h b)) = Some (f, rp)"
      "cok h (bhl (h b)) b c rp f" "node_ok h rp f zs" "bhl (h rp) = 0" "tok h (bhr (h rp)) rp r2" "before c = []" "c = Top \<or> on_left c"
      using Node.IH(1) [OF n(2) False] by blast
    ultimately show ?thesis
      by (intro exI [of _ "InL c ys r"] exI [of _ zs] exI [of _ r2] exI [of _ f] exI [of _ rp]) (use n in auto)
  qed
qed simp

lemma join_children_tok:
  assumes "t \<noteq> 0" and "tok (hdr st) (bhl (hdr st t)) t l" and "tok (hdr st) (bhr (hdr st t)) t r"
    and "l \<noteq> Leaf" and "r \<noteq> Leaf" and "distinct (flat l @ flat r)" and "t \<notin> set (flat l @ flat r)"
  shows "\<exists>a h' T q. join_children t st = Inr (a, st\<lparr>hdr := h'\<rparr>) \<and> tok h' a q T \<and> inorder T = inorder l @ inorder r \<and>
    (\<forall>x. x \<notin> set (flat l @ flat r) \<longrightarrow> h' x = hdr st x) \<and>
    (\<forall>x. magic (h' x) = magic (hdr st x) \<and> bsize (h' x) = bsize (hdr st x) \<and> csize (h' x) = csize (hdr st x) \<and> clink (h' x) = clink (hdr st x))"
proof -
  let ?h = "hdr st"
  define a where "a = bhl (?h t)"
  define b where "b = bhr (?h t)"
  note ab = a_def [symmetric] b_def [symmetric]
  obtain c ys r2 f rp where c: "r = plug c (Node Leaf ys r2)" "leftmost ?h t b = Some (f, rp)" "cok ?h b t c rp f"
    "node_ok ?h rp f ys" "bhl (?h rp) = 0" "tok ?h (bhr (?h rp)) rp r2" "before c = []" "c = Top \<or> on_left c"
    using leftmost_tok [OF assms(3,5)] unfolding ab by blast
  note rp = node_ok_in [OF c(4)]
  have al: "a \<noteq> 0" "a \<in> set (flat l)" using tok_root [OF assms(2)] assms(4) unfolding ab by auto
  have fr: "flat r = ys @ flat r2 @ concat (after c)" using c(1,7) by (simp add: flat_plug)
  have d: "distinct (flat l)" "distinct ys" "distinct (flat r2)" "cdistinct c" "rp \<notin> set (flat l)" "a \<noteq> rp" "t \<noteq> rp" "t \<noteq> a"
    "a \<notin> set (flat r)" "rp \<notin> set (flat r2)" "rp \<notin> cset c" "cset c \<inter> set (flat r2) = {}" "cset c = set (concat (after c))"
    "a \<notin> set ys"
    using assms(6,7) al rp c(7) unfolding fr by (auto simp: cset_def)
  show ?thesis
  proof (cases "c = Top")
    case True
    then have e: "rp = b" "f = t" using c(3) by auto
    define h4 where "h4 = ?h(rp := (?h rp)\<lparr>bhl := a\<rparr>)"
    define h5 where "h5 = h4(a := (h4 a)\<lparr>bhp := rp\<rparr>)"
    have run: "join_children t st = Inr (rp, st\<lparr>hdr := h5\<rparr>)"
      using assms(1) rp al c(2) e(2)
      by (simp add: join_children_def get_eq put_eq ab h4_def h5_def)
    have "node_ok h5 rp t ys"
      using c(4) e d(6,14) by (subst node_ok_cong [where h = ?h]) (auto simp: h5_def h4_def)
    moreover have "tok h5 a rp l"
      by (rule tok_reparented [OF assms(2) [unfolded ab] d(1)]) (use d(5,6) in \<open>auto simp: h5_def h4_def\<close>)
    moreover have "tok h5 (bhr (?h rp)) rp r2"
    proof -
      have "h5 x = ?h x" if "x \<in> set (flat r2)" for x using that d(9,10) fr by (auto simp: h5_def h4_def)
      then show ?thesis using c(6) tok_cong by metis
    qed
    moreover have "bhl (h5 rp) = a" "bhr (h5 rp) = bhr (?h rp)" using d(6) by (simp_all add: h5_def h4_def)
    ultimately have "tok h5 rp t (Node l ys r2)" by simp
    moreover have "inorder (Node l ys r2) = inorder l @ inorder r" using c(1) True by simp
    ultimately show ?thesis
      by (intro exI [of _ rp] exI [of _ h5] exI [of _ "Node l ys r2"] exI [of _ t])
        (use run al rp fr in \<open>auto simp: h5_def h4_def\<close>)
  next
    case False
    define r' where "r' = bhr (?h rp)"
    have f: "f \<in> cset c" "f \<noteq> 0" "b \<in> cset c" "b \<noteq> 0" using cok_parent [OF c(3)] False by auto
    have sub: "cset c \<subseteq> set (flat r)" using d(13) unfolding fr by auto
    have n: "f \<noteq> t" "f \<noteq> rp" "f \<noteq> a" "b \<noteq> rp" "b \<noteq> a" "b \<noteq> t" using f sub d(9,11) assms(7) by auto
    have r': "r' = 0 \<or> r' \<in> set (flat r2)" using tok_root [OF c(6)] unfolding r'_def by auto
    then have nr: "r' \<noteq> t" "r' \<noteq> rp" "r' \<noteq> a" "r' \<noteq> b" using d(9,10,12) assms(1,7) rp al f fr by auto
    have side: "bhl (?h f) = rp" using cok_side [OF c(3) False] rp d(11) c(8) False by auto
    define h2 where "h2 = parented r' f (?h(f := (?h f)\<lparr>bhl := r'\<rparr>))"
    define h4 where "h4 = parented b rp (h2(rp := (h2 rp)\<lparr>bhr := b\<rparr>))"
    define h6 where "h6 = (h4(rp := (h4 rp)\<lparr>bhl := a\<rparr>))(a := ((h4(rp := (h4 rp)\<lparr>bhl := a\<rparr>)) a)\<lparr>bhp := rp\<rparr>)"
    have h2t: "h2 t = ?h t" using n nr by (simp add: h2_def parented_at)
    have h4t: "h4 t = ?h t" using n d(7) h2t by (simp add: h4_def parented_at)
    have run: "join_children t st = Inr (rp, st\<lparr>hdr := h6\<rparr>)"
    proof -
      have "bhr (h2 t) = b" "bhl (h4 t) = a" using h2t h4t ab by simp_all
      then show ?thesis
        using assms(1) rp al c(2) n f
        by (simp add: join_children_def get_eq put_eq set_parent_eq ab r'_def [symmetric] h2_def [symmetric] h4_def [symmetric] h6_def d(6))
    qed
    have at: "h6 x = h2 x" if "x \<noteq> rp" "x \<noteq> a" "x \<noteq> b" for x
      using that by (simp add: h6_def h4_def parented_at)
    have h2x: "h2 x = ?h x" if "x \<notin> cset c" "x \<notin> set (flat r2) \<or> x = 0" for x
    proof -
      have "x \<noteq> f" "x \<noteq> r' \<or> r' = 0" using that f r' by auto
      then show ?thesis by (auto simp: h2_def parented_at)
    qed
    have "tok (parented r' f (relinked f rp r' ?h)) b t (plug c r2)"
      using splice [OF c(3) d(4) False _ d(11) c(6) d(3,12)] rp unfolding r'_def by blast
    moreover have "relinked f rp r' ?h = ?h(f := (?h f)\<lparr>bhl := r'\<rparr>)"
      using side f by (simp add: relinked_def set_child_def)
    ultimately have "tok h2 b t (plug c r2)" by (simp add: h2_def)
    moreover have "distinct (flat (plug c r2))" using assms(6) unfolding fr by (auto simp: flat_plug c(7))
    moreover have "h6 x = (if x = b then (h2 x)\<lparr>bhp := rp\<rparr> else h2 x)" if "x \<in> set (flat (plug c r2))" for x
    proof -
      have "x \<noteq> rp" "x \<noteq> a" using that d(9,10,11,13) fr by (auto simp: flat_plug c(7))
      then show ?thesis using f(4) by (simp add: h6_def h4_def parented_at)
    qed
    ultimately have R: "tok h6 b rp (plug c r2)" by (rule tok_reparented)
    have ysn: "x \<notin> cset c \<and> x \<notin> set (flat r2) \<and> x \<notin> set (flat l)" if "x \<in> set ys" for x
      using that assms(6) d(13) unfolding fr by auto
    have N: "node_ok h6 rp f ys"
    proof -
      have e: "bhp (h6 x) = bhp (?h x) \<and> bhf (h6 x) = bhf (?h x) \<and> bhv (h6 x) = bhv (?h x) \<and> bsize (h6 x) = bsize (?h x)"
        if x: "x \<in> set ys" for x
      proof -
        have "h2 x = ?h x" by (rule h2x) (use ysn [OF x] in auto)
        moreover have "x \<noteq> a" "x \<noteq> b" using ysn [OF x] al f by auto
        ultimately show ?thesis by (auto simp: h6_def h4_def parented_at)
      qed
      show ?thesis using c(4) node_ok_cong [where h = ?h and h' = h6 and xs = ys, OF e] by simp
    qed
    have L: "tok h6 a rp l"
    proof (rule tok_reparented [OF assms(2) [unfolded ab] d(1)])
      fix x assume x: "x \<in> set (flat l)"
      have r: "x \<notin> set (flat r)" using x assms(6) by auto
      then have "x \<notin> cset c" "x \<notin> set (flat r2)" using sub fr by auto
      then have "x \<noteq> rp" "x \<noteq> b" "h2 x = ?h x" using x d(5) f h2x by auto
      then show "h6 x = (if x = a then (?h x)\<lparr>bhp := rp\<rparr> else ?h x)" by (auto simp: h6_def h4_def parented_at)
    qed
    have "bhl (h6 rp) = a" "bhr (h6 rp) = b" using d(6) n by (simp_all add: h6_def h4_def parented_at)
    then have "tok h6 rp f (Node l ys (plug c r2))" using N L R by simp
    moreover have "inorder (Node l ys (plug c r2)) = inorder l @ inorder r" using c(1,7) by (simp add: inorder_plug)
    moreover have "\<forall>x. x \<notin> set (flat l @ flat r) \<longrightarrow> h6 x = ?h x"
    proof (intro allI impI)
      fix x assume x: "x \<notin> set (flat l @ flat r)"
      then have "x \<noteq> a" "x \<notin> set (flat r)" using al by auto
      moreover from this have "x \<noteq> rp" "x \<notin> cset c" "x \<notin> set (flat r2)" using rp sub unfolding fr by auto
      ultimately show "h6 x = ?h x" using at [of x] h2x [of x] f(3) by auto
    qed
    moreover have "\<forall>x. magic (h6 x) = magic (?h x) \<and> bsize (h6 x) = bsize (?h x) \<and> csize (h6 x) = csize (?h x) \<and> clink (h6 x) = clink (?h x)"
    proof
      fix x
      let ?same = "\<lambda>k k' :: bhdr. magic k = magic k' \<and> bsize k = bsize k' \<and> csize k = csize k' \<and> clink k = clink k'"
      have "?same (h2 x) (?h x)" by (simp add: h2_def parented_at)
      moreover have "?same (h4 x) (h2 x)" by (simp add: h4_def parented_at)
      moreover have "?same (h6 x) (h4 x)" by (simp add: h6_def)
      ultimately show "?same (h6 x) (?h x)" by simp
    qed
    ultimately show ?thesis
      by (intro exI [of _ rp] exI [of _ h6] exI [of _ "Node l ys (plug c r2)"] exI [of _ f] conjI run)
  qed
qed

lemma pooldel_single:
  assumes "tree_ok st (plug c (Node l [t] r))"
  shows "\<exists>st' T. pooldel t st = Inr st' \<and> tree_ok st' T \<and> inorder T = before c @ inorder l @ inorder r @ after c \<and>
    tree_moves (set (flat (plug c (Node l [t] r)))) st st'"
proof -
  let ?h = "hdr st"
  have T: "tok ?h (proot st) 0 (plug c (Node l [t] r))" "distinct (flat (plug c (Node l [t] r)))"
    "sorted_wrt (<) (keys ?h (plug c (Node l [t] r)))" using assms by (simp_all add: tree_ok_def)
  obtain p s where k: "cok ?h (proot st) 0 c p s" "node_ok ?h p s [t]" "tok ?h (bhl (?h p)) p l" "tok ?h (bhr (?h p)) p r"
    and d: "cdistinct c" "distinct [t]" "distinct (flat l)" "distinct (flat r)"
      "cset c \<inter> (set [t] \<union> set (flat l) \<union> set (flat r)) = {}"
      "set [t] \<inter> (set (flat l) \<union> set (flat r)) = {}" "set (flat l) \<inter> set (flat r) = {}"
    and p: "p = hd [t]" "p \<in> set [t]" "p \<noteq> 0" "s = 0 \<longleftrightarrow> c = Top" "c \<noteq> Top \<Longrightarrow> s \<in> cset c"
    and r0: "c = Top \<Longrightarrow> proot st = p" "c \<noteq> Top \<Longrightarrow> proot st \<in> cset c"
    by (rule at_node [OF T(1,2)], rule that)
  have pt [simp]: "p = t" using p(1) by simp
  have f: "bhp (?h t) = s" "bhf (?h t) = t" "t \<noteq> 0" using k(2) by (auto simp: node_ok_def)
  have nr: "\<not> (s = nil \<and> proot st \<noteq> t)" using r0(1) p(4) by auto
  let ?S = "set (flat l @ flat r)"
  have sub: "\<exists>a h' T q. (if bhl (?h t) = nil then Inr (bhr (?h t), st) else if bhr (?h t) = nil then Inr (bhl (?h t), st) else join_children t st) =
      Inr (a, st\<lparr>hdr := h'\<rparr>) \<and> tok h' a q T \<and> inorder T = inorder l @ inorder r \<and>
    (\<forall>x. x \<notin> ?S \<longrightarrow> h' x = ?h x) \<and>
    (\<forall>x. magic (h' x) = magic (?h x) \<and> bsize (h' x) = bsize (?h x) \<and> csize (h' x) = csize (?h x) \<and> clink (h' x) = clink (?h x))"
  proof (cases "bhl (?h t) = nil")
    case True
    then have l: "l = Leaf" using tok_root [OF k(3)] by auto
    show ?thesis
      by (rule exI [of _ "bhr (?h t)"], rule exI [of _ ?h], rule exI [of _ r], rule exI [of _ t]) (use True l k(4) in simp)
  next
    case False
    show ?thesis
    proof (cases "bhr (?h t) = nil")
      case True
      then have r: "r = Leaf" using tok_root [OF k(4)] by auto
      show ?thesis
        by (rule exI [of _ "bhl (?h t)"], rule exI [of _ ?h], rule exI [of _ l], rule exI [of _ t]) (use True False r k(3) in simp)
    next
      case r: False
      have "l \<noteq> Leaf" "r \<noteq> Leaf" using False r k(3,4) by auto
      moreover have "distinct (flat l @ flat r)" "t \<notin> ?S" using d by auto
      ultimately show ?thesis using join_children_tok [of t st l r] k(3,4) f(3) False r by simp
    qed
  qed
  then obtain a h1 T1 q1 where j: "(if bhl (?h t) = nil then Inr (bhr (?h t), st) else if bhr (?h t) = nil then Inr (bhl (?h t), st) else join_children t st) =
      Inr (a, st\<lparr>hdr := h1\<rparr>)" "tok h1 a q1 T1" "inorder T1 = inorder l @ inorder r"
    "\<And>x. x \<notin> ?S \<Longrightarrow> h1 x = ?h x"
    "\<And>x. magic (h1 x) = magic (?h x) \<and> bsize (h1 x) = bsize (?h x) \<and> csize (h1 x) = csize (?h x) \<and> clink (h1 x) = clink (?h x)"
    by blast
  define h2 where "h2 = parented a s (relinked s t a h1)"
  define st' where "st' = st\<lparr>hdr := h2, proot := if s = 0 then a else proot st\<rparr>"
  have t1: "h1 t = ?h t" using j(4) [of t] d(6) by auto
  have run: "pooldel t st = Inr st'"
  proof -
    have "pooldel t st = node_del t st"
      unfolding pooldel_def get_eq [OF f(3)] bindR_simps f(1,2) using nr by (simp only: if_False if_True not_False_eq_True) simp
    also have "\<dots> = Inr st'"
      unfolding node_del_def get_eq [OF f(3)] bindR_simps j(1)
      using t1 f by (simp add: set_parent_eq relink_eq h2_def st'_def)
    finally show ?thesis .
  qed
  have fl: "flat T1 = flat l @ flat r" using j(3) by (simp add: flat_def)
  have a: "a = 0 \<or> a \<in> ?S" using tok_root [OF j(2)] fl by auto
  have "tok h2 (if s = 0 then a else proot st) 0 (plug c T1)"
  proof (cases "c = Top")
    case True
    then have "h2 = parented a 0 h1" using p(4) by (simp add: h2_def relinked_def)
    moreover have "tok (parented a 0 h1) a 0 T1"
      by (rule tok_reparented [OF j(2)]) (use d fl tok_nonzero [OF j(2)] in \<open>auto simp: parented_at\<close>)
    ultimately show ?thesis using True p(4) by simp
  next
    case False
    have "h1 x = ?h x" if "x \<in> cset c" for x using j(4) [of x] that d(5) by auto
    then have "cok h1 (proot st) 0 c t s" using k(1) cok_cong by (metis pt)
    moreover have "t \<notin> cset c" "distinct (flat T1)" "cset c \<inter> set (flat T1) = {}" using d fl by auto
    ultimately show ?thesis using splice [OF _ d(1) False f(3) _ j(2)] p(4) False by (simp add: h2_def)
  qed
  moreover have "distinct (flat (plug c T1))"
    using T(2) fl by (auto simp: flat_plug)
  moreover have "sorted_wrt (<) (keys h2 (plug c T1))"
  proof -
    have "bsize (h2 x) = bsize (?h x)" for x using j(5) by (simp add: h2_def parented_at relinked_at)
    then have "keys h2 (plug c T1) = map (\<lambda>xs. bsize (?h (hd xs))) (before c @ inorder l) @ map (\<lambda>xs. bsize (?h (hd xs))) (inorder r @ after c)"
      by (simp add: keys_def inorder_plug j(3))
    moreover have "keys ?h (plug c (Node l [t] r)) = map (\<lambda>xs. bsize (?h (hd xs))) (before c @ inorder l) @
        bsize (?h t) # map (\<lambda>xs. bsize (?h (hd xs))) (inorder r @ after c)"
      by (simp add: keys_def inorder_plug)
    ultimately show ?thesis using T(3) by (simp only: sorted_wrt_append sorted_wrt.simps list.set) blast
  qed
  moreover have "tree_moves (set (flat (plug c (Node l [t] r)))) st st'"
  proof (rule tree_movesI [OF st'_def])
    fix x assume "x \<notin> set (flat (plug c (Node l [t] r)))"
    then have n: "x \<notin> ?S" "x \<notin> cset c" by (auto simp: flat_plug cset_def)
    then have "x \<noteq> a \<or> a = 0" "x \<noteq> s \<or> s = 0" using a p(4,5) by auto
    then show "h2 x = ?h x" using j(4) [OF n(1)] by (auto simp: h2_def parented_at relinked_at)
  qed (use j(5) in \<open>simp add: h2_def parented_at relinked_at\<close>)
  moreover have "inorder (plug c T1) = before c @ inorder l @ inorder r @ after c" by (simp add: inorder_plug j(3))
  ultimately show ?thesis using run unfolding tree_ok_def st'_def by (intro exI [of _ st'] exI [of _ "plug c T1"]) (simp add: st'_def)
qed

theorem pooldel_ok:
  assumes "tree_ok st T" and "t \<in> set (flat T)"
  shows "\<exists>st' T'. pooldel t st = Inr st' \<and> tree_ok st' T' \<and> set (flat T') = set (flat T) - {t} \<and> tree_moves (set (flat T)) st st'"
proof -
  obtain c l xs r where T: "T = plug c (Node l xs r)" and t: "t \<in> set xs" using in_flat [OF assms(2)] by blast
  have d: "distinct (flat T)" using assms(1) by (simp add: tree_ok_def)
  have mono: "tree_moves S st st' \<Longrightarrow> S \<subseteq> S' \<Longrightarrow> tree_moves S' st st'" for S S' st' by (auto simp: tree_moves_def)
  obtain x ys where xs: "xs = x # ys" using t by (cases xs) auto
  consider "t = x" "ys = []" | f zs where "t = x" "ys = f # zs" | as bs where "ys = as @ t # bs"
  proof (cases "t = x")
    case True
    then show thesis using that(1,2) by (cases ys) auto
  next
    case False
    then have "t \<in> set ys" using t xs by simp
    then show thesis using that(3) split_list by metis
  qed
  then show ?thesis
  proof cases
    case 1
    then have T': "T = plug c (Node l [t] r)" using T xs by simp
    obtain st' T1 where s: "pooldel t st = Inr st'" "tree_ok st' T1" "inorder T1 = before c @ inorder l @ inorder r @ after c"
      "tree_moves (set (flat T)) st st'" using pooldel_single [OF assms(1) [unfolded T']] unfolding T' by blast
    have "set (flat T1) = set (flat T) - {t}"
      using d unfolding T' flat_plug by (auto simp: flat_def s(3))
    then show ?thesis using s by blast
  next
    case (2 f zs)
    then have T': "T = plug c (Node l (t # f # zs) r)" using T xs by simp
    obtain st' where s: "pooldel t st = Inr st'" "tree_ok st' (plug c (Node l (f # zs) r))" "tree_moves (set (flat T)) st st'"
      using pooldel_head [OF assms(1) [unfolded T']] unfolding T' by blast
    have "set (flat (plug c (Node l (f # zs) r))) = set (flat T) - {t}" using d unfolding T' flat_plug by auto
    then show ?thesis using s by blast
  next
    case (3 as bs)
    then have T': "T = plug c (Node l (x # as @ t # bs) r)" using T xs by simp
    obtain st' where s: "pooldel t st = Inr st'" "tree_ok st' (plug c (Node l (x # as @ bs) r))" "tree_moves (set (x # as @ t # bs)) st st'"
      using pooldel_member [OF assms(1) [unfolded T']] by blast
    have "set (flat (plug c (Node l (x # as @ bs) r))) = set (flat T) - {t}" using d unfolding T' flat_plug by auto
    moreover have "set (x # as @ t # bs) \<subseteq> set (flat T)" unfolding T' flat_plug by auto
    ultimately show ?thesis using s mono by blast
  qed
qed

section \<open>The searches\<close>

text \<open>\<open>best_fit\<close> finds the node of the exact size or else the next larger one, \<open>find_slot\<close> the place of a size.\<close>

definition heads :: "ptr list tree \<Rightarrow> ptr set" where "heads T = hd ` set (inorder T)"

lemma heads_simps [simp]: "heads Leaf = {}" "heads (Node l xs r) = heads l \<union> {hd xs} \<union> heads r"
  by (auto simp: heads_def)

lemma keys_simps [simp]: "keys h Leaf = []" "keys h (Node l xs r) = keys h l @ bsize (h (hd xs)) # keys h r"
  by (simp_all add: keys_def)

lemma set_keys: "set (keys h T) = (\<lambda>x. bsize (h x)) ` heads T"
  by (auto simp: keys_def heads_def)

lemma best_fit_tok:
  "tok h p q T \<Longrightarrow> sorted_wrt (<) (keys h T) \<Longrightarrow>
   (\<exists>t. best_fit h sz b p = Some (Exact t) \<and> t \<in> heads T \<and> bsize (h t) = sz) \<or>
   best_fit h sz b p = Some (Fit b) \<and> (\<forall>k \<in> set (keys h T). k < sz) \<or>
   (\<exists>t. best_fit h sz b p = Some (Fit t) \<and> t \<in> heads T \<and> sz < bsize (h t) \<and> sz \<notin> set (keys h T) \<and>
      (\<forall>k \<in> set (keys h T). sz < k \<longrightarrow> bsize (h t) \<le> k))"
proof (induction T arbitrary: p q b)
  case Leaf
  then show ?case by (simp add: best_fit.simps)
next
  case (Node l xs r)
  have n: "node_ok h p q xs" "tok h (bhl (h p)) p l" "tok h (bhr (h p)) p r" using Node.prems(1) by auto
  have p: "p = hd xs" "p \<noteq> 0" using node_ok_in [OF n(1)] n(1) [unfolded node_ok_def] by simp_all
  have s: "sorted_wrt (<) (keys h l)" "sorted_wrt (<) (keys h r)"
    "\<forall>k \<in> set (keys h l). k < bsize (h p)" "\<forall>k \<in> set (keys h r). bsize (h p) < k"
  proof -
    have "sorted_wrt (<) (keys h l @ bsize (h p) # keys h r)" using Node.prems(2) by (simp only: keys_simps p(1))
    then show "sorted_wrt (<) (keys h l)" "sorted_wrt (<) (keys h r)"
      "\<forall>k \<in> set (keys h l). k < bsize (h p)" "\<forall>k \<in> set (keys h r). bsize (h p) < k"
      by (simp_all only: sorted_wrt_append sorted_wrt.simps list.set) blast+
  qed
  have K: "set (keys h (Node l xs r)) = set (keys h l) \<union> {bsize (h p)} \<union> set (keys h r)" "heads (Node l xs r) = heads l \<union> {p} \<union> heads r"
    by (simp_all only: keys_simps heads_simps set_append list.set p(1)) blast+
  consider "bsize (h p) = sz" | "sz < bsize (h p)" | "bsize (h p) < sz" by linarith
  then show ?case
  proof cases
    case 1
    then have "best_fit h sz b p = Some (Exact p)" using p(2) by (simp add: best_fit.simps)
    then show ?thesis using 1 K(2) by auto
  next
    case 2
    then have e: "best_fit h sz b p = best_fit h sz p (bhl (h p))" using p(2) by (subst best_fit.simps) simp
    from Node.IH(1) [OF n(2) s(1), of p] consider
        t where "best_fit h sz p (bhl (h p)) = Some (Exact t)" "t \<in> heads l" "bsize (h t) = sz"
      | "best_fit h sz p (bhl (h p)) = Some (Fit p)" "\<forall>k \<in> set (keys h l). k < sz"
      | t where "best_fit h sz p (bhl (h p)) = Some (Fit t)" "t \<in> heads l" "sz < bsize (h t)" "sz \<notin> set (keys h l)"
          "\<forall>k \<in> set (keys h l). sz < k \<longrightarrow> bsize (h t) \<le> k" by blast
    then show ?thesis
    proof cases
      case (1 t)
      then show ?thesis using e K by auto
    next
      case h: 2
      have "sz \<notin> set (keys h (Node l xs r))" "\<forall>k \<in> set (keys h (Node l xs r)). sz < k \<longrightarrow> bsize (h p) \<le> k"
        using h(2) 2 s(4) unfolding K(1) by force+
      then show ?thesis using h(1) e K(2) 2 by auto
    next
      case h: (3 t)
      have t: "bsize (h t) < bsize (h p)" using h(2) s(3) by (auto simp: set_keys)
      have "sz \<notin> set (keys h (Node l xs r))" "\<forall>k \<in> set (keys h (Node l xs r)). sz < k \<longrightarrow> bsize (h t) \<le> k"
        using h(4,5) 2 s(4) t unfolding K(1) by force+
      then show ?thesis using h(1,2,3) e K(2) by auto
    qed
  next
    case 3
    then have e: "best_fit h sz b p = best_fit h sz b (bhr (h p))" using p(2) by (subst best_fit.simps) simp
    from Node.IH(2) [OF n(3) s(2), of b] consider
        t where "best_fit h sz b (bhr (h p)) = Some (Exact t)" "t \<in> heads r" "bsize (h t) = sz"
      | "best_fit h sz b (bhr (h p)) = Some (Fit b)" "\<forall>k \<in> set (keys h r). k < sz"
      | t where "best_fit h sz b (bhr (h p)) = Some (Fit t)" "t \<in> heads r" "sz < bsize (h t)" "sz \<notin> set (keys h r)"
          "\<forall>k \<in> set (keys h r). sz < k \<longrightarrow> bsize (h t) \<le> k" by blast
    then show ?thesis
    proof cases
      case (1 t)
      then show ?thesis using e K by auto
    next
      case h: 2
      have "\<forall>k \<in> set (keys h (Node l xs r)). k < sz" using h(2) 3 s(3) unfolding K(1) by force
      then show ?thesis using h(1) e by auto
    next
      case h: (3 t)
      have "sz \<notin> set (keys h (Node l xs r))" "\<forall>k \<in> set (keys h (Node l xs r)). sz < k \<longrightarrow> bsize (h t) \<le> k"
        using h(4,5) 3 s(3) unfolding K(1) by force+
      then show ?thesis using h(1,2,3) e K(2) by auto
    qed
  qed
qed

lemma find_slot_tok:
  "tok h p q T \<Longrightarrow> sorted_wrt (<) (keys h T) \<Longrightarrow>
   (\<exists>c l xs r t. find_slot h sz q p = Some (Same t) \<and> T = plug c (Node l xs r) \<and> t = hd xs \<and> bsize (h t) = sz) \<or>
   (\<exists>c s. find_slot h sz q p = Some (Below s) \<and> T = plug c Leaf \<and> cok h p q c 0 s \<and>
      (\<forall>xs \<in> set (before c). bsize (h (hd xs)) < sz) \<and> (\<forall>xs \<in> set (after c). sz < bsize (h (hd xs))) \<and>
      (c \<noteq> Top \<longrightarrow> (sz < bsize (h s) \<longleftrightarrow> on_left c)))"
proof (induction T arbitrary: p q)
  case Leaf
  then show ?case by (intro disjI2 exI [of _ Top] exI [of _ q]) (simp add: find_slot.simps)
next
  case (Node l xs r)
  have n: "node_ok h p q xs" "tok h (bhl (h p)) p l" "tok h (bhr (h p)) p r" using Node.prems(1) by auto
  have p: "p = hd xs" "p \<noteq> 0" using node_ok_in [OF n(1)] n(1) [unfolded node_ok_def] by simp_all
  have s: "sorted_wrt (<) (keys h l)" "sorted_wrt (<) (keys h r)"
    "\<forall>k \<in> set (keys h l). k < bsize (h p)" "\<forall>k \<in> set (keys h r). bsize (h p) < k"
  proof -
    have "sorted_wrt (<) (keys h l @ bsize (h p) # keys h r)" using Node.prems(2) by (simp only: keys_simps p(1))
    then show "sorted_wrt (<) (keys h l)" "sorted_wrt (<) (keys h r)"
      "\<forall>k \<in> set (keys h l). k < bsize (h p)" "\<forall>k \<in> set (keys h r). bsize (h p) < k"
      by (simp_all only: sorted_wrt_append sorted_wrt.simps list.set) blast+
  qed
  have L: "bsize (h (hd ys)) < bsize (h p)" if "ys \<in> set (inorder l)" for ys using s(3) that by (auto simp: keys_def)
  have R: "bsize (h p) < bsize (h (hd ys))" if "ys \<in> set (inorder r)" for ys using s(4) that by (auto simp: keys_def)
  consider "sz = bsize (h p)" | "sz < bsize (h p)" | "bsize (h p) < sz" by linarith
  then show ?case
  proof cases
    case 1
    then have "find_slot h sz q p = Some (Same p)" using p(2) by (simp add: find_slot.simps)
    then show ?thesis using 1 p(1) plug.simps(1) by metis
  next
    case 2
    then have e: "find_slot h sz q p = find_slot h sz p (bhl (h p))" using p(2) by (subst find_slot.simps) simp
    from Node.IH(1) [OF n(2) s(1)] show ?thesis
    proof (elim disjE exE conjE)
      fix c l' ys r' t assume a: "find_slot h sz p (bhl (h p)) = Some (Same t)" "l = plug c (Node l' ys r')" "t = hd ys" "bsize (h t) = sz"
      then have "Node l xs r = plug (InL c xs r) (Node l' ys r')" by simp
      then show ?thesis using e a by metis
    next
      fix c t assume a: "find_slot h sz p (bhl (h p)) = Some (Below t)" "l = plug c Leaf" "cok h (bhl (h p)) p c 0 t"
        "\<forall>xs \<in> set (before c). bsize (h (hd xs)) < sz" "\<forall>xs \<in> set (after c). sz < bsize (h (hd xs))"
        "c \<noteq> Top \<longrightarrow> (sz < bsize (h t) \<longleftrightarrow> on_left c)"
      have "t = p" if "c = Top" using a(3) that by simp
      moreover have "sz < bsize (h (hd ys))" if "ys \<in> set (inorder r)" for ys using R [OF that] 2 by simp
      ultimately show ?thesis
        using e a n 2 p(1) by (intro disjI2 exI [of _ "InL c xs r"] exI [of _ t]) auto
    qed
  next
    case 3
    then have e: "find_slot h sz q p = find_slot h sz p (bhr (h p))" using p(2) by (subst find_slot.simps) simp
    from Node.IH(2) [OF n(3) s(2)] show ?thesis
    proof (elim disjE exE conjE)
      fix c l' ys r' t assume a: "find_slot h sz p (bhr (h p)) = Some (Same t)" "r = plug c (Node l' ys r')" "t = hd ys" "bsize (h t) = sz"
      then have "Node l xs r = plug (InR l xs c) (Node l' ys r')" by simp
      then show ?thesis using e a by metis
    next
      fix c t assume a: "find_slot h sz p (bhr (h p)) = Some (Below t)" "r = plug c Leaf" "cok h (bhr (h p)) p c 0 t"
        "\<forall>xs \<in> set (before c). bsize (h (hd xs)) < sz" "\<forall>xs \<in> set (after c). sz < bsize (h (hd xs))"
        "c \<noteq> Top \<longrightarrow> (sz < bsize (h t) \<longleftrightarrow> on_left c)"
      have "t = p" if "c = Top" using a(3) that by simp
      moreover have "bsize (h (hd ys)) < sz" if "ys \<in> set (inorder l)" for ys using L [OF that] 3 by simp
      ultimately show ?thesis
        using e a n 3 p(1) by (intro disjI2 exI [of _ "InR l xs c"] exI [of _ t]) auto
    qed
  qed
qed

section \<open>The insertion\<close>

definition tree_adds :: "ptr \<Rightarrow> ptr set \<Rightarrow> pool \<Rightarrow> pool \<Rightarrow> bool" where
  "tree_adds q S st st' \<longleftrightarrow> st' = st\<lparr>hdr := hdr st', proot := proot st'\<rparr> \<and> (\<forall>x. x \<notin> insert q S \<longrightarrow> hdr st' x = hdr st x) \<and>
     (\<forall>x. magic (hdr st' x) = (if x = q then MAGIC_F else magic (hdr st x)) \<and> bsize (hdr st' x) = bsize (hdr st x) \<and>
          csize (hdr st' x) = csize (hdr st x) \<and> clink (hdr st' x) = clink (hdr st x))"

lemma tree_addsI:
  assumes "st' = st\<lparr>hdr := h', proot := r'\<rparr>" and "\<And>x. x \<notin> insert q S \<Longrightarrow> h' x = hdr st x"
    and "\<And>x. magic (h' x) = (if x = q then MAGIC_F else magic (hdr st x)) \<and> bsize (h' x) = bsize (hdr st x) \<and>
      csize (h' x) = csize (hdr st x) \<and> clink (h' x) = clink (hdr st x)"
  shows "tree_adds q S st st'"
  using assms by (simp add: tree_adds_def)

definition fresh_node :: "ptr \<Rightarrow> bhdr \<Rightarrow> bhdr" where
  "fresh_node q x = x\<lparr>magic := MAGIC_F, bhl := nil, bhr := nil, bhp := nil, bhf := q, bhv := q\<rparr>"

lemma fresh_node_fields [simp]:
  "magic (fresh_node q x) = MAGIC_F" "bsize (fresh_node q x) = bsize x" "bhl (fresh_node q x) = 0" "bhr (fresh_node q x) = 0"
  "bhp (fresh_node q x) = 0" "bhf (fresh_node q x) = q" "bhv (fresh_node q x) = q"
  "csize (fresh_node q x) = csize x" "clink (fresh_node q x) = clink x"
  by (simp_all add: fresh_node_def)

lemma pooladd_ring:
  assumes T: "tok h p0 0 (plug c (Node l (t # ys) r))" "distinct (flat (plug c (Node l (t # ys) r)))"
    and q: "q \<noteq> 0" "q \<notin> set (flat (plug c (Node l (t # ys) r)))" "bsize (h q) = bsize (h t)" "bhp (h q) = 0"
    and n: "n = bhf (h t)"
    and h1: "h1 = h(q := (h q)\<lparr>bhf := n\<rparr>)" and h2: "h2 = h1(n := (h1 n)\<lparr>bhv := q\<rparr>)"
    and h3: "h3 = h2(q := (h2 q)\<lparr>bhv := t\<rparr>)" and h4: "h4 = h3(t := (h3 t)\<lparr>bhf := q\<rparr>)"
  shows "tok h4 p0 0 (plug c (Node l (t # q # ys) r))" and "n \<noteq> 0" and "\<And>x. x \<notin> {q, n, t} \<Longrightarrow> h4 x = h x" and "n \<in> set (t # ys)"
proof -
  obtain p s where k: "cok h p0 0 c p s" "node_ok h p s (t # ys)" "tok h (bhl (h p)) p l" "tok h (bhr (h p)) p r"
    and d: "cdistinct c" "distinct (t # ys)" "distinct (flat l)" "distinct (flat r)"
      "cset c \<inter> (set (t # ys) \<union> set (flat l) \<union> set (flat r)) = {}"
      "set (t # ys) \<inter> (set (flat l) \<union> set (flat r)) = {}" "set (flat l) \<inter> set (flat r) = {}"
    and p: "p = hd (t # ys)" "p \<in> set (t # ys)" "p \<noteq> 0"
    by (rule at_node [OF T], rule that)
  have pt [simp]: "p = t" using p(1) by simp
  have ring: "rlinks h t ys t" and z: "0 \<notin> set (t # ys)" using k(2) by (auto simp: node_ok_def)
  show ni: "n \<in> set (t # ys)" using ring n by (cases ys) auto
  then show n0: "n \<noteq> 0" using z by metis
  have qn: "q \<noteq> t" "q \<noteq> n" "q \<notin> cset c" "q \<notin> set (flat l)" "q \<notin> set (flat r)" "q \<notin> set ys"
    using q(2) ni by (auto simp: flat_plug cset_def)
  show other: "h4 x = h x" if "x \<notin> {q, n, t}" for x using that by (simp add: h4 h3 h2 h1)
  have links: "bhf (h4 x) = (if x = t then q else if x = q then n else bhf (h x))"
    "bhv (h4 x) = (if x = q then t else if x = n then q else bhv (h x))" for x
    using qn by (auto simp: h4 h3 h2 h1)
  have fields: "bhp (h4 x) = bhp (h x)" "bhl (h4 x) = bhl (h x)" "bhr (h4 x) = bhr (h x)" "bsize (h4 x) = bsize (h x)" for x
    by (simp_all add: h4 h3 h2 h1)
  have away: "x \<in> cset c \<union> set (flat l) \<union> set (flat r) \<Longrightarrow> x \<notin> {q, n, t}" for x
    using qn(3,4,5) ni d(5,6) by (metis (no_types, lifting) Un_iff disjoint_iff insert_iff empty_iff list.set_intros(1))
  have "cok h4 p0 0 c t s" using k(1) other away by (subst cok_cong [where h = h]) auto
  moreover have "tok h4 (bhl (h4 t)) t l" "tok h4 (bhr (h4 t)) t r"
    unfolding fields using k(3,4) other away by (subst tok_cong [where h = h]; auto)+
  moreover have "node_ok h4 t s (t # q # ys)"
  proof -
    have "rlinks h4 q ys t"
    proof (cases ys)
      case Nil
      then show ?thesis using ring n qn by (auto simp: links)
    next
      case (Cons y zs)
      then have y: "n = y" "rlinks h y zs t" using ring n by simp_all
      have "rlinks h4 y zs t = rlinks h y zs t"
        using d(2) qn(1,6) Cons y(1) by (intro rlinks_cong) (auto simp: links)
      then show ?thesis using y Cons qn d(2) by (auto simp: links)
    qed
    then show ?thesis using k(2) q qn by (auto simp: node_ok_def fields links)
  qed
  ultimately show "tok h4 p0 0 (plug c (Node l (t # q # ys) r))" unfolding tok_plug tok.simps by blast
qed

theorem pooladd_ok:
  assumes ok: "tree_ok st T" and q: "q \<noteq> 0" "q \<notin> set (flat T)"
  shows "\<exists>st' T'. pooladd q st = Inr st' \<and> tree_ok st' T' \<and> set (flat T') = insert q (set (flat T)) \<and> tree_adds q (set (flat T)) st st'"
proof -
  let ?h = "hdr st" and ?k = "(hdr st)(q := fresh_node q (hdr st q))"
  define st0 where "st0 = st\<lparr>hdr := ?k\<rparr>"
  have put0: "put q (\<lambda>x. x\<lparr>magic := MAGIC_F, bhl := nil, bhr := nil, bhp := nil, bhf := q, bhv := q\<rparr>) st = Inr st0"
    using q(1) by (simp add: put_eq st0_def fresh_node_def)
  have same0: "?k x = ?h x" if "x \<in> set (flat T)" for x using that q(2) by auto
  have T: "tok ?k (proot st) 0 T" "distinct (flat T)" "sorted_wrt (<) (keys ?k T)"
  proof -
    have "tok ?k (proot st) 0 T = tok ?h (proot st) 0 T" by (rule tok_cong) (rule same0)
    then show "tok ?k (proot st) 0 T" using ok unfolding tree_ok_def by blast
    show "distinct (flat T)" using ok by (simp add: tree_ok_def)
    show "sorted_wrt (<) (keys ?k T)" using ok keys_cong [of ?k ?h T] by (simp add: tree_ok_def)
  qed
  show ?thesis
  proof (cases "proot st = 0")
    case True
    then have "T = Leaf" using tok_root [OF T(1)] by auto
    then have "tree_ok (st\<lparr>hdr := ?k, proot := q\<rparr>) (Node Leaf [q] Leaf)"
      using q by (simp add: tree_ok_def node_ok_def)
    moreover have "pooladd q st = Inr (st\<lparr>hdr := ?k, proot := q\<rparr>)" unfolding pooladd_def put0 using True by (simp add: st0_def)
    moreover have "tree_adds q (set (flat T)) st (st\<lparr>hdr := ?k, proot := q\<rparr>)" by (rule tree_addsI [OF refl]) auto
    ultimately show ?thesis using \<open>T = Leaf\<close> by (intro exI conjI) (assumption+, simp_all)
  next
    case False
    let ?sz = "bsize (?k q)"
    from find_slot_tok [OF T(1,3), of ?sz] show ?thesis
    proof (elim disjE exE conjE)
      fix c l xs r t
      assume f: "find_slot ?k ?sz 0 (proot st) = Some (Same t)" "T = plug c (Node l xs r)" "t = hd xs" "bsize (?k t) = ?sz"
      have "xs \<noteq> []" using T(1) unfolding f(2) by (auto simp: tok_plug node_ok_def)
      then obtain ys where xs: "xs = t # ys" using f(3) by (cases xs) auto
      have tq: "t \<noteq> q" "t \<noteq> 0" using q(2) tok_nonzero [OF T(1)] unfolding f(2) flat_plug xs by auto
      define n where "n = bhf (?k t)"
      define h1 where "h1 = ?k(q := (?k q)\<lparr>bhf := n\<rparr>)"
      define h2 where "h2 = h1(n := (h1 n)\<lparr>bhv := q\<rparr>)"
      define h3 where "h3 = h2(q := (h2 q)\<lparr>bhv := t\<rparr>)"
      define h4 where "h4 = h3(t := (h3 t)\<lparr>bhf := q\<rparr>)"
      have q': "q \<notin> set (flat (plug c (Node l (t # ys) r)))" "bsize (?k q) = bsize (?k t)" "bhp (?k q) = 0"
        using q(2) f(2,4) xs by auto
      note R = pooladd_ring [OF T(1,2) [unfolded f(2) xs] q(1) q' n_def h1_def h2_def h3_def h4_def]
      have qn: "q \<noteq> n" using R(4) q' by (auto simp: flat_plug)
      let ?st' = "st\<lparr>hdr := h4\<rparr>"
      have "pooladd q st = Inr ?st'"
      proof -
        have n': "bhf (?h t) = n" using tq by (simp add: n_def)
        show ?thesis
          unfolding pooladd_def put0 using False q(1) R(2) tq f(1)
          by (simp add: st0_def put_eq n' h1_def h2_def h3_def h4_def)
      qed
      moreover have F: "magic (h4 x) = magic (?k x)" "bsize (h4 x) = bsize (?k x)" "csize (h4 x) = csize (?k x)" "clink (h4 x) = clink (?k x)" for x
        by (simp_all add: h4_def h3_def h2_def h1_def)
      have "tree_ok ?st' (plug c (Node l (t # q # ys) r))"
      proof -
        have "distinct (flat (plug c (Node l (t # q # ys) r)))" using T(2) q'(1) unfolding f(2) xs flat_plug by auto
        moreover have "keys h4 (plug c (Node l (t # q # ys) r)) = keys ?k T"
          unfolding f(2) xs by (simp add: keys_def inorder_plug F)
        ultimately show ?thesis using R(1) T(3) by (simp add: tree_ok_def)
      qed
      moreover have "tree_adds q (set (flat T)) st ?st'"
      proof (rule tree_addsI [where h' = h4 and r' = "proot st"])
        fix x assume "x \<notin> insert q (set (flat T))"
        then have "x \<notin> {q, n, t}" "x \<noteq> q" using R(4) unfolding f(2) xs flat_plug by auto
        then show "h4 x = ?h x" using R(3) by auto
      qed (auto simp: F)
      moreover have "set (flat (plug c (Node l (t # q # ys) r))) = insert q (set (flat T))" unfolding f(2) xs flat_plug by auto
      ultimately show ?thesis by blast
    next
      fix c s
      assume f: "find_slot ?k ?sz 0 (proot st) = Some (Below s)" "T = plug c Leaf" "cok ?k (proot st) 0 c 0 s"
        "\<forall>xs \<in> set (before c). bsize (?k (hd xs)) < ?sz" "\<forall>xs \<in> set (after c). ?sz < bsize (?k (hd xs))"
        "c \<noteq> Top \<longrightarrow> (?sz < bsize (?k s) \<longleftrightarrow> on_left c)"
      have c: "c \<noteq> Top" using False f(3) by auto
      have s: "s \<in> cset c" "s \<noteq> 0" using cok_parent [OF f(3)] c by auto
      have fl: "set (flat T) = cset c" unfolding f(2) by (simp add: flat_plug cset_def)
      have sq: "s \<noteq> q" using s(1) q(2) fl by auto
      have cd: "cdistinct c" using T(2) unfolding f(2) by (simp add: flat_plug)
      define h1 where "h1 = ?k(q := (?k q)\<lparr>bhp := s\<rparr>)"
      define h2 where "h2 = h1(s := set_child (on_left c) q (h1 s))"
      let ?st' = "st\<lparr>hdr := h2\<rparr>" and ?T' = "plug c (Node Leaf [q] Leaf)"
      have h1s: "h1 s = ?k s" "bsize (h1 q) = ?sz" using sq by (simp_all add: h1_def)
      have side: "bsize (?h q) < bsize (?h s) \<longleftrightarrow> on_left c" using f(6) c sq by simp
      have "pooladd q st = Inr ?st'"
        unfolding pooladd_def put0 using False q(1) s(2) f(1) sq side
        by (simp add: st0_def put_eq get_eq h1_def h2_def set_child_def)
      moreover have F: "magic (h2 x) = magic (?k x)" "bsize (h2 x) = bsize (?k x)" "csize (h2 x) = csize (?k x)" "clink (h2 x) = clink (?k x)" for x
        by (simp_all add: h2_def h1_def)
      have "tok h2 (proot st) 0 ?T'"
      proof -
        have "cok h2 (if c = Top then q else proot st) 0 c q s"
          by (rule cok_replace [OF f(3) cd]) (use q(2) fl sq in \<open>auto simp: h2_def h1_def\<close>)
        moreover have "tok h2 q s (Node Leaf [q] Leaf)" using q(1) sq by (simp add: node_ok_def h2_def h1_def)
        ultimately show ?thesis using c unfolding tok_plug by auto
      qed
      moreover have "distinct (flat ?T')" using T(2) q(2) unfolding f(2) by (auto simp: flat_plug)
      moreover have "sorted_wrt (<) (keys h2 ?T')"
        using T(3) f(4,5) unfolding f(2) by (auto simp: keys_def inorder_plug F sorted_wrt_append simp del: fun_upd_apply)
      moreover have "tree_adds q (set (flat T)) st ?st'"
      proof (rule tree_addsI [where h' = h2 and r' = "proot st"])
        fix x assume "x \<notin> insert q (set (flat T))"
        then have "x \<noteq> q" "x \<noteq> s" using s(1) fl by auto
        then show "h2 x = ?h x" by (simp add: h2_def h1_def)
      qed (auto simp: F)
      moreover have "set (flat ?T') = insert q (set (flat T))" unfolding fl by (auto simp: flat_plug cset_def)
      ultimately show ?thesis unfolding tree_ok_def by (intro exI [of _ ?st'] exI [of _ ?T']) simp
    qed
  qed
qed

end
