(* ===== verification/PoolInv.thy ===== *)
theory PoolInv
  imports PoolTree
begin

text \<open>
  The invariant of a pool: the blocks tile the chunks, the free ones are the ones in the tree and no two
  of them are neighbours; what clients hold is disjoint.
\<close>

section \<open>Tilings\<close>

text \<open>
  \<open>mg\<close>, \<open>sz\<close>, \<open>bt\<close> are the magic numbers, the sizes and the tail pointers, \<open>B\<close> the blocks, \<open>E\<close> the leaders
  and end marks of the chunks, \<open>M\<close> the memory \<open>sbrk\<close> gave; sizes are multiples of \<open>g\<close>.
\<close>

definition bok :: "nat \<Rightarrow> (ptr \<Rightarrow> u32) \<Rightarrow> (ptr \<Rightarrow> nat) \<Rightarrow> (ptr \<Rightarrow> ptr) \<Rightarrow> ptr set \<Rightarrow> ptr set \<Rightarrow> ptr set \<Rightarrow> ptr \<Rightarrow> bool" where
  "bok g mg sz bt B E M b \<longleftrightarrow> 0 < sz b \<and> g dvd sz b \<and> {b..<b + sz b} \<subseteq> M \<and> mg b \<in> {MAGIC_A, MAGIC_I, MAGIC_F} \<and>
     bt (b + sz b) = b \<and> b + sz b \<in> B \<union> E \<and> bt b \<in> B \<union> E \<and> bt b + sz (bt b) = b \<and>
     (mg b = MAGIC_F \<longrightarrow> mg (b + sz b) \<noteq> MAGIC_F) \<and> (\<forall>c \<in> B \<union> E. c \<in> {b..<b + sz b} \<longrightarrow> c = b)"

definition tiling :: "nat \<Rightarrow> (ptr \<Rightarrow> u32) \<Rightarrow> (ptr \<Rightarrow> nat) \<Rightarrow> (ptr \<Rightarrow> ptr) \<Rightarrow> ptr set \<Rightarrow> ptr set \<Rightarrow> ptr set \<Rightarrow> bool" where
  "tiling g mg sz bt B E M \<longleftrightarrow> 0 \<notin> M \<and> E \<subseteq> M \<and> (\<forall>e \<in> E. mg e = MAGIC_E) \<and> (\<forall>b \<in> B. bok g mg sz bt B E M b)"

lemma tilingD:
  assumes "tiling g mg sz bt B E M" and "b \<in> B"
  shows "0 < sz b" "g dvd sz b" "{b..<b + sz b} \<subseteq> M" "mg b \<in> {MAGIC_A, MAGIC_I, MAGIC_F}" "bt (b + sz b) = b"
    "b + sz b \<in> B \<union> E" "bt b \<in> B \<union> E" "bt b + sz (bt b) = b" "mg b = MAGIC_F \<Longrightarrow> mg (b + sz b) \<noteq> MAGIC_F"
    "\<And>c. c \<in> B \<union> E \<Longrightarrow> b \<le> c \<Longrightarrow> c < b + sz b \<Longrightarrow> c = b" "b \<noteq> 0" "b \<in> M" "b \<notin> E"
proof -
  have b: "bok g mg sz bt B E M b" using assms by (simp add: tiling_def)
  then show 1: "0 < sz b" "g dvd sz b" "{b..<b + sz b} \<subseteq> M" "mg b \<in> {MAGIC_A, MAGIC_I, MAGIC_F}" "bt (b + sz b) = b"
    "b + sz b \<in> B \<union> E" "bt b \<in> B \<union> E" "bt b + sz (bt b) = b" "mg b = MAGIC_F \<Longrightarrow> mg (b + sz b) \<noteq> MAGIC_F"
    "\<And>c. c \<in> B \<union> E \<Longrightarrow> b \<le> c \<Longrightarrow> c < b + sz b \<Longrightarrow> c = b"
    unfolding bok_def by auto
  show "b \<in> M" using 1(1,3) by (auto simp: subset_iff)
  then show "b \<noteq> 0" using assms(1) unfolding tiling_def by metis
  have "MAGIC_E \<notin> {MAGIC_A, MAGIC_I, MAGIC_F}" by simp
  then show "b \<notin> E" using assms(1) 1(4) by (auto simp: tiling_def)
qed

text \<open>Blocks do not overlap; the tail before a block belongs to its only predecessor.\<close>

lemma tiling_disjoint:
  assumes "tiling g mg sz bt B E M" and "b \<in> B" and "c \<in> B" and "b \<noteq> c"
  shows "{b..<b + sz b} \<inter> {c..<c + sz c} = {}"
proof (rule ccontr)
  assume "\<not> ?thesis"
  then obtain x where "x \<in> {b..<b + sz b}" "x \<in> {c..<c + sz c}" by blast
  then have x: "b \<le> x" "x < b + sz b" "c \<le> x" "x < c + sz c" by simp_all
  show False
  proof (cases "b \<le> c")
    case True
    then show False using tilingD(10) [OF assms(1,2), of c] assms(3,4) x by simp
  next
    case False
    then show False using tilingD(10) [OF assms(1,3), of b] assms(2,4) x by simp
  qed
qed

lemma tiling_pred:
  assumes "tiling g mg sz bt B E M" and "p \<in> B" and "p + sz p = b"
  shows "bt b = p"
  using tilingD(5) [OF assms(1,2)] assms(3) by simp

lemma inside_not_start:
  assumes "tiling g mg sz bt B E M" and "b \<in> B" and "b < x" and "x < b + sz b"
  shows "x \<notin> B \<union> E"
  using tilingD(10) [OF assms(1,2), of x] assms(3,4) by auto

lemma tiling_cong:
  assumes "tiling g mg sz bt B E M" and "\<And>x. x \<in> B \<union> E \<Longrightarrow> mg' x = mg x \<and> sz' x = sz x \<and> bt' x = bt x"
  shows "tiling g mg' sz' bt' B E M"
proof -
  have "bok g mg' sz' bt' B E M b" if b: "b \<in> B" for b
  proof -
    have e: "sz' b = sz b" "mg' b = mg b" "bt' b = bt b" using assms(2) b by auto
    have n: "mg' (b + sz b) = mg (b + sz b)" "bt' (b + sz b) = bt (b + sz b)" using tilingD(6) [OF assms(1) b] assms(2) by auto
    have p: "sz' (bt b) = sz (bt b)" using tilingD(7) [OF assms(1) b] assms(2) by auto
    show ?thesis using tilingD [OF assms(1) b] e n p unfolding bok_def by auto
  qed
  then show ?thesis using assms unfolding tiling_def by auto
qed

text \<open>Changing the state of one block.\<close>

lemma tiling_mark:
  assumes "tiling g mg sz bt B E M" and "b \<in> B" and "m \<in> {MAGIC_A, MAGIC_I, MAGIC_F}"
    and "m = MAGIC_F \<Longrightarrow> mg (b + sz b) \<noteq> MAGIC_F \<and> mg (bt b) \<noteq> MAGIC_F"
  shows "tiling g (mg(b := m)) sz bt B E M"
proof -
  have E: "(mg(b := m)) e = MAGIC_E" if "e \<in> E" for e
    using assms(1) that tilingD(13) [OF assms(1,2)] by (auto simp: tiling_def)
  have "bok g (mg(b := m)) sz bt B E M c" if c: "c \<in> B" for c
  proof -
    note d = tilingD [OF assms(1) c]
    have "(mg(b := m)) c = MAGIC_F \<longrightarrow> (mg(b := m)) (c + sz c) \<noteq> MAGIC_F"
    proof
      assume f: "(mg(b := m)) c = MAGIC_F"
      show "(mg(b := m)) (c + sz c) \<noteq> MAGIC_F"
      proof (cases "c = b")
        case True
        then show ?thesis using f assms(4) d(1) by simp
      next
        case False
        then have "mg c = MAGIC_F" using f by simp
        then show ?thesis using d(9) assms(4) tiling_pred [OF assms(1) c] by auto
      qed
    qed
    then show ?thesis using d(1-8,10) assms(3) unfolding bok_def by auto
  qed
  then show ?thesis using assms(1) E unfolding tiling_def by blast
qed

text \<open>Splitting a free block: the first part is taken, the rest stays free.\<close>

lemma tiling_split:
  assumes T: "tiling g mg sz bt B E M" and q: "q \<in> B" "mg q = MAGIC_F" and s: "0 < s" "s < sz q" "g dvd s"
  shows "tiling g (mg(q := MAGIC_A, q + s := MAGIC_F)) (sz(q := s, q + s := sz q - s)) (bt(q + s := q, q + sz q := q + s))
    (insert (q + s) B) E M"
proof -
  let ?t = "q + s" and ?mg = "mg(q := MAGIC_A, q + s := MAGIC_F)" and ?sz = "sz(q := s, q + s := sz q - s)"
    and ?bt = "bt(q + s := q, q + sz q := q + s)" and ?B = "insert (q + s) B"
  note Q = tilingD [OF T q(1)]
  have t: "?t \<notin> B \<union> E" using inside_not_start [OF T q(1), of ?t] s by simp
  have E: "?mg e = MAGIC_E" if "e \<in> E" for e
    using T that t Q(13) by (auto simp: tiling_def)
  have nxt: "mg (q + sz q) \<noteq> MAGIC_F" using Q(9) q(2) by simp
  have bq: "bok g ?mg ?sz ?bt ?B E M q"
  proof -
    have e: "?sz q = s" "?mg q = MAGIC_A" "?bt ?t = q" using s by auto
    have p: "?bt q = bt q" using s Q(1) by auto
    have "bt q \<noteq> q" using Q(8) Q(1) by auto
    moreover have "bt q \<noteq> ?t" using Q(7) t by auto
    ultimately have "?sz (bt q) = sz (bt q)" by simp
    then show ?thesis using Q s unfolding bok_def e p by auto
  qed
  have bt: "bok g ?mg ?sz ?bt ?B E M ?t"
  proof -
    have e: "?sz ?t = sz q - s" "?mg ?t = MAGIC_F" "?bt (?t + (sz q - s)) = ?t" "?bt ?t = q" "?t + (sz q - s) = q + sz q" "?sz q = s" using s by auto
    have "?mg (q + sz q) \<noteq> MAGIC_F" using nxt s Q(1) by auto
    moreover have "g dvd sz q - s" using Q(2) s(3) by (rule dvd_diff_nat)
    moreover have "c = ?t" if "c \<in> ?B \<union> E" "?t \<le> c" "c < q + sz q" for c using that Q(10) [of c] s by auto
    moreover have "{?t..<q + sz q} \<subseteq> M" using Q(3) s by auto
    ultimately show ?thesis using Q(6) s q(1) unfolding bok_def e by auto
  qed
  have "bok g ?mg ?sz ?bt ?B E M c" if c: "c \<in> B" "c \<noteq> q" for c
  proof -
    note C = tilingD [OF T c(1)]
    have n: "c \<noteq> ?t" using c(1) t by auto
    have e: "?sz c = sz c" "?mg c = mg c" using n c(2) by auto
    have end1: "c + sz c \<noteq> ?t" using C(6) t by auto
    have end2: "c + sz c \<noteq> q + sz q" using C(5) Q(5) c(2) by auto
    have b1: "?bt (c + sz c) = bt (c + sz c)" using end1 end2 by simp
    have b2: "?bt c \<in> ?B \<union> E \<and> ?bt c + ?sz (?bt c) = c"
    proof (cases "c = q + sz q")
      case True
      then show ?thesis using s by simp
    next
      case False
      have "bt c \<noteq> q" using C(8) False by auto
      moreover have "bt c \<noteq> ?t" using C(7) t by auto
      ultimately show ?thesis using C(7,8) False n by simp
    qed
    have m: "mg c = MAGIC_F \<longrightarrow> ?mg (c + sz c) \<noteq> MAGIC_F" using C(9) end1 by auto
    have "d = c" if d: "d \<in> ?B \<union> E" "c \<le> d" "d < c + sz c" for d
    proof (cases "d = ?t")
      case True
      have "{c..<c + sz c} \<inter> {q..<q + sz q} = {}" by (rule tiling_disjoint [OF T c(1) q(1) c(2)])
      moreover have "d \<in> {c..<c + sz c}" "d \<in> {q..<q + sz q}" using d True s by auto
      ultimately show ?thesis by blast
    next
      case False
      then show ?thesis using C(10) d by auto
    qed
    then show ?thesis using C(1-6) b1 b2 m unfolding bok_def e by auto
  qed
  then have "\<forall>c \<in> ?B. bok g ?mg ?sz ?bt ?B E M c" using bq bt by blast
  then show ?thesis using T E unfolding tiling_def by blast
qed

text \<open>Joining a block with the next one.\<close>

lemma tiling_join:
  assumes T: "tiling g mg sz bt B E M" and b: "b \<in> B" and c: "c = b + sz b" "c \<in> B"
    and nf: "mg b = MAGIC_F \<Longrightarrow> mg (c + sz c) \<noteq> MAGIC_F"
  shows "tiling g (mg(c := 0)) (sz(b := sz b + sz c)) (bt(b + (sz b + sz c) := b)) (B - {c}) E M"
proof -
  let ?mg = "mg(c := 0)" and ?sz = "sz(b := sz b + sz c)" and ?bt = "bt(b + (sz b + sz c) := b)" and ?B = "B - {c}"
  note Q = tilingD [OF T b] and R = tilingD [OF T c(2)]
  have bc: "b \<noteq> c" "b < c" using c(1) Q(1) by auto
  have e: "b + (sz b + sz c) = c + sz c" using c(1) by simp
  have E: "?mg x = MAGIC_E" if "x \<in> E" for x using T that R(13) by (auto simp: tiling_def)
  have bb: "bok g ?mg ?sz ?bt ?B E M b"
  proof -
    have v: "?sz b = sz b + sz c" "?mg b = mg b" using bc by auto
    have b1: "?bt b = bt b" using bc R(1) e by auto
    have pb: "bt b \<noteq> c" "bt b \<noteq> b" using Q(1,8) bc by auto
    have p: "bt b \<in> ?B \<union> E \<and> bt b + ?sz (bt b) = b" using Q(7,8) pb by auto
    have n: "c + sz c \<in> ?B \<union> E" using R(1,6) by auto
    have m: "mg b = MAGIC_F \<longrightarrow> ?mg (c + sz c) \<noteq> MAGIC_F" using nf R(1) by auto
    have x: "{b..<c + sz c} \<subseteq> M"
    proof
      fix x assume "x \<in> {b..<c + sz c}"
      then consider "x \<in> {b..<b + sz b}" | "x \<in> {c..<c + sz c}" using c(1) by fastforce
      then show "x \<in> M" using Q(3) R(3) by cases blast+
    qed
    have d: "d = b" if "d \<in> ?B \<union> E" "b \<le> d" "d < c + sz c" for d
    proof (cases "d < c")
      case True
      then show ?thesis using Q(10) [of d] that c(1) by auto
    next
      case False
      then have "d = c" using R(10) [of d] that by auto
      then show ?thesis using that(1) R(13) by auto
    qed
    have dv: "g dvd sz b + sz c" using Q(2) R(2) by simp
    have dd: "\<forall>d \<in> ?B \<union> E. d \<in> {b..<c + sz c} \<longrightarrow> d = b" using d by simp
    have pos: "0 < sz b + sz c" using Q(1) by simp
    have t: "?bt (c + sz c) = b" using e by simp
    have b2: "(bt(c + sz c := b)) b = bt b" using bc R(1) by auto
    show ?thesis
      unfolding bok_def v e using pos dv x Q(4) t n p m dd by (simp only: b2 e simp_thms)
  qed
  have "bok g ?mg ?sz ?bt ?B E M x" if x: "x \<in> B" "x \<noteq> b" "x \<noteq> c" for x
  proof -
    note X = tilingD [OF T x(1)]
    have v: "?sz x = sz x" "?mg x = mg x" using x by auto
    have e1: "x + sz x \<noteq> c" using X(5) Q(5) c(1) x(2) by auto
    have e2: "x + sz x \<noteq> c + sz c" using X(5) R(5) x(3) by auto
    have b1: "?bt (x + sz x) = bt (x + sz x)" using e2 e by auto
    have n: "x + sz x \<in> ?B \<union> E" using X(6) e1 by auto
    have m: "mg x = MAGIC_F \<longrightarrow> ?mg (x + sz x) \<noteq> MAGIC_F" using X(9) e1 by auto
    have p: "?bt x \<in> ?B \<union> E \<and> ?bt x + ?sz (?bt x) = x"
    proof (cases "x = c + sz c")
      case True
      then show ?thesis using e bc b by auto
    next
      case False
      have "bt x \<noteq> c" using X(8) False by auto
      moreover have "bt x \<noteq> b" using X(8) c(1) x(3) by auto
      ultimately show ?thesis using X(7,8) False e by auto
    qed
    show ?thesis using X(1-5,10) b1 n m p unfolding bok_def v by auto
  qed
  then have "\<forall>x \<in> ?B. bok g ?mg ?sz ?bt ?B E M x" using bb by blast
  then show ?thesis using T E unfolding tiling_def by blast
qed

text \<open>A new chunk: a leader at \<open>l\<close>, one free block, an end mark.\<close>

lemma tiling_chunk:
  assumes T: "tiling g mg sz bt B E M" and l: "l \<noteq> 0" "0 < ldr" "0 < ns" "g dvd ns"
    and new: "{l..<l + ldr + ns + 4} \<inter> M = {}"
  shows "tiling g (mg(l := MAGIC_E, l + ldr := MAGIC_F, l + ldr + ns := MAGIC_E)) (sz(l := ldr, l + ldr := ns))
    (bt(l + ldr := l, l + ldr + ns := l + ldr)) (insert (l + ldr) B) (E \<union> {l, l + ldr + ns}) (M \<union> {l..<l + ldr + ns + 4})"
proof -
  let ?t = "l + ldr" and ?e = "l + ldr + ns"
  let ?mg = "mg(l := MAGIC_E, ?t := MAGIC_F, ?e := MAGIC_E)" and ?sz = "sz(l := ldr, ?t := ns)" and ?bt = "bt(?t := l, ?e := ?t)"
    and ?B = "insert ?t B" and ?E = "E \<union> {l, ?e}" and ?M = "M \<union> {l..<?e + 4}"
  have out: "x \<notin> M" if "x \<in> {l, ?t, ?e}" for x using new that l by (auto simp: disjoint_iff)
  have old: "x \<notin> {l, ?t, ?e}" if "x \<in> B \<union> E" for x
    using out that tilingD(12) [OF T] T unfolding tiling_def by blast
  have z: "0 \<notin> ?M" using T l(1) by (auto simp: tiling_def)
  have "E \<subseteq> M" using T by (simp add: tiling_def)
  then have EM: "?E \<subseteq> ?M" by auto
  have E: "?mg x = MAGIC_E" if "x \<in> ?E" for x
    using T that old [of x] l by (auto simp: tiling_def)
  have bt: "bok g ?mg ?sz ?bt ?B ?E ?M ?t"
  proof -
    have v: "?sz ?t = ns" "?mg ?t = MAGIC_F" "?bt (?t + ns) = ?t" "?bt ?t = l" "?sz l = ldr" "?mg (?t + ns) = MAGIC_E" using l by auto
    have "c = ?t" if "c \<in> ?B \<union> ?E" "?t \<le> c" "c < ?t + ns" for c
    proof (rule ccontr)
      assume "c \<noteq> ?t"
      then have "c \<in> B \<union> E" using that l by auto
      then have "c \<in> M" using tilingD(12) [OF T] T unfolding tiling_def by blast
      moreover have "c \<in> {l..<l + ldr + ns + 4}" using that by simp
      ultimately show False using new by blast
    qed
    then show ?thesis using l unfolding bok_def v by auto
  qed
  have "bok g ?mg ?sz ?bt ?B ?E ?M x" if x: "x \<in> B" for x
  proof -
    note X = tilingD [OF T x]
    have o: "x \<notin> {l, ?t, ?e}" "x + sz x \<notin> {l, ?t, ?e}" "bt x \<notin> {l, ?t, ?e}" using old x X(6,7) by blast+
    have v: "?sz x = sz x" "?mg x = mg x" "?bt x = bt x" "?bt (x + sz x) = bt (x + sz x)" "?sz (bt x) = sz (bt x)" "?mg (x + sz x) = mg (x + sz x)"
      using o by auto
    have "c = x" if c: "c \<in> ?B \<union> ?E" "x \<le> c" "c < x + sz x" for c
    proof -
      have "c \<in> M" using X(3) c by auto
      then have "c \<in> B \<union> E" using c(1) out by blast
      then show ?thesis using X(10) c by blast
    qed
    then show ?thesis using X(1-9) unfolding bok_def v by auto
  qed
  then have "\<forall>x \<in> ?B. bok g ?mg ?sz ?bt ?B ?E ?M x" using bt by blast
  then show ?thesis using z EM E unfolding tiling_def by blast
qed

section \<open>Pools\<close>

definition mgs :: "pool \<Rightarrow> ptr \<Rightarrow> u32" where "mgs st = (\<lambda>x. magic (hdr st x))"
definition szs :: "pool \<Rightarrow> ptr \<Rightarrow> nat" where "szs st = (\<lambda>x. bsize (hdr st x))"

definition pool_ok :: "pool \<Rightarrow> ptr set \<Rightarrow> ptr set \<Rightarrow> ptr set \<Rightarrow> ptr list tree \<Rightarrow> bool" where
  "pool_ok st B E M T \<longleftrightarrow> tiling (unat (pquanta st) + 1) (mgs st) (szs st) (btl st) B E M \<and> tree_ok st T \<and>
     set (flat T) = {b \<in> B. mgs st b = MAGIC_F}"

lemma tree_ok_cong:
  assumes "tree_ok st T" and "\<And>x. x \<in> set (flat T) \<Longrightarrow> hdr st' x = hdr st x" and "proot st' = proot st"
  shows "tree_ok st' T"
proof -
  have t: "tok (hdr st) (proot st) 0 T" using assms(1) by (simp add: tree_ok_def)
  have ne: "tok h p q T \<Longrightarrow> xs \<in> set (inorder T) \<Longrightarrow> xs \<noteq> []" for h p q xs
    by (induction T arbitrary: p q) (auto simp: node_ok_def)
  have "tok (hdr st') (proot st') 0 T = tok (hdr st) (proot st) 0 T" unfolding assms(3) by (rule tok_cong) (rule assms(2))
  moreover have "keys (hdr st') T = keys (hdr st) T"
    unfolding keys_def
  proof (rule map_cong [OF refl])
    fix xs assume xs: "xs \<in> set (inorder T)"
    then have "hd xs \<in> set (flat T)" using ne [OF t xs] by (auto simp: flat_def intro!: bexI [of _ xs])
    then show "bsize (hdr st' (hd xs)) = bsize (hdr st (hd xs))" using assms(2) by simp
  qed
  ultimately show ?thesis using assms(1) by (simp add: tree_ok_def)
qed

lemma tree_moves_views:
  assumes "tree_moves S st st'"
  shows "mgs st' = mgs st" "szs st' = szs st" "btl st' = btl st" "pquanta st' = pquanta st" "pchunk st' = pchunk st" "pmax st' = pmax st"
    "parena st' = parena st"
proof -
  have e: "st' = st\<lparr>hdr := hdr st', proot := proot st'\<rparr>" using assms by (simp add: tree_moves_def)
  show "mgs st' = mgs st" "szs st' = szs st" using assms by (auto simp: tree_moves_def mgs_def szs_def)
  show "btl st' = btl st" "pquanta st' = pquanta st" "pchunk st' = pchunk st" "pmax st' = pmax st" "parena st' = parena st" by (subst e, simp)+
qed

lemma tree_adds_views:
  assumes "tree_adds q S st st'"
  shows "mgs st' = (mgs st)(q := MAGIC_F)" "szs st' = szs st" "btl st' = btl st" "pquanta st' = pquanta st" "pchunk st' = pchunk st" "pmax st' = pmax st"
    "parena st' = parena st"
proof -
  have e: "st' = st\<lparr>hdr := hdr st', proot := proot st'\<rparr>" using assms by (simp add: tree_adds_def)
  show "mgs st' = (mgs st)(q := MAGIC_F)" "szs st' = szs st" using assms by (auto simp: tree_adds_def mgs_def szs_def)
  show "btl st' = btl st" "pquanta st' = pquanta st" "pchunk st' = pchunk st" "pmax st' = pmax st" "parena st' = parena st" by (subst e, simp)+
qed

section \<open>The operations keep the invariant\<close>

text \<open>\<open>alloc_changes st B st' B' b\<close>: the operation turns \<open>b\<close> into an allocated block and leaves the other ones alone.\<close>

definition allocated :: "pool \<Rightarrow> ptr set \<Rightarrow> ptr set" where
  "allocated st B = {b \<in> B. mgs st b \<noteq> MAGIC_F}"

definition kept :: "pool \<Rightarrow> pool \<Rightarrow> ptr set \<Rightarrow> bool" where
  "kept st st' S \<longleftrightarrow> (\<forall>b \<in> S. mgs st' b = mgs st b \<and> szs st' b = szs st b)"

definition same_conf :: "pool \<Rightarrow> pool \<Rightarrow> bool" where
  "same_conf st st' \<longleftrightarrow> pquanta st' = pquanta st \<and> pchunk st' = pchunk st \<and> pmax st' = pmax st"

lemma pool_okD:
  assumes "pool_ok st B E M T"
  shows "tiling (unat (pquanta st) + 1) (mgs st) (szs st) (btl st) B E M" "tree_ok st T" "set (flat T) = {b \<in> B. mgs st b = MAGIC_F}"
  using assms by (simp_all add: pool_ok_def)

lemma put_views:
  assumes "put b f st = Inr st'"
  shows "mgs st' = (mgs st)(b := magic (f (hdr st b)))" "szs st' = (szs st)(b := bsize (f (hdr st b)))" "btl st' = btl st" "proot st' = proot st"
    "pquanta st' = pquanta st" "pchunk st' = pchunk st" "pmax st' = pmax st" "parena st' = parena st" "\<And>x. x \<noteq> b \<Longrightarrow> hdr st' x = hdr st x"
  using assms by (auto simp: put_def mgs_def szs_def split: if_splits)

lemma cur_views [simp]:
  "mgs (st\<lparr>pcur := c\<rparr>) = mgs st" "szs (st\<lparr>pcur := c\<rparr>) = szs st" "mgs (st\<lparr>nalloc := n\<rparr>) = mgs st" "szs (st\<lparr>nalloc := n\<rparr>) = szs st"
  "mgs (st\<lparr>nbrk := n\<rparr>) = mgs st" "szs (st\<lparr>nbrk := n\<rparr>) = szs st" "mgs (st\<lparr>parena := n\<rparr>) = mgs st" "szs (st\<lparr>parena := n\<rparr>) = szs st"
  "mgs (st\<lparr>pchain := n\<rparr>) = mgs st" "szs (st\<lparr>pchain := n\<rparr>) = szs st" "mgs (st\<lparr>nfree := n\<rparr>) = mgs st" "szs (st\<lparr>nfree := n\<rparr>) = szs st"
  "tree_ok (st\<lparr>pcur := c\<rparr>) T = tree_ok st T" "tree_ok (st\<lparr>nalloc := n\<rparr>) T = tree_ok st T" "tree_ok (st\<lparr>nbrk := n\<rparr>) T = tree_ok st T"
  "tree_ok (st\<lparr>parena := n\<rparr>) T = tree_ok st T" "tree_ok (st\<lparr>pchain := n\<rparr>) T = tree_ok st T" "tree_ok (st\<lparr>nfree := n\<rparr>) T = tree_ok st T"
  by (simp_all add: mgs_def szs_def tree_ok_def)

lemma tail_views [simp]:
  "mgs (set_tail b st) = mgs st" "szs (set_tail b st) = szs st" "btl (set_tail b st) = (btl st)(b + szs st b := b)"
  "tree_ok (set_tail b st) T = tree_ok st T" "proot (set_tail b st) = proot st" "hdr (set_tail b st) = hdr st"
  "pquanta (set_tail b st) = pquanta st" "pchunk (set_tail b st) = pchunk st" "pmax (set_tail b st) = pmax st" "parena (set_tail b st) = parena st"
  by (simp_all add: set_tail_def mgs_def szs_def tree_ok_def)

text \<open>Taking a block out of the tree and marking it.\<close>

lemma claim_block:
  assumes ok: "pool_ok st B E M T" and t: "t \<in> set (flat T)" and m: "m \<in> {MAGIC_A, MAGIC_I}"
  obtains st1 st2 T' where "pooldel t st = Inr st1" "put t (\<lambda>x. x\<lparr>magic := m\<rparr>) st1 = Inr st2" "pool_ok st2 B E M T'"
    "mgs st2 = (mgs st)(t := m)" "szs st2 = szs st" "btl st2 = btl st" "same_conf st st2" "parena st2 = parena st"
proof -
  note P = pool_okD [OF ok]
  have tB: "t \<in> B" "mgs st t = MAGIC_F" using t P(3) by auto
  obtain st1 T' where d: "pooldel t st = Inr st1" "tree_ok st1 T'" "set (flat T') = set (flat T) - {t}" "tree_moves (set (flat T)) st st1"
    using pooldel_ok [OF P(2) t] by blast
  note v = tree_moves_views [OF d(4)]
  have t0: "t \<noteq> 0" using tilingD(11) [OF P(1) tB(1)] .
  obtain st2 where p: "put t (\<lambda>x. x\<lparr>magic := m\<rparr>) st1 = Inr st2" using t0 by (simp add: put_eq)
  note w = put_views [OF p]
  have "szs st2 = (szs st1)(t := szs st1 t)" using w(2) by (simp add: szs_def)
  then have sz: "szs st2 = szs st" using v(2) by simp
  have mg: "mgs st2 = (mgs st)(t := m)" and bt: "btl st2 = btl st"
    using w(1,3) v(1,3) by simp_all
  have "tiling (unat (pquanta st2) + 1) (mgs st2) (szs st2) (btl st2) B E M"
    unfolding mg sz bt w(5) v(4) by (rule tiling_mark [OF P(1) tB(1)]) (use m in auto)
  moreover have "tree_ok st2 T'"
    by (rule tree_ok_cong [OF d(2)]) (use d(3) w(4,9) in auto)
  moreover have "m \<noteq> MAGIC_F" using m by auto
  then have "set (flat T') = {b \<in> B. mgs st2 b = MAGIC_F}" unfolding d(3) P(3) mg by auto
  ultimately have "pool_ok st2 B E M T'" by (simp add: pool_ok_def)
  moreover have "same_conf st st2" using w v by (simp add: same_conf_def)
  ultimately show thesis using that [OF d(1) p _ mg sz bt] w(8) v(7) by simp
qed

lemma pool_ok_cur [simp]: "pool_ok (st\<lparr>pcur := c\<rparr>) B E M T = pool_ok st B E M T" "pool_ok (st\<lparr>nalloc := n\<rparr>) B E M T = pool_ok st B E M T"
  by (simp_all add: pool_ok_def)

lemma take_exact_ok:
  assumes ok: "pool_ok st B E M T" and t: "t \<in> set (flat T)"
  shows "\<exists>st' T'. take_exact t st = Inr (B2D t, st') \<and> pool_ok st' B E M T' \<and> mgs st' = (mgs st)(t := MAGIC_A) \<and>
    szs st' = szs st \<and> same_conf st st' \<and> parena st' = parena st"
proof -
  obtain st1 st2 T' where c: "pooldel t st = Inr st1" "put t (\<lambda>x. x\<lparr>magic := MAGIC_A\<rparr>) st1 = Inr st2" "pool_ok st2 B E M T'"
    "mgs st2 = (mgs st)(t := MAGIC_A)" "szs st2 = szs st" "btl st2 = btl st" "same_conf st st2" "parena st2 = parena st"
    using claim_block [OF ok t, of MAGIC_A] by auto
  let ?st' = "st2\<lparr>pcur := pcur st2 + int (bsize (hdr st2 t))\<rparr>"
  have "take_exact t st = Inr (B2D t, ?st')" by (simp add: take_exact_def c(1,2))
  then show ?thesis using c by (intro exI [of _ ?st'] exI [of _ T']) (simp add: same_conf_def)
qed

lemma take_fit_ok:
  assumes ok: "pool_ok st B E M T" and q: "q \<in> set (flat T)" and s: "0 < s" "s < szs st q" "unat (pquanta st) + 1 dvd s"
  shows "\<exists>st' B' T'. take_fit q s st = Inr (B2D q, st') \<and> pool_ok st' B' E M T' \<and>
    allocated st' B' = insert q (allocated st B) \<and> kept st st' (allocated st B) \<and> s \<le> szs st' q \<and> mgs st' q = MAGIC_A \<and>
    same_conf st st' \<and> parena st' = parena st"
proof -
  note P = pool_okD [OF ok]
  have qB: "q \<in> B" "mgs st q = MAGIC_F" using q P(3) by auto
  have q0: "q \<noteq> 0" using tilingD(11) [OF P(1) qB(1)] .
  obtain st1 st2 T1 where c: "pooldel q st = Inr st1" "put q (\<lambda>x. x\<lparr>magic := MAGIC_A\<rparr>) st1 = Inr st2" "pool_ok st2 B E M T1"
    "mgs st2 = (mgs st)(q := MAGIC_A)" "szs st2 = szs st" "btl st2 = btl st" "same_conf st st2" "parena st2 = parena st"
    using claim_block [OF ok q, of MAGIC_A] by auto
  let ?frag = "bsize (hdr st2 q) - s"
  have sq: "bsize (hdr st2 q) = szs st q" using c(5) by (simp add: szs_def fun_eq_iff)
  show ?thesis
  proof (cases "?frag < s div 4")
    case True
    let ?st' = "st2\<lparr>pcur := pcur st2 + int (bsize (hdr st2 q))\<rparr>"
    have "take_fit q s st = Inr (B2D q, ?st')" using True by (simp add: take_fit_def c(1,2) Let_def)
    moreover have "allocated ?st' B = insert q (allocated st B)" using qB by (auto simp: allocated_def c(4))
    moreover have "kept st ?st' (allocated st B)" using qB by (auto simp: kept_def allocated_def c(4,5))
    ultimately show ?thesis using c s(2) by (intro exI [of _ ?st'] exI [of _ B] exI [of _ T1]) (simp add: same_conf_def)
  next
    case False
    let ?t = "q + s"
    have T: "?t \<notin> B \<union> E" using inside_not_start [OF P(1) qB(1), of ?t] s by simp
    have t0: "?t \<noteq> 0" using s(1) by simp
    obtain st3 where p3: "put q (\<lambda>x. x\<lparr>bsize := s\<rparr>) st2 = Inr st3" using q0 by (simp add: put_eq)
    define st4 where "st4 = set_tail q st3"
    obtain st5 where p5: "put ?t (\<lambda>x. x\<lparr>bsize := ?frag\<rparr>) st4 = Inr st5" using t0 by (simp add: put_eq)
    define st5' where "st5' = set_tail ?t st5"
    note w3 = put_views [OF p3] and w5 = put_views [OF p5]
    have tree5: "tree_ok st5' T1"
    proof -
      have x: "hdr st5 x = hdr st2 x" if "x \<in> set (flat T1)" for x
      proof -
        have "x \<in> B" "mgs st2 x = MAGIC_F" using that pool_okD(3) [OF c(3)] by auto
        then have "x \<noteq> q" "x \<noteq> ?t" using c(4) T by auto
        then show ?thesis using w3(9) w5(9) by (simp add: st4_def)
      qed
      have "proot st5 = proot st2" using w3(4) w5(4) by (simp add: st4_def)
      with x have "tree_ok st5 T1" by (rule tree_ok_cong [OF pool_okD(2) [OF c(3)]])
      then show ?thesis by (simp add: st5'_def)
    qed
    have tn: "?t \<notin> set (flat T1)" using pool_okD(3) [OF c(3)] T by auto
    obtain st6 T2 where a: "pooladd ?t st5' = Inr st6" "tree_ok st6 T2" "set (flat T2) = insert ?t (set (flat T1))" "tree_adds ?t (set (flat T1)) st5' st6"
      using pooladd_ok [OF tree5 t0 tn] by blast
    note w6 = tree_adds_views [OF a(4)]
    have m2: "magic (hdr st2 q) = MAGIC_A" using fun_cong [OF c(4), of q] unfolding mgs_def by simp
    have mg: "mgs st6 = (mgs st)(q := MAGIC_A, ?t := MAGIC_F)"
      unfolding w6(1) st5'_def tail_views w5(1) st4_def w3(1) c(4) by (simp add: m2)
    have sz5: "szs st5 = (szs st)(q := s, ?t := szs st q - s)"
      unfolding w5(2) st4_def tail_views w3(2) c(5) by (auto simp: sq)
    then have sz: "szs st6 = (szs st)(q := s, ?t := szs st q - s)" unfolding w6(2) st5'_def tail_views .
    have bt: "btl st6 = (btl st)(?t := q, q + szs st q := ?t)"
    proof -
      have e3: "szs st3 q = s" unfolding w3(2) by simp
      have e5: "?t + szs st5 ?t = q + szs st q" using s unfolding sz5 by simp
      show ?thesis unfolding w6(3) st5'_def tail_views w5(3) st4_def w3(3) c(6) e5 e3 ..
    qed
    let ?st' = "st6\<lparr>pcur := pcur st6 + int (bsize (hdr st6 q))\<rparr>" and ?B' = "insert ?t B"
    have conf: "same_conf st st6" "parena st6 = parena st"
      using c(7,8) w3 w5 w6 by (simp_all add: same_conf_def st5'_def st4_def)
    have "tiling (unat (pquanta st6) + 1) (mgs st6) (szs st6) (btl st6) ?B' E M"
      using tiling_split [OF P(1) qB s] conf(1) unfolding mg sz bt by (simp add: same_conf_def)
    moreover have "set (flat T2) = {b \<in> ?B'. mgs st6 b = MAGIC_F}"
      using a(3) pool_okD(3) [OF c(3)] T s(1) unfolding mg c(4) by auto
    ultimately have "pool_ok ?st' ?B' E M T2" using a(2) by (simp add: pool_ok_def)
    moreover have "take_fit q s st = Inr (B2D q, ?st')"
      using False a(1) by (simp add: take_fit_def c(1,2) Let_def p3 p5 st4_def [symmetric] st5'_def [symmetric])
    moreover have "allocated ?st' ?B' = insert q (allocated st B)" using T s(1) qB(1) by (auto simp: allocated_def mg)
    moreover have "kept st ?st' (allocated st B)" using T qB(2) by (auto simp: kept_def allocated_def mg sz)
    ultimately show ?thesis using conf s(1) by (intro exI [of _ ?st'] exI [of _ ?B'] exI [of _ T2]) (simp add: same_conf_def sz mg)
  qed
qed

lemma magic_distinct: "MAGIC_E \<noteq> MAGIC_F" "MAGIC_A \<noteq> MAGIC_F" "MAGIC_I \<noteq> MAGIC_F" "0 \<noteq> MAGIC_F" "MAGIC_E \<noteq> MAGIC_A"
  by simp_all

lemma same_conf_trans: "same_conf a b \<Longrightarrow> same_conf b c \<Longrightarrow> same_conf a c"
  by (simp add: same_conf_def)

lemma free_in_tree:
  assumes "pool_ok st B E M T" and "c \<in> B \<union> E" and "mgs st c = MAGIC_F"
  shows "c \<in> B" "c \<in> set (flat T)"
proof -
  note P = pool_okD [OF assms(1)]
  have "c \<notin> E" using P(1) assms(3) magic_distinct(1) unfolding tiling_def by auto
  then show "c \<in> B" using assms(2) by simp
  then show "c \<in> set (flat T)" using P(3) assms(3) by simp
qed

lemma join_forward_ok:
  assumes ok: "pool_ok st B E M T" and b: "b \<in> B" "mgs st b \<noteq> MAGIC_F"
  shows "\<exists>st' B' T'. join_forward b st = Inr st' \<and> pool_ok st' B' E M T' \<and> b \<in> B' \<and> mgs st' b = mgs st b \<and>
    mgs st' (b + szs st' b) \<noteq> MAGIC_F \<and> allocated st' B' = allocated st B \<and> kept st st' (allocated st B - {b}) \<and>
    same_conf st st' \<and> parena st' = parena st"
proof -
  note P = pool_okD [OF ok]
  note Q = tilingD [OF P(1) b(1)]
  define c where "c = b + szs st b"
  have c: "c \<in> B \<union> E" "c \<noteq> 0" "c \<noteq> b" using Q(6,1,11) by (simp_all add: c_def)
  have g: "get c st = Inr (hdr st c)" using c(2) by (simp add: get_eq)
  have m: "magic (hdr st c) = mgs st c" "b + bsize (hdr st b) = c" by (simp_all add: mgs_def szs_def c_def)
  show ?thesis
  proof (cases "mgs st c = MAGIC_F")
    case False
    then have "join_forward b st = Inr st" using g m by (simp add: join_forward_def Let_def)
    then show ?thesis using ok b False
      by (intro exI [of _ st] exI [of _ B] exI [of _ T]) (simp add: c_def kept_def same_conf_def)
  next
    case True
    note cB = free_in_tree [OF ok c(1) True]
    obtain st1 T' where d: "pooldel c st = Inr st1" "tree_ok st1 T'" "set (flat T') = set (flat T) - {c}" "tree_moves (set (flat T)) st st1"
      using pooldel_ok [OF P(2) cB(2)] by blast
    note v = tree_moves_views [OF d(4)]
    obtain st2 where p2: "put c (\<lambda>x. x\<lparr>magic := 0\<rparr>) st1 = Inr st2" using c(2) by (simp add: put_eq)
    obtain st3 where p3: "put b (\<lambda>x. x\<lparr>bsize := bsize x + bsize (hdr st2 c)\<rparr>) st2 = Inr st3" using Q(11) by (simp add: put_eq)
    note w2 = put_views [OF p2] and w3 = put_views [OF p3]
    have "szs st2 = (szs st1)(c := szs st1 c)" using w2(2) by (simp add: szs_def)
    then have s2: "szs st2 = szs st" using v(2) by simp
    have h2: "bsize (hdr st2 x) = szs st x" for x using fun_cong [OF s2, of x] unfolding szs_def by simp
    have mg2: "mgs st2 = (mgs st)(c := 0)" using w2(1) v(1) by simp
    have "mgs st3 = (mgs st2)(b := mgs st2 b)" using w3(1) by (simp add: mgs_def)
    then have "mgs st3 = mgs st2" by (simp only: fun_upd_triv)
    then have mg: "mgs st3 = (mgs st)(c := 0)" using mg2 by simp
    have sz: "szs st3 = (szs st)(b := szs st b + szs st c)" using w3(2) s2 by (simp add: h2)
    let ?st' = "set_tail b st3"
    have bt: "btl ?st' = (btl st)(b + (szs st b + szs st c) := b)" unfolding tail_views sz using w3(3) w2(3) v(3) by simp
    have run: "join_forward b st = Inr ?st'"
      using g m True by (simp add: join_forward_def Let_def d(1) p2 p3)
    have conf: "same_conf st ?st'" "parena ?st' = parena st" using v w2 w3 by (simp_all add: same_conf_def)
    have "tiling (unat (pquanta ?st') + 1) (mgs ?st') (szs ?st') (btl ?st') (B - {c}) E M"
      using tiling_join [OF P(1) b(1) c_def cB(1)] b(2) conf(1) unfolding bt by (simp add: mg sz same_conf_def)
    moreover have "tree_ok ?st' T'"
    proof -
      have "hdr st3 x = hdr st1 x" if "x \<in> set (flat T')" for x
      proof -
        have "x \<noteq> c" "mgs st x = MAGIC_F" using that d(3) P(3) by auto
        then show ?thesis using b(2) w3(9) [of x] w2(9) [of x] by auto
      qed
      moreover have "proot st3 = proot st1" using w3(4) w2(4) by simp
      ultimately have "tree_ok st3 T'" by (rule tree_ok_cong [OF d(2)])
      then show ?thesis by simp
    qed
    moreover have "set (flat T') = {x \<in> B - {c}. mgs ?st' x = MAGIC_F}" unfolding d(3) P(3) by (auto simp: mg)
    ultimately have ok': "pool_ok ?st' (B - {c}) E M T'" by (simp add: pool_ok_def)
    have nn: "mgs ?st' (b + szs ?st' b) \<noteq> MAGIC_F"
    proof -
      have "b + szs ?st' b = c + szs st c" by (simp add: sz c_def)
      moreover have "mgs st (c + szs st c) \<noteq> MAGIC_F" using tilingD(9) [OF P(1) cB(1) True] .
      ultimately show ?thesis using magic_distinct by (simp add: mg)
    qed
    have al: "allocated ?st' (B - {c}) = allocated st B" using True by (auto simp: allocated_def mg)
    have kp: "kept st ?st' (allocated st B - {b})" using True by (auto simp: kept_def allocated_def mg sz)
    have mb: "mgs ?st' b = mgs st b" "b \<in> B - {c}" using c(3) b(1) by (simp_all add: mg)
    show ?thesis
      by (rule exI [of _ ?st'], rule exI [of _ "B - {c}"], rule exI [of _ T']) (intro conjI run ok' mb nn al kp conf)
  qed
qed

lemma join_backward_ok:
  assumes ok: "pool_ok st B E M T" and b: "b \<in> B" "mgs st b \<noteq> MAGIC_F" and nx: "mgs st (b + szs st b) \<noteq> MAGIC_F"
  shows "\<exists>r st' B' T'. join_backward b st = Inr (r, st') \<and> tiling (unat (pquanta st') + 1) (mgs st') (szs st') (btl st') B' E M \<and>
    tree_ok st' T' \<and> r \<in> B' \<and> set (flat T') = {x \<in> B'. mgs st' x = MAGIC_F} - {r} \<and>
    mgs st' (r + szs st' r) \<noteq> MAGIC_F \<and> mgs st' (btl st' r) \<noteq> MAGIC_F \<and>
    allocated st' B' - {r} = allocated st B - {b} \<and> kept st st' (allocated st B - {b}) \<and> same_conf st st' \<and> parena st' = parena st \<and> (r = b \<or> mgs st' b = 0)"
proof -
  note P = pool_okD [OF ok]
  note Q = tilingD [OF P(1) b(1)]
  define c where "c = btl st b"
  have c: "c \<in> B \<union> E" "c + szs st c = b" using Q(7,8) by (simp_all add: c_def)
  have c0: "c \<noteq> 0" using c(1) tilingD(11) [OF P(1)] P(1) unfolding tiling_def by (metis Un_iff subsetD)
  have g: "get c st = Inr (hdr st c)" using c0 by (simp add: get_eq)
  have m: "magic (hdr st c) = mgs st c" by (simp add: mgs_def)
  show ?thesis
  proof (cases "mgs st c = MAGIC_F")
    case False
    then have run: "join_backward b st = Inr (b, st)" using g m by (simp add: join_backward_def Let_def c_def [symmetric])
    show ?thesis
      by (rule exI [of _ b], rule exI [of _ st], rule exI [of _ B], rule exI [of _ T])
        (use run P b nx False in \<open>auto simp: c_def kept_def same_conf_def\<close>)
  next
    case True
    note cB = free_in_tree [OF ok c(1) True]
    note R = tilingD [OF P(1) cB(1)]
    have cb: "c \<noteq> b" "c < b" using R(1) c(2) by auto
    obtain st1 T' where d: "pooldel c st = Inr st1" "tree_ok st1 T'" "set (flat T') = set (flat T) - {c}" "tree_moves (set (flat T)) st st1"
      using pooldel_ok [OF P(2) cB(2)] by blast
    note v = tree_moves_views [OF d(4)]
    obtain st2 where p2: "put b (\<lambda>x. x\<lparr>magic := 0\<rparr>) st1 = Inr st2" using Q(11) by (simp add: put_eq)
    obtain st3 where p3: "put c (\<lambda>x. x\<lparr>bsize := bsize x + bsize (hdr st2 b)\<rparr>) st2 = Inr st3" using c0 by (simp add: put_eq)
    note w2 = put_views [OF p2] and w3 = put_views [OF p3]
    have "szs st2 = (szs st1)(b := szs st1 b)" using w2(2) by (simp add: szs_def)
    then have s2: "szs st2 = szs st" using v(2) by simp
    have h2: "bsize (hdr st2 x) = szs st x" for x using fun_cong [OF s2, of x] unfolding szs_def by simp
    have mg2: "mgs st2 = (mgs st)(b := 0)" using w2(1) v(1) by simp
    have "mgs st3 = (mgs st2)(c := mgs st2 c)" using w3(1) by (simp add: mgs_def)
    then have "mgs st3 = mgs st2" by (simp only: fun_upd_triv)
    then have mg: "mgs st3 = (mgs st)(b := 0)" using mg2 by simp
    have sz: "szs st3 = (szs st)(c := szs st c + szs st b)" using w3(2) s2 by (simp add: h2)
    let ?st' = "set_tail c st3"
    have bt: "btl ?st' = (btl st)(c + (szs st c + szs st b) := c)" unfolding tail_views sz using w3(3) w2(3) v(3) by simp
    have run: "join_backward b st = Inr (c, ?st')"
      using g m True by (simp add: join_backward_def Let_def c_def [symmetric] d(1) p2 p3)
    have conf: "same_conf st ?st'" "parena ?st' = parena st" using v w2 w3 by (simp_all add: same_conf_def)
    have til: "tiling (unat (pquanta ?st') + 1) (mgs ?st') (szs ?st') (btl ?st') (B - {b}) E M"
      using tiling_join [OF P(1) cB(1) c(2) [symmetric] b(1) nx] conf(1) unfolding bt by (simp add: mg sz same_conf_def)
    have tree: "tree_ok ?st' T'"
    proof -
      have "hdr st3 x = hdr st1 x" if "x \<in> set (flat T')" for x
      proof -
        have "x \<noteq> c" "mgs st x = MAGIC_F" using that d(3) P(3) by auto
        then show ?thesis using b(2) w3(9) [of x] w2(9) [of x] by auto
      qed
      moreover have "proot st3 = proot st1" using w3(4) w2(4) by simp
      ultimately have "tree_ok st3 T'" by (rule tree_ok_cong [OF d(2)])
      then show ?thesis by simp
    qed
    have fl: "set (flat T') = {x \<in> B - {b}. mgs ?st' x = MAGIC_F} - {c}" unfolding d(3) P(3) using b(2) by (auto simp: mg)
    have nn: "mgs ?st' (c + szs ?st' c) \<noteq> MAGIC_F"
    proof -
      have "c + szs ?st' c = b + szs st b" using c(2) by (simp add: sz)
      then show ?thesis using nx magic_distinct by (simp add: mg)
    qed
    have pp: "mgs ?st' (btl ?st' c) \<noteq> MAGIC_F"
    proof -
      have e: "btl ?st' c = btl st c" using R(1) unfolding bt by auto
      have "mgs st (btl st c) \<noteq> MAGIC_F"
      proof
        assume f: "mgs st (btl st c) = MAGIC_F"
        then have "btl st c \<in> B" using free_in_tree(1) [OF ok R(7)] by blast
        then show False using tilingD(9) [OF P(1) _ f] R(8) True by simp
      qed
      then show ?thesis unfolding e using magic_distinct by (simp add: mg)
    qed
    have al: "allocated ?st' (B - {b}) - {c} = allocated st B - {b}" using True by (auto simp: allocated_def mg)
    have kp: "kept st ?st' (allocated st B - {b})" using True by (auto simp: kept_def allocated_def mg sz)
    have m0: "mgs ?st' b = 0" by (simp add: mg)
    have cB': "c \<in> B - {b}" using cB(1) cb by simp
    show ?thesis
      by (rule exI [of _ c], rule exI [of _ ?st'], rule exI [of _ "B - {b}"], rule exI [of _ T'])
        (intro conjI run til tree cB' fl nn pp al kp conf disjI2 m0)
  qed
qed

lemma poolfree_ok:
  assumes ok: "pool_ok st B E M T" and b: "b \<in> allocated st B"
  shows "\<exists>st' B' T'. poolfree (B2D b) st = Inr st' \<and> pool_ok st' B' E M T' \<and>
    allocated st' B' = allocated st B - {b} \<and> kept st st' (allocated st B - {b}) \<and> same_conf st st' \<and> parena st' = parena st \<and> mgs st' b \<in> {0, MAGIC_F}"
proof -
  have bB: "b \<in> B" "mgs st b \<noteq> MAGIC_F" using b by (auto simp: allocated_def)
  note Q = tilingD [OF pool_okD(1) [OF ok] bB(1)]
  have D: "D2B (B2D b) st = Inr b" using Q(4) bB(2) by (auto simp: D2B_def B2D_def mgs_def)
  define st1 where "st1 = st\<lparr>nfree := nfree st + 1, pcur := pcur st - int (bsize (hdr st b))\<rparr>"
  have same: "mgs st1 = mgs st" "szs st1 = szs st" "allocated st1 B = allocated st B" "same_conf st st1" "parena st1 = parena st"
    by (simp_all add: st1_def mgs_def szs_def allocated_def same_conf_def)
  have ok1: "pool_ok st1 B E M T" using ok by (simp add: st1_def pool_ok_def tree_ok_def mgs_def szs_def)
  obtain st2 B2 T2 where f: "join_forward b st1 = Inr st2" "pool_ok st2 B2 E M T2" "b \<in> B2" "mgs st2 b = mgs st1 b"
    "mgs st2 (b + szs st2 b) \<noteq> MAGIC_F" "allocated st2 B2 = allocated st1 B" "kept st1 st2 (allocated st1 B - {b})" "same_conf st1 st2" "parena st2 = parena st1"
    using join_forward_ok [OF ok1 bB(1)] bB(2) same(1) by auto
  have m2: "mgs st2 b \<noteq> MAGIC_F" using f(4) same(1) bB(2) by simp
  obtain r st3 B3 T3 where k: "join_backward b st2 = Inr (r, st3)"
    "tiling (unat (pquanta st3) + 1) (mgs st3) (szs st3) (btl st3) B3 E M" "tree_ok st3 T3" "r \<in> B3"
    "set (flat T3) = {x \<in> B3. mgs st3 x = MAGIC_F} - {r}"
    "mgs st3 (r + szs st3 r) \<noteq> MAGIC_F" "mgs st3 (btl st3 r) \<noteq> MAGIC_F"
    "allocated st3 B3 - {r} = allocated st2 B2 - {b}" "kept st2 st3 (allocated st2 B2 - {b})" "same_conf st2 st3" "parena st3 = parena st2" "r = b \<or> mgs st3 b = 0"
    using join_backward_ok [OF f(2,3) m2 f(5)] by (elim exE conjE) (rule that; assumption)
  have r: "r \<noteq> 0" by (rule tilingD(11) [OF k(2,4)])
  have rT: "r \<notin> set (flat T3)" unfolding k(5) by simp
  obtain st4 T4 where a: "pooladd r st3 = Inr st4" "tree_ok st4 T4" "set (flat T4) = insert r (set (flat T3))" "tree_adds r (set (flat T3)) st3 st4"
    using pooladd_ok [OF k(3) r rT] by blast
  note v = tree_adds_views [OF a(4)]
  have "poolfree (B2D b) st = Inr st4"
    unfolding poolfree_def D bindR_simps get_eq [OF Q(11)] Let_def st1_def [symmetric] f(1) k(1) prod.case by (rule a(1))
  moreover have "pool_ok st4 B3 E M T4"
  proof -
    have "tiling (unat (pquanta st4) + 1) (mgs st4) (szs st4) (btl st4) B3 E M"
      unfolding v by (rule tiling_mark [OF k(2,4)]) (use k(6,7) in auto)
    moreover have "set (flat T4) = {x \<in> B3. mgs st4 x = MAGIC_F}" unfolding a(3) k(5) v(1) using k(4) by auto
    ultimately show ?thesis using a(2) by (simp add: pool_ok_def)
  qed
  moreover have al: "allocated st4 B3 = allocated st B - {b}"
  proof -
    have "allocated st4 B3 = allocated st3 B3 - {r}" unfolding allocated_def v(1) by auto
    then show ?thesis using k(8) f(6) same(3) by simp
  qed
  moreover have "kept st st4 (allocated st B - {b})"
  proof -
    have "x \<noteq> r" if "x \<in> allocated st B - {b}" for x using that k(8) f(6) same(3) by auto
    then show ?thesis using f(7) k(9) unfolding kept_def f(6) same(3) v same(1,2) by auto
  qed
  moreover have "same_conf st st4" "parena st4 = parena st"
    using same(4,5) f(8,9) k(10,11) v by (simp_all add: same_conf_def)
  moreover have "mgs st4 b \<in> {0, MAGIC_F}" using k(12) unfolding v(1) by auto
  ultimately show ?thesis by blast
qed

text \<open>Growing the pool.\<close>

lemma tiling_mono: "tiling g mg sz bt B E M \<Longrightarrow> M \<subseteq> M' \<Longrightarrow> 0 \<notin> M' \<Longrightarrow> tiling g mg sz bt B E M'"
  unfolding tiling_def bok_def by blast

lemma pool_ok_mono: "pool_ok st B E M T \<Longrightarrow> M \<subseteq> M' \<Longrightarrow> 0 \<notin> M' \<Longrightarrow> pool_ok st B E M' T"
  unfolding pool_ok_def using tiling_mono by blast

definition grow_len :: "nat \<Rightarrow> pool \<Rightarrow> nat" where
  "grow_len s st = (if s > pchunk st then s else pchunk st) + (unat (pquanta st) + 1) + 4"

definition brk_region :: "ptr option \<Rightarrow> nat \<Rightarrow> pool \<Rightarrow> ptr set" where
  "brk_region brk s st = (case brk of None \<Rightarrow> {} | Some l \<Rightarrow> {l..<l + grow_len s st})"

lemma chunk_start:
  assumes "l \<noteq> 0" and "0 < ldr" and "0 < s"
  obtains st2 st4 where "put l (\<lambda>x. x\<lparr>magic := MAGIC_E, bsize := ldr, csize := c, clink := d\<rparr>) st = Inr st2"
    "put (l + ldr) (\<lambda>x. x\<lparr>magic := MAGIC_A, bsize := s\<rparr>) (set_tail l (st2\<lparr>pchain := l\<rparr>)) = Inr st4"
    "mgs (set_tail (l + ldr) st4) = (mgs st)(l := MAGIC_E, l + ldr := MAGIC_A)"
    "szs (set_tail (l + ldr) st4) = (szs st)(l := ldr, l + ldr := s)"
    "btl (set_tail (l + ldr) st4) = (btl st)(l + ldr := l, l + ldr + s := l + ldr)"
    "\<And>x. x \<noteq> l \<Longrightarrow> x \<noteq> l + ldr \<Longrightarrow> hdr (set_tail (l + ldr) st4) x = hdr st x"
    "proot (set_tail (l + ldr) st4) = proot st" "same_conf st (set_tail (l + ldr) st4)"
proof -
  let ?t = "l + ldr"
  obtain st2 where p2: "put l (\<lambda>x. x\<lparr>magic := MAGIC_E, bsize := ldr, csize := c, clink := d\<rparr>) st = Inr st2"
    using assms(1) by (simp add: put_eq)
  define st3 where "st3 = set_tail l (st2\<lparr>pchain := l\<rparr>)"
  obtain st4 where p4: "put ?t (\<lambda>x. x\<lparr>magic := MAGIC_A, bsize := s\<rparr>) st3 = Inr st4"
    using assms(1) by (simp add: put_eq)
  note w2 = put_views [OF p2] and w4 = put_views [OF p4]
  have m2: "mgs st2 = (mgs st)(l := MAGIC_E)" "szs st2 = (szs st)(l := ldr)" using w2(1,2) by simp_all
  have m4: "mgs st4 = (mgs st)(l := MAGIC_E, ?t := MAGIC_A)" "szs st4 = (szs st)(l := ldr, ?t := s)"
    unfolding w4(1,2) st3_def tail_views cur_views m2 by simp_all
  have b: "btl (set_tail ?t st4) = (btl st)(?t := l, ?t + s := ?t)"
  proof -
    have "szs (st2\<lparr>pchain := l\<rparr>) l = ldr" unfolding cur_views m2 by simp
    then have "btl st3 = (btl st)(?t := l)" using w2(3) unfolding st3_def tail_views by simp
    moreover have "szs st4 ?t = s" unfolding m4 by simp
    ultimately show ?thesis unfolding tail_views w4(3) by simp
  qed
  have h: "hdr (set_tail ?t st4) x = hdr st x" if "x \<noteq> l" "x \<noteq> ?t" for x
    using w2(9) w4(9) that by (simp add: st3_def)
  have "proot (set_tail ?t st4) = proot st" "same_conf st (set_tail ?t st4)"
    using w2 w4 by (simp_all add: same_conf_def st3_def)
  then show thesis
    using that [OF p2 p4 [unfolded st3_def]] m4 b h by simp
qed

lemma chunk_views:
  "same_conf (st\<lparr>parena := x, nbrk := y\<rparr>) st' = same_conf st st'"
  "kept (st\<lparr>parena := x, nbrk := y\<rparr>) st' S = kept st st' S"
  "allocated (st\<lparr>parena := x, nbrk := y\<rparr>) B = allocated st B"
  by (simp_all add: same_conf_def kept_def allocated_def mgs_def szs_def)

lemma pool_chunk_ok:
  assumes ok: "pool_ok st B E M T" and l: "l \<noteq> 0" "{l..<l + ldr + ns + 4} \<inter> M = {}"
    and s: "0 < s" "s \<le> ns" "unat (pquanta st) + 1 dvd s" "unat (pquanta st) + 1 dvd ns" "ldr = unat (pquanta st) + 1"
  shows "\<exists>st' B' T'. pool_chunk l s ns ldr st = Inr (B2D (l + ldr), st') \<and> pool_ok st' B' (E \<union> {l, l + ldr + ns}) (M \<union> {l..<l + ldr + ns + 4}) T' \<and>
    same_conf st st' \<and> kept st st' (allocated st B) \<and> l + ldr \<notin> B \<and> allocated st' B' = insert (l + ldr) (allocated st B) \<and>
    szs st' (l + ldr) = s \<and> mgs st' (l + ldr) = MAGIC_A"
proof -
  note P = pool_okD [OF ok]
  let ?t = "l + ldr" and ?e = "l + ldr + ns" and ?E = "E \<union> {l, l + ldr + ns}" and ?M = "M \<union> {l..<l + ldr + ns + 4}"
  have pos: "0 < ldr" "0 < ns" using s by simp_all
  note C = tiling_chunk [OF P(1) l(1) pos s(4) l(2)]
  have out: "x \<notin> B" if "x \<in> {l..<?e + 4}" for x using tilingD(12) [OF P(1), of x] l(2) that by blast
  have fB: "x \<in> B" if "x \<in> set (flat T)" for x using that P(3) by simp
  have o: "l \<notin> B" "?t \<notin> B" "?e \<notin> B" "?t + s \<notin> B" using out s(2) by simp_all
  obtain st2 st4 where c: "put l (\<lambda>x. x\<lparr>magic := MAGIC_E, bsize := ldr, csize := ns + ldr, clink := pchain st\<rparr>) st = Inr st2"
    "put ?t (\<lambda>x. x\<lparr>magic := MAGIC_A, bsize := s\<rparr>) (set_tail l (st2\<lparr>pchain := l\<rparr>)) = Inr st4"
    "mgs (set_tail ?t st4) = (mgs st)(l := MAGIC_E, ?t := MAGIC_A)" "szs (set_tail ?t st4) = (szs st)(l := ldr, ?t := s)"
    "btl (set_tail ?t st4) = (btl st)(?t := l, ?t + s := ?t)"
    "\<And>x. x \<noteq> l \<Longrightarrow> x \<noteq> ?t \<Longrightarrow> hdr (set_tail ?t st4) x = hdr st x" "proot (set_tail ?t st4) = proot st" "same_conf st (set_tail ?t st4)"
    by (rule chunk_start [OF l(1) pos(1) s(1), where c = "ns + ldr" and d = "pchain st" and st = st]) (rule that; assumption)
  define st5 where "st5 = set_tail ?t st4"
  note c' = c(3-8) [folded st5_def]
  have T5: "tree_ok st5 T"
    by (rule tree_ok_cong [OF P(2) _ c'(5)]) (use fB o in \<open>auto intro!: c'(4)\<close>)
  show ?thesis
  proof (cases "ns - s > 0")
    case False
    then have ns: "ns = s" using s(2) by simp
    have b5: "bsize (hdr st5 ?t) = s" using fun_cong [OF c'(2), of ?t] unfolding szs_def by simp
    then have b4: "bsize (hdr st4 ?t) = s" by (simp add: st5_def)
    obtain st8 where p8: "put (?t + s) (\<lambda>x. x\<lparr>magic := MAGIC_E\<rparr>) st5 = Inr st8" using l(1) by (simp add: put_eq)
    note w8 = put_views [OF p8]
    let ?st' = "st8\<lparr>pcur := pcur st8 + int (bsize (hdr st8 ?t))\<rparr>" and ?B' = "insert ?t B"
    have run: "pool_chunk l s ns ldr st = Inr (B2D ?t, ?st')"
      using False by (simp add: pool_chunk_def c(1,2) Let_def st5_def [symmetric] b4 p8)
    have mg: "mgs st8 = (mgs st)(l := MAGIC_E, ?t := MAGIC_A, ?e := MAGIC_E)" unfolding w8(1) c'(1) ns by simp
    have "szs st8 = (szs st5)(?t + s := szs st5 (?t + s))" using w8(2) by (simp add: szs_def)
    then have "szs st8 = szs st5" by (simp only: fun_upd_triv)
    then have sz: "szs st8 = (szs st)(l := ldr, ?t := ns)" using c'(2) ns by simp
    have bt: "btl st8 = (btl st)(?t := l, ?e := ?t)" using w8(3) c'(3) ns by simp
    have conf: "same_conf st ?st'" using w8 c'(6) by (simp add: same_conf_def)
    have tl: "tiling (unat (pquanta st8) + 1) (mgs st8) (szs st8) (btl st8) ?B' ?E ?M"
    proof -
      have "(mgs st)(l := MAGIC_E, ?t := MAGIC_F, ?e := MAGIC_E, ?t := MAGIC_A) = mgs st8" unfolding mg using pos by auto
      then show ?thesis using tiling_mark [OF C, of ?t MAGIC_A] conf by (simp add: sz bt same_conf_def)
    qed
    have "tree_ok st8 T" by (rule tree_ok_cong [OF T5 _ w8(4)]) (use fB o ns in \<open>auto intro!: w8(9)\<close>)
    moreover have "set (flat T) = {b \<in> ?B'. mgs st8 b = MAGIC_F}" using P(3) o pos by (auto simp: mg)
    ultimately have "pool_ok ?st' ?B' ?E ?M T" using tl by (simp add: pool_ok_def)
    moreover have "kept st ?st' (allocated st B)" using o by (auto simp: kept_def allocated_def mg sz)
    moreover have "allocated ?st' ?B' = insert ?t (allocated st B)" using o pos by (auto simp: allocated_def mg)
    moreover have "szs ?st' ?t = s" "mgs ?st' ?t = MAGIC_A" using ns pos by (simp_all add: sz mg)
    ultimately show ?thesis using run conf o(2) by blast
  next
    case True
    let ?u = "?t + s"
    have u: "?u \<noteq> 0" "?u \<noteq> l" "?u \<noteq> ?t" "?u \<noteq> ?e" "?u + (ns - s) = ?e" using True s(1,2) l(1) pos by auto
    obtain st6 where p6: "put ?u (\<lambda>x. x\<lparr>bsize := ns - s\<rparr>) st5 = Inr st6" using u(1) by (simp add: put_eq)
    note w6 = put_views [OF p6]
    define st6' where "st6' = set_tail ?u st6"
    have T6: "tree_ok st6' T"
    proof -
      have "tree_ok st6 T" by (rule tree_ok_cong [OF T5 _ w6(4)]) (use fB o in \<open>auto intro!: w6(9)\<close>)
      then show ?thesis by (simp add: st6'_def)
    qed
    have "?u \<notin> set (flat T)" using P(3) o by auto
    then obtain st7 T' where a: "pooladd ?u st6' = Inr st7" "tree_ok st7 T'" "set (flat T') = insert ?u (set (flat T))" "tree_adds ?u (set (flat T)) st6' st7"
      using pooladd_ok [OF T6 u(1)] by blast
    note w7 = tree_adds_views [OF a(4)]
    have "mgs st6 = (mgs st5)(?u := mgs st5 ?u)" using w6(1) by (simp add: mgs_def)
    then have mg6: "mgs st6 = mgs st5" by simp
    have sz7: "szs st7 = (szs st)(l := ldr, ?t := s, ?u := ns - s)" unfolding w7(2) st6'_def tail_views w6(2) c'(2) by simp
    have b7: "bsize (hdr st7 ?u) = ns - s" using fun_cong [OF sz7, of ?u] unfolding szs_def by simp
    obtain st8 where p8: "put ?e (\<lambda>x. x\<lparr>magic := MAGIC_E\<rparr>) st7 = Inr st8" using l(1) by (simp add: put_eq)
    note w8 = put_views [OF p8]
    let ?st' = "st8\<lparr>pcur := pcur st8 + int (bsize (hdr st8 ?t))\<rparr>" and ?B' = "insert ?u (insert ?t B)"
    have run: "pool_chunk l s ns ldr st = Inr (B2D ?t, ?st')"
      using True u(5) by (simp add: pool_chunk_def c(1,2) Let_def st5_def [symmetric] p6 st6'_def [symmetric] a(1) b7 p8 [unfolded add.assoc])
    have mg: "mgs st8 = (mgs st)(l := MAGIC_E, ?t := MAGIC_A, ?u := MAGIC_F, ?e := MAGIC_E)"
      unfolding w8(1) w7(1) st6'_def tail_views mg6 c'(1) by simp
    have "szs st8 = (szs st7)(?e := szs st7 ?e)" using w8(2) by (simp add: szs_def)
    then have "szs st8 = szs st7" by (simp only: fun_upd_triv)
    then have sz: "szs st8 = (szs st)(l := ldr, ?t := s, ?u := ns - s)" using sz7 by simp
    have s6: "szs st6 ?u = ns - s" unfolding w6(2) by simp
    have bt: "btl st8 = (btl st)(?t := l, ?u := ?t, ?e := ?u)"
      unfolding w8(3) w7(3) st6'_def tail_views w6(3) c'(3) s6 u(5) ..
    have conf: "same_conf st ?st'" using w8 w7 w6 c'(6) by (simp add: same_conf_def st6'_def)
    have tl: "tiling (unat (pquanta st8) + 1) (mgs st8) (szs st8) (btl st8) ?B' ?E ?M"
    proof -
      have m: "((mgs st)(l := MAGIC_E, ?t := MAGIC_F, ?e := MAGIC_E))(?t := MAGIC_A, ?u := MAGIC_F) = mgs st8"
        unfolding mg using pos u by auto
      have z: "((szs st)(l := ldr, ?t := ns))(?t := s, ?u := ns - s) = szs st8" unfolding sz by auto
      have b: "((btl st)(?t := l, ?e := ?t))(?u := ?t, ?e := ?u) = btl st8" unfolding bt using u(4) by auto
      have "tiling (unat (pquanta st) + 1)
        (((mgs st)(l := MAGIC_E, ?t := MAGIC_F, ?e := MAGIC_E))(?t := MAGIC_A, ?u := MAGIC_F))
        (((szs st)(l := ldr, ?t := ns))(?t := s, ?u := ns - s)) (((btl st)(?t := l, ?e := ?t))(?u := ?t, ?e := ?u)) ?B' ?E ?M"
        using tiling_split [OF C, of ?t s] s(1,3) True pos by simp
      then show ?thesis unfolding m z b using conf by (simp add: same_conf_def)
    qed
    have eT: "?e \<notin> set (flat T')" using a(3) P(3) o u(4) by auto
    have T8: "tree_ok st8 T'" by (rule tree_ok_cong [OF a(2) _ w8(4)]) (use eT in \<open>auto intro!: w8(9)\<close>)
    have "set (flat T') = {b \<in> ?B'. mgs st8 b = MAGIC_F}" using a(3) P(3) o pos u by (auto simp: mg)
    then have "pool_ok ?st' ?B' ?E ?M T'" using tl T8 by (simp add: pool_ok_def)
    moreover have "kept st ?st' (allocated st B)" using o by (auto simp: kept_def allocated_def mg sz)
    moreover have "allocated ?st' ?B' = insert ?t (allocated st B)" using o pos u by (auto simp: allocated_def mg)
    moreover have "szs ?st' ?t = s" "mgs ?st' ?t = MAGIC_A" using u(3) pos True by (simp_all add: sz mg)
    ultimately show ?thesis using run conf o(2) by blast
  qed
qed

lemma pool_grow_ok:
  assumes ok: "pool_ok st B E M T" and s: "0 < s" "unat (pquanta st) + 1 dvd s" "unat (pquanta st) + 1 dvd pchunk st"
    and brk: "brk_region brk s st \<inter> M = {}" "0 \<notin> brk_region brk s st"
  shows "\<exists>v st' B' E' T'. pool_grow brk s st = Inr (v, st') \<and> pool_ok st' B' E' (M \<union> brk_region brk s st) T' \<and> same_conf st st' \<and>
    kept st st' (allocated st B) \<and>
    (v = 0 \<and> allocated st' B' = allocated st B \<or>
     (\<exists>b. v = B2D b \<and> b \<notin> B \<and> allocated st' B' = insert b (allocated st B) \<and> szs st' b = s \<and> mgs st' b = MAGIC_A))"
proof -
  let ?M = "M \<union> brk_region brk s st"
  have z: "0 \<notin> ?M" using brk(2) ok by (simp add: pool_ok_def tiling_def)
  have fail: "pool_ok st' B E ?M T \<and> same_conf st st' \<and> kept st st' (allocated st B) \<and> allocated st' B = allocated st B"
    if "st' = st\<lparr>parena := x, nbrk := y\<rparr>" for st' x y
  proof -
    have "pool_ok st' B E M T" using ok that by (simp add: pool_ok_def tree_ok_def mgs_def szs_def)
    then show ?thesis using pool_ok_mono [OF _ _ z] that by (simp add: same_conf_def kept_def allocated_def mgs_def szs_def)
  qed
  define ns where "ns = (if s > pchunk st then s else pchunk st)"
  define ldr where "ldr = unat (pquanta st) + 1"
  have gl: "grow_len s st = ns + ldr + 4" by (simp add: grow_len_def ns_def ldr_def)
  show ?thesis
  proof (cases "parena st + (ns + ldr + 4) > pmax st \<or> brk = None")
    case True
    show ?thesis
    proof (cases "parena st + (ns + ldr + 4) > pmax st")
      case True
      have run: "pool_grow brk s st = Inr (nil, st\<lparr>parena := parena st, nbrk := nbrk st\<rparr>)"
        using True by (simp add: pool_grow_def Let_def ns_def ldr_def)
      show ?thesis
        by (rule exI [of _ nil], rule exI [of _ "st\<lparr>parena := parena st, nbrk := nbrk st\<rparr>"], rule exI [of _ B], rule exI [of _ E], rule exI [of _ T])
          (use fail [OF refl] run in blast)
    next
      case False
      let ?st' = "st\<lparr>parena := parena st + (ns + ldr + 4), nbrk := nbrk st + 1\<rparr>"
      have run: "pool_grow brk s st = Inr (nil, ?st')"
        using True False by (simp add: pool_grow_def Let_def ns_def ldr_def)
      show ?thesis
        by (rule exI [of _ nil], rule exI [of _ ?st'], rule exI [of _ B], rule exI [of _ E], rule exI [of _ T])
          (use fail [OF refl] run in blast)
    qed
  next
    case False
    then obtain l where l: "brk = Some l" by auto
    let ?st1 = "st\<lparr>parena := parena st + (ns + ldr + 4), nbrk := nbrk st + 1\<rparr>"
    have reg: "brk_region brk s st = {l..<l + ldr + ns + 4}" by (simp add: brk_region_def l gl add.commute add.left_commute)
    obtain st' B' T' where g: "pool_chunk l s ns ldr ?st1 = Inr (B2D (l + ldr), st')" "pool_ok st' B' (E \<union> {l, l + ldr + ns}) (M \<union> {l..<l + ldr + ns + 4}) T'"
      "same_conf st st'" "kept st st' (allocated st B)" "l + ldr \<notin> B" "allocated st' B' = insert (l + ldr) (allocated st B)" "szs st' (l + ldr) = s"
      "mgs st' (l + ldr) = MAGIC_A"
    proof -
      have "pool_ok ?st1 B E M T" using ok by (simp add: pool_ok_def tree_ok_def mgs_def szs_def)
      moreover have "l \<noteq> 0" "{l..<l + ldr + ns + 4} \<inter> M = {}" using brk reg by auto
      moreover have "s \<le> ns" "unat (pquanta ?st1) + 1 dvd ns" "ldr = unat (pquanta ?st1) + 1" using s by (simp_all add: ns_def ldr_def)
      ultimately show thesis using pool_chunk_ok [of ?st1 B E M T l ldr ns s] s(1,2) unfolding chunk_views by (simp, elim exE conjE) (rule that; simp)
    qed
    have run: "pool_grow brk s st = pool_chunk l s ns ldr ?st1"
      using False l unfolding pool_grow_def Let_def ns_def [symmetric] ldr_def [symmetric] by (simp add: l)
    show ?thesis
      unfolding run reg
      by (rule exI [of _ "B2D (l + ldr)"], rule exI [of _ st'], rule exI [of _ B'], rule exI [of _ "E \<union> {l, l + ldr + ns}"], rule exI [of _ T'])
        (intro conjI disjI2 exI [of _ "l + ldr"] refl g)
  qed
qed

lemma and_not_31: "x AND NOT 31 = push_bit 5 (drop_bit 5 (x :: u32))"
proof -
  have "31 = (mask 5 :: u32)" by (simp add: mask_eq_exp_minus_1)
  show ?thesis unfolding \<open>31 = mask 5\<close> by (rule bit_word_eqI) (auto simp: bit_simps not_less)
qed

lemma sint_small: "unat w < 2 ^ 31 \<Longrightarrow> sint w = int (unat w)" for w :: u32
proof -
  assume "unat w < 2 ^ 31"
  then have "int (unat w) < 2 ^ 31" by (metis of_nat_less_iff of_nat_numeral of_nat_power)
  then have u: "uint w < 2 ^ 31" unfolding of_nat_unat .
  have "sint w = uint w"
    using u by (simp add: sint_uint signed_take_bit_int_eq_self_iff order_trans [OF _ uint_ge_0])
  then show "sint w = int (unat w)" unfolding of_nat_unat .
qed

lemma round_up_31:
  assumes "unat n + 47 < 2 ^ 31"
  shows "32 dvd unat (round_up 31 n)" "unat n + 16 \<le> unat (round_up 31 n)" "0 < sint (round_up 31 n)" "0 < unat (round_up 31 n)"
proof -
  have x: "unat (n + 16 + 31) = unat n + 47" using assms by (simp add: unat_word_ariths)
  have "(unat n + 47) div 32 * 32 \<le> unat n + 47" by linarith
  then have "(unat n + 47) div 32 * 32 < 2 ^ 32" using assms by simp
  then have w: "unat (round_up 31 n) = (unat n + 47) div 32 * 32"
    unfolding round_up_def BHDRSIZE_def and_not_31 unsigned_push_bit_eq unsigned_drop_bit_eq x
    by (simp add: push_bit_eq_mult drop_bit_eq_div take_bit_nat_eq_self)
  show "32 dvd unat (round_up 31 n)" unfolding w by simp
  show le: "unat n + 16 \<le> unat (round_up 31 n)" unfolding w by linarith
  then show "0 < unat (round_up 31 n)" by simp
  have "unat (round_up 31 n) < 2 ^ 31" unfolding w using assms by linarith
  then have "sint (round_up 31 n) = int (unat (round_up 31 n))" by (rule sint_small)
  then show "0 < sint (round_up 31 n)" using le by linarith
qed

text \<open>The search of the tree finds the smallest free block that is large enough.\<close>

lemma tok_heads: "tok h p q T \<Longrightarrow> heads T \<subseteq> set (flat T) \<and> set (keys h T) = (\<lambda>x. bsize (h x)) ` set (flat T)"
proof (induction T arbitrary: p q)
  case Leaf
  then show ?case by simp
next
  case (Node l xs r)
  have n: "node_ok h p q xs" "tok h (bhl (h p)) p l" "tok h (bhr (h p)) p r" using Node.prems by auto
  have e: "xs \<noteq> []" "p = hd xs" "\<forall>x \<in> set xs. bsize (h x) = bsize (h p)"
    by (insert n(1) [unfolded node_ok_def], elim conjE, assumption)+
  have x: "hd xs \<in> set xs" using e(1) by (rule hd_in_set)
  have "bsize (h x) = bsize (h (hd xs))" if "x \<in> set xs" for x using e(3) that unfolding e(2) by (rule bspec)
  then have "(\<lambda>x. bsize (h x)) ` set xs = (\<lambda>x. bsize (h (hd xs))) ` set xs" by (rule image_cong [OF refl])
  also have "\<dots> = {bsize (h (hd xs))}" using e(1) by (simp only: image_constant_conv set_empty if_False)
  finally have "(\<lambda>x. bsize (h x)) ` set xs = {bsize (h (hd xs))}" .
  then show ?case using x Node.IH(1) [OF n(2)] Node.IH(2) [OF n(3)] by (auto simp: image_Un)
qed

definition best_free :: "pool \<Rightarrow> ptr set \<Rightarrow> nat \<Rightarrow> ptr \<Rightarrow> bool" where
  "best_free st B s b \<longleftrightarrow> b \<in> B \<and> mgs st b = MAGIC_F \<and> s \<le> szs st b \<and>
     (\<forall>f \<in> B. mgs st f = MAGIC_F \<and> s \<le> szs st f \<longrightarrow> szs st b \<le> szs st f)"

definition none_free :: "pool \<Rightarrow> ptr set \<Rightarrow> nat \<Rightarrow> bool" where
  "none_free st B s \<longleftrightarrow> (\<forall>f \<in> B. mgs st f = MAGIC_F \<longrightarrow> szs st f < s)"

lemma best_fit_finds:
  assumes "pool_ok st B E M T"
  obtains (exact) t where "best_fit (hdr st) s 0 (proot st) = Some (Exact t)" "t \<in> set (flat T)" "szs st t = s" "best_free st B s t"
    | (fit) t where "best_fit (hdr st) s 0 (proot st) = Some (Fit t)" "t \<in> set (flat T)" "t \<noteq> 0" "s < szs st t" "best_free st B s t"
    | (nofit) "best_fit (hdr st) s 0 (proot st) = Some (Fit 0)" "none_free st B s"
proof -
  note P = pool_okD [OF assms]
  have T: "tok (hdr st) (proot st) 0 T" "sorted_wrt (<) (keys (hdr st) T)" using P(2) by (simp_all add: tree_ok_def)
  note H = tok_heads [OF T(1)]
  have K: "set (keys (hdr st) T) = szs st ` {b \<in> B. mgs st b = MAGIC_F}" using H P(3) by (simp add: szs_def)
  have fr: "t \<in> B" "mgs st t = MAGIC_F" "t \<in> set (flat T)" "t \<noteq> 0" if "t \<in> heads T" for t
    using that H P(3) tilingD(11) [OF P(1), of t] by auto
  have sz: "bsize (hdr st t) = szs st t" for t by (simp add: szs_def)
  consider t where "best_fit (hdr st) s 0 (proot st) = Some (Exact t)" "t \<in> heads T" "szs st t = s"
    | "best_fit (hdr st) s 0 (proot st) = Some (Fit 0)" "\<forall>k \<in> set (keys (hdr st) T). k < s"
    | t where "best_fit (hdr st) s 0 (proot st) = Some (Fit t)" "t \<in> heads T" "s < szs st t" "s \<notin> set (keys (hdr st) T)"
        "\<forall>k \<in> set (keys (hdr st) T). s < k \<longrightarrow> szs st t \<le> k"
    using best_fit_tok [OF T, of s 0] unfolding sz by blast
  then show thesis
  proof cases
    case (1 t)
    then show thesis using fr [of t] exact [of t] by (simp add: best_free_def)
  next
    case 2
    then show thesis using nofit unfolding K none_free_def by blast
  next
    case (3 t)
    have "szs st t \<le> szs st f" if "f \<in> B" "mgs st f = MAGIC_F" "s \<le> szs st f" for f
    proof -
      have "szs st f \<in> set (keys (hdr st) T)" unfolding K using that by blast
      then show ?thesis using 3(4,5) that(3) by (metis le_neq_implies_less)
    qed
    then have "best_free st B s t" using fr [OF 3(2)] 3(3) by (simp add: best_free_def)
    then show thesis using fit 3 fr [OF 3(2)] by blast
  qed
qed

text \<open>The memory an allocation of \<open>n\<close> bytes may obtain.\<close>

abbreviation need :: "u32 \<Rightarrow> nat" where "need n \<equiv> unat (round_up 31 n)"

definition fresh :: "ptr option \<Rightarrow> u32 \<Rightarrow> pool \<Rightarrow> ptr set \<Rightarrow> bool" where
  "fresh brk n st M \<longleftrightarrow> brk_region brk (need n) st \<inter> M = {} \<and> 0 \<notin> brk_region brk (need n) st"

lemma poolalloc_ok:
  assumes ok: "pool_ok st B E M T" and q: "pquanta st = 31" "32 dvd pchunk st" and n: "unat n + 47 < 2 ^ 31" and brk: "fresh brk n st M"
  shows "\<exists>v st' B' E' T'. poolalloc brk n st = Inr (v, st') \<and> pool_ok st' B' E' (M \<union> brk_region brk (need n) st) T' \<and>
    same_conf st st' \<and> kept st st' (allocated st B) \<and>
    (v = 0 \<and> allocated st' B' = allocated st B \<and> none_free st B (need n) \<or>
     (\<exists>b. v = B2D b \<and> b \<notin> allocated st B \<and> allocated st' B' = insert b (allocated st B) \<and> need n \<le> szs st' b \<and> mgs st' b = MAGIC_A \<and>
       (best_free st B (need n) b \<or> b \<notin> B \<and> none_free st B (need n))))"
proof -
  define st1 where "st1 = st\<lparr>nalloc := nalloc st + 1\<rparr>"
  let ?s = "need n" and ?M = "M \<union> brk_region brk (need n) st"
  note r = round_up_31 [OF n]
  have ok1: "pool_ok st1 B E M T" using ok by (simp add: st1_def)
  have z: "0 \<notin> ?M" using ok brk by (simp add: pool_ok_def tiling_def fresh_def)
  have v1: "mgs st1 = mgs st" "szs st1 = szs st" "same_conf st st1" "pquanta st1 = 31" "pchunk st1 = pchunk st" "allocated st1 B = allocated st B"
    "brk_region brk ?s st1 = brk_region brk ?s st"
    by (simp_all add: st1_def same_conf_def q allocated_def brk_region_def grow_len_def split: option.split)
  have bf: "best_free st1 B ?s b = best_free st B ?s b" "none_free st1 B ?s = none_free st B ?s" for b
    by (simp_all add: best_free_def none_free_def v1)
  have run: "poolalloc brk n st = (case best_fit (hdr st1) ?s nil (proot st1) of None \<Rightarrow> Inl Loop | Some (Exact t) \<Rightarrow> take_exact t st1
      | Some (Fit q) \<Rightarrow> if q \<noteq> nil then take_fit q ?s st1 else pool_grow brk ?s st1)"
    using r(3) unfolding poolalloc_def Let_def q(1) st1_def [symmetric] by simp
  have kp: "kept st st' S" if "kept st1 st' S" for st' S using that by (simp add: kept_def v1)
  have fr: "t \<in> B" "mgs st t = MAGIC_F" "t \<notin> allocated st B" if "t \<in> set (flat T)" for t
    using that pool_okD(3) [OF ok] by (auto simp: allocated_def)
  have dv: "unat (pquanta st1) + 1 dvd ?s" "unat (pquanta st1) + 1 dvd pchunk st1" using r(1) q v1(4,5) by simp_all
  show ?thesis
  proof (rule best_fit_finds [OF ok1, of ?s])
    fix t assume t: "best_fit (hdr st1) ?s 0 (proot st1) = Some (Exact t)" "t \<in> set (flat T)" "szs st1 t = ?s" "best_free st1 B ?s t"
    obtain st' T' where a: "take_exact t st1 = Inr (B2D t, st')" "pool_ok st' B E M T'" "mgs st' = (mgs st1)(t := MAGIC_A)"
      "szs st' = szs st1" "same_conf st1 st'"
      using take_exact_ok [OF ok1 t(2)] by blast
    have b: "allocated st' B = insert t (allocated st B)" using fr [OF t(2)] by (auto simp: allocated_def a(3) v1)
    have k: "kept st st' (allocated st B)" using fr [OF t(2)] by (auto simp: kept_def a(3,4) v1)
    have e: "?s \<le> szs st' t" "mgs st' t = MAGIC_A" using t(3) by (simp_all add: a(3,4))
    show ?thesis
      by (rule exI [of _ "B2D t"], rule exI [of _ st'], rule exI [of _ B], rule exI [of _ E], rule exI [of _ T'])
        (intro conjI disjI2 exI [of _ t] refl pool_ok_mono [OF a(2) Un_upper1 z] same_conf_trans [OF v1(3) a(5)] k b e fr(3) [OF t(2)] disjI1 t(4) [unfolded bf],
          simp add: run t(1) a(1))
  next
    fix t assume t: "best_fit (hdr st1) ?s 0 (proot st1) = Some (Fit t)" "t \<in> set (flat T)" "t \<noteq> 0" "?s < szs st1 t" "best_free st1 B ?s t"
    obtain st' B' T' where a: "take_fit t ?s st1 = Inr (B2D t, st')" "pool_ok st' B' E M T'" "allocated st' B' = insert t (allocated st1 B)"
      "kept st1 st' (allocated st1 B)" "?s \<le> szs st' t" "mgs st' t = MAGIC_A" "same_conf st1 st'"
      using take_fit_ok [OF ok1 t(2) r(4) t(4) dv(1)] by blast
    show ?thesis
      by (rule exI [of _ "B2D t"], rule exI [of _ st'], rule exI [of _ B'], rule exI [of _ E], rule exI [of _ T'])
        (intro conjI disjI2 exI [of _ t] refl pool_ok_mono [OF a(2) Un_upper1 z] same_conf_trans [OF v1(3) a(7)] kp [OF a(4) [unfolded v1(6)]]
          a(3) [unfolded v1(6)] a(5,6) fr(3) [OF t(2)] disjI1 t(5) [unfolded bf], simp add: run t(1) a(1) t(3))
  next
    assume t: "best_fit (hdr st1) ?s 0 (proot st1) = Some (Fit 0)" "none_free st1 B ?s"
    have bb: "brk_region brk ?s st1 \<inter> M = {}" "0 \<notin> brk_region brk ?s st1" using brk by (simp_all add: fresh_def v1(7))
    obtain v st' B' E' T' where a: "pool_grow brk ?s st1 = Inr (v, st')" "pool_ok st' B' E' (M \<union> brk_region brk ?s st1) T'" "same_conf st1 st'"
      "kept st1 st' (allocated st1 B)"
      "v = 0 \<and> allocated st' B' = allocated st1 B \<or> (\<exists>b. v = B2D b \<and> b \<notin> B \<and> allocated st' B' = insert b (allocated st1 B) \<and> szs st' b = ?s \<and> mgs st' b = MAGIC_A)"
      using pool_grow_ok [OF ok1 r(4) dv bb] by (elim exE conjE) (rule that; assumption)
    have c: "v = 0 \<and> allocated st' B' = allocated st B \<and> none_free st B ?s \<or>
      (\<exists>b. v = B2D b \<and> b \<notin> allocated st B \<and> allocated st' B' = insert b (allocated st B) \<and> ?s \<le> szs st' b \<and> mgs st' b = MAGIC_A \<and>
       (best_free st B ?s b \<or> b \<notin> B \<and> none_free st B ?s))"
      using a(5)
    proof (elim disjE exE conjE)
      fix b assume "v = B2D b" "b \<notin> B" "allocated st' B' = insert b (allocated st1 B)" "szs st' b = ?s" "mgs st' b = MAGIC_A"
      then show ?thesis using t(2) [unfolded bf] v1(6) by (intro disjI2 exI [of _ b]) (simp add: allocated_def)
    qed (use t(2) [unfolded bf] v1(6) in simp)
    show ?thesis
      by (rule exI [of _ v], rule exI [of _ st'], rule exI [of _ B'], rule exI [of _ E'], rule exI [of _ T'])
        (intro conjI a(2) [unfolded v1(7)] same_conf_trans [OF v1(3) a(3)] kp [OF a(4) [unfolded v1(6)]] c, simp add: run t(1) a(1))
  qed
qed

end
