(* ===== verification/PoolRun.thy ===== *)
theory PoolRun
  imports PoolInv Steps
begin

text \<open>
  Pools as clients see them: allocation, freeing, hiding blocks from the collector and writing into
  blocks, in any order; what every such run keeps.
\<close>

section \<open>Runs of a pool\<close>

text \<open>
  A state is a pool, the data pointers clients hold and the memory offered by \<open>sbrk\<close>. A client may write
  anything between the header and the tail of a block it holds.
\<close>

definition area :: "pool \<Rightarrow> ptr \<Rightarrow> ptr set" where
  "area st v = {v..<v + (bsize (hdr st (v - 8)) - 16)}"

definition client_writes :: "pool \<Rightarrow> ptr \<Rightarrow> pool \<Rightarrow> bool" where
  "client_writes st v st' \<longleftrightarrow> st' = st\<lparr>hdr := hdr st', btl := btl st'\<rparr> \<and>
     magic (hdr st' (v - 8)) = magic (hdr st (v - 8)) \<and> bsize (hdr st' (v - 8)) = bsize (hdr st (v - 8)) \<and>
     (\<forall>x. x < v - 8 \<or> v - 8 + bsize (hdr st (v - 8)) \<le> x \<longrightarrow> hdr st' x = hdr st x) \<and>
     (\<forall>x. x \<le> v - 8 \<or> v - 8 + bsize (hdr st (v - 8)) \<le> x \<longrightarrow> btl st' x = btl st x)"

type_synonym psys = "pool \<times> ptr set \<times> ptr set"

inductive pool_step :: "psys \<Rightarrow> psys \<Rightarrow> bool" where
  Alloc: "fresh brk n st M \<Longrightarrow> unat n + 47 < 2 ^ 31 \<Longrightarrow> poolalloc brk n st = Inr (v, st') \<Longrightarrow>
    pool_step (st, live, M) (st', (if v = nil then live else insert v live), M \<union> brk_region brk (need n) st)"
| Free: "v \<in> live \<Longrightarrow> poolfree v st = Inr st' \<Longrightarrow> pool_step (st, live, M) (st', live - {v}, M)"
| Hide: "v \<in> live \<Longrightarrow> poolimmutable v st = Inr st' \<Longrightarrow> pool_step (st, live, M) (st', live, M)"
| Show: "v \<in> live \<Longrightarrow> poolmutable v st = Inr st' \<Longrightarrow> pool_step (st, live, M) (st', live, M)"
| Write: "v \<in> live \<Longrightarrow> client_writes st v st' \<Longrightarrow> pool_step (st, live, M) (st', live, M)"

definition pool_start :: "psys \<Rightarrow> bool" where
  "pool_start s \<longleftrightarrow> (case s of (st, live, M) \<Rightarrow> proot st = nil \<and> pquanta st = 31 \<and> 32 dvd pchunk st \<and> live = {} \<and> M = {})"

definition pool_inv :: "psys \<Rightarrow> bool" where
  "pool_inv s \<longleftrightarrow> (case s of (st, live, M) \<Rightarrow> pquanta st = 31 \<and> 32 dvd pchunk st \<and>
     (\<exists>B E T. pool_ok st B E M T \<and> live = B2D ` allocated st B))"

lemma inj_B2D: "B2D x = B2D y \<longleftrightarrow> x = y" "B2D x \<noteq> 0" "B2D x - 8 = x" "0 < B2D x"
  by (simp_all add: B2D_def)

lemma pool_invE:
  assumes "pool_inv (st, live, M)"
  obtains B E T where "pquanta st = 31" "32 dvd pchunk st" "pool_ok st B E M T" "live = B2D ` allocated st B"
  using assms by (auto simp: pool_inv_def)

lemma pool_start_inv: "pool_start s \<Longrightarrow> pool_inv s"
proof (cases s)
  case (fields st live M)
  assume "pool_start s"
  then have s: "proot st = nil" "pquanta st = 31" "32 dvd pchunk st" "live = {}" "M = {}" using fields by (simp_all add: pool_start_def)
  have "pool_ok st {} {} {} Leaf" using s(1) by (simp add: pool_ok_def tiling_def tree_ok_def keys_def)
  then show ?thesis using s fields unfolding pool_inv_def by (auto simp: allocated_def)
qed

lemma keep_conf: "same_conf st st' \<Longrightarrow> pquanta st = 31 \<Longrightarrow> 32 dvd pchunk st \<Longrightarrow> pquanta st' = 31 \<and> 32 dvd pchunk st'"
  by (simp add: same_conf_def)

text \<open>Marking an allocated block.\<close>

lemma mark_ok:
  assumes ok: "pool_ok st B E M T" and b: "b \<in> allocated st B" and m: "m \<in> {MAGIC_A, MAGIC_I}"
  shows "\<exists>st'. put b (\<lambda>x. x\<lparr>magic := m\<rparr>) st = Inr st' \<and> pool_ok st' B E M T \<and> allocated st' B = allocated st B \<and> same_conf st st'"
proof -
  note P = pool_okD [OF ok]
  have bB: "b \<in> B" "mgs st b \<noteq> MAGIC_F" using b by (auto simp: allocated_def)
  note Q = tilingD [OF P(1) bB(1)]
  obtain st' where p: "put b (\<lambda>x. x\<lparr>magic := m\<rparr>) st = Inr st'" using Q(11) by (simp add: put_eq)
  note w = put_views [OF p]
  have mg: "mgs st' = (mgs st)(b := m)" using w(1) by simp
  have "szs st' = (szs st)(b := szs st b)" using w(2) by (simp add: szs_def)
  then have sz: "szs st' = szs st" by (simp only: fun_upd_triv)
  have mF: "m \<noteq> MAGIC_F" using m by auto
  have "tiling (unat (pquanta st') + 1) (mgs st') (szs st') (btl st') B E M"
    unfolding mg sz w(3,5) by (rule tiling_mark [OF P(1) bB(1)]) (use m in auto)
  moreover have "tree_ok st' T" by (rule tree_ok_cong [OF P(2) _ w(4)]) (use P(3) bB in \<open>auto intro!: w(9)\<close>)
  moreover have "set (flat T) = {x \<in> B. mgs st' x = MAGIC_F}" unfolding P(3) mg using bB mF by auto
  moreover have "allocated st' B = allocated st B" unfolding allocated_def mg using bB mF by auto
  ultimately show ?thesis using p w by (simp add: pool_ok_def same_conf_def)
qed

text \<open>What clients write does not matter.\<close>

lemma client_ok:
  assumes ok: "pool_ok st B E M T" and b: "b \<in> allocated st B" and c: "client_writes st (B2D b) st'"
  shows "pool_ok st' B E M T \<and> allocated st' B = allocated st B \<and> same_conf st st'"
proof -
  note P = pool_okD [OF ok]
  have bB: "b \<in> B" "mgs st b \<noteq> MAGIC_F" using b by (auto simp: allocated_def)
  note Q = tilingD [OF P(1) bB(1)]
  have e: "st' = st\<lparr>hdr := hdr st', btl := btl st'\<rparr>" and at: "magic (hdr st' b) = magic (hdr st b)" "bsize (hdr st' b) = bsize (hdr st b)"
    and off: "\<And>x. x < b \<or> b + szs st b \<le> x \<Longrightarrow> hdr st' x = hdr st x" "\<And>x. x \<le> b \<or> b + szs st b \<le> x \<Longrightarrow> btl st' x = btl st x"
    using c unfolding client_writes_def inj_B2D szs_def by blast+
  have conf: "pquanta st' = pquanta st" "pchunk st' = pchunk st" "pmax st' = pmax st" "proot st' = proot st" by (subst e, simp)+
  have same: "hdr st' x = hdr st x" "btl st' x = btl st x" if "x \<in> B \<union> E" "x \<noteq> b" for x
  proof -
    have "x < b \<or> b + szs st b \<le> x" using Q(10) [OF that(1)] that(2) by linarith
    then show "hdr st' x = hdr st x" "btl st' x = btl st x" using off by auto
  qed
  have v: "mgs st' x = mgs st x \<and> szs st' x = szs st x \<and> btl st' x = btl st x" if "x \<in> B \<union> E" for x
    using same [OF that] at off(2) [of b] by (cases "x = b") (simp_all add: mgs_def szs_def)
  have "tiling (unat (pquanta st') + 1) (mgs st') (szs st') (btl st') B E M"
    unfolding conf by (rule tiling_cong [OF P(1) v])
  moreover have "tree_ok st' T"
    by (rule tree_ok_cong [OF P(2) _ conf(4)]) (use P(3) bB(2) in \<open>auto intro!: same(1)\<close>)
  moreover have "allocated st' B = allocated st B" using v by (auto simp: allocated_def)
  moreover have "set (flat T) = {x \<in> B. mgs st' x = MAGIC_F}" unfolding P(3) using v by auto
  ultimately show ?thesis using conf by (simp add: pool_ok_def same_conf_def)
qed

lemma D2B_live: "pool_ok st B E M T \<Longrightarrow> b \<in> allocated st B \<Longrightarrow> D2B (B2D b) st = Inr b"
  using tilingD(4) [OF pool_okD(1), of st B E M T b] by (auto simp: D2B_def inj_B2D allocated_def mgs_def)

lemma pool_step_inv:
  assumes "pool_inv s" and "pool_step s t"
  shows "pool_inv t"
  using assms(2,1)
proof (induction rule: pool_step.induct)
  case (Alloc brk n st M v st' live)
  obtain B E T where s: "pquanta st = 31" "32 dvd pchunk st" "pool_ok st B E M T" "live = B2D ` allocated st B" using Alloc(4) by (rule pool_invE)
  obtain B' E' T' where a: "pool_ok st' B' E' (M \<union> brk_region brk (need n) st) T'" "same_conf st st'"
    "v = 0 \<and> allocated st' B' = allocated st B \<or> (\<exists>b. v = B2D b \<and> allocated st' B' = insert b (allocated st B))"
    using poolalloc_ok [OF s(3,1,2) Alloc(2,1)] Alloc(3) by (elim exE conjE) (rule that; auto)
  have "(if v = nil then live else insert v live) = B2D ` allocated st' B'" using a(3)
  proof (elim disjE exE conjE)
    fix b assume "v = B2D b" "allocated st' B' = insert b (allocated st B)"
    moreover then have "v \<noteq> 0" using inj_B2D(2) by metis
    ultimately show ?thesis using s(4) by simp
  qed (use s(4) in simp)
  then show ?case using keep_conf [OF a(2) s(1,2)] a(1) unfolding pool_inv_def by auto
next
  case (Free v live st st' M)
  obtain B E T where s: "pquanta st = 31" "32 dvd pchunk st" "pool_ok st B E M T" "live = B2D ` allocated st B" using Free(3) by (rule pool_invE)
  obtain b where b: "b \<in> allocated st B" "v = B2D b" using Free(1) s(4) by auto
  obtain B' T' where a: "pool_ok st' B' E M T'" "allocated st' B' = allocated st B - {b}" "same_conf st st'"
    using poolfree_ok [OF s(3) b(1)] Free(2) b(2) by auto
  have "live - {v} = B2D ` allocated st' B'" unfolding s(4) a(2) b(2) using inj_B2D(1) by auto
  then show ?case using keep_conf [OF a(3) s(1,2)] a(1) unfolding pool_inv_def by auto
next
  case (Hide v live st st' M)
  obtain B E T where s: "pquanta st = 31" "32 dvd pchunk st" "pool_ok st B E M T" "live = B2D ` allocated st B" using Hide(3) by (rule pool_invE)
  obtain b where b: "b \<in> allocated st B" "v = B2D b" using Hide(1) s(4) by auto
  show ?case using mark_ok [OF s(3) b(1), of MAGIC_I] Hide(2) keep_conf [OF _ s(1,2)]
    by (auto simp: poolimmutable_def b(2) D2B_live [OF s(3) b(1)] pool_inv_def s(4))
next
  case (Show v live st st' M)
  obtain B E T where s: "pquanta st = 31" "32 dvd pchunk st" "pool_ok st B E M T" "live = B2D ` allocated st B" using Show(3) by (rule pool_invE)
  obtain b where b: "b \<in> allocated st B" "v = B2D b" using Show(1) s(4) by auto
  show ?case using mark_ok [OF s(3) b(1), of MAGIC_A] Show(2) keep_conf [OF _ s(1,2)]
    by (auto simp: poolmutable_def b(2) D2B_live [OF s(3) b(1)] pool_inv_def s(4))
next
  case (Write v live st st' M)
  obtain B E T where s: "pquanta st = 31" "32 dvd pchunk st" "pool_ok st B E M T" "live = B2D ` allocated st B" using Write(3) by (rule pool_invE)
  obtain b where b: "b \<in> allocated st B" "v = B2D b" using Write(1) s(4) by auto
  show ?case using client_ok [OF s(3) b(1) Write(2) [unfolded b(2)]] s keep_conf [OF _ s(1,2)] unfolding pool_inv_def by auto
qed

interpretation prun: machine pool_start pool_step pool_inv
  by unfold_locales (rule pool_start_inv pool_step_inv; assumption)+

section \<open>Properties\<close>

definition pool0 :: pool where   \<comment> \<open>an empty pool with chunks of 64 bytes\<close>
  "pool0 = \<lparr>pmax = 4096, pquanta = 31, pchunk = 64, pcur = 0, parena = 0, proot = 0, pchain = 0, nalloc = 0, nfree = 0, nbrk = 0,
     hdr = (\<lambda>_. \<lparr>magic = 0, bsize = 0, bhl = 0, bhr = 0, bhp = 0, bhv = 0, bhf = 0, clink = 0, csize = 0\<rparr>), btl = (\<lambda>_. 0)\<rparr>"

definition pool1 :: pool where "pool1 = (case poolalloc (Some 64) 20 pool0 of Inr (v, st) \<Rightarrow> st | Inl _ \<Rightarrow> pool0)"
definition pool2 :: pool where "pool2 = (case poolalloc (Some 512) 40 pool1 of Inr (v, st) \<Rightarrow> st | Inl _ \<Rightarrow> pool0)"

lemma pool1_vals: "proot pool1 = 0" "parena pool1 = 100" "pmax pool1 = 4096" "pquanta pool1 = 31" "pchunk pool1 = 64"
  by code_simp+

lemma pool_run1: "poolalloc (Some 64) 20 pool0 = Inr (104, pool1)"
proof -
  have "case poolalloc (Some 64) 20 pool0 of Inr (v, st) \<Rightarrow> v = 104 | Inl _ \<Rightarrow> False" by code_simp
  then show ?thesis by (auto simp: pool1_def split: sum.splits)
qed

lemma need_vals: "need 20 = 64" "need 40 = 64" "sint (round_up 31 40) = 64" by code_simp+

lemma pool_run2: "poolalloc (Some 512) 40 pool1 = Inr (552, pool2)" "bsize (hdr pool2 544) = 64"
proof -
  note run = poolalloc_def pool1_vals Let_def need_vals best_fit.simps pool_grow_def pool_chunk_def put_def get_def B2D_def set_tail_def
  have "\<exists>st. poolalloc (Some 512) 40 pool1 = Inr (552, st)" by (simp add: run)
  then show "poolalloc (Some 512) 40 pool1 = Inr (552, pool2)" by (auto simp: pool2_def)
  show "bsize (hdr pool2 544) = 64" unfolding pool2_def by (simp add: run)
qed

lemma live_area:
  assumes ok: "pool_ok st B E M T" and q: "pquanta st = 31" and b: "b \<in> allocated st B"
  shows "area st (B2D b) \<subseteq> {b..<b + szs st b}" "area st (B2D b) \<subseteq> M" "card (area st (B2D b)) + 16 = szs st b"
    "msize (B2D b) st = Inr (int (card (area st (B2D b))))"
proof -
  have bB: "b \<in> B" using b by (simp add: allocated_def)
  note Q = tilingD [OF pool_okD(1) [OF ok] bB]
  have e: "area st (B2D b) = {b + 8..<b + 8 + (szs st b - 16)}" by (simp add: area_def inj_B2D szs_def) (simp add: B2D_def)
  have "32 dvd szs st b" using Q(2) q by simp
  then have s: "32 \<le> szs st b" using Q(1) by (auto elim: dvdE)
  show i: "area st (B2D b) \<subseteq> {b..<b + szs st b}" unfolding e using s by auto
  then show "area st (B2D b) \<subseteq> M" using Q(3) by blast
  show c: "card (area st (B2D b)) + 16 = szs st b" unfolding e using s by simp
  show "msize (B2D b) st = Inr (int (card (area st (B2D b))))"
    using c by (simp add: msize_def D2B_live [OF ok b] BHDRSIZE_def szs_def)
qed

text \<open>
  C30. The blocks clients hold lie inside the memory obtained, their usable parts (the \<open>msize\<close> bytes from the data
  pointer) never overlap, whatever sequence of allocations, frees and writes led to the state.
\<close>

theorem live_blocks_disjoint:
  assumes "pool_start s" and "pool_step\<^sup>*\<^sup>* s (st, live, M)" and "v \<in> live"
  shows "v \<noteq> nil \<and> area st v \<subseteq> M \<and> msize v st = Inr (int (card (area st v))) \<and>
    (\<forall>w \<in> live. w \<noteq> v \<longrightarrow> area st v \<inter> area st w = {})"
proof -
  have "pool_inv (st, live, M)" by (rule prun.run_inv [OF assms(1,2)])
  then obtain B E T where s: "pquanta st = 31" "32 dvd pchunk st" "pool_ok st B E M T" "live = B2D ` allocated st B" by (rule pool_invE)
  obtain b where b: "b \<in> allocated st B" "v = B2D b" using assms(3) s(4) by auto
  have "area st v \<inter> area st w = {}" if w: "w \<in> live" "w \<noteq> v" for w
  proof -
    obtain c where c: "c \<in> allocated st B" "w = B2D c" using w(1) s(4) by auto
    have "b \<in> B" "c \<in> B" "b \<noteq> c" using b c w(2) by (auto simp: allocated_def)
    then have "{b..<b + szs st b} \<inter> {c..<c + szs st c} = {}" by (rule tiling_disjoint [OF pool_okD(1) [OF s(3)]])
    then show ?thesis using live_area(1) [OF s(3,1) b(1)] live_area(1) [OF s(3,1) c(1)] b(2) c(2) by blast
  qed
  then show ?thesis using live_area [OF s(3,1) b(1)] b(2) inj_B2D(2) by simp
qed

abbreviation brk1 :: "ptr set" where "brk1 \<equiv> {64..<164}"
abbreviation brk2 :: "ptr set" where "brk2 \<equiv> {64..<164} \<union> {512..<612}"

lemma fresh_brks:
  "fresh (Some 64) 20 pool0 {}" "brk_region (Some 64) (need 20) pool0 = brk1"
  "fresh (Some 512) 40 pool1 brk1" "brk_region (Some 512) (need 40) pool1 = {512..<612}"
  by (simp_all add: fresh_def brk_region_def grow_len_def need_vals pool1_vals) (simp_all add: pool0_def)

lemma pool1_reached: "pool_start (pool0, {}, {})" "pool_step\<^sup>*\<^sup>* (pool0, {}, {}) (pool1, {104}, brk1)"
proof -
  show "pool_start (pool0, {}, {})" by (simp add: pool_start_def pool0_def)
  have "pool_step (pool0, {}, {}) (pool1, (if 104 = nil then {} else insert 104 {}), {} \<union> brk_region (Some 64) (need 20) pool0)"
    by (rule pool_step.Alloc [OF fresh_brks(1) _ pool_run1]) simp
  then show "pool_step\<^sup>*\<^sup>* (pool0, {}, {}) (pool1, {104}, brk1)" unfolding fresh_brks(2) by (simp add: r_into_rtranclp)
qed

lemma pool2_reached: "pool_step\<^sup>*\<^sup>* (pool0, {}, {}) (pool2, {552, 104}, brk2)"
proof -
  have "pool_step (pool1, {104}, brk1) (pool2, (if 552 = nil then {104} else insert 552 {104}), brk1 \<union> brk_region (Some 512) (need 40) pool1)"
    by (rule pool_step.Alloc [OF fresh_brks(3) _ pool_run2(1)]) simp
  then have "pool_step (pool1, {104}, brk1) (pool2, {552, 104}, brk2)" unfolding fresh_brks(4) by simp
  then show ?thesis by (rule rtranclp.rtrancl_into_rtrancl [OF pool1_reached(2)])
qed

theorem live_blocks_disjoint_witness: "area pool2 552 \<inter> area pool2 104 = {} \<and> area pool2 552 \<noteq> {}"
proof -
  have "area pool2 552 \<inter> area pool2 104 = {}" using live_blocks_disjoint [OF pool1_reached(1) pool2_reached, of 552] by simp
  then show ?thesis using pool_run2(2) by (simp add: area_def)
qed

lemma kept_area:
  assumes "kept st st' S" and "b \<in> S"
  shows "area st' (B2D b) = area st (B2D b)"
  using assms unfolding kept_def area_def inj_B2D szs_def by (metis (no_types))

lemma need_fits: "unat n + 47 < 2 ^ 31 \<Longrightarrow> need n \<le> s \<Longrightarrow> unat n \<le> s - 16"
  using round_up_31(2) [of n] by linarith

text \<open>
  C31. Allocation returns: it keeps every block in use as it was and gives one that overlaps none of them and has room
  for the bytes asked for; if some free block is large enough it is the smallest such block that is used, and only
  if none is the pool grows or the answer is \<open>nil\<close>.
\<close>

theorem poolalloc_best_fit:
  assumes "pool_start s" and "pool_step\<^sup>*\<^sup>* s (st, live, M)" and "unat n + 47 < 2 ^ 31" and "fresh brk n st M"
  shows "\<exists>v st' B E T. poolalloc brk n st = Inr (v, st') \<and> pool_ok st B E M T \<and> live = B2D ` allocated st B \<and>
    (\<forall>w \<in> live. area st' w = area st w) \<and>
    (v \<noteq> nil \<longrightarrow> v \<notin> live \<and> unat n \<le> card (area st' v) \<and> (\<forall>w \<in> live. area st' v \<inter> area st' w = {})) \<and>
    (if none_free st B (need n) then v = nil \<or> v - 8 \<notin> B else best_free st B (need n) (v - 8))"
proof -
  have i: "pool_inv (st, live, M)" by (rule prun.run_inv [OF assms(1,2)])
  then obtain B E T where s: "pquanta st = 31" "32 dvd pchunk st" "pool_ok st B E M T" "live = B2D ` allocated st B" by (rule pool_invE)
  obtain v st' B' E' T' where a: "poolalloc brk n st = Inr (v, st')" "pool_ok st' B' E' (M \<union> brk_region brk (need n) st) T'" "same_conf st st'"
    "kept st st' (allocated st B)"
    "v = 0 \<and> allocated st' B' = allocated st B \<and> none_free st B (need n) \<or>
     (\<exists>b. v = B2D b \<and> b \<notin> allocated st B \<and> allocated st' B' = insert b (allocated st B) \<and> need n \<le> szs st' b \<and> mgs st' b = MAGIC_A \<and>
       (best_free st B (need n) b \<or> b \<notin> B \<and> none_free st B (need n)))"
    using poolalloc_ok [OF s(3,1,2) assms(3,4)] by (elim exE conjE) (rule that; assumption)
  have keep: "\<forall>w \<in> live. area st' w = area st w" unfolding s(4) using kept_area [OF a(4)] by blast
  have "(v \<noteq> nil \<longrightarrow> v \<notin> live \<and> unat n \<le> card (area st' v) \<and> (\<forall>w \<in> live. area st' v \<inter> area st' w = {})) \<and>
    (if none_free st B (need n) then v = nil \<or> v - 8 \<notin> B else best_free st B (need n) (v - 8))"
  proof (cases "v = 0")
    case True
    then have "none_free st B (need n)" using a(5) inj_B2D(2) by metis
    then show ?thesis using True by simp
  next
    case False
    then obtain b where b: "v = B2D b" "b \<notin> allocated st B" "allocated st' B' = insert b (allocated st B)" "need n \<le> szs st' b"
      "best_free st B (need n) b \<or> b \<notin> B \<and> none_free st B (need n)" using a(5) by blast
    have q: "pquanta st' = 31" using a(3) s(1) by (simp add: same_conf_def)
    have bA: "b \<in> allocated st' B'" using b(3) by simp
    have "unat n \<le> card (area st' v)" using live_area(3) [OF a(2) q bA] need_fits [OF assms(3) b(4)] unfolding b(1) by linarith
    moreover have "area st' v \<inter> area st' w = {}" if w: "w \<in> live" for w
    proof -
      obtain c where c: "c \<in> allocated st B" "w = B2D c" using w s(4) by auto
      have "c \<in> allocated st' B'" "c \<noteq> b" using b(2,3) c(1) by auto
      then have "c \<in> allocated st' B'" "{b..<b + szs st' b} \<inter> {c..<c + szs st' c} = {}"
        using tiling_disjoint [OF pool_okD(1) [OF a(2)], of b c] bA by (simp_all add: allocated_def)
      then show ?thesis using live_area(1) [OF a(2) q bA] live_area(1) [OF a(2) q, of c] b(1) c(2) by blast
    qed
    moreover have "v \<notin> live" using b(1,2) s(4) inj_B2D(1) by auto
    moreover have "\<not> none_free st B (need n)" if "best_free st B (need n) b"
      using that unfolding best_free_def none_free_def by (metis leD)
    ultimately show ?thesis using b(1,5) inj_B2D(3) by auto
  qed
  then show ?thesis using a(1) s(3,4) keep by blast
qed

theorem poolalloc_best_fit_witness: "\<exists>v st'. poolalloc (Some 512) 40 pool1 = Inr (v, st') \<and> v = 552 \<and> 40 \<le> card (area st' 552)"
proof -
  have n: "unat (40 :: u32) + 47 < 2 ^ 31" by simp
  obtain v st' where "poolalloc (Some 512) 40 pool1 = Inr (v, st')" "v \<noteq> nil \<longrightarrow> unat (40 :: u32) \<le> card (area st' v)"
    using poolalloc_best_fit [OF pool1_reached n fresh_brks(3)] by (elim exE conjE) (rule that, assumption, simp)
  then show ?thesis using pool_run2(1) by simp
qed

text \<open>
  C32. The blocks of a pool tile the chunks: sizes are multiples of 32, the word before the end of a block leads back to its
  header, each block ends where the next block or the end mark of its chunk starts, and no two neighbours are both free:
  freeing joins them.
\<close>

theorem pool_coalesced:
  assumes "pool_start s" and "pool_step\<^sup>*\<^sup>* s (st, live, M)"
  shows "\<exists>B E. live = B2D ` {b \<in> B. magic (hdr st b) \<noteq> MAGIC_F} \<and> (\<forall>e \<in> E. magic (hdr st e) = MAGIC_E) \<and>
    (\<forall>b \<in> B. 32 \<le> bsize (hdr st b) \<and> 32 dvd bsize (hdr st b) \<and> {b..<b + bsize (hdr st b)} \<subseteq> M \<and>
      magic (hdr st b) \<in> {MAGIC_A, MAGIC_I, MAGIC_F} \<and> b + bsize (hdr st b) \<in> B \<union> E \<and> btl st (b + bsize (hdr st b)) = b \<and>
      \<not> (magic (hdr st b) = MAGIC_F \<and> magic (hdr st (b + bsize (hdr st b))) = MAGIC_F))"
proof -
  have "pool_inv (st, live, M)" by (rule prun.run_inv [OF assms])
  then obtain B E T where s: "pquanta st = 31" "pool_ok st B E M T" "live = B2D ` allocated st B" by (rule pool_invE)
  note P = pool_okD(1) [OF s(2)]
  have m: "mgs st = (\<lambda>x. magic (hdr st x))" "szs st = (\<lambda>x. bsize (hdr st x))" by (simp_all add: mgs_def szs_def)
  have "32 \<le> bsize (hdr st b) \<and> 32 dvd bsize (hdr st b) \<and> {b..<b + bsize (hdr st b)} \<subseteq> M \<and>
      magic (hdr st b) \<in> {MAGIC_A, MAGIC_I, MAGIC_F} \<and> b + bsize (hdr st b) \<in> B \<union> E \<and> btl st (b + bsize (hdr st b)) = b \<and>
      \<not> (magic (hdr st b) = MAGIC_F \<and> magic (hdr st (b + bsize (hdr st b))) = MAGIC_F)" if "b \<in> B" for b
  proof -
    note Q = tilingD [OF P that, unfolded m]
    have "32 dvd bsize (hdr st b)" using Q(2) s(1) by simp
    moreover then have "32 \<le> bsize (hdr st b)" using Q(1) by (auto elim: dvdE)
    ultimately show ?thesis using Q(3-6,9) by blast
  qed
  moreover have "\<forall>e \<in> E. magic (hdr st e) = MAGIC_E" using P unfolding tiling_def m by blast
  moreover have "live = B2D ` {b \<in> B. magic (hdr st b) \<noteq> MAGIC_F}" using s(3) by (simp add: allocated_def m)
  ultimately show ?thesis by blast
qed

theorem pool_coalesced_witness:
  "\<exists>B. {552, 104} = B2D ` {b \<in> B. magic (hdr pool2 b) \<noteq> MAGIC_F} \<and> (\<forall>b \<in> B. 32 dvd bsize (hdr pool2 b))"
  using pool_coalesced [OF pool1_reached(1) pool2_reached] by blast

text \<open>
  C33. Freeing a block a client holds succeeds and leaves the other blocks in use as they were; freeing it a second time
  is detected by the header check and panics.
\<close>

theorem poolfree_once:
  assumes "pool_start s" and "pool_step\<^sup>*\<^sup>* s (st, live, M)" and "v \<in> live"
  shows "\<exists>st'. poolfree v st = Inr st' \<and> (\<forall>w \<in> live - {v}. area st' w = area st w \<and> D2B w st' = Inr (w - 8)) \<and>
    poolfree v st' = Inl (Raise ''alloc:D2B'')"
proof -
  have "pool_inv (st, live, M)" by (rule prun.run_inv [OF assms(1,2)])
  then obtain B E T where s: "pquanta st = 31" "pool_ok st B E M T" "live = B2D ` allocated st B" by (rule pool_invE)
  obtain b where b: "b \<in> allocated st B" "v = B2D b" using assms(3) s(3) by auto
  obtain st' B' T' where a: "poolfree v st = Inr st'" "pool_ok st' B' E M T'" "allocated st' B' = allocated st B - {b}"
    "kept st st' (allocated st B - {b})" "mgs st' b \<in> {0, MAGIC_F}"
    using poolfree_ok [OF s(2) b(1)] b(2) by auto
  have "area st' w = area st w \<and> D2B w st' = Inr (w - 8)" if w: "w \<in> live - {v}" for w
  proof -
    obtain c where "c \<in> allocated st B" "w = B2D c" "w \<noteq> B2D b" using w unfolding s(3) b(2) by blast
    then have c: "c \<in> allocated st B - {b}" "w = B2D c" by auto
    have "D2B (B2D c) st' = Inr c" by (rule D2B_live [OF a(2)]) (use c(1) a(3) in simp)
    then show ?thesis using kept_area [OF a(4) c(1)] c(2) inj_B2D(3) by simp
  qed
  moreover have "poolfree v st' = Inl (Raise ''alloc:D2B'')"
    using a(5) by (auto simp: poolfree_def D2B_def b(2) inj_B2D mgs_def)
  ultimately show ?thesis using a(1) by blast
qed

theorem poolfree_once_witness: "\<exists>st'. poolfree 104 pool2 = Inr st' \<and> area st' 552 = area pool2 552 \<and> poolfree 104 st' = Inl (Raise ''alloc:D2B'')"
  using poolfree_once [OF pool1_reached(1) pool2_reached, of 104] by force

end
