(* ===== verification/Digest.thy ===== *)
theory Digest
  imports Prelude
begin

text \<open>
  The message digests of \<^verbatim>\<open>crypt/md5.c\<close> and \<^verbatim>\<open>crypt/sha.c\<close>: a state that takes the message in pieces of any
  length, and the digest of the whole when the last piece is given.
\<close>

section \<open>The state\<close>

text \<open>
  \<open>DigestState\<close>. A pointer with a length is the list of the bytes; lengths are below $2^{31}$. The state is
  given by the caller, zeroed before the first call, or allocated zeroed by it.
\<close>

record dstate =
  dlen :: u32
  dst :: "u32 list"
  dbuf :: "u8 list"
  dblen :: nat
  malloced :: bool
  seeded :: bool

definition dzero :: "bool \<Rightarrow> dstate" where
  "dzero m = \<lparr>dlen = 0, dst = replicate 5 0, dbuf = replicate 128 0, dblen = 0, malloced = m, seeded = False\<rparr>"

definition splice :: "nat \<Rightarrow> 'a list \<Rightarrow> 'a list \<Rightarrow> 'a list" where   \<comment> \<open>\<open>memmove(b + n, xs, len)\<close>\<close>
  "splice n xs b = take n b @ xs @ drop (n + length xs) b"

definition seed :: "u32 list \<Rightarrow> dstate \<Rightarrow> dstate" where
  "seed h s = (if seeded s then s else s\<lparr>dst := splice 0 h (dst s), seeded := True\<rparr>)"

definition fill_partial :: "(u8 list \<Rightarrow> dstate \<Rightarrow> dstate) \<Rightarrow> u8 list \<Rightarrow> dstate \<Rightarrow> u8 list \<times> dstate" where
  "fill_partial blk p s =
    (if dblen s = 0 then (p, s)
     else let i = (if length p < 64 - dblen s then length p else 64 - dblen s);
              s1 = s\<lparr>dbuf := splice (dblen s) (take i p) (dbuf s), dblen := dblen s + i\<rparr>
          in (drop i p, if dblen s1 = 64 then (blk (take 64 (dbuf s1)) s1)\<lparr>dblen := 0\<rparr> else s1))"

definition whole_blocks :: "(u8 list \<Rightarrow> dstate \<Rightarrow> dstate) \<Rightarrow> u8 list \<Rightarrow> dstate \<Rightarrow> u8 list \<times> dstate" where
  "whole_blocks blk p s =
    (let i = length p div 64 * 64 in if i \<noteq> 0 then (drop i p, blk (take i p) s) else (p, s))"

definition save_rest :: "u8 list \<Rightarrow> dstate \<Rightarrow> dstate" where
  "save_rest p s = (if p \<noteq> [] then s\<lparr>dbuf := splice 0 p (dbuf s), dblen := dblen s + length p\<rparr> else s)"

text \<open>\<open>count\<close> gives the eight bytes of the length; the padding of what is left in \<open>s->buf\<close> is written there.\<close>

definition last_blocks :: "(u8 list \<Rightarrow> dstate \<Rightarrow> dstate) \<Rightarrow> (u32 \<Rightarrow> u8 list) \<Rightarrow> u8 list \<Rightarrow> dstate \<Rightarrow> dstate" where
  "last_blocks blk count p s =
    (let q = (if dblen s \<noteq> 0 then take (dblen s) (dbuf s) else p);
         s1 = s\<lparr>dlen := dlen s + of_nat (length q)\<rparr>;
         i = (if length q < 56 then 56 - length q else 120 - length q);
         m = q @ [0x80] @ replicate (i - 1) 0 @ count (dlen s1)
     in blk m (if dblen s \<noteq> 0 then s1\<lparr>dbuf := splice 0 m (dbuf s1)\<rparr> else s1))"

section \<open>MD5\<close>

definition tab :: "(u32 \<times> nat \<times> nat) list" where
  "tab =
  [(0xd76aa478, 0, 7), (0xe8c7b756, 1, 12), (0x242070db, 2, 17), (0xc1bdceee, 3, 22),
   (0xf57c0faf, 4, 7), (0x4787c62a, 5, 12), (0xa8304613, 6, 17), (0xfd469501, 7, 22),
   (0x698098d8, 8, 7), (0x8b44f7af, 9, 12), (0xffff5bb1, 10, 17), (0x895cd7be, 11, 22),
   (0x6b901122, 12, 7), (0xfd987193, 13, 12), (0xa679438e, 14, 17), (0x49b40821, 15, 22),
   (0xf61e2562, 1, 5), (0xc040b340, 6, 9), (0x265e5a51, 11, 14), (0xe9b6c7aa, 0, 20),
   (0xd62f105d, 5, 5), (0x2441453, 10, 9), (0xd8a1e681, 15, 14), (0xe7d3fbc8, 4, 20),
   (0x21e1cde6, 9, 5), (0xc33707d6, 14, 9), (0xf4d50d87, 3, 14), (0x455a14ed, 8, 20),
   (0xa9e3e905, 13, 5), (0xfcefa3f8, 2, 9), (0x676f02d9, 7, 14), (0x8d2a4c8a, 12, 20),
   (0xfffa3942, 5, 4), (0x8771f681, 8, 11), (0x6d9d6122, 11, 16), (0xfde5380c, 14, 23),
   (0xa4beea44, 1, 4), (0x4bdecfa9, 4, 11), (0xf6bb4b60, 7, 16), (0xbebfbc70, 10, 23),
   (0x289b7ec6, 13, 4), (0xeaa127fa, 0, 11), (0xd4ef3085, 3, 16), (0x4881d05, 6, 23),
   (0xd9d4d039, 9, 4), (0xe6db99e5, 12, 11), (0x1fa27cf8, 15, 16), (0xc4ac5665, 2, 23),
   (0xf4292244, 0, 6), (0x432aff97, 7, 10), (0xab9423a7, 14, 15), (0xfc93a039, 5, 21),
   (0x655b59c3, 12, 6), (0x8f0ccc92, 3, 10), (0xffeff47d, 10, 15), (0x85845dd1, 1, 21),
   (0x6fa87e4f, 8, 6), (0xfe2ce6e0, 15, 10), (0xa3014314, 6, 15), (0x4e0811a1, 13, 21),
   (0xf7537e82, 4, 6), (0xbd3af235, 11, 10), (0x2ad7d2bb, 2, 15), (0xeb86d391, 9, 21)]"

fun decode_le :: "u8 list \<Rightarrow> u32 list" where
  "decode_le (a # b # c # d # p) =
    (ucast a OR push_bit 8 (ucast b) OR push_bit 16 (ucast c) OR push_bit 24 (ucast d)) # decode_le p"
| "decode_le _ = []"

fun encode_le :: "u32 list \<Rightarrow> u8 list" where
  "encode_le [] = []"
| "encode_le (x # xs) = ucast x # ucast (drop_bit 8 x) # ucast (drop_bit 16 x) # ucast (drop_bit 24 x) # encode_le xs"

definition rol :: "nat \<Rightarrow> u32 \<Rightarrow> u32" where   \<comment> \<open>\<open>(a << rot) | (a >> (32 - rot))\<close>\<close>
  "rol rot a = push_bit rot a OR drop_bit (32 - rot) a"

definition md5_round :: "u32 list \<Rightarrow> nat \<Rightarrow> u32 \<times> u32 \<times> u32 \<times> u32 \<Rightarrow> u32 \<times> u32 \<times> u32 \<times> u32" where
  "md5_round x i v = (case v of (a, b, c, d) \<Rightarrow>
    let (sin, k, rot) = tab ! i;
        f = (if i div 16 = 0 then (b AND c) OR (NOT b AND d)
             else if i div 16 = 1 then (b AND d) OR (c AND NOT d)
             else if i div 16 = 2 then b XOR c XOR d
             else c XOR (b OR NOT d));
        a1 = a + f + (x ! k + sin)
    in (d, rol rot a1 + b, b, c))"

definition md5_compress :: "u8 list \<Rightarrow> u32 list \<Rightarrow> u32 list" where
  "md5_compress p h = (case fold (md5_round (decode_le p)) [0..<64] (h ! 0, h ! 1, h ! 2, h ! 3) of
    (a, b, c, d) \<Rightarrow> [h ! 0 + a, h ! 1 + b, h ! 2 + c, h ! 3 + d] @ drop 4 h)"

function md5block :: "u8 list \<Rightarrow> dstate \<Rightarrow> dstate" where
  "md5block p s = (if p = [] then s
     else md5block (drop 64 p) (s\<lparr>dst := md5_compress (take 64 p) (dst s), dlen := dlen s + 64\<rparr>))"
  by pat_completeness auto
termination by (relation "measure (\<lambda>(p, s). length p)") auto

definition md5_count :: "u32 \<Rightarrow> u8 list" where
  "md5_count n = encode_le [push_bit 3 n, drop_bit 29 n]"

text \<open>The result: the digest if it was asked for, and the state.\<close>

definition md5 :: "u8 list \<Rightarrow> bool \<Rightarrow> dstate \<Rightarrow> u8 list option \<times> dstate" where
  "md5 p digest s =
    (case fill_partial md5block p (seed [0x67452301, 0xefcdab89, 0x98badcfe, 0x10325476] s) of (p1, s1) \<Rightarrow>
     case whole_blocks md5block p1 s1 of (p2, s2) \<Rightarrow>
     if \<not> digest then (None, save_rest p2 s2)
     else let s3 = last_blocks md5block md5_count p2 s2 in (Some (take 16 (encode_le (dst s3))), s3))"

section \<open>SHA\<close>

fun decode_be :: "u8 list \<Rightarrow> u32 list" where
  "decode_be (a # b # c # d # p) =
    (ucast d OR push_bit 8 (ucast c) OR push_bit 16 (ucast b) OR push_bit 24 (ucast a)) # decode_be p"
| "decode_be _ = []"

fun encode_be :: "u32 list \<Rightarrow> u8 list" where
  "encode_be [] = []"
| "encode_be (x # xs) = ucast (drop_bit 24 x) # ucast (drop_bit 16 x) # ucast (drop_bit 8 x) # ucast x # encode_be xs"

text \<open>The expansion appends \<open>n\<close> words, each from the words 3, 8, 14 and 16 places back.\<close>

definition sha_word :: "u32 list \<Rightarrow> u32" where
  "sha_word w = (let k = length w in rol 1 (w ! (k - 3) XOR w ! (k - 8) XOR w ! (k - 14) XOR w ! (k - 16)))"

fun sha_expand :: "nat \<Rightarrow> u32 list \<Rightarrow> u32 list" where
  "sha_expand 0 w = w"
| "sha_expand (Suc n) w = sha_expand n (w @ [sha_word w])"

definition sha_round :: "nat \<Rightarrow> u32 \<Rightarrow> u32 \<times> u32 \<times> u32 \<times> u32 \<times> u32 \<Rightarrow> u32 \<times> u32 \<times> u32 \<times> u32 \<times> u32" where
  "sha_round i w v = (case v of (a, b, c, d, e) \<Rightarrow>
    let tmp = rol 5 a + e + w +
          (if i < 20 then 0x5a827999 + ((b AND c) OR (d AND NOT b))
           else if i < 40 then 0x6ed9eba1 + (b XOR c XOR d)
           else if i < 60 then 0x8f1bbcdc + ((b AND c) OR (b AND d) OR (c AND d))
           else 0xca62c1d6 + (b XOR c XOR d))
    in (tmp, a, rol 30 b, c, d))"

definition sha_compress :: "u8 list \<Rightarrow> u32 list \<Rightarrow> u32 list" where
  "sha_compress p h =
    (case fold (\<lambda>(i, w). sha_round i w) (enumerate 0 (sha_expand 64 (decode_be p))) (h ! 0, h ! 1, h ! 2, h ! 3, h ! 4) of
     (a, b, c, d, e) \<Rightarrow> [h ! 0 + a, h ! 1 + b, h ! 2 + c, h ! 3 + d, h ! 4 + e])"

function shablock :: "u8 list \<Rightarrow> dstate \<Rightarrow> dstate" where
  "shablock p s = (if p = [] then s
     else shablock (drop 64 p) (s\<lparr>dst := sha_compress (take 64 p) (dst s), dlen := dlen s + 64\<rparr>))"
  by pat_completeness auto
termination by (relation "measure (\<lambda>(p, s). length p)") auto

definition sha_count :: "u32 \<Rightarrow> u8 list" where
  "sha_count n = encode_be [drop_bit 29 n, push_bit 3 n]"

definition sha :: "u8 list \<Rightarrow> bool \<Rightarrow> dstate \<Rightarrow> u8 list option \<times> dstate" where
  "sha p digest s =
    (case fill_partial shablock p (seed [0x67452301, 0xefcdab89, 0x98badcfe, 0x10325476, 0xc3d2e1f0] s) of (p1, s1) \<Rightarrow>
     case whole_blocks shablock p1 s1 of (p2, s2) \<Rightarrow>
     if \<not> digest then (None, save_rest p2 s2)
     else let s3 = last_blocks shablock sha_count p2 s2 in (Some (encode_be (dst s3)), s3))"

section \<open>Digests of messages given in pieces\<close>

fun blocks :: "'a list \<Rightarrow> 'a list list" where
  "blocks xs = (if length xs < 64 then [] else take 64 xs # blocks (drop 64 xs))"

declare blocks.simps [simp del]

lemma blocks_small: "length xs < 64 \<Longrightarrow> blocks xs = []"
  by (simp add: blocks.simps)

lemma blocks_step: "length c = 64 \<Longrightarrow> blocks (c @ xs) = c # blocks xs"
  by (subst blocks.simps) simp

lemma blocks_append: "64 dvd length xs \<Longrightarrow> blocks (xs @ ys) = blocks xs @ blocks ys"
proof (induction xs rule: blocks.induct)
  case (1 xs)
  show ?case
  proof (cases "length xs < 64")
    case True
    then have "xs = []" using 1(2) by (auto elim: dvdE)
    then show ?thesis by (simp add: blocks_small)
  next
    case False
    have e: "xs = take 64 xs @ drop 64 xs" by simp
    have d: "64 dvd length (drop 64 xs)" using 1(2) False by (simp add: dvd_diff_nat)
    have "blocks (take 64 xs @ drop 64 xs @ ys) = take 64 xs # blocks (drop 64 xs @ ys)"
      by (rule blocks_step) (use False in simp)
    moreover have "blocks (take 64 xs @ drop 64 xs) = take 64 xs # blocks (drop 64 xs)"
      by (rule blocks_step) (use False in simp)
    ultimately show ?thesis using 1(1) [OF False d] e by (simp del: append_take_drop_id) (metis append_assoc append_take_drop_id)
  qed
qed

definition whole :: "'a list \<Rightarrow> 'a list" where "whole m = take (length m div 64 * 64) m"
definition tail :: "'a list \<Rightarrow> 'a list" where "tail m = drop (length m div 64 * 64) m"

lemma whole_tail: "whole m @ tail m = m" "length (tail m) = length m mod 64" "length (whole m) = length m div 64 * 64" "length (tail m) < 64"
  by (simp_all add: whole_def tail_def minus_div_mult_eq_mod)

lemma whole_tail_append:
  assumes "64 dvd length x"
  shows "whole (x @ y) = x @ whole y" "tail (x @ y) = tail y"
proof -
  obtain k where k: "length x = 64 * k" using assms by (auto elim: dvdE)
  then have "length (x @ y) div 64 * 64 = length x + length y div 64 * 64" by simp
  then show "whole (x @ y) = x @ whole y" "tail (x @ y) = tail y" by (simp_all add: whole_def tail_def)
qed

lemma tail_small: "length m < 64 \<Longrightarrow> tail m = m" "length m < 64 \<Longrightarrow> whole m = []"
  by (simp_all add: tail_def whole_def)

text \<open>
  The reference: pad the message with a byte 0x80, zeros and the eight bytes of its length to whole
  blocks, and compress them one after the other.
\<close>

definition pad :: "(u32 \<Rightarrow> u8 list) \<Rightarrow> u8 list \<Rightarrow> u8 list" where
  "pad count m = m @ [0x80] @ replicate ((119 - length m mod 64) mod 64) 0 @ count (of_nat (length m))"

definition hash :: "(u8 list \<Rightarrow> u32 list \<Rightarrow> u32 list) \<Rightarrow> (u32 \<Rightarrow> u8 list) \<Rightarrow> u32 list \<Rightarrow> u8 list \<Rightarrow> u32 list" where
  "hash compress count h m = fold compress (blocks (pad count m)) h"

text \<open>\<open>took compress h m s\<close>: the state after the message \<open>m\<close>, started from \<open>h\<close>.\<close>

definition took :: "(u8 list \<Rightarrow> u32 list \<Rightarrow> u32 list) \<Rightarrow> u32 list \<Rightarrow> u8 list \<Rightarrow> dstate \<Rightarrow> bool" where
  "took compress h m s \<longleftrightarrow> seeded s \<and> dst s = fold compress (blocks (whole m)) h \<and> dlen s = of_nat (length (whole m)) \<and>
    length (dbuf s) = 128 \<and> dblen s = length (tail m) \<and> take (dblen s) (dbuf s) = tail m"

lemma tookD:
  assumes "took compress h m s"
  shows "seeded s" "dst s = fold compress (blocks (whole m)) h" "dlen s = of_nat (length (whole m))"
    "length (dbuf s) = 128" "dblen s = length (tail m)" "take (dblen s) (dbuf s) = tail m"
  using assms unfolding took_def by blast+

lemma tail_grow:
  assumes "length (tail m) + length c < 64"
  shows "whole (m @ c) = whole m" "tail (m @ c) = tail m @ c"
proof -
  have d: "64 dvd length (whole m)" by (simp add: whole_tail)
  have e: "m @ c = whole m @ tail m @ c" by (simp add: whole_tail flip: append_assoc)
  have l: "length (tail m @ c) < 64" using assms by simp
  show "whole (m @ c) = whole m" "tail (m @ c) = tail m @ c"
    unfolding e whole_tail_append [OF d] tail_small [OF l] by simp_all
qed

lemma tail_full:
  assumes "length (tail m) + length c = 64"
  shows "whole (m @ c) = whole m @ tail m @ c" "tail (m @ c) = []"
proof -
  have d: "64 dvd length (whole m)" by (simp add: whole_tail)
  have e: "m @ c = whole m @ tail m @ c" by (simp add: whole_tail flip: append_assoc)
  have "length (tail m @ c) = 64" using assms by simp
  then have "whole (tail m @ c) = tail m @ c" "tail (tail m @ c) = []" by (simp_all add: whole_def tail_def)
  then show "whole (m @ c) = whole m @ tail m @ c" "tail (m @ c) = []"
    unfolding e whole_tail_append [OF d] by simp_all
qed

lemma splice_simps:
  assumes "n + length xs \<le> length b"
  shows "length (splice n xs b) = length b" "take (n + length xs) (splice n xs b) = take n b @ xs"
  using assms by (simp_all add: splice_def)

text \<open>The interface of a block function: it takes the blocks of its argument one by one and counts their bytes.\<close>

locale md_hash =
  fixes blk :: "u8 list \<Rightarrow> dstate \<Rightarrow> dstate" and compress :: "u8 list \<Rightarrow> u32 list \<Rightarrow> u32 list" and count :: "u32 \<Rightarrow> u8 list"
  assumes blk_nil: "blk [] s = s"
    and blk_step: "length c = 64 \<Longrightarrow> blk (c @ p) s = blk p (s\<lparr>dst := compress c (dst s), dlen := dlen s + 64\<rparr>)"
    and count_len: "length (count n) = 8"
begin

lemma blk_blocks: "64 dvd length p \<Longrightarrow> blk p s = s\<lparr>dst := fold compress (blocks p) (dst s), dlen := dlen s + of_nat (length p)\<rparr>"
proof (induction p arbitrary: s rule: blocks.induct)
  case (1 p)
  show ?case
  proof (cases "length p < 64")
    case True
    then have "p = []" using 1(2) by (auto elim: dvdE)
    then show ?thesis by (simp add: blk_nil blocks_small)
  next
    case False
    define c q where "c = take 64 p" and "q = drop 64 p"
    have c: "length c = 64" "p = c @ q" using False by (simp_all add: c_def q_def)
    have d: "64 dvd length q" using 1(2) False by (simp add: q_def dvd_diff_nat)
    have "blk q (s\<lparr>dst := compress c (dst s), dlen := dlen s + 64\<rparr>) =
        s\<lparr>dst := fold compress (blocks q) (compress c (dst s)), dlen := dlen s + 64 + of_nat (length q)\<rparr>"
      using 1(1) [OF False] d unfolding q_def [symmetric] by simp
    then show ?thesis unfolding c(2) blk_step [OF c(1)] blocks_step [OF c(1)] by (simp add: c(1))
  qed
qed

lemma fill_took:
  assumes t: "took compress h m s"
  obtains q p' s' where "fill_partial blk p s = (p', s')" "p = q @ p'" "took compress h (m @ q) s'" "dblen s' = 0 \<or> p' = []"
proof (cases "dblen s = 0")
  case True
  then show thesis using that [of p s "[]"] t by (simp add: fill_partial_def)
next
  case False
  note T = tookD [OF t]
  define i where "i = (if length p < 64 - dblen s then length p else 64 - dblen s)"
  let ?c = "take i p"
  define s1 where "s1 = s\<lparr>dbuf := splice (dblen s) ?c (dbuf s), dblen := dblen s + i\<rparr>"
  have lt: "dblen s < 64" using T whole_tail(4) [of m] by simp
  have i: "i \<le> length p" "dblen s + i \<le> 64" "length ?c = i" using lt by (auto simp: i_def)
  have bnd: "dblen s + length ?c \<le> length (dbuf s)" using i T by simp
  have sp: "seeded s1" "dst s1 = dst s" "dlen s1 = dlen s" "length (dbuf s1) = 128" "dblen s1 = length (tail m) + i"
      "take (dblen s1) (dbuf s1) = tail m @ ?c"
    using splice_simps [OF bnd] T(1,4,5) unfolding s1_def T(6) i(3) by simp_all
  have run: "fill_partial blk p s = (drop i p, if dblen s1 = 64 then (blk (take 64 (dbuf s1)) s1)\<lparr>dblen := 0\<rparr> else s1)"
    using False unfolding fill_partial_def Let_def i_def [symmetric] s1_def [symmetric] by simp
  show thesis
  proof (cases "dblen s1 = 64")
    case True
    have f: "length (tail m) + length ?c = 64" using True i(3) sp(5) by simp
    have b: "blk (take 64 (dbuf s1)) s1 = s1\<lparr>dst := fold compress (blocks (tail m @ ?c)) (dst s1), dlen := dlen s1 + of_nat (length (tail m @ ?c))\<rparr>"
      unfolding sp(6) [unfolded True] by (rule blk_blocks) (use f in simp)
    have dv: "64 dvd length (whole m)" by (simp add: whole_tail)
    have "took compress h (m @ ?c) ((blk (take 64 (dbuf s1)) s1)\<lparr>dblen := 0\<rparr>)"
      using sp T(2,3) unfolding b took_def tail_full [OF f] by (simp add: blocks_append [OF dv])
    then show thesis using that [of "drop i p" _ ?c] run True by simp
  next
    case False
    have ip: "i = length p" using False lt sp(5) T(5) by (auto simp: i_def split: if_splits)
    have f: "length (tail m) + length ?c < 64" using False i(2,3) sp(5) T(5) by simp
    have "took compress h (m @ ?c) s1" using T(2,3) sp unfolding took_def tail_grow [OF f] by (simp add: min_absorb2 [OF i(1)])
    then show thesis using that [of "[]" s1 p] run False ip by simp
  qed
qed

lemma whole_took:
  assumes t: "took compress h m s" and z: "dblen s = 0 \<or> p = []"
  obtains q p' s' where "whole_blocks blk p s = (p', s')" "p = q @ p'" "took compress h (m @ q) s'" "length p' < 64" "dblen s' = 0 \<or> p' = []"
proof (cases "length p div 64 * 64 = 0")
  case True
  then have "whole_blocks blk p s = (p, s)" "length p < 64" by (auto simp: whole_blocks_def)
  then show thesis using that [of p s "[]"] t z by simp
next
  case False
  note T = tookD [OF t]
  have run: "whole_blocks blk p s = (tail p, blk (whole p) s)" using False by (simp add: whole_blocks_def Let_def whole_def tail_def)
  have p: "p = whole p @ tail p" "length (tail p) < 64" by (simp_all add: whole_tail)
  have z': "dblen s = 0" using z False by auto
  then have tm: "tail m = []" using T by simp
  then have m: "whole m = m" using whole_tail(1) [of m] by simp
  then have dv: "64 dvd length m" using whole_tail(3) [of m] by (metis dvd_triv_right)
  have dw: "64 dvd length (whole p)" by (simp add: whole_tail)
  have "whole (whole p) = whole p" "tail (whole p) = []" by (simp_all add: whole_def tail_def)
  then have w: "whole (m @ whole p) = m @ whole p" "tail (m @ whole p) = []" using whole_tail_append [OF dv] by simp_all
  have "took compress h (m @ whole p) (blk (whole p) s)"
    using T z' unfolding took_def blk_blocks [OF dw] w by (simp add: m blocks_append [OF dv])
  moreover have "dblen (blk (whole p) s) = 0" using z' unfolding blk_blocks [OF dw] by simp
  ultimately show thesis using that [OF run p(1) _ p(2)] by blast
qed

lemma save_took:
  assumes t: "took compress h m s" and z: "dblen s = 0 \<or> p = []" and l: "length p < 64"
  shows "took compress h (m @ p) (save_rest p s)"
proof (cases "p = []")
  case True
  then show ?thesis using t by (simp add: save_rest_def)
next
  case False
  note T = tookD [OF t]
  have tm: "tail m = []" "dblen s = 0" using z False T by auto
  then have g: "length (tail m) + length p < 64" using l by simp
  show ?thesis
    using T tm False l splice_simps [of 0 p "dbuf s"] unfolding save_rest_def took_def tail_grow [OF g] by simp
qed

lemma last_hash:
  assumes t: "took compress h m s" and z: "dblen s = 0 \<or> p = []" and l: "length p < 64"
  shows "dst (last_blocks blk count p s) = hash compress count h (m @ p)"
proof -
  note T = tookD [OF t]
  define q where "q = (if dblen s \<noteq> 0 then take (dblen s) (dbuf s) else p)"
  have tw: "tail (m @ p) = q" "whole (m @ p) = whole m"
  proof -
    have g: "length (tail m) + length p < 64" using z l T whole_tail(4) [of m] by auto
    show "tail (m @ p) = q" "whole (m @ p) = whole m" unfolding tail_grow [OF g] q_def using z T by auto
  qed
  have lq: "length q = length (m @ p) mod 64" "length q < 64" unfolding tw(1) [symmetric] by (rule whole_tail)+
  define i where "i = (if length q < 56 then 56 - length q else 120 - length q)"
  define n where "n = dlen s + of_nat (length q)"
  define x where "x = q @ [0x80] @ replicate (i - 1) 0 @ count n"
  have n: "n = of_nat (length (m @ p))"
  proof -
    have "n = of_nat (length (whole m) + length q)" using T by (simp add: n_def)
    also have "length (whole m) + length q = length (whole (m @ p) @ tail (m @ p))" unfolding tw by simp
    finally show ?thesis unfolding whole_tail(1) .
  qed
  have i: "i - 1 = (119 - length (m @ p) mod 64) mod 64"
  proof (cases "length q < 56")
    case True
    then have "119 - length q = (55 - length q) + 64" by simp
    then have "(119 - length q) mod 64 = 55 - length q" by (simp only: mod_add_self2) simp
    then show ?thesis using True unfolding lq(1) [symmetric] by (simp add: i_def)
  next
    case False
    then show ?thesis using lq(2) unfolding lq(1) [symmetric] by (simp add: i_def)
  qed
  have x64: "64 dvd length x"
  proof -
    have "1 \<le> i" "length q + i = 56 \<or> length q + i = 120" using lq(2) by (auto simp: i_def)
    then have "length x = 64 \<or> length x = 128" unfolding x_def by (auto simp: count_len)
    then show ?thesis by auto
  qed
  have pd: "pad count (m @ p) = whole m @ x"
  proof -
    have "m @ p = whole m @ q" using whole_tail(1) [of "m @ p"] unfolding tw by simp
    then show ?thesis unfolding pad_def x_def i [symmetric] n by (metis append_assoc)
  qed
  have d: "dst (last_blocks blk count p s) = fold compress (blocks x) (dst s)"
    unfolding last_blocks_def Let_def q_def [symmetric] i_def [symmetric] by (simp add: n_def [symmetric] x_def [symmetric, simplified] blk_blocks [OF x64])
  have "64 dvd length (whole m)" by (simp add: whole_tail)
  then show ?thesis unfolding hash_def pd d using T by (simp add: blocks_append)
qed

text \<open>One call, not the last or the last.\<close>

lemma piece:
  assumes "took compress h m s"
  shows "case fill_partial blk p s of (p1, s1) \<Rightarrow> case whole_blocks blk p1 s1 of (p2, s2) \<Rightarrow>
    took compress h (m @ p) (save_rest p2 s2) \<and> dst (last_blocks blk count p2 s2) = hash compress count h (m @ p)"
proof -
  obtain q p1 s1 where f: "fill_partial blk p s = (p1, s1)" "p = q @ p1" "took compress h (m @ q) s1" "dblen s1 = 0 \<or> p1 = []"
    using fill_took [OF assms] by metis
  obtain r p2 s2 where w: "whole_blocks blk p1 s1 = (p2, s2)" "p1 = r @ p2" "took compress h ((m @ q) @ r) s2" "length p2 < 64"
      "dblen s2 = 0 \<or> p2 = []"
    using whole_took [OF f(3,4)] by metis
  have "m @ p = ((m @ q) @ r) @ p2" using f(2) w(2) by simp
  then show ?thesis using save_took [OF w(3,5,4)] last_hash [OF w(3,5,4)] unfolding f(1) prod.case w(1) by metis
qed

end

declare md5block.simps [simp del] shablock.simps [simp del]

lemma length_encode: "length (encode_le xs) = 4 * length xs" "length (encode_be xs) = 4 * length xs"
  by (induction xs) simp_all

interpretation md5h: md_hash md5block md5_compress md5_count
proof unfold_locales
  show "md5block [] s = s" for s by (simp add: md5block.simps)
  show "md5block (c @ p) s = md5block p (s\<lparr>dst := md5_compress c (dst s), dlen := dlen s + 64\<rparr>)" if "length c = 64" for c p s
    using that by (subst md5block.simps) auto
  show "length (md5_count n) = 8" for n by (simp add: md5_count_def)
qed

interpretation shah: md_hash shablock sha_compress sha_count
proof unfold_locales
  show "shablock [] s = s" for s by (simp add: shablock.simps)
  show "shablock (c @ p) s = shablock p (s\<lparr>dst := sha_compress c (dst s), dlen := dlen s + 64\<rparr>)" if "length c = 64" for c p s
    using that by (subst shablock.simps) auto
  show "length (sha_count n) = 8" for n by (simp add: sha_count_def)
qed

definition stream :: "(u8 list \<Rightarrow> bool \<Rightarrow> dstate \<Rightarrow> u8 list option \<times> dstate) \<Rightarrow> u8 list list \<Rightarrow> u8 list \<Rightarrow> dstate \<Rightarrow> u8 list option" where
  "stream f ps q s = fst (f q True (foldl (\<lambda>s p. snd (f p False s)) s ps))"

lemma seed_took: "took compress h m s \<Longrightarrow> seed iv s = s"
  by (simp add: seed_def took_def)

lemma seed_zero: "length iv \<le> 5 \<Longrightarrow> took compress (iv @ replicate (5 - length iv) 0) [] (seed iv (dzero b))"
  by (simp add: took_def seed_def dzero_def splice_def tail_def whole_def blocks_small)

lemma stream_hash:
  assumes call: "\<And>m p s. took c h m (seed iv s) \<Longrightarrow> took c h (m @ p) (snd (f p False s)) \<and> fst (f p True s) = Some (out (hash c n h (m @ p)))"
    and start: "took c h m (seed iv s)"
  shows "stream f ps q s = Some (out (hash c n h (m @ concat ps @ q)))"
  using start
proof (induction ps arbitrary: m s)
  case Nil
  then show ?case using call by (simp add: stream_def)
next
  case (Cons p ps)
  have "took c h (m @ p) (snd (f p False s))" using call [OF Cons.prems] by simp
  then have "took c h (m @ p) (seed iv (snd (f p False s)))" using seed_took by metis
  from Cons.IH [OF this] show ?case by (simp add: stream_def)
qed

lemma md5_call:
  "took md5_compress h m (seed [0x67452301, 0xefcdab89, 0x98badcfe, 0x10325476] s) \<Longrightarrow>
    took md5_compress h (m @ p) (snd (md5 p False s)) \<and> fst (md5 p True s) = Some (take 16 (encode_le (hash md5_compress md5_count h (m @ p))))"
  by (drule md5h.piece [where p = p]) (simp add: md5_def Let_def split: prod.splits)

lemma sha_call:
  "took sha_compress h m (seed [0x67452301, 0xefcdab89, 0x98badcfe, 0x10325476, 0xc3d2e1f0] s) \<Longrightarrow>
    took sha_compress h (m @ p) (snd (sha p False s)) \<and> fst (sha p True s) = Some (encode_be (hash sha_compress sha_count h (m @ p)))"
  by (drule shah.piece [where p = p]) (simp add: sha_def Let_def split: prod.splits)

text \<open>MD5 has four words of state; the fifth of \<open>DigestState\<close> stays zero.\<close>

lemma md5_four: "length h = 4 \<Longrightarrow> fold md5_compress bs (h @ [x]) = fold md5_compress bs h @ [x] \<and> length (fold md5_compress bs h) = 4"
proof (induction bs arbitrary: h)
  case (Cons b bs)
  have "md5_compress b (h @ [x]) = md5_compress b h @ [x]" "length (md5_compress b h) = 4"
    using Cons.prems by (simp_all add: md5_compress_def nth_append split: prod.split)
  then show ?case using Cons.IH by simp
qed simp

text \<open>The references count the bits in 64-bit arithmetic, low byte first for MD5 and high byte first for SHA.\<close>

definition bytes64 :: "u64 \<Rightarrow> u8 list" where
  "bytes64 w = map (\<lambda>k. ucast (drop_bit (8 * k) w)) [0..<8]"

definition md5_ref :: "u8 list \<Rightarrow> u8 list" where
  "md5_ref m = encode_le (hash md5_compress (\<lambda>_. bytes64 (of_nat (8 * length m))) [0x67452301, 0xefcdab89, 0x98badcfe, 0x10325476] m)"

definition sha_ref :: "u8 list \<Rightarrow> u8 list" where
  "sha_ref m = encode_be (hash sha_compress (\<lambda>_. rev (bytes64 (of_nat (8 * length m)))) [0x67452301, 0xefcdab89, 0x98badcfe, 0x10325476, 0xc3d2e1f0] m)"

lemma bit_count: "n < 2 ^ 32 \<Longrightarrow> (of_nat (8 * n) :: u64) = push_bit 3 (ucast (of_nat n :: u32))"
proof -
  assume n: "n < 2 ^ 32"
  have "(ucast (of_nat n :: u32) :: u64) = of_nat n" using n by (simp add: unsigned_of_nat take_bit_nat_eq_self)
  then show ?thesis by (simp add: push_bit_eq_mult)
qed

lemma count_bytes: "md5_count w = bytes64 (push_bit 3 (ucast w))" "sha_count w = rev (bytes64 (push_bit 3 (ucast w)))"
proof -
  have b: "(ucast (drop_bit (8 * k) (push_bit 3 (ucast w :: u64))) :: u8) = ucast (drop_bit (8 * k) (push_bit 3 w))" if "k < 4" for k :: nat
    using that by (auto intro!: bit_word_eqI simp: bit_simps)
  have c: "(ucast (drop_bit (32 + 8 * k) (push_bit 3 (ucast w :: u64))) :: u8) = ucast (drop_bit (8 * k) (drop_bit 29 w))" for k :: nat
  proof (rule bit_word_eqI)
    fix n assume "n < LENGTH(8)"
    have "bit w (29 + (8 * k + n)) \<Longrightarrow> 8 * k + n < 3" using bit_imp_le_length [of w "29 + (8 * k + n)"] by simp
    then show "bit (ucast (drop_bit (32 + 8 * k) (push_bit 3 (ucast w :: u64))) :: u8) n = bit (ucast (drop_bit (8 * k) (drop_bit 29 w)) :: u8) n"
      by (auto simp: bit_simps add.assoc add.left_commute [of "8 * k" 29 n])
  qed
  have e: "bytes64 (push_bit 3 (ucast w)) = map (\<lambda>k. ucast (drop_bit (8 * k) (push_bit 3 w))) [0..<4] @ map (\<lambda>k. ucast (drop_bit (8 * k) (drop_bit 29 w))) [0..<4]"
    unfolding bytes64_def using b [of 0] b [of 1] b [of 2] b [of 3] c [of 0] c [of 1] c [of 2] c [of 3] by (simp add: upt_rec numeral_eq_Suc [symmetric])
  show "md5_count w = bytes64 (push_bit 3 (ucast w))" "sha_count w = rev (bytes64 (push_bit 3 (ucast w)))"
    unfolding e by (simp_all add: md5_count_def sha_count_def upt_rec)
qed

lemma hash_count:
  "length m < 2 ^ 32 \<Longrightarrow> hash c md5_count h m = hash c (\<lambda>_. bytes64 (of_nat (8 * length m))) h m"
  "length m < 2 ^ 32 \<Longrightarrow> hash c sha_count h m = hash c (\<lambda>_. rev (bytes64 (of_nat (8 * length m)))) h m"
  unfolding hash_def pad_def count_bytes by (simp_all only: bit_count)

section \<open>Properties\<close>

text \<open>
  C34. However a message of fewer than \<open>2 ^ 32\<close> bytes (\<open>s->len\<close> wraps there) is cut into pieces, \<open>md5\<close> and \<open>sha\<close>
  give the digest of the whole message: the compression of its blocks after padding with 0x80, zeros and the
  length in bits. The pieces may be of any length, empty ones included. (The comment above \<open>sha\<close> demands a
  multiple of 64 for all but the last; the code keeps what is left over in \<open>s->buf\<close> and does not need it.)
\<close>

theorem digest_streaming:
  assumes "length (concat ps @ q) < 2 ^ 32"
  shows "stream md5 ps q (dzero b) = Some (md5_ref (concat ps @ q)) \<and> stream sha ps q (dzero b) = Some (sha_ref (concat ps @ q))"
proof -
  let ?iv = "[0x67452301, 0xefcdab89, 0x98badcfe, 0x10325476] :: u32 list"
  let ?h = "hash md5_compress md5_count ?iv (concat ps @ q)"
  have "took md5_compress (?iv @ [0]) [] (seed ?iv (dzero b))" using seed_zero [of ?iv md5_compress b] by simp
  from stream_hash [where f = md5, OF md5_call this, of ps q]
  have "stream md5 ps q (dzero b) = Some (take 16 (encode_le (hash md5_compress md5_count (?iv @ [0]) (concat ps @ q))))" by simp
  moreover have "hash md5_compress md5_count (?iv @ [0]) (concat ps @ q) = ?h @ [0]" "length ?h = 4"
    using md5_four [of ?iv "blocks (pad md5_count (concat ps @ q))" 0] unfolding hash_def by simp_all
  moreover have "take 16 (encode_le (?h @ [0])) = encode_le ?h" if "length ?h = 4"
  proof -
    have "encode_le (xs @ ys) = encode_le xs @ encode_le ys" for xs ys by (induction xs) simp_all
    then show ?thesis using that by (simp add: length_encode)
  qed
  ultimately have md5: "stream md5 ps q (dzero b) = Some (md5_ref (concat ps @ q))" unfolding md5_ref_def hash_count(1) [OF assms, symmetric] by simp
  have "took sha_compress (?iv @ [0xc3d2e1f0]) [] (seed (?iv @ [0xc3d2e1f0]) (dzero b))" using seed_zero [of "?iv @ [0xc3d2e1f0]" sha_compress b] by simp
  then have "took sha_compress [0x67452301, 0xefcdab89, 0x98badcfe, 0x10325476, 0xc3d2e1f0] [] (seed [0x67452301, 0xefcdab89, 0x98badcfe, 0x10325476, 0xc3d2e1f0] (dzero b))" by simp
  from stream_hash [where f = sha, OF sha_call this, of ps q]
  have "stream sha ps q (dzero b) = Some (sha_ref (concat ps @ q))" unfolding sha_ref_def hash_count(2) [OF assms, symmetric] by simp
  with md5 show ?thesis by simp
qed

theorem digest_streaming_witness:
  "stream md5 [[1], [], [2, 3]] [4] (dzero True) = Some (md5_ref [1, 2, 3, 4]) \<and> stream sha [[1, 2]] [3, 4] (dzero False) = Some (sha_ref [1, 2, 3, 4])"
  using digest_streaming [of "[[1], [], [2, 3]]" "[4]" True] digest_streaming [of "[[1, 2]]" "[3, 4]" False] by simp

end
