(* ===== verification/DigestVectors.thy ===== *)
theory DigestVectors
  imports Digest
begin

text \<open>
  The references of \<open>Digest\<close> against the published test vectors for the message ``abc'' (RFC 1321,
  appendix A.5; FIPS 180-1, appendix A): the constants, the round functions and the byte orders are those of the standards.

  A round is evaluated with every intermediate value reduced to 32 bits, which \<open>nw\<close> marks.
\<close>

unbundle bit_operations_syntax

definition nw :: "u32 \<Rightarrow> u32" where "nw x = x"

lemma nw_numeral [simp]:
  "nw (numeral n) = word_of_nat (numeral n mod 4294967296)"
  "nw (- numeral n) = word_of_int (- numeral n mod 4294967296)"
  "nw 0 = 0" "nw 1 = 1"
  "nw (- 1) = 0xFFFFFFFF"
proof -
  have "word_of_nat (numeral n mod 4294967296) = (word_of_nat (take_bit 32 (numeral n)) :: u32)"
    by (simp add: take_bit_eq_mod)
  also have "\<dots> = numeral n" unfolding of_nat_take_bit by (simp only: of_nat_numeral) (rule take_bit_word_eq_self, simp)
  finally show "nw (numeral n) = word_of_nat (numeral n mod 4294967296)" by (simp add: nw_def)
  have "word_of_int (- numeral n mod 4294967296) = (word_of_int (take_bit 32 (- numeral n)) :: u32)"
    by (simp add: take_bit_eq_mod)
  also have "\<dots> = - numeral n" unfolding of_int_take_bit by (simp only: of_int_minus of_int_numeral) (rule take_bit_word_eq_self, simp)
  finally show "nw (- numeral n) = word_of_int (- numeral n mod 4294967296)" by (simp add: nw_def)
qed (simp_all add: nw_def)

lemma md5_round_step: "md5_round x i (a, b, c, d) = (case tab ! i of (sin, k, rot) \<Rightarrow>
    (d, nw (rol rot (nw (a + (if i < 16 then nw ((b AND c) OR (nw (NOT b) AND d))
             else if i < 32 then nw ((b AND d) OR (c AND nw (NOT d)))
             else if i < 48 then nw (b XOR c XOR d)
             else nw (c XOR (b OR nw (NOT d)))) + (x ! k + sin))) + b), b, c))"
proof -
  have "i div 16 = 0 \<longleftrightarrow> i < 16" "i div 16 = 1 \<longleftrightarrow> 16 \<le> i \<and> i < 32" "i div 16 = 2 \<longleftrightarrow> 32 \<le> i \<and> i < 48" by auto
  then show ?thesis by (auto simp: md5_round_def nw_def Let_def split: prod.split)
qed

lemma sha_round_step: "sha_round i w (a, b, c, d, e) =
    (nw (rol 5 a + e + w +
       (if i < 20 then 0x5a827999 + nw ((b AND c) OR (d AND nw (NOT b)))
        else if i < 40 then 0x6ed9eba1 + nw (b XOR c XOR d)
        else if i < 60 then 0x8f1bbcdc + nw ((b AND c) OR (b AND d) OR (c AND d))
        else 0xca62c1d6 + nw (b XOR c XOR d))), a, nw (rol 30 b), c, d)"
  by (simp add: sha_round_def nw_def Let_def)

lemma sha_expand_step: "sha_expand n w = (if n = 0 then w else
   sha_expand (n - 1) (w @ [nw (rol 1 (nw (w ! (length w - 3) XOR w ! (length w - 8) XOR w ! (length w - 14) XOR w ! (length w - 16))))]))"
  by (cases n) (simp_all add: nw_def sha_word_def Let_def)

text \<open>The padded message as words, in both byte orders, and its expansion.\<close>

definition abc_le :: "u32 list" where "abc_le = [0x80636261,0,0,0,0,0,0,0,0,0,0,0,0,0,24,0]"
definition abc_be :: "u32 list" where "abc_be = [0x61626380,0,0,0,0,0,0,0,0,0,0,0,0,0,0,24]"
definition abc_exp :: "u32 list" where "abc_exp = [0x61626380, 0x00000000, 0x00000000, 0x00000000, 0x00000000, 0x00000000, 0x00000000, 0x00000000, 0x00000000, 0x00000000, 0x00000000, 0x00000000, 0x00000000, 0x00000000, 0x00000000, 0x00000018, 0xc2c4c700, 0x00000000, 0x00000030, 0x85898e01, 0x00000000, 0x00000060, 0x0b131c03, 0x00000030, 0x85898ec1, 0x16263806, 0x00000000, 0x00000180, 0x2c4c700c, 0x000000f0, 0x93afb507, 0x5898e048, 0x8e9a9202, 0x00000600, 0xb131c0f0, 0x16263bc6, 0x4ebed41e, 0x626380a1, 0x16263806, 0x000018c0, 0xd2e138c4, 0x00000f00, 0x3afb5079, 0x898e04e5, 0xe2ba3c2b, 0x000060c0, 0x053a37cd, 0x74458547, 0xda9415ed, 0x26380a16, 0x626383a1, 0x4ebf54de, 0x3835b44b, 0x0000f600, 0x1e84c7a3, 0x98e04d98, 0x651d16a0, 0x62658ca1, 0x458544d6, 0x44584cb7, 0x7ba06619, 0x6380aea2, 0x0ae55269, 0x627b49a1, 0x7cd45c9d, 0x000f0000, 0xfb50753a, 0xec6765e8, 0xba3c2be2, 0x0060c000, 0x3a37cd05, 0x458546f4, 0xb8599dd6, 0x380a1a26, 0x01e02203, 0xe7cc3456, 0xe6e60b69, 0x00f60a00, 0x5795ef4f, 0x822e0879]"

lemma rounds_md5: "fold (md5_round abc_le) [0..<64] (0x67452301, 0xefcdab89, 0x98badcfe, 0x10325476) = (0x310ade8f, 0xc08226b3, 0xe484b9d8, 0x624d8cb2)"
  by (simp add: md5_round_step rol_def abc_le_def tab_def upt_rec)

lemma exp_sha: "sha_expand 64 abc_be = abc_exp"
  by (simp add: sha_expand_step rol_def abc_be_def abc_exp_def)

lemma rounds_sha: "fold (\<lambda>(i, w). sha_round i w) (enumerate 0 abc_exp) (0x67452301, 0xefcdab89, 0x98badcfe, 0x10325476, 0xc3d2e1f0) = (0x42541b35, 0x5738d5e1, 0x21834873, 0x681e6df6, 0xd8fdf6ad)"
  by (simp add: sha_round_step rol_def abc_exp_def)

lemma pad_abc: "blocks (pad (\<lambda>_. c) [97, 98, 99]) = [[97, 98, 99, 128] @ replicate 52 0 @ c]" if "length c = 8"
  using blocks_step [of "[97, 98, 99, 128] @ replicate 52 0 @ c" "[]"] that by (simp add: pad_def blocks_small)

lemma bytes_abc: "bytes64 (of_nat (8 * length [97, 98, 99 :: u8])) = [24, 0, 0, 0, 0, 0, 0, 0]"
  by (simp add: bytes64_def upt_rec)

lemma rep52: "replicate 52 (0 :: u8) = [0,0,0,0,0,0,0,0,0,0,0,0,0,0,0,0,0,0,0,0,0,0,0,0,0,0,0,0,0,0,0,0,0,0,0,0,0,0,0,0,0,0,0,0,0,0,0,0,0,0,0,0]"
  by (simp add: numeral_eq_Suc)

lemma md5_abc: "md5_ref [97, 98, 99] = [0x90, 0x01, 0x50, 0x98, 0x3c, 0xd2, 0x4f, 0xb0, 0xd6, 0x96, 0x3f, 0x7d, 0x28, 0xe1, 0x7f, 0x72]"
proof -
  have d: "decode_le ([97, 98, 99, 128] @ replicate 52 0 @ [24, 0, 0, 0, 0, 0, 0, 0]) = abc_le"
    by (simp add: rep52 abc_le_def)
  show ?thesis
    unfolding md5_ref_def hash_def bytes_abc by (simp add: pad_abc md5_compress_def d [simplified] rounds_md5)
qed

lemma sha_abc: "sha_ref [97, 98, 99] = [0xa9, 0x99, 0x3e, 0x36, 0x47, 0x06, 0x81, 0x6a, 0xba, 0x3e, 0x25, 0x71, 0x78, 0x50, 0xc2, 0x6c, 0x9c, 0xd0, 0xd8, 0x9d]"
proof -
  have d: "decode_be ([97, 98, 99, 128] @ replicate 52 0 @ [0, 0, 0, 0, 0, 0, 0, 24]) = abc_be"
    by (simp add: rep52 abc_be_def)
  show ?thesis
    unfolding sha_ref_def hash_def bytes_abc by (simp add: pad_abc sha_compress_def d [simplified] exp_sha rounds_sha)
qed

end
