(* ===== verification/Cipher.thy ===== *)
theory Cipher
  imports Prelude
begin

text \<open>
  The stream cipher of \<^verbatim>\<open>crypt/rc4.c\<close>, with which the secure socket device encrypts what it sends, and the
  base-64 coding of \<^verbatim>\<open>crypt/u64.c\<close> in which keys and certificates are written.
\<close>

section \<open>RC4\<close>

record rc4state =
  rstate :: "u8 list"
  rx :: u8
  ry :: u8

definition swap_byte :: "u8 \<Rightarrow> u8 \<Rightarrow> u8 list \<Rightarrow> u8 list" where
  "swap_byte i j s = s[unat i := s ! unat j, unat j := s ! unat i]"

text \<open>\<open>index1\<close> and \<open>index2\<close> are bytes; \<open>n\<close>, the length of the key, is an \<open>int\<close>, and zero traps.\<close>

definition setup_step :: "u8 list \<Rightarrow> nat \<Rightarrow> u8 list \<times> u8 \<times> u8 \<Rightarrow> u8 list \<times> u8 \<times> u8" where
  "setup_step p counter v = (case v of (state, index1, index2) \<Rightarrow>
    let index2 = p ! unat index1 + state ! counter + index2 in
    (swap_byte (of_nat counter) index2 state, of_nat ((unat index1 + 1) mod length p), index2))"

definition setupRC4state :: "u8 list \<Rightarrow> rc4state res" where
  "setupRC4state p = (if p = [] then Inl Trap
    else case fold (setup_step p) [0..<256] (map of_nat [0..<256], 0, 0) of (state, _, _) \<Rightarrow>
      Inr \<lparr>rstate = state, rx = 0, ry = 0\<rparr>)"

definition rc4_byte :: "rc4state \<Rightarrow> rc4state \<times> u8" where   \<comment> \<open>one turn of the loop: the new state and \<open>state[xorIndex]\<close>\<close>
  "rc4_byte key =
    (let x = rx key + 1; y = rstate key ! unat x + ry key; state = swap_byte x y (rstate key) in
     (\<lparr>rstate = state, rx = x, ry = y\<rparr>, state ! unat (state ! unat x + state ! unat y)))"

fun rc4_loop :: "rc4state \<Rightarrow> u8 list \<Rightarrow> rc4state \<times> u8 list" where
  "rc4_loop key [] = (key, [])"
| "rc4_loop key (b # p) =
    (case rc4_byte key of (key1, k) \<Rightarrow> case rc4_loop key1 p of (key2, c) \<Rightarrow> (key2, (b XOR k) # c))"

text \<open>The counter is a \<open>short\<close>: with more than 32767 bytes it runs over and the loop leaves the buffer.\<close>

definition rc4 :: "rc4state \<Rightarrow> u8 list \<Rightarrow> (rc4state \<times> u8 list) res" where
  "rc4 key p = (if length p > 32767 then Inl Undef else Inr (rc4_loop key p))"

section \<open>Base 64\<close>

definition t64e :: "u8 list" where
  "t64e = map of_nat [65..<91] @ map of_nat [97..<123] @ map of_nat [48..<58] @ [43, 47]"

definition memset :: "nat \<Rightarrow> 'a \<Rightarrow> nat \<Rightarrow> 'a list \<Rightarrow> 'a list" where   \<comment> \<open>\<open>memset(b + n, x, k)\<close>\<close>
  "memset n x k b = take n b @ replicate k x @ drop (n + k) b"

definition t64d :: "u8 list" where
  "t64d = fold (\<lambda>(i, c) d. d[unat c := of_nat i]) (enumerate 0 t64e)
    (memset 123 255 (256 - 122 - 1) (memset 91 255 (97 - 90 - 1) (memset 58 255 (65 - 57 - 1) (memset 0 255 48 (replicate 256 0)))))"

definition e64 :: "u32 \<Rightarrow> u8" where "e64 w = t64e ! unat (w AND 0x3f)"

text \<open>\<open>out\<close> is what has been written; the result is the string up to the NUL that is written after it.\<close>

fun enc_loop :: "nat \<Rightarrow> u8 list \<Rightarrow> u8 list \<Rightarrow> u8 list" where
  "enc_loop lim (a # b # c # p) out =
    (let b24 = push_bit 16 (ucast a) OR push_bit 8 (ucast b) OR ucast c in
     if length out + 5 \<ge> lim then out
     else enc_loop lim p (out @ [t64e ! unat (drop_bit 18 b24), e64 (drop_bit 12 b24), e64 (drop_bit 6 b24), e64 b24]))"
| "enc_loop lim [a, b] out =
    (let b24 = push_bit 16 (ucast a) OR push_bit 8 (ucast b) in
     if length out + 4 \<ge> lim then out
     else out @ [t64e ! unat (drop_bit 18 b24), e64 (drop_bit 12 b24), e64 (drop_bit 6 b24)])"
| "enc_loop lim [a] out =
    (let b24 = push_bit 16 (ucast a) in
     if length out + 4 \<ge> lim then out
     else out @ [t64e ! unat (drop_bit 18 b24), e64 (drop_bit 12 b24), 61])"
| "enc_loop lim [] out = out"

definition enc64 :: "nat \<Rightarrow> u8 list \<Rightarrow> u8 list" where
  "enc64 lim p = enc_loop lim p [] @ [61]"

text \<open>A \<open>char\<close> is signed on the modelled machines: from 128 on the index of \<open>t64d\<close> is negative.\<close>

fun dec_loop :: "nat \<Rightarrow> u8 list \<Rightarrow> nat \<Rightarrow> u32 \<Rightarrow> u8 list \<Rightarrow> u8 list res" where
  "dec_loop lim [] i b24 out =
    (if i = 2 then (if length out + 1 > lim then Inr out else Inr (out @ [ucast (drop_bit 16 b24)]))
     else if i = 3 then (if length out + 2 > lim then Inr out else Inr (out @ [ucast (drop_bit 16 b24), ucast (drop_bit 8 b24)]))
     else Inr out)"
| "dec_loop lim (ch # p) i b24 out =
    (if 128 \<le> unat ch then Inl Undef
     else let d = t64d ! unat ch; c = ucast d :: u32 in
     if d = 255 then dec_loop lim p i b24 out
     else if i = 0 then dec_loop lim p 1 (push_bit 18 c) out
     else if i = 1 then dec_loop lim p 2 (b24 OR push_bit 12 c) out
     else if i = 2 then dec_loop lim p 3 (b24 OR push_bit 6 c) out
     else if length out + 3 > lim then Inr out
     else let b = b24 OR c in dec_loop lim p 0 b (out @ [ucast (drop_bit 16 b), ucast (drop_bit 8 b), ucast b]))"

definition dec64 :: "nat \<Rightarrow> u8 list \<Rightarrow> u8 list res" where
  "dec64 lim p = dec_loop lim p 0 0 []"

section \<open>RC4 is a permutation with two pointers\<close>

definition rc4_ok :: "rc4state \<Rightarrow> bool" where
  "rc4_ok key \<longleftrightarrow> distinct (rstate key) \<and> set (rstate key) = UNIV \<and> length (rstate key) = 256"

lemma swap_ok: "length s = 256 \<Longrightarrow> distinct (swap_byte i j s) = distinct s \<and> set (swap_byte i j s) = set s \<and> length (swap_byte i j s) = 256"
proof -
  assume l: "length s = 256"
  have "unat w < length s" for w :: u8 using unsigned_less [of w] l by simp
  then show ?thesis unfolding swap_byte_def by (simp add: l)
qed

lemma rc4_byte_ok: "rc4_ok key \<Longrightarrow> rc4_ok (fst (rc4_byte key))"
  using swap_ok [of "rstate key"] by (simp add: rc4_byte_def rc4_ok_def Let_def)

lemma rc4_loop_Cons:
  "rc4_loop key (b # p) = (let r = rc4_loop (fst (rc4_byte key)) p in (fst r, (b XOR snd (rc4_byte key)) # snd r))"
  by (simp add: Let_def split: prod.split)

lemma rc4_loop_ok: "rc4_ok key \<Longrightarrow> rc4_ok (fst (rc4_loop key p))"
  by (induction p arbitrary: key) (simp_all add: rc4_loop_Cons rc4_byte_ok Let_def del: rc4_loop.simps(2))

lemma setup_loop:
  "distinct s \<Longrightarrow> set s = UNIV \<Longrightarrow> length s = 256 \<Longrightarrow>
    (case fold (setup_step p) xs (s, i, j) of (s', _, _) \<Rightarrow> distinct s' \<and> set s' = UNIV \<and> length s' = 256)"
proof (induction xs arbitrary: s i j)
  case (Cons x xs)
  obtain s1 i1 j1 where st: "setup_step p x (s, i, j) = (s1, i1, j1)" by (metis prod_cases3)
  then have "s1 = swap_byte (of_nat x) j1 s" by (auto simp: setup_step_def Let_def)
  then show ?case using Cons.IH [of s1 i1 j1] Cons.prems swap_ok [of s] st by simp
qed simp

lemma setup_ok:
  assumes "setupRC4state p = Inr key"
  shows "rc4_ok key"
proof -
  let ?s = "map of_nat [0..<256] :: u8 list"
  have l: "length ?s = 256" by simp
  have d: "distinct ?s"
    unfolding distinct_map by (auto intro!: inj_onI simp: unsigned_of_nat take_bit_nat_eq_self dest!: arg_cong [where f = unat])
  have "card (set ?s) = 256" using distinct_card [OF d] l by simp
  moreover have "card (UNIV :: u8 set) = 256" by (simp add: card_word)
  ultimately have "set ?s = UNIV" by (intro card_subset_eq) auto
  then show ?thesis using setup_loop [OF d _ l, of p "[0..<256]" 0 0] assms
    by (auto simp: setupRC4state_def rc4_ok_def split: if_splits prod.splits)
qed

lemma rc4_loop_append:
  "rc4_loop key (p @ q) = (let r = rc4_loop key p; t = rc4_loop (fst r) q in (fst t, snd r @ snd t))"
  by (induction p arbitrary: key) (simp_all add: rc4_loop_Cons Let_def del: rc4_loop.simps(2))

lemma rc4_loop_inverse: "rc4_loop key (snd (rc4_loop key p)) = (fst (rc4_loop key p), p)"
  by (induction p arbitrary: key) (simp_all add: rc4_loop_Cons Let_def xor.assoc del: rc4_loop.simps(2))

text \<open>The records of a connection one after the other.\<close>

fun rc4_records :: "rc4state \<Rightarrow> u8 list list \<Rightarrow> (rc4state \<times> u8 list) res" where
  "rc4_records key [] = Inr (key, [])"
| "rc4_records key (p # ps) = bindR (rc4 key p) (\<lambda>(k1, c). bindR (rc4_records k1 ps) (\<lambda>(k2, d). Inr (k2, c @ d)))"

lemma rc4_records_loop:
  "rc4_records key ps = (if \<exists>p \<in> set ps. length p > 32767 then Inl Undef else Inr (rc4_loop key (concat ps)))"
proof (induction ps arbitrary: key)
  case (Cons p ps)
  then show ?case by (auto simp: rc4_def rc4_loop_append Let_def split_beta)
qed simp

section \<open>Base 64 is inverted\<close>

lemma tables: "length t64e = 64" "length t64d = 256" by code_simp+

lemma t64_inverse: "i < 64 \<Longrightarrow> t64d ! unat (t64e ! i) = of_nat i \<and> unat (t64e ! i) < 128"
proof -
  have "\<forall>i \<in> set [0..<64]. t64d ! unat (t64e ! i) = of_nat i \<and> unat (t64e ! i) < 128" by code_simp
  then show "i < 64 \<Longrightarrow> ?thesis" by simp
qed

lemma dec_char:
  assumes "w < 64"
  shows "dec_loop lim (t64e ! unat w # p) i b24 out =
    (if i = 0 then dec_loop lim p 1 (push_bit 18 w) out
     else if i = 1 then dec_loop lim p 2 (b24 OR push_bit 12 w) out
     else if i = 2 then dec_loop lim p 3 (b24 OR push_bit 6 w) out
     else if length out + 3 > lim then Inr out
     else let b = b24 OR w in dec_loop lim p 0 b (out @ [ucast (drop_bit 16 b), ucast (drop_bit 8 b), ucast b]))"
proof -
  have u: "unat w < 64" using assms by (simp add: word_less_nat_alt)
  have d: "t64d ! unat (t64e ! unat w) = ucast w" "\<not> 128 \<le> unat (t64e ! unat w)" using t64_inverse [OF u] by simp_all
  have b: "\<not> bit w i" if "6 \<le> i" for i using bit_above [of w 6 i] u that by simp
  have n: "(ucast (ucast w :: u8) :: u32) = w"
    by (rule word32_eq_bits) (simp add: upt_32 bit_simps b)
  have "(ucast (ucast w :: u8) :: u32) \<noteq> ucast (255 :: u8)" unfolding n using assms by auto
  then have n': "(ucast w :: u8) \<noteq> 255" by metis
  show ?thesis using n n' by (simp add: d Let_def)
qed

lemma six: "w AND 0x3f < (64 :: u32)"
proof -
  have "w AND 0x3f \<le> (0x3f :: u32)" by (rule word_and_le1)
  then show ?thesis by (rule order_le_less_trans) simp
qed

lemma group_bits:
  fixes a b c :: u8
  defines "w \<equiv> push_bit 16 (ucast a) OR push_bit 8 (ucast b) OR ucast c :: u32"
  shows "drop_bit 18 w < 64" "(ucast (drop_bit 16 w) :: u8) = a" "(ucast (drop_bit 8 w) :: u8) = b" "(ucast w :: u8) = c"
    "push_bit 18 (drop_bit 18 w) OR push_bit 12 (drop_bit 12 w AND 0x3f) OR push_bit 6 (drop_bit 6 w AND 0x3f) OR (w AND 0x3f) = w"
proof -
  have "drop_bit 18 w = drop_bit 18 w AND 0x3f"
    by (rule word32_eq_bits) (simp add: upt_32 bit_simps w_def)
  then show "drop_bit 18 w < 64" using six by metis
  show "(ucast (drop_bit 16 w) :: u8) = a" "(ucast (drop_bit 8 w) :: u8) = b" "(ucast w :: u8) = c"
    by (rule word8_eq_bits, simp add: upt_8 bit_simps w_def)+
  show "push_bit 18 (drop_bit 18 w) OR push_bit 12 (drop_bit 12 w AND 0x3f) OR push_bit 6 (drop_bit 6 w AND 0x3f) OR (w AND 0x3f) = w"
    by (rule word32_eq_bits) (simp add: upt_32 bit_simps w_def, simp add: numeral_2_eq_2 numeral_3_eq_3)
qed


text \<open>Decoding a group of four, three or two characters.\<close>

lemma t64_hi: "w < 64 \<Longrightarrow> t64e ! unat w = e64 w"
proof -
  assume w: "w < (64 :: u32)"
  then have u: "unat w < 2 ^ 6" by (simp add: word_less_nat_alt)
  have "\<not> bit w i" if "6 \<le> i" for i by (rule bit_above [OF u that])
  then have "w AND 0x3f = w" by (intro word32_eq_bits) (simp add: upt_32 bit_simps)
  then show ?thesis by (simp add: e64_def)
qed

lemma dec_pad: "dec_loop lim (61 # p) i x out = dec_loop lim p i x out"
proof -
  have "t64d ! 61 = 255" by code_simp
  then show ?thesis by simp
qed

lemma dec_chars:
  assumes "v0 < 64" and "v1 < 64" and "v2 < 64" and "v3 < 64"
  shows "length out + 3 \<le> lim \<Longrightarrow> w = push_bit 18 v0 OR push_bit 12 v1 OR push_bit 6 v2 OR v3 \<Longrightarrow>
      dec_loop lim (t64e ! unat v0 # t64e ! unat v1 # t64e ! unat v2 # t64e ! unat v3 # p) 0 x out =
      dec_loop lim p 0 w (out @ [ucast (drop_bit 16 w), ucast (drop_bit 8 w), ucast w])"
    "length out + 2 \<le> lim \<Longrightarrow> w = push_bit 18 v0 OR push_bit 12 v1 OR push_bit 6 v2 \<Longrightarrow>
      dec_loop lim [t64e ! unat v0, t64e ! unat v1, t64e ! unat v2, 61] 0 x out = Inr (out @ [ucast (drop_bit 16 w), ucast (drop_bit 8 w)])"
    "length out + 1 \<le> lim \<Longrightarrow> w = push_bit 18 v0 OR push_bit 12 v1 \<Longrightarrow>
      dec_loop lim [t64e ! unat v0, t64e ! unat v1, 61, 61] 0 x out = Inr (out @ [ucast (drop_bit 16 w)])"
  by (simp_all add: dec_char [OF assms(1)] dec_char [OF assms(2)] dec_char [OF assms(3)] dec_char [OF assms(4)] dec_pad Let_def or.assoc del: dec_loop.simps(2))

lemma dec_groups:
  fixes a b c :: u8
  defines "w \<equiv> push_bit 16 (ucast a) OR push_bit 8 (ucast b) OR ucast c :: u32"
  shows "length out + 3 \<le> lim \<Longrightarrow>
      dec_loop lim (t64e ! unat (drop_bit 18 w) # e64 (drop_bit 12 w) # e64 (drop_bit 6 w) # e64 w # p) 0 x out = dec_loop lim p 0 w (out @ [a, b, c])"
    "c = 0 \<Longrightarrow> length out + 2 \<le> lim \<Longrightarrow>
      dec_loop lim [t64e ! unat (drop_bit 18 w), e64 (drop_bit 12 w), e64 (drop_bit 6 w), 61] 0 x out = Inr (out @ [a, b])"
    "b = 0 \<Longrightarrow> c = 0 \<Longrightarrow> length out + 1 \<le> lim \<Longrightarrow>
      dec_loop lim [t64e ! unat (drop_bit 18 w), e64 (drop_bit 12 w), 61, 61] 0 x out = Inr (out @ [a])"
proof -
  note g = group_bits [of a b c, folded w_def]
  note d = dec_chars [of "drop_bit 18 w" "drop_bit 12 w AND 0x3f" "drop_bit 6 w AND 0x3f" "w AND 0x3f", OF g(1) six six six, folded e64_def]
  show "length out + 3 \<le> lim \<Longrightarrow>
      dec_loop lim (t64e ! unat (drop_bit 18 w) # e64 (drop_bit 12 w) # e64 (drop_bit 6 w) # e64 w # p) 0 x out = dec_loop lim p 0 w (out @ [a, b, c])"
    using d(1) [OF _ g(5) [symmetric]] g(2-4) by simp
  assume c: "c = 0"
  have z: "push_bit 18 (drop_bit 18 w) OR push_bit 12 (drop_bit 12 w AND 0x3f) OR push_bit 6 (drop_bit 6 w AND 0x3f) = w"
    by (rule word32_eq_bits) (simp add: upt_32 bit_simps w_def c, simp add: numeral_2_eq_2 numeral_3_eq_3)
  show "length out + 2 \<le> lim \<Longrightarrow>
      dec_loop lim [t64e ! unat (drop_bit 18 w), e64 (drop_bit 12 w), e64 (drop_bit 6 w), 61] 0 x out = Inr (out @ [a, b])"
    using d(2) [OF _ z [symmetric]] g(2,3) by simp
  assume b: "b = 0"
  have z: "push_bit 18 (drop_bit 18 w) OR push_bit 12 (drop_bit 12 w AND 0x3f) = w"
    by (rule word32_eq_bits) (simp add: upt_32 bit_simps w_def b c, simp add: numeral_2_eq_2 numeral_3_eq_3)
  show "length out + 1 \<le> lim \<Longrightarrow>
      dec_loop lim [t64e ! unat (drop_bit 18 w), e64 (drop_bit 12 w), 61, 61] 0 x out = Inr (out @ [a])"
    using d(3) [OF _ z [symmetric]] g(2) by simp
qed

lemma dec_enc:
  "4 * ((length p + 2) div 3) + 2 + length s \<le> lim \<Longrightarrow> length out + length p \<le> lim' \<Longrightarrow>
   \<exists>t. enc_loop lim p s = s @ t \<and> (\<forall>x. dec_loop lim' (t @ [61]) 0 x out = Inr (out @ p))"
proof (induction lim p s arbitrary: out rule: enc_loop.induct)
  case (1 lim a b c p s)
  let ?w = "push_bit 16 (ucast a) OR push_bit 8 (ucast b) OR ucast c :: u32"
  let ?g = "[t64e ! unat (drop_bit 18 ?w), e64 (drop_bit 12 ?w), e64 (drop_bit 6 ?w), e64 ?w]"
  have l: "\<not> lim \<le> length s + 5" using 1(2) by simp
  have "(length (a # b # c # p) + 2) div 3 = (length p + 2) div 3 + 1" by simp
  then have l2: "4 * ((length p + 2) div 3) + 2 + length (s @ ?g) \<le> lim" "length (out @ [a, b, c]) + length p \<le> lim'" "length out + 3 \<le> lim'"
    using 1(2,3) by simp_all
  obtain t where t: "enc_loop lim p (s @ ?g) = (s @ ?g) @ t" "\<forall>x. dec_loop lim' (t @ [61]) 0 x (out @ [a, b, c]) = Inr ((out @ [a, b, c]) @ p)"
    using 1(1) [OF refl _ l2(1,2)] l by auto
  have "dec_loop lim' ((?g @ t) @ [61]) 0 x out = Inr (out @ a # b # c # p)" for x
    using dec_groups(1) [OF l2(3), of a b c "t @ [61]" x] t(2) by simp
  then show ?case using l t(1) by (intro exI [of _ "?g @ t"]) (simp add: Let_def)
next
  case (2 lim a b s)
  have z: "push_bit 16 (ucast a) OR push_bit 8 (ucast b) OR ucast (0 :: u8) = (push_bit 16 (ucast a) OR push_bit 8 (ucast b) :: u32)" by simp
  show ?case using 2 dec_groups(2) [of 0 out lim' a b, unfolded z] by (intro exI) (auto simp: Let_def)
next
  case (3 lim a s)
  have z: "push_bit 16 (ucast a) OR push_bit 8 (ucast (0 :: u8)) OR ucast (0 :: u8) = (push_bit 16 (ucast a) :: u32)" by simp
  show ?case using 3 dec_groups(3) [of 0 0 out lim' a, unfolded z] by (intro exI) (auto simp: Let_def)
next
  case (4 lim s)
  then show ?case by (intro exI [of _ "[]"]) (simp add: dec_pad del: dec_loop.simps(2))
qed

lemma enc_bound: "length s + 2 \<le> lim \<Longrightarrow> length (enc_loop lim p s) + 2 \<le> lim"
  by (induction lim p s rule: enc_loop.induct) (auto simp: Let_def)

lemma dec_bound: "dec_loop lim p i b out = Inr r \<Longrightarrow> length out \<le> lim \<Longrightarrow> length r \<le> lim"
  by (induction lim p i b out rule: dec_loop.induct) (auto simp: Let_def split: if_splits)

section \<open>Properties\<close>

text \<open>
  C35. With the state set up from a key, a connection that encrypts its records one after the other is decrypted by a
  second state set up from the key, even if the bytes arrive cut into other records; both states stay permutations
  of the 256 bytes and end equal.
\<close>

theorem rc4_roundtrip:
  assumes "setupRC4state kw = Inr key" and "rc4_records key ps = Inr (key', c)" and "concat qs = c" and "\<forall>q \<in> set qs. length q \<le> 32767"
  shows "rc4_records key qs = Inr (key', concat ps) \<and> distinct (rstate key') \<and> set (rstate key') = UNIV"
proof -
  have "rc4_ok key" by (rule setup_ok [OF assms(1)])
  then have "rc4_ok (fst (rc4_loop key (concat ps)))" by (rule rc4_loop_ok)
  moreover have c: "rc4_loop key (concat ps) = (key', c)" using assms(2) by (simp add: rc4_records_loop split: if_splits)
  moreover have "\<not> (\<exists>q \<in> set qs. length q > 32767)" using assms(4) by (simp add: not_less)
  moreover have "rc4_loop key (concat qs) = (key', concat ps)" using rc4_loop_inverse [of key "concat ps"] c assms(3) by simp
  ultimately show ?thesis unfolding rc4_records_loop by (simp add: rc4_ok_def)
qed

definition key_one :: rc4state where
  "key_one = (case setupRC4state [1] of Inr key \<Rightarrow> key | Inl _ \<Rightarrow> \<lparr>rstate = [], rx = 0, ry = 0\<rparr>)"

lemma key_one: "setupRC4state [1] = Inr key_one"
  by (simp add: key_one_def setupRC4state_def split: sum.split prod.split)

theorem rc4_roundtrip_witness:
  "\<exists>key c d. setupRC4state [1] = Inr key \<and> rc4_records key [[65, 66], [67]] = Inr (fst (rc4_loop key [65, 66, 67]), [c, d, snd (rc4_loop key [65, 66, 67]) ! 2]) \<and>
    rc4_records key [[c], [d, snd (rc4_loop key [65, 66, 67]) ! 2]] = Inr (fst (rc4_loop key [65, 66, 67]), [65, 66, 67])"
proof -
  let ?r = "rc4_loop key_one [65, 66, 67]"
  have l: "length (snd ?r) = 3" by (simp add: split: prod.split)
  obtain c d e where c: "snd ?r = [c, d, e]" using l by (auto simp: numeral_3_eq_3 length_Suc_conv)
  have run: "rc4_records key_one [[65, 66], [67]] = Inr (fst ?r, [c, d, e])"
    unfolding rc4_records_loop using c by (simp del: rc4_loop.simps) (metis prod.collapse)
  have "rc4_records key_one [[c], [d, e]] = Inr (fst ?r, concat [[65, 66], [67]])"
    using rc4_roundtrip [OF key_one run, of "[[c], [d, e]]"] by simp
  then show ?thesis using key_one run c by (intro exI [of _ key_one] exI [of _ c] exI [of _ d]) (simp del: rc4_loop.simps)
qed

text \<open>
  C36. What \<open>enc64\<close> writes, its NUL included, fits the buffer, and if the buffer has two places more than the
  characters of the groups nothing is lost: \<open>dec64\<close> gives back the bytes; and \<open>dec64\<close> never writes more than its limit.
\<close>

theorem u64_roundtrip:
  assumes "2 \<le> lim"
  shows "length (enc64 lim p @ [0]) \<le> lim \<and> (dec64 lim' s = Inr r \<longrightarrow> length r \<le> lim') \<and>
    (4 * ((length p + 2) div 3) + 2 \<le> lim \<and> length p \<le> lim' \<longrightarrow> dec64 lim' (enc64 lim p) = Inr p)"
proof (intro conjI impI)
  show "length (enc64 lim p @ [0]) \<le> lim" using enc_bound [of "[]" lim p] assms by (simp add: enc64_def)
  show "length r \<le> lim'" if "dec64 lim' s = Inr r" using dec_bound [of lim' s 0 0 "[]" r] that by (simp add: dec64_def)
  show "dec64 lim' (enc64 lim p) = Inr p" if "4 * ((length p + 2) div 3) + 2 \<le> lim \<and> length p \<le> lim'"
    using dec_enc [of p "[]" lim "[]" lim'] that by (auto simp: dec64_def enc64_def)
qed

theorem u64_roundtrip_witness: "dec64 4 (enc64 10 [1, 2, 3, 255]) = Inr [1, 2, 3, 255] \<and> length (enc64 10 [1, 2, 3, 255]) < 10"
  using u64_roundtrip [of 10 "[1, 2, 3, 255]" 4 "[]" "[]"] by simp

end
