(* ===== verification/Regex.thy ===== *)
theory Regex
  imports Utf "HOL-Library.Option_ord"
begin

text \<open>
  Regular expressions, \<^verbatim>\<open>libregexp\<close>: \<^verbatim>\<open>regcomp.c\<close> compiles an expression with a stack of operators and a
  stack of operands into a program, \<^verbatim>\<open>regexec.c\<close> runs the program on a string with a list of threads per
  character, \<^verbatim>\<open>regaux.c\<close> keeps the lists.
\<close>

section \<open>Programs\<close>

text \<open>The types of instructions and tokens; for operators the value is the precedence.\<close>

abbreviation tRUNE :: nat where "tRUNE \<equiv> 127"
abbreviation tOPERATOR :: nat where "tOPERATOR \<equiv> 128"
abbreviation tSTART :: nat where "tSTART \<equiv> 128"
abbreviation tRBRA :: nat where "tRBRA \<equiv> 129"
abbreviation tLBRA :: nat where "tLBRA \<equiv> 130"
abbreviation tOR :: nat where "tOR \<equiv> 131"
abbreviation tCAT :: nat where "tCAT \<equiv> 132"
abbreviation tSTAR :: nat where "tSTAR \<equiv> 133"
abbreviation tPLUS :: nat where "tPLUS \<equiv> 134"
abbreviation tQUEST :: nat where "tQUEST \<equiv> 135"
abbreviation tANY :: nat where "tANY \<equiv> 192"
abbreviation tANYNL :: nat where "tANYNL \<equiv> 193"
abbreviation tNOP :: nat where "tNOP \<equiv> 194"
abbreviation tBOL :: nat where "tBOL \<equiv> 195"
abbreviation tEOL :: nat where "tEOL \<equiv> 196"
abbreviation tCCLASS :: nat where "tCCLASS \<equiv> 197"
abbreviation tNCCLASS :: nat where "tNCCLASS \<equiv> 198"
abbreviation tEND :: nat where "tEND \<equiv> 255"

definition NSUBEXP :: nat where "NSUBEXP = 32"
definition NSTACK :: nat where "NSTACK = 20"
definition NCLASS :: nat where "NCLASS = 16"

text \<open>
  \<open>Reinst\<close>; a pointer is an index into the program. The members of the union \<open>u1\<close> are spread out, each type of
  instruction uses one; \<open>left\<close> and \<open>next\<close> of \<open>u2\<close> are the same place. A class is its list of spans.
\<close>

record reinst =
  itype :: nat
  icp :: "(u16 \<times> u16) list"
  ir :: u16
  isubid :: nat
  iright :: "nat option"
  inext :: "nat option"

section \<open>The compiler\<close>

record pstate =
  insts :: "reinst list"
  andstack :: "(nat \<times> nat) list"   \<comment> \<open>\<open>first\<close> and \<open>last\<close> of the operands, top first\<close>
  atorstack :: "(nat \<times> nat) list"   \<comment> \<open>operators with their \<open>subidstack\<close>, top first\<close>
  cursubid :: nat
  lastwasand :: bool
  nbra :: nat
  nclass :: nat
  exprp :: "u8 list"
  lexdone :: bool
  yyrune :: u16
  yyclassp :: "(u16 \<times> u16) list"
  nalloc :: nat   \<comment> \<open>the instructions there is memory for\<close>

definition rcerror :: "string \<Rightarrow> 'a res" where "rcerror s = Inl (Raise s)"

definition newinst :: "nat \<Rightarrow> pstate \<Rightarrow> (nat \<times> pstate) res" where
  "newinst t st = (if length (insts st) \<ge> nalloc st then Inl Undef else Inr (length (insts st),
     st\<lparr>insts := insts st @ [\<lparr>itype = t, icp = [], ir = 0, isubid = 0, iright = None, inext = None\<rparr>]\<rparr>))"

definition upd_inst :: "nat \<Rightarrow> (reinst \<Rightarrow> reinst) \<Rightarrow> pstate \<Rightarrow> pstate" where
  "upd_inst i f st = st\<lparr>insts := (insts st)[i := f (insts st ! i)]\<rparr>"

definition set_next :: "nat \<Rightarrow> nat \<Rightarrow> pstate \<Rightarrow> pstate" where
  "set_next i t = upd_inst i (\<lambda>x. x\<lparr>inext := Some t\<rparr>)"

definition set_right :: "nat \<Rightarrow> nat \<Rightarrow> pstate \<Rightarrow> pstate" where
  "set_right i t = upd_inst i (\<lambda>x. x\<lparr>iright := Some t\<rparr>)"

definition set_subid :: "nat \<Rightarrow> nat \<Rightarrow> pstate \<Rightarrow> pstate" where
  "set_subid i n = upd_inst i (\<lambda>x. x\<lparr>isubid := n\<rparr>)"

definition pushand :: "nat \<Rightarrow> nat \<Rightarrow> pstate \<Rightarrow> pstate res" where
  "pushand f l st = (if length (andstack st) \<ge> NSTACK then rcerror ''can't happen: operand stack overflow''
     else Inr (st\<lparr>andstack := (f, l) # andstack st\<rparr>))"

definition pushator :: "nat \<Rightarrow> pstate \<Rightarrow> pstate res" where
  "pushator t st = (if length (atorstack st) \<ge> NSTACK then rcerror ''can't happen: operator stack overflow''
     else Inr (st\<lparr>atorstack := (t, cursubid st) # atorstack st\<rparr>))"

definition popand :: "string \<Rightarrow> pstate \<Rightarrow> ((nat \<times> nat) \<times> pstate) res" where
  "popand op st = (case andstack st of [] \<Rightarrow> rcerror (''missing operand for '' @ op)
     | x # xs \<Rightarrow> Inr (x, st\<lparr>andstack := xs\<rparr>))"

text \<open>One turn of the loop of \<open>evaluntil\<close>, for an operator taken from the stack with its \<open>*subidp\<close>; \<open>True\<close> is the \<open>return\<close>.\<close>

definition eval_op :: "nat \<Rightarrow> nat \<Rightarrow> pstate \<Rightarrow> (bool \<times> pstate) res" where
  "eval_op op subid st =
    (if op = tLBRA then
       bindR (popand ''('' st) (\<lambda>((f1, l1), st1). bindR (newinst tRBRA st1) (\<lambda>(inst2, st2).
       bindR (newinst tLBRA (set_next l1 inst2 (set_subid inst2 subid st2))) (\<lambda>(inst1, st3).
       bindR (pushand inst1 inst2 (set_next inst1 f1 (set_subid inst1 subid st3))) (\<lambda>st4. Inr (True, st4)))))
     else if op = tOR then
       bindR (popand ''|'' st) (\<lambda>((f2, l2), st1). bindR (popand ''|'' st1) (\<lambda>((f1, l1), st2). bindR (newinst tNOP st2) (\<lambda>(inst2, st3).
       bindR (newinst tOR (set_next l1 inst2 (set_next l2 inst2 st3))) (\<lambda>(inst1, st4).
       bindR (pushand inst1 inst2 (set_next inst1 f2 (set_right inst1 f1 st4))) (\<lambda>st5. Inr (False, st5))))))
     else if op = tCAT then
       bindR (popand [] st) (\<lambda>((f2, l2), st1). bindR (popand [] st1) (\<lambda>((f1, l1), st2).
       bindR (pushand f1 l2 (set_next l1 f2 st2)) (\<lambda>st3. Inr (False, st3))))
     else if op = tSTAR then
       bindR (popand ''*'' st) (\<lambda>((f2, l2), st1). bindR (newinst tOR st1) (\<lambda>(inst1, st2).
       bindR (pushand inst1 inst1 (set_right inst1 f2 (set_next l2 inst1 st2))) (\<lambda>st3. Inr (False, st3))))
     else if op = tPLUS then
       bindR (popand ''+'' st) (\<lambda>((f2, l2), st1). bindR (newinst tOR st1) (\<lambda>(inst1, st2).
       bindR (pushand f2 inst1 (set_right inst1 f2 (set_next l2 inst1 st2))) (\<lambda>st3. Inr (False, st3))))
     else if op = tQUEST then
       bindR (popand ''?'' st) (\<lambda>((f2, l2), st1). bindR (newinst tOR st1) (\<lambda>(inst1, st2). bindR (newinst tNOP st2) (\<lambda>(inst2, st3).
       bindR (pushand inst1 inst2 (set_next l2 inst2 (set_right inst1 f2 (set_next inst1 inst2 st3)))) (\<lambda>st4. Inr (False, st4)))))
     else rcerror ''unknown operator in evaluntil'')"

text \<open>
  Every turn takes an operator; below the stack \<open>popator\<close> complains, but the test of the precedence has read
  \<open>atorp[-1]\<close> before unless \<open>pri\<close> is \<open>RBRA\<close>.
\<close>

fun eval_loop :: "nat \<Rightarrow> nat \<Rightarrow> pstate \<Rightarrow> pstate res" where
  "eval_loop n pri st = (case atorstack st of
     [] \<Rightarrow> if pri = tRBRA then rcerror ''can't happen: operator stack underflow'' else Inl Undef
   | (op, subid) # ops \<Rightarrow>
       if pri = tRBRA \<or> op \<ge> pri then
         bindR (eval_op op subid (st\<lparr>atorstack := ops\<rparr>)) (\<lambda>(stop, st1).
         if stop then Inr st1 else case n of 0 \<Rightarrow> Inl Loop | Suc m \<Rightarrow> eval_loop m pri st1)
       else Inr st)"

definition evaluntil :: "nat \<Rightarrow> pstate \<Rightarrow> pstate res" where
  "evaluntil pri st = eval_loop (length (atorstack st)) pri st"

definition operator_cat :: "pstate \<Rightarrow> pstate res" where   \<comment> \<open>\<open>operator(CAT)\<close>\<close>
  "operator_cat st = bindR (evaluntil tCAT st) (\<lambda>st1. bindR (pushator tCAT st1) (\<lambda>st2. Inr (st2\<lparr>lastwasand := False\<rparr>)))"

definition operator :: "nat \<Rightarrow> pstate \<Rightarrow> pstate res" where
  "operator t st =
    (if t = tCAT then operator_cat st
     else if t = tRBRA \<and> nbra st = 0 then rcerror ''unmatched right paren''
     else let st1 = (if t = tRBRA then st\<lparr>nbra := nbra st - 1\<rparr> else st) in
     bindR (if t = tLBRA then
         (if cursubid st1 + 1 \<ge> NSUBEXP then rcerror ''too many subexpressions''
          else let st2 = st1\<lparr>cursubid := cursubid st1 + 1, nbra := nbra st1 + 1\<rparr> in
            if lastwasand st2 then operator_cat st2 else Inr st2)
       else evaluntil t st1) (\<lambda>st3.
     bindR (if t \<noteq> tRBRA then pushator t st3 else Inr st3) (\<lambda>st4.
     Inr (st4\<lparr>lastwasand := (t = tSTAR \<or> t = tQUEST \<or> t = tPLUS \<or> t = tRBRA)\<rparr>))))"

definition operand :: "nat \<Rightarrow> pstate \<Rightarrow> pstate res" where
  "operand t st =
    bindR (if lastwasand st then operator_cat st else Inr st) (\<lambda>st1. bindR (newinst t st1) (\<lambda>(i, st2).
    let st3 = (if t = tCCLASS \<or> t = tNCCLASS then upd_inst i (\<lambda>x. x\<lparr>icp := yyclassp st2\<rparr>) st2 else st2);
        st4 = (if t = tRUNE then upd_inst i (\<lambda>x. x\<lparr>ir := yyrune st3\<rparr>) st3 else st3) in
    bindR (pushand i i st4) (\<lambda>st5. Inr (st5\<lparr>lastwasand := True\<rparr>))))"

section \<open>Tokens\<close>

definition nextc :: "pstate \<Rightarrow> bool \<times> u16 \<times> pstate" where
  "nextc st = (if lexdone st then (True, 0, st)
     else case chartorune (exprp st) of (r, n) \<Rightarrow>
       let st1 = st\<lparr>exprp := drop n (exprp st)\<rparr> in
       if r = 0x5C then (case chartorune (exprp st1) of (r1, n1) \<Rightarrow> (True, r1, st1\<lparr>exprp := drop n1 (exprp st1)\<rparr>))
       else if r = 0 then (False, 0, st1\<lparr>lexdone := True\<rparr>)
       else (False, r, st1))"

text \<open>\<open>class_spans\<close>: the loop that collects spans in \<open>r[NCCRUNE]\<close>, a pair of runes a span.\<close>

definition NCCRUNE :: nat where "NCCRUNE = 66"

fun class_spans :: "nat \<Rightarrow> bool \<Rightarrow> u16 \<Rightarrow> (u16 \<times> u16) list \<Rightarrow> pstate \<Rightarrow> ((u16 \<times> u16) list \<times> pstate) res" where
  "class_spans n quoted rune r st =
    (if 2 * length r \<ge> NCCRUNE then Inr (r, st)
     else if rune = 0 then rcerror ''malformed []''
     else if \<not> quoted \<and> rune = 0x5D then Inr (r, st)
     else bindR (if \<not> quoted \<and> rune = 0x2D then
         (if r = [] then rcerror ''malformed []''
          else case nextc st of (quoted1, rune1, st1) \<Rightarrow>
            if \<not> quoted1 \<and> rune1 = 0x5D \<or> rune1 = 0 then rcerror ''malformed []''
            else Inr (butlast r @ [(fst (last r), rune1)], st1))
       else Inr (r @ [(rune, rune)], st)) (\<lambda>(r1, st2).
     case nextc st2 of (quoted2, rune2, st3) \<Rightarrow> case n of 0 \<Rightarrow> Inl Loop | Suc m \<Rightarrow> class_spans m quoted2 rune2 r1 st3))"

definition swap_spans :: "nat \<Rightarrow> nat \<Rightarrow> (u16 \<times> u16) list \<Rightarrow> (u16 \<times> u16) list" where
  "swap_spans p np r = (if fst (r ! np) < fst (r ! p) then r[np := r ! p, p := r ! np] else r)"

definition sort_spans :: "(u16 \<times> u16) list \<Rightarrow> (u16 \<times> u16) list" where
  "sort_spans r = fold (\<lambda>p. fold (swap_spans p) [p..<length r]) [0..<length r] r"

fun merge_spans :: "u16 \<times> u16 \<Rightarrow> (u16 \<times> u16) list \<Rightarrow> (u16 \<times> u16) list" where
  "merge_spans np [] = [np]"
| "merge_spans np (p # ps) =
    (if fst p \<le> snd np then merge_spans (fst np, if snd p > snd np then snd p else snd np) ps
     else np # merge_spans p ps)"

text \<open>\<open>spans\<close> of \<open>Reclass\<close> has 64 runes.\<close>

definition store_class :: "(u16 \<times> u16) list \<Rightarrow> (u16 \<times> u16) list res" where
  "store_class r = (case sort_spans r of [] \<Rightarrow> Inr []
     | np # ps \<Rightarrow> if 2 * length (merge_spans np ps) > 64 then Inl Undef else Inr (merge_spans np ps))"

definition bldcclass :: "pstate \<Rightarrow> (nat \<times> pstate) res" where
  "bldcclass st =
    (if nclass st \<ge> NCLASS then rcerror ''too many character classes; limit@''
     else let st1 = st\<lparr>nclass := nclass st + 1\<rparr> in
     case nextc st1 of (quoted, rune, st2) \<Rightarrow>
     let neg = (\<not> quoted \<and> rune = 0x5E); (quoted1, rune1, st3) = (if neg then nextc st2 else (quoted, rune, st2)) in
     bindR (class_spans (length (exprp st3) + 1) quoted1 rune1 (if neg then [(0xA, 0xA)] else []) st3) (\<lambda>(r, st4).
     bindR (store_class r) (\<lambda>c. Inr (if neg then tNCCLASS else tCCLASS, st4\<lparr>yyclassp := c\<rparr>))))"

definition lex :: "bool \<Rightarrow> nat \<Rightarrow> pstate \<Rightarrow> (nat \<times> pstate) res" where
  "lex literal dot_type st = (case nextc st of (quoted, rune, st0) \<Rightarrow>
    let st1 = st0\<lparr>yyrune := rune\<rparr> in
    if literal \<or> quoted then Inr (if rune = 0 then tEND else tRUNE, st1)
    else if rune = 0 then Inr (tEND, st1)
    else if rune = 0x2A then Inr (tSTAR, st1)
    else if rune = 0x3F then Inr (tQUEST, st1)
    else if rune = 0x2B then Inr (tPLUS, st1)
    else if rune = 0x7C then Inr (tOR, st1)
    else if rune = 0x2E then Inr (dot_type, st1)
    else if rune = 0x28 then Inr (tLBRA, st1)
    else if rune = 0x29 then Inr (tRBRA, st1)
    else if rune = 0x5E then Inr (tBOL, st1)
    else if rune = 0x24 then Inr (tEOL, st1)
    else if rune = 0x5B then bldcclass st1
    else Inr (tRUNE, st1))"

section \<open>From the expression to the program\<close>

text \<open>The token loop up to \<open>END\<close>; every token takes a byte, so one turn more than there are bytes is enough.\<close>

fun tok_loop :: "nat \<Rightarrow> bool \<Rightarrow> nat \<Rightarrow> pstate \<Rightarrow> pstate res" where
  "tok_loop n literal dot_type st =
    bindR (lex literal dot_type st) (\<lambda>(token, st1).
    if token = tEND then Inr st1
    else bindR (if token AND 0xC0 = tOPERATOR then operator token st1 else operand token st1) (\<lambda>st2.
    case n of 0 \<Rightarrow> Inl Loop | Suc m \<Rightarrow> tok_loop m literal dot_type st2))"

text \<open>\<open>optimize\<close>: the \<open>next\<close> pointers skip chains of \<open>NOP\<close>; the move to a smaller area keeps the indices.\<close>

fun skip_nop :: "nat \<Rightarrow> reinst list \<Rightarrow> nat option \<Rightarrow> nat res" where
  "skip_nop n prog t = (case t of None \<Rightarrow> Inl Trap
     | Some i \<Rightarrow> if itype (prog ! i) = tNOP then (case n of 0 \<Rightarrow> Inl Loop | Suc m \<Rightarrow> skip_nop m prog (inext (prog ! i))) else Inr i)"

definition opt_inst :: "nat \<Rightarrow> reinst list \<Rightarrow> reinst list res" where
  "opt_inst i prog = bindR (skip_nop (length prog) prog (inext (prog ! i))) (\<lambda>t. Inr (prog[i := (prog ! i)\<lparr>inext := Some t\<rparr>]))"

definition optimize :: "reinst list \<Rightarrow> reinst list res" where
  "optimize prog = foldR opt_inst [0..<length (takeWhile (\<lambda>x. itype x \<noteq> tEND) prog)] prog"

definition pinit :: "u8 list \<Rightarrow> pstate" where
  "pinit s = \<lparr>insts = [], andstack = [], atorstack = [], cursubid = 0, lastwasand = False, nbra = 0, nclass = 0,
     exprp = s, lexdone = False, yyrune = 0, yyclassp = [], nalloc = 5 + 6 * length s\<rparr>"

text \<open>The result is the program and its \<open>startinst\<close>. \<open>Reprog\<close> has 5 instructions and there is memory for 6 more for each byte; every error leaves through \<open>longjmp\<close> and frees it.\<close>

definition regcomp1 :: "u8 list \<Rightarrow> bool \<Rightarrow> nat \<Rightarrow> (reinst list \<times> nat) res" where
  "regcomp1 s literal dot_type =
    bindR (pushator (tSTART - 1) (pinit s)) (\<lambda>st1.
    bindR (tok_loop (length s) literal dot_type st1) (\<lambda>st2.
    bindR (evaluntil tSTART st2) (\<lambda>st3.
    bindR (operand tEND st3) (\<lambda>st4.
    bindR (evaluntil tSTART st4) (\<lambda>st5.
    if nbra st5 \<noteq> 0 then rcerror ''unmatched left paren''
    else case andstack st5 of [] \<Rightarrow> Inl Undef   \<comment> \<open>\<open>--andp\<close>\<close>
    | (f, l) # _ \<Rightarrow> bindR (optimize (insts st5)) (\<lambda>prog. Inr (prog, f)))))))"

definition regcomp :: "u8 list \<Rightarrow> (reinst list \<times> nat) res" where "regcomp s = regcomp1 s False tANY"
definition regcomplit :: "u8 list \<Rightarrow> (reinst list \<times> nat) res" where "regcomplit s = regcomp1 s True tANY"
definition regcompnl :: "u8 list \<Rightarrow> (reinst list \<times> nat) res" where "regcompnl s = regcomp1 s False tANYNL"

section \<open>Lists of threads\<close>

text \<open>
  \<open>Resub\<close> is a pair of pointers into the string, offsets here, \<open>None\<close> for \<open>nil\<close>, which is below all others;
  \<open>Resublist\<close> has \<open>NSUBEXP\<close> of them. A list of threads ends with a null instruction and is the list before it.
\<close>

type_synonym resub = "nat option \<times> nat option"

record relist =
  linst :: nat
  lse :: "resub list"

definition sp0 :: "resub list \<Rightarrow> nat option" where "sp0 se = fst (se ! 0)"
definition ep0 :: "resub list \<Rightarrow> nat option" where "ep0 se = snd (se ! 0)"

definition renewmatch :: "resub list \<Rightarrow> resub list \<Rightarrow> resub list" where
  "renewmatch mp se = (if mp = [] then mp
     else if sp0 mp = None \<or> sp0 se < sp0 mp \<or> sp0 se = sp0 mp \<and> ep0 se > ep0 mp
     then take (length mp) se @ replicate (length mp - NSUBEXP) (None, None) else mp)"

text \<open>
  The search starts at \<open>lp\<close>, given as the part of the list before it and the rest; \<open>room\<close> is the size of the array.
  The result says whether the pointer behind the list reached \<open>room - 2\<close>; a thread that does not fit is written
  behind the array.
\<close>

fun find_inst :: "nat \<Rightarrow> relist list \<Rightarrow> nat option" where
  "find_inst ip [] = None"
| "find_inst ip (p # ps) = (if linst p = ip then Some 0 else map_option Suc (find_inst ip ps))"

definition add_thread :: "nat \<Rightarrow> relist \<Rightarrow> relist list \<Rightarrow> (relist list \<times> bool) res" where
  "add_thread room t ts = (if length ts + 2 > room then Inl Undef else Inr (ts @ [t], length ts + 1 = room - 2))"

definition renewthread :: "nat \<Rightarrow> nat \<Rightarrow> nat \<Rightarrow> resub list \<Rightarrow> relist list \<Rightarrow> (relist list \<times> bool) res" where
  "renewthread room lp ip se ts = (case find_inst ip (drop lp ts) of
     Some i \<Rightarrow> Inr (if sp0 se < sp0 (lse (ts ! (lp + i))) then ts[lp + i := (ts ! (lp + i))\<lparr>lse := se\<rparr>] else ts, False)
   | None \<Rightarrow> add_thread room \<lparr>linst = ip, lse = se\<rparr> ts)"

definition empty_se :: "nat \<Rightarrow> resub list" where
  "empty_se sp = (Some sp, None) # replicate (NSUBEXP - 1) (None, None)"

definition renewemptythread :: "nat \<Rightarrow> nat \<Rightarrow> nat \<Rightarrow> relist list \<Rightarrow> (relist list \<times> bool) res" where
  "renewemptythread room ip sp ts = renewthread room 0 ip (empty_se sp) ts"

section \<open>The machine\<close>

text \<open>What the machine knows at a position \<open>s\<close> with the rune \<open>r\<close>: \<open>bolp\<close> and \<open>eolp\<close> are the tests of \<open>BOL\<close> and \<open>EOL\<close>.\<close>

definition in_class :: "u16 \<Rightarrow> (u16 \<times> u16) list \<Rightarrow> bool" where
  "in_class r spans \<longleftrightarrow> (\<exists>p \<in> set spans. fst p \<le> r \<and> r \<le> snd p)"

definition takes :: "reinst \<Rightarrow> u16 \<Rightarrow> bool" where   \<comment> \<open>the instruction consumes the rune\<close>
  "takes i r = (if itype i = tRUNE then ir i = r
     else if itype i = tANY then r \<noteq> 0xA
     else if itype i = tANYNL then True
     else if itype i = tCCLASS then in_class r (icp i)
     else if itype i = tNCCLASS then \<not> in_class r (icp i)
     else False)"

definition passes :: "reinst \<Rightarrow> bool \<Rightarrow> bool \<Rightarrow> bool" where   \<comment> \<open>it continues with \<open>next\<close> at the same position\<close>
  "passes i bolp eolp = (if itype i = tBOL then bolp else if itype i = tEOL then eolp
     else itype i = tLBRA \<or> itype i = tRBRA \<or> itype i = tOR)"

record exec =
  tl :: "relist list"
  nl :: "relist list"
  mp :: "resub list"
  found :: bool

text \<open>
  The inner loop for the thread at \<open>tl ! k\<close>, at instruction \<open>ip\<close>; \<open>Inr None\<close> is \<open>return -1\<close>. A chain of \<open>next\<close> pointers
  that is longer than the program never ends.
\<close>

definition deref :: "reinst list \<Rightarrow> nat option \<Rightarrow> nat res" where
  "deref prog i = (case i of None \<Rightarrow> Inl Trap | Some j \<Rightarrow> if j < length prog then Inr j else Inl Undef)"

fun run_thread :: "nat \<Rightarrow> reinst list \<Rightarrow> nat \<Rightarrow> nat \<Rightarrow> u16 \<Rightarrow> bool \<Rightarrow> bool \<Rightarrow> nat \<Rightarrow> nat \<Rightarrow> exec \<Rightarrow> exec option res" where
  "run_thread n prog room s r bolp eolp k ip x =
    (let i = prog ! ip; go = (\<lambda>x. bindR (deref prog (inext i)) (\<lambda>j. case n of 0 \<Rightarrow> Inl Loop | Suc m \<Rightarrow> run_thread m prog room s r bolp eolp k j x));
         t = tl x ! k in
     if takes i r then
       bindR (deref prog (inext i)) (\<lambda>j. bindR (renewthread room 0 j (lse t) (nl x)) (\<lambda>(nl1, full).
       Inr (if full then None else Some (x\<lparr>nl := nl1\<rparr>))))
     else if (itype i = tLBRA \<or> itype i = tRBRA) \<and> isubid i \<ge> NSUBEXP then Inl Undef
     else if itype i = tLBRA then go (x\<lparr>tl := (tl x)[k := t\<lparr>lse := (lse t)[isubid i := (Some s, snd (lse t ! isubid i))]\<rparr>]\<rparr>)
     else if itype i = tRBRA then go (x\<lparr>tl := (tl x)[k := t\<lparr>lse := (lse t)[isubid i := (fst (lse t ! isubid i), Some s)]\<rparr>]\<rparr>)
     else if itype i = tBOL then (if bolp then go x else Inr (Some x))
     else if itype i = tEOL then (if eolp then go x else Inr (Some x))
     else if itype i = tOR then
       bindR (deref prog (iright i)) (\<lambda>j. bindR (renewthread room k j (lse t) (tl x)) (\<lambda>(tl1, full).
       if full then Inr None else go (x\<lparr>tl := tl1\<rparr>)))
     else if itype i = tEND then
       (let t1 = t\<lparr>lse := (lse t)[0 := (sp0 (lse t), Some s)]\<rparr> in
        Inr (Some (x\<lparr>tl := (tl x)[k := t1], mp := renewmatch (mp x) (lse t1), found := True\<rparr>)))
     else Inr (Some x))"

text \<open>The threads of the current list; the list can grow up to the size of the array, which bounds the turns.\<close>

fun run_list :: "nat \<Rightarrow> reinst list \<Rightarrow> nat \<Rightarrow> nat \<Rightarrow> u16 \<Rightarrow> bool \<Rightarrow> bool \<Rightarrow> nat \<Rightarrow> exec \<Rightarrow> exec option res" where
  "run_list n prog room s r bolp eolp k x =
    (if k < length (tl x) then
       bindR (run_thread (length prog) prog room s r bolp eolp k (linst (tl x ! k)) x) (\<lambda>y. case y of None \<Rightarrow> Inr None
       | Some x1 \<Rightarrow> (case n of 0 \<Rightarrow> Inl Loop | Suc m \<Rightarrow> run_list m prog room s r bolp eolp (k + 1) x1))
     else Inr (Some x))"

section \<open>Running a program on a string\<close>

text \<open>
  The string is its bytes, the byte after the last read as its NUL. \<open>start_skip\<close> is the fast check for the first
  character; \<open>None\<close> stands for the \<open>return match\<close> in it.
\<close>

definition start_skip :: "u8 list \<Rightarrow> nat \<Rightarrow> u16 \<Rightarrow> nat \<Rightarrow> nat option" where
  "start_skip text starttype startchar s =
    (if starttype = tRUNE then map_option ((+) s) (utfrune (drop s text) startchar)
     else if starttype = tBOL then (if s = 0 then Some s else map_option ((+) s) (utfrune (drop s text) 0xA))
     else Some s)"

definition rune_at :: "u8 list \<Rightarrow> nat \<Rightarrow> u16 \<times> nat" where
  "rune_at text s = (let c = byte_at text s in if unat c < Runeself then (ucast c, 1) else chartorune (drop s text))"

definition bol_at :: "u8 list \<Rightarrow> nat \<Rightarrow> bool" where "bol_at text s \<longleftrightarrow> s = 0 \<or> byte_at text (s - 1) = 0xA"
definition eol_at :: "nat option \<Rightarrow> nat \<Rightarrow> u16 \<Rightarrow> bool" where "eol_at eol s r \<longleftrightarrow> eol = Some s \<or> r = 0 \<or> r = 0xA"

text \<open>\<open>x\<close> holds the next list, the match and its flag; every turn goes forward in the string until the NUL.\<close>

fun reg_loop :: "nat \<Rightarrow> reinst list \<times> nat \<Rightarrow> u8 list \<Rightarrow> nat option \<Rightarrow> nat \<Rightarrow> u16 \<Rightarrow> nat \<Rightarrow> nat \<Rightarrow> exec \<Rightarrow> (int \<times> resub list) res" where
  "reg_loop n prog text eol starttype startchar room s x =
    (case (if starttype \<noteq> 0 \<and> nl x = [] then start_skip text starttype startchar s else Some s) of
       None \<Rightarrow> Inr (if found x then 1 else 0, mp x)
     | Some s \<Rightarrow> case rune_at text s of (r, w) \<Rightarrow>
       bindR (if found x then Inr (nl x, False) else renewemptythread room (snd prog) s (nl x)) (\<lambda>(tl1, _).
       bindR (run_list room (fst prog) room s r (bol_at text s) (eol_at eol s r) 0 (x\<lparr>tl := tl1, nl := []\<rparr>)) (\<lambda>y. case y of None \<Rightarrow> Inr (- 1, mp x)
       | Some x1 \<Rightarrow>
           if eol = Some s \<or> r = 0 then Inr (if found x1 then 1 else 0, mp x1)
           else case n of 0 \<Rightarrow> Inl Loop | Suc m \<Rightarrow> reg_loop m prog text eol starttype startchar room (s + w) x1)))"

text \<open>On \<open>-1\<close> what has been stored in \<open>mp\<close> is not used: the caller tries again with it cleared, or gives up.\<close>

definition regexec1 :: "nat \<Rightarrow> reinst list \<times> nat \<Rightarrow> u8 list \<Rightarrow> nat \<Rightarrow> nat option \<Rightarrow> nat \<Rightarrow> u16 \<Rightarrow> nat \<Rightarrow> (int \<times> resub list) res" where
  "regexec1 room prog text starts eol starttype startchar ms =
    reg_loop (length text) prog text eol starttype startchar room starts \<lparr>tl = [], nl = [], mp = replicate ms (None, None), found = False\<rparr>"

definition LISTSIZE :: nat where "LISTSIZE = 10"
definition BIGLISTSIZE :: nat where "BIGLISTSIZE = 10 * LISTSIZE"

definition regexec :: "reinst list \<times> nat \<Rightarrow> u8 list \<Rightarrow> resub list \<Rightarrow> (int \<times> resub list) res" where
  "regexec prog text mp0 =
    (let starts = (if mp0 \<noteq> [] \<and> sp0 mp0 \<noteq> None then the (sp0 mp0) else 0);
         eol = (if mp0 \<noteq> [] then ep0 mp0 else None);
         i = fst prog ! snd prog;
         starttype = (if itype i = tRUNE \<and> unat (ir i) < Runeself then tRUNE else if itype i = tBOL then tBOL else 0);
         startchar = (if starttype = tRUNE then ir i else 0) in
     bindR (regexec1 LISTSIZE prog text starts eol starttype startchar (length mp0)) (\<lambda>(rv, mp1).
     if rv \<ge> 0 then Inr (rv, mp1)
     else regexec1 BIGLISTSIZE prog text starts eol starttype startchar (length mp0)))"

end
