(* ===== verification/RegexExec.thy ===== *)
theory RegexExec
  imports Regex
begin

text \<open>
  The machine of \<^verbatim>\<open>regexec.c\<close> finds the leftmost longest match: the threads of a list stand for paths through
  the program, and the start that a list keeps for an instruction is the leftmost one.
\<close>

section \<open>Thread lists\<close>

definition spt :: "relist \<Rightarrow> nat" where "spt t = the (sp0 (lse t))"
definition good :: "relist list \<Rightarrow> bool" where "good ts \<longleftrightarrow> (\<forall>t \<in> set ts. sp0 (lse t) \<noteq> None \<and> length (lse t) = NSUBEXP)"

text \<open>Lists only grow, and the start of a thread only moves to the left.\<close>

definition grow :: "relist list \<Rightarrow> relist list \<Rightarrow> bool" where
  "grow ts ts' \<longleftrightarrow> length ts \<le> length ts' \<and> (\<forall>i < length ts. linst (ts' ! i) = linst (ts ! i) \<and> spt (ts' ! i) \<le> spt (ts ! i))"

definition has :: "nat \<Rightarrow> relist list \<Rightarrow> nat \<Rightarrow> nat \<Rightarrow> bool" where
  "has k ts j b \<longleftrightarrow> (\<exists>i. k \<le> i \<and> i < length ts \<and> linst (ts ! i) = j \<and> spt (ts ! i) \<le> b)"

lemma grow_refl [simp]: "grow ts ts"
  by (simp add: grow_def)

lemma growD: "grow a b \<Longrightarrow> i < length a \<Longrightarrow> i < length b \<and> linst (b ! i) = linst (a ! i) \<and> spt (b ! i) \<le> spt (a ! i)"
  by (simp add: grow_def)

lemma grow_trans: assumes "grow a b" "grow b c" shows "grow a c"
  unfolding grow_def
proof (intro conjI allI impI)
  show "length a \<le> length c" using assms by (simp add: grow_def)
next
  fix i assume "i < length a"
  from growD [OF assms(1) this] growD [OF assms(2), of i]
  show "linst (c ! i) = linst (a ! i)" "spt (c ! i) \<le> spt (a ! i)" by auto
qed

lemma has_grow: assumes h: "has k ts j b" and g: "grow ts ts'" shows "has k ts' j b"
proof -
  obtain i where i: "k \<le> i" "i < length ts" "linst (ts ! i) = j" "spt (ts ! i) \<le> b" using h by (auto simp: has_def)
  from growD [OF g i(2)] i show ?thesis unfolding has_def by (intro exI [of _ i]) auto
qed

lemma has_le: "has k ts j b \<Longrightarrow> b \<le> c \<Longrightarrow> k' \<le> k \<Longrightarrow> has k' ts j c"
  unfolding has_def using order_trans by blast

lemma find_inst_Some: "find_inst ip ps = Some i \<Longrightarrow> i < length ps \<and> linst (ps ! i) = ip"
proof (induction ps arbitrary: i)
  case (Cons p ps)
  then show ?case by (cases i) (auto split: if_splits)
qed simp

lemma renewthread_ok:
  assumes run: "renewthread room k j se ts = Inr (ts', full)" and b: "sp0 se = Some b" "length se = NSUBEXP" and g: "good ts" and k: "k \<le> length ts"
  shows "good ts'" "grow ts ts'" "has k ts' j b" "\<And>t. t \<in> set ts' \<Longrightarrow> t \<in> set ts \<or> linst t = j \<and> spt t = b"
    "\<And>i. i < length ts \<Longrightarrow> spt (ts ! i) \<le> b \<Longrightarrow> ts' ! i = ts ! i"
proof -
  have bt: "spt t = b" if "lse t = se" for t using that b by (simp add: spt_def)
  have all: "good ts' \<and> grow ts ts' \<and> has k ts' j b \<and> (\<forall>t \<in> set ts'. t \<in> set ts \<or> linst t = j \<and> spt t = b) \<and>
    (\<forall>i < length ts. spt (ts ! i) \<le> b \<longrightarrow> ts' ! i = ts ! i)"
  proof (cases "find_inst j (drop k ts)")
    case None
    have e: "ts' = ts @ [\<lparr>linst = j, lse = se\<rparr>]" using run None by (auto simp: renewthread_def add_thread_def split: if_splits)
    show ?thesis unfolding e using g b bt k
      by (auto simp: good_def grow_def has_def nth_append intro!: exI [of _ "length ts"])
  next
    case (Some i)
    have i: "k + i < length ts" "linst (ts ! (k + i)) = j" using find_inst_Some [OF Some] k by (simp_all add: add.commute less_diff_conv)
    obtain c where c: "sp0 (lse (ts ! (k + i))) = Some c" using g i(1) unfolding good_def by (meson nth_mem not_None_eq)
    then have ct: "spt (ts ! (k + i)) = c" by (simp add: spt_def)
    show ?thesis
    proof (cases "b < c")
      case True
      then have e: "ts' = ts[k + i := (ts ! (k + i))\<lparr>lse := se\<rparr>]" using run Some b(1) c by (simp add: renewthread_def)
      have "good ts'" using g b unfolding e good_def by (auto dest!: set_update_subset_insert [THEN subsetD])
      moreover have "grow ts ts'" unfolding e grow_def using bt [of "(ts ! (k + i))\<lparr>lse := se\<rparr>"] ct True i
        by (simp add: nth_list_update)
      moreover have "has k ts' j b" unfolding e has_def using i bt [of "(ts ! (k + i))\<lparr>lse := se\<rparr>"] by (intro exI [of _ "k + i"]) simp
      moreover have "\<forall>t \<in> set ts'. t \<in> set ts \<or> linst t = j \<and> spt t = b"
        unfolding e using i bt by (auto dest!: set_update_subset_insert [THEN subsetD])
      ultimately show ?thesis unfolding e using ct True i by (auto simp: nth_list_update)
    next
      case False
      then have e: "ts' = ts" using run Some b(1) c by (simp add: renewthread_def)
      show ?thesis unfolding e using g i ct False by (auto simp: has_def intro!: exI [of _ "k + i"])
    qed
  qed
  then show "good ts'" "grow ts ts'" "has k ts' j b" "\<And>t. t \<in> set ts' \<Longrightarrow> t \<in> set ts \<or> linst t = j \<and> spt t = b"
    "\<And>i. i < length ts \<Longrightarrow> spt (ts ! i) \<le> b \<Longrightarrow> ts' ! i = ts ! i"
    by auto
qed

section \<open>Paths\<close>

text \<open>
  The reference: \<open>epsE\<close> continues at the same position, \<open>charE\<close> consumes the rune of it; a configuration is an
  instruction and a position.
\<close>

definition epsE :: "reinst list \<Rightarrow> bool \<Rightarrow> bool \<Rightarrow> nat \<Rightarrow> nat \<Rightarrow> bool" where
  "epsE prog bolp eolp i q \<longleftrightarrow> passes (prog ! i) bolp eolp \<and> inext (prog ! i) = Some q \<or> itype (prog ! i) = tOR \<and> iright (prog ! i) = Some q"

definition charE :: "reinst list \<Rightarrow> u16 \<Rightarrow> nat \<Rightarrow> nat \<Rightarrow> bool" where
  "charE prog r i q \<longleftrightarrow> takes (prog ! i) r \<and> inext (prog ! i) = Some q"

text \<open>A path of eps edges of length \<open>m\<close>.\<close>

definition better :: "resub list \<Rightarrow> nat \<Rightarrow> nat \<Rightarrow> bool" where
  "better mt b e \<longleftrightarrow> (\<exists>b' e'. mt ! 0 = (Some b', Some e') \<and> (b' < b \<or> b' = b \<and> e \<le> e'))"

definition okmp :: "(nat \<Rightarrow> nat \<Rightarrow> bool) \<Rightarrow> bool \<Rightarrow> resub list \<Rightarrow> bool" where
  "okmp M f mt \<longleftrightarrow> mt \<noteq> [] \<and> (if f then \<exists>b e. mt ! 0 = (Some b, Some e) \<and> M b e else sp0 mt = None)"

lemma renewmatch_ok:
  assumes se: "se ! 0 = (Some b, Some e)" "length se = NSUBEXP" and ok: "okmp M f mt" and M: "M b e"
  shows "okmp M True (renewmatch mt se)" "better (renewmatch mt se) b e" "\<And>b' e'. f \<Longrightarrow> better mt b' e' \<Longrightarrow> better (renewmatch mt se) b' e'"
proof -
  let ?n = "renewmatch mt se"
  have mt: "mt \<noteq> []" using ok by (simp add: okmp_def)
  have hd: "(take (length mt) se @ replicate (length mt - NSUBEXP) (None, None)) ! 0 = (Some b, Some e)"
    using mt se by (cases se; cases mt) (auto simp: nth_append NSUBEXP_def)
  have ne: "take (length mt) se @ replicate (length mt - NSUBEXP) (None, None) \<noteq> []" using mt se by (cases se) (auto simp: NSUBEXP_def)
  have "okmp M True ?n \<and> better ?n b e \<and> (f \<longrightarrow> (\<forall>b' e'. better mt b' e' \<longrightarrow> better ?n b' e'))"
  proof (cases f)
    case False
    then have "?n = take (length mt) se @ replicate (length mt - NSUBEXP) (None, None)" using ok mt by (simp add: renewmatch_def okmp_def)
    then show ?thesis using hd ne M False by (auto simp: okmp_def better_def)
  next
    case True
    then obtain c d where cd: "mt ! 0 = (Some c, Some d)" "M c d" using ok by (auto simp: okmp_def)
    show ?thesis
    proof (cases "b < c \<or> b = c \<and> e > d")
      case True
      then have "?n = take (length mt) se @ replicate (length mt - NSUBEXP) (None, None)" using mt cd se by (auto simp: renewmatch_def sp0_def ep0_def)
      then show ?thesis using hd ne M True cd by (auto simp: okmp_def better_def)
    next
      case w: False
      then have "?n = mt" using mt cd se by (auto simp: renewmatch_def sp0_def ep0_def)
      then show ?thesis using w cd mt ok True by (auto simp: better_def)
    qed
  qed
  then show "okmp M True ?n" "better ?n b e" "\<And>b' e'. f \<Longrightarrow> better mt b' e' \<Longrightarrow> better ?n b' e'" by auto
qed

section \<open>One thread\<close>

text \<open>
  \<open>Src\<close>, \<open>Nx\<close> and \<open>M\<close> say which threads of the two lists and which matches are justified; \<open>rec\<close> is what must have
  been recorded for the instruction \<open>q\<close> and the start \<open>b\<close>.
\<close>

definition tinv :: "(nat \<Rightarrow> nat \<Rightarrow> bool) \<Rightarrow> (nat \<Rightarrow> nat \<Rightarrow> bool) \<Rightarrow> (nat \<Rightarrow> nat \<Rightarrow> bool) \<Rightarrow> exec \<Rightarrow> bool" where
  "tinv Src Nx M x \<longleftrightarrow> good (tl x) \<and> good (nl x) \<and> (\<forall>t \<in> set (tl x). Src (linst t) (spt t)) \<and>
     (\<forall>t \<in> set (nl x). Nx (linst t) (spt t)) \<and> okmp M (found x) (mp x)"

definition mono_x :: "exec \<Rightarrow> exec \<Rightarrow> bool" where
  "mono_x x x' \<longleftrightarrow> grow (tl x) (tl x') \<and> grow (nl x) (nl x') \<and> (found x \<longrightarrow> found x' \<and> (\<forall>c e. better (mp x) c e \<longrightarrow> better (mp x') c e))"

definition recd :: "reinst list \<Rightarrow> u16 \<Rightarrow> nat \<Rightarrow> nat \<Rightarrow> nat \<Rightarrow> exec \<Rightarrow> bool" where
  "recd prog r s b q x \<longleftrightarrow> (\<forall>j. charE prog r q j \<longrightarrow> has 0 (nl x) j b) \<and> (itype (prog ! q) = tEND \<longrightarrow> found x \<and> better (mp x) b s)"

lemma mono_x_refl [simp]: "mono_x x x" by (simp add: mono_x_def)
lemma mono_x_trans: "mono_x x y \<Longrightarrow> mono_x y z \<Longrightarrow> mono_x x z" by (auto simp: mono_x_def intro: grow_trans)

lemma better_le: "better mt c e \<Longrightarrow> c \<le> b \<Longrightarrow> better mt b e"
  unfolding better_def by fastforce

lemma recd_mono: "recd prog r s b q x \<Longrightarrow> mono_x x x' \<Longrightarrow> recd prog r s b q x'"
  by (auto simp: recd_def mono_x_def intro: has_grow)

lemma recd_le: "recd prog r s b q x \<Longrightarrow> b \<le> c \<Longrightarrow> recd prog r s c q x"
  by (auto simp: recd_def intro: has_le better_le)

lemma spt_set_lse:
  assumes "good ts" "k < length ts" "fst (se ! 0) = sp0 (lse (ts ! k))" "length se = NSUBEXP"
  shows "good (ts[k := (ts ! k)\<lparr>lse := se\<rparr>])" "grow ts (ts[k := (ts ! k)\<lparr>lse := se\<rparr>])"
    "spt (ts[k := (ts ! k)\<lparr>lse := se\<rparr>] ! k) = spt (ts ! k)"
    "\<And>t. t \<in> set (ts[k := (ts ! k)\<lparr>lse := se\<rparr>]) \<Longrightarrow> \<exists>u \<in> set ts. linst t = linst u \<and> spt t = spt u"
proof -
  have e: "spt ((ts ! k)\<lparr>lse := se\<rparr>) = spt (ts ! k)" "sp0 se = sp0 (lse (ts ! k))" using assms by (simp_all add: spt_def sp0_def)
  have k: "ts ! k \<in> set ts" using assms by simp
  show "good (ts[k := (ts ! k)\<lparr>lse := se\<rparr>])" using assms k e unfolding good_def by (auto dest!: set_update_subset_insert [THEN subsetD])
  show "grow ts (ts[k := (ts ! k)\<lparr>lse := se\<rparr>])" using assms e by (simp add: grow_def nth_list_update)
  show "spt (ts[k := (ts ! k)\<lparr>lse := se\<rparr>] ! k) = spt (ts ! k)" using assms e by simp
  show "\<exists>u \<in> set ts. linst t = linst u \<and> spt t = spt u" if "t \<in> set (ts[k := (ts ! k)\<lparr>lse := se\<rparr>])" for t
    using that set_update_subset_insert [of ts k] k e by fastforce
qed

text \<open>The closure the three predicates need, for the instructions that can be reached.\<close>

definition closedp :: "reinst list \<Rightarrow> bool \<Rightarrow> bool \<Rightarrow> u16 \<Rightarrow> nat \<Rightarrow> (nat \<Rightarrow> nat \<Rightarrow> bool) \<Rightarrow> (nat \<Rightarrow> nat \<Rightarrow> bool) \<Rightarrow> (nat \<Rightarrow> nat \<Rightarrow> bool) \<Rightarrow> bool" where
  "closedp prog bolp eolp r s Src Nx M \<longleftrightarrow>
     (\<forall>p c q. Src p c \<longrightarrow> epsE prog bolp eolp p q \<longrightarrow> Src q c) \<and> (\<forall>p c j. Src p c \<longrightarrow> charE prog r p j \<longrightarrow> Nx j c) \<and>
     (\<forall>p c. Src p c \<longrightarrow> itype (prog ! p) = tEND \<longrightarrow> M c s) \<and> (\<forall>i \<in> set prog. itype i = tLBRA \<longrightarrow> isubid i \<noteq> 0)"

definition covers :: "reinst list \<Rightarrow> bool \<Rightarrow> bool \<Rightarrow> u16 \<Rightarrow> nat \<Rightarrow> nat \<Rightarrow> nat \<Rightarrow> nat \<Rightarrow> exec \<Rightarrow> bool" where
  "covers prog bolp eolp r s k b ip x' \<longleftrightarrow> (\<forall>m q. (epsE prog bolp eolp ^^ m) ip q \<longrightarrow> recd prog r s b q x' \<or>
     (\<exists>m' < m. \<exists>p. has k (tl x') p b \<and> (epsE prog bolp eolp ^^ m') p q))"

lemma not_passes_end: "itype i \<in> {tEND, tRUNE, tANY, tANYNL, tCCLASS, tNCCLASS} \<Longrightarrow> \<not> passes i bolp eolp"
  by (auto simp: passes_def)

lemma takes_types: "takes i r \<Longrightarrow> itype i \<in> {tRUNE, tANY, tANYNL, tCCLASS, tNCCLASS}"
  by (auto simp: takes_def split: if_splits)

lemma covers_stop:
  assumes "\<And>q. \<not> epsE prog bolp eolp ip q" "recd prog r s b ip x'"
  shows "covers prog bolp eolp r s k b ip x'"
  unfolding covers_def
proof (intro allI impI disjI1)
  fix m q assume "(epsE prog bolp eolp ^^ m) ip q"
  then have "q = ip" using assms(1) by (metis relpowp_Suc_D2 relpowp_0_E not0_implies_Suc)
  then show "recd prog r s b q x'" using assms(2) by simp
qed

lemma covers_next:
  assumes c: "covers prog bolp eolp r s k b j x'" and o: "\<And>q. epsE prog bolp eolp ip q \<Longrightarrow> q = j \<or> has k (tl x') q b"
    and t: "\<And>j. \<not> charE prog r ip j" "itype (prog ! ip) \<noteq> tEND"
  shows "covers prog bolp eolp r s k b ip x'"
  unfolding covers_def
proof (intro allI impI)
  fix m q assume p: "(epsE prog bolp eolp ^^ m) ip q"
  show "recd prog r s b q x' \<or> (\<exists>m' < m. \<exists>p. has k (tl x') p b \<and> (epsE prog bolp eolp ^^ m') p q)"
  proof (cases m)
    case 0
    then show ?thesis using p t by (auto simp: recd_def)
  next
    case (Suc m')
    obtain u where u: "epsE prog bolp eolp ip u" "(epsE prog bolp eolp ^^ m') u q" using p Suc relpowp_Suc_D2 by metis
    show ?thesis
    proof (cases "u = j")
      case True
      then show ?thesis using c u Suc unfolding covers_def by (meson less_SucI)
    next
      case False
      then show ?thesis using o [OF u(1)] u Suc by blast
    qed
  qed
qed

lemma tinv_good: "tinv Src Nx M x \<Longrightarrow> k < length (tl x) \<Longrightarrow> sp0 (lse (tl x ! k)) = Some (spt (tl x ! k)) \<and> length (lse (tl x ! k)) = NSUBEXP"
  by (auto simp: tinv_def good_def spt_def)

lemma justified: "(\<And>t. t \<in> set a \<Longrightarrow> t \<in> set b \<or> linst t = j \<and> spt t = c) \<Longrightarrow> \<forall>t \<in> set b. P (linst t) (spt t) \<Longrightarrow> P j c \<Longrightarrow> \<forall>t \<in> set a. P (linst t) (spt t)"
  by metis

lemma run_thread_ok:
  assumes cl: "closedp prog bolp eolp r s Src Nx M"
  shows "run_thread n prog room s r bolp eolp k ip x = Inr (Some x') \<Longrightarrow> tinv Src Nx M x \<Longrightarrow> k < length (tl x) \<Longrightarrow>
    Src ip (spt (tl x ! k)) \<Longrightarrow> ip < length prog \<Longrightarrow>
    tinv Src Nx M x' \<and> mono_x x x' \<and> spt (tl x' ! k) = spt (tl x ! k) \<and> covers prog bolp eolp r s k (spt (tl x ! k)) ip x'"
proof (induction n arbitrary: ip x rule: less_induct)
  case (less n)
  let ?i = "prog ! ip" let ?t = "tl x ! k" let ?b = "spt (tl x ! k)"
  let ?G = "\<lambda>x'. tinv Src Nx M x' \<and> mono_x x x' \<and> spt (tl x' ! k) = ?b \<and> covers prog bolp eolp r s k ?b ip x'"
  note run = less.prems(1) and ti = less.prems(2) and k = less.prems(3) and src = less.prems(4)
  let ?U = "\<lambda>se. x\<lparr>tl := (tl x)[k := ?t\<lparr>lse := se\<rparr>]\<rparr>"
  let ?go = "\<lambda>y. bindR (deref prog (inext ?i)) (\<lambda>j. case n of 0 \<Rightarrow> Inl Loop | Suc m \<Rightarrow> run_thread m prog room s r bolp eolp k j y)"
  note tg = tinv_good [OF ti k]
  have SE: "\<And>q. epsE prog bolp eolp ip q \<Longrightarrow> Src q ?b" using cl src by (auto simp: closedp_def)
  have go: "?G x'" if g: "bindR (deref prog (inext ?i)) (\<lambda>j. case n of 0 \<Rightarrow> Inl Loop | Suc m \<Rightarrow> run_thread m prog room s r bolp eolp k j xg) = Inr (Some x')"
    and xg: "tinv Src Nx M xg" "mono_x x xg" "spt (tl xg ! k) = ?b" and ps: "passes ?i bolp eolp"
    and o: "\<And>q. itype ?i = tOR \<Longrightarrow> iright ?i = Some q \<Longrightarrow> has k (tl xg) q ?b" and tt: "\<not> takes ?i r" for xg
  proof -
    obtain j m where j: "inext ?i = Some j" "j < length prog" "n = Suc m" "run_thread m prog room s r bolp eolp k j xg = Inr (Some x')"
      using g by (auto simp: deref_def split: option.splits if_splits nat.splits)
    have e: "epsE prog bolp eolp ip j" using j ps by (simp add: epsE_def)
    have kg: "k < length (tl xg)" using k xg(2) by (auto simp: mono_x_def grow_def)
    have IH: "tinv Src Nx M x' \<and> mono_x xg x' \<and> spt (tl x' ! k) = spt (tl xg ! k) \<and> covers prog bolp eolp r s k (spt (tl xg ! k)) j x'"
      using j SE [OF e] xg(3) by (intro less.IH [OF _ j(4) xg(1) kg]) auto
    have gt: "grow (tl xg) (tl x')" using IH by (simp add: mono_x_def)
    have "covers prog bolp eolp r s k ?b ip x'"
    proof (rule covers_next)
      show "covers prog bolp eolp r s k ?b j x'" using IH xg(3) by simp
      show "q = j \<or> has k (tl x') q ?b" if "epsE prog bolp eolp ip q" for q
        using that j(1) o has_grow [OF _ gt] by (auto simp: epsE_def)
      show "\<not> charE prog r ip j" for j using tt by (simp add: charE_def)
      show "itype ?i \<noteq> tEND" using ps by (auto simp: not_passes_end)
    qed
    then show ?thesis using IH xg mono_x_trans by auto
  qed
  have stop: "?G x" if "\<not> takes ?i r" "\<And>q. \<not> epsE prog bolp eolp ip q" "itype ?i \<noteq> tEND"
    using ti that by (auto intro!: covers_stop simp: recd_def charE_def)
  have upd: "tinv Src Nx M (x\<lparr>tl := (tl x)[k := ?t\<lparr>lse := se\<rparr>]\<rparr>) \<and> mono_x x (x\<lparr>tl := (tl x)[k := ?t\<lparr>lse := se\<rparr>]\<rparr>) \<and>
      spt ((tl x)[k := ?t\<lparr>lse := se\<rparr>] ! k) = ?b" if "fst (se ! 0) = sp0 (lse ?t)" "length se = NSUBEXP" for se
  proof -
    have g: "good (tl x)" using ti by (simp add: tinv_def)
    note u = spt_set_lse [OF g k that]
    show ?thesis using ti u(1,2,3) u(4) by (fastforce simp: tinv_def mono_x_def)
  qed
  show ?case
  proof (cases "takes ?i r")
    case True
    then obtain j nl1 where j: "inext ?i = Some j" and rn: "renewthread room 0 j (lse ?t) (nl x) = Inr (nl1, False)" and x': "x' = x\<lparr>nl := nl1\<rparr>"
      using run by (auto simp: deref_def split: option.splits if_splits)
    have gn: "good (nl x)" using ti by (simp add: tinv_def)
    note rt = renewthread_ok [OF rn conjunct1 [OF tg] conjunct2 [OF tg] gn le0]
    have "Nx j ?b" using cl src True j unfolding closedp_def charE_def by blast
    then have "tinv Src Nx M x'" using ti rt(1) justified [OF rt(4), where P = Nx] by (simp add: tinv_def x')
    moreover have "\<not> epsE prog bolp eolp ip q" for q using takes_types [OF True] by (auto simp: epsE_def not_passes_end)
    moreover have "recd prog r s ?b ip x'" using takes_types [OF True] j rt(3) by (auto simp: recd_def charE_def x')
    ultimately show ?thesis using rt(2) by (auto simp: mono_x_def x' intro!: covers_stop)
  next
    case nt: False
    consider "itype ?i = tLBRA" | "itype ?i = tRBRA" | "itype ?i = tBOL" | "itype ?i = tEOL" | "itype ?i = tOR" | "itype ?i = tEND"
      | "itype ?i \<notin> {tLBRA, tRBRA, tBOL, tEOL, tOR, tEND}" by blast
    then show ?thesis
    proof cases
      case 1
      let ?se = "(lse ?t)[isubid ?i := (Some s, snd (lse ?t ! isubid ?i))]"
      have "isubid ?i \<noteq> 0" using 1 cl less.prems(5) by (auto simp: closedp_def)
      then have "fst (?se ! 0) = sp0 (lse ?t)" by (simp add: sp0_def)
      then have u: "tinv Src Nx M (?U ?se)" "mono_x x (?U ?se)" "spt (tl (?U ?se) ! k) = ?b" using upd [of ?se] tg by simp_all
      have "?go (?U ?se) = Inr (Some x')" using run nt 1 by (simp add: Let_def split: if_splits)
      then show ?thesis using nt 1 by (intro go [OF _ u]) (simp_all add: passes_def)
    next
      case 2
      let ?se = "(lse ?t)[isubid ?i := (fst (lse ?t ! isubid ?i), Some s)]"
      have "fst (?se ! 0) = sp0 (lse ?t)" using tg by (cases "isubid ?i = 0") (simp_all add: sp0_def NSUBEXP_def)
      then have u: "tinv Src Nx M (?U ?se)" "mono_x x (?U ?se)" "spt (tl (?U ?se) ! k) = ?b" using upd [of ?se] tg by simp_all
      have "?go (?U ?se) = Inr (Some x')" using run nt 2 by (simp add: Let_def split: if_splits)
      then show ?thesis using nt 2 by (intro go [OF _ u]) (simp_all add: passes_def)
    next
      case 3
      show ?thesis
      proof (cases bolp)
        case True
        have "run_thread n prog room s r bolp eolp k ip x = (if bolp then ?go x else Inr (Some x))" using nt 3 by (simp add: Let_def)
        then have "?go x = Inr (Some x')" using run True by simp
        then show ?thesis using nt 3 True by (intro go [OF _ ti mono_x_refl refl]) (simp_all add: passes_def)
      next
        case False
        then have "x' = x" using run nt 3 by (simp add: Let_def)
        then show ?thesis using stop nt 3 False by (simp add: epsE_def passes_def)
      qed
    next
      case 4
      show ?thesis
      proof (cases eolp)
        case True
        have "run_thread n prog room s r bolp eolp k ip x = (if eolp then ?go x else Inr (Some x))" using nt 4 by (simp add: Let_def)
        then have "?go x = Inr (Some x')" using run True by simp
        then show ?thesis using nt 4 True by (intro go [OF _ ti mono_x_refl refl]) (simp_all add: passes_def)
      next
        case False
        then have "x' = x" using run nt 4 by (simp add: Let_def)
        then show ?thesis using stop nt 4 False by (simp add: epsE_def passes_def)
      qed
    next
      case 5
      then have "bindR (deref prog (iright ?i)) (\<lambda>j. bindR (renewthread room k j (lse ?t) (tl x)) (\<lambda>(tl1, full).
          if full then Inr None else ?go (x\<lparr>tl := tl1\<rparr>))) = Inr (Some x')" using run nt by (simp add: Let_def)
      then obtain j p where j: "iright ?i = Some j" and p: "renewthread room k j (lse ?t) (tl x) = Inr p"
        and q: "(case p of (tl1, full) \<Rightarrow> if full then Inr None else ?go (x\<lparr>tl := tl1\<rparr>)) = Inr (Some x')"
        by (auto simp: deref_def split: option.splits if_splits)
      then obtain tl1 where rn: "renewthread room k j (lse ?t) (tl x) = Inr (tl1, False)" and g: "?go (x\<lparr>tl := tl1\<rparr>) = Inr (Some x')"
        by (cases p; cases "snd p") simp_all
      have gt: "good (tl x)" using ti by (simp add: tinv_def)
      note rt = renewthread_ok [OF rn conjunct1 [OF tg] conjunct2 [OF tg] gt less_imp_le [OF k]]
      have "Src j ?b" using SE [of j] 5 j by (simp add: epsE_def)
      then have "tinv Src Nx M (x\<lparr>tl := tl1\<rparr>)" using ti rt(1) justified [OF rt(4), where P = Src] by (simp add: tinv_def)
      moreover have "spt (tl1 ! k) = ?b" using rt(5) [OF k] by simp
      ultimately show ?thesis using 5 j rt(2,3) nt by (intro go [OF g]) (auto simp: mono_x_def passes_def)
    next
      case 6
      let ?se = "(lse ?t)[0 := (sp0 (lse ?t), Some s)]"
      have l: "0 < length (lse ?t)" using tg by (simp add: NSUBEXP_def)
      have x': "x' = x\<lparr>tl := (tl x)[k := ?t\<lparr>lse := ?se\<rparr>], mp := renewmatch (mp x) ?se, found := True\<rparr>"
        using run nt 6 by (simp add: Let_def)
      have M: "M ?b s" using cl src 6 by (simp add: closedp_def)
      have ok: "okmp M (found x) (mp x)" using ti by (simp add: tinv_def)
      have s0: "?se ! 0 = (Some ?b, Some s)" using l tg by simp
      note rm = renewmatch_ok [OF s0 _ ok M]
      note u = upd [of ?se]
      have "\<not> epsE prog bolp eolp ip q" for q using 6 by (auto simp: epsE_def not_passes_end)
      moreover have "recd prog r s ?b ip x'" using rm(2) tg nt by (auto simp: recd_def charE_def x')
      moreover have "tinv Src Nx M x'" using u rm(1) tg l s0 by (auto simp: tinv_def x')
      moreover have "mono_x x x'" using u rm(3) tg l s0 by (auto simp: mono_x_def x')
      ultimately show ?thesis using u tg l s0 by (auto simp: x' intro!: covers_stop)
    next
      case 7
      then have "x' = x" using run nt by (simp add: Let_def)
      moreover have "\<not> epsE prog bolp eolp ip q" for q using 7 by (auto simp: epsE_def passes_def)
      ultimately show ?thesis using 7 nt stop by simp
    qed
  qed
qed

section \<open>A list of threads\<close>

declare run_thread.simps [simp del] run_list.simps [simp del] reg_loop.simps [simp del]

lemma run_list_ok:
  assumes cl: "closedp prog bolp eolp r s Src Nx M" and bd: "\<And>p c. Src p c \<Longrightarrow> p < length prog"
  shows "run_list n prog room s r bolp eolp k x = Inr (Some x') \<Longrightarrow> tinv Src Nx M x \<Longrightarrow>
    tinv Src Nx M x' \<and> mono_x x x' \<and> (\<forall>i q. k \<le> i \<longrightarrow> i < length (tl x) \<longrightarrow> (epsE prog bolp eolp)\<^sup>*\<^sup>* (linst (tl x ! i)) q \<longrightarrow>
      recd prog r s (spt (tl x ! i)) q x')"
proof (induction n arbitrary: k x rule: less_induct)
  case (less n)
  let ?E = "epsE prog bolp eolp"
  show ?case
  proof (cases "k < length (tl x)")
    case False
    then show ?thesis using less.prems by (auto simp: run_list.simps [of n])
  next
    case k: True
    let ?b = "spt (tl x ! k)" let ?ip = "linst (tl x ! k)"
    obtain y where y: "run_thread (length prog) prog room s r bolp eolp k ?ip x = Inr y"
      "(case y of None \<Rightarrow> Inr None | Some x1 \<Rightarrow> case n of 0 \<Rightarrow> Inl Loop | Suc m \<Rightarrow> run_list m prog room s r bolp eolp (k + 1) x1) = Inr (Some x')"
      using less.prems(1) k by (auto simp: run_list.simps [of n])
    then obtain x1 m where x1: "run_thread (length prog) prog room s r bolp eolp k ?ip x = Inr (Some x1)"
      and m: "n = Suc m" "run_list m prog room s r bolp eolp (k + 1) x1 = Inr (Some x')"
      by (cases y; cases n) auto
    have src: "Src ?ip ?b" using less.prems(2) k by (simp add: tinv_def)
    have t: "tinv Src Nx M x1 \<and> mono_x x x1 \<and> spt (tl x1 ! k) = ?b \<and> covers prog bolp eolp r s k ?b ?ip x1"
      by (rule run_thread_ok [OF cl x1 less.prems(2) k src bd [OF src]])
    have IH: "tinv Src Nx M x'" "mono_x x1 x'" "\<And>i q. k + 1 \<le> i \<Longrightarrow> i < length (tl x1) \<Longrightarrow> ?E\<^sup>*\<^sup>* (linst (tl x1 ! i)) q \<Longrightarrow>
      recd prog r s (spt (tl x1 ! i)) q x'" using less.IH [OF _ m(2)] m(1) t by auto
    have gr: "grow (tl x) (tl x1)" using t by (simp add: mono_x_def)
    note gd = growD [OF gr]
    have all: "recd prog r s ?b q x'" if "has k (tl x1) p ?b" "(?E ^^ l) p q" for l p q
      using that
    proof (induction l arbitrary: p rule: less_induct)
      case (less l)
      obtain i where i: "k \<le> i" "i < length (tl x1)" "linst (tl x1 ! i) = p" "spt (tl x1 ! i) \<le> ?b" using less.prems(1) by (auto simp: has_def)
      show ?case
      proof (cases "i = k")
        case False
        then have "recd prog r s (spt (tl x1 ! i)) q x'" using i less.prems(2) by (intro IH(3)) (auto dest: relpowp_imp_rtranclp)
        then show ?thesis using i(4) recd_le by blast
      next
        case True
        then have "p = ?ip" using i gd [OF k] by simp
        then consider "recd prog r s ?b q x1" | l' p' where "l' < l" "has k (tl x1) p' ?b" "(?E ^^ l') p' q"
          using t less.prems(2) unfolding covers_def by blast
        then show ?thesis using less.IH IH(2) recd_mono by cases blast+
      qed
    qed
    have "recd prog r s (spt (tl x ! i)) q x'" if i: "k \<le> i" "i < length (tl x)" and q: "?E\<^sup>*\<^sup>* (linst (tl x ! i)) q" for i q
    proof (cases "i = k")
      case True
      have h: "has k (tl x1) ?ip ?b" using gd [OF k] by (auto simp: has_def)
      obtain l where "(?E ^^ l) ?ip q" using q True rtranclp_imp_relpowp by metis
      from all [OF h this] show ?thesis using True by simp
    next
      case False
      then have "recd prog r s (spt (tl x1 ! i)) q x'" using gd [OF i(2)] i q by (intro IH(3)) auto
      then show ?thesis using gd [OF i(2)] recd_le by blast
    qed
    then show ?thesis using IH t mono_x_trans by blast
  qed
qed

section \<open>Matches\<close>

text \<open>
  The positions of a string are the ones reached by whole runes from where the search starts; the last one is \<open>eol\<close> or the
  NUL. A match from \<open>b\<close> to \<open>e\<close> is a path from the first instruction at \<open>b\<close> to an \<open>END\<close> at \<open>e\<close>.
\<close>

definition last_pos :: "u8 list \<Rightarrow> nat option \<Rightarrow> nat \<Rightarrow> bool" where
  "last_pos text eol s \<longleftrightarrow> eol = Some s \<or> fst (rune_at text s) = 0"

definition adv :: "u8 list \<Rightarrow> nat option \<Rightarrow> nat \<Rightarrow> nat \<Rightarrow> bool" where
  "adv text eol s s' \<longleftrightarrow> \<not> last_pos text eol s \<and> s' = s + snd (rune_at text s)"

definition eps_at :: "reinst list \<Rightarrow> u8 list \<Rightarrow> nat option \<Rightarrow> nat \<Rightarrow> nat \<Rightarrow> nat \<Rightarrow> bool" where
  "eps_at prog text eol s = epsE prog (bol_at text s) (eol_at eol s (fst (rune_at text s)))"

definition mstep :: "reinst list \<Rightarrow> u8 list \<Rightarrow> nat option \<Rightarrow> nat \<times> nat \<Rightarrow> nat \<times> nat \<Rightarrow> bool" where
  "mstep prog text eol u v \<longleftrightarrow> eps_at prog text eol (snd u) (fst u) (fst v) \<and> snd v = snd u \<or>
     charE prog (fst (rune_at text (snd u))) (fst u) (fst v) \<and> adv text eol (snd u) (snd v)"

definition reaches :: "reinst list \<times> nat \<Rightarrow> u8 list \<Rightarrow> nat option \<Rightarrow> nat \<Rightarrow> nat \<Rightarrow> nat \<Rightarrow> nat \<Rightarrow> bool" where
  "reaches pg text eol s0 s p c \<longleftrightarrow> (adv text eol)\<^sup>*\<^sup>* s0 c \<and> (mstep (fst pg) text eol)\<^sup>*\<^sup>* (snd pg, c) (p, s)"

definition match_at :: "reinst list \<times> nat \<Rightarrow> u8 list \<Rightarrow> nat option \<Rightarrow> nat \<Rightarrow> nat \<Rightarrow> nat \<Rightarrow> bool" where
  "match_at pg text eol s0 b e \<longleftrightarrow> (\<exists>q. reaches pg text eol s0 e q b \<and> itype (fst pg ! q) = tEND)"

definition wf_prog :: "reinst list \<times> nat \<Rightarrow> bool" where
  "wf_prog pg \<longleftrightarrow> snd pg < length (fst pg) \<and> (\<forall>i \<in> set (fst pg). (itype i = tLBRA \<longrightarrow> isubid i \<noteq> 0) \<and>
     (\<forall>j. inext i = Some j \<or> iright i = Some j \<longrightarrow> j < length (fst pg)))"

lemma rune_at_width: "0 < snd (rune_at text s)"
  using chartorune_pos(1) by (auto simp: rune_at_def Let_def)

lemma adv_fun: "adv text eol s t \<Longrightarrow> adv text eol s u \<Longrightarrow> t = u"
  by (simp add: adv_def)

lemma adv_gt: "adv text eol s s' \<Longrightarrow> s < s'"
  using rune_at_width by (simp add: adv_def)

lemma adv_mono: "(adv text eol)\<^sup>*\<^sup>* a b \<Longrightarrow> a \<le> b"
  by (induction rule: rtranclp_induct) (auto dest: adv_gt)

lemma adv_lin: "(adv text eol)\<^sup>*\<^sup>* a b \<Longrightarrow> (adv text eol)\<^sup>*\<^sup>* a c \<Longrightarrow> (adv text eol)\<^sup>*\<^sup>* b c \<or> (adv text eol)\<^sup>*\<^sup>* c b"
proof (induction rule: rtranclp_induct)
  case (step y z)
  then consider "y = c" | "(adv text eol)\<^sup>+\<^sup>+ y c" | "(adv text eol)\<^sup>*\<^sup>* c y" by (metis rtranclpD)
  then show ?case
  proof cases
    case 2
    then obtain u where "adv text eol y u" "(adv text eol)\<^sup>*\<^sup>* u c" by (metis tranclpD)
    then show ?thesis using step(2) adv_fun by blast
  next
    case 3
    then show ?thesis using step(2) rtranclp.rtrancl_into_rtrancl by metis
  qed (use step(2) in auto)
qed simp

lemma adv_last: assumes "(adv text eol)\<^sup>*\<^sup>* s0 s" "last_pos text eol s" "(adv text eol)\<^sup>*\<^sup>* s0 c" shows "c \<le> s"
proof -
  have "s = c" if "(adv text eol)\<^sup>*\<^sup>* s c" using that assms(2) by (auto elim: converse_rtranclpE simp: adv_def)
  then show ?thesis using adv_lin [OF assms(1,3)] adv_mono by blast
qed

lemma adv_between: assumes "(adv text eol)\<^sup>*\<^sup>* s0 s" "adv text eol s t" "(adv text eol)\<^sup>*\<^sup>* s0 c" "c < t" shows "c \<le> s"
proof (rule ccontr)
  assume "\<not> c \<le> s"
  then have "(adv text eol)\<^sup>+\<^sup>+ s c" using adv_lin [OF assms(1,3)] adv_mono by (metis order_refl rtranclpD)
  then obtain u where "adv text eol s u" "(adv text eol)\<^sup>*\<^sup>* u c" by (metis tranclpD)
  then show False using assms(2,4) adv_mono adv_fun by fastforce
qed

lemma mstep_pos: "(mstep prog text eol)\<^sup>*\<^sup>* u v \<Longrightarrow> (adv text eol)\<^sup>*\<^sup>* (snd u) (snd v)"
  by (induction rule: rtranclp_induct) (auto simp: mstep_def)

text \<open>The last rune that a path consumes.\<close>

definition consumed :: "reinst list \<times> nat \<Rightarrow> u8 list \<Rightarrow> nat option \<Rightarrow> nat \<Rightarrow> nat \<Rightarrow> nat \<Rightarrow> nat \<Rightarrow> bool" where
  "consumed pg text eol s0 s p c \<longleftrightarrow> (\<exists>q s1. reaches pg text eol s0 s1 q c \<and> charE (fst pg) (fst (rune_at text s1)) q p \<and> adv text eol s1 s)"

lemma reaches_split:
  assumes "reaches pg text eol s0 s q c"
  shows "\<exists>p. (eps_at (fst pg) text eol s)\<^sup>*\<^sup>* p q \<and> (p = snd pg \<and> c = s \<or> consumed pg text eol s0 s p c)"
proof -
  have c0: "(adv text eol)\<^sup>*\<^sup>* s0 c" using assms by (simp add: reaches_def)
  have "(mstep (fst pg) text eol)\<^sup>*\<^sup>* (snd pg, c) (q, s)" using assms by (simp add: reaches_def)
  then have "\<exists>p. (eps_at (fst pg) text eol (snd (q, s)))\<^sup>*\<^sup>* p (fst (q, s)) \<and> (p = snd pg \<and> c = snd (q, s) \<or> consumed pg text eol s0 (snd (q, s)) p c)"
  proof (induction rule: rtranclp_induct)
    case (step u v)
    show ?case
    proof (cases "eps_at (fst pg) text eol (snd u) (fst u) (fst v) \<and> snd v = snd u")
      case True
      then show ?thesis using step.IH by (metis rtranclp.rtrancl_into_rtrancl)
    next
      case False
      then have "consumed pg text eol s0 (snd v) (fst v) c"
        using step(1,2) c0 unfolding consumed_def reaches_def by (intro exI [of _ "fst u"] exI [of _ "snd u"]) (auto simp: mstep_def)
      then show ?thesis by blast
    qed
  qed auto
  then show ?thesis by simp
qed

section \<open>The loop over the string\<close>

lemma reaches_eps: "reaches pg text eol s0 s p c \<Longrightarrow> eps_at (fst pg) text eol s p q \<Longrightarrow> reaches pg text eol s0 s q c"
  unfolding reaches_def using rtranclp.rtrancl_into_rtrancl [of "mstep (fst pg) text eol" _ "(p, s)" "(q, s)"] by (simp add: mstep_def)

lemma reaches_char: "reaches pg text eol s0 s p c \<Longrightarrow> charE (fst pg) (fst (rune_at text s)) p q \<Longrightarrow> adv text eol s t \<Longrightarrow> reaches pg text eol s0 t q c"
  unfolding reaches_def using rtranclp.rtrancl_into_rtrancl [of "mstep (fst pg) text eol" _ "(p, s)" "(q, t)"] by (simp add: mstep_def)

lemma reaches_pos: assumes "reaches pg text eol s0 s p c" shows "(adv text eol)\<^sup>*\<^sup>* s0 s" "c \<le> s"
proof -
  have "(mstep (fst pg) text eol)\<^sup>*\<^sup>* (snd pg, c) (p, s)" and c: "(adv text eol)\<^sup>*\<^sup>* s0 c" using assms by (simp_all add: reaches_def)
  from mstep_pos [OF this(1)] have "(adv text eol)\<^sup>*\<^sup>* c s" by simp
  with c adv_mono show "(adv text eol)\<^sup>*\<^sup>* s0 s" "c \<le> s" by auto
qed

lemma reaches_bound: assumes wf: "wf_prog pg" and r: "reaches pg text eol s0 s p c" shows "p < length (fst pg)"
proof -
  have nth: "j < length (fst pg)" if "inext (fst pg ! i) = Some j \<or> iright (fst pg ! i) = Some j" "i < length (fst pg)" for i j
    using wf that by (auto simp: wf_prog_def)
  have "(mstep (fst pg) text eol)\<^sup>*\<^sup>* (snd pg, c) (p, s)" using r by (simp add: reaches_def)
  then have "fst (p, s) < length (fst pg)"
  proof (induction rule: rtranclp_induct)
    case base
    then show ?case using wf by (simp add: wf_prog_def)
  next
    case (step u v)
    then show ?case using nth by (auto simp: mstep_def eps_at_def epsE_def charE_def)
  qed
  then show ?thesis by simp
qed

definition dead :: "exec \<Rightarrow> nat \<Rightarrow> bool" where
  "dead x c \<longleftrightarrow> found x \<and> (\<forall>e. better (mp x) c e)"

definition linv :: "reinst list \<times> nat \<Rightarrow> u8 list \<Rightarrow> nat option \<Rightarrow> nat \<Rightarrow> nat \<Rightarrow> exec \<Rightarrow> bool" where
  "linv pg text eol s0 s x \<longleftrightarrow> (adv text eol)\<^sup>*\<^sup>* s0 s \<and> good (nl x) \<and> (\<forall>t \<in> set (nl x). reaches pg text eol s0 s (linst t) (spt t)) \<and>
     okmp (\<lambda>b e. match_at pg text eol s0 b e \<and> e < s) (found x) (mp x) \<and>
     (\<forall>p c. consumed pg text eol s0 s p c \<longrightarrow> has 0 (nl x) p c \<or> dead x c) \<and>
     (\<forall>c e. match_at pg text eol s0 c e \<longrightarrow> e < s \<longrightarrow> found x \<and> better (mp x) c e)"

lemma dead_mono: "dead x c \<Longrightarrow> mono_x x x' \<Longrightarrow> dead x' c"
  by (auto simp: dead_def mono_x_def)

lemma okmp_mono: "okmp M f mt \<Longrightarrow> (\<And>b e. M b e \<Longrightarrow> M' b e) \<Longrightarrow> okmp M' f mt"
  unfolding okmp_def by (cases f) auto

lemma empty_se_ok: "sp0 (empty_se s) = Some s" "length (empty_se s) = NSUBEXP"
  by (simp_all add: empty_se_def sp0_def NSUBEXP_def)

lemma scan_reach:
  assumes wf: "wf_prog pg" and inv: "linv pg text eol s0 s x" and r: "r = fst (rune_at text s)"
    and st: "(if found x then Inr (nl x, False) else renewemptythread room (snd pg) s (nl x)) = Inr (tl1, full)"
    and run: "run_list n (fst pg) room s r (bol_at text s) (eol_at eol s r) 0 (x\<lparr>tl := tl1, nl := []\<rparr>) = Inr (Some x1)"
    and Nx: "\<forall>p c j. reaches pg text eol s0 s p c \<longrightarrow> charE (fst pg) r p j \<longrightarrow> Nx j c"
  shows "tinv (\<lambda>p c. reaches pg text eol s0 s p c) Nx (\<lambda>b e. match_at pg text eol s0 b e \<and> e \<le> s) x1"
    "mono_x (x\<lparr>tl := tl1, nl := []\<rparr>) x1"
    "\<And>q c. reaches pg text eol s0 s q c \<Longrightarrow> recd (fst pg) r s c q x1 \<or> dead x1 c"
proof -
  let ?R = "reaches pg text eol s0 s" let ?M = "\<lambda>b e. match_at pg text eol s0 b e \<and> e \<le> s" let ?x0 = "x\<lparr>tl := tl1, nl := []\<rparr>"
  have pos: "(adv text eol)\<^sup>*\<^sup>* s0 s" and gn: "good (nl x)" and rn: "\<forall>t \<in> set (nl x). ?R (linst t) (spt t)"
    and ok: "okmp (\<lambda>b e. match_at pg text eol s0 b e \<and> e < s) (found x) (mp x)" using inv by (simp_all add: linv_def)
  have r0: "?R (snd pg) s" using pos by (simp add: reaches_def)
  have tl1: "good tl1 \<and> grow (nl x) tl1 \<and> (\<forall>t \<in> set tl1. ?R (linst t) (spt t)) \<and> (\<not> found x \<longrightarrow> has 0 tl1 (snd pg) s)"
  proof (cases "found x")
    case True
    then show ?thesis using st gn rn by simp
  next
    case False
    then have "renewthread room 0 (snd pg) (empty_se s) (nl x) = Inr (tl1, full)" using st by (simp add: renewemptythread_def)
    note rt = renewthread_ok [OF this empty_se_ok gn le0]
    show ?thesis using rt(1,2,3) justified [OF rt(4) rn r0] by simp
  qed
  have cl: "closedp (fst pg) (bol_at text s) (eol_at eol s r) r s ?R Nx ?M"
    using reaches_eps Nx wf unfolding closedp_def r by (auto simp: eps_at_def wf_prog_def match_at_def)
  have t0: "tinv ?R Nx ?M ?x0" using tl1 okmp_mono [OF ok, of ?M] by (auto simp: tinv_def good_def)
  have rl: "tinv ?R Nx ?M x1 \<and> mono_x ?x0 x1 \<and> (\<forall>i q. 0 \<le> i \<longrightarrow> i < length (tl ?x0) \<longrightarrow>
      (epsE (fst pg) (bol_at text s) (eol_at eol s r))\<^sup>*\<^sup>* (linst (tl ?x0 ! i)) q \<longrightarrow> recd (fst pg) r s (spt (tl ?x0 ! i)) q x1)"
    by (rule run_list_ok [OF cl _ run t0]) (rule reaches_bound [OF wf])
  then show "tinv ?R Nx ?M x1" "mono_x ?x0 x1" by simp_all
  have hs: "recd (fst pg) r s c q x1" if h: "has 0 tl1 p c" and p: "(eps_at (fst pg) text eol s)\<^sup>*\<^sup>* p q" for p q c
  proof -
    obtain i where i: "i < length tl1" "linst (tl1 ! i) = p" "spt (tl1 ! i) \<le> c" using h by (auto simp: has_def)
    have "recd (fst pg) r s (spt (tl1 ! i)) q x1" using rl i p by (simp add: eps_at_def r)
    then show ?thesis using i(3) recd_le by blast
  qed
  have dd: "dead x1 c" if "dead x c" for c
    using dead_mono [of ?x0 c x1] rl that by (simp add: dead_def)
  show "recd (fst pg) r s c q x1 \<or> dead x1 c" if "?R q c" for q c
  proof -
    obtain p where p: "(eps_at (fst pg) text eol s)\<^sup>*\<^sup>* p q" "p = snd pg \<and> c = s \<or> consumed pg text eol s0 s p c"
      using reaches_split [OF \<open>?R q c\<close>] by blast
    show ?thesis
    proof (cases "p = snd pg \<and> c = s")
      case True
      show ?thesis
      proof (cases "found x")
        case f: True
        then obtain b e where "mp x ! 0 = (Some b, Some e)" "match_at pg text eol s0 b e" "e < s" using ok by (auto simp: okmp_def)
        moreover from this have "b \<le> e" using reaches_pos(2) unfolding match_at_def by blast
        ultimately show ?thesis using dd [of c] f True by (auto simp: dead_def better_def)
      next
        case False
        then show ?thesis using hs p(1) tl1 True by blast
      qed
    next
      case False
      then consider "has 0 (nl x) p c" | "dead x c" using p(2) inv by (auto simp: linv_def)
      then show ?thesis
      proof cases
        case 1
        then have "has 0 tl1 p c" using has_grow tl1 by blast
        then show ?thesis using hs p(1) by simp
      qed (simp add: dd)
    qed
  qed
qed

lemma scan_ok:
  assumes wf: "wf_prog pg" and inv: "linv pg text eol s0 s x" and r: "r = fst (rune_at text s)"
    and st: "(if found x then Inr (nl x, False) else renewemptythread room (snd pg) s (nl x)) = Inr (tl1, full)"
    and run: "run_list n (fst pg) room s r (bol_at text s) (eol_at eol s r) 0 (x\<lparr>tl := tl1, nl := []\<rparr>) = Inr (Some x1)"
  shows "okmp (match_at pg text eol s0) (found x1) (mp x1)" (is ?A)
    "\<And>c e. match_at pg text eol s0 c e \<Longrightarrow> e \<le> s \<Longrightarrow> found x1 \<and> better (mp x1) c e"
    "\<And>t. adv text eol s t \<Longrightarrow> linv pg text eol s0 t x1"
proof -
  let ?R = "reaches pg text eol s0" let ?Nx = "\<lambda>j c. \<forall>t. adv text eol s t \<longrightarrow> ?R t j c"
  let ?M = "match_at pg text eol s0" let ?x0 = "x\<lparr>tl := tl1, nl := []\<rparr>"
  have pos: "(adv text eol)\<^sup>*\<^sup>* s0 s" using inv by (simp add: linv_def)
  have Nx: "\<forall>p c j. ?R s p c \<longrightarrow> charE (fst pg) r p j \<longrightarrow> ?Nx j c" using reaches_char r by blast
  note sc = scan_reach [OF wf inv r st run Nx]
  have ok: "okmp (\<lambda>b e. ?M b e \<and> e \<le> s) (found x1) (mp x1)" using sc(1) by (simp add: tinv_def)
  then show ?A by (rule okmp_mono) simp
  show B: "found x1 \<and> better (mp x1) c e" if m: "?M c e" "e \<le> s" for c e
  proof (cases "e = s")
    case True
    then obtain q where "?R s q c" "itype (fst pg ! q) = tEND" using m by (auto simp: match_at_def)
    with sc(3) [of q c] True show ?thesis by (auto simp: recd_def dead_def)
  next
    case False
    then have "found x \<and> better (mp x) c e" using inv m unfolding linv_def by (meson le_neq_implies_less)
    then show ?thesis using sc(2) by (auto simp: mono_x_def)
  qed
  show "linv pg text eol s0 t x1" if t: "adv text eol s t" for t
    unfolding linv_def
  proof (intro conjI allI impI)
    show "(adv text eol)\<^sup>*\<^sup>* s0 t" using pos t by (rule rtranclp.rtrancl_into_rtrancl)
    show "good (nl x1)" "\<forall>u \<in> set (nl x1). ?R t (linst u) (spt u)" using sc(1) t by (auto simp: tinv_def)
    show "okmp (\<lambda>b e. ?M b e \<and> e < t) (found x1) (mp x1)" using ok by (rule okmp_mono) (use adv_gt [OF t] in auto)
    show "has 0 (nl x1) p c \<or> dead x1 c" if cn: "consumed pg text eol s0 t p c" for p c
    proof -
      obtain q s1 where q: "?R s1 q c" "charE (fst pg) (fst (rune_at text s1)) q p" "adv text eol s1 t" using cn by (auto simp: consumed_def)
      have "s1 \<le> s" using adv_between [OF pos t reaches_pos(1) [OF q(1)]] adv_gt [OF q(3)] by simp
      moreover have "s \<le> s1" using adv_between [OF reaches_pos(1) [OF q(1)] q(3) pos] adv_gt [OF t] by simp
      ultimately have "s1 = s" by simp
      then show ?thesis using sc(3) [of q c] q r by (auto simp: recd_def)
    qed
    fix c e assume m: "?M c e" "e < t"
    then have "e \<le> s" using adv_between [OF pos t, of e] reaches_pos(1) unfolding match_at_def by blast
    then show "found x1" "better (mp x1) c e" using B m by simp_all
  qed
qed

text \<open>What the result says.\<close>

definition leftmost_longest :: "reinst list \<times> nat \<Rightarrow> u8 list \<Rightarrow> nat option \<Rightarrow> nat \<Rightarrow> int \<Rightarrow> resub list \<Rightarrow> bool" where
  "leftmost_longest pg text eol s0 rv mt \<longleftrightarrow> (if rv = 0 then \<forall>b e. \<not> match_at pg text eol s0 b e
     else \<exists>b e. mt ! 0 = (Some b, Some e) \<and> match_at pg text eol s0 b e \<and>
       (\<forall>c d. match_at pg text eol s0 c d \<longrightarrow> b < c \<or> b = c \<and> d \<le> e))"

lemma scan_end:
  assumes "okmp (match_at pg text eol s0) f mt" "\<And>c e. match_at pg text eol s0 c e \<Longrightarrow> f \<and> better mt c e"
  shows "leftmost_longest pg text eol s0 (if f then 1 else 0) mt"
proof (cases f)
  case True
  then obtain b e where be: "mt ! 0 = (Some b, Some e)" "match_at pg text eol s0 b e" using assms(1) by (auto simp: okmp_def)
  then have "b < c \<or> b = c \<and> d \<le> e" if "match_at pg text eol s0 c d" for c d using assms(2) [OF that] by (auto simp: better_def)
  then show ?thesis using be True by (auto simp: leftmost_longest_def)
qed (use assms(2) in \<open>auto simp: leftmost_longest_def\<close>)

section \<open>The fast check for the first character\<close>

lemma continuation_bit: assumes "(b XOR Tx :: u8) AND Testx = 0" shows "bit b 7"
proof -
  have "\<not> bit ((b XOR Tx :: u8) AND Testx) 7" using assms by simp
  then show ?thesis by (simp add: bit_simps rune_consts)
qed

lemma big_byte: assumes "bit (b :: u8) 7" shows "b \<noteq> 0" "unat (c :: u16) < Runeself \<Longrightarrow> b \<noteq> ucast c"
proof -
  have b: "128 \<le> unat b" using assms lead_lt(1) [of b] by (simp add: rune_consts word_less_nat_alt)
  then show "b \<noteq> 0" by auto
  assume "unat c < Runeself"
  then have "unat (ucast c :: u8) < 128" by (simp add: unsigned_ucast_eq take_bit_eq_mod Runeself_def)
  then show "b \<noteq> ucast c" using b by auto
qed

lemma strchr_drop:
  "(\<And>i. i < n \<Longrightarrow> byte_at str i \<noteq> 0 \<and> byte_at str i \<noteq> c) \<Longrightarrow> strchr str c = map_option ((+) n) (strchr (drop n str) c)"
proof (induction n arbitrary: str)
  case 0
  then show ?case by (simp add: option.map_ident)
next
  case (Suc n)
  then obtain b t where str: "str = b # t" using Suc.prems [of 0] by (cases str) (auto simp: byte_at_def)
  have "b \<noteq> 0" "b \<noteq> c" using Suc.prems [of 0] by (simp_all add: str)
  moreover have "byte_at t i \<noteq> 0 \<and> byte_at t i \<noteq> c" if "i < n" for i using Suc.prems [of "Suc i"] that by (simp add: str)
  from Suc.IH [OF this] have "strchr t c = map_option ((+) n) (strchr (drop n t) c)" by simp
  ultimately show ?case by (auto simp: str option.map_comp comp_def)
qed

lemma byte_at_drop: "byte_at (drop s text) i = byte_at text (s + i)"
  by (auto simp: byte_at_def less_diff_conv add.commute)

lemma chartorune_cont: "chartorune str = (r, w) \<Longrightarrow> 0 < i \<Longrightarrow> i < w \<Longrightarrow> (byte_at str i XOR Tx) AND Testx = 0"
proof -
  assume ch: "chartorune str = (r, w)" and i: "0 < i" "i < w"
  show "(byte_at str i XOR Tx) AND Testx = 0"
  proof (rule ccontr)
    assume n: "(byte_at str i XOR Tx) AND Testx \<noteq> 0"
    have "w \<le> 3" using chartorune_pos(2) [of str] ch by simp
    then consider "i = 1" | "i = 2" using i by linarith
    then have "snd (chartorune str) \<le> i" using n by cases (simp_all add: chartorune_def Let_def)
    then show False using ch i by simp
  qed
qed

lemma chartorune_multi: assumes "\<not> byte_at str 0 < Tx" shows "128 \<le> unat (fst (chartorune str))"
proof -
  have l: "128 \<le> unat (ucast y :: u16)" if "\<not> y \<le> Rune1" "y \<le> Rune3" for y :: u32
    using that by (simp add: rune_consts word_le_nat_alt unsigned_ucast_eq take_bit_eq_mod)
  have 2: "128 \<le> unat (ucast (x AND Rune2) :: u16)" if "\<not> x AND Rune2 \<le> Rune1" for x :: u32
  proof (rule l [OF that])
    have "x AND Rune2 \<le> Rune2" by (rule word_and_le1)
    then show "x AND Rune2 \<le> Rune3" by (rule order_trans) (simp add: rune_consts)
  qed
  have 3: "128 \<le> unat (ucast (x AND Rune3) :: u16)" if "\<not> x AND Rune3 \<le> Rune2" for x :: u32
  proof (rule l)
    show "x AND Rune3 \<le> Rune3" by (rule word_and_le1)
    show "\<not> x AND Rune3 \<le> Rune1" using that by (auto simp: rune_consts intro: order_trans)
  qed
  have "128 \<le> unat Bad" by (simp add: Bad_def)
  then show ?thesis using assms 2 3 unfolding chartorune_def Let_def by (auto simp del: word_and_le1)
qed

lemma rune_at_cases:
  assumes r: "rune_at text s = (r, w)" and c: "unat (c :: u16) < Runeself"
  obtains "byte_at text s = ucast r" "w = 1" "unat r < Runeself"
    | "\<And>i. i < w \<Longrightarrow> byte_at text (s + i) \<noteq> 0 \<and> byte_at text (s + i) \<noteq> ucast c" "\<not> unat r < Runeself"
proof (cases "unat (byte_at text s) < Runeself")
  case True
  then have rw: "r = ucast (byte_at text s)" "w = 1" using r by (simp_all add: rune_at_def Let_def)
  have lt: "unat (byte_at text s) < 256" using True by (simp add: Runeself_def)
  then have u: "unat r = unat (byte_at text s)" by (simp add: rw unsigned_ucast_eq take_bit_eq_mod)
  then have "unat (ucast r :: u8) = unat (byte_at text s)" using lt by (simp add: unsigned_ucast_eq take_bit_eq_mod)
  then have "byte_at text s = ucast r" by (simp add: word_unat_eq_iff)
  then show ?thesis using that(1) rw u True by simp
next
  case False
  then have ch: "chartorune (drop s text) = (r, w)" using r by (simp add: rune_at_def Let_def)
  have b7: "bit (byte_at text (s + i)) 7" if "i < w" for i
  proof (cases i)
    case 0
    then show ?thesis using False lead_lt(1) by (simp add: rune_consts Runeself_def word_less_nat_alt)
  next
    case (Suc k)
    then show ?thesis using chartorune_cont [OF ch _ \<open>i < w\<close>] continuation_bit by (simp add: byte_at_drop)
  qed
  have "byte_at text (s + i) \<noteq> 0 \<and> byte_at text (s + i) \<noteq> ucast c" if "i < w" for i
    using big_byte [OF b7 [OF that]] c by simp
  moreover have "128 \<le> unat (fst (chartorune (drop s text)))"
    using False by (intro chartorune_multi) (simp add: byte_at_drop Runeself_def rune_consts word_less_nat_alt)
  then have "\<not> unat r < Runeself" using ch by (simp add: Runeself_def)
  ultimately show ?thesis by (rule that(2))
qed

lemma strchr_step:
  assumes r: "rune_at text s = (r, w)" and c: "unat (c :: u16) < Runeself"
  shows "strchr (drop s text) (ucast c) = (if r = c then Some 0 else if r = 0 then None else map_option ((+) w) (strchr (drop (s + w) text) (ucast c)))"
proof (rule rune_at_cases [OF r c])
  assume a: "byte_at text s = ucast r" "w = 1" "unat r < Runeself"
  have inj: "ucast r = (ucast c :: u8) \<longleftrightarrow> r = c"
  proof
    assume "ucast r = (ucast c :: u8)"
    then have "unat (ucast r :: u8) = unat (ucast c :: u8)" by simp
    then show "r = c" using a(3) c by (simp add: unsigned_ucast_eq take_bit_eq_mod Runeself_def word_unat_eq_iff)
  qed simp
  have z: "ucast r = (0 :: u8) \<longleftrightarrow> r = 0" 
  proof
    assume "ucast r = (0 :: u8)"
    then have "unat (ucast r :: u8) = 0" by simp
    then show "r = 0" using a(3) by (simp add: unsigned_ucast_eq take_bit_eq_mod Runeself_def word_unat_eq_iff)
  qed simp
  show ?thesis
  proof (cases "s < length text")
    case True
    then have d: "drop s text = ucast r # drop (s + w) text" using a by (simp add: byte_at_def Cons_nth_drop_Suc [symmetric])
    show ?thesis
    proof (cases "r = 0")
      case r0: True
      then show ?thesis using d inj by auto
    next
      case False
      have "(+) (Suc 0) = Suc" by auto
      then show ?thesis unfolding d using z inj a(2) False by auto
    qed
  next
    case False
    then have "r = 0" using a z by (simp add: byte_at_def)
    then show ?thesis using False inj by auto
  qed
next
  assume a: "\<And>i. i < w \<Longrightarrow> byte_at text (s + i) \<noteq> 0 \<and> byte_at text (s + i) \<noteq> ucast c" "\<not> unat r < Runeself"
  have "r \<noteq> c" "r \<noteq> 0" using a(2) c by (auto simp: Runeself_def)
  moreover have "strchr (drop s text) (ucast c) = map_option ((+) w) (strchr (drop w (drop s text)) (ucast c))"
    by (rule strchr_drop) (simp add: byte_at_drop a(1))
  ultimately show ?thesis by (simp add: add.commute)
qed

text \<open>With no threads left, the positions where the first instruction cannot take the rune change nothing.\<close>

definition idle :: "reinst list \<times> nat \<Rightarrow> u8 list \<Rightarrow> nat \<Rightarrow> exec \<Rightarrow> bool" where
  "idle pg text s x \<longleftrightarrow> nl x = [] \<and> itype (fst pg ! snd pg) = tRUNE \<and> (found x \<or> ir (fst pg ! snd pg) \<noteq> fst (rune_at text s))"

lemma idle_reach:
  assumes inv: "linv pg text eol s0 s x" and id: "idle pg text s x" and r: "reaches pg text eol s0 s q c"
  shows "q = snd pg \<and> \<not> found x \<or> dead x c"
proof -
  obtain p where p: "(eps_at (fst pg) text eol s)\<^sup>*\<^sup>* p q" "p = snd pg \<and> c = s \<or> consumed pg text eol s0 s p c"
    using reaches_split [OF r] by blast
  show ?thesis
  proof (cases "p = snd pg \<and> c = s")
    case True
    have "\<not> eps_at (fst pg) text eol s (snd pg) u" for u using id by (auto simp: idle_def eps_at_def epsE_def not_passes_end)
    then have q: "q = snd pg" using p(1) True by (auto elim: converse_rtranclpE)
    show ?thesis
    proof (cases "found x")
      case f: True
      then obtain b e where "mp x ! 0 = (Some b, Some e)" "match_at pg text eol s0 b e" "e < s" using inv by (auto simp: linv_def okmp_def)
      moreover from this have "b \<le> e" using reaches_pos(2) unfolding match_at_def by blast
      ultimately show ?thesis using f True by (auto simp: dead_def better_def)
    qed (simp add: q)
  next
    case False
    then show ?thesis using p(2) inv id by (auto simp: linv_def idle_def has_def)
  qed
qed

lemma idle_match:
  assumes inv: "linv pg text eol s0 s x" and id: "idle pg text s x" and m: "match_at pg text eol s0 c e" "e \<le> s"
  shows "found x \<and> better (mp x) c e"
proof (cases "e = s")
  case True
  then obtain q where "reaches pg text eol s0 s q c" "itype (fst pg ! q) = tEND" using m by (auto simp: match_at_def)
  then show ?thesis using idle_reach [OF inv id] id by (fastforce simp: idle_def dead_def)
qed (use inv m in \<open>auto simp: linv_def\<close>)

lemma idle_step:
  assumes inv: "linv pg text eol s0 s x" and id: "idle pg text s x" and t: "adv text eol s t"
  shows "linv pg text eol s0 t x"
proof -
  have pos: "(adv text eol)\<^sup>*\<^sup>* s0 s" and nl: "nl x = []" using inv id by (simp_all add: linv_def idle_def)
  have gt: "s < t" using adv_gt [OF t] .
  have "has 0 (nl x) p c \<or> dead x c" if cn: "consumed pg text eol s0 t p c" for p c
  proof -
    obtain q s1 where q: "reaches pg text eol s0 s1 q c" "charE (fst pg) (fst (rune_at text s1)) q p" "adv text eol s1 t" using cn by (auto simp: consumed_def)
    have "s1 \<le> s" using adv_between [OF pos t reaches_pos(1) [OF q(1)]] adv_gt [OF q(3)] by simp
    moreover have "s \<le> s1" using adv_between [OF reaches_pos(1) [OF q(1)] q(3) pos] gt by simp
    ultimately have s1: "s1 = s" by simp
    then show ?thesis using idle_reach [OF inv id, of q c] q id by (auto simp: idle_def charE_def takes_def)
  qed
  moreover have "found x \<and> better (mp x) c e" if m: "match_at pg text eol s0 c e" "e < t" for c e
  proof (rule idle_match [OF inv id m(1)])
    show "e \<le> s" using adv_between [OF pos t, of e] m reaches_pos(1) unfolding match_at_def by blast
  qed
  moreover have "okmp (\<lambda>b e. match_at pg text eol s0 b e \<and> e < t) (found x) (mp x)"
    by (rule okmp_mono [of "\<lambda>b e. match_at pg text eol s0 b e \<and> e < s"]) (use inv gt in \<open>auto simp: linv_def\<close>)
  ultimately show ?thesis using rtranclp.rtrancl_into_rtrancl [OF pos t] nl by (simp add: linv_def good_def)
qed

lemma skip_ok:
  assumes c: "ir (fst pg ! snd pg) = c" "unat c < Runeself" "itype (fst pg ! snd pg) = tRUNE"
  shows "linv pg text None s0 s x \<Longrightarrow> nl x = [] \<Longrightarrow> (case start_skip text tRUNE c s of
      Some s' \<Rightarrow> linv pg text None s0 s' x
    | None \<Rightarrow> leftmost_longest pg text None s0 (if found x then 1 else 0) (mp x))"
proof (induction "length text - s" arbitrary: s rule: less_induct)
  case less
  obtain r w where rw: "rune_at text s = (r, w)" by (cases "rune_at text s")
  have sk: "start_skip text tRUNE c s' = map_option ((+) s') (strchr (drop s' text) (ucast c))" for s'
    using c(2) by (simp add: start_skip_def utfrune_def Runeself_def)
  note st = strchr_step [OF rw c(2)]
  show ?case
  proof (cases "r = c")
    case True
    then show ?thesis using less.prems st by (simp add: sk)
  next
    case False
    then have id: "idle pg text s x" using c less.prems(2) by (simp add: idle_def rw)
    show ?thesis
    proof (cases "r = 0")
      case True
      then have l: "last_pos text None s" by (simp add: last_pos_def rw)
      have pos: "(adv text None)\<^sup>*\<^sup>* s0 s" and ok: "okmp (\<lambda>b e. match_at pg text None s0 b e \<and> e < s) (found x) (mp x)"
        using less.prems(1) by (simp_all add: linv_def)
      have "found x \<and> better (mp x) b e" if m: "match_at pg text None s0 b e" for b e
        using idle_match [OF less.prems(1) id m] adv_last [OF pos l] m reaches_pos(1) unfolding match_at_def by blast
      moreover have "okmp (match_at pg text None s0) (found x) (mp x)" using ok by (rule okmp_mono) simp
      ultimately show ?thesis using scan_end st True False by (simp add: sk)
    next
      case r0: False
      then have t: "adv text None s (s + w)" by (simp add: adv_def last_pos_def rw)
      have "s < length text" using r0 rw by (auto simp: rune_at_def byte_at_def Runeself_def split: if_splits)
      then have "length text - (s + w) < length text - s" using adv_gt [OF t] by simp
      from less.hyps [OF this idle_step [OF less.prems(1) id t] less.prems(2)]
      have IH: "case start_skip text tRUNE c (s + w) of Some s' \<Rightarrow> linv pg text None s0 s' x
        | None \<Rightarrow> leftmost_longest pg text None s0 (if found x then 1 else 0) (mp x)" .
      have "start_skip text tRUNE c s = start_skip text tRUNE c (s + w)"
        using st r0 False by (cases "strchr (drop (s + w) text) (ucast c)") (simp_all add: sk)
      then show ?thesis using IH by simp
    qed
  qed
qed

definition fast_start :: "reinst list \<times> nat \<Rightarrow> u16 \<Rightarrow> bool" where
  "fast_start pg c \<longleftrightarrow> itype (fst pg ! snd pg) = tRUNE \<and> ir (fst pg ! snd pg) = c \<and> unat c < Runeself"

lemma reg_loop_ok:
  assumes wf: "wf_prog pg" and ty: "ty = 0 \<or> ty = tRUNE \<and> fast_start pg sc \<and> eol = None"
  shows "reg_loop n pg text eol ty sc room s x = Inr (rv, mt) \<Longrightarrow> linv pg text eol s0 s x \<Longrightarrow> rv \<noteq> - 1 \<Longrightarrow> leftmost_longest pg text eol s0 rv mt"
proof (induction n arbitrary: s x rule: less_induct)
  case (less n)
  let ?o = "if ty \<noteq> 0 \<and> nl x = [] then start_skip text ty sc s else Some s"
  have o: "case ?o of Some s' \<Rightarrow> linv pg text eol s0 s' x | None \<Rightarrow> leftmost_longest pg text eol s0 (if found x then 1 else 0) (mp x)"
    using ty less.prems(2) skip_ok [of pg sc "text" s0 s x] by (cases "start_skip text ty sc s") (auto simp: fast_start_def)
  show ?case
  proof (cases ?o)
    case None
    then show ?thesis using o less.prems(1) by (auto simp: reg_loop.simps [of n])
  next
    case (Some s')
    then have inv: "linv pg text eol s0 s' x" using o by simp
    obtain r w where rw: "rune_at text s' = (r, w)" by (cases "rune_at text s'")
    obtain tl1 full y where st: "(if found x then Inr (nl x, False) else renewemptythread room (snd pg) s' (nl x)) = Inr (tl1, full)"
      and run: "run_list room (fst pg) room s' r (bol_at text s') (eol_at eol s' r) 0 (x\<lparr>tl := tl1, nl := []\<rparr>) = Inr y"
      and res: "(case y of None \<Rightarrow> Inr (- 1, mp x) | Some x1 \<Rightarrow> if eol = Some s' \<or> r = 0 then Inr (if found x1 then 1 else 0, mp x1)
        else case n of 0 \<Rightarrow> Inl Loop | Suc m \<Rightarrow> reg_loop m pg text eol ty sc room (s' + w) x1) = Inr (rv, mt)"
      using less.prems(1) rw Some by (auto simp: reg_loop.simps [of n])
    then obtain x1 where y: "y = Some x1" using less.prems(3) by (cases y) auto
    have r: "r = fst (rune_at text s')" by (simp add: rw)
    note sc = scan_ok [OF wf inv r st run [unfolded y]]
    show ?thesis
    proof (cases "last_pos text eol s'")
      case True
      then have e: "(rv, mt) = (if found x1 then 1 else 0, mp x1)" using res y rw by (auto simp: last_pos_def)
      have pos: "(adv text eol)\<^sup>*\<^sup>* s0 s'" using inv by (simp add: linv_def)
      have "found x1 \<and> better (mp x1) c e" if m: "match_at pg text eol s0 c e" for c e
        using sc(2) [OF m] adv_last [OF pos True] m reaches_pos(1) unfolding match_at_def by blast
      from scan_end [OF sc(1) this] show ?thesis using e by simp
    next
      case False
      then have "adv text eol s' (s' + w)" by (simp add: adv_def rw)
      moreover obtain m where "n = Suc m" "reg_loop m pg text eol ty sc room (s' + w) x1 = Inr (rv, mt)"
        using res y rw False by (cases n) (auto simp: last_pos_def)
      ultimately show ?thesis using less.IH sc(3) less.prems(3) by auto
    qed
  qed
qed

lemma linv_init: "0 < ms \<Longrightarrow> linv pg text eol s0 s0 \<lparr>tl = [], nl = [], mp = replicate ms (None, None), found = False\<rparr>"
proof -
  have "s0 \<le> s" if "reaches pg text eol s0 s q c" for s q c using reaches_pos(1) [OF that] adv_mono by blast
  then show "0 < ms \<Longrightarrow> linv pg text eol s0 s0 \<lparr>tl = [], nl = [], mp = replicate ms (None, None), found = False\<rparr>"
    unfolding linv_def consumed_def match_at_def by (fastforce simp: good_def okmp_def sp0_def dest: adv_gt)
qed

text \<open>
  The machine comes to an end: \<open>next_ends\<close> says that every instruction but \<open>END\<close> has a successor, an alternative its
  second branch, and that the \<open>next\<close> pointers of the instructions that consume nothing form no cycle (\<open>d\<close> is the number of
  steps they can still take).
\<close>

definition next_ends :: "reinst list \<Rightarrow> (nat \<Rightarrow> nat) \<Rightarrow> bool" where
  "next_ends prog d \<longleftrightarrow> (\<forall>i < length prog. d i \<le> length prog \<and>
     (itype (prog ! i) \<noteq> tEND \<longrightarrow> inext (prog ! i) \<noteq> None) \<and> (itype (prog ! i) = tOR \<longrightarrow> iright (prog ! i) \<noteq> None) \<and>
     (itype (prog ! i) \<in> {tLBRA, tRBRA, tBOL, tEOL, tOR} \<longrightarrow> (\<forall>j. inext (prog ! i) = Some j \<longrightarrow> d j < d i)))"

lemma next_endsD:
  assumes "next_ends prog d" and "i < length prog"
  shows "itype (prog ! i) \<noteq> tEND \<Longrightarrow> \<exists>j. inext (prog ! i) = Some j"
    and "itype (prog ! i) = tOR \<Longrightarrow> \<exists>j. iright (prog ! i) = Some j"
    and "itype (prog ! i) \<in> {tLBRA, tRBRA, tBOL, tEOL, tOR} \<Longrightarrow> inext (prog ! i) = Some j \<Longrightarrow> d j < d i"
    and "d i \<le> length prog"
  using assms by (auto simp: next_ends_def)

definition lists_ok :: "nat \<Rightarrow> nat \<Rightarrow> relist list \<Rightarrow> bool" where
  "lists_ok len room ts \<longleftrightarrow> length ts \<le> room - 1 \<and> (\<forall>t \<in> set ts. linst t < len)"

lemma add_thread_ok: "add_thread room t ts = Inr (ts', full) \<Longrightarrow> lists_ok len room ts \<Longrightarrow> linst t < len \<Longrightarrow> lists_ok len room ts'"
  by (auto simp: add_thread_def lists_ok_def split: if_splits)

lemma renewthread_lists:
  assumes "renewthread room lp ip se ts = Inr (ts', full)" and "lists_ok len room ts" and "ip < len"
  shows "lists_ok len room ts'"
proof (cases "find_inst ip (drop lp ts)")
  case None
  with assms add_thread_ok show ?thesis by (fastforce simp: renewthread_def)
next
  case (Some i)
  have l: "linst (ts ! (lp + i)) < len" if "lp + i < length ts" using assms(2) that by (simp add: lists_ok_def)
  have "\<forall>t \<in> set (ts[lp + i := (ts ! (lp + i))\<lparr>lse := se\<rparr>]). linst t < len"
    using assms(2) l by (cases "lp + i < length ts") (auto simp: lists_ok_def list_update_beyond dest!: set_update_subset_insert [THEN subsetD])
  with Some assms(1,2) show ?thesis by (auto simp: renewthread_def lists_ok_def split: if_splits)
qed

lemma renewthread_err: "renewthread room lp ip se ts = Inl e \<Longrightarrow> e = Undef"
  by (auto simp: renewthread_def add_thread_def split: option.splits if_splits)

lemma deref_ok: "deref prog (Some j) = Inr i \<Longrightarrow> i = j \<and> j < length prog" "deref prog (Some j) = Inl e \<Longrightarrow> e = Undef"
  by (auto simp: deref_def split: if_splits)

lemma update_thread_ok: "lists_ok len room ts \<Longrightarrow> k < length ts \<Longrightarrow> linst t = linst (ts ! k) \<Longrightarrow> lists_ok len room (ts[k := t])"
  by (auto simp: lists_ok_def dest!: set_update_subset_insert [THEN subsetD])

definition ended :: "nat \<Rightarrow> nat \<Rightarrow> nat \<Rightarrow> exec option res \<Rightarrow> bool" where
  "ended len room k z \<longleftrightarrow> (case z of Inl e \<Rightarrow> e = Undef
     | Inr None \<Rightarrow> True
     | Inr (Some y) \<Rightarrow> k < length (tl y) \<and> lists_ok len room (tl y) \<and> lists_ok len room (nl y))"

lemma ended_simps [simp]:
  "ended len room k (Inl e) \<longleftrightarrow> e = Undef"
  "ended len room k (Inr None)"
  "ended len room k (Inr (Some y)) \<longleftrightarrow> k < length (tl y) \<and> lists_ok len room (tl y) \<and> lists_ok len room (nl y)"
  by (simp_all add: ended_def)

lemma ended_bind:
  "(\<And>e. m = Inl e \<Longrightarrow> e = Undef) \<Longrightarrow> (\<And>v. m = Inr v \<Longrightarrow> ended len room k (f v)) \<Longrightarrow> ended len room k (bindR m f)"
  by (cases m) simp_all

lemma renewthread_grows: "renewthread room lp ip se ts = Inr (ts', full) \<Longrightarrow> length ts \<le> length ts'"
  by (auto simp: renewthread_def add_thread_def split: option.splits if_splits)

lemma run_thread_ends:
  assumes "next_ends prog d" and "ip < length prog" and "d ip \<le> n" and "k < length (tl x)"
    and "lists_ok (length prog) room (tl x)" and "lists_ok (length prog) room (nl x)"
  shows "ended (length prog) room k (run_thread n prog room s r bolp eolp k ip x)"
  using assms
proof (induction n arbitrary: ip x rule: less_induct)
  case (less n)
  let ?i = "prog ! ip" and ?t = "tl x ! k"
  let ?E = "ended (length prog) room k"
  have go: "?E (bindR (deref prog (inext ?i)) (\<lambda>j. case n of 0 \<Rightarrow> Inl Loop | Suc m \<Rightarrow> run_thread m prog room s r bolp eolp k j y))"
    if "itype ?i \<in> {tLBRA, tRBRA, tBOL, tEOL, tOR}" "k < length (tl y)" "lists_ok (length prog) room (tl y)" "lists_ok (length prog) room (nl y)" for y
  proof -
    have "itype ?i \<noteq> tEND" using that(1) by auto
    then obtain j where j: "inext ?i = Some j" using next_endsD(1) [OF less.prems(1,2)] by blast
    have dj: "d j < d ip" by (rule next_endsD(3) [OF less.prems(1,2) that(1) j])
    with j obtain m where m: "n = Suc m" "d j \<le> m" using dj less.prems(3) by (cases n) auto
    show ?thesis unfolding j
    proof (rule ended_bind)
      fix v assume "deref prog (Some j) = Inr v"
      then have v: "v = j" "j < length prog" using deref_ok(1) by auto
      have "?E (run_thread m prog room s r bolp eolp k j y)"
        by (rule less.IH) (use v m that(2-4) less.prems(1) in simp_all)
      then show "?E (case n of 0 \<Rightarrow> Inl Loop | Suc m \<Rightarrow> run_thread m prog room s r bolp eolp k v y)" by (simp add: m(1) v(1))
    qed (rule deref_ok(2))
  qed
  have tk: "itype ?i \<noteq> tEND" if "takes ?i r" using that by (auto simp: takes_def split: if_splits)
  have take: "?E (bindR (deref prog (inext ?i)) (\<lambda>j. bindR (renewthread room 0 j (lse ?t) (nl x)) (\<lambda>(nl1, full).
       Inr (if full then None else Some (x\<lparr>nl := nl1\<rparr>)))))" if tr: "takes ?i r"
  proof -
    obtain j where j: "inext ?i = Some j" using next_endsD(1) [OF less.prems(1,2) tk [OF tr]] by blast
    show ?thesis unfolding j
    proof (intro ended_bind, goal_cases)
      case (3 v w)
      then have v: "v = j" "j < length prog" using deref_ok(1) by auto
      obtain nl1 full where w: "w = (nl1, full)" by (cases w)
      have "lists_ok (length prog) room nl1" using renewthread_lists [OF _ less.prems(6)] 3(2) v w by blast
      then show ?case using less.prems(4,5) by (simp add: w)
    qed (use deref_ok(2) renewthread_err in blast)+
  qed
  have or: "?E (bindR (deref prog (iright ?i)) (\<lambda>j. bindR (renewthread room k j (lse ?t) (tl x)) (\<lambda>(tl1, full).
       if full then Inr None else bindR (deref prog (inext ?i)) (\<lambda>j. case n of 0 \<Rightarrow> Inl Loop | Suc m \<Rightarrow> run_thread m prog room s r bolp eolp k j (x\<lparr>tl := tl1\<rparr>)))))"
    if t: "itype ?i = tOR"
  proof -
    obtain j where j: "iright ?i = Some j" using next_endsD(2) [OF less.prems(1,2) t] by blast
    show ?thesis unfolding j
    proof (intro ended_bind, goal_cases)
      case (3 v w)
      then have v: "v = j" "j < length prog" using deref_ok(1) by auto
      obtain tl1 full where w: "w = (tl1, full)" by (cases w)
      have "lists_ok (length prog) room tl1" "k < length tl1"
        using renewthread_lists [OF _ less.prems(5)] renewthread_grows 3(2) v w less.prems(4) by (blast, fastforce)
      then show ?case using go [of "x\<lparr>tl := tl1\<rparr>"] t less.prems(6) by (simp add: w)
    qed (use deref_ok(2) renewthread_err in blast)+
  qed
  have up: "lists_ok (length prog) room ((tl x)[k := ?t\<lparr>lse := se\<rparr>])" for se
    by (rule update_thread_ok) (use less.prems in auto)
  show ?case
    using take or go less.prems(4-6) up by (subst run_thread.simps) (auto simp: Let_def)
qed

definition safe :: "'a res \<Rightarrow> bool" where "safe z \<longleftrightarrow> (\<forall>e. z = Inl e \<longrightarrow> e = Undef)"

lemma safe_simps [simp]: "safe (Inr y)" "safe (Inl e) \<longleftrightarrow> e = Undef"
  by (simp_all add: safe_def)

lemma safe_bind: "safe m \<Longrightarrow> (\<And>v. m = Inr v \<Longrightarrow> safe (f v)) \<Longrightarrow> safe (bindR m f)"
  by (cases m) simp_all

lemma run_list_ends:
  assumes "next_ends prog d" and "lists_ok (length prog) room (tl x)" and "lists_ok (length prog) room (nl x)"
    and "room \<le> k + n"
  shows "safe (run_list n prog room s r bolp eolp k x) \<and>
    (\<forall>y. run_list n prog room s r bolp eolp k x = Inr (Some y) \<longrightarrow> lists_ok (length prog) room (nl y))"
  using assms
proof (induction n arbitrary: k x)
  case 0
  then have "\<not> k < length (tl x)" unfolding lists_ok_def by linarith
  then show ?case using 0 by (simp add: run_list.simps [of 0])
next
  case (Suc n)
  show ?case
  proof (cases "k < length (tl x)")
    case True
    let ?z = "run_thread (length prog) prog room s r bolp eolp k (linst (tl x ! k)) x"
    have l: "linst (tl x ! k) < length prog" using Suc.prems(2) True by (simp add: lists_ok_def)
    have e: "ended (length prog) room k ?z"
      by (rule run_thread_ends [OF Suc.prems(1) l next_endsD(4) [OF Suc.prems(1) l] True Suc.prems(2,3)])
    show ?thesis
    proof (cases ?z)
      case (Inr y)
      show ?thesis
      proof (cases y)
        case (Some x1)
        have "lists_ok (length prog) room (tl x1)" "lists_ok (length prog) room (nl x1)" using e by (simp_all add: Inr Some)
        from Suc.IH [OF Suc.prems(1) this, of "k + 1"] Suc.prems(4)
        show ?thesis by (simp add: run_list.simps [of "Suc n"] True Inr Some)
      qed (simp add: run_list.simps [of "Suc n"] True Inr)
    qed (use e in \<open>simp add: run_list.simps [of "Suc n"] True\<close>)
  qed (use Suc.prems in \<open>simp add: run_list.simps [of "Suc n"]\<close>)
qed

lemma start_skip_le: "start_skip text ty c s = Some s' \<Longrightarrow> s \<le> s'"
  by (auto simp: start_skip_def split: if_splits)

lemma reg_loop_ends:
  assumes "next_ends (fst pg) d" and "snd pg < length (fst pg)" and "lists_ok (length (fst pg)) room (nl x)"
    and "length tx \<le> s + n"
  shows "safe (reg_loop n pg tx eol ty c room s x)"
  using assms(3,4)
proof (induction n arbitrary: s x rule: less_induct)
  case (less n)
  let ?len = "length (fst pg)"
  show ?case
  proof (cases "if ty \<noteq> 0 \<and> nl x = [] then start_skip tx ty c s else Some s")
    case None
    then show ?thesis by (subst reg_loop.simps) simp
  next
    case (Some s')
    then have s: "s \<le> s'" using start_skip_le by (auto split: if_splits)
    obtain r w where rw: "rune_at tx s' = (r, w)" by (cases "rune_at tx s'")
    have w: "0 < w" using rune_at_width [of tx s'] rw by simp
    have r0: "r = 0" if "length tx \<le> s'" using rw that by (simp add: rune_at_def byte_at_def Runeself_def)
    define init where "init = (if found x then Inr (nl x, False) else renewemptythread room (snd pg) s' (nl x))"
    have i1: "safe init" using renewthread_err by (auto simp: init_def renewemptythread_def safe_def)
    have i2: "lists_ok ?len room tl1" if "init = Inr (tl1, b)" for tl1 b
      using that less.prems(1) renewthread_lists [OF _ less.prems(1) assms(2)]
      by (auto simp: init_def renewemptythread_def split: if_splits)
    have turn: "safe (bindR (run_list room (fst pg) room s' r (bol_at tx s') (eol_at eol s' r) 0 (x\<lparr>tl := tl1, nl := []\<rparr>)) (\<lambda>y. case y of None \<Rightarrow> Inr (- 1, mp x)
       | Some x1 \<Rightarrow>
           if eol = Some s' \<or> r = 0 then Inr (if found x1 then 1 else 0, mp x1)
           else case n of 0 \<Rightarrow> Inl Loop | Suc m \<Rightarrow> reg_loop m pg tx eol ty c room (s' + w) x1))" if t: "init = Inr (tl1, b)" for tl1 b
    proof (rule safe_bind)
      let ?x = "x\<lparr>tl := tl1, nl := []\<rparr>"
      have l: "lists_ok ?len room (tl ?x)" "lists_ok ?len room (nl ?x)" "room \<le> 0 + room"
        using i2 [OF t] by (simp_all add: lists_ok_def)
      note run = run_list_ends [OF assms(1) l, of s' r "bol_at tx s'" "eol_at eol s' r"]
      then show "safe (run_list room (fst pg) room s' r (bol_at tx s') (eol_at eol s' r) 0 ?x)" by blast
      fix y assume y: "run_list room (fst pg) room s' r (bol_at tx s') (eol_at eol s' r) 0 ?x = Inr y"
      show "safe (case y of None \<Rightarrow> Inr (- 1, mp x)
       | Some x1 \<Rightarrow>
           if eol = Some s' \<or> r = 0 then Inr (if found x1 then 1 else 0, mp x1)
           else case n of 0 \<Rightarrow> Inl Loop | Suc m \<Rightarrow> reg_loop m pg tx eol ty c room (s' + w) x1)"
      proof (cases y)
        case (Some x1)
        then have x1: "lists_ok ?len room (nl x1)" using run y by blast
        show ?thesis
        proof (cases n)
          case 0
          then have "r = 0" using r0 s less.prems(2) by simp
          then show ?thesis by (simp add: Some)
        next
          case (Suc m)
          have "safe (reg_loop m pg tx eol ty c room (s' + w) x1)"
            by (rule less.IH) (use Suc x1 s w less.prems(2) in auto)
          then show ?thesis by (simp add: Some Suc)
        qed
      qed simp
    qed
    have "safe (bindR init (\<lambda>(tl1, _). bindR (run_list room (fst pg) room s' r (bol_at tx s') (eol_at eol s' r) 0 (x\<lparr>tl := tl1, nl := []\<rparr>)) (\<lambda>y. case y of None \<Rightarrow> Inr (- 1, mp x)
       | Some x1 \<Rightarrow>
           if eol = Some s' \<or> r = 0 then Inr (if found x1 then 1 else 0, mp x1)
           else case n of 0 \<Rightarrow> Inl Loop | Suc m \<Rightarrow> reg_loop m pg tx eol ty c room (s' + w) x1)))"
      by (rule safe_bind [OF i1]) (use turn in auto)
    then show ?thesis by (subst reg_loop.simps) (simp only: Some rw init_def option.case prod.case)
  qed
qed

lemma regexec_ends:
  assumes "next_ends (fst pg) d" and "snd pg < length (fst pg)"
  shows "safe (regexec pg tx mp0)"
proof -
  have r: "safe (regexec1 room pg tx st eol ty c ms)" for room st eol ty c ms
    unfolding regexec1_def by (rule reg_loop_ends [OF assms]) (simp_all add: lists_ok_def)
  show ?thesis unfolding regexec_def Let_def
    by (rule safe_bind) (auto simp: r split: prod.split)
qed

lemma regexec_right:
  assumes wf: "wf_prog pg" and mp0: "mp0 \<noteq> []" and start: "itype (fst pg ! snd pg) \<noteq> tBOL" "itype (fst pg ! snd pg) = tRUNE \<Longrightarrow> ep0 mp0 = None"
    and run: "regexec pg text mp0 = Inr (rv, mt)" and rv: "rv \<noteq> - 1"
  shows "leftmost_longest pg text (ep0 mp0) (case sp0 mp0 of None \<Rightarrow> 0 | Some s \<Rightarrow> s) rv mt"
proof -
  let ?i = "fst pg ! snd pg" let ?s0 = "case sp0 mp0 of None \<Rightarrow> 0 | Some s \<Rightarrow> s"
  let ?ty = "if itype ?i = tRUNE \<and> unat (ir ?i) < Runeself then tRUNE else 0" let ?c = "if ?ty = tRUNE then ir ?i else 0"
  have ty: "?ty = 0 \<or> ?ty = tRUNE \<and> fast_start pg ?c \<and> ep0 mp0 = None" using start by (simp add: fast_start_def)
  have r1: "leftmost_longest pg text (ep0 mp0) ?s0 v m" if "regexec1 room pg text ?s0 (ep0 mp0) ?ty ?c (length mp0) = Inr (v, m)" "v \<noteq> - 1" for room v m
    using reg_loop_ok [OF wf ty _ linv_init] that mp0 by (simp add: regexec1_def)
  have s0: "(if mp0 \<noteq> [] \<and> sp0 mp0 \<noteq> None then the (sp0 mp0) else 0) = ?s0" "(if mp0 \<noteq> [] then ep0 mp0 else None) = ep0 mp0"
    using mp0 by (auto split: option.splits)
  have "bindR (regexec1 LISTSIZE pg text ?s0 (ep0 mp0) ?ty ?c (length mp0)) (\<lambda>(v, m).
     if v \<ge> 0 then Inr (v, m) else regexec1 BIGLISTSIZE pg text ?s0 (ep0 mp0) ?ty ?c (length mp0)) = Inr (rv, mt)"
    using run start(1) unfolding regexec_def Let_def s0 by (auto split: if_splits)
  then show ?thesis using r1 rv by (auto split: if_splits)
qed

text \<open>
  C37. When \<open>regexec\<close> returns and does not run out of room (\<open>-1\<close>), its result is right: \<open>0\<close> if no match exists,
  otherwise \<open>1\<close>, and the first element of \<open>mp\<close> is the leftmost match and the longest of those that start there. A match is
  a path through the program from its first instruction to \<open>END\<close>, over the runes between two positions. Where the \<open>next\<close>
  pointers of the instructions that consume nothing form no cycle, it does return, or a thread is written behind its list
  or a parenthesis number beyond the array of matches (\<open>Undef\<close>).

  Not covered are the cases in which the code is wrong: programs whose first instruction is \<open>BOL\<close>, programs whose first
  instruction is a character on strings with an end pointer, and threads written behind their list.
\<close>

theorem regexec_leftmost_longest:
  assumes wf: "wf_prog pg" and mp0: "mp0 \<noteq> []" and start: "itype (fst pg ! snd pg) \<noteq> tBOL" "itype (fst pg ! snd pg) = tRUNE \<Longrightarrow> ep0 mp0 = None"
  shows "(regexec pg text mp0 = Inr (rv, mt) \<longrightarrow> rv \<noteq> - 1 \<longrightarrow>
      leftmost_longest pg text (ep0 mp0) (case sp0 mp0 of None \<Rightarrow> 0 | Some s \<Rightarrow> s) rv mt) \<and>
    (next_ends (fst pg) d \<longrightarrow> regexec pg text mp0 = Inl Undef \<or> (\<exists>rv mt. regexec pg text mp0 = Inr (rv, mt)))"
proof (intro conjI impI)
  assume "regexec pg text mp0 = Inr (rv, mt)" "rv \<noteq> - 1"
  then show "leftmost_longest pg text (ep0 mp0) (case sp0 mp0 of None \<Rightarrow> 0 | Some s \<Rightarrow> s) rv mt"
    using regexec_right [OF assms(1-3), of "text" rv mt] assms(4) by blast
next
  assume "next_ends (fst pg) d"
  then have "safe (regexec pg text mp0)" using regexec_ends wf by (simp add: wf_prog_def)
  then show "regexec pg text mp0 = Inl Undef \<or> (\<exists>rv mt. regexec pg text mp0 = Inr (rv, mt))"
    by (cases "regexec pg text mp0") auto
qed

text \<open>The program that \<open>regcomp\<close> makes of \<open>a+b\<close>, on the text \<open>xaab\<close>.\<close>

definition prog_aplusb :: "reinst list \<times> nat" where
  "prog_aplusb = ([\<lparr>itype = tRUNE, icp = [], ir = 97, isubid = 0, iright = None, inext = Some 1\<rparr>,
     \<lparr>itype = tOR, icp = [], ir = 0, isubid = 0, iright = Some 0, inext = Some 2\<rparr>,
     \<lparr>itype = tRUNE, icp = [], ir = 98, isubid = 0, iright = None, inext = Some 3\<rparr>,
     \<lparr>itype = tEND, icp = [], ir = 0, isubid = 0, iright = None, inext = None\<rparr>], 0)"

definition text_xaab :: "u8 list" where "text_xaab = [120, 97, 97, 98]"

lemma bindR_weak_cong: "m = m' \<Longrightarrow> bindR m f = bindR m' f" by simp

lemmas run_eval = run_thread.simps run_list.simps reg_loop.simps renewthread_def renewemptythread_def add_thread_def takes_def passes_def deref_def
  rune_at_def byte_at_def bol_at_def eol_at_def start_skip_def sp0_def ep0_def empty_se_def renewmatch_def LISTSIZE_def BIGLISTSIZE_def NSUBEXP_def
  utfrune_def Runeself_def Let_def

lemma prog_aplusb_run: "regexec prog_aplusb text_xaab [(None, None)] = Inr (1, [(Some 1, Some 4)])"
  by (simp add: regexec_def regexec1_def prog_aplusb_def text_xaab_def run_eval cong: bindR_weak_cong)

lemmas comp_eval = regcomp_def regcomp1_def pinit_def pushator_def pushand_def popand_def tok_loop.simps lex_def nextc_def chartorune_def byte_at_def
  operand_def operator_def operator_cat_def evaluntil_def eval_loop.simps eval_op_def newinst_def upd_inst_def set_next_def set_right_def set_subid_def
  optimize_def opt_inst_def skip_nop.simps NSTACK_def NSUBEXP_def rune_consts Let_def

lemma prog_aplusb_compiled: "regcomp [97, 43, 98] = Inr prog_aplusb"
  by (simp add: comp_eval prog_aplusb_def upt_rec cong: bindR_weak_cong)

theorem regexec_leftmost_longest_witness:
  "leftmost_longest prog_aplusb text_xaab None 0 1 [(Some 1, Some 4)] \<and>
   (\<exists>rv mt. regexec prog_aplusb text_xaab [(None, None)] = Inr (rv, mt))"
proof -
  have "next_ends (fst prog_aplusb) (\<lambda>_. 0) \<or> next_ends (fst prog_aplusb) (\<lambda>i. if i = 1 then 1 else 0)"
    by (simp add: next_ends_def prog_aplusb_def less_Suc_eq numeral_eq_Suc)
  then show ?thesis
    using regexec_leftmost_longest [of prog_aplusb "[(None, None)]" text_xaab 1 "[(Some 1, Some 4)]"] prog_aplusb_run
    by (auto simp: wf_prog_def prog_aplusb_def sp0_def ep0_def)
qed

end
