(* ===== verification/RegexFrag.thy ===== *)
theory RegexFrag
  imports RegexExec
begin

text \<open>
  Parts of a program while \<^verbatim>\<open>regcomp.c\<close> puts it together: the paths through them, and what every operator of
  \<open>evaluntil\<close> makes of its operands.
\<close>

section \<open>Fragments of a program\<close>

text \<open>
  While the program is being with_parser together \<open>NOP\<close> stands for a jump to its \<open>next\<close>. \<open>lets\<close> says that an instruction run at
  the position \<open>s\<close> goes on with \<open>next\<close> at \<open>s'\<close>.
\<close>

definition lets :: "u8 list \<Rightarrow> nat option \<Rightarrow> reinst \<Rightarrow> nat \<Rightarrow> nat \<Rightarrow> bool" where
  "lets text eol i s s' \<longleftrightarrow>
     (passes i (bol_at text s) (eol_at eol s (fst (rune_at text s))) \<or> itype i = tNOP) \<and> s' = s \<or>
     takes i (fst (rune_at text s)) \<and> adv text eol s s'"

definition cstep :: "reinst list \<Rightarrow> u8 list \<Rightarrow> nat option \<Rightarrow> nat \<times> nat \<Rightarrow> nat \<times> nat \<Rightarrow> bool" where
  "cstep P text eol u v \<longleftrightarrow> lets text eol (P ! fst u) (snd u) (snd v) \<and> inext (P ! fst u) = Some (fst v) \<or>
     itype (P ! fst u) = tOR \<and> iright (P ! fst u) = Some (fst v) \<and> snd v = snd u"

text \<open>
  A fragment owns the instructions \<open>S\<close>; it is entered at \<open>f\<close> and left through \<open>next\<close> of \<open>l\<close>, which is not yet set.
\<close>

definition closed_inst :: "reinst list \<Rightarrow> nat set \<Rightarrow> nat \<Rightarrow> nat \<Rightarrow> bool" where
  "closed_inst P S l p \<longleftrightarrow> p < length P \<and> (\<forall>q. inext (P ! p) = Some q \<longrightarrow> q \<in> S) \<and>
     (\<forall>q. iright (P ! p) = Some q \<longrightarrow> q \<in> S \<and> itype (P ! q) \<noteq> tNOP) \<and>
     (p \<noteq> l \<longrightarrow> inext (P ! p) \<noteq> None) \<and> (itype (P ! p) = tLBRA \<longrightarrow> isubid (P ! p) \<noteq> 0)"

definition closed_frag :: "reinst list \<Rightarrow> nat set \<Rightarrow> nat \<Rightarrow> nat \<Rightarrow> bool" where
  "closed_frag P S f l \<longleftrightarrow> f \<in> S \<and> l \<in> S \<and> inext (P ! l) = None \<and> itype (P ! f) \<noteq> tNOP \<and> (\<forall>p \<in> S. closed_inst P S l p)"

type_synonym mrel = "u8 list \<Rightarrow> nat option \<Rightarrow> nat \<Rightarrow> nat \<Rightarrow> bool"

definition frag :: "reinst list \<Rightarrow> nat set \<Rightarrow> nat \<Rightarrow> nat \<Rightarrow> mrel \<Rightarrow> bool" where
  "frag P S f l L \<longleftrightarrow> closed_frag P S f l \<and> (\<forall>p \<in> S. itype (P ! p) \<noteq> tEND) \<and>
     (\<forall>text eol s s'. L text eol s s' \<longleftrightarrow> (\<exists>t. (cstep P text eol)\<^sup>*\<^sup>* (f, s) (l, t) \<and> lets text eol (P ! l) t s'))"

lemma cstep_local: "cstep P text eol (p, s) v \<Longrightarrow> P' ! p = P ! p \<Longrightarrow> cstep P' text eol (p, s) v"
  by (simp add: cstep_def)

lemma cstep_stays: assumes "closed_frag P S f l" "cstep P tx eol u v" "fst u \<in> S" shows "fst v \<in> S"
proof -
  have ci: "closed_inst P S l (fst u)" using assms by (simp add: closed_frag_def)
  have "inext (P ! fst u) = Some (fst v) \<or> iright (P ! fst u) = Some (fst v)" using assms(2) unfolding cstep_def by blast
  then show ?thesis using ci by (auto simp: closed_inst_def)
qed

lemma closed_stays:
  assumes "closed_frag P S f l" "(cstep P text eol)\<^sup>*\<^sup>* u v" "fst u \<in> S"
  shows "fst v \<in> S"
  using assms(2,3) by (induction rule: rtranclp_induct) (use cstep_stays [OF assms(1)] in blast)+

text \<open>What happens to the rest of the program does not matter.\<close>

lemma reach_mono:
  assumes r: "(cstep P text eol)\<^sup>*\<^sup>* u v" and c: "closed_frag P S f l" and u: "fst u \<in> S"
    and e: "\<And>p w w'. p \<in> S \<Longrightarrow> cstep P text eol (p, w) w' \<Longrightarrow> cstep P' text eol (p, w) w'"
  shows "(cstep P' text eol)\<^sup>*\<^sup>* u v"
  using r
proof (induction rule: rtranclp_induct)
  case (step v w)
  have "fst v \<in> S" using closed_stays [OF c step(1) u] .
  then have "cstep P' text eol v w" using step(2) e [of "fst v" "snd v" w] by simp
  with step.IH show ?case by (rule rtranclp.rtrancl_into_rtrancl)
qed simp

lemma closed_inst_agree:
  assumes "closed_inst P S l p" "P' ! p = P ! p" "\<And>q. q \<in> S \<Longrightarrow> itype (P' ! q) = itype (P ! q)" "length P \<le> length P'"
  shows "closed_inst P' S l p"
  using assms(1,3,4) unfolding closed_inst_def assms(2) by auto

lemma closed_agree:
  assumes c: "closed_frag P S f l" and e: "\<And>p. p \<in> S \<Longrightarrow> P' ! p = P ! p" and n: "length P \<le> length P'"
  shows "closed_frag P' S f l"
proof -
  have "closed_inst P' S l p" if "p \<in> S" for p
  proof (rule closed_inst_agree [of P])
    show "closed_inst P S l p" using c that by (simp add: closed_frag_def)
    show "P' ! p = P ! p" by (rule e [OF that])
    show "itype (P' ! q) = itype (P ! q)" if "q \<in> S" for q using e [OF that] by simp
  qed (rule n)
  then show ?thesis using c e [of f] e [of l] by (simp add: closed_frag_def)
qed

lemma reach_agree:
  assumes c: "closed_frag P S f l" and e: "\<And>p. p \<in> S \<Longrightarrow> P' ! p = P ! p" and n: "length P \<le> length P'" and p: "fst u \<in> S"
  shows "(cstep P' text eol)\<^sup>*\<^sup>* u v \<longleftrightarrow> (cstep P text eol)\<^sup>*\<^sup>* u v"
proof
  assume "(cstep P' text eol)\<^sup>*\<^sup>* u v"
  then show "(cstep P text eol)\<^sup>*\<^sup>* u v"
    by (rule reach_mono [OF _ closed_agree [OF c e n] p]) (use e in \<open>auto intro: cstep_local\<close>)
next
  assume "(cstep P text eol)\<^sup>*\<^sup>* u v"
  then show "(cstep P' text eol)\<^sup>*\<^sup>* u v"
    by (rule reach_mono [OF _ c p]) (use e in \<open>auto intro: cstep_local\<close>)
qed

lemma frag_agree:
  assumes f: "frag P S f l L" and e: "\<And>p. p \<in> S \<Longrightarrow> P' ! p = P ! p" and n: "length P \<le> length P'"
  shows "frag P' S f l L"
proof -
  have c: "closed_frag P S f l" using f by (simp add: frag_def)
  then have fl: "f \<in> S" "l \<in> S" by (simp_all add: closed_frag_def)
  have "itype (P' ! p) \<noteq> tEND" if "p \<in> S" for p using f that e [OF that] by (simp add: frag_def)
  moreover have "(cstep P' tx eol)\<^sup>*\<^sup>* (f, s) v \<longleftrightarrow> (cstep P tx eol)\<^sup>*\<^sup>* (f, s) v" for tx eol s v
    using reach_agree [OF c e n, of "(f, s)"] fl by simp
  ultimately show ?thesis using f closed_agree [OF c e n] e [OF fl(2)] by (simp add: frag_def)
qed

section \<open>Linking fragments\<close>

definition linked :: "reinst list \<Rightarrow> reinst list \<Rightarrow> nat set \<Rightarrow> nat \<Rightarrow> nat \<Rightarrow> bool" where
  "linked P P' S l n \<longleftrightarrow> length P \<le> length P' \<and> (\<forall>p \<in> S. p \<noteq> l \<longrightarrow> P' ! p = P ! p) \<and> P' ! l = (P ! l)\<lparr>inext := Some n\<rparr>"

lemma lets_next [simp]: "lets tx eol (i\<lparr>inext := x\<rparr>) = lets tx eol i"
  by (simp add: lets_def passes_def takes_def fun_eq_iff)

lemma linked_same: "linked P P' S l n \<Longrightarrow> p \<in> S \<Longrightarrow> itype (P' ! p) = itype (P ! p) \<and> iright (P' ! p) = iright (P ! p) \<and>
    isubid (P' ! p) = isubid (P ! p) \<and> lets tx eol (P' ! p) = lets tx eol (P ! p)"
  by (cases "p = l") (simp_all add: linked_def)

lemma closed_inst_link:
  assumes c: "closed_frag P S f l" and k: "linked P P' S l n" and p: "p \<in> S" and S': "S \<subseteq> S'" "n \<in> S'" "l' \<notin> S"
  shows "closed_inst P' S' l' p"
proof -
  have ci: "closed_inst P S l p" using c p by (simp add: closed_frag_def)
  have len: "p < length P'" using ci k by (simp add: closed_inst_def linked_def)
  have r: "q \<in> S' \<and> itype (P' ! q) \<noteq> tNOP" if "iright (P' ! p) = Some q" for q
  proof -
    have "iright (P ! p) = Some q" using that linked_same [OF k p] by simp
    then have "q \<in> S" "itype (P ! q) \<noteq> tNOP" using ci by (simp_all add: closed_inst_def)
    then show ?thesis using linked_same [OF k] S' by auto
  qed
  have x: "(\<forall>q. inext (P' ! p) = Some q \<longrightarrow> q \<in> S') \<and> inext (P' ! p) \<noteq> None"
  proof (cases "p = l")
    case True
    then show ?thesis using k S' by (simp add: linked_def)
  next
    case False
    then show ?thesis using k ci p S' by (auto simp: linked_def closed_inst_def)
  qed
  show ?thesis using len r x ci linked_same [OF k p] by (simp add: closed_inst_def)
qed

lemma link_step:
  assumes c: "closed_frag P S f l" and k: "linked P P' S l n" and q: "q \<in> S" and st: "cstep P' tx eol (q, t) (q', t')"
  shows "q' \<in> S \<and> cstep P tx eol (q, t) (q', t') \<or> q = l \<and> q' = n \<and> lets tx eol (P ! l) t t'"
proof (cases "q = l")
  case True
  have l: "P' ! l = (P ! l)\<lparr>inext := Some n\<rparr>" using k by (simp add: linked_def)
  from st consider "lets tx eol (P' ! q) t t'" "inext (P' ! q) = Some q'" | "itype (P' ! q) = tOR" "iright (P' ! q) = Some q'" "t' = t"
    by (auto simp: cstep_def)
  then show ?thesis
  proof cases
    case 1
    then show ?thesis using True by (simp add: l)
  next
    case 2
    then have "cstep P tx eol (q, t) (q', t')" using True by (simp add: l cstep_def)
    then show ?thesis using cstep_stays [OF c, of tx eol "(q, t)" "(q', t')"] q by simp
  qed
next
  case False
  then have "cstep P tx eol (q, t) (q', t')" using st k q by (simp add: linked_def cstep_def)
  then show ?thesis using cstep_stays [OF c, of tx eol "(q, t)" "(q', t')"] q by simp
qed

lemma link_cstep:
  assumes c: "closed_frag P S f l" and k: "linked P P' S l n" and q: "q \<in> S" and st: "cstep P tx eol (q, t) w"
  shows "cstep P' tx eol (q, t) w"
proof (cases "q = l")
  case True
  have "inext (P ! l) = None" using c by (simp add: closed_frag_def)
  then show ?thesis using st True linked_same [OF k q] by (simp add: cstep_def)
next
  case False
  then show ?thesis using k q st by (simp add: linked_def cstep_def)
qed

lemma link_reach: "closed_frag P S f l \<Longrightarrow> linked P P' S l n \<Longrightarrow> fst u \<in> S \<Longrightarrow> (cstep P tx eol)\<^sup>*\<^sup>* u v \<Longrightarrow> (cstep P' tx eol)\<^sup>*\<^sup>* u v"
  by (rule reach_mono [of P]) (auto intro: link_cstep)

lemma link_exit:
  assumes f: "frag P S f l L" and k: "linked P P' S l n" and L: "L tx eol s s'"
  shows "(cstep P' tx eol)\<^sup>*\<^sup>* (f, s) (n, s')"
proof -
  have c: "closed_frag P S f l" using f by (simp add: frag_def)
  obtain t where t: "(cstep P tx eol)\<^sup>*\<^sup>* (f, s) (l, t)" "lets tx eol (P ! l) t s'" using f L by (auto simp: frag_def)
  have fl: "f \<in> S" using c by (simp add: closed_frag_def)
  have "cstep P' tx eol (l, t) (n, s')" using t(2) k by (simp add: cstep_def linked_def)
  with link_reach [OF c k _ t(1)] fl show ?thesis by (simp add: rtranclp.rtrancl_into_rtrancl)
qed

text \<open>The positions a run inside a fragment can be at, and what a step of the larger program adds.\<close>

definition inside :: "reinst list \<Rightarrow> nat set \<Rightarrow> nat \<Rightarrow> u8 list \<Rightarrow> nat option \<Rightarrow> nat \<Rightarrow> nat \<times> nat \<Rightarrow> bool" where
  "inside P S f tx eol s v \<longleftrightarrow> fst v \<in> S \<and> (cstep P tx eol)\<^sup>*\<^sup>* (f, s) v"

lemma inside_step:
  assumes f: "frag P S f l L" and k: "linked P P' S l n" and i: "inside P S f tx eol s (q, t)" and st: "cstep P' tx eol (q, t) (q', t')"
  shows "inside P S f tx eol s (q', t') \<or> q' = n \<and> L tx eol s t'"
proof -
  have c: "closed_frag P S f l" using f by (simp add: frag_def)
  have q: "q \<in> S" using i by (simp add: inside_def)
  from link_step [OF c k q st] show ?thesis
  proof
    assume "q' \<in> S \<and> cstep P tx eol (q, t) (q', t')"
    then show ?thesis using i by (auto simp: inside_def intro: rtranclp.rtrancl_into_rtrancl)
  next
    assume "q = l \<and> q' = n \<and> lets tx eol (P ! l) t t'"
    then show ?thesis using i f by (auto simp: inside_def frag_def)
  qed
qed

lemma inside_start: "frag P S f l L \<Longrightarrow> inside P S f tx eol s (f, s)"
  by (simp add: inside_def frag_def closed_frag_def)

text \<open>An invariant of the runs from a node.\<close>

lemma paths_inv:
  assumes "(cstep P tx eol)\<^sup>*\<^sup>* (p, s) (q, t)" "I p s" "\<And>q t q' t'. I q t \<Longrightarrow> cstep P tx eol (q, t) (q', t') \<Longrightarrow> I q' t'"
  shows "I q t"
proof -
  have "case (q, t) of (a, b) \<Rightarrow> I a b" using assms(1)
    by (induction rule: rtranclp_induct) (use assms(2,3) in \<open>auto split: prod.splits\<close>)
  then show ?thesis by simp
qed

section \<open>The operators\<close>

lemma fragI:
  assumes "closed_frag P S f l" "\<And>p. p \<in> S \<Longrightarrow> itype (P ! p) \<noteq> tEND"
    "\<And>tx eol s t s'. (cstep P tx eol)\<^sup>*\<^sup>* (f, s) (l, t) \<Longrightarrow> lets tx eol (P ! l) t s' \<Longrightarrow> L tx eol s s'"
    "\<And>tx eol s s'. L tx eol s s' \<Longrightarrow> \<exists>t. (cstep P tx eol)\<^sup>*\<^sup>* (f, s) (l, t) \<and> lets tx eol (P ! l) t s'"
  shows "frag P S f l L"
  using assms unfolding frag_def by blast

lemma closed_fragI: "f \<in> S \<Longrightarrow> l \<in> S \<Longrightarrow> inext (P ! l) = None \<Longrightarrow> itype (P ! f) \<noteq> tNOP \<Longrightarrow> (\<And>p. p \<in> S \<Longrightarrow> closed_inst P S l p) \<Longrightarrow> closed_frag P S f l"
  by (simp add: closed_frag_def)

lemma frag_noend: "frag P S f l L \<Longrightarrow> linked P P' S l n \<Longrightarrow> p \<in> S \<Longrightarrow> itype (P' ! p) \<noteq> tEND"
  using linked_same [of P P' S l n p] by (simp add: frag_def)

lemma frag_leaves: "frag P S f l L \<Longrightarrow> inside P S f tx eol s (l, t) \<Longrightarrow> lets tx eol (P ! l) t s' \<Longrightarrow> L tx eol s s'"
  unfolding frag_def inside_def by blast

lemma frag_atom:
  assumes "n < length P" "inext (P ! n) = None" "iright (P ! n) = None" "itype (P ! n) \<notin> {tNOP, tEND, tLBRA}"
  shows "frag P {n} n n (\<lambda>tx eol. lets tx eol (P ! n))"
proof (rule fragI)
  show "closed_frag P {n} n n" using assms by (simp add: closed_frag_def closed_inst_def)
  show "lets tx eol (P ! n) s s'" if "(cstep P tx eol)\<^sup>*\<^sup>* (n, s) (n, t)" "lets tx eol (P ! n) t s'" for tx eol s t s'
  proof -
    have "\<not> cstep P tx eol (n, s) w" for w using assms by (simp add: cstep_def)
    then have "t = s" using that(1) by (auto elim: converse_rtranclpE)
    then show ?thesis using that(2) by simp
  qed
qed (use assms in auto)

lemma frag_cat:
  assumes f1: "frag P S1 f1 l1 L1" and f2: "frag P S2 f2 l2 L2" and d: "S1 \<inter> S2 = {}"
    and P': "length P' = length P" "\<And>p. p \<noteq> l1 \<Longrightarrow> P' ! p = P ! p" "P' ! l1 = (P ! l1)\<lparr>inext := Some f2\<rparr>"
  shows "frag P' (S1 \<union> S2) f1 l2 (\<lambda>tx eol. L1 tx eol OO L2 tx eol)"
proof -
  have c: "closed_frag P S1 f1 l1" "closed_frag P S2 f2 l2" using f1 f2 by (simp_all add: frag_def)
  have k: "linked P P' S1 l1 f2" using P' by (simp add: linked_def)
  have l1: "l1 \<in> S1" "l2 \<in> S2" "f2 \<in> S2" "f1 \<in> S1" using c by (simp_all add: closed_frag_def)
  have e2: "P' ! p = P ! p" if "p \<in> S2" for p
  proof (rule P'(2))
    show "p \<noteq> l1" using that d l1 by blast
  qed
  have f2': "frag P' S2 f2 l2 L2" by (rule frag_agree [OF f2 e2]) (simp_all add: P')
  have c2': "closed_frag P' S2 f2 l2" using f2' by (simp add: frag_def)
  show ?thesis
  proof (rule fragI)
    show "closed_frag P' (S1 \<union> S2) f1 l2"
    proof (rule closed_fragI)
      show "closed_inst P' (S1 \<union> S2) l2 p" if "p \<in> S1 \<union> S2" for p
      proof (cases "p \<in> S1")
        case True
        then show ?thesis using l1 d by (intro closed_inst_link [OF c(1) k]) auto
      next
        case False
        then have "closed_inst P' S2 l2 p" using that c2' by (simp add: closed_frag_def)
        then show ?thesis by (auto simp: closed_inst_def)
      qed
    qed (use l1 c c2' linked_same [OF k] in \<open>auto simp: closed_frag_def\<close>)
    show "itype (P' ! p) \<noteq> tEND" if "p \<in> S1 \<union> S2" for p
      using that frag_noend [OF f1 k] f2' by (auto simp: frag_def)
    show "(L1 tx eol OO L2 tx eol) s s'" if r: "(cstep P' tx eol)\<^sup>*\<^sup>* (f1, s) (l2, t)" "lets tx eol (P' ! l2) t s'" for tx eol s t s'
    proof -
      have "inside P S1 f1 tx eol s (l2, t) \<or> (\<exists>u. L1 tx eol s u \<and> inside P' S2 f2 tx eol u (l2, t))"
      proof (rule paths_inv [OF r(1)])
        show "inside P S1 f1 tx eol s (f1, s) \<or> (\<exists>u. L1 tx eol s u \<and> inside P' S2 f2 tx eol u (f1, s))" using inside_start [OF f1] by blast
        show "inside P S1 f1 tx eol s (q', t') \<or> (\<exists>u. L1 tx eol s u \<and> inside P' S2 f2 tx eol u (q', t'))"
          if i: "inside P S1 f1 tx eol s (q, t) \<or> (\<exists>u. L1 tx eol s u \<and> inside P' S2 f2 tx eol u (q, t))"
            and st: "cstep P' tx eol (q, t) (q', t')" for q t q' t'
          using i
        proof
          assume "inside P S1 f1 tx eol s (q, t)"
          from inside_step [OF f1 k this st] show ?thesis using inside_start [OF f2', of tx eol t'] by auto
        next
          assume "\<exists>u. L1 tx eol s u \<and> inside P' S2 f2 tx eol u (q, t)"
          then show ?thesis using st cstep_stays [OF c2' st] by (auto simp: inside_def intro: rtranclp.rtrancl_into_rtrancl)
        qed
      qed
      then obtain u where "L1 tx eol s u" "inside P' S2 f2 tx eol u (l2, t)" using l1 d by (auto simp: inside_def)
      then show ?thesis using frag_leaves [OF f2' _ r(2)] by (intro relcomppI)
    qed
    show "\<exists>t. (cstep P' tx eol)\<^sup>*\<^sup>* (f1, s) (l2, t) \<and> lets tx eol (P' ! l2) t s'" if L: "(L1 tx eol OO L2 tx eol) s s'" for tx eol s s'
    proof -
      obtain u where u: "L1 tx eol s u" "L2 tx eol u s'" using L by blast
      obtain t where t: "(cstep P' tx eol)\<^sup>*\<^sup>* (f2, u) (l2, t)" "lets tx eol (P' ! l2) t s'" using f2' u(2) by (auto simp: frag_def)
      show ?thesis using rtranclp_trans [OF link_exit [OF f1 k u(1)] t(1)] t(2) by blast
    qed
  qed
qed

lemma or_lets: "itype i = tOR \<Longrightarrow> lets tx eol i s s' \<longleftrightarrow> s' = s"
  by (simp add: lets_def passes_def takes_def)

lemma nop_lets: "itype i = tNOP \<Longrightarrow> lets tx eol i s s' \<longleftrightarrow> s' = s"
  by (simp add: lets_def passes_def takes_def)

lemma bra_lets: "itype i = tLBRA \<or> itype i = tRBRA \<Longrightarrow> lets tx eol i s s' \<longleftrightarrow> s' = s"
  by (auto simp: lets_def passes_def takes_def)

text \<open>A loop: the \<open>OR\<close> behind the fragment goes back to its begin.\<close>

lemma loop_facts:
  assumes f: "frag P S f l L" and n: "n \<notin> S" "n < length P'" "itype (P' ! n) = tOR" "iright (P' ! n) = Some f" "inext (P' ! n) = None"
    and k: "linked P P' S l n"
  shows "\<And>p. p \<in> insert n S \<Longrightarrow> closed_inst P' (insert n S) n p" "\<And>p. p \<in> insert n S \<Longrightarrow> itype (P' ! p) \<noteq> tEND"
    "\<And>tx eol s t. (L tx eol)\<^sup>*\<^sup>* s t \<Longrightarrow> (cstep P' tx eol)\<^sup>*\<^sup>* (n, s) (n, t)"
    "\<And>tx eol q t q' t' u. inside P S f tx eol u (q, t) \<Longrightarrow> cstep P' tx eol (q, t) (q', t') \<Longrightarrow> inside P S f tx eol u (q', t') \<or> q' = n \<and> L tx eol u t'"
    "\<And>tx eol t q' t'. cstep P' tx eol (n, t) (q', t') \<Longrightarrow> q' = f \<and> t' = t"
proof -
  have c: "closed_frag P S f l" using f by (simp add: frag_def)
  have fs: "f \<in> S" "itype (P ! f) \<noteq> tNOP" using c by (simp_all add: closed_frag_def)
  have ft: "itype (P' ! f) \<noteq> tNOP" using linked_same [OF k fs(1)] fs(2) by simp
  show "closed_inst P' (insert n S) n p" if "p \<in> insert n S" for p
  proof (cases "p = n")
    case True
    then show ?thesis using n fs ft by (simp add: closed_inst_def)
  next
    case False
    then show ?thesis using that n(1) by (intro closed_inst_link [OF c k]) auto
  qed
  show "itype (P' ! p) \<noteq> tEND" if "p \<in> insert n S" for p using that n(3) frag_noend [OF f k] by auto
  have bk: "cstep P' tx eol (n, s) (f, s)" for tx eol s using n by (simp add: cstep_def)
  show "(cstep P' tx eol)\<^sup>*\<^sup>* (n, s) (n, t)" if "(L tx eol)\<^sup>*\<^sup>* s t" for tx eol s t
    using that
  proof (induction rule: rtranclp_induct)
    case (step u v)
    have "(cstep P' tx eol)\<^sup>*\<^sup>* (n, u) (n, v)" using converse_rtranclp_into_rtranclp [OF bk link_exit [OF f k step(2)]] .
    then show ?case using step.IH by (rule rtranclp_trans [rotated])
  qed simp
  show "inside P S f tx eol u (q', t') \<or> q' = n \<and> L tx eol u t'" if "inside P S f tx eol u (q, t)" "cstep P' tx eol (q, t) (q', t')" for tx eol q t q' t' u
    using inside_step [OF f k that] .
  show "q' = f \<and> t' = t" if "cstep P' tx eol (n, t) (q', t')" for tx eol t q' t' using that n by (simp add: cstep_def)
qed

lemma frag_star:
  assumes f: "frag P S f l L" and n: "n \<notin> S" "n < length P'" "itype (P' ! n) = tOR" "iright (P' ! n) = Some f" "inext (P' ! n) = None"
    and k: "linked P P' S l n"
  shows "frag P' (insert n S) n n (\<lambda>tx eol. (L tx eol)\<^sup>*\<^sup>*)"
proof -
  note lf = loop_facts [OF assms]
  have nl: "lets tx eol (P' ! n) s s' \<longleftrightarrow> s' = s" for tx eol s s' using n(3) by (rule or_lets)
  show ?thesis
  proof (rule fragI)
    show "closed_frag P' (insert n S) n n" using n lf(1) by (intro closed_fragI) auto
    show "(L tx eol)\<^sup>*\<^sup>* s s'" if r: "(cstep P' tx eol)\<^sup>*\<^sup>* (n, s) (n, t)" "lets tx eol (P' ! n) t s'" for tx eol s t s'
    proof -
      let ?I = "\<lambda>q t. q = n \<and> (L tx eol)\<^sup>*\<^sup>* s t \<or> (\<exists>u. (L tx eol)\<^sup>*\<^sup>* s u \<and> inside P S f tx eol u (q, t))"
      have "?I n t"
      proof (rule paths_inv [where I = ?I, OF r(1)])
        show "?I q' t'" if i: "?I q t" and st: "cstep P' tx eol (q, t) (q', t')" for q t q' t'
          using i
        proof
          assume "q = n \<and> (L tx eol)\<^sup>*\<^sup>* s t"
          then show ?thesis using lf(5) st inside_start [OF f] by blast
        next
          assume "\<exists>u. (L tx eol)\<^sup>*\<^sup>* s u \<and> inside P S f tx eol u (q, t)"
          then show ?thesis using lf(4) st rtranclp.rtrancl_into_rtrancl by metis
        qed
      qed simp
      then have "(L tx eol)\<^sup>*\<^sup>* s t" using n(1) by (auto simp: inside_def)
      then show ?thesis using r(2) nl by simp
    qed
    show "\<exists>t. (cstep P' tx eol)\<^sup>*\<^sup>* (n, s) (n, t) \<and> lets tx eol (P' ! n) t s'" if "(L tx eol)\<^sup>*\<^sup>* s s'" for tx eol s s'
      using lf(3) [OF that] nl by blast
  qed (rule lf(2))
qed

lemma frag_plus:
  assumes f: "frag P S f l L" and n: "n \<notin> S" "n < length P'" "itype (P' ! n) = tOR" "iright (P' ! n) = Some f" "inext (P' ! n) = None"
    and k: "linked P P' S l n"
  shows "frag P' (insert n S) f n (\<lambda>tx eol. (L tx eol)\<^sup>+\<^sup>+)"
proof -
  note lf = loop_facts [OF assms]
  have c: "closed_frag P S f l" using f by (simp add: frag_def)
  then have fs: "f \<in> S" "itype (P' ! f) \<noteq> tNOP" using linked_same [OF k] by (simp_all add: closed_frag_def)
  have nl: "lets tx eol (P' ! n) s s' \<longleftrightarrow> s' = s" for tx eol s s' using n(3) by (rule or_lets)
  show ?thesis
  proof (rule fragI)
    show "closed_frag P' (insert n S) f n" using n lf(1) fs by (intro closed_fragI) auto
    show "(L tx eol)\<^sup>+\<^sup>+ s s'" if r: "(cstep P' tx eol)\<^sup>*\<^sup>* (f, s) (n, t)" "lets tx eol (P' ! n) t s'" for tx eol s t s'
    proof -
      let ?I = "\<lambda>q t. q = n \<and> (L tx eol)\<^sup>+\<^sup>+ s t \<or> (\<exists>u. (L tx eol)\<^sup>*\<^sup>* s u \<and> inside P S f tx eol u (q, t))"
      have "?I n t"
      proof (rule paths_inv [where I = ?I, OF r(1)])
        show "?I f s" using inside_start [OF f] by blast
        show "?I q' t'" if i: "?I q t" and st: "cstep P' tx eol (q, t) (q', t')" for q t q' t'
          using i
        proof
          assume "q = n \<and> (L tx eol)\<^sup>+\<^sup>+ s t"
          then show ?thesis using lf(5) st inside_start [OF f] tranclp_into_rtranclp by metis
        next
          assume "\<exists>u. (L tx eol)\<^sup>*\<^sup>* s u \<and> inside P S f tx eol u (q, t)"
          then show ?thesis using lf(4) st rtranclp_into_tranclp1 by metis
        qed
      qed
      then have "(L tx eol)\<^sup>+\<^sup>+ s t" using n(1) by (auto simp: inside_def)
      then show ?thesis using r(2) nl by simp
    qed
    show "\<exists>t. (cstep P' tx eol)\<^sup>*\<^sup>* (f, s) (n, t) \<and> lets tx eol (P' ! n) t s'" if t: "(L tx eol)\<^sup>+\<^sup>+ s s'" for tx eol s s'
    proof -
      obtain u where u: "L tx eol s u" "(L tx eol)\<^sup>*\<^sup>* u s'" using t by (metis tranclpD)
      have "(cstep P' tx eol)\<^sup>*\<^sup>* (f, s) (n, s')" using rtranclp_trans [OF link_exit [OF f k u(1)] lf(3) [OF u(2)]] .
      then show ?thesis using nl by blast
    qed
  qed (rule lf(2))
qed

text \<open>The fragments that get a node before and a node behind.\<close>

lemma frag_quest:
  assumes f: "frag P S f l L" and n: "n \<notin> S" "n < length P'" "itype (P' ! n) = tOR" "iright (P' ! n) = Some f" "inext (P' ! n) = Some e"
    and e: "e \<notin> S" "e < length P'" "itype (P' ! e) = tNOP" "iright (P' ! e) = None" "inext (P' ! e) = None" and ne: "n \<noteq> e"
    and k: "linked P P' S l e"
  shows "frag P' (insert n (insert e S)) n e (\<lambda>tx eol. (L tx eol)\<^sup>=\<^sup>=)"
proof -
  have c: "closed_frag P S f l" using f by (simp add: frag_def)
  then have fs: "f \<in> S" "itype (P' ! f) \<noteq> tNOP" using linked_same [OF k] by (simp_all add: closed_frag_def)
  have el: "lets tx eol (P' ! e) s s' \<longleftrightarrow> s' = s" for tx eol s s' using e(3) by (rule nop_lets)
  have nl: "lets tx eol (P' ! n) s s' \<longleftrightarrow> s' = s" for tx eol s s' using n(3) by (rule or_lets)
  have st: "cstep P' tx eol (n, s) (f, s)" "cstep P' tx eol (n, s) (e, s)" for tx eol s using n nl by (simp_all add: cstep_def)
  show ?thesis
  proof (rule fragI)
    show "closed_frag P' (insert n (insert e S)) n e"
    proof (rule closed_fragI)
      show "closed_inst P' (insert n (insert e S)) e p" if p: "p \<in> insert n (insert e S)" for p
      proof (cases "p \<in> S")
        case True
        then show ?thesis using e(1) by (intro closed_inst_link [OF c k]) auto
      next
        case False
        then show ?thesis using p n e fs ne by (auto simp: closed_inst_def)
      qed
    qed (use n e in auto)
    show "itype (P' ! p) \<noteq> tEND" if "p \<in> insert n (insert e S)" for p using that n(3) e(3) frag_noend [OF f k] by auto
    show "(L tx eol)\<^sup>=\<^sup>= s s'" if r: "(cstep P' tx eol)\<^sup>*\<^sup>* (n, s) (e, t)" "lets tx eol (P' ! e) t s'" for tx eol s t s'
    proof -
      let ?I = "\<lambda>q t. q = n \<and> t = s \<or> q = e \<and> (L tx eol)\<^sup>=\<^sup>= s t \<or> inside P S f tx eol s (q, t)"
      have "?I e t"
      proof (rule paths_inv [where I = ?I, OF r(1)])
        show "?I q' t'" if i: "?I q t" and st: "cstep P' tx eol (q, t) (q', t')" for q t q' t'
        proof -
          consider "q = n" "t = s" | "q = e" | "inside P S f tx eol s (q, t)" using i by blast
          then show ?thesis
          proof cases
            case 1
            then show ?thesis using st n nl inside_start [OF f, of tx eol s] by (auto simp: cstep_def)
          next
            case 2
            then show ?thesis using st e by (simp add: cstep_def)
          next
            case 3
            then show ?thesis using inside_step [OF f k 3 st] by auto
          qed
        qed
      qed simp
      then have "(L tx eol)\<^sup>=\<^sup>= s t" using e(1) ne by (auto simp: inside_def)
      then show ?thesis using r(2) el by simp
    qed
    show "\<exists>t. (cstep P' tx eol)\<^sup>*\<^sup>* (n, s) (e, t) \<and> lets tx eol (P' ! e) t s'" if t: "(L tx eol)\<^sup>=\<^sup>= s s'" for tx eol s s'
    proof -
      have "(cstep P' tx eol)\<^sup>*\<^sup>* (n, s) (e, s')"
      proof (cases "s' = s")
        case True
        then show ?thesis using st(2) by auto
      next
        case False
        then have "L tx eol s s'" using t by auto
        from converse_rtranclp_into_rtranclp [OF st(1) link_exit [OF f k this]] show ?thesis .
      qed
      then show ?thesis using el by blast
    qed
  qed
qed

lemma frag_group:
  assumes f: "frag P S f l L" and n: "n \<notin> S" "n < length P'" "itype (P' ! n) = tLBRA" "isubid (P' ! n) \<noteq> 0" "iright (P' ! n) = None" "inext (P' ! n) = Some f"
    and e: "e \<notin> S" "e < length P'" "itype (P' ! e) = tRBRA" "iright (P' ! e) = None" "inext (P' ! e) = None" and ne: "n \<noteq> e"
    and k: "linked P P' S l e"
  shows "frag P' (insert n (insert e S)) n e L"
proof -
  have c: "closed_frag P S f l" using f by (simp add: frag_def)
  then have fs: "f \<in> S" by (simp add: closed_frag_def)
  have el: "lets tx eol (P' ! e) s s' \<longleftrightarrow> s' = s" for tx eol s s' using e(3) by (simp add: bra_lets)
  have nl: "lets tx eol (P' ! n) s s' \<longleftrightarrow> s' = s" for tx eol s s' using n(3) by (simp add: bra_lets)
  have st: "cstep P' tx eol (n, s) (f, s)" for tx eol s using n nl by (simp add: cstep_def)
  show ?thesis
  proof (rule fragI)
    show "closed_frag P' (insert n (insert e S)) n e"
    proof (rule closed_fragI)
      show "closed_inst P' (insert n (insert e S)) e p" if p: "p \<in> insert n (insert e S)" for p
      proof (cases "p \<in> S")
        case True
        then show ?thesis using e(1) by (intro closed_inst_link [OF c k]) auto
      next
        case False
        then show ?thesis using p n e fs ne by (auto simp: closed_inst_def)
      qed
    qed (use n e in auto)
    show "itype (P' ! p) \<noteq> tEND" if "p \<in> insert n (insert e S)" for p using that n(3) e(3) frag_noend [OF f k] by auto
    show "L tx eol s s'" if r: "(cstep P' tx eol)\<^sup>*\<^sup>* (n, s) (e, t)" "lets tx eol (P' ! e) t s'" for tx eol s t s'
    proof -
      let ?I = "\<lambda>q t. q = n \<and> t = s \<or> q = e \<and> L tx eol s t \<or> inside P S f tx eol s (q, t)"
      have "?I e t"
      proof (rule paths_inv [where I = ?I, OF r(1)])
        show "?I q' t'" if i: "?I q t" and st: "cstep P' tx eol (q, t) (q', t')" for q t q' t'
        proof -
          consider "q = n" "t = s" | "q = e" | "inside P S f tx eol s (q, t)" using i by blast
          then show ?thesis
          proof cases
            case 1
            then show ?thesis using st n nl inside_start [OF f, of tx eol s] by (auto simp: cstep_def)
          next
            case 2
            then show ?thesis using st e by (simp add: cstep_def)
          next
            case 3
            then show ?thesis using inside_step [OF f k 3 st] by auto
          qed
        qed
      qed simp
      then have "L tx eol s t" using e(1) ne by (auto simp: inside_def)
      then show ?thesis using r(2) el by simp
    qed
    show "\<exists>t. (cstep P' tx eol)\<^sup>*\<^sup>* (n, s) (e, t) \<and> lets tx eol (P' ! e) t s'" if "L tx eol s s'" for tx eol s s'
      using converse_rtranclp_into_rtranclp [OF st link_exit [OF f k that]] el by blast
  qed
qed

lemma frag_alt:
  assumes f1: "frag P S1 f1 l1 L1" and f2: "frag P S2 f2 l2 L2"
    and n: "n \<notin> S1 \<union> S2" "n < length P'" "itype (P' ! n) = tOR" "iright (P' ! n) = Some f1" "inext (P' ! n) = Some f2"
    and e: "e \<notin> S1 \<union> S2" "e < length P'" "itype (P' ! e) = tNOP" "iright (P' ! e) = None" "inext (P' ! e) = None" and ne: "n \<noteq> e"
    and k1: "linked P P' S1 l1 e" and k2: "linked P P' S2 l2 e"
  shows "frag P' (insert n (insert e (S1 \<union> S2))) n e (\<lambda>tx eol s t. L1 tx eol s t \<or> L2 tx eol s t)"
proof -
  have c: "closed_frag P S1 f1 l1" "closed_frag P S2 f2 l2" using f1 f2 by (simp_all add: frag_def)
  then have fs: "f1 \<in> S1" "itype (P' ! f1) \<noteq> tNOP" "f2 \<in> S2" using linked_same [OF k1] by (simp_all add: closed_frag_def)
  have el: "lets tx eol (P' ! e) s s' \<longleftrightarrow> s' = s" for tx eol s s' using e(3) by (rule nop_lets)
  have nl: "lets tx eol (P' ! n) s s' \<longleftrightarrow> s' = s" for tx eol s s' using n(3) by (rule or_lets)
  have st: "cstep P' tx eol (n, s) (f1, s)" "cstep P' tx eol (n, s) (f2, s)" for tx eol s using n nl by (simp_all add: cstep_def)
  let ?S = "insert n (insert e (S1 \<union> S2))"
  show ?thesis
  proof (rule fragI)
    show "closed_frag P' ?S n e"
    proof (rule closed_fragI)
      show "closed_inst P' ?S e p" if p: "p \<in> ?S" for p
      proof -
        consider "p \<in> S1" | "p \<in> S2" | "p = n" | "p = e" using p by blast
        then show ?thesis
        proof cases
          case 1
          then show ?thesis using e(1) by (intro closed_inst_link [OF c(1) k1]) auto
        next
          case 2
          then show ?thesis using e(1) by (intro closed_inst_link [OF c(2) k2]) auto
        qed (use n e fs ne in \<open>simp_all add: closed_inst_def\<close>)
      qed
    qed (use n e in auto)
    show "itype (P' ! p) \<noteq> tEND" if "p \<in> ?S" for p using that n(3) e(3) frag_noend [OF f1 k1] frag_noend [OF f2 k2] by auto
    show "L1 tx eol s s' \<or> L2 tx eol s s'" if r: "(cstep P' tx eol)\<^sup>*\<^sup>* (n, s) (e, t)" "lets tx eol (P' ! e) t s'" for tx eol s t s'
    proof -
      let ?I = "\<lambda>q t. q = n \<and> t = s \<or> q = e \<and> (L1 tx eol s t \<or> L2 tx eol s t) \<or> inside P S1 f1 tx eol s (q, t) \<or> inside P S2 f2 tx eol s (q, t)"
      have "?I e t"
      proof (rule paths_inv [where I = ?I, OF r(1)])
        show "?I q' t'" if i: "?I q t" and st: "cstep P' tx eol (q, t) (q', t')" for q t q' t'
        proof -
          consider "q = n" "t = s" | "q = e" | "inside P S1 f1 tx eol s (q, t)" | "inside P S2 f2 tx eol s (q, t)" using i by blast
          then show ?thesis
          proof cases
            case 1
            then show ?thesis using st n nl inside_start [OF f1, of tx eol s] inside_start [OF f2, of tx eol s] by (auto simp: cstep_def)
          next
            case 2
            then show ?thesis using st e by (simp add: cstep_def)
          next
            case 3
            then show ?thesis using inside_step [OF f1 k1 3 st] by auto
          next
            case 4
            then show ?thesis using inside_step [OF f2 k2 4 st] by auto
          qed
        qed
      qed simp
      then have "L1 tx eol s t \<or> L2 tx eol s t" using e(1) ne by (auto simp: inside_def)
      then show ?thesis using r(2) el by simp
    qed
    show "\<exists>t. (cstep P' tx eol)\<^sup>*\<^sup>* (n, s) (e, t) \<and> lets tx eol (P' ! e) t s'" if "L1 tx eol s s' \<or> L2 tx eol s s'" for tx eol s s'
      using that converse_rtranclp_into_rtranclp [OF st(1) link_exit [OF f1 k1]] converse_rtranclp_into_rtranclp [OF st(2) link_exit [OF f2 k2]] el by blast
  qed
qed

section \<open>The stack of operands\<close>

text \<open>Every operand on the stack is a fragment of its own; together they make up the program so far.\<close>

fun owns :: "reinst list \<Rightarrow> (nat \<times> nat) list \<Rightarrow> mrel list \<Rightarrow> nat set \<Rightarrow> bool" where
  "owns P [] [] U = (U = {})"
| "owns P (x # xs) (L # Ls) U = (\<exists>S V. frag P S (fst x) (snd x) L \<and> S \<inter> V = {} \<and> U = S \<union> V \<and> owns P xs Ls V)"
| "owns P _ _ U = False"

lemma owns_agree: "owns P xs Ls U \<Longrightarrow> (\<And>p. p \<in> U \<Longrightarrow> P' ! p = P ! p) \<Longrightarrow> length P \<le> length P' \<Longrightarrow> owns P' xs Ls U"
proof (induction P xs Ls U rule: owns.induct)
  case (2 P x xs L Ls U)
  then obtain S V where s: "frag P S (fst x) (snd x) L" "S \<inter> V = {}" "U = S \<union> V" "owns P xs Ls V" by auto
  have "frag P' S (fst x) (snd x) L" using s 2 by (intro frag_agree [OF s(1)]) auto
  moreover have "owns P' xs Ls V" using s 2 by (intro "2.IH") auto
  ultimately show ?case using s by auto
qed auto

lemma owns_length: "owns P xs Ls U \<Longrightarrow> length xs = length Ls"
  by (induction P xs Ls U rule: owns.induct) auto

text \<open>The operators on relations.\<close>

fun geval :: "nat \<Rightarrow> mrel list \<Rightarrow> mrel list option" where
  "geval op Ls = (if op = tLBRA then (case Ls of [] \<Rightarrow> None | L # r \<Rightarrow> Some Ls)
     else if op = tOR then (case Ls of L2 # L1 # r \<Rightarrow> Some ((\<lambda>tx eol s t. L1 tx eol s t \<or> L2 tx eol s t) # r) | _ \<Rightarrow> None)
     else if op = tCAT then (case Ls of L2 # L1 # r \<Rightarrow> Some ((\<lambda>tx eol. L1 tx eol OO L2 tx eol) # r) | _ \<Rightarrow> None)
     else if op = tSTAR then (case Ls of L # r \<Rightarrow> Some ((\<lambda>tx eol. (L tx eol)\<^sup>*\<^sup>*) # r) | _ \<Rightarrow> None)
     else if op = tPLUS then (case Ls of L # r \<Rightarrow> Some ((\<lambda>tx eol. (L tx eol)\<^sup>+\<^sup>+) # r) | _ \<Rightarrow> None)
     else if op = tQUEST then (case Ls of L # r \<Rightarrow> Some ((\<lambda>tx eol. (L tx eol)\<^sup>=\<^sup>=) # r) | _ \<Rightarrow> None)
     else None)"

declare geval.simps [simp del]

definition ready :: "pstate \<Rightarrow> mrel list \<Rightarrow> bool" where
  "ready st Ls \<longleftrightarrow> owns (insts st) (andstack st) Ls {..<length (insts st)}"

lemma frag_in: "frag P S f l L \<Longrightarrow> f \<in> S \<and> l \<in> S"
  by (simp add: frag_def closed_frag_def)

lemma linked_ofP: "(\<And>p. p < length P \<Longrightarrow> p \<noteq> l \<Longrightarrow> P' ! p = P ! p) \<Longrightarrow> P' ! l = (P ! l)\<lparr>inext := Some n\<rparr> \<Longrightarrow> length P \<le> length P' \<Longrightarrow>
    S \<subseteq> {..<length P} \<Longrightarrow> linked P P' S l n"
  by (auto simp: linked_def)

lemma pushand_ok: "pushand f l st = Inr st' \<Longrightarrow> st' = st\<lparr>andstack := (f, l) # andstack st\<rparr>"
  by (auto simp: pushand_def rcerror_def split: if_splits)

lemma popand_ok: "popand c st = Inr (x, st') \<Longrightarrow> andstack st = x # andstack st' \<and> st' = st\<lparr>andstack := andstack st'\<rparr>"
  by (auto simp: popand_def rcerror_def split: list.splits)

lemma newinst_ok: "newinst t st = Inr (i, st') \<Longrightarrow> i = length (insts st) \<and>
    st' = st\<lparr>insts := insts st @ [\<lparr>itype = t, icp = [], ir = 0, isubid = 0, iright = None, inext = None\<rparr>]\<rparr>"
  by (auto simp: newinst_def split: if_splits)

lemmas upd_defs = upd_inst_def set_next_def set_right_def set_subid_def

lemma unary_owns:
  assumes o: "owns P ((f, l) # xs) (L # Ls) {..<length P}"
    and fr: "\<And>S. frag P S f l L \<Longrightarrow> S \<subseteq> {..<length P} \<Longrightarrow> frag P' ({length P..<length P'} \<union> S) f' l' L'"
    and e: "\<And>p. p < length P \<Longrightarrow> p \<noteq> l \<Longrightarrow> P' ! p = P ! p" and n: "length P \<le> length P'"
  shows "owns P' ((f', l') # xs) (L' # Ls) {..<length P'}"
proof -
  obtain S V where s: "frag P S f l L" "S \<inter> V = {}" "{..<length P} = S \<union> V" "owns P xs Ls V" using o by auto
  have "owns P' xs Ls V"
  proof (rule owns_agree [OF s(4) _ n])
    show "P' ! p = P ! p" if "p \<in> V" for p using that s frag_in [OF s(1)] by (intro e) auto
  qed
  moreover have "frag P' ({length P..<length P'} \<union> S) f' l' L'" using s by (intro fr) auto
  moreover have "({length P..<length P'} \<union> S) \<inter> V = {}" using s(2,3) by auto
  moreover have "{..<length P'} = {length P..<length P'} \<union> {..<length P}" using n by auto
  then have "{..<length P'} = ({length P..<length P'} \<union> S) \<union> V" by (simp only: s(3) Un_assoc)
  ultimately show ?thesis unfolding owns.simps fst_conv snd_conv by blast
qed

lemma insts_upd [simp]: "insts (set_next i t st) = (insts st)[i := (insts st ! i)\<lparr>inext := Some t\<rparr>]"
    "insts (set_right i t st) = (insts st)[i := (insts st ! i)\<lparr>iright := Some t\<rparr>]"
    "insts (set_subid i k st) = (insts st)[i := (insts st ! i)\<lparr>isubid := k\<rparr>]"
  by (simp_all add: upd_defs)

abbreviation binst :: "nat \<Rightarrow> reinst" where
  "binst t \<equiv> \<lparr>itype = t, icp = [], ir = 0, isubid = 0, iright = None, inext = None\<rparr>"

definition evals :: "pstate \<Rightarrow> mrel list option \<Rightarrow> pstate \<Rightarrow> bool" where
  "evals st r st' \<longleftrightarrow> (\<exists>Ls. r = Some Ls \<and> ready st' Ls) \<and> st' = st\<lparr>insts := insts st', andstack := andstack st'\<rparr>"

lemma ready_pop:
  assumes r: "ready st Ls" and p: "popand c st = Inr ((f, l), st1)"
  obtains xs L Lr where "Ls = L # Lr" "st1 = st\<lparr>andstack := xs\<rparr>" "owns (insts st) ((f, l) # xs) (L # Lr) {..<length (insts st)}" "l < length (insts st)"
proof -
  have a: "andstack st = (f, l) # andstack st1" "st1 = st\<lparr>andstack := andstack st1\<rparr>" using popand_ok [OF p] by simp_all
  have r': "owns (insts st) ((f, l) # andstack st1) Ls {..<length (insts st)}" using r a(1) by (simp add: ready_def)
  obtain L Lr where L: "Ls = L # Lr" using owns_length [OF r'] by (cases Ls) auto
  have "l < length (insts st)" using r' L frag_in by auto
  then show ?thesis using that L a(2) r' by blast
qed

lemma eval_star:
  assumes r: "ready st Ls" and ev: "eval_op tSTAR subid st = Inr (stop, st')"
  shows "evals st (geval tSTAR Ls) st' \<and> \<not> stop"
proof -
  obtain f l st1 i st2 where p: "popand ''*'' st = Inr ((f, l), st1)" "newinst tOR st1 = Inr (i, st2)"
    "pushand i i (set_right i f (set_next l i st2)) = Inr st'" "\<not> stop"
    using ev by (auto simp: eval_op_def)
  obtain xs L Lr where L: "Ls = L # Lr" and s1: "st1 = st\<lparr>andstack := xs\<rparr>"
    and own: "owns (insts st) ((f, l) # xs) (L # Lr) {..<length (insts st)}" and l: "l < length (insts st)" by (rule ready_pop [OF r p(1)])
  let ?P = "insts st" let ?n = "length ?P" let ?P' = "insts st'"
  have s2: "i = ?n" "st2 = st1\<lparr>insts := ?P @ [binst tOR]\<rparr>" using newinst_ok [OF p(2)] by (simp_all add: s1)
  have st': "st' = (set_right i f (set_next l i st2))\<lparr>andstack := (i, i) # xs\<rparr>" using pushand_ok [OF p(3)] by (simp add: upd_defs s1 s2)
  have P': "?P' = (?P @ [binst tOR])[l := (?P ! l)\<lparr>inext := Some ?n\<rparr>, ?n := (binst tOR)\<lparr>iright := Some f\<rparr>]"
    using l by (simp add: st' s2 nth_append)
  have "owns ?P' ((?n, ?n) # xs) ((\<lambda>tx eol. (L tx eol)\<^sup>*\<^sup>*) # Lr) {..<length ?P'}"
  proof (rule unary_owns [OF own])
    fix S assume f: "frag ?P S f l L" "S \<subseteq> {..<?n}"
    have "frag ?P' (insert ?n S) ?n ?n (\<lambda>tx eol. (L tx eol)\<^sup>*\<^sup>*)"
      by (rule frag_star [OF f(1)]) (use f(2) l in \<open>auto simp: linked_def P' nth_list_update nth_append\<close>)
    then show "frag ?P' ({?n..<length ?P'} \<union> S) ?n ?n (\<lambda>tx eol. (L tx eol)\<^sup>*\<^sup>*)" by (simp add: P')
  qed (use l in \<open>auto simp: P' nth_list_update nth_append\<close>)
  moreover have "st' = st\<lparr>insts := ?P', andstack := andstack st'\<rparr>" by (simp add: st' s2 s1 upd_defs)
  ultimately show ?thesis using L p(4) by (simp add: evals_def geval.simps ready_def st' s2)
qed

lemma eval_plus:
  assumes r: "ready st Ls" and ev: "eval_op tPLUS subid st = Inr (stop, st')"
  shows "evals st (geval tPLUS Ls) st' \<and> \<not> stop"
proof -
  obtain f l st1 i st2 where p: "popand ''+'' st = Inr ((f, l), st1)" "newinst tOR st1 = Inr (i, st2)"
    "pushand f i (set_right i f (set_next l i st2)) = Inr st'" "\<not> stop"
    using ev by (auto simp: eval_op_def)
  obtain xs L Lr where L: "Ls = L # Lr" and s1: "st1 = st\<lparr>andstack := xs\<rparr>"
    and own: "owns (insts st) ((f, l) # xs) (L # Lr) {..<length (insts st)}" and l: "l < length (insts st)" by (rule ready_pop [OF r p(1)])
  let ?P = "insts st" let ?n = "length ?P" let ?P' = "insts st'"
  have s2: "i = ?n" "st2 = st1\<lparr>insts := ?P @ [binst tOR]\<rparr>" using newinst_ok [OF p(2)] by (simp_all add: s1)
  have st': "st' = (set_right i f (set_next l i st2))\<lparr>andstack := (f, i) # xs\<rparr>" using pushand_ok [OF p(3)] by (simp add: upd_defs s1 s2)
  have P': "?P' = (?P @ [binst tOR])[l := (?P ! l)\<lparr>inext := Some ?n\<rparr>, ?n := (binst tOR)\<lparr>iright := Some f\<rparr>]"
    using l by (simp add: st' s2 nth_append)
  have "owns ?P' ((f, ?n) # xs) ((\<lambda>tx eol. (L tx eol)\<^sup>+\<^sup>+) # Lr) {..<length ?P'}"
  proof (rule unary_owns [OF own])
    fix S assume f: "frag ?P S f l L" "S \<subseteq> {..<?n}"
    have "frag ?P' (insert ?n S) f ?n (\<lambda>tx eol. (L tx eol)\<^sup>+\<^sup>+)"
      by (rule frag_plus [OF f(1)]) (use f(2) l in \<open>auto simp: linked_def P' nth_list_update nth_append\<close>)
    then show "frag ?P' ({?n..<length ?P'} \<union> S) f ?n (\<lambda>tx eol. (L tx eol)\<^sup>+\<^sup>+)" by (simp add: P')
  qed (use l in \<open>auto simp: P' nth_list_update nth_append\<close>)
  moreover have "st' = st\<lparr>insts := ?P', andstack := andstack st'\<rparr>" by (simp add: st' s2 s1 upd_defs)
  ultimately show ?thesis using L p(4) by (simp add: evals_def geval.simps ready_def st' s2)
qed

lemma two_more: "{length P..<Suc (Suc (length P))} \<union> S = insert (length P) (insert (Suc (length P)) S)"
  by auto

lemma eval_quest:
  assumes r: "ready st Ls" and ev: "eval_op tQUEST subid st = Inr (stop, st')"
  shows "evals st (geval tQUEST Ls) st' \<and> \<not> stop"
proof -
  obtain f l st1 i st2 e st3 where p: "popand ''?'' st = Inr ((f, l), st1)" "newinst tOR st1 = Inr (i, st2)" "newinst tNOP st2 = Inr (e, st3)"
    "pushand i e (set_next l e (set_right i f (set_next i e st3))) = Inr st'" "\<not> stop"
    using ev by (auto simp: eval_op_def)
  obtain xs L Lr where L: "Ls = L # Lr" and s1: "st1 = st\<lparr>andstack := xs\<rparr>"
    and own: "owns (insts st) ((f, l) # xs) (L # Lr) {..<length (insts st)}" and l: "l < length (insts st)" by (rule ready_pop [OF r p(1)])
  let ?P = "insts st" let ?n = "length ?P" let ?P' = "insts st'"
  have s2: "i = ?n" "st2 = st1\<lparr>insts := ?P @ [binst tOR]\<rparr>" using newinst_ok [OF p(2)] by (simp_all add: s1)
  have s3: "e = Suc ?n" "st3 = st1\<lparr>insts := ?P @ [binst tOR, binst tNOP]\<rparr>" using newinst_ok [OF p(3)] by (simp_all add: s2)
  have st': "st' = (set_next l e (set_right i f (set_next i e st3)))\<lparr>andstack := (i, e) # xs\<rparr>" using pushand_ok [OF p(4)] by (simp add: upd_defs s1 s3)
  have P': "?P' = (?P @ [binst tOR, binst tNOP])[?n := (binst tOR)\<lparr>iright := Some f, inext := Some (Suc ?n)\<rparr>, l := (?P ! l)\<lparr>inext := Some (Suc ?n)\<rparr>]"
    using l by (simp add: st' s2 s3 nth_append)
  have "owns ?P' ((?n, Suc ?n) # xs) ((\<lambda>tx eol. (L tx eol)\<^sup>=\<^sup>=) # Lr) {..<length ?P'}"
  proof (rule unary_owns [OF own])
    fix S assume f: "frag ?P S f l L" "S \<subseteq> {..<?n}"
    have "frag ?P' (insert ?n (insert (Suc ?n) S)) ?n (Suc ?n) (\<lambda>tx eol. (L tx eol)\<^sup>=\<^sup>=)"
      by (rule frag_quest [OF f(1)]) (use f(2) l in \<open>auto simp: linked_def P' nth_list_update nth_append\<close>)
    then show "frag ?P' ({?n..<length ?P'} \<union> S) ?n (Suc ?n) (\<lambda>tx eol. (L tx eol)\<^sup>=\<^sup>=)" by (simp add: P' two_more del: Un_insert_left)
  qed (use l in \<open>auto simp: P' nth_list_update nth_append\<close>)
  moreover have "st' = st\<lparr>insts := ?P', andstack := andstack st'\<rparr>" by (simp add: st' s2 s3 s1 upd_defs)
  ultimately show ?thesis using L p(5) by (simp add: evals_def geval.simps ready_def st' s2 s3)
qed

lemma eval_group:
  assumes r: "ready st Ls" and ev: "eval_op tLBRA subid st = Inr (stop, st')" and sub: "subid \<noteq> 0"
  shows "evals st (geval tLBRA Ls) st' \<and> stop"
proof -
  obtain f l st1 i st2 e st3 where p: "popand ''('' st = Inr ((f, l), st1)" "newinst tRBRA st1 = Inr (e, st2)"
    "newinst tLBRA (set_next l e (set_subid e subid st2)) = Inr (i, st3)"
    "pushand i e (set_next i f (set_subid i subid st3)) = Inr st'" "stop"
    using ev by (auto simp: eval_op_def)
  obtain xs L Lr where L: "Ls = L # Lr" and s1: "st1 = st\<lparr>andstack := xs\<rparr>"
    and own: "owns (insts st) ((f, l) # xs) (L # Lr) {..<length (insts st)}" and l: "l < length (insts st)" by (rule ready_pop [OF r p(1)])
  let ?P = "insts st" let ?n = "length ?P" let ?P' = "insts st'"
  have s2: "e = ?n" "st2 = st1\<lparr>insts := ?P @ [binst tRBRA]\<rparr>" using newinst_ok [OF p(2)] by (simp_all add: s1)
  have s3: "i = Suc ?n" "st3 = st1\<lparr>insts := (?P @ [binst tRBRA, binst tLBRA])[?n := (binst tRBRA)\<lparr>isubid := subid\<rparr>, l := (?P ! l)\<lparr>inext := Some ?n\<rparr>]\<rparr>"
    using newinst_ok [OF p(3)] l by (simp_all add: s2 upd_defs nth_append list_update_append)
  have st': "st' = (set_next i f (set_subid i subid st3))\<lparr>andstack := (i, e) # xs\<rparr>" using pushand_ok [OF p(4)] by (simp add: upd_defs s1 s3)
  have P': "?P' = (?P @ [binst tRBRA, binst tLBRA])[?n := (binst tRBRA)\<lparr>isubid := subid\<rparr>, l := (?P ! l)\<lparr>inext := Some ?n\<rparr>,
      Suc ?n := (binst tLBRA)\<lparr>isubid := subid, inext := Some f\<rparr>]"
    using l by (simp add: st' s2 s3 nth_append nth_list_update)
  have "owns ?P' ((Suc ?n, ?n) # xs) (L # Lr) {..<length ?P'}"
  proof (rule unary_owns [OF own])
    fix S assume f: "frag ?P S f l L" "S \<subseteq> {..<?n}"
    have "frag ?P' (insert (Suc ?n) (insert ?n S)) (Suc ?n) ?n L"
      by (rule frag_group [OF f(1)]) (use f(2) l sub in \<open>auto simp: linked_def P' nth_list_update nth_append\<close>)
    then show "frag ?P' ({?n..<length ?P'} \<union> S) (Suc ?n) ?n L" by (simp add: P' two_more insert_commute del: Un_insert_left)
  qed (use l in \<open>auto simp: P' nth_list_update nth_append\<close>)
  moreover have "st' = st\<lparr>insts := ?P', andstack := andstack st'\<rparr>" by (simp add: st' s2 s3 s1 upd_defs)
  ultimately show ?thesis using L p(5) by (simp add: evals_def geval.simps ready_def st' s2 s3)
qed

lemma binary_owns:
  assumes o: "owns P ((f2, l2) # (f1, l1) # xs) (L2 # L1 # Ls) {..<length P}"
    and fr: "\<And>S1 S2. frag P S1 f1 l1 L1 \<Longrightarrow> frag P S2 f2 l2 L2 \<Longrightarrow> S1 \<inter> S2 = {} \<Longrightarrow> S1 \<subseteq> {..<length P} \<Longrightarrow> S2 \<subseteq> {..<length P} \<Longrightarrow>
      frag P' ({length P..<length P'} \<union> (S1 \<union> S2)) f' l' L'"
    and e: "\<And>p. p < length P \<Longrightarrow> p \<noteq> l1 \<Longrightarrow> p \<noteq> l2 \<Longrightarrow> P' ! p = P ! p" and n: "length P \<le> length P'"
  shows "owns P' ((f', l') # xs) (L' # Ls) {..<length P'}"
proof -
  obtain S2 V2 where s2: "frag P S2 f2 l2 L2" "S2 \<inter> V2 = {}" "{..<length P} = S2 \<union> V2" "owns P ((f1, l1) # xs) (L1 # Ls) V2" using o by auto
  then obtain S1 V where s1: "frag P S1 f1 l1 L1" "S1 \<inter> V = {}" "V2 = S1 \<union> V" "owns P xs Ls V" by auto
  have sub: "S1 \<subseteq> {..<length P}" "S2 \<subseteq> {..<length P}" "V \<subseteq> {..<length P}" using s2(3) s1(3) by auto
  have l: "l1 \<notin> V" "l2 \<notin> V" using frag_in [OF s1(1)] frag_in [OF s2(1)] s1(2,3) s2(2) by auto
  have "owns P' xs Ls V"
  proof (rule owns_agree [OF s1(4) _ n])
    show "P' ! p = P ! p" if "p \<in> V" for p using that sub l by (intro e) auto
  qed
  moreover have "frag P' ({length P..<length P'} \<union> (S1 \<union> S2)) f' l' L'" using s1(1,3) s2(1,2) sub by (intro fr) auto
  moreover have "({length P..<length P'} \<union> (S1 \<union> S2)) \<inter> V = {}" using s1(2,3) s2(2) sub by auto
  moreover have "{..<length P'} = {length P..<length P'} \<union> {..<length P}" using n by auto
  then have "{..<length P'} = ({length P..<length P'} \<union> (S1 \<union> S2)) \<union> V" by (simp only: s2(3) s1(3)) blast
  ultimately show ?thesis unfolding owns.simps fst_conv snd_conv by blast
qed

lemma ready_pop2:
  assumes r: "ready st Ls" and p: "popand c st = Inr ((f2, l2), st1)" "popand d st1 = Inr ((f1, l1), st2)"
  obtains xs L2 L1 Lr where "Ls = L2 # L1 # Lr" "st2 = st\<lparr>andstack := xs\<rparr>"
    "owns (insts st) ((f2, l2) # (f1, l1) # xs) (L2 # L1 # Lr) {..<length (insts st)}" "l1 < length (insts st)" "l2 < length (insts st)" "l1 \<noteq> l2"
proof -
  obtain xs L2 Lr where a: "Ls = L2 # Lr" "st1 = st\<lparr>andstack := xs\<rparr>" "owns (insts st) ((f2, l2) # xs) (L2 # Lr) {..<length (insts st)}" "l2 < length (insts st)"
    by (rule ready_pop [OF r p(1)])
  have b: "xs = (f1, l1) # andstack st2" "st2 = st1\<lparr>andstack := andstack st2\<rparr>" using popand_ok [OF p(2)] a(2) by simp_all
  obtain S2 V2 where s2: "frag (insts st) S2 f2 l2 L2" "S2 \<inter> V2 = {}" "{..<length (insts st)} = S2 \<union> V2" "owns (insts st) ((f1, l1) # andstack st2) Lr V2"
    using a(3) b(1) by auto
  obtain L1 Lq where L: "Lr = L1 # Lq" using owns_length [OF s2(4)] by (cases Lr) auto
  then obtain S1 V where s1: "frag (insts st) S1 f1 l1 L1" "V2 = S1 \<union> V" using s2(4) by auto
  have "l1 < length (insts st)" "l1 \<noteq> l2" using frag_in [OF s1(1)] frag_in [OF s2(1)] s1(2) s2(2,3) by auto
  then show ?thesis using that [of L2 L1 Lq "andstack st2"] a b L by simp
qed

lemma eval_cat:
  assumes r: "ready st Ls" and ev: "eval_op tCAT subid st = Inr (stop, st')"
  shows "evals st (geval tCAT Ls) st' \<and> \<not> stop"
proof -
  obtain f2 l2 st1 f1 l1 st2 where p: "popand [] st = Inr ((f2, l2), st1)" "popand [] st1 = Inr ((f1, l1), st2)"
    "pushand f1 l2 (set_next l1 f2 st2) = Inr st'" "\<not> stop"
    using ev by (auto simp: eval_op_def)
  obtain xs L2 L1 Lr where L: "Ls = L2 # L1 # Lr" and s2: "st2 = st\<lparr>andstack := xs\<rparr>"
    and own: "owns (insts st) ((f2, l2) # (f1, l1) # xs) (L2 # L1 # Lr) {..<length (insts st)}" and l: "l1 < length (insts st)"
    by (rule ready_pop2 [OF r p(1,2)])
  let ?P = "insts st" let ?P' = "insts st'"
  have st': "st' = (set_next l1 f2 st2)\<lparr>andstack := (f1, l2) # xs\<rparr>" using pushand_ok [OF p(3)] by (simp add: upd_defs s2)
  have P': "?P' = ?P[l1 := (?P ! l1)\<lparr>inext := Some f2\<rparr>]" by (simp add: st' s2)
  have "owns ?P' ((f1, l2) # xs) ((\<lambda>tx eol. L1 tx eol OO L2 tx eol) # Lr) {..<length ?P'}"
  proof (rule binary_owns [OF own])
    fix S1 S2 assume f: "frag ?P S1 f1 l1 L1" "frag ?P S2 f2 l2 L2" "S1 \<inter> S2 = {}"
    have "frag ?P' (S1 \<union> S2) f1 l2 (\<lambda>tx eol. L1 tx eol OO L2 tx eol)"
      by (rule frag_cat [OF f]) (use l in \<open>auto simp: P'\<close>)
    then show "frag ?P' ({length ?P..<length ?P'} \<union> (S1 \<union> S2)) f1 l2 (\<lambda>tx eol. L1 tx eol OO L2 tx eol)" by (simp add: P')
  qed (use l in \<open>auto simp: P'\<close>)
  moreover have "st' = st\<lparr>insts := ?P', andstack := andstack st'\<rparr>" by (simp add: st' s2 upd_defs)
  ultimately show ?thesis using L p(4) by (simp add: evals_def geval.simps ready_def st' s2)
qed

lemma eval_alt:
  assumes r: "ready st Ls" and ev: "eval_op tOR subid st = Inr (stop, st')"
  shows "evals st (geval tOR Ls) st' \<and> \<not> stop"
proof -
  obtain f2 l2 st1 f1 l1 st2 e st3 i st4 where p: "popand ''|'' st = Inr ((f2, l2), st1)" "popand ''|'' st1 = Inr ((f1, l1), st2)"
    "newinst tNOP st2 = Inr (e, st3)" "newinst tOR (set_next l1 e (set_next l2 e st3)) = Inr (i, st4)"
    "pushand i e (set_next i f2 (set_right i f1 st4)) = Inr st'" "\<not> stop"
    using ev by (auto simp: eval_op_def)
  obtain xs L2 L1 Lr where L: "Ls = L2 # L1 # Lr" and s2: "st2 = st\<lparr>andstack := xs\<rparr>"
    and own: "owns (insts st) ((f2, l2) # (f1, l1) # xs) (L2 # L1 # Lr) {..<length (insts st)}"
    and l: "l1 < length (insts st)" "l2 < length (insts st)" "l1 \<noteq> l2"
    by (rule ready_pop2 [OF r p(1,2)])
  let ?P = "insts st" let ?n = "length ?P" let ?P' = "insts st'"
  have s3: "e = ?n" "st3 = st2\<lparr>insts := ?P @ [binst tNOP]\<rparr>" using newinst_ok [OF p(3)] by (simp_all add: s2)
  have s4: "i = Suc ?n" "st4 = st2\<lparr>insts := (?P @ [binst tNOP, binst tOR])[l1 := (?P ! l1)\<lparr>inext := Some ?n\<rparr>, l2 := (?P ! l2)\<lparr>inext := Some ?n\<rparr>]\<rparr>"
    using newinst_ok [OF p(4)] l by (simp_all add: s3 upd_defs nth_append list_update_append list_update_swap [of l1 l2])
  have st': "st' = (set_next i f2 (set_right i f1 st4))\<lparr>andstack := (i, e) # xs\<rparr>" using pushand_ok [OF p(5)] by (simp add: upd_defs s2 s4)
  have P': "?P' = (?P @ [binst tNOP, binst tOR])[l1 := (?P ! l1)\<lparr>inext := Some ?n\<rparr>, l2 := (?P ! l2)\<lparr>inext := Some ?n\<rparr>,
      Suc ?n := (binst tOR)\<lparr>iright := Some f1, inext := Some f2\<rparr>]"
    using l by (simp add: st' s4 nth_append nth_list_update)
  have "owns ?P' ((Suc ?n, ?n) # xs) ((\<lambda>tx eol s t. L1 tx eol s t \<or> L2 tx eol s t) # Lr) {..<length ?P'}"
  proof (rule binary_owns [OF own])
    fix S1 S2 assume f: "frag ?P S1 f1 l1 L1" "frag ?P S2 f2 l2 L2" "S1 \<inter> S2 = {}" "S1 \<subseteq> {..<?n}" "S2 \<subseteq> {..<?n}"
    then have d: "l1 \<notin> S2" "l2 \<notin> S1" using frag_in [OF f(1)] frag_in [OF f(2)] by auto
    have k: "linked ?P ?P' S1 l1 ?n" "linked ?P ?P' S2 l2 ?n"
      using f(4,5) l d unfolding linked_def P' by (auto simp: nth_list_update nth_append)
    have "frag ?P' (insert (Suc ?n) (insert ?n (S1 \<union> S2))) (Suc ?n) ?n (\<lambda>tx eol s t. L1 tx eol s t \<or> L2 tx eol s t)"
      by (rule frag_alt [OF f(1,2) _ _ _ _ _ _ _ _ _ _ _ k]) (use f(4,5) l in \<open>auto simp: P' nth_list_update nth_append\<close>)
    then show "frag ?P' ({?n..<length ?P'} \<union> (S1 \<union> S2)) (Suc ?n) ?n (\<lambda>tx eol s t. L1 tx eol s t \<or> L2 tx eol s t)"
      by (simp add: P' two_more insert_commute del: Un_insert_left)
  qed (use l in \<open>auto simp: P' nth_list_update nth_append\<close>)
  moreover have "st' = st\<lparr>insts := ?P', andstack := andstack st'\<rparr>" by (simp add: st' s4 s2 upd_defs)
  ultimately show ?thesis using L p(6) by (simp add: evals_def geval.simps ready_def st' s2 s3 s4)
qed

lemma eval_op_ok:
  assumes "ready st Ls" "eval_op op subid st = Inr (stop, st')" "op = tLBRA \<Longrightarrow> subid \<noteq> 0"
  shows "evals st (geval op Ls) st' \<and> (stop \<longleftrightarrow> op = tLBRA) \<and> op \<in> {tLBRA, tOR, tCAT, tSTAR, tPLUS, tQUEST}"
proof -
  consider "op = tLBRA" | "op = tOR" | "op = tCAT" | "op = tSTAR" | "op = tPLUS" | "op = tQUEST" | "op \<notin> {tLBRA, tOR, tCAT, tSTAR, tPLUS, tQUEST}" by blast
  then show ?thesis
  proof cases
    case 1
    then show ?thesis using eval_group [of st Ls subid stop st'] assms by simp
  next
    case 2
    then show ?thesis using eval_alt [of st Ls subid stop st'] assms by simp
  next
    case 3
    then show ?thesis using eval_cat [of st Ls subid stop st'] assms by simp
  next
    case 4
    then show ?thesis using eval_star [of st Ls subid stop st'] assms by simp
  next
    case 5
    then show ?thesis using eval_plus [of st Ls subid stop st'] assms by simp
  next
    case 6
    then show ?thesis using eval_quest [of st Ls subid stop st'] assms by simp
  next
    case 7
    then show ?thesis using assms by (simp add: eval_op_def rcerror_def)
  qed
qed

end
