(* ===== verification/RegexGrammar.thy ===== *)
theory RegexGrammar
  imports RegexFrag
begin

text \<open>
  The expressions \<^verbatim>\<open>regcomp.c\<close> reads, as trees over tokens, what they match, and what a stack of operators and operands
  stands for in the middle of an expression.
\<close>

section \<open>The grammar\<close>

text \<open>
  An expression as a tree. A run of postfix operators is one node, with the operators in the order of the text: the
  meaning of the compiled program does not depend on the order in which the parser applies them.
\<close>

datatype token = TAtom reinst | TPost nat | TOr | TOpen | TClose

datatype re = Atom reinst | Group re | Post re "nat list" | Cat re re | Alt re re

fun toks :: "re \<Rightarrow> token list" where
  "toks (Atom i) = [TAtom i]"
| "toks (Group e) = TOpen # toks e @ [TClose]"
| "toks (Post e ops) = toks e @ map TPost ops"
| "toks (Cat a b) = toks a @ toks b"
| "toks (Alt a b) = toks a @ TOr # toks b"

abbreviation postfix_ops :: "nat set" where "postfix_ops \<equiv> {tSTAR, tPLUS, tQUEST}"

fun lev :: "re \<Rightarrow> nat" where
  "lev (Atom i) = 3" | "lev (Group e) = 3" | "lev (Post e ops) = 2" | "lev (Cat a b) = 1" | "lev (Alt a b) = 0"

text \<open>A tree that follows the precedence of the operators; chains of \<open>Cat\<close> and \<open>Alt\<close> lean to the left.\<close>

fun proper :: "re \<Rightarrow> bool" where
  "proper (Atom i) = True"
| "proper (Group e) = proper e"
| "proper (Post e ops) = (proper e \<and> lev e = 3 \<and> ops \<noteq> [] \<and> set ops \<subseteq> postfix_ops)"
| "proper (Cat a b) = (proper a \<and> proper b \<and> 1 \<le> lev a \<and> 2 \<le> lev b)"
| "proper (Alt a b) = (proper a \<and> proper b \<and> 1 \<le> lev b)"

definition post1 :: "nat \<Rightarrow> (nat \<Rightarrow> nat \<Rightarrow> bool) \<Rightarrow> nat \<Rightarrow> nat \<Rightarrow> bool" where
  "post1 op R = (if op = tSTAR then R\<^sup>*\<^sup>* else if op = tPLUS then R\<^sup>+\<^sup>+ else R\<^sup>=\<^sup>=)"

text \<open>What an expression matches: from which position to which.\<close>

fun lang :: "re \<Rightarrow> mrel" where
  "lang (Atom i) tx eol = lets tx eol i"
| "lang (Group e) tx eol = lang e tx eol"
| "lang (Post e ops) tx eol = foldl (\<lambda>R op. post1 op R) (lang e tx eol) ops"
| "lang (Cat a b) tx eol = lang a tx eol OO lang b tx eol"
| "lang (Alt a b) tx eol = (\<lambda>s t. lang a tx eol s t \<or> lang b tx eol s t)"

text \<open>The order of postfix operators does not matter.\<close>

definition rep :: "nat set \<Rightarrow> (nat \<Rightarrow> nat \<Rightarrow> bool) \<Rightarrow> nat \<Rightarrow> nat \<Rightarrow> bool" where
  "rep ops R = (if tSTAR \<in> ops \<or> tPLUS \<in> ops \<and> tQUEST \<in> ops then R\<^sup>*\<^sup>* else if tPLUS \<in> ops then R\<^sup>+\<^sup>+
     else if tQUEST \<in> ops then R\<^sup>=\<^sup>= else R)"

lemma closure_laws:
  fixes R :: "nat \<Rightarrow> nat \<Rightarrow> bool"
  shows "(R\<^sup>*\<^sup>*)\<^sup>*\<^sup>* = R\<^sup>*\<^sup>*" "(R\<^sup>*\<^sup>*)\<^sup>+\<^sup>+ = R\<^sup>*\<^sup>*" "(R\<^sup>*\<^sup>*)\<^sup>=\<^sup>= = R\<^sup>*\<^sup>*" "(R\<^sup>+\<^sup>+)\<^sup>*\<^sup>* = R\<^sup>*\<^sup>*" "(R\<^sup>+\<^sup>+)\<^sup>+\<^sup>+ = R\<^sup>+\<^sup>+" "(R\<^sup>+\<^sup>+)\<^sup>=\<^sup>= = R\<^sup>*\<^sup>*"
    "(R\<^sup>=\<^sup>=)\<^sup>*\<^sup>* = R\<^sup>*\<^sup>*" "(R\<^sup>=\<^sup>=)\<^sup>+\<^sup>+ = R\<^sup>*\<^sup>*" "(R\<^sup>=\<^sup>=)\<^sup>=\<^sup>= = R\<^sup>=\<^sup>="
proof -
  show 1: "(R\<^sup>*\<^sup>*)\<^sup>*\<^sup>* = R\<^sup>*\<^sup>*" by simp
  have r: "(S\<^sup>+\<^sup>+)\<^sup>=\<^sup>= = S\<^sup>*\<^sup>*" for S :: "nat \<Rightarrow> nat \<Rightarrow> bool" by (rule reflclp_tranclp)
  show "(R\<^sup>*\<^sup>*)\<^sup>+\<^sup>+ = R\<^sup>*\<^sup>*" by simp
  show "(R\<^sup>*\<^sup>*)\<^sup>=\<^sup>= = R\<^sup>*\<^sup>*" by simp
  show "(R\<^sup>+\<^sup>+)\<^sup>*\<^sup>* = R\<^sup>*\<^sup>*" by simp
  have "R\<^sup>+\<^sup>+ x y" if "(R\<^sup>+\<^sup>+)\<^sup>+\<^sup>+ x y" for x y
    using that by (induction rule: tranclp_induct) (auto intro: tranclp_trans)
  then show "(R\<^sup>+\<^sup>+)\<^sup>+\<^sup>+ = R\<^sup>+\<^sup>+" by (intro ext iffI) auto
  show "(R\<^sup>+\<^sup>+)\<^sup>=\<^sup>= = R\<^sup>*\<^sup>*" by (rule r)
  show "(R\<^sup>=\<^sup>=)\<^sup>*\<^sup>* = R\<^sup>*\<^sup>*" by simp
  show "(R\<^sup>=\<^sup>=)\<^sup>+\<^sup>+ = R\<^sup>*\<^sup>*" by (rule trancl_reflcl [to_pred])
  show "(R\<^sup>=\<^sup>=)\<^sup>=\<^sup>= = R\<^sup>=\<^sup>=" by (auto simp: fun_eq_iff)
qed

lemma rep_insert: "op \<in> postfix_ops \<Longrightarrow> post1 op (rep E R) = rep (insert op E) R"
  by (auto simp: rep_def post1_def closure_laws)

lemma lang_post: "set ops \<subseteq> postfix_ops \<Longrightarrow> foldl (\<lambda>R op. post1 op R) (rep E R) ops = rep (E \<union> set ops) R"
  by (induction ops arbitrary: E) (simp_all add: rep_insert)

lemma rep_empty [simp]: "rep {} R = R" by (simp add: rep_def)

definition means :: "token list \<Rightarrow> mrel \<Rightarrow> bool" where
  "means ts L \<longleftrightarrow> ts = [] \<and> L = (\<lambda>tx eol. (=)) \<or> (\<exists>e. proper e \<and> toks e = ts \<and> L = lang e)"

section \<open>The grammar is unambiguous\<close>

fun factors :: "re \<Rightarrow> re list" where "factors (Cat a b) = factors a @ [b]" | "factors e = [e]"
fun terms :: "re \<Rightarrow> re list" where "terms (Alt a b) = terms a @ [b]" | "terms e = [e]"

definition cat_all :: "re list \<Rightarrow> re" where "cat_all es = foldl Cat (hd es) (List.tl es)"
definition alt_all :: "re list \<Rightarrow> re" where "alt_all es = foldl Alt (hd es) (List.tl es)"

fun more_toks :: "re list \<Rightarrow> token list" where "more_toks [] = []" | "more_toks (e # es) = TOr # toks e @ more_toks es"

lemma factors_ne [simp]: "factors e \<noteq> []" by (cases e) auto
lemma terms_ne [simp]: "terms e \<noteq> []" by (cases e) auto

lemma cat_all_snoc: "es \<noteq> [] \<Longrightarrow> cat_all (es @ [b]) = Cat (cat_all es) b"
  by (cases es) (simp_all add: cat_all_def)

lemma alt_all_snoc: "es \<noteq> [] \<Longrightarrow> alt_all (es @ [b]) = Alt (alt_all es) b"
  by (cases es) (simp_all add: alt_all_def)

lemma cat_all_factors [simp]: "cat_all (factors e) = e"
  by (induction e rule: factors.induct) (simp_all add: cat_all_snoc, simp_all add: cat_all_def)

lemma alt_all_terms [simp]: "alt_all (terms e) = e"
  by (induction e rule: terms.induct) (simp_all add: alt_all_snoc, simp_all add: alt_all_def)

lemma toks_factors: "toks e = concat (map toks (factors e))"
  by (induction e rule: factors.induct) simp_all

lemma more_toks_app: "more_toks (xs @ ys) = more_toks xs @ more_toks ys"
  by (induction xs) simp_all

lemma toks_terms: "toks e = toks (hd (terms e)) @ more_toks (List.tl (terms e))"
proof (induction e rule: terms.induct)
  case (1 a b)
  then show ?case by (cases "terms a") (simp_all add: more_toks_app)
qed simp_all

lemma factors_proper: "proper e \<Longrightarrow> 1 \<le> lev e \<Longrightarrow> a \<in> set (factors e) \<Longrightarrow> proper a \<and> 2 \<le> lev a \<and> size a \<le> size e"
  by (induction e rule: factors.induct) fastforce+

lemma terms_proper: "proper e \<Longrightarrow> a \<in> set (terms e) \<Longrightarrow> proper a \<and> 1 \<le> lev a \<and> size a \<le> size e"
  by (induction e rule: terms.induct) fastforce+

text \<open>What may follow an expression of a level.\<close>

definition starts :: "token list \<Rightarrow> bool" where "starts r \<longleftrightarrow> (case r of TAtom _ # _ \<Rightarrow> True | TOpen # _ \<Rightarrow> True | _ \<Rightarrow> False)"
definition post_stop :: "token list \<Rightarrow> bool" where "post_stop r \<longleftrightarrow> (case r of TPost _ # _ \<Rightarrow> False | _ \<Rightarrow> True)"
definition cat_stop :: "token list \<Rightarrow> bool" where "cat_stop r \<longleftrightarrow> post_stop r \<and> \<not> starts r"
definition alt_stop :: "token list \<Rightarrow> bool" where "alt_stop r \<longleftrightarrow> cat_stop r \<and> (case r of TOr # _ \<Rightarrow> False | _ \<Rightarrow> True)"

lemma starts_toks: "proper e \<Longrightarrow> starts (toks e @ r)"
  by (induction e arbitrary: r) (auto simp: starts_def split: list.splits token.splits)

lemma starts_stop: "starts r \<Longrightarrow> post_stop r" by (auto simp: starts_def post_stop_def split: list.splits token.splits)

lemma map_post_stop: "map TPost xs @ r = map TPost ys @ r' \<Longrightarrow> post_stop r \<Longrightarrow> post_stop r' \<Longrightarrow> xs = ys \<and> r = r'"
proof (induction xs arbitrary: ys)
  case Nil
  then show ?case by (cases ys) (auto simp: post_stop_def)
next
  case (Cons x xs)
  then show ?case by (cases ys) (auto simp: post_stop_def)
qed

definition uniq :: "(re \<Rightarrow> bool) \<Rightarrow> (token list \<Rightarrow> bool) \<Rightarrow> bool" where
  "uniq A S \<longleftrightarrow> (\<forall>a b r r'. A a \<longrightarrow> A b \<longrightarrow> S r \<longrightarrow> S r' \<longrightarrow> toks a @ r = toks b @ r' \<longrightarrow> a = b \<and> r = r')"

lemma uniqD: "uniq A S \<Longrightarrow> toks a @ r = toks b @ r' \<Longrightarrow> A a \<Longrightarrow> A b \<Longrightarrow> S r \<Longrightarrow> S r' \<Longrightarrow> a = b \<and> r = r'"
  unfolding uniq_def by blast

lemma uniq_factors:
  assumes u: "uniq A post_stop" and A: "\<And>a. A a \<Longrightarrow> proper a"
  shows "\<forall>x \<in> set xs. A x \<Longrightarrow> \<forall>y \<in> set ys. A y \<Longrightarrow> cat_stop r \<Longrightarrow> cat_stop r' \<Longrightarrow>
    concat (map toks xs) @ r = concat (map toks ys) @ r' \<Longrightarrow> xs = ys \<and> r = r'"
proof (induction xs arbitrary: ys)
  case Nil
  then show ?case using starts_toks [OF A] by (cases ys) (auto simp: cat_stop_def)
next
  case (Cons x xs)
  have st: "post_stop (concat (map toks zs) @ q)" if "\<forall>z \<in> set zs. A z" "cat_stop q" for zs q
    using that starts_stop [OF starts_toks [OF A]] by (cases zs) (auto simp: cat_stop_def)
  show ?case
  proof (cases ys)
    case Nil
    then show ?thesis using Cons.prems starts_toks [OF A, of x "concat (map toks xs) @ r"] by (auto simp: cat_stop_def)
  next
    case c: (Cons y ys')
    have "x = y \<and> concat (map toks xs) @ r = concat (map toks ys') @ r'"
      by (rule uniqD [OF u]) (use Cons.prems c st in auto)
    then show ?thesis using Cons.IH [of ys'] Cons.prems c by auto
  qed
qed

lemma uniq_terms:
  assumes u: "uniq A cat_stop"
  shows "\<forall>x \<in> set xs. A x \<Longrightarrow> \<forall>y \<in> set ys. A y \<Longrightarrow> alt_stop r \<Longrightarrow> alt_stop r' \<Longrightarrow>
    more_toks xs @ r = more_toks ys @ r' \<Longrightarrow> xs = ys \<and> r = r'"
proof (induction xs arbitrary: ys)
  case Nil
  then show ?case by (cases ys) (auto simp: alt_stop_def)
next
  case (Cons x xs)
  have st: "cat_stop (more_toks zs @ q)" if "alt_stop q" for zs q
    using that by (cases zs) (auto simp: alt_stop_def cat_stop_def post_stop_def starts_def)
  show ?case
  proof (cases ys)
    case Nil
    then show ?thesis using Cons.prems by (auto simp: alt_stop_def)
  next
    case c: (Cons y ys')
    have "x = y \<and> more_toks xs @ r = more_toks ys' @ r'"
      by (rule uniqD [OF u]) (use Cons.prems c st in auto)
    then show ?thesis using Cons.IH [of ys'] Cons.prems c by auto
  qed
qed

definition fits_level :: "nat \<Rightarrow> nat \<Rightarrow> re \<Rightarrow> bool" where "fits_level n k e \<longleftrightarrow> size e \<le> n \<and> proper e \<and> k \<le> lev e"

lemma uniq_level3:
  assumes "\<And>m. m < n \<Longrightarrow> uniq (fits_level m 0) alt_stop"
  shows "uniq (fits_level n 3) (\<lambda>r. True)"
  unfolding uniq_def
proof (intro allI impI)
  fix a b r r' assume h: "fits_level n 3 a" "fits_level n 3 b" "toks a @ r = toks b @ r'"
  have st: "alt_stop (TClose # q)" for q by (simp add: alt_stop_def cat_stop_def post_stop_def starts_def)
  show "a = b \<and> r = r'"
  proof (cases a)
    case (Group x)
    then obtain y where y: "b = Group y" using h by (cases b) (auto simp: fits_level_def)
    have m: "n - 1 < n" "fits_level (n - 1) 0 x" "fits_level (n - 1) 0 y" using h Group y by (auto simp: fits_level_def)
    have "x = y \<and> TClose # r = TClose # r'" by (rule uniqD [OF assms [OF m(1)] _ m(2,3) st st]) (use h(3) Group y in simp)
    then show ?thesis using Group y by simp
  qed (use h in \<open>cases b; auto simp: fits_level_def\<close>)+
qed

lemma uniq_level2:
  assumes u: "uniq (fits_level n 3) (\<lambda>r. True)"
  shows "uniq (fits_level n 2) post_stop"
proof -
  have split: "\<exists>x ops. fits_level n 3 x \<and> toks e = toks x @ map TPost ops \<and> e = (if ops = [] then x else Post x ops)" if "fits_level n 2 e" for e
  proof (cases "lev e = 2")
    case True
    then obtain x ops where e: "e = Post x ops" by (cases e) auto
    then show ?thesis using that by (intro exI [of _ x] exI [of _ ops]) (auto simp: fits_level_def)
  next
    case False
    then show ?thesis using that by (intro exI [of _ e] exI [of _ "[]"]) (auto simp: fits_level_def)
  qed
  show ?thesis
    unfolding uniq_def
  proof (intro allI impI)
    fix a b r r' assume h: "fits_level n 2 a" "fits_level n 2 b" "post_stop r" "post_stop r'" "toks a @ r = toks b @ r'"
    obtain x ops where x: "fits_level n 3 x" "toks a = toks x @ map TPost ops" "a = (if ops = [] then x else Post x ops)" using split [OF h(1)] by blast
    obtain y ops' where y: "fits_level n 3 y" "toks b = toks y @ map TPost ops'" "b = (if ops' = [] then y else Post y ops')" using split [OF h(2)] by blast
    have "x = y \<and> map TPost ops @ r = map TPost ops' @ r'" by (rule uniqD [OF u]) (use h(5) x y in simp_all)
    then have "x = y" "ops = ops' \<and> r = r'" using map_post_stop h(3,4) by auto
    then show "a = b \<and> r = r'" using x(3) y(3) by simp
  qed
qed

lemma uniq_level1:
  assumes u: "uniq (fits_level n 2) post_stop"
  shows "uniq (fits_level n 1) cat_stop"
  unfolding uniq_def
proof (intro allI impI)
  fix a b r r' assume h: "fits_level n 1 a" "fits_level n 1 b" "cat_stop r" "cat_stop r'" "toks a @ r = toks b @ r'"
  have f: "\<forall>x \<in> set (factors e). fits_level n 2 x" if "fits_level n 1 e" for e
    using that factors_proper [of e] by (fastforce simp: fits_level_def)
  have "factors a = factors b \<and> r = r'"
    by (rule uniq_factors [OF u _ f [OF h(1)] f [OF h(2)] h(3,4)])
      (use h(5) in \<open>simp_all add: fits_level_def flip: toks_factors\<close>)
  then show "a = b \<and> r = r'" by (metis cat_all_factors)
qed

lemma uniq_level0:
  assumes u: "uniq (fits_level n 1) cat_stop"
  shows "uniq (fits_level n 0) alt_stop"
  unfolding uniq_def
proof (intro allI impI)
  fix a b r r' assume h: "fits_level n 0 a" "fits_level n 0 b" "alt_stop r" "alt_stop r'" "toks a @ r = toks b @ r'"
  have f: "\<forall>x \<in> set (terms e). fits_level n 1 x" if "fits_level n 0 e" for e
    using that terms_proper [of e] by (fastforce simp: fits_level_def)
  have m: "more_toks (terms e) = TOr # toks e" for e using toks_terms [of e] by (cases "terms e") simp_all
  have "terms a = terms b \<and> r = r'"
    by (rule uniq_terms [OF u f [OF h(1)] f [OF h(2)] h(3,4)]) (simp add: m h(5))
  then show "a = b \<and> r = r'" by (metis alt_all_terms)
qed

lemma uniq_all: "uniq (fits_level n 0) alt_stop"
proof (induction n rule: less_induct)
  case (less n)
  show ?case by (rule uniq_level0 [OF uniq_level1 [OF uniq_level2 [OF uniq_level3 [OF less]]]])
qed

lemma toks_inject: assumes "proper a" "proper b" "toks a = toks b" shows "a = b"
proof -
  have "a = b \<and> [] = ([] :: token list)"
    by (rule uniqD [OF uniq_all [of "size a + size b"]]) (use assms in \<open>auto simp: fits_level_def alt_stop_def cat_stop_def post_stop_def starts_def\<close>)
  then show ?thesis by simp
qed

lemma means_unique: assumes "means ts L" "means ts L'" shows "L' = L"
proof -
  have "toks e \<noteq> []" if "proper e" for e using starts_toks [OF that, of "[]"] by (auto simp: starts_def)
  then show ?thesis using assms toks_inject unfolding means_def by metis
qed

section \<open>The parser on relations\<close>

definition repm :: "nat set \<Rightarrow> mrel \<Rightarrow> mrel" where "repm E L = (\<lambda>tx eol. rep E (L tx eol))"

lemma repm_empty [simp]: "repm {} L = L" by (simp add: repm_def)

lemma lang_Post: "set ops \<subseteq> postfix_ops \<Longrightarrow> lang (Post e ops) = repm (set ops) (lang e)"
  using lang_post [of ops "{}"] by (simp add: repm_def fun_eq_iff)

fun grun :: "nat \<Rightarrow> mrel list \<Rightarrow> nat list \<Rightarrow> (mrel list \<times> nat list) option" where
  "grun pri Ls [] = None"
| "grun pri Ls (op # ops) = (if pri = tRBRA \<or> op \<ge> pri then
      (case geval op Ls of None \<Rightarrow> None | Some Ls1 \<Rightarrow> if op = tLBRA then Some (Ls1, ops) else grun pri Ls1 ops)
    else Some (Ls, op # ops))"

lemma geval_post: "op \<in> postfix_ops \<Longrightarrow> geval op (repm E L # Ls) = Some (repm (insert op E) L # Ls)"
proof -
  assume a: "op \<in> postfix_ops"
  then have "geval op (repm E L # Ls) = Some ((\<lambda>tx eol. post1 op (repm E L tx eol)) # Ls)" by (auto simp: geval.simps post1_def)
  moreover have "(\<lambda>tx eol. post1 op (repm E L tx eol)) = repm (insert op E) L" using rep_insert [OF a] by (simp add: repm_def)
  ultimately show ?thesis by simp
qed

text \<open>The pending postfix operators of the last operand: a part of them is applied.\<close>

lemma grun_pending:
  assumes "set pend \<subseteq> postfix_ops"
  shows "\<exists>p1 p2. pend = p1 @ p2 \<and> (p2 = [] \<longrightarrow> grun pri (repm E L # Ls) (pend @ R) = grun pri (repm (E \<union> set pend) L # Ls) R) \<and>
    (p2 \<noteq> [] \<longrightarrow> grun pri (repm E L # Ls) (pend @ R) = Some (repm (E \<union> set p1) L # Ls, p2 @ R))"
  using assms
proof (induction pend arbitrary: E)
  case (Cons op pend)
  have s: "set pend \<subseteq> postfix_ops" using Cons.prems by simp
  show ?case
  proof (cases "pri = tRBRA \<or> op \<ge> pri")
    case True
    obtain p1 p2 where p: "pend = p1 @ p2" "p2 = [] \<Longrightarrow> grun pri (repm (insert op E) L # Ls) (pend @ R) = grun pri (repm (insert op E \<union> set pend) L # Ls) R"
      "p2 \<noteq> [] \<Longrightarrow> grun pri (repm (insert op E) L # Ls) (pend @ R) = Some (repm (insert op E \<union> set p1) L # Ls, p2 @ R)"
      using Cons.IH [OF s, of "insert op E"] by blast
    have op: "op \<noteq> tLBRA" "op \<in> postfix_ops" using Cons.prems by auto
    have eq: "grun pri (repm E L # Ls) (op # pend @ R) = grun pri (repm (insert op E) L # Ls) (pend @ R)"
      using True op geval_post [OF op(2)] by simp
    have "op # pend = (op # p1) @ p2" using p(1) by simp
    moreover have "grun pri (repm E L # Ls) ((op # pend) @ R) = grun pri (repm (E \<union> set (op # pend)) L # Ls) R" if "p2 = []"
      using p(2) [OF that] eq by (simp del: grun.simps)
    moreover have "grun pri (repm E L # Ls) ((op # pend) @ R) = Some (repm (E \<union> set (op # p1)) L # Ls, p2 @ R)" if "p2 \<noteq> []"
      using p(3) [OF that] eq by (simp del: grun.simps)
    ultimately show ?thesis by blast
  next
    case False
    then show ?thesis by - (rule exI [of _ "[]"], rule exI [of _ "op # pend"], simp)
  qed
qed simp

lemma grun_all_pending:
  assumes "set pend \<subseteq> postfix_ops" "pri \<le> tCAT"
  shows "grun pri (repm E L # Ls) (pend @ R) = grun pri (repm (E \<union> set pend) L # Ls) R"
  using assms
proof (induction pend arbitrary: E)
  case (Cons op pend)
  then have op: "op \<noteq> tLBRA" "op \<ge> pri" "op \<in> postfix_ops" by auto
  have "grun pri (repm E L # Ls) ((op # pend) @ R) = grun pri (repm (insert op E) L # Ls) (pend @ R)"
    using op geval_post [OF op(3)] by simp
  then show ?case using Cons by simp
qed simp

section \<open>What is on the stacks\<close>

text \<open>
  Between brackets there are at most an operand of \<open>|\<close>, an operand of a concatenation and the last operand with the
  postfix operators that have not been applied yet.
\<close>

definition altp :: "mrel list \<Rightarrow> nat list \<Rightarrow> token list \<Rightarrow> bool" where
  "altp Ls ops ts \<longleftrightarrow> Ls = [] \<and> ops = [] \<and> ts = [] \<or> (\<exists>e. proper e \<and> Ls = [lang e] \<and> ops = [tOR] \<and> ts = toks e @ [TOr])"

definition catp :: "mrel list \<Rightarrow> nat list \<Rightarrow> token list \<Rightarrow> bool" where
  "catp Ls ops ts \<longleftrightarrow> Ls = [] \<and> ops = [] \<and> ts = [] \<or> (\<exists>e. proper e \<and> 1 \<le> lev e \<and> Ls = [lang e] \<and> ops = [tCAT] \<and> ts = toks e)"

definition lastp :: "bool \<Rightarrow> mrel list \<Rightarrow> nat list \<Rightarrow> token list \<Rightarrow> bool" where
  "lastp w Ls ops ts \<longleftrightarrow> (if w then \<exists>e E ps. proper e \<and> lev e = 3 \<and> Ls = [repm E (lang e)] \<and> set ops \<subseteq> postfix_ops \<and>
       set ps \<subseteq> postfix_ops \<and> E \<union> set ops = set ps \<and> ts = toks e @ map TPost ps
     else Ls = [] \<and> ops = [] \<and> ts = [])"

definition frame :: "mrel list \<Rightarrow> nat list \<Rightarrow> token list \<Rightarrow> bool \<Rightarrow> bool" where
  "frame Ls ops ts w \<longleftrightarrow> (\<exists>La Oa Ta Lc Oc Tc Ll Ol Tl. altp La Oa Ta \<and> catp Lc Oc Tc \<and> lastp w Ll Ol Tl \<and>
     Ls = Ll @ Lc @ La \<and> ops = Ol @ Oc @ Oa \<and> ts = Ta @ Tc @ Tl)"

inductive stack_ok :: "mrel list \<Rightarrow> nat list \<Rightarrow> token list \<Rightarrow> bool \<Rightarrow> bool" where
  base: "frame Ls ops ts w \<Longrightarrow> stack_ok Ls (ops @ [tSTART - 1]) ts w"
| opened: "stack_ok Ls0 ops0 ts0 False \<Longrightarrow> frame Ls ops ts w \<Longrightarrow> stack_ok (Ls @ Ls0) (ops @ tLBRA # ops0) (ts0 @ TOpen # ts) w"

definition bottom :: "mrel list \<Rightarrow> nat list \<Rightarrow> token list \<Rightarrow> bool" where
  "bottom R Ob T \<longleftrightarrow> R = [] \<and> Ob = [tSTART - 1] \<and> T = [] \<or> (\<exists>O0 T0. stack_ok R O0 T0 False \<and> Ob = tLBRA # O0 \<and> T = T0 @ [TOpen])"

lemma stack_ok_frame: "stack_ok Ls Os ts w \<longleftrightarrow> (\<exists>Lf Of Tf R Ob T. frame Lf Of Tf w \<and> bottom R Ob T \<and> Ls = Lf @ R \<and> Os = Of @ Ob \<and> ts = T @ Tf)"
  (is "?l \<longleftrightarrow> ?r")
proof
  assume ?l
  then show ?r
  proof cases
    case (base ops)
    moreover have "bottom [] [tSTART - 1] []" "Ls = Ls @ []" "ts = [] @ ts" by (simp_all add: bottom_def)
    ultimately show ?thesis by blast
  next
    case (opened Ls0 ops0 ts0 Lf ops tf)
    have "bottom Ls0 (tLBRA # ops0) (ts0 @ [TOpen])" using opened by (auto simp: bottom_def)
    then show ?thesis using opened by fastforce
  qed
next
  assume ?r
  then obtain Lf Of Tf R Ob T where f: "frame Lf Of Tf w" "bottom R Ob T" "Ls = Lf @ R" "Os = Of @ Ob" "ts = T @ Tf" by blast
  then show ?l using stack_ok.base [of Lf Of Tf w] stack_ok.opened [of R _ _ Lf Of Tf w] by (auto simp: bottom_def)
qed

lemma lang_simps: "lang (Group e) = lang e" "lang (Cat a b) = (\<lambda>tx eol. lang a tx eol OO lang b tx eol)"
    "lang (Alt a b) = (\<lambda>tx eol s t. lang a tx eol s t \<or> lang b tx eol s t)" "lang (Atom i) = (\<lambda>tx eol. lets tx eol i)"
  by (simp_all add: fun_eq_iff)

lemma last_resolve:
  assumes "lastp True Ll Ol Tl"
  obtains e where "proper e" "2 \<le> lev e" "toks e = Tl" "\<And>pri R Ob. pri \<le> tCAT \<Longrightarrow> grun pri (Ll @ R) (Ol @ Ob) = grun pri (lang e # R) Ob"
proof -
  obtain e E ps where l: "proper e" "lev e = 3" "Ll = [repm E (lang e)]" "set Ol \<subseteq> postfix_ops"
    "set ps \<subseteq> postfix_ops" "E \<union> set Ol = set ps" "Tl = toks e @ map TPost ps" using assms by (auto simp: lastp_def)
  let ?e = "if ps = [] then e else Post e ps"
  have lang: "lang ?e = repm (set ps) (lang e)" using lang_Post [OF l(5), of e] by auto
  have "grun pri (Ll @ R) (Ol @ Ob) = grun pri (lang ?e # R) Ob" if "pri \<le> tCAT" for pri R Ob
    using grun_all_pending [OF l(4) that, of E "lang e" R Ob] l(3,6) lang by (simp del: grun.simps)
  then show ?thesis using that [of ?e] l by auto
qed

lemma cat_resolve:
  assumes "catp Lc Oc Tc" "lastp True Ll Ol Tl"
  obtains e where "proper e" "1 \<le> lev e" "toks e = Tc @ Tl" "\<And>pri R Ob. pri \<le> tCAT \<Longrightarrow> grun pri (Ll @ Lc @ R) (Ol @ Oc @ Ob) = grun pri (lang e # R) Ob"
proof -
  obtain e where e: "proper e" "2 \<le> lev e" "toks e = Tl" "\<And>pri R Ob. pri \<le> tCAT \<Longrightarrow> grun pri (Ll @ R) (Ol @ Ob) = grun pri (lang e # R) Ob"
    by (rule last_resolve [OF assms(2)]) blast
  consider "Lc = []" "Oc = []" "Tc = []" | c where "proper c" "1 \<le> lev c" "Lc = [lang c]" "Oc = [tCAT]" "Tc = toks c" using assms(1) by (auto simp: catp_def)
  then show ?thesis
  proof cases
    case 1
    then show ?thesis using that [of e] e by simp
  next
    case (2 c)
    have "grun pri (Ll @ Lc @ R) (Ol @ Oc @ Ob) = grun pri (lang (Cat c e) # R) Ob" if "pri \<le> tCAT" for pri R Ob
      using e(4) [OF that, of "Lc @ R" "Oc @ Ob"] that 2 by (simp add: geval.simps lang_simps)
    then show ?thesis using that [of "Cat c e"] 2 e by simp
  qed
qed

lemma alt_resolve:
  assumes "altp La Oa Ta" "catp Lc Oc Tc" "lastp True Ll Ol Tl"
  obtains e where "proper e" "toks e = Ta @ Tc @ Tl" "\<And>pri R Ob. pri \<le> tOR \<Longrightarrow> grun pri (Ll @ Lc @ La @ R) (Ol @ Oc @ Oa @ Ob) = grun pri (lang e # R) Ob"
proof -
  obtain e where e: "proper e" "1 \<le> lev e" "toks e = Tc @ Tl" "\<And>pri R Ob. pri \<le> tCAT \<Longrightarrow> grun pri (Ll @ Lc @ R) (Ol @ Oc @ Ob) = grun pri (lang e # R) Ob"
    by (rule cat_resolve [OF assms(2,3)]) blast
  consider "La = []" "Oa = []" "Ta = []" | c where "proper c" "La = [lang c]" "Oa = [tOR]" "Ta = toks c @ [TOr]" using assms(1) by (auto simp: altp_def)
  then show ?thesis
  proof cases
    case 1
    then show ?thesis using that [of e] e by simp
  next
    case (2 c)
    have "grun pri (Ll @ Lc @ La @ R) (Ol @ Oc @ Oa @ Ob) = grun pri (lang (Alt c e) # R) Ob" if "pri \<le> tOR" for pri R Ob
      using e(4) [of pri "La @ R" "Oa @ Ob"] that 2 by (simp add: geval.simps lang_simps)
    then show ?thesis using that [of "Alt c e"] 2 e by simp
  qed
qed

lemma frameI: "altp La Oa Ta \<Longrightarrow> catp Lc Oc Tc \<Longrightarrow> lastp w Ll Ol Tl \<Longrightarrow> bottom R Ob T \<Longrightarrow>
    stack_ok (Ll @ Lc @ La @ R) (Ol @ Oc @ Oa @ Ob) (T @ Ta @ Tc @ Tl) w"
  unfolding stack_ok_frame frame_def by (metis append_assoc)

lemma frameE:
  assumes "stack_ok Ls Os ts w"
  obtains La Oa Ta Lc Oc Tc Ll Ol Tl R Ob T where "altp La Oa Ta" "catp Lc Oc Tc" "lastp w Ll Ol Tl" "bottom R Ob T"
    "Ls = Ll @ Lc @ La @ R" "Os = Ol @ Oc @ Oa @ Ob" "ts = T @ Ta @ Tc @ Tl"
  using assms unfolding stack_ok_frame frame_def by (auto simp: append_assoc)

lemma bottom_stops: "bottom R Ob T \<Longrightarrow> tOR \<le> pri \<Longrightarrow> grun pri Ls Ob = Some (Ls, Ob)"
  by (auto simp: bottom_def)

lemma altp_stops: "altp La Oa Ta \<Longrightarrow> bottom R Ob T \<Longrightarrow> tCAT \<le> pri \<Longrightarrow> grun pri Ls (Oa @ Ob) = Some (Ls, Oa @ Ob)"
  by (auto simp: bottom_def altp_def)

lemma after_cat:
  assumes "stack_ok Ls Os ts True"
  obtains Ls' Os' where "grun tCAT Ls Os = Some (Ls', Os')" "stack_ok Ls' (tCAT # Os') ts False"
proof -
  obtain La Oa Ta Lc Oc Tc Ll Ol Tl R Ob T where f: "altp La Oa Ta" "catp Lc Oc Tc" "lastp True Ll Ol Tl" "bottom R Ob T"
    and e: "Ls = Ll @ Lc @ La @ R" "Os = Ol @ Oc @ Oa @ Ob" "ts = T @ Ta @ Tc @ Tl" by (rule frameE [OF assms])
  obtain c where c: "proper c" "1 \<le> lev c" "toks c = Tc @ Tl" "\<And>pri R Ob. pri \<le> tCAT \<Longrightarrow> grun pri (Ll @ Lc @ R) (Ol @ Oc @ Ob) = grun pri (lang c # R) Ob"
    by (rule cat_resolve [OF f(2,3)]) blast
  have "grun tCAT Ls Os = Some (lang c # La @ R, Oa @ Ob)" unfolding e using c(4) [of tCAT "La @ R" "Oa @ Ob"] altp_stops [OF f(1,4)] by simp
  moreover have "catp [lang c] [tCAT] (toks c)" "lastp False [] [] []" using c by (auto simp: catp_def lastp_def)
  from frameI [OF f(1) this f(4)] have "stack_ok (lang c # La @ R) (tCAT # Oa @ Ob) ts False" using c(3) e by simp
  ultimately show ?thesis by (rule that)
qed

lemma after_or:
  assumes "stack_ok Ls Os ts True"
  obtains Ls' Os' where "grun tOR Ls Os = Some (Ls', Os')" "stack_ok Ls' (tOR # Os') (ts @ [TOr]) False"
proof -
  obtain La Oa Ta Lc Oc Tc Ll Ol Tl R Ob T where f: "altp La Oa Ta" "catp Lc Oc Tc" "lastp True Ll Ol Tl" "bottom R Ob T"
    and e: "Ls = Ll @ Lc @ La @ R" "Os = Ol @ Oc @ Oa @ Ob" "ts = T @ Ta @ Tc @ Tl" by (rule frameE [OF assms])
  obtain c where c: "proper c" "toks c = Ta @ Tc @ Tl" "\<And>pri R Ob. pri \<le> tOR \<Longrightarrow> grun pri (Ll @ Lc @ La @ R) (Ol @ Oc @ Oa @ Ob) = grun pri (lang c # R) Ob"
    by (rule alt_resolve [OF f(1-3)]) blast
  have "grun tOR Ls Os = Some (lang c # R, Ob)" unfolding e using c(3) [of tOR R Ob] bottom_stops [OF f(4)] by simp
  moreover have "altp [lang c] [tOR] (toks c @ [TOr])" "catp [] [] []" "lastp False [] [] []" using c by (auto simp: altp_def catp_def lastp_def)
  from frameI [OF this f(4)] have "stack_ok (lang c # R) (tOR # Ob) (ts @ [TOr]) False" using c(2) e by simp
  ultimately show ?thesis by (rule that)
qed

lemma after_post:
  assumes "stack_ok Ls Os ts True" and op: "op \<in> postfix_ops"
  obtains Ls' Os' where "grun op Ls Os = Some (Ls', Os')" "stack_ok Ls' (op # Os') (ts @ [TPost op]) True"
proof -
  obtain La Oa Ta Lc Oc Tc Ll Ol Tl R Ob T where f: "altp La Oa Ta" "catp Lc Oc Tc" "lastp True Ll Ol Tl" "bottom R Ob T"
    and e: "Ls = Ll @ Lc @ La @ R" "Os = Ol @ Oc @ Oa @ Ob" "ts = T @ Ta @ Tc @ Tl" by (rule frameE [OF assms(1)])
  obtain x E ps where l: "proper x" "lev x = 3" "Ll = [repm E (lang x)]" "set Ol \<subseteq> postfix_ops"
    "set ps \<subseteq> postfix_ops" "E \<union> set Ol = set ps" "Tl = toks x @ map TPost ps" using f(3) by (auto simp: lastp_def)
  let ?O = "Oc @ Oa @ Ob"
  have stops: "grun op L ?O = Some (L, ?O)" for L
    using op f(1,2) bottom_stops [OF f(4), of op L] altp_stops [OF f(1,4), of op L] by (auto simp: catp_def)
  obtain p1 p2 where p: "Ol = p1 @ p2" "grun op Ls Os = Some (repm (E \<union> set p1) (lang x) # Lc @ La @ R, p2 @ ?O)"
    using grun_pending [OF l(4), of op E "lang x" "Lc @ La @ R" ?O] stops unfolding e l(3) by (metis append.right_neutral append_Cons append_Nil)
  have "lastp True [repm (E \<union> set p1) (lang x)] (op # p2) (Tl @ [TPost op])"
    unfolding lastp_def using l p(1) op by (auto intro!: exI [of _ x] exI [of _ "E \<union> set p1"] exI [of _ "ps @ [op]"])
  from frameI [OF f(1,2) this f(4)] have "stack_ok (repm (E \<union> set p1) (lang x) # Lc @ La @ R) (op # p2 @ ?O) (ts @ [TPost op]) True"
    using e(3) by simp
  with p(2) show ?thesis by (rule that)
qed

lemma after_atom:
  assumes "stack_ok Ls Os ts False"
  shows "stack_ok (lang (Atom i) # Ls) Os (ts @ [TAtom i]) True"
proof -
  obtain La Oa Ta Lc Oc Tc Ll Ol Tl R Ob T where f: "altp La Oa Ta" "catp Lc Oc Tc" "lastp False Ll Ol Tl" "bottom R Ob T"
    and e: "Ls = Ll @ Lc @ La @ R" "Os = Ol @ Oc @ Oa @ Ob" "ts = T @ Ta @ Tc @ Tl" by (rule frameE [OF assms])
  have "lastp True [lang (Atom i)] [] [TAtom i]" unfolding lastp_def
    by (auto intro!: exI [of _ "Atom i"] exI [of _ "{}"])
  from frameI [OF f(1,2) this f(4)] show ?thesis using e f(3) by (simp add: lastp_def)
qed

lemma after_open: "stack_ok Ls Os ts False \<Longrightarrow> stack_ok Ls (tLBRA # Os) (ts @ [TOpen]) False"
  using stack_ok.opened [of Ls Os ts "[]" "[]" "[]" False] by (auto simp: frame_def altp_def catp_def lastp_def)

lemma after_close:
  assumes "stack_ok Ls Os ts True" and g: "grun tRBRA Ls Os = Some (Ls', Os')"
  shows "stack_ok Ls' Os' (ts @ [TClose]) True"
proof -
  obtain La Oa Ta Lc Oc Tc Ll Ol Tl R Ob T where f: "altp La Oa Ta" "catp Lc Oc Tc" "lastp True Ll Ol Tl" "bottom R Ob T"
    and e: "Ls = Ll @ Lc @ La @ R" "Os = Ol @ Oc @ Oa @ Ob" "ts = T @ Ta @ Tc @ Tl" by (rule frameE [OF assms(1)])
  obtain c where c: "proper c" "toks c = Ta @ Tc @ Tl" "\<And>pri R Ob. pri \<le> tOR \<Longrightarrow> grun pri (Ll @ Lc @ La @ R) (Ol @ Oc @ Oa @ Ob) = grun pri (lang c # R) Ob"
    by (rule alt_resolve [OF f(1-3)]) blast
  have g': "grun tRBRA (lang c # R) Ob = Some (Ls', Os')" using g c(3) [of tRBRA R Ob] unfolding e by simp
  consider "Ob = [tSTART - 1]" | O0 T0 where "stack_ok R O0 T0 False" "Ob = tLBRA # O0" "T = T0 @ [TOpen]" using f(4) by (auto simp: bottom_def)
  then show ?thesis
  proof cases
    case 1
    then show ?thesis using g' by (simp add: geval.simps)
  next
    case (2 O0 T0)
    then have r: "Ls' = lang c # R" "Os' = O0" using g' by (simp_all add: geval.simps)
    obtain La' Oa' Ta' Lc' Oc' Tc' Ll' Ol' Tl' R' Ob' T' where f': "altp La' Oa' Ta'" "catp Lc' Oc' Tc'" "lastp False Ll' Ol' Tl'" "bottom R' Ob' T'"
      and e': "R = Ll' @ Lc' @ La' @ R'" "O0 = Ol' @ Oc' @ Oa' @ Ob'" "T0 = T' @ Ta' @ Tc' @ Tl'" by (rule frameE [OF 2(1)])
    have "lastp True [lang (Group c)] [] (toks (Group c))" unfolding lastp_def using c(1)
      by (auto intro!: exI [of _ "Group c"] exI [of _ "{}"])
    from frameI [OF f'(1,2) this f'(4)] show ?thesis using f'(3) e' r e(3) c(2) 2(3) by (simp add: lastp_def lang_simps)
  qed
qed

section \<open>Counting operands\<close>

definition nbin :: "nat list \<Rightarrow> nat" where "nbin Os = length (filter (\<lambda>x. x = tCAT \<or> x = tOR) Os)"

lemma nbin_simps [simp]: "nbin [] = 0" "nbin (x # Os) = (if x = tCAT \<or> x = tOR then Suc (nbin Os) else nbin Os)" "nbin (Os @ Os') = nbin Os + nbin Os'"
  by (simp_all add: nbin_def)

lemma nbin_post: "set Os \<subseteq> postfix_ops \<Longrightarrow> nbin Os = 0"
  by (induction Os) auto

lemma frame_count: "frame Ls Os ts w \<Longrightarrow> length Ls = nbin Os + (if w then 1 else 0)"
  unfolding frame_def altp_def catp_def lastp_def by (cases w) (auto simp: nbin_post)

lemma stack_count: "stack_ok Ls Os ts w \<Longrightarrow> length Ls = nbin Os + (if w then 1 else 0)"
  by (induction rule: stack_ok.induct) (auto dest!: frame_count)

lemma geval_count: "geval opr Ls = Some Ls1 \<Longrightarrow> length Ls1 + nbin [opr] = length Ls \<and> Ls1 \<noteq> []"
  by (auto simp: geval.simps split: if_splits list.splits)

lemma grun_count:
  "grun pri Ls Os = Some (Ls', Os') \<Longrightarrow> length Ls' + nbin Os = length Ls + nbin Os' \<and> (nbin Os' < nbin Os \<longrightarrow> Ls' \<noteq> []) \<and>
     (tOR \<le> pri \<longrightarrow> count_list Os' tLBRA = count_list Os tLBRA) \<and> (pri = tRBRA \<longrightarrow> count_list Os tLBRA = Suc (count_list Os' tLBRA)) \<and>
     (\<exists>X. Os = X @ Os')"
proof (induction pri Ls Os rule: grun.induct)
  case (2 pri Ls opr Os)
  show ?case
  proof (cases "pri = tRBRA \<or> pri \<le> opr")
    case True
    then obtain Ls1 where g: "geval opr Ls = Some Ls1" using "2.prems" by (cases "geval opr Ls") auto
    note gc = geval_count [OF g]
    show ?thesis
    proof (cases "opr = tLBRA")
      case l: True
      then have "Ls' = Ls1" "Os' = Os" using "2.prems" True g by auto
      then show ?thesis using gc l True by auto
    next
      case l: False
      then have r: "grun pri Ls1 Os = Some (Ls', Os')" using "2.prems" True g by simp
      note IH = "2.IH" [OF True g l r]
      have "Ls' \<noteq> []"
      proof (cases "nbin Os' < nbin Os")
        case False
        have "nbin Os' \<le> nbin Os" using IH by auto
        then have "length Ls' = length Ls1" using False IH by simp
        then show ?thesis using gc by auto
      qed (use IH in simp)
      moreover have "\<exists>X. opr # Os = X @ Os'" using IH by (metis append_Cons)
      ultimately show ?thesis using IH gc l by (auto split: if_splits)
    qed
  next
    case False
    then show ?thesis using "2.prems" by auto
  qed
qed simp

end
