(* ===== verification/RegexLang.thy ===== *)
theory RegexLang
  imports RegexGrammar
begin

text \<open>
  What \<^verbatim>\<open>regcomp.c\<close> compiles: the paths of the program it makes of an expression are the matches of the
  expression, read by the usual grammar.
\<close>

section \<open>The parser of the code\<close>

declare eval_loop.simps [simp del] tok_loop.simps [simp del]

definition subids_ok :: "pstate \<Rightarrow> bool" where
  "subids_ok st \<longleftrightarrow> (\<forall>x \<in> set (atorstack st). fst x = tLBRA \<longrightarrow> snd x \<noteq> 0)"

definition ops_of :: "pstate \<Rightarrow> nat list" where "ops_of st = map fst (atorstack st)"

text \<open>\<open>with_parser a st\<close> has the stacks and the program of \<open>a\<close> and the position in the expression of \<open>st\<close>.\<close>

definition with_parser :: "pstate \<Rightarrow> pstate \<Rightarrow> pstate" where
  "with_parser a st = st\<lparr>insts := insts a, andstack := andstack a, atorstack := atorstack a, cursubid := cursubid a, lastwasand := lastwasand a, nbra := nbra a\<rparr>"

lemma eval_loop_ok:
  "eval_loop n pri st = Inr st' \<Longrightarrow> ready st Ls \<Longrightarrow> subids_ok st \<Longrightarrow>
    (\<exists>Ls'. grun pri Ls (ops_of st) = Some (Ls', ops_of st') \<and> ready st' Ls') \<and> subids_ok st' \<and>
    st' = st\<lparr>insts := insts st', andstack := andstack st', atorstack := atorstack st'\<rparr>"
proof (induction n arbitrary: st Ls rule: less_induct)
  case (less n)
  show ?case
  proof (cases "atorstack st")
    case Nil
    then show ?thesis using less.prems(1) by (simp add: eval_loop.simps [of n] rcerror_def split: if_splits)
  next
    case (Cons x ops)
    obtain opr subid where x: "x = (opr, subid)" by (cases x)
    have os: "ops_of st = opr # map fst ops" using Cons x by (simp add: ops_of_def)
    show ?thesis
    proof (cases "pri = tRBRA \<or> opr \<ge> pri")
      case False
      then show ?thesis using less.prems os by (simp add: eval_loop.simps [of n] Cons x)
    next
      case True
      let ?s0 = "st\<lparr>atorstack := ops\<rparr>"
      obtain stop st1 where ev: "eval_op opr subid ?s0 = Inr (stop, st1)"
        and rest: "(if stop then Inr st1 else case n of 0 \<Rightarrow> Inl Loop | Suc m \<Rightarrow> eval_loop m pri st1) = Inr st'"
        using less.prems(1) True by (auto simp: eval_loop.simps [of n] Cons x)
      have r0: "ready ?s0 Ls" using less.prems(2) by (simp add: ready_def)
      have sub: "opr = tLBRA \<Longrightarrow> subid \<noteq> 0" "subids_ok ?s0" using less.prems(3) by (auto simp: subids_ok_def Cons x)
      obtain Ls1 where g: "geval opr Ls = Some Ls1" and r1: "ready st1 Ls1" and s1: "st1 = ?s0\<lparr>insts := insts st1, andstack := andstack st1\<rparr>"
        and stop: "stop \<longleftrightarrow> opr = tLBRA" using eval_op_ok [OF r0 ev sub(1)] by (auto simp: evals_def)
      have a1: "atorstack st1 = ops" by (subst s1) simp
      have sub1: "subids_ok st1" using sub(2) by (simp add: subids_ok_def a1)
      show ?thesis
      proof (cases stop)
        case st: True
        then have "st' = st1" using rest by simp
        moreover have "grun pri Ls (ops_of st) = Some (Ls1, ops_of st1)" using True g stop st os a1 by (simp add: ops_of_def)
        moreover have "st1 = st\<lparr>insts := insts st1, andstack := andstack st1, atorstack := atorstack st1\<rparr>" by (subst (1) s1) (simp add: a1)
        ultimately show ?thesis using r1 sub1 by auto
      next
        case st: False
        obtain m where m: "n = Suc m" "eval_loop m pri st1 = Inr st'" using rest st by (cases n) auto
        have IH: "(\<exists>Ls'. grun pri Ls1 (ops_of st1) = Some (Ls', ops_of st') \<and> ready st' Ls') \<and> subids_ok st' \<and>
          st' = st1\<lparr>insts := insts st', andstack := andstack st', atorstack := atorstack st'\<rparr>"
          using m by (intro less.IH [OF _ m(2) r1 sub1]) simp
        have "grun pri Ls (ops_of st) = grun pri Ls1 (ops_of st1)" using True g stop st os a1 by (simp add: ops_of_def)
        moreover have "st1\<lparr>insts := insts st', andstack := andstack st', atorstack := atorstack st'\<rparr>
            = st\<lparr>insts := insts st', andstack := andstack st', atorstack := atorstack st'\<rparr>" by (subst (1) s1) simp
        ultimately show ?thesis using IH by simp
      qed
    qed
  qed
qed

lemma evaluntil_ok:
  assumes "evaluntil pri st = Inr st'" "ready st Ls" "subids_ok st"
  obtains Ls' P A B where "grun pri Ls (ops_of st) = Some (Ls', ops_of st')" "ready st' Ls'" "subids_ok st'"
    "st' = st\<lparr>insts := P, andstack := A, atorstack := B\<rparr>"
  using eval_loop_ok [OF assms(1) [unfolded evaluntil_def] assms(2,3)] by blast

text \<open>
  The invariant: the stacks hold the tokens read so far, or an operand is missing and no token can make up for it; \<open>k\<close>
  is 1 while a bracket has been counted but is not yet on the stack.
\<close>

definition holds :: "mrel list \<Rightarrow> nat list \<Rightarrow> token list \<Rightarrow> bool \<Rightarrow> bool" where
  "holds Ls Os ts w \<longleftrightarrow> stack_ok Ls Os ts w \<or> length Ls + (if w then 0 else 1) \<le> nbin Os"

abbreviation real_ops :: "nat set" where "real_ops \<equiv> {tLBRA, tOR, tCAT, tSTAR, tPLUS, tQUEST}"

definition pinv :: "nat \<Rightarrow> pstate \<Rightarrow> token list \<Rightarrow> bool" where
  "pinv k st ts \<longleftrightarrow> subids_ok st \<and> nbra st = count_list (ops_of st) tLBRA + k \<and> (\<exists>X. ops_of st = X @ [tSTART - 1] \<and> set X \<subseteq> real_ops) \<and>
     (\<exists>Ls. ready st Ls \<and> holds Ls (ops_of st) ts (lastwasand st))"

lemma pushator_ok: "pushator t st = Inr st' \<Longrightarrow> st' = st\<lparr>atorstack := (t, cursubid st) # atorstack st\<rparr>"
  by (auto simp: pushator_def rcerror_def split: if_splits)

lemma grun_bottom:
  assumes "grun pri Ls (X @ [tSTART - 1]) = Some (Ls', Os')" "set X \<subseteq> real_ops"
  shows "\<exists>X'. Os' = X' @ [tSTART - 1] \<and> set X' \<subseteq> real_ops"
  using assms
proof (induction X arbitrary: Ls)
  case (Cons opr X)
  show ?case
  proof (cases "pri = tRBRA \<or> pri \<le> opr")
    case True
    then obtain Ls1 where g: "geval opr Ls = Some Ls1" using Cons.prems by (cases "geval opr Ls") auto
    then show ?thesis using Cons True by (cases "opr = tLBRA") auto
  next
    case False
    then show ?thesis using Cons.prems by (intro exI [of _ "opr # X"]) auto
  qed
qed (auto simp: geval.simps split: if_splits)

lemma holds_bad: "\<not> stack_ok Ls Os ts w \<or> \<not> w \<Longrightarrow> holds Ls Os ts w \<Longrightarrow> length Ls \<le> nbin Os"
  using stack_count [of Ls Os ts w] by (auto simp: holds_def split: if_splits)

lemma holds_cat:
  assumes "holds Ls Os ts True" "grun tCAT Ls Os = Some (Ls1, Os1)"
  shows "holds Ls1 (tCAT # Os1) ts False"
proof (cases "stack_ok Ls Os ts True")
  case True
  then show ?thesis using after_cat [OF True] assms(2) by (metis holds_def option.inject prod.inject)
next
  case False
  then show ?thesis using holds_bad [OF _ assms(1)] grun_count [OF assms(2)] by (simp add: holds_def)
qed

lemma holds_or:
  assumes "holds Ls Os ts w" "grun tOR Ls Os = Some (Ls1, Os1)"
  shows "holds Ls1 (tOR # Os1) (ts @ [TOr]) False"
proof (cases "stack_ok Ls Os ts True \<and> w")
  case True
  then show ?thesis using after_or [of Ls Os ts] assms(2) by (metis holds_def option.inject prod.inject)
next
  case False
  then show ?thesis using holds_bad [OF _ assms(1)] grun_count [OF assms(2)] by (cases w) (auto simp: holds_def)
qed

lemma holds_post:
  assumes "holds Ls Os ts w" "grun opr Ls Os = Some (Ls1, Os1)" "opr \<in> postfix_ops"
  shows "holds Ls1 (opr # Os1) (ts @ [TPost opr]) True"
proof (cases "stack_ok Ls Os ts True \<and> w")
  case True
  then show ?thesis using after_post [of Ls Os ts opr] assms(2,3) by (metis holds_def option.inject prod.inject)
next
  case False
  then show ?thesis using holds_bad [OF _ assms(1)] grun_count [OF assms(2)] assms(3) by (cases w) (auto simp: holds_def)
qed

lemma holds_close:
  assumes "holds Ls Os ts w" "grun tRBRA Ls Os = Some (Ls1, Os1)"
  shows "holds Ls1 Os1 (ts @ [TClose]) True"
proof (cases "stack_ok Ls Os ts True \<and> w")
  case True
  then show ?thesis using after_close [of Ls Os ts Ls1 Os1] assms(2) by (simp add: holds_def)
next
  case False
  then show ?thesis using holds_bad [OF _ assms(1)] grun_count [OF assms(2)] by (cases w) (auto simp: holds_def)
qed

lemma holds_open: "holds Ls Os ts False \<Longrightarrow> holds Ls (tLBRA # Os) (ts @ [TOpen]) False"
  using after_open by (auto simp: holds_def)

lemma holds_atom: "holds Ls Os ts False \<Longrightarrow> holds (lang (Atom i) # Ls) Os (ts @ [TAtom i]) True"
  using after_atom by (auto simp: holds_def)

lemma operator_cat_ok:
  assumes run: "operator_cat st = Inr st'" and inv: "pinv k st ts" and w: "lastwasand st"
  shows "pinv k st' ts \<and> \<not> lastwasand st' \<and> st' = with_parser st' st \<and> cursubid st' = cursubid st"
proof -
  obtain Ls X where r: "ready st Ls" and h: "holds Ls (ops_of st) ts True" and X: "ops_of st = X @ [tSTART - 1]" "set X \<subseteq> real_ops"
    and s: "subids_ok st" and nb: "nbra st = count_list (ops_of st) tLBRA + k" using inv w by (auto simp: pinv_def)
  obtain st1 st2 where ev: "evaluntil tCAT st = Inr st1" and pu: "pushator tCAT st1 = Inr st2" and st': "st' = st2\<lparr>lastwasand := False\<rparr>"
    using run by (auto simp: operator_cat_def)
  obtain Ls1 P A B where g: "grun tCAT Ls (ops_of st) = Some (Ls1, ops_of st1)" and r1: "ready st1 Ls1" and s1: "subids_ok st1"
    and e1: "st1 = st\<lparr>insts := P, andstack := A, atorstack := B\<rparr>"
    by (rule evaluntil_ok [OF ev r s]) blast
  have st2: "st2 = st1\<lparr>atorstack := (tCAT, cursubid st1) # atorstack st1\<rparr>" by (rule pushator_ok [OF pu])
  have os: "ops_of st' = tCAT # ops_of st1" by (simp add: ops_of_def st' st2)
  obtain X' where X': "ops_of st1 = X' @ [tSTART - 1]" "set X' \<subseteq> real_ops" using grun_bottom [OF g [unfolded X(1)] X(2)] by blast
  have nb': "nbra st' = nbra st" by (simp add: st' st2 e1)
  have "pinv k st' ts"
    unfolding pinv_def
  proof (intro conjI)
    show "subids_ok st'" using s1 by (auto simp: subids_ok_def st' st2)
    show "nbra st' = count_list (ops_of st') tLBRA + k" using nb nb' grun_count [OF g] os by simp
    show "\<exists>X. ops_of st' = X @ [tSTART - 1] \<and> set X \<subseteq> real_ops" using X' os by (intro exI [of _ "tCAT # X'"]) simp
    have "ready st' Ls1" using r1 by (simp add: ready_def st' st2)
    moreover have "holds Ls1 (ops_of st') ts (lastwasand st')" using holds_cat [OF h g] os by (simp add: st')
    ultimately show "\<exists>Ls. ready st' Ls \<and> holds Ls (ops_of st') ts (lastwasand st')" by blast
  qed
  moreover have "st' = with_parser st' st" by (simp add: with_parser_def st' st2 e1)
  moreover have "cursubid st' = cursubid st" by (simp add: st' st2 e1)
  ultimately show ?thesis by (simp add: st')
qed

definition optok :: "nat \<Rightarrow> token" where
  "optok t = (if t = tLBRA then TOpen else if t = tRBRA then TClose else if t = tOR then TOr else TPost t)"

lemma pinvI:
  assumes "subids_ok st" "nbra st = count_list (ops_of st) tLBRA + k" "ops_of st = X @ [tSTART - 1]" "set X \<subseteq> real_ops" "ready st Ls" "holds Ls (ops_of st) ts (lastwasand st)"
  shows "pinv k st ts"
  using assms by (auto simp: pinv_def)

lemma operator_open_ok:
  assumes run: "operator tLBRA st = Inr st'" and inv: "pinv 0 st ts"
  shows "pinv 0 st' (ts @ [TOpen]) \<and> st' = with_parser st' st"
proof -
  let ?s = "st\<lparr>cursubid := cursubid st + 1, nbra := nbra st + 1\<rparr>"
  obtain st3 st4 where c: "(if lastwasand ?s then operator_cat ?s else Inr ?s) = Inr st3" and pu: "pushator tLBRA st3 = Inr st4"
    and st': "st' = st4\<lparr>lastwasand := False\<rparr>"
    using run by (auto simp: operator_def Let_def rcerror_def split: if_splits)
  have i1: "pinv 1 ?s ts" using inv by (simp add: pinv_def subids_ok_def ops_of_def ready_def)
  have i3: "pinv 1 st3 ts \<and> \<not> lastwasand st3 \<and> st3 = with_parser st3 st \<and> cursubid st3 = cursubid st + 1"
  proof (cases "lastwasand ?s")
    case True
    then have "operator_cat ?s = Inr st3" using c by simp
    moreover have "with_parser st3 ?s = with_parser st3 st" by (simp add: with_parser_def)
    ultimately show ?thesis using operator_cat_ok [of ?s st3 1 ts] i1 True by simp
  next
    case False
    then show ?thesis using c i1 by (auto simp: with_parser_def)
  qed
  have st4: "st4 = st3\<lparr>atorstack := (tLBRA, cursubid st3) # atorstack st3\<rparr>" by (rule pushator_ok [OF pu])
  obtain Ls X where h: "subids_ok st3" "nbra st3 = count_list (ops_of st3) tLBRA + 1" "ops_of st3 = X @ [tSTART - 1]" "set X \<subseteq> real_ops" "ready st3 Ls"
    "holds Ls (ops_of st3) ts False" using i3 by (auto simp: pinv_def)
  have os: "ops_of st' = tLBRA # ops_of st3" by (simp add: ops_of_def st' st4)
  have "pinv 0 st' (ts @ [TOpen])"
  proof (rule pinvI)
    show "subids_ok st'" using h(1) i3 by (auto simp: subids_ok_def st' st4)
    show "nbra st' = count_list (ops_of st') tLBRA + 0" using h(2) os by (simp add: st' st4)
    show "ops_of st' = (tLBRA # X) @ [tSTART - 1]" using h(3) os by simp
    show "ready st' Ls" using h(5) by (simp add: ready_def st' st4)
    show "holds Ls (ops_of st') (ts @ [TOpen]) (lastwasand st')" using holds_open [OF h(6)] os by (simp add: st')
  qed (use h(4) in simp)
  moreover have "st' = with_parser st' st"
  proof -
    have "with_parser st' st = with_parser st' (with_parser st3 st)" by (simp add: with_parser_def)
    also have "\<dots> = with_parser st' st3" using i3 by simp
    also have "\<dots> = st'" by (simp add: with_parser_def st' st4)
    finally show ?thesis by simp
  qed
  ultimately show ?thesis by blast
qed

lemma operator_close_ok:
  assumes run: "operator tRBRA st = Inr st'" and inv: "pinv 0 st ts"
  shows "pinv 0 st' (ts @ [TClose]) \<and> st' = with_parser st' st"
proof -
  let ?s = "st\<lparr>nbra := nbra st - 1\<rparr>"
  obtain st3 where nz: "nbra st \<noteq> 0" and ev: "evaluntil tRBRA ?s = Inr st3" and st': "st' = st3\<lparr>lastwasand := True\<rparr>"
    using run by (auto simp: operator_def Let_def rcerror_def split: if_splits)
  obtain Ls X where h: "subids_ok st" "nbra st = count_list (ops_of st) tLBRA" "ops_of st = X @ [tSTART - 1]" "set X \<subseteq> real_ops" "ready st Ls"
    "holds Ls (ops_of st) ts (lastwasand st)" using inv by (auto simp: pinv_def)
  have r: "ready ?s Ls" "subids_ok ?s" using h by (simp_all add: ready_def subids_ok_def)
  obtain Ls1 P A B where g: "grun tRBRA Ls (ops_of ?s) = Some (Ls1, ops_of st3)" and r1: "ready st3 Ls1" and s1: "subids_ok st3"
    and e1: "st3 = ?s\<lparr>insts := P, andstack := A, atorstack := B\<rparr>" by (rule evaluntil_ok [OF ev r]) blast
  have os: "ops_of ?s = ops_of st" "ops_of st' = ops_of st3" by (simp_all add: ops_of_def st')
  obtain X' where X': "ops_of st3 = X' @ [tSTART - 1]" "set X' \<subseteq> real_ops" using grun_bottom [OF g [unfolded os h(3)] h(4)] by blast
  have "pinv 0 st' (ts @ [TClose])"
  proof (rule pinvI)
    show "subids_ok st'" using s1 by (simp add: subids_ok_def st')
    have "nbra st' = nbra st - 1" by (simp add: st' e1)
    then show "nbra st' = count_list (ops_of st') tLBRA + 0" using grun_count [OF g] h(2) os by simp
    show "ops_of st' = X' @ [tSTART - 1]" using X' os by simp
    show "ready st' Ls1" using r1 by (simp add: ready_def st')
    show "holds Ls1 (ops_of st') (ts @ [TClose]) (lastwasand st')" using holds_close [OF h(6)] g os by (simp add: st')
  qed (rule X')
  moreover have "st' = with_parser st' st" by (simp add: with_parser_def st' e1)
  ultimately show ?thesis by blast
qed

lemma operator_other_ok:
  assumes run: "operator t st = Inr st'" and t: "t = tOR \<or> t \<in> postfix_ops" and inv: "pinv 0 st ts"
  shows "pinv 0 st' (ts @ [optok t]) \<and> st' = with_parser st' st"
proof -
  obtain st3 st4 where ev: "evaluntil t st = Inr st3" and pu: "pushator t st3 = Inr st4"
    and st': "st' = st4\<lparr>lastwasand := (t = tSTAR \<or> t = tQUEST \<or> t = tPLUS)\<rparr>"
    using run t by (auto simp: operator_def Let_def)
  obtain Ls X where h: "subids_ok st" "nbra st = count_list (ops_of st) tLBRA" "ops_of st = X @ [tSTART - 1]" "set X \<subseteq> real_ops" "ready st Ls"
    "holds Ls (ops_of st) ts (lastwasand st)" using inv by (auto simp: pinv_def)
  obtain Ls1 P A B where g: "grun t Ls (ops_of st) = Some (Ls1, ops_of st3)" and r1: "ready st3 Ls1" and s1: "subids_ok st3"
    and e1: "st3 = st\<lparr>insts := P, andstack := A, atorstack := B\<rparr>" by (rule evaluntil_ok [OF ev h(5,1)]) blast
  have st4: "st4 = st3\<lparr>atorstack := (t, cursubid st3) # atorstack st3\<rparr>" by (rule pushator_ok [OF pu])
  obtain X' where X': "ops_of st3 = X' @ [tSTART - 1]" "set X' \<subseteq> real_ops" using grun_bottom [OF g [unfolded h(3)] h(4)] by blast
  have os: "ops_of st' = t # ops_of st3" by (simp add: ops_of_def st' st4)
  have tt: "tOR \<le> t" "t \<noteq> tLBRA" using t by auto
  have "pinv 0 st' (ts @ [optok t])"
  proof (rule pinvI)
    show "subids_ok st'" using s1 t by (auto simp: subids_ok_def st' st4)
    have "nbra st' = nbra st" by (simp add: st' st4 e1)
    then show "nbra st' = count_list (ops_of st') tLBRA + 0" using grun_count [OF g] h(2) os tt by simp
    show "ops_of st' = (t # X') @ [tSTART - 1]" using X' os by simp
    show "set (t # X') \<subseteq> real_ops" using X' t by auto
    show "ready st' Ls1" using r1 by (simp add: ready_def st' st4)
    show "holds Ls1 (ops_of st') (ts @ [optok t]) (lastwasand st')"
      using t holds_or [OF h(6), of Ls1 "ops_of st3"] holds_post [OF h(6), of t Ls1 "ops_of st3"] g os by (auto simp: st' optok_def)
  qed
  moreover have "st' = with_parser st' st" by (simp add: with_parser_def st' st4 e1)
  ultimately show ?thesis by blast
qed

abbreviation atom_types :: "nat set" where "atom_types \<equiv> {tRUNE, tANY, tANYNL, tBOL, tEOL, tCCLASS, tNCCLASS}"

definition atom_inst :: "nat \<Rightarrow> pstate \<Rightarrow> reinst" where
  "atom_inst t st = \<lparr>itype = t, icp = (if t = tCCLASS \<or> t = tNCCLASS then yyclassp st else []), ir = (if t = tRUNE then yyrune st else 0),
     isubid = 0, iright = None, inext = None\<rparr>"

lemma ready_push:
  assumes r: "ready st Ls" and i: "itype i \<notin> {tNOP, tEND, tLBRA}" "inext i = None" "iright i = None"
    and st': "insts st' = insts st @ [i]" "andstack st' = (length (insts st), length (insts st)) # andstack st"
  shows "ready st' (lang (Atom i) # Ls)"
proof -
  let ?P = "insts st" let ?n = "length ?P"
  have "frag (?P @ [i]) {?n} ?n ?n (\<lambda>tx eol. lets tx eol ((?P @ [i]) ! ?n))" using i by (intro frag_atom) auto
  then have "frag (?P @ [i]) {?n} ?n ?n (lang (Atom i))" by (simp add: lang_simps)
  moreover have "owns (?P @ [i]) (andstack st) Ls {..<?n}"
    by (rule owns_agree [of ?P]) (use r in \<open>auto simp: ready_def nth_append\<close>)
  moreover have "{..<length (?P @ [i])} = {?n} \<union> {..<?n}" by auto
  ultimately show ?thesis unfolding ready_def st' owns.simps fst_conv snd_conv
    by - (rule exI [of _ "{?n}"], rule exI [of _ "{..<?n}"], simp)
qed

lemma with_parser_lex [simp]: "yyrune (with_parser a st) = yyrune st" "yyclassp (with_parser a st) = yyclassp st" "atom_inst t (with_parser a st) = atom_inst t st"
  by (simp_all add: with_parser_def atom_inst_def)

lemma before_operand:
  assumes c: "(if lastwasand st then operator_cat st else Inr st) = Inr st1" and inv: "pinv k st ts"
  shows "pinv k st1 ts \<and> \<not> lastwasand st1 \<and> st1 = with_parser st1 st"
proof (cases "lastwasand st")
  case True
  then show ?thesis using operator_cat_ok [of st st1 k ts] c inv by simp
next
  case False
  then show ?thesis using c inv by (auto simp: with_parser_def)
qed

lemma operand_shape:
  assumes "operand t st = Inr st'"
  obtains st1 where "(if lastwasand st then operator_cat st else Inr st) = Inr st1"
    "st' = st1\<lparr>insts := insts st1 @ [atom_inst t st1], andstack := (length (insts st1), length (insts st1)) # andstack st1, lastwasand := True\<rparr>"
proof -
  obtain st1 i st2 where c: "(if lastwasand st then operator_cat st else Inr st) = Inr st1" and n: "newinst t st1 = Inr (i, st2)"
    and p: "(let st3 = (if t = tCCLASS \<or> t = tNCCLASS then upd_inst i (\<lambda>x. x\<lparr>icp := yyclassp st2\<rparr>) st2 else st2);
        st4 = (if t = tRUNE then upd_inst i (\<lambda>x. x\<lparr>ir := yyrune st3\<rparr>) st3 else st3) in
      bindR (pushand i i st4) (\<lambda>st5. Inr (st5\<lparr>lastwasand := True\<rparr>))) = Inr st'"
    using assms by (auto simp: operand_def)
  note n' = newinst_ok [OF n]
  have "st' = st1\<lparr>insts := insts st1 @ [atom_inst t st1], andstack := (length (insts st1), length (insts st1)) # andstack st1, lastwasand := True\<rparr>"
    using p n' by (auto simp: Let_def upd_inst_def atom_inst_def dest!: pushand_ok split: if_splits)
  with c show ?thesis by (rule that)
qed

lemma operand_ok:
  assumes run: "operand t st = Inr st'" and t: "t \<in> atom_types" and inv: "pinv 0 st ts"
  shows "pinv 0 st' (ts @ [TAtom (atom_inst t st)]) \<and> st' = with_parser st' st"
proof -
  obtain st1 where c: "(if lastwasand st then operator_cat st else Inr st) = Inr st1"
    and st': "st' = st1\<lparr>insts := insts st1 @ [atom_inst t st1], andstack := (length (insts st1), length (insts st1)) # andstack st1, lastwasand := True\<rparr>"
    by (rule operand_shape [OF run])
  have i1: "pinv 0 st1 ts" "\<not> lastwasand st1" "st1 = with_parser st1 st" using before_operand [OF c inv] by simp_all
  have ai: "atom_inst t st1 = atom_inst t st" by (metis i1(3) with_parser_lex(3))
  obtain Ls X where h: "subids_ok st1" "nbra st1 = count_list (ops_of st1) tLBRA" "ops_of st1 = X @ [tSTART - 1]" "set X \<subseteq> real_ops" "ready st1 Ls"
    "holds Ls (ops_of st1) ts False" using i1 by (auto simp: pinv_def)
  have os: "ops_of st' = ops_of st1" by (simp add: ops_of_def st')
  have "pinv 0 st' (ts @ [TAtom (atom_inst t st)])"
  proof (rule pinvI)
    show "subids_ok st'" using h(1) by (simp add: subids_ok_def st')
    show "nbra st' = count_list (ops_of st') tLBRA + 0" using h(2) os by (simp add: st')
    show "ops_of st' = X @ [tSTART - 1]" using h(3) os by simp
    show "ready st' (lang (Atom (atom_inst t st)) # Ls)"
    proof (rule ready_push [OF h(5)])
      show "insts st' = insts st1 @ [atom_inst t st]" by (simp add: st' ai)
    qed (use t in \<open>auto simp: st' atom_inst_def\<close>)
    show "holds (lang (Atom (atom_inst t st)) # Ls) (ops_of st') (ts @ [TAtom (atom_inst t st)]) (lastwasand st')"
      using holds_atom [OF h(6)] os by (simp add: st')
  qed (rule h(4))
  moreover have "st' = with_parser st' st"
  proof -
    have "with_parser st' st = with_parser st' (with_parser st1 st)" by (simp add: with_parser_def)
    also have "\<dots> = with_parser st' st1" using i1(3) by simp
    also have "\<dots> = st'" by (simp add: with_parser_def st')
    finally show ?thesis by simp
  qed
  ultimately show ?thesis by blast
qed

section \<open>Tokens\<close>

definition token_of :: "nat \<Rightarrow> pstate \<Rightarrow> token" where
  "token_of t st = (if t = tLBRA then TOpen else if t = tRBRA then TClose else if t = tOR then TOr
     else if t \<in> postfix_ops then TPost t else TAtom (atom_inst t st))"

text \<open>The tokens of an expression: what \<open>lex\<close> yields up to \<open>END\<close>, without a parser in between.\<close>

fun tokens :: "nat \<Rightarrow> bool \<Rightarrow> nat \<Rightarrow> pstate \<Rightarrow> token list res" where
  "tokens n literal dot_type st = bindR (lex literal dot_type st) (\<lambda>(t, st1). if t = tEND then Inr []
     else case n of 0 \<Rightarrow> Inl Loop | Suc m \<Rightarrow> bindR (tokens m literal dot_type st1) (\<lambda>ts. Inr (token_of t st1 # ts)))"

declare tokens.simps [simp del]

lemma nextc_put: "nextc (with_parser a st) = (case nextc st of (q, r, s) \<Rightarrow> (q, r, with_parser a s))"
  by (simp add: nextc_def with_parser_def Let_def split: prod.splits)

declare class_spans.simps [simp del]

lemma class_spans_put: "class_spans n q c r (with_parser a st) = bindR (class_spans n q c r st) (\<lambda>(r', s). Inr (r', with_parser a s))"
proof (induction n arbitrary: q c r st rule: less_induct)
  case (less n)
  obtain q1 c1 s1 where n1: "nextc st = (q1, c1, s1)" by (cases "nextc st")
  obtain q2 c2 s2 where n2: "nextc s1 = (q2, c2, s2)" by (cases "nextc s1")
  have IH: "class_spans m q c r (with_parser a s) = bindR (class_spans m q c r s) (\<lambda>(r', s). Inr (r', with_parser a s))" if "n = Suc m" for m q c r s
    using less.IH that by simp
  show ?case
  proof (cases n)
    case 0
    then show ?thesis by (simp add: class_spans.simps [of 0] nextc_put rcerror_def n1 n2)
  next
    case (Suc k)
    then show ?thesis by (simp add: class_spans.simps [of "Suc k"] nextc_put rcerror_def n1 n2 IH)
  qed
qed

lemma bldcclass_put: "bldcclass (with_parser a st) = bindR (bldcclass st) (\<lambda>(t, s). Inr (t, with_parser a s))"
proof -
  let ?s1 = "st\<lparr>nclass := nclass st + 1\<rparr>"
  have p: "nclass (with_parser a st) = nclass st" "(with_parser a st)\<lparr>nclass := k\<rparr> = with_parser a (st\<lparr>nclass := k\<rparr>)" for k by (simp_all add: with_parser_def)
  have e: "exprp (with_parser a s) = exprp s" "(with_parser a s)\<lparr>yyclassp := c\<rparr> = with_parser a (s\<lparr>yyclassp := c\<rparr>)" for s c by (simp_all add: with_parser_def)
  obtain q c s where n: "nextc ?s1 = (q, c, s)" by (cases "nextc ?s1")
  obtain q2 c2 s2 where n2: "nextc s = (q2, c2, s2)" by (cases "nextc s")
  have b: "bindR (bindR m (\<lambda>(r', s). Inr (r', with_parser a s))) (\<lambda>(r, s). bindR (store_class r) (\<lambda>c. Inr (x, s\<lparr>yyclassp := c\<rparr>)))
      = bindR (bindR m (\<lambda>(r, s). bindR (store_class r) (\<lambda>c. Inr (x, s\<lparr>yyclassp := c\<rparr>)))) (\<lambda>(t, s). Inr (t, with_parser a s))" for m x
    by (cases m) (auto simp: e bindR_assoc bindR_def split: sum.splits)
  show ?thesis unfolding bldcclass_def Let_def p(1) p(2) nextc_put n n2 prod.case
    by (cases "\<not> q \<and> c = 0x5E") (auto simp: rcerror_def n2 nextc_put e class_spans_put b)
qed

lemma lex_put: "lex lit dot (with_parser a st) = bindR (lex lit dot st) (\<lambda>(t, s). Inr (t, with_parser a s))"
proof -
  have y: "(with_parser a s)\<lparr>yyrune := c\<rparr> = with_parser a (s\<lparr>yyrune := c\<rparr>)" for s c by (simp add: with_parser_def)
  obtain q c s where n: "nextc st = (q, c, s)" by (cases "nextc st")
  show ?thesis by (simp add: lex_def nextc_put n y bldcclass_put Let_def)
qed

lemma with_parser_self [simp]: "with_parser st st = st" by (simp add: with_parser_def)

lemma parser_views [simp]: "insts (with_parser a s) = insts a" "andstack (with_parser a s) = andstack a" "atorstack (with_parser a s) = atorstack a" "nbra (with_parser a s) = nbra a"
    "lastwasand (with_parser a s) = lastwasand a" "cursubid (with_parser a s) = cursubid a"
  by (simp_all add: with_parser_def)

lemma pinv_put [simp]: "pinv k (with_parser a s) ts = pinv k a ts"
  by (simp add: pinv_def subids_ok_def ops_of_def ready_def)

lemma lex_keeps: "lex lit dot st = Inr (t, s) \<Longrightarrow> s = with_parser st s"
  using lex_put [of lit dot st st] by auto

lemma tok_of_put [simp]: "token_of t (with_parser a s) = token_of t s" by (simp add: token_of_def)

lemma tokens_put: "tokens n lit dot (with_parser a st) = tokens n lit dot st"
proof (induction n arbitrary: st)
  case 0
  show ?case by (cases "lex lit dot st") (auto simp: tokens.simps [of 0] lex_put)
next
  case (Suc n)
  show ?case by (cases "lex lit dot st") (auto simp: tokens.simps [of "Suc n"] lex_put Suc.IH)
qed

lemma bldcclass_type: "bldcclass st = Inr (t, s) \<Longrightarrow> t \<in> {tCCLASS, tNCCLASS}"
  by (auto simp: bldcclass_def rcerror_def Let_def split: if_splits prod.splits)

lemma lex_type:
  assumes "lex lit dot st = Inr (t, s)" "dot \<in> {tANY, tANYNL}"
  shows "t = tEND \<or> t \<in> {tOR, tLBRA, tRBRA, tSTAR, tPLUS, tQUEST} \<or> t \<in> atom_types"
  using assms bldcclass_type by (auto simp: lex_def Let_def split: if_splits prod.splits)

lemma step_token:
  assumes run: "(if t AND 0xC0 = tOPERATOR then operator t st else operand t st) = Inr st'"
    and t: "t \<in> {tOR, tLBRA, tRBRA, tSTAR, tPLUS, tQUEST} \<or> t \<in> atom_types" and inv: "pinv 0 st ts"
  shows "pinv 0 st' (ts @ [token_of t st]) \<and> st' = with_parser st' st"
proof (cases "t \<in> atom_types")
  case True
  then have "operand t st = Inr st'" "token_of t st = TAtom (atom_inst t st)" using run by (auto simp: token_of_def)
  then show ?thesis using operand_ok [of t st st'] True inv by simp
next
  case False
  then have o: "operator t st = Inr st'" using run t by auto
  consider "t = tLBRA" | "t = tRBRA" | "t = tOR \<or> t \<in> postfix_ops" using t False by blast
  then show ?thesis
  proof cases
    case 1
    then show ?thesis using operator_open_ok [of st st' ts] o inv by (simp add: token_of_def)
  next
    case 2
    then show ?thesis using operator_close_ok [of st st' ts] o inv by (simp add: token_of_def)
  next
    case 3
    have "token_of t st = optok t" using 3 by (auto simp: token_of_def optok_def)
    then show ?thesis using operator_other_ok [OF o 3 inv] by simp
  qed
qed

lemma tok_loop_ok:
  assumes dot: "dot \<in> {tANY, tANYNL}"
  shows "tok_loop n lit dot st = Inr st' \<Longrightarrow> pinv 0 st ts \<Longrightarrow> \<exists>us. tokens n lit dot st = Inr us \<and> pinv 0 st' (ts @ us)"
proof (induction n arbitrary: st ts rule: less_induct)
  case (less n)
  obtain t st1 where lx: "lex lit dot st = Inr (t, st1)"
    and rest: "(if t = tEND then Inr st1 else bindR (if t AND 0xC0 = tOPERATOR then operator t st1 else operand t st1) (\<lambda>st2.
      case n of 0 \<Rightarrow> Inl Loop | Suc m \<Rightarrow> tok_loop m lit dot st2)) = Inr st'"
    using less.prems(1) by (auto simp: tok_loop.simps [of n])
  have i1: "pinv 0 st1 ts" using lex_keeps [OF lx] less.prems(2) by (metis pinv_put)
  show ?case
  proof (cases "t = tEND")
    case True
    then show ?thesis using rest i1 lx by (intro exI [of _ "[]"]) (simp add: tokens.simps [of n])
  next
    case False
    then obtain st2 m where st: "(if t AND 0xC0 = tOPERATOR then operator t st1 else operand t st1) = Inr st2"
      and m: "n = Suc m" "tok_loop m lit dot st2 = Inr st'" using rest by (cases n) auto
    have ty: "t \<in> {tOR, tLBRA, tRBRA, tSTAR, tPLUS, tQUEST} \<or> t \<in> atom_types" using lex_type [OF lx dot] False by blast
    have i2: "pinv 0 st2 (ts @ [token_of t st1])" "st2 = with_parser st2 st1" using step_token [OF st ty i1] by simp_all
    obtain us where us: "tokens m lit dot st2 = Inr us" "pinv 0 st' ((ts @ [token_of t st1]) @ us)"
      using less.IH [OF _ m(2) i2(1)] m(1) by auto
    have "tokens m lit dot st1 = Inr us" using us(1) i2(2) tokens_put by metis
    then show ?thesis using us(2) lx False m(1) by (intro exI [of _ "token_of t st1 # us"]) (simp add: tokens.simps [of "Suc m"])
  qed
qed

section \<open>The end of the expression\<close>

definition whole_prog :: "reinst list \<Rightarrow> nat \<Rightarrow> mrel \<Rightarrow> bool" where
  "whole_prog P f L \<longleftrightarrow> P \<noteq> [] \<and> itype (last P) = tEND \<and> inext (last P) = None \<and> iright (last P) = None \<and> f < length P \<and> itype (P ! f) \<noteq> tNOP \<and>
     (\<forall>p < length P - 1. itype (P ! p) \<noteq> tEND \<and> inext (P ! p) \<noteq> None \<and> closed_inst P {..<length P} (length P - 1) p) \<and>
     (\<forall>tx eol s s'. L tx eol s s' \<longleftrightarrow> (cstep P tx eol)\<^sup>*\<^sup>* (f, s) (length P - 1, s'))"

lemma grun_start:
  assumes "grun tSTART Ls (X @ [tSTART - 1]) = Some (Ls', Os')" "set X \<subseteq> real_ops" "tLBRA \<notin> set X"
  shows "Os' = [tSTART - 1]"
  using assms
proof (induction X arbitrary: Ls)
  case (Cons opr X)
  then obtain Ls1 where "geval opr Ls = Some Ls1" by (cases "geval opr Ls") auto
  then show ?case using Cons by auto
qed simp

text \<open>What is on the stack when the tokens have been read and all brackets are closed.\<close>

lemma final_stack:
  assumes h: "holds Ls (X @ [tSTART - 1]) ts w" and X: "set X \<subseteq> real_ops" "tLBRA \<notin> set X"
    and g: "grun tSTART Ls (X @ [tSTART - 1]) = Some (Ls', Os')"
  obtains e where "w" "proper e" "toks e = ts" "Ls' = [lang e]" | "\<not> w" "ts = []" "Ls' = []" | "w" "Ls' = []"
proof -
  have o: "Os' = [tSTART - 1]" by (rule grun_start [OF g X])
  note gc = grun_count [OF g, unfolded o]
  have none: "Ls' = [] \<and> nbin (X @ [tSTART - 1]) = 0" if "length Ls \<le> nbin (X @ [tSTART - 1])"
  proof -
    have "length Ls' + nbin (X @ [tSTART - 1]) = length Ls" using gc by simp
    then have "length Ls' = 0" using that by linarith
    then show ?thesis using gc by auto
  qed
  have bot: "Ob = [tSTART - 1] \<and> R = [] \<and> T = []" if "bottom R Ob T" "X @ [tSTART - 1] = Of @ Ob" for Of R Ob T
  proof -
    have "set Ob \<subseteq> set (X @ [tSTART - 1])" unfolding that(2) by simp
    then have "tLBRA \<notin> set Ob" using X(2) by auto
    then show ?thesis using that(1) by (auto simp: bottom_def)
  qed
  show ?thesis
  proof (cases "stack_ok Ls (X @ [tSTART - 1]) ts w")
    case True
    obtain La Oa Ta Lc Oc Tc Ll Ol Tl R Ob T where f: "altp La Oa Ta" "catp Lc Oc Tc" "lastp w Ll Ol Tl" "bottom R Ob T"
      and e: "Ls = Ll @ Lc @ La @ R" "X @ [tSTART - 1] = Ol @ Oc @ Oa @ Ob" "ts = T @ Ta @ Tc @ Tl" by (rule frameE [OF True])
    have b: "Ob = [tSTART - 1]" "R = []" "T = []" using bot [OF f(4), of "Ol @ Oc @ Oa"] e(2) by simp_all
    show ?thesis
    proof (cases w)
      case w: True
      then have lw: "lastp True Ll Ol Tl" using f(3) by simp
      obtain c where c: "proper c" "toks c = Ta @ Tc @ Tl" "\<And>pri R Ob. pri \<le> tOR \<Longrightarrow> grun pri (Ll @ Lc @ La @ R) (Ol @ Oc @ Oa @ Ob) = grun pri (lang c # R) Ob"
        by (rule alt_resolve [OF f(1,2) lw]) blast
      have "Ls' = [lang c]" using g c(3) [of tSTART R Ob] e(1,2) b by simp
      then show ?thesis using that(1) [of c] w c e(3) b by simp
    next
      case w: False
      have "length Ls \<le> nbin (X @ [tSTART - 1])" using stack_count [OF True] w by simp
      note n = none [OF this]
      have "nbin (Ol @ Oc @ Oa @ Ob) = 0" using n unfolding e(2) by simp
      then have "nbin Oc = 0" "nbin Oa = 0" by simp_all
      then have "ts = []" using f b e(3) w by (auto simp: altp_def catp_def lastp_def)
      then show ?thesis using that(2) w n by simp
    qed
  next
    case False
    then have b: "length Ls + (if w then 0 else 1) \<le> nbin (X @ [tSTART - 1])" using h by (simp add: holds_def)
    then have n: "Ls' = [] \<and> nbin (X @ [tSTART - 1]) = 0" by (intro none) (auto split: if_splits)
    then show ?thesis using that(3) b by (cases w) auto
  qed
qed

lemma whole_end: "whole_prog [binst tEND] 0 (\<lambda>tx eol. (=))"
proof -
  have "\<not> cstep [binst tEND] tx eol (0, s) v" for tx eol s v by (simp add: cstep_def)
  then have "(cstep [binst tEND] tx eol)\<^sup>*\<^sup>* (0, s) (0, s') \<longleftrightarrow> s = s'" for tx eol s s'
    by (auto elim: converse_rtranclpE)
  then show ?thesis by (simp add: whole_prog_def)
qed

lemma whole_cat:
  assumes f: "frag P {..<length P} f l L"
  shows "whole_prog ((P @ [binst tEND])[l := (P ! l)\<lparr>inext := Some (length P)\<rparr>]) f L"
proof -
  let ?n = "length P" let ?P' = "(P @ [binst tEND])[l := (P ! l)\<lparr>inext := Some ?n\<rparr>]"
  have c: "closed_frag P {..<?n} f l" using f by (simp add: frag_def)
  then have l: "l < ?n" "f < ?n" "itype (P ! f) \<noteq> tNOP" by (simp_all add: closed_frag_def)
  have k: "linked P ?P' {..<?n} l ?n" using l by (auto simp: linked_def nth_append)
  have last: "last ?P' = binst tEND" "length ?P' = Suc ?n" "?P' ! ?n = binst tEND" using l by (simp_all add: last_conv_nth)
  have ci: "closed_inst ?P' {..<Suc ?n} ?n p" if "p < ?n" for p
    by (rule closed_inst_link [OF c k]) (use that in auto)
  have "L tx eol s s' \<longleftrightarrow> (cstep ?P' tx eol)\<^sup>*\<^sup>* (f, s) (?n, s')" for tx eol s s'
  proof
    assume "L tx eol s s'"
    then show "(cstep ?P' tx eol)\<^sup>*\<^sup>* (f, s) (?n, s')" by (rule link_exit [OF f k])
  next
    assume r: "(cstep ?P' tx eol)\<^sup>*\<^sup>* (f, s) (?n, s')"
    let ?I = "\<lambda>q t. inside P {..<?n} f tx eol s (q, t) \<or> q = ?n \<and> L tx eol s t"
    have "?I ?n s'"
    proof (rule paths_inv [where I = ?I, OF r])
      show "?I f s" using inside_start [OF f] by blast
      show "?I q' t'" if i: "?I q t" and st: "cstep ?P' tx eol (q, t) (q', t')" for q t q' t'
      proof (cases "q = ?n")
        case True
        then show ?thesis using st last(3) by (simp add: cstep_def)
      next
        case False
        then have "inside P {..<?n} f tx eol s (q, t)" using i by blast
        from inside_step [OF f k this st] show ?thesis .
      qed
    qed
    then show "L tx eol s s'" by (auto simp: inside_def)
  qed
  moreover have "itype (?P' ! f) \<noteq> tNOP" using linked_same [OF k, of f] l by simp
  moreover have "itype (?P' ! p) \<noteq> tEND" "inext (?P' ! p) \<noteq> None" if "p < ?n" for p
    using frag_noend [OF f k] ci [OF that] that by (auto simp: closed_inst_def)
  ultimately show ?thesis unfolding whole_prog_def last(1,2) using l ci by simp
qed

lemma evaluntil_bottom: "atorstack st = [(tSTART - 1, x)] \<Longrightarrow> tSTART \<le> pri \<Longrightarrow> pri \<noteq> tRBRA \<Longrightarrow> evaluntil pri st = Inr st"
  by (simp add: evaluntil_def eval_loop.simps [of "Suc 0"])

lemma pinit_inv: "pushator (tSTART - 1) (pinit s) = Inr st1 \<Longrightarrow> pinv 0 st1 [] \<and> st1 = with_parser st1 (pinit s)"
proof -
  assume "pushator (tSTART - 1) (pinit s) = Inr st1"
  then have st1: "st1 = (pinit s)\<lparr>atorstack := [(tSTART - 1, 0)]\<rparr>" using pushator_ok [of "tSTART - 1" "pinit s" st1] by (simp add: pinit_def)
  have "frame [] [] [] False" by (simp add: frame_def altp_def catp_def lastp_def)
  then have "stack_ok [] [tSTART - 1] [] False" using stack_ok.base [of "[]" "[]" "[]" False] by simp
  then have "pinv 0 st1 []"
    by (intro pinvI [of _ _ "[]" "[]"]) (simp_all add: st1 pinit_def subids_ok_def ops_of_def ready_def holds_def)
  then show ?thesis by (simp add: with_parser_def st1 pinit_def)
qed

lemma end_operand:
  assumes a3: "atorstack st3 = [(tSTART - 1, x)]" and opd: "operand tEND st3 = Inr st4"
  shows "st4 = st3\<lparr>insts := insts st3 @ [binst tEND], andstack := (length (insts st3), length (insts st3)) # andstack st3,
     atorstack := (if lastwasand st3 then [(tCAT, cursubid st3), (tSTART - 1, x)] else [(tSTART - 1, x)]), lastwasand := True\<rparr>"
proof -
  obtain st where c: "(if lastwasand st3 then operator_cat st3 else Inr st3) = Inr st"
    and st4: "st4 = st\<lparr>insts := insts st @ [atom_inst tEND st], andstack := (length (insts st), length (insts st)) # andstack st, lastwasand := True\<rparr>"
    by (rule operand_shape [OF opd])
  have ai: "atom_inst tEND st = binst tEND" by (simp add: atom_inst_def)
  show ?thesis
  proof (cases "lastwasand st3")
    case True
    then have "st = st3\<lparr>atorstack := [(tCAT, cursubid st3), (tSTART - 1, x)], lastwasand := False\<rparr>"
      using c evaluntil_bottom [OF a3, of tCAT] by (auto simp: operator_cat_def a3 dest!: pushator_ok)
    then show ?thesis using st4 ai True by simp
  next
    case False
    then show ?thesis using c st4 ai a3 by auto
  qed
qed

lemma end_cat:
  assumes "atorstack st4 = [(tCAT, y), (tSTART - 1, x)]" "evaluntil tSTART st4 = Inr st5"
  obtains f2 l2 f1 l1 xs where "andstack st4 = (f2, l2) # (f1, l1) # xs"
    "st5 = st4\<lparr>atorstack := [(tSTART - 1, x)], insts := (insts st4)[l1 := (insts st4 ! l1)\<lparr>inext := Some f2\<rparr>], andstack := (f1, l2) # xs\<rparr>"
proof -
  let ?s = "st4\<lparr>atorstack := [(tSTART - 1, x)]\<rparr>"
  obtain stop st where ev: "eval_op tCAT y ?s = Inr (stop, st)"
    and rest: "(if stop then Inr st else case Suc (Suc 0) of 0 \<Rightarrow> Inl Loop | Suc m \<Rightarrow> eval_loop m tSTART st) = Inr st5"
    using assms by (auto simp: evaluntil_def eval_loop.simps [of "Suc (Suc 0)"])
  obtain f2 l2 st1 f1 l1 st2 where p: "popand [] ?s = Inr ((f2, l2), st1)" "popand [] st1 = Inr ((f1, l1), st2)"
    "pushand f1 l2 (set_next l1 f2 st2) = Inr st" "\<not> stop"
    using ev by (auto simp: eval_op_def)
  have a: "andstack st4 = (f2, l2) # (f1, l1) # andstack st2" using popand_ok [OF p(1)] popand_ok [OF p(2)] by simp
  obtain A where A: "st1 = ?s\<lparr>andstack := A\<rparr>" using popand_ok [OF p(1)] by blast
  obtain B where "st2 = st1\<lparr>andstack := B\<rparr>" using popand_ok [OF p(2)] by blast
  then have st2: "st2 = ?s\<lparr>andstack := B\<rparr>" by (simp add: A)
  have st: "st = (set_next l1 f2 st2)\<lparr>andstack := (f1, l2) # B\<rparr>" using pushand_ok [OF p(3)] by (simp add: st2 upd_defs)
  have "eval_loop (Suc 0) tSTART st = Inr st5" using rest p(4) by simp
  moreover have "atorstack st = [(tSTART - 1, x)]" by (simp add: st st2 upd_defs)
  ultimately have "st5 = st" by (simp add: eval_loop.simps [of "Suc 0"])
  then have "st5 = st4\<lparr>atorstack := [(tSTART - 1, x)], insts := (insts st4)[l1 := (insts st4 ! l1)\<lparr>inext := Some f2\<rparr>], andstack := (f1, l2) # B\<rparr>"
    by (simp add: st st2 upd_defs)
  moreover have "andstack st2 = B" by (simp add: st2)
  ultimately show ?thesis using that [of f2 l2 f1 l1 B] a by simp
qed

lemma popand_nbra: "popand c st = Inr (x, st') \<Longrightarrow> nbra st' = nbra st"
  using popand_ok [of c st x st'] by (metis pstate.select_convs(6) pstate.surjective pstate.update_convs(2))

lemma newinst_nbra: "newinst t st = Inr (i, st') \<Longrightarrow> nbra st' = nbra st"
  using newinst_ok by fastforce

lemma pushand_nbra: "pushand f l st = Inr st' \<Longrightarrow> nbra st' = nbra st"
  using pushand_ok by fastforce

lemma set_nbra [simp]: "nbra (set_next i t st) = nbra st" "nbra (set_right i t st) = nbra st" "nbra (set_subid i k st) = nbra st"
  by (simp_all add: upd_defs)

lemma bindR_InrE: "bindR m f = Inr y \<Longrightarrow> (\<And>x. m = Inr x \<Longrightarrow> f x = Inr y \<Longrightarrow> Q) \<Longrightarrow> Q"
  by (cases m) auto

definition keeps :: "pstate \<Rightarrow> (bool \<times> pstate) res \<Rightarrow> bool" where
  "keeps st m \<longleftrightarrow> (\<forall>b st'. m = Inr (b, st') \<longrightarrow> nbra st' = nbra st)"

lemma keeps_ret: "nbra st' = nbra st \<Longrightarrow> keeps st (Inr (b, st'))" by (simp add: keeps_def)
lemma keeps_err: "keeps st (rcerror e)" by (simp add: keeps_def rcerror_def)

lemma keeps_bind: "(\<And>x. m = Inr x \<Longrightarrow> keeps st (f x)) \<Longrightarrow> keeps st (bindR m f)"
  by (cases m) (auto simp: keeps_def)

lemma keeps_popand: "nbra st1 = nbra st \<Longrightarrow> (\<And>a b st2. nbra st2 = nbra st \<Longrightarrow> keeps st (f ((a, b), st2))) \<Longrightarrow> keeps st (bindR (popand c st1) f)"
  by (rule keeps_bind) (auto dest: popand_nbra)

lemma keeps_newinst: "nbra st1 = nbra st \<Longrightarrow> (\<And>x st2. nbra st2 = nbra st \<Longrightarrow> keeps st (f (x, st2))) \<Longrightarrow> keeps st (bindR (newinst t st1) f)"
  by (rule keeps_bind) (auto dest: newinst_nbra)

lemma keeps_pushand: "nbra st1 = nbra st \<Longrightarrow> (\<And>st2. nbra st2 = nbra st \<Longrightarrow> keeps st (f st2)) \<Longrightarrow> keeps st (bindR (pushand a b st1) f)"
  by (rule keeps_bind) (auto dest: pushand_nbra)

lemma keeps_case: "(\<And>a b. x = (a, b) \<Longrightarrow> keeps st (f a b)) \<Longrightarrow> keeps st (case x of (a, b) \<Rightarrow> f a b)"
  by (cases x) simp

lemma keeps_if: "(c \<Longrightarrow> keeps st a) \<Longrightarrow> (\<not> c \<Longrightarrow> keeps st b) \<Longrightarrow> keeps st (if c then a else b)"
  by simp

lemma eval_op_keeps: "keeps st (eval_op opr subid st)"
  unfolding eval_op_def
  by (auto intro!: keeps_if keeps_ret keeps_err keeps_popand keeps_newinst keeps_pushand)

lemma eval_op_nbra: "eval_op opr subid st = Inr (stop, st') \<Longrightarrow> nbra st' = nbra st"
  using eval_op_keeps [of st opr subid] by (simp add: keeps_def)

lemma eval_loop_nbra: "eval_loop n pri st = Inr st' \<Longrightarrow> nbra st' = nbra st"
proof (induction n arbitrary: st rule: less_induct)
  case (less n)
  show ?case
  proof (cases "atorstack st")
    case Nil
    then show ?thesis using less.prems by (simp add: eval_loop.simps [of n] rcerror_def split: if_splits)
  next
    case (Cons p ops)
    obtain opr subid where p: "p = (opr, subid)" by (cases p)
    show ?thesis
    proof (cases "pri = tRBRA \<or> opr \<ge> pri")
      case True
      obtain stop st1 where e: "eval_op opr subid (st\<lparr>atorstack := ops\<rparr>) = Inr (stop, st1)"
        and r: "(if stop then Inr st1 else case n of 0 \<Rightarrow> Inl Loop | Suc m \<Rightarrow> eval_loop m pri st1) = Inr st'"
        using less.prems True by (auto simp: eval_loop.simps [of n] Cons p)
      have "nbra st' = nbra st1" using r less.IH by (cases stop; cases n) auto
      then show ?thesis using eval_op_nbra [OF e] by simp
    next
      case False
      then show ?thesis using less.prems by (simp add: eval_loop.simps [of n] Cons p)
    qed
  qed
qed

lemma operand_nbra: "operand t st = Inr st' \<Longrightarrow> nbra st' = nbra st"
  by (erule operand_shape) (auto simp: operator_cat_def evaluntil_def dest!: eval_loop_nbra pushator_ok split: if_splits)

lemma regcomp1_shape:
  assumes run: "regcomp1 s lit dot = Inr (prog, start)" and dot: "dot \<in> {tANY, tANYNL}"
  obtains us P L where "tokens (length s) lit dot (pinit s) = Inr us" "means us L" "whole_prog P start L" "optimize P = Inr prog"
proof -
  obtain st1 st2 st3 st4 st5 where r: "pushator (tSTART - 1) (pinit s) = Inr st1" "tok_loop (length s) lit dot st1 = Inr st2"
    "evaluntil tSTART st2 = Inr st3" "operand tEND st3 = Inr st4" "evaluntil tSTART st4 = Inr st5" "nbra st5 = 0"
    and fin: "(case andstack st5 of [] \<Rightarrow> Inl Undef | (f, l) # _ \<Rightarrow> bindR (optimize (insts st5)) (\<lambda>prog. Inr (prog, f))) = Inr (prog, start)"
    using run unfolding regcomp1_def by (auto simp: rcerror_def split: if_splits)
  have i1: "pinv 0 st1 []" "st1 = with_parser st1 (pinit s)" using pinit_inv [OF r(1)] by simp_all
  obtain us where us: "tokens (length s) lit dot st1 = Inr us" and i2: "pinv 0 st2 us" using tok_loop_ok [OF dot r(2) i1(1)] by auto
  have tk: "tokens (length s) lit dot (pinit s) = Inr us" using us i1(2) tokens_put by metis
  obtain Ls X where h: "subids_ok st2" "nbra st2 = count_list (ops_of st2) tLBRA" "ops_of st2 = X @ [tSTART - 1]" "set X \<subseteq> real_ops" "ready st2 Ls"
    "holds Ls (ops_of st2) us (lastwasand st2)" using i2 by (auto simp: pinv_def)
  obtain Ls3 P3 A3 B3 where g: "grun tSTART Ls (ops_of st2) = Some (Ls3, ops_of st3)" and r3: "ready st3 Ls3"
    and e3: "st3 = st2\<lparr>insts := P3, andstack := A3, atorstack := B3\<rparr>" by (rule evaluntil_ok [OF r(3) h(5,1)]) blast
  have nb: "nbra st2 = 0" using r(6) eval_loop_nbra operand_nbra [OF r(4)] r(3,5) unfolding evaluntil_def by metis
  then have "tLBRA \<notin> set X" using h(2,3) by (simp add: count_list_0_iff)
  note X = h(4) this
  have o3: "ops_of st3 = [tSTART - 1]" using grun_start [OF g [unfolded h(3)] X] .
  then obtain x where a3: "atorstack st3 = [(tSTART - 1, x)]" by (auto simp: ops_of_def)
  have w: "lastwasand st3 = lastwasand st2" by (simp add: e3)
  note s4 = end_operand [OF a3 r(4)]
  note fs = final_stack [OF h(6) [unfolded h(3)] X g [unfolded h(3)]]
  consider e where "lastwasand st2" "proper e" "toks e = us" "Ls3 = [lang e]" | "\<not> lastwasand st2" "us = []" "Ls3 = []" | "lastwasand st2" "Ls3 = []"
    by (rule fs) blast+
  then show ?thesis
  proof cases
    case (1 e)
    obtain f l where an: "andstack st3 = [(f, l)]" and fr: "frag (insts st3) {..<length (insts st3)} f l (lang e)"
      using r3 1(4) by (cases "andstack st3" rule: list.exhaust; cases "List.tl (andstack st3)") (auto simp: ready_def)
    have l: "l < length (insts st3)" using frag_in [OF fr] by simp
    have a4: "atorstack st4 = [(tCAT, cursubid st3), (tSTART - 1, x)]" using s4 1(1) w by simp
    obtain f2 l2 f1 l1 xs where c: "andstack st4 = (f2, l2) # (f1, l1) # xs"
      "st5 = st4\<lparr>atorstack := [(tSTART - 1, x)], insts := (insts st4)[l1 := (insts st4 ! l1)\<lparr>inext := Some f2\<rparr>], andstack := (f1, l2) # xs\<rparr>"
      by (rule end_cat [OF a4 r(5)])
    have "f2 = length (insts st3)" "f1 = f" "l1 = l" "insts st4 = insts st3 @ [binst tEND]" using c(1) s4 an by simp_all
    then have P: "insts st5 = (insts st3 @ [binst tEND])[l := (insts st3 ! l)\<lparr>inext := Some (length (insts st3))\<rparr>]" "andstack st5 = (f, l2) # xs"
      using c(2) l by (simp_all add: nth_append)
    have "whole_prog (insts st5) f (lang e)" unfolding P by (rule whole_cat [OF fr])
    moreover have "start = f" "optimize (insts st5) = Inr prog" using fin P by auto
    ultimately show ?thesis using that [OF tk, of "lang e" "insts st5"] 1 by (auto simp: means_def)
  next
    case 2
    then have e: "andstack st3 = []" "insts st3 = []" using r3 by (cases "andstack st3"; auto simp: ready_def)+
    have s4': "insts st4 = [binst tEND]" "andstack st4 = [(0, 0)]" "atorstack st4 = [(tSTART - 1, x)]" using s4 2(1) w e by simp_all
    then have "st5 = st4" using r(5) evaluntil_bottom [OF s4'(3), of tSTART] by simp
    then have "start = 0" "optimize [binst tEND] = Inr prog" using fin s4' by auto
    then show ?thesis using that [OF tk, of "\<lambda>tx eol. (=)" "[binst tEND]"] 2 whole_end by (auto simp: means_def)
  next
    case 3
    then have e: "andstack st3 = []" using r3 by (cases "andstack st3") (auto simp: ready_def)
    have a4: "atorstack st4 = [(tCAT, cursubid st3), (tSTART - 1, x)]" "andstack st4 = [(length (insts st3), length (insts st3))]" using s4 3(1) w e by simp_all
    obtain f2 l2 f1 l1 xs where "andstack st4 = (f2, l2) # (f1, l1) # xs" by (rule end_cat [OF a4(1) r(5)])
    then show ?thesis using a4(2) by simp
  qed
qed

section \<open>The optimizer\<close>

definition jump :: "reinst list \<Rightarrow> nat \<Rightarrow> nat \<Rightarrow> bool" where
  "jump P a b \<longleftrightarrow> a < length P \<and> itype (P ! a) = tNOP \<and> inext (P ! a) = Some b"

definition nexts_in :: "reinst list \<Rightarrow> bool" where
  "nexts_in P \<longleftrightarrow> (\<forall>p < length P. \<forall>q. inext (P ! p) = Some q \<longrightarrow> q < length P)"

definition opted1 :: "reinst list \<Rightarrow> nat \<Rightarrow> reinst list \<Rightarrow> nat \<Rightarrow> bool" where
  "opted1 P k Q p \<longleftrightarrow> (\<exists>x. Q ! p = (P ! p)\<lparr>inext := x\<rparr>) \<and>
     (if p < k then \<exists>a t. inext (P ! p) = Some a \<and> inext (Q ! p) = Some t \<and> (jump P)\<^sup>*\<^sup>* a t \<and> t < length P \<and> itype (P ! t) \<noteq> tNOP
      else Q ! p = P ! p)"

definition opted :: "reinst list \<Rightarrow> nat \<Rightarrow> reinst list \<Rightarrow> bool" where
  "opted P k Q \<longleftrightarrow> length Q = length P \<and> (\<forall>p < length P. opted1 P k Q p)"

declare skip_nop.simps [simp del]

lemma jumps_in: "(jump P)\<^sup>*\<^sup>* a t \<Longrightarrow> nexts_in P \<Longrightarrow> a < length P \<Longrightarrow> t < length P"
  by (induction rule: rtranclp_induct) (auto simp: jump_def nexts_in_def)

lemma skip_nop_ok:
  "skip_nop n Q (Some a) = Inr t \<Longrightarrow> nexts_in Q \<Longrightarrow> a < length Q \<Longrightarrow> (jump Q)\<^sup>*\<^sup>* a t \<and> t < length Q \<and> itype (Q ! t) \<noteq> tNOP"
proof (induction n arbitrary: a rule: less_induct)
  case (less n)
  show ?case
  proof (cases "itype (Q ! a) = tNOP")
    case True
    then obtain m where m: "n = Suc m" "skip_nop m Q (inext (Q ! a)) = Inr t" using less.prems(1) by (auto simp: skip_nop.simps [of n] split: nat.splits)
    then obtain b where b: "inext (Q ! a) = Some b" by (cases "inext (Q ! a)") (auto simp: skip_nop.simps [of m])
    have "jump Q a b" "b < length Q" using True b less.prems(2,3) by (auto simp: jump_def nexts_in_def)
    then show ?thesis using less.IH [of m b] m b less.prems(2) by (auto intro: converse_rtranclp_into_rtranclp)
  next
    case False
    then show ?thesis using less.prems by (simp add: skip_nop.simps [of n])
  qed
qed

lemma optedD:
  assumes "opted P k Q" "p < length P"
  shows "itype (Q ! p) = itype (P ! p)" "iright (Q ! p) = iright (P ! p)" "isubid (Q ! p) = isubid (P ! p)" "lets tx eol (Q ! p) = lets tx eol (P ! p)"
proof -
  obtain x where "Q ! p = (P ! p)\<lparr>inext := x\<rparr>" using assms by (auto simp: opted_def opted1_def)
  then show "itype (Q ! p) = itype (P ! p)" "iright (Q ! p) = iright (P ! p)" "isubid (Q ! p) = isubid (P ! p)" "lets tx eol (Q ! p) = lets tx eol (P ! p)"
    by simp_all
qed

lemma opted_next:
  assumes "opted P k Q" "p < k" "p < length P"
  obtains a t where "inext (P ! p) = Some a" "inext (Q ! p) = Some t" "(jump P)\<^sup>*\<^sup>* a t" "t < length P" "itype (P ! t) \<noteq> tNOP"
proof -
  have "opted1 P k Q p" using assms by (simp add: opted_def)
  then show ?thesis using that assms(2) unfolding opted1_def by auto
qed

lemma opted_kept: "opted P k Q \<Longrightarrow> k \<le> p \<Longrightarrow> p < length P \<Longrightarrow> Q ! p = P ! p"
  by (auto simp: opted_def opted1_def)

lemma opted_nexts_in: assumes o: "opted P k Q" and n: "nexts_in P" shows "nexts_in Q"
  unfolding nexts_in_def
proof (intro allI impI)
  fix p q assume p: "p < length Q" "inext (Q ! p) = Some q"
  have e: "length Q = length P" using o by (simp add: opted_def)
  show "q < length Q"
  proof (cases "p < k")
    case True
    obtain a t where "inext (Q ! p) = Some t" "t < length P" using opted_next [OF o True] p(1) e by metis
    then show ?thesis using p(2) e by simp
  next
    case False
    then have "Q ! p = P ! p" using opted_kept [OF o] p(1) e by simp
    then show ?thesis using p n e by (simp add: nexts_in_def)
  qed
qed

lemma opted_jumps:
  assumes o: "opted P k Q" and j: "(jump Q)\<^sup>*\<^sup>* a b"
  shows "(jump P)\<^sup>*\<^sup>* a b"
  using j
proof (induction rule: rtranclp_induct)
  case (step b c)
  have e: "length Q = length P" using o by (simp add: opted_def)
  then have b: "b < length P" "itype (P ! b) = tNOP" "inext (Q ! b) = Some c" using step(2) optedD(1) [OF o] by (auto simp: jump_def)
  have "(jump P)\<^sup>*\<^sup>* b c"
  proof (cases "b < k")
    case True
    obtain a t where a: "inext (P ! b) = Some a" "inext (Q ! b) = Some t" "(jump P)\<^sup>*\<^sup>* a t" by (rule opted_next [OF o True b(1)])
    have "jump P b a" using b a(1) by (simp add: jump_def)
    then show ?thesis using a(2,3) b(3) by (auto intro: converse_rtranclp_into_rtranclp)
  next
    case False
    then have "jump P b c" using b opted_kept [OF o] by (simp add: jump_def)
    then show ?thesis by blast
  qed
  with step.IH show ?case by (rule rtranclp_trans)
qed simp

lemma opt_inst_ok:
  assumes run: "opt_inst k Q = Inr Q'" and o: "opted P k Q" and n: "nexts_in P" and k: "k < length P"
  shows "opted P (Suc k) Q'"
proof -
  obtain t where t: "skip_nop (length Q) Q (inext (Q ! k)) = Inr t" and Q': "Q' = Q[k := (Q ! k)\<lparr>inext := Some t\<rparr>]"
    using run by (auto simp: opt_inst_def)
  have e: "length Q = length P" using o by (simp add: opted_def)
  obtain a where a: "inext (Q ! k) = Some a" using t by (cases "inext (Q ! k)") (auto simp: skip_nop.simps [of "length Q"])
  have nq: "nexts_in Q" by (rule opted_nexts_in [OF o n])
  have ka: "inext (P ! k) = Some a" using a opted_kept [OF o _ k] by simp
  have "a < length Q" using nq a k e unfolding nexts_in_def by auto
  then have j: "(jump Q)\<^sup>*\<^sup>* a t" "t < length Q" "itype (Q ! t) \<noteq> tNOP" using skip_nop_ok [OF t [unfolded a] nq] by simp_all
  then have "(jump P)\<^sup>*\<^sup>* a t" "t < length P" "itype (P ! t) \<noteq> tNOP" using opted_jumps [OF o] optedD(1) [OF o] e by auto
  note t' = this
  have "opted1 P (Suc k) Q' p" if p: "p < length P" for p
  proof (cases "p = k")
    case True
    have "Q' ! p = (P ! k)\<lparr>inext := Some t\<rparr>" using True p e opted_kept [OF o _ k] by (simp add: Q')
    then show ?thesis using True ka t' unfolding opted1_def by auto
  next
    case False
    then have q: "Q' ! p = Q ! p" "p < Suc k \<longleftrightarrow> p < k" by (auto simp: Q')
    have "opted1 P k Q p" using o p by (simp add: opted_def)
    then show ?thesis unfolding opted1_def q .
  qed
  then show ?thesis using e by (simp add: opted_def Q')
qed

lemma optimize_ok:
  assumes run: "foldR opt_inst [k..<n] Q = Inr Q'" and o: "opted P k Q" and n: "nexts_in P" and k: "k \<le> n" "n \<le> length P"
  shows "opted P n Q'"
  using run o k(1)
proof (induction "n - k" arbitrary: k Q)
  case (Suc m)
  then have kn: "k < n" by simp
  obtain Q1 where Q1: "opt_inst k Q = Inr Q1" "foldR opt_inst [Suc k..<n] Q1 = Inr Q'" using Suc.prems(1) kn by (auto simp: upt_rec [of k])
  have "opted P (Suc k) Q1" using opt_inst_ok [OF Q1(1) Suc.prems(2) n] kn k(2) by simp
  have "m = n - Suc k" using Suc.hyps(2) by simp
  then show ?case using Suc.hyps(1) [OF _ Q1(2)] \<open>opted P (Suc k) Q1\<close> kn by simp
qed simp

lemma opted_start: "opted P 0 P"
proof -
  have "\<exists>x. i = i\<lparr>inext := x\<rparr>" for i :: reinst by (rule exI [of _ "inext i"]) simp
  then show ?thesis by (simp add: opted_def opted1_def)
qed

lemma mstep_cstep: "mstep Q tx eol (p, t) (p', t') \<longleftrightarrow> cstep Q tx eol (p, t) (p', t') \<and> itype (Q ! p) \<noteq> tNOP"
  by (auto simp: mstep_def cstep_def lets_def eps_at_def epsE_def charE_def passes_def takes_def split: if_splits)

lemma jumps_cstep: "(jump P)\<^sup>*\<^sup>* a b \<Longrightarrow> (cstep P tx eol)\<^sup>*\<^sup>* (a, s) (b, s)"
proof (induction rule: rtranclp_induct)
  case (step b c)
  have "cstep P tx eol (b, s) (c, s)" using step(2) by (simp add: jump_def cstep_def nop_lets)
  with step.IH show ?case by (rule rtranclp.rtrancl_into_rtrancl)
qed simp

lemma jump_det: "jump P a b \<Longrightarrow> jump P a c \<Longrightarrow> b = c" by (simp add: jump_def)

lemma whole_last: "whole_prog P f L \<Longrightarrow> P ! (length P - 1) = last P"
  by (simp add: whole_prog_def last_conv_nth)

lemma whole_step_in:
  assumes w: "whole_prog P f L" and p: "p < length P" and st: "cstep P tx eol (p, t) (p', t')"
  shows "p < length P - 1" "p' < length P" "itype (P ! p) = tOR \<and> iright (P ! p) = Some p' \<Longrightarrow> itype (P ! p') \<noteq> tNOP"
proof -
  note l = whole_last [OF w]
  have "p \<noteq> length P - 1"
  proof
    assume "p = length P - 1"
    then show False using st w l by (simp add: cstep_def whole_prog_def)
  qed
  then show n: "p < length P - 1" using p by simp
  then have ci: "closed_inst P {..<length P} (length P - 1) p" using w by (simp add: whole_prog_def)
  have "inext (P ! p) = Some p' \<or> iright (P ! p) = Some p'" using st by (auto simp: cstep_def)
  then show "p' < length P" using ci by (auto simp: closed_inst_def)
  show "itype (P ! p) = tOR \<and> iright (P ! p) = Some p' \<Longrightarrow> itype (P ! p') \<noteq> tNOP" using ci by (simp add: closed_inst_def)
qed

lemma opt_step_back:
  assumes w: "whole_prog P f L" and o: "opted P (length P - 1) Q" and p: "p < length P" and st: "mstep Q tx eol (p, t) (p', t')"
  shows "p' < length P \<and> (cstep P tx eol)\<^sup>*\<^sup>* (p, t) (p', t')"
proof -
  have st': "cstep Q tx eol (p, t) (p', t')" using st by (simp add: mstep_cstep)
  note q = optedD [OF o p]
  note l = whole_last [OF w]
  have n: "p < length P - 1"
  proof (rule ccontr)
    assume "\<not> p < length P - 1"
    then have "p = length P - 1" using p by simp
    then show False using st' w l opted_kept [OF o, of p] p by (simp add: cstep_def whole_prog_def)
  qed
  from st' consider "itype (P ! p) = tOR" "iright (P ! p) = Some p'" "t' = t" | "lets tx eol (P ! p) t t'" "inext (Q ! p) = Some p'"
    using q by (auto simp: cstep_def)
  then show ?thesis
  proof cases
    case 1
    then have c: "cstep P tx eol (p, t) (p', t')" by (simp add: cstep_def)
    show ?thesis using whole_step_in(2) [OF w p c] r_into_rtranclp [of "cstep P tx eol", OF c] by simp
  next
    case 2
    obtain a u where a: "inext (P ! p) = Some a" "inext (Q ! p) = Some u" "(jump P)\<^sup>*\<^sup>* a u" "u < length P" by (rule opted_next [OF o n p])
    have "cstep P tx eol (p, t) (a, t')" using 2(1) a(1) by (simp add: cstep_def)
    then have "(cstep P tx eol)\<^sup>*\<^sup>* (p, t) (u, t')" using jumps_cstep [OF a(3), of tx eol t'] by (rule converse_rtranclp_into_rtranclp)
    then show ?thesis using a(2,4) 2(2) by simp
  qed
qed

lemma opt_paths_back:
  assumes w: "whole_prog P f L" and o: "opted P (length P - 1) Q" and p: "p < length P" and r: "(mstep Q tx eol)\<^sup>*\<^sup>* (p, s) (q, t)"
  shows "q < length P \<and> (cstep P tx eol)\<^sup>*\<^sup>* (p, s) (q, t)"
proof -
  let ?I = "\<lambda>v. fst v < length P \<and> (cstep P tx eol)\<^sup>*\<^sup>* (p, s) v"
  have "?I (q, t)" using r
  proof (induction rule: rtranclp_induct)
    case (step v v')
    obtain a b c d where v: "v = (a, b)" "v' = (c, d)" by (cases v, cases v')
    have "c < length P \<and> (cstep P tx eol)\<^sup>*\<^sup>* (a, b) (c, d)" using opt_step_back [OF w o, of a tx eol b c d] step v by simp
    then show ?case using step.IH rtranclp_trans [of "cstep P tx eol" "(p, s)" v v'] v by simp
  qed (use p in simp)
  then show ?thesis by simp
qed

lemma opt_paths:
  assumes w: "whole_prog P f L" and o: "opted P (length P - 1) Q" and r: "(cstep P tx eol)\<^sup>*\<^sup>* v (length P - 1, s')"
  shows "fst v < length P \<Longrightarrow> (jump P)\<^sup>*\<^sup>* (fst v) q \<Longrightarrow> itype (P ! q) \<noteq> tNOP \<Longrightarrow> (mstep Q tx eol)\<^sup>*\<^sup>* (q, snd v) (length P - 1, s')"
  using r
proof (induction arbitrary: q rule: converse_rtranclp_induct)
  case base
  have "itype (P ! (length P - 1)) = tEND" unfolding whole_last [OF w] using w by (simp add: whole_prog_def)
  then have "q = length P - 1" using base(2) by (auto simp: jump_def elim: converse_rtranclpE)
  then show ?case by simp
next
  case (step v v')
  obtain p t p' t' where v: "v = (p, t)" "v' = (p', t')" by (cases v, cases v')
  note st = step(1) [unfolded v]
  have p: "p < length P" using step.prems(1) v by simp
  note si = whole_step_in [OF w p st]
  have IH: "(mstep Q tx eol)\<^sup>*\<^sup>* (u, t') (length P - 1, s')" if "(jump P)\<^sup>*\<^sup>* p' u" "itype (P ! u) \<noteq> tNOP" for u
    using step.IH [of u] that si(2) v by simp
  show ?case
  proof (cases "itype (P ! p) = tNOP")
    case True
    then have t: "t' = t" and j: "jump P p p'" using st p by (simp_all add: cstep_def nop_lets jump_def)
    have "p \<noteq> q" using True step.prems(3) by auto
    then obtain u where "jump P p u" "(jump P)\<^sup>*\<^sup>* u q" using step.prems(2) v by (auto elim: converse_rtranclpE)
    then have "(jump P)\<^sup>*\<^sup>* p' q" using jump_det [OF j] by simp
    then show ?thesis using IH step.prems(3) t v by simp
  next
    case False
    then have q: "q = p" using step.prems(2) v by (auto simp: jump_def elim: converse_rtranclpE)
    note e = optedD [OF o p]
    from st consider "itype (P ! p) = tOR" "iright (P ! p) = Some p'" "t' = t" | "lets tx eol (P ! p) t t'" "inext (P ! p) = Some p'"
      by (auto simp: cstep_def)
    then show ?thesis
    proof cases
      case 1
      then have "mstep Q tx eol (p, t) (p', t')" using e by (simp add: mstep_cstep cstep_def)
      then show ?thesis using IH [of p'] si(3) 1 q v by (auto intro: converse_rtranclp_into_rtranclp)
    next
      case 2
      obtain a u where a: "inext (P ! p) = Some a" "inext (Q ! p) = Some u" "(jump P)\<^sup>*\<^sup>* a u" "itype (P ! u) \<noteq> tNOP" by (rule opted_next [OF o si(1) p])
      then have "mstep Q tx eol (p, t) (u, t')" using e 2 False by (simp add: mstep_cstep cstep_def)
      then show ?thesis using IH [of u] a 2 q v by (auto intro: converse_rtranclp_into_rtranclp)
    qed
  qed
qed

lemma takeWhile_end: assumes "whole_prog P f L" shows "length (takeWhile (\<lambda>x. itype x \<noteq> tEND) P) = length P - 1"
proof -
  have P: "P = butlast P @ [last P]" using assms by (simp add: whole_prog_def)
  have "itype x \<noteq> tEND" if "x \<in> set (butlast P)" for x
    using that assms by (auto simp: in_set_conv_nth whole_prog_def nth_butlast)
  then have "takeWhile (\<lambda>x. itype x \<noteq> tEND) (butlast P @ [last P]) = butlast P"
    using assms by (subst takeWhile_append2) (auto simp: whole_prog_def)
  then show ?thesis using P by simp
qed

lemma whole_nexts_in: assumes "whole_prog P f L" shows "nexts_in P"
  unfolding nexts_in_def
proof (intro allI impI)
  fix p q assume p: "p < length P" "inext (P ! p) = Some q"
  have "p \<noteq> length P - 1" using p(2) whole_last [OF assms] assms by (auto simp: whole_prog_def)
  then have "closed_inst P {..<length P} (length P - 1) p" using p(1) assms by (simp add: whole_prog_def)
  then show "q < length P" using p(2) by (simp add: closed_inst_def)
qed

lemma whole_optimize:
  assumes w: "whole_prog P f L" and run: "optimize P = Inr Q"
  shows "wf_prog (Q, f)" "match_at (Q, f) tx eol s0 b e \<longleftrightarrow> (adv tx eol)\<^sup>*\<^sup>* s0 b \<and> L tx eol b e"
proof -
  have o: "opted P (length P - 1) Q"
    using optimize_ok [OF _ opted_start whole_nexts_in [OF w]] run unfolding optimize_def takeWhile_end [OF w] by simp
  have e: "length Q = length P" using o by (simp add: opted_def)
  have f: "f < length P" "itype (P ! f) \<noteq> tNOP" using w by (simp_all add: whole_prog_def)
  have ci: "closed_inst P {..<length P} (length P - 1) p \<or> p = length P - 1" if "p < length P" for p using w that by (auto simp: whole_prog_def)
  have l: "itype (P ! (length P - 1)) = tEND" "iright (P ! (length P - 1)) = None" 
    unfolding whole_last [OF w] using w by (simp_all add: whole_prog_def)
  have only: "p = length P - 1" if "p < length P" "itype (P ! p) = tEND" for p using w that by (cases "p < length P - 1") (auto simp: whole_prog_def)
  have nq: "nexts_in Q" by (rule opted_nexts_in [OF o whole_nexts_in [OF w]])
  show "wf_prog (Q, f)"
    unfolding wf_prog_def
  proof (intro conjI ballI)
    fix i assume "i \<in> set (fst (Q, f))"
    then obtain p where p: "p < length P" "i = Q ! p" using e by (auto simp: in_set_conv_nth)
    show "itype i = tLBRA \<longrightarrow> isubid i \<noteq> 0" using ci [OF p(1)] l optedD [OF o p(1)] p(2) by (auto simp: closed_inst_def)
    have "j < length Q" if "iright i = Some j" for j using that ci [OF p(1)] l optedD [OF o p(1)] p(2) e by (auto simp: closed_inst_def)
    then show "\<forall>j. inext i = Some j \<or> iright i = Some j \<longrightarrow> j < length (fst (Q, f))" using nq p e by (auto simp: nexts_in_def)
  qed (use f e in simp)
  have paths: "(mstep Q tx eol)\<^sup>*\<^sup>* (f, b) (length P - 1, e) \<longleftrightarrow> L tx eol b e"
  proof
    assume "(mstep Q tx eol)\<^sup>*\<^sup>* (f, b) (length P - 1, e)"
    then show "L tx eol b e" using opt_paths_back [OF w o f(1)] w by (simp add: whole_prog_def)
  next
    assume "L tx eol b e"
    then have "(cstep P tx eol)\<^sup>*\<^sup>* (f, b) (length P - 1, e)" using w by (simp add: whole_prog_def)
    then show "(mstep Q tx eol)\<^sup>*\<^sup>* (f, b) (length P - 1, e)" using opt_paths [OF w o, of tx eol "(f, b)" e f] f by simp
  qed
  have "(\<exists>q. (mstep Q tx eol)\<^sup>*\<^sup>* (f, b) (q, e) \<and> itype (Q ! q) = tEND) \<longleftrightarrow> (mstep Q tx eol)\<^sup>*\<^sup>* (f, b) (length P - 1, e)"
  proof
    assume "\<exists>q. (mstep Q tx eol)\<^sup>*\<^sup>* (f, b) (q, e) \<and> itype (Q ! q) = tEND"
    then obtain q where q: "(mstep Q tx eol)\<^sup>*\<^sup>* (f, b) (q, e)" "itype (Q ! q) = tEND" by blast
    have "q < length P" using opt_paths_back [OF w o f(1) q(1)] by simp
    then have "q = length P - 1" using only q(2) optedD(1) [OF o] by simp
    then show "(mstep Q tx eol)\<^sup>*\<^sup>* (f, b) (length P - 1, e)" using q(1) by simp
  qed (use l optedD(1) [OF o] f in auto)
  then show "match_at (Q, f) tx eol s0 b e \<longleftrightarrow> (adv tx eol)\<^sup>*\<^sup>* s0 b \<and> L tx eol b e"
    using paths by (auto simp: match_at_def reaches_def)
qed

section \<open>The theorem\<close>

text \<open>
  C38. When \<open>regcomp\<close> succeeds, the tokens of the expression are derived from exactly one tree of the grammar (or there are
  none), the program is well formed, and it matches between two positions what the tree matches there: the stack machine of
  \<open>evaluntil\<close> with its \<open>NOP\<close>s and \<open>optimize\<close> refine the expression, whatever the order in which operators are evaluated.
  An expression that the grammar does not derive is an error.
\<close>

theorem regcomp_correct:
  assumes run: "regcomp1 s literal dot = Inr pg" and dot: "dot \<in> {tANY, tANYNL}"
  shows "wf_prog pg \<and> (\<exists>ts L. tokens (length s) literal dot (pinit s) = Inr ts \<and> means ts L \<and> (\<forall>L'. means ts L' \<longrightarrow> L' = L) \<and>
    (\<forall>tx eol s0 b e. match_at pg tx eol s0 b e \<longleftrightarrow> (adv tx eol)\<^sup>*\<^sup>* s0 b \<and> L tx eol b e))"
proof -
  obtain Q f where pg: "pg = (Q, f)" by (cases pg)
  obtain us P L where r: "tokens (length s) literal dot (pinit s) = Inr us" "means us L" "whole_prog P f L" "optimize P = Inr Q"
    by (rule regcomp1_shape [OF run [unfolded pg] dot])
  show ?thesis using r(1,2) whole_optimize [OF r(3,4)] means_unique [OF r(2)] unfolding pg by blast
qed

definition toks_aplusb :: "token list" where
  "toks_aplusb = [TAtom ((binst tRUNE)\<lparr>ir := 97\<rparr>), TPost tPLUS, TAtom ((binst tRUNE)\<lparr>ir := 98\<rparr>)]"

lemma tokens_aplusb: "tokens (Suc (Suc (Suc 0))) False tANY (pinit [97, 43, 98]) = Inr toks_aplusb"
  by (simp add: tokens.simps comp_eval toks_aplusb_def token_of_def atom_inst_def cong: bindR_weak_cong)

theorem regcomp_correct_witness: "wf_prog prog_aplusb \<and> (\<exists>L. means toks_aplusb L \<and>
    (\<forall>tx eol s0 b e. match_at prog_aplusb tx eol s0 b e \<longleftrightarrow> (adv tx eol)\<^sup>*\<^sup>* s0 b \<and> L tx eol b e))"
  using regcomp_correct [of "[97, 43, 98]" False tANY, OF prog_aplusb_compiled [unfolded regcomp_def]] tokens_aplusb by auto

end
