(* ===== verification/Spec2Isabelle.thy ===== *)
theory Spec2Isabelle
  imports DisRun DisString Qio Styx SchedInv HeapSweep PoolRun DigestVectors Cipher RegexLang
begin

text \<open>
  Inferno: the Dis virtual machine and the emulator that hosts it.

  \<^bold>\<open>The program.\<close> Limbo programs are compiled to Dis object files. The emulator (\<^verbatim>\<open>src/emu\<close>) loads them, and the
  virtual machine (\<^verbatim>\<open>src/interp\<close>) interprets them or compiles them further: it decodes instructions and their operands,
  keeps a heap of reference counted blocks with an incremental collector behind it, and runs programs by turns; they
  communicate over channels. The emulator gives them storage (pools), queues between devices and readers, and files
  over the Styx protocol; libraries code runes, compute digests and match regular expressions.

  \<^bold>\<open>Shared theories.\<close> \<^verbatim>\<open>Prelude\<close> has the machine integers (ILP32), the results \<open>'a res\<close>
  (\<open>Inl\<close> an error: a raised message, a machine trap, behaviour that C leaves undefined, or a loop that has used its fuel),
  and lemmas on words and lists. Three interfaces are locales: \<^verbatim>\<open>Codec\<close> (an encoder of one item and a decoder at the
  front of a stream, with the round trip of whole sequences), \<^verbatim>\<open>Fifo\<close> (an operation that may accept data and one that
  may deliver some, with the order of the stream under any interleaving), \<^verbatim>\<open>Steps\<close> (initial states, steps and an
  invariant). A fourth, \<open>md_hash\<close> of \<^verbatim>\<open>Digest\<close>, is what \<open>md5\<close> and \<open>sha\<close> have in common. Each is interpreted
  by the models of the components that provide it.

  \<^bold>\<open>Components.\<close> A theory for the definitions comes first, then those of their lemmas.

  \<^item> \<^verbatim>\<open>Utf\<close> (\<^verbatim>\<open>lib9/rune.c\<close>, \<^verbatim>\<open>utflen.c\<close>, \<^verbatim>\<open>utfrune.c\<close>, \<^verbatim>\<open>libk/strchr.c\<close>): runes and their bytes. Every rune decodes to
    itself, whatever follows; the scanners work on whole runes.
  \<^item> \<^verbatim>\<open>Operand\<close>, \<^verbatim>\<open>DisFile\<close> (\<^verbatim>\<open>limbo/dis.c\<close>, \<^verbatim>\<open>interp/load.c\<close>): the object file, as the compiler writes it and the loader
    reads it. Instructions and type descriptors come back as they were, branch operands patched to their targets; a
    descriptor is stored in the type table by its identifier, and a store outside the table is the error \<open>Overrun\<close>.
  \<^item> \<^verbatim>\<open>DisDec\<close>, \<^verbatim>\<open>DisExec\<close>, \<^verbatim>\<open>DisExecProps\<close>, \<^verbatim>\<open>DisRun\<close> (\<^verbatim>\<open>interp/dec.c\<close>, \<^verbatim>\<open>optab.h\<close>, \<^verbatim>\<open>xec.c\<close>): the decoders, a table
    of 256 written out as in the code and proved equal to one computed from the addressing modes; the opcodes; the
    loop of \<open>xec\<close> over a memory of words. The operands the machine decodes are those the compiler wrote.
  \<^item> \<^verbatim>\<open>DisString\<close> (\<^verbatim>\<open>interp/string.c\<close>, \<^verbatim>\<open>libk/strncmp.c\<close>): strings in bytes or runes with copy on write. Every
    operation is related to the list of characters it stands for.
  \<^item> \<^verbatim>\<open>DisHeap\<close>, \<^verbatim>\<open>HeapInv\<close>, \<^verbatim>\<open>HeapGC\<close>, \<^verbatim>\<open>HeapSweep\<close> (\<^verbatim>\<open>interp/heap.c\<close>, \<^verbatim>\<open>gc.c\<close>, instructions of \<^verbatim>\<open>xec.c\<close>): reference
    counts and the three colours of the collector. In every reachable state counts cover the pointers of live blocks and
    neither \<open>destroy\<close> nor the sweep frees a block that can be reached. This is for runs (\<open>marked_slice\<close>) in which \<open>slicea\<close>
    never takes a whole array that the collector has still to mark; \<open>sliced_array_is_swept\<close> is a run of the code as it is
    (\<open>any_slice\<close>) that ends with a reachable pointer to a freed block.
  \<^item> \<^verbatim>\<open>Sched\<close>, \<^verbatim>\<open>SchedInv\<close> (\<^verbatim>\<open>emu/dis.c\<close>, \<^verbatim>\<open>interp/alt.c\<close>, \<^verbatim>\<open>xec.c\<close>): the run queue, channels, \<open>alt\<close> and the killing of
    programs, as a step relation. Queues of channels and programs agree in every state reached with kills of programs whose
    operand still holds their channel (\<open>saved_chan\<close>); \<open>any_kill_breaks\<close> is a run of the code as it is (\<open>any_kill\<close>) that
    leaves a freed program in a queue. The channels of an \<open>alt\<close> are those its arrays held when it began, where the code reads
    the arrays again.
  \<^item> \<^verbatim>\<open>Qio\<close> (\<^verbatim>\<open>emu/qio.c\<close>): blocks and queues. The process side and the interrupt side are both byte streams; no wakeup
    is lost between a reader, a writer and their flags. An operation is one step; the window in which \<open>qbread\<close> copies a
    remainder without the lock is modelled apart.
  \<^item> \<^verbatim>\<open>Styx\<close> (\<^verbatim>\<open>emu/styx.c\<close>): messages and directory entries and their bytes.
  \<^item> \<^verbatim>\<open>Pool\<close>, \<^verbatim>\<open>PoolTree\<close>, \<^verbatim>\<open>PoolInv\<close>, \<^verbatim>\<open>PoolRun\<close> (\<^verbatim>\<open>emu/alloc.c\<close>): blocks with headers and tails in chunks, free ones
    in a tree with rings of equal sizes, pointers as addresses. Whatever clients do, live blocks are disjoint and free
    ones coalesced; allocation takes the best fit.
  \<^item> \<^verbatim>\<open>Digest\<close>, \<^verbatim>\<open>DigestVectors\<close>, \<^verbatim>\<open>Cipher\<close> (\<^verbatim>\<open>crypt/md5.c\<close>, \<^verbatim>\<open>sha.c\<close>, \<^verbatim>\<open>rc4.c\<close>, \<^verbatim>\<open>u64.c\<close>): a digest does not depend on how the message is
    cut, and the references agree with published test vectors; the cipher and base 64 come back.
  \<^item> \<^verbatim>\<open>Regex\<close>, \<^verbatim>\<open>RegexExec\<close>, \<^verbatim>\<open>RegexFrag\<close>, \<^verbatim>\<open>RegexGrammar\<close>, \<^verbatim>\<open>RegexLang\<close> (\<^verbatim>\<open>libregexp/regcomp.c\<close>,
    \<^verbatim>\<open>regexec.c\<close>, \<^verbatim>\<open>regaux.c\<close>): the compiler of expressions and the machine. A match is defined as a path through the
    program; the machine returns the leftmost longest one, and the paths through a compiled program are the matches of
    the expression, read by an unambiguous grammar.

  \<^bold>\<open>Bounds and fuel.\<close> Integers keep their width wherever the code can wrap. Loops over lists and bytes are structural or
  have a measure. Fuel appears where a measure depends on an invariant: the walks in the tree of a pool and the search
  for a block take the number of blocks, of which no walk sees one twice; \<open>destroy\<close> takes the number of live blocks, each
  call frees one; the threads of the regular expression machine take the size of the program and of the list, which is
  enough unless empty steps form a cycle (\<open>next_ends\<close>), and the token loop the bytes of the expression. The loop of \<open>xec\<close> counts its quantum. Where fuel could run out the model
  has the result \<open>Loop\<close>, and the properties that say an operation returns exclude it.

  \<^bold>\<open>Hypotheses.\<close> What is not source is a parameter: the real instructions and the module calls of the interpreter,
  \<open>sbrk\<close>. Sleeping and waking in \<^verbatim>\<open>Qio\<close> are the flags and the steps of the two sides.

  \<^bold>\<open>Not modelled.\<close> The compiler front end, the native code compilers and the toolkits (\<^verbatim>\<open>limbo\<close>, \<^verbatim>\<open>interp/comp-*\<close>,
  \<^verbatim>\<open>tk\<close>, \<^verbatim>\<open>prefab\<close>, \<^verbatim>\<open>image\<close>), which are large bodies of code with contracts of their own; reals, since conversions and
  arithmetic depend on the host; in the virtual machine the links between modules, \<open>movmp\<close>, \<open>consm\<close>, \<open>slicela\<close>, the
  extension of stacks and the counts of type descriptors; the channel operations of C procedures and the handover of
  the machine between host processes; the name space and the devices of the emulator and its host interface, which are
  system calls; multi-precision arithmetic and DES; the variants of the regular expression machine on runes, and
  substitution. Pools have no contents and no locks, and their totals are unbounded numbers (\<open>ulong\<close> in the code). Each component of the manifest says what it leaves out.
\<close>

end
